(* ===== verification/Prelude.thy ===== *)
theory Prelude
  imports Main "HOL-Library.Word"
begin

text \<open>
  Shared vocabulary of the development: the machine integers of the amd64 target, a flat
  byte-addressed memory with little-endian 64-bit accesses, and the two reference operations
  that the optimised routines of \<^verbatim>\<open>libc/string\<close> are compared with (copying and filling a
  range of addresses).  A range \<open>[a, a + n)\<close> is described by the offset \<open>unat (x - a) < n\<close>, which
  is meaningful for ranges that wrap around the end of the address space as well.
\<close>

unbundle bit_operations_syntax

subsection \<open>Machine integers\<close>

type_synonym u8 = "8 word"
type_synonym u16 = "16 word"
type_synonym u32 = "32 word"
type_synonym u64 = "64 word"
type_synonym mem = "u64 \<Rightarrow> u8"

text \<open>Collections used by the component proofs.\<close>

named_theorems offset_simps \<open>offsets of addresses into ranges\<close>
named_theorems mem_simps \<open>reads and writes of the flat memory\<close>

lemma unat_lt64: "unat (x :: u64) < 18446744073709551616"
  using unsigned_less [of x] by simp

lemma bytes_lt64: "(unat (x :: u64) + 7) div 8 < 18446744073709551616"
  using unat_lt64 [of x] by (intro less_mult_imp_div_less) linarith

lemma unat_of_nat64 [offset_simps]:
  "k < 18446744073709551616 \<Longrightarrow> unat (of_nat k :: u64) = k"
  by (simp add: unat_of_nat take_bit_eq_mod)

lemma unat_sub64 [offset_simps]:
  "unat (a - b :: u64) =
     (if unat b \<le> unat a then unat a - unat b else unat a + 18446744073709551616 - unat b)"
  by (simp add: unat_sub_if')

lemma unat_add64: "unat a + unat b < 18446744073709551616 \<Longrightarrow> unat (a + b :: u64) = unat a + unat b"
  by (simp add: unat_word_ariths)

lemma unat_off:
  assumes "k < 18446744073709551616"
  shows "unat (x - (a + of_nat k) :: u64) =
     (if k \<le> unat (x - a) then unat (x - a) - k else unat (x - a) + 18446744073709551616 - k)"
proof -
  have "x - (a + of_nat k) = (x - a) - of_nat k" by simp
  then show ?thesis using unat_sub64 [of "x - a" "of_nat k"] unat_of_nat64 [OF assms] by (simp only:)
qed

lemma add_unat_off [simp]: "a + of_nat (unat (x - a)) = (x :: u64)"
  by simp

lemma u64_of_nat_unat: "of_nat (unat w) = (w :: u64)"
  by simp

lemma of_nat_off_inj:
  assumes "i < 18446744073709551616" "j < 18446744073709551616"
  shows "(a + of_nat i = (a + of_nat j :: u64)) = (i = j)"
  using assms by (metis add_left_cancel unat_of_nat64)

lemma unat_pow2: "n < 64 \<Longrightarrow> unat (2 ^ n :: u64) = 2 ^ n"
  using unat_of_nat64 [of "2 ^ n"] power_strict_increasing [of n 64 "2 :: nat"] by simp

lemma measure_up: "(j :: u64) < e \<Longrightarrow> unat (e - (j + 1)) < unat (e - j)"
  using measure_unat [of "e - j"] by (auto simp: diff_diff_eq)

lemma unat_Suc_le: "(j :: u64) < e \<Longrightarrow> unat (j + 1) = Suc (unat j)"
  using unat_lt64 [of e] by (simp add: unat_word_ariths word_less_nat_alt)

lemma nat_lt_8_cases: "(k::nat) < 8 \<Longrightarrow> k = 0 \<or> k = 1 \<or> k = 2 \<or> k = 3 \<or> k = 4 \<or> k = 5 \<or> k = 6 \<or> k = 7"
  by arith

lemma and_1_eq_0 [simp]: "(w :: u64) AND 1 = 0 \<longleftrightarrow> even (unat w)"
  by (simp add: and_one_eq even_iff_mod_2_eq_zero flip: unat_eq_0)
    (simp add: unat_mod_distrib unat_mod)

lemma and_not_mask: "(x :: 'a::len word) AND NOT (mask n) = x - (x AND mask n)"
proof -
  have "x = (x AND NOT (mask n)) OR (x AND mask n)" by (auto simp: bit_eq_iff bit_simps)
  also have "\<dots> = (x AND NOT (mask n)) + (x AND mask n)"
    by (rule disjunctive_add_eq_or [symmetric]) (auto simp: bit_eq_iff bit_simps)
  finally show ?thesis by (metis add_diff_cancel_right')
qed

lemma and_mask_eq_mod: "n < 64 \<Longrightarrow> (x :: u64) AND mask n = x mod 2 ^ n"
  using word_mod_2p_is_mask [of n x] by (simp add: word_gt_0)

lemma and_neg_8: "(x :: u64) AND - 8 = x - x mod 8"
  using and_not_mask [of x 3] and_mask_eq_mod [of 3 x] minus_exp_eq_not_mask [of 3, where 'a = u64]
  by simp

lemma unat_mod_8 [simp]: "unat (x mod 8 :: u64) = unat x mod 8"
  by (simp add: unat_mod_distrib)

lemma unat_div_8 [simp]: "unat (x div 8 :: u64) = unat x div 8"
  by (simp add: unat_div_distrib)

lemma unat_neg_mod_8: "unat ((- x) mod 8 :: u64) = (8 - unat x mod 8) mod 8"
proof (cases "x = 0")
  case False
  then have u: "0 < unat x" "unat x < 18446744073709551616" using unat_lt64 [of x] by (simp_all add: unat_gt_0)
  have neg: "unat (- x) = 18446744073709551616 - unat x"
    using u unat_sub64 [of 0 x] by simp
  obtain a r where ar: "unat x = 8 * a + r" "r < 8" by (metis mod_less_divisor mult_div_mod_eq zero_less_numeral)
  show ?thesis
  proof (cases "r = 0")
    case True
    then have "18446744073709551616 - unat x = 8 * (2305843009213693952 - a)" using ar by simp
    then show ?thesis using True ar by (simp add: neg)
  next
    case False
    then have "18446744073709551616 - unat x = (8 - r) + 8 * (2305843009213693951 - a)" using ar u by simp
    then have "unat (- x) mod 8 = (8 - r) mod 8" by (simp only: neg mod_mult_self2)
    then show ?thesis using ar by simp
  qed
qed simp

lemma neg_mod_8_step:
  assumes "x mod 8 \<noteq> (0 :: u64)"
  shows "unat ((- x) mod 8) = Suc (unat ((- (x + 1)) mod 8))"
proof -
  have "unat x mod 8 \<noteq> 0" "unat x mod 8 < 8" using assms by (simp_all add: word_unat_eq_iff)
  then have "(8 - unat x mod 8) mod 8 = Suc ((8 - Suc (unat x mod 8) mod 8) mod 8)"
    by (drule_tac nat_lt_8_cases) (elim disjE; simp)
  moreover have "unat (x + 1) mod 8 = Suc (unat x mod 8) mod 8"
    by (simp add: unat_word_ariths mod_mod_cancel mod_Suc_eq)
  ultimately show ?thesis unfolding unat_neg_mod_8 by simp
qed

subsection \<open>Conversions between widths\<close>

lemma ucast_ucast_up:
  "LENGTH('a::len) \<le> LENGTH('b::len) \<Longrightarrow> ucast (ucast (x :: 'a word) :: 'b word) = (ucast x :: 'c::len word)"
  by (rule bit_word_eqI) (auto simp: bit_simps dest: bit_imp_le_length)

lemma ucast_up_inj:
  "LENGTH('a::len) \<le> LENGTH('b::len) \<Longrightarrow> ucast (x :: 'a word) = (ucast y :: 'b word) \<longleftrightarrow> x = y"
  by (metis ucast_id ucast_ucast_up)

lemma ucast_scast_up: "LENGTH('a::len) \<le> LENGTH('b::len) \<Longrightarrow> ucast (scast (r :: 'a word) :: 'b word) = r"
  by (rule bit_word_eqI) (auto simp: bit_simps)

lemma scast_up_eq_0: "LENGTH('a::len) \<le> LENGTH('b::len) \<Longrightarrow> (scast (r :: 'a word) :: 'b word) = 0 \<longleftrightarrow> r = 0"
  by (metis scast_0 ucast_0 ucast_scast_up)

lemma unat_ucast_up:
  assumes "LENGTH('a::len) \<le> LENGTH('b::len)"
  shows "unat (ucast (x :: 'a word) :: 'b word) = unat x"
proof -
  have "unat x < 2 ^ LENGTH('b)"
    using unsigned_less [of x, where 'a = nat] power_increasing [OF assms, of "2 :: nat"] by linarith
  then show ?thesis by (simp add: unsigned_ucast_eq take_bit_nat_eq_self)
qed

lemma trunc32_diff: "ucast (a - b :: u64) = (ucast a - ucast b :: u32)"
  by (simp add: word_uint_eq_iff uint_word_ariths unsigned_ucast_eq take_bit_eq_mod mod_simps mod_mod_cancel)

subsection \<open>Forward simulations\<close>

text \<open>
  The contract between a detailed transition system and its specification: related initial
  states, and every detailed step answered by a step of the specification.
\<close>

locale forward_simulation =
  fixes cstep :: "'s \<Rightarrow> 's \<Rightarrow> bool" and cinit :: 's
    and astep :: "'a \<Rightarrow> 'a \<Rightarrow> bool" and ainit :: 'a
    and related :: "'a \<Rightarrow> 's \<Rightarrow> bool"
  assumes related_init: "related ainit cinit"
    and related_step: "cstep s s' \<Longrightarrow> related a s \<Longrightarrow> \<exists>a'. astep a a' \<and> related a' s'"
begin

lemma simulates: "cstep\<^sup>*\<^sup>* cinit s \<Longrightarrow> \<exists>a. astep\<^sup>*\<^sup>* ainit a \<and> related a s"
proof (induction rule: rtranclp_induct)
  case base
  then show ?case using related_init by blast
next
  case (step s s')
  then show ?case using related_step by (meson rtranclp.rtrancl_into_rtrancl)
qed

lemma invariant_transfer:
  assumes "cstep\<^sup>*\<^sup>* cinit s" "\<And>a. astep\<^sup>*\<^sup>* ainit a \<Longrightarrow> related a s \<Longrightarrow> P s"
  shows "P s"
  using simulates [OF assms(1)] assms(2) by blast

end

subsection \<open>Little-endian words in a byte memory\<close>

definition byte_of :: "nat \<Rightarrow> u64 \<Rightarrow> u8" where
  "byte_of k w = ucast (drop_bit (8 * k) w)"

definition load64 :: "mem \<Rightarrow> u64 \<Rightarrow> u64" where
  "load64 m a = ucast (m a) OR push_bit 8 (ucast (m (a + 1))) OR push_bit 16 (ucast (m (a + 2)))
     OR push_bit 24 (ucast (m (a + 3))) OR push_bit 32 (ucast (m (a + 4)))
     OR push_bit 40 (ucast (m (a + 5))) OR push_bit 48 (ucast (m (a + 6)))
     OR push_bit 56 (ucast (m (a + 7)))"

definition store64 :: "mem \<Rightarrow> u64 \<Rightarrow> u64 \<Rightarrow> mem" where
  "store64 m a w = m(a := byte_of 0 w, a + 1 := byte_of 1 w, a + 2 := byte_of 2 w,
     a + 3 := byte_of 3 w, a + 4 := byte_of 4 w, a + 5 := byte_of 5 w, a + 6 := byte_of 6 w,
     a + 7 := byte_of 7 w)"

lemma bit_byte_of: "bit (byte_of k w) i \<longleftrightarrow> i < 8 \<and> bit w (8 * k + i)"
  by (auto simp: byte_of_def bit_simps)

lemma bit_load64_lt: "k < 8 \<Longrightarrow> i < 8 \<Longrightarrow> bit (load64 m a) (8 * k + i) = bit (m (a + of_nat k)) i"
  by (drule nat_lt_8_cases) (elim disjE; auto simp: load64_def bit_simps dest: bit_imp_le_length)

lemma byte_of_load64 [mem_simps]: "k < 8 \<Longrightarrow> byte_of k (load64 m a) = m (a + of_nat k)"
  by (rule bit_word_eqI) (simp add: bit_byte_of bit_load64_lt)

lemma store64_apply [mem_simps]:
  "store64 m a w x = (if unat (x - a) < 8 then byte_of (unat (x - a)) w else m x)"
proof (cases "unat (x - a) < 8")
  case True
  have x: "x = a + of_nat (unat (x - a))" by simp
  obtain k where k: "unat (x - a) = k" "k < 8" using True by blast
  have "store64 m a w (a + of_nat k) = byte_of k w"
    using nat_lt_8_cases [OF k(2)] by (elim disjE) (simp_all add: store64_def)
  then show ?thesis using k x True by metis
next
  case False
  then have "x \<noteq> a + of_nat k" if "k < 8" for k
    using that by (auto simp: unat_of_nat64)
  from this [of 0] this [of 1] this [of 2] this [of 3] this [of 4] this [of 5] this [of 6]
    this [of 7]
  show ?thesis using False by (simp add: store64_def)
qed

lemma u64_eq_bytes: "(\<And>k. k < 8 \<Longrightarrow> byte_of k v = byte_of k w) \<Longrightarrow> v = w"
proof (rule bit_word_eqI)
  fix n assume eq: "\<And>k. k < 8 \<Longrightarrow> byte_of k v = byte_of k w" and "n < LENGTH(64)"
  then have "n div 8 < 8" "n mod 8 < 8" by simp_all
  then have "bit (byte_of (n div 8) v) (n mod 8) = bit (byte_of (n div 8) w) (n mod 8)"
    using eq by simp
  then show "bit v n = bit w n" by (simp add: bit_byte_of)
qed

lemma load64_store64 [mem_simps]: "load64 (store64 m a w) a = w"
  by (rule u64_eq_bytes) (simp add: mem_simps offset_simps)

lemma load64_cong: "(\<And>k. k < 8 \<Longrightarrow> m' (a + of_nat k) = m (a + of_nat k)) \<Longrightarrow> load64 m' a = load64 m a"
  by (rule u64_eq_bytes) (simp add: mem_simps)

lemma load64_store64_far:
  assumes "8 \<le> unat (b - a)" "unat (b - a) \<le> 18446744073709551608"
  shows "load64 (store64 m a v) b = load64 m b"
proof (rule load64_cong)
  fix k :: nat
  assume k: "k < 8"
  have "b + of_nat k - a = (b - a) + of_nat k" by simp
  moreover have "unat ((b - a) + of_nat k) = unat (b - a) + k"
    using assms(2) k unat_add64 [of "b - a" "of_nat k"] unat_of_nat64 [of k] by simp
  ultimately have "\<not> unat (b + of_nat k - a) < 8" using assms(1) by (simp only:)
  then show "store64 m a v (b + of_nat k) = m (b + of_nat k)" by (simp add: store64_apply)
qed

subsection \<open>Reference operations on ranges of memory\<close>

definition copy_bytes :: "mem \<Rightarrow> u64 \<Rightarrow> u64 \<Rightarrow> nat \<Rightarrow> mem" where
  "copy_bytes m d s n = (\<lambda>x. if unat (x - d) < n then m (s + (x - d)) else m x)"

definition fill_bytes :: "mem \<Rightarrow> u64 \<Rightarrow> u8 \<Rightarrow> nat \<Rightarrow> mem" where
  "fill_bytes m d c n = (\<lambda>x. if unat (x - d) < n then c else m x)"

definition bytes_at :: "mem \<Rightarrow> u64 \<Rightarrow> nat \<Rightarrow> u8 list" where
  "bytes_at m a n = map (\<lambda>i. m (a + of_nat i)) [0..<n]"

lemma bytes_at_0 [simp]: "bytes_at m a 0 = []"
  by (simp add: bytes_at_def)

lemma length_bytes_at [simp]: "length (bytes_at m a n) = n"
  by (simp add: bytes_at_def)

lemma nth_bytes_at [simp]: "i < n \<Longrightarrow> bytes_at m a n ! i = m (a + of_nat i)"
  by (simp add: bytes_at_def)

lemma bytes_at_Suc: "bytes_at m p (Suc n) = m p # bytes_at m (p + 1) n"
  unfolding bytes_at_def by (subst upt_conv_Cons) (simp_all add: map_Suc_upt [symmetric] add_ac del: upt_Suc)

lemma bytes_at_numeral: "bytes_at m p (numeral k) = m p # bytes_at m (p + 1) (pred_numeral k)"
  by (simp add: numeral_eq_Suc bytes_at_Suc)

lemma copy_bytes_0 [simp]: "copy_bytes m d s 0 = m"
  by (simp add: copy_bytes_def)

lemma copy_bytes_same [simp]: "copy_bytes m d d n = m"
  by (simp add: copy_bytes_def fun_eq_iff)

lemma fill_bytes_0 [simp]: "fill_bytes m d c 0 = m"
  by (simp add: fill_bytes_def)

lemma copy_bytes_Suc_0: "copy_bytes m d s (Suc 0) = m(d := m s)"
  by (auto simp: copy_bytes_def fun_eq_iff unat_eq_0)

lemma copy_bytes_at:
  "i < 18446744073709551616 \<Longrightarrow> copy_bytes m d s n (d + of_nat i) = (if i < n then m (s + of_nat i) else m (d + of_nat i))"
  by (simp add: copy_bytes_def unat_of_nat64)

lemma copy_bytes_word: "store64 m d (load64 m s) = copy_bytes m d s 8"
  by (auto simp: fun_eq_iff copy_bytes_def mem_simps)

text \<open>Copying forwards piece by piece, and backwards piece by piece.\<close>

lemma copy_bytes_fwd:
  assumes "a + b \<le> unat (d - s)"
  shows "copy_bytes (copy_bytes m d s a) (d + of_nat a) (s + of_nat a) b = copy_bytes m d s (a + b)"
proof (rule ext)
  fix x
  have lt: "a + b < 18446744073709551616" using assms unat_lt64 [of "d - s"] by linarith
  have rd: "s + of_nat a + (x - (d + of_nat a)) = s + (x - d)" by simp
  have off: "s + (x - d) - d = (x - d) - (d - s)" by simp
  have "\<not> unat (s + (x - d) - d) < a" if "a \<le> unat (x - d)" "unat (x - d) < a + b"
    using that assms unat_lt64 [of "d - s"] unfolding off unat_sub64 [of "x - d" "d - s"] by auto
  then show "copy_bytes (copy_bytes m d s a) (d + of_nat a) (s + of_nat a) b x = copy_bytes m d s (a + b) x"
    using lt unat_lt64 [of "x - d"] unfolding copy_bytes_def rd by (auto simp: unat_off)
qed

lemma copy_bytes_bwd:
  assumes "a + b \<le> unat (s - d)"
  shows "copy_bytes (copy_bytes m (d + of_nat a) (s + of_nat a) b) d s a = copy_bytes m d s (a + b)"
proof (rule ext)
  fix x
  have lt: "a + b < 18446744073709551616" using assms unat_lt64 [of "s - d"] by linarith
  have rd: "s + of_nat a + (x - (d + of_nat a)) = s + (x - d)" by simp
  have off: "s + (x - d) - (d + of_nat a) = (s - d) - (of_nat a - (x - d))" by simp
  have "\<not> unat (s + (x - d) - (d + of_nat a)) < b" if "unat (x - d) < a"
    using that assms lt unfolding off unat_sub64 [of "s - d"]
    by (auto simp: unat_sub64 [of "of_nat a" "x - d"] unat_of_nat64)
  then show "copy_bytes (copy_bytes m (d + of_nat a) (s + of_nat a) b) d s a x = copy_bytes m d s (a + b) x"
    using lt unat_lt64 [of "x - d"] unfolding copy_bytes_def rd by (auto simp: unat_off)
qed

text \<open>
  A destination that does not start inside the source can be filled front to back, and a source
  that does not start inside the destination back to front.
\<close>

definition fwd_ok :: "u64 \<Rightarrow> u64 \<Rightarrow> nat \<Rightarrow> bool" where
  "fwd_ok d s n \<longleftrightarrow> n \<le> unat (d - s) \<or> d = s"

definition bwd_ok :: "u64 \<Rightarrow> u64 \<Rightarrow> nat \<Rightarrow> bool" where
  "bwd_ok d s n \<longleftrightarrow> n \<le> unat (s - d) \<or> d = s"

lemma fwd_ok_shift [simp]: "fwd_ok (d + k) (s + k) n = fwd_ok d s n"
  by (simp add: fwd_ok_def)

lemma bwd_ok_shift [simp]: "bwd_ok (d + k) (s + k) n = bwd_ok d s n"
  by (simp add: bwd_ok_def)

lemma fwd_ok_mono: "fwd_ok d s n \<Longrightarrow> k \<le> n \<Longrightarrow> fwd_ok d s k"
  by (auto simp: fwd_ok_def)

lemma bwd_ok_mono: "bwd_ok d s n \<Longrightarrow> k \<le> n \<Longrightarrow> bwd_ok d s k"
  by (auto simp: bwd_ok_def)

lemma copy_bytes_fwd_app:
  "fwd_ok d s (a + b) \<Longrightarrow>
   copy_bytes (copy_bytes m d s a) (d + of_nat a) (s + of_nat a) b = copy_bytes m d s (a + b)"
  using copy_bytes_fwd by (auto simp: fwd_ok_def)

lemma copy_bytes_bwd_app:
  "bwd_ok d s (a + b) \<Longrightarrow>
   copy_bytes (copy_bytes m (d + of_nat a) (s + of_nat a) b) d s a = copy_bytes m d s (a + b)"
  using copy_bytes_bwd by (auto simp: bwd_ok_def)

lemma fill_bytes_app:
  assumes "a + b < 18446744073709551616"
  shows "fill_bytes (fill_bytes m d c a) (d + of_nat a) c b = fill_bytes m d c (a + b)"
proof (rule ext)
  fix x
  show "fill_bytes (fill_bytes m d c a) (d + of_nat a) c b x = fill_bytes m d c (a + b) x"
    using assms unat_lt64 [of "x - d"] unfolding fill_bytes_def by (auto simp: unat_off)
qed

subsection \<open>Error codes\<close>

text \<open>The codes of \<^verbatim>\<open>errno.h\<close> that the components return.\<close>

definition SYSTEM_OK :: int where "SYSTEM_OK = 0"
definition SYSTEM_ERR_INTERNAL :: int where "SYSTEM_ERR_INTERNAL = - 1"
definition SYSTEM_ERR_BUFFER_TOO_SMALL :: int where "SYSTEM_ERR_BUFFER_TOO_SMALL = - 15"
definition SYSTEM_ERR_CANCELED :: int where "SYSTEM_ERR_CANCELED = - 23"
definition SYSTEM_ERR_ADDRESS_UNREACHABLE :: int where "SYSTEM_ERR_ADDRESS_UNREACHABLE = - 71"

end
