(* ===== verification/Memcopy.thy ===== *)
theory Memcopy
  imports Prelude
begin

text \<open>
  The block copy routines of \<^verbatim>\<open>libc/string\<close>: the byte and word loops of \<^verbatim>\<open>memcopy.h\<close> and
  \<^verbatim>\<open>memcopy.c\<close>, and \<^verbatim>\<open>memcpy\<close> and \<^verbatim>\<open>memmove\<close> built from them.  A routine returns \<open>None\<close> where the
  code would not return; addresses and lengths are 64-bit words.
\<close>

subsection \<open>Definitions\<close>

definition OP_T_THRES :: u64 where "OP_T_THRES = 16"

definition OPSIZ :: u64 where "OPSIZ = 8"

definition MERGE :: "u64 \<Rightarrow> nat \<Rightarrow> u64 \<Rightarrow> nat \<Rightarrow> u64" where
  "MERGE w0 sh_1 w1 sh_2 = drop_bit sh_1 w0 OR push_bit sh_2 w1"

function BYTE_COPY_FWD :: "mem \<Rightarrow> u64 \<Rightarrow> u64 \<Rightarrow> u64 \<Rightarrow> mem \<times> u64 \<times> u64" where
  "BYTE_COPY_FWD m dst_bp src_bp nbytes =
     (if nbytes > 0
      then let x = m src_bp in BYTE_COPY_FWD (m(dst_bp := x)) (dst_bp + 1) (src_bp + 1) (nbytes - 1)
      else (m, dst_bp, src_bp))"
  by pat_completeness auto
termination
  by (relation "measure (\<lambda>(m, d, s, n). unat n)") (auto intro: measure_unat)

function BYTE_COPY_BWD :: "mem \<Rightarrow> u64 \<Rightarrow> u64 \<Rightarrow> u64 \<Rightarrow> mem \<times> u64 \<times> u64" where
  "BYTE_COPY_BWD m dst_ep src_ep nbytes =
     (if nbytes > 0
      then let src_ep = src_ep - 1; x = m src_ep; dst_ep = dst_ep - 1
           in BYTE_COPY_BWD (m(dst_ep := x)) dst_ep src_ep (nbytes - 1)
      else (m, dst_ep, src_ep))"
  by pat_completeness auto
termination
  by (relation "measure (\<lambda>(m, d, s, n). unat n)") (auto intro: measure_unat)

declare BYTE_COPY_FWD.simps [simp del] BYTE_COPY_BWD.simps [simp del]

partial_function (option) wordcopy_fwd_aligned_loop :: "mem \<Rightarrow> u64 \<Rightarrow> u64 \<Rightarrow> u64 \<Rightarrow> mem option" where
  "wordcopy_fwd_aligned_loop m dstp srcp len =
     (let a0 = load64 m srcp;
          a1 = load64 m (srcp + OPSIZ);
          m = store64 (store64 m dstp a0) (dstp + OPSIZ) a1;
          len = len - 2
      in if len \<noteq> 0 then wordcopy_fwd_aligned_loop m (dstp + 2 * OPSIZ) (srcp + 2 * OPSIZ) len
         else Some m)"

definition wordcopy_fwd_aligned :: "mem \<Rightarrow> u64 \<Rightarrow> u64 \<Rightarrow> u64 \<Rightarrow> mem option" where
  "wordcopy_fwd_aligned m dstp srcp len =
     (if len AND 1 \<noteq> 0
      then let m = store64 m dstp (load64 m srcp)
           in if len = 1 then Some m
              else wordcopy_fwd_aligned_loop m (dstp + OPSIZ) (srcp + OPSIZ) (len - 1)
      else wordcopy_fwd_aligned_loop m dstp srcp len)"

partial_function (option) wordcopy_fwd_dest_aligned_loop ::
  "mem \<Rightarrow> nat \<Rightarrow> nat \<Rightarrow> u64 \<Rightarrow> u64 \<Rightarrow> u64 \<Rightarrow> u64 \<Rightarrow> mem option" where
  "wordcopy_fwd_dest_aligned_loop m sh_1 sh_2 a0 dstp srcp len =
     (let a1 = load64 m (srcp + OPSIZ);
          a2 = load64 m (srcp + 2 * OPSIZ);
          m = store64 (store64 m dstp (MERGE a0 sh_1 a1 sh_2)) (dstp + OPSIZ) (MERGE a1 sh_1 a2 sh_2);
          len = len - 2
      in if len \<noteq> 0
         then wordcopy_fwd_dest_aligned_loop m sh_1 sh_2 a2 (dstp + 2 * OPSIZ) (srcp + 2 * OPSIZ) len
         else Some m)"

definition wordcopy_fwd_dest_aligned :: "mem \<Rightarrow> u64 \<Rightarrow> u64 \<Rightarrow> u64 \<Rightarrow> mem option" where
  "wordcopy_fwd_dest_aligned m dstp srcp len =
     (let sh_1 = 8 * unat (srcp mod OPSIZ);
          sh_2 = 64 - sh_1;
          srcp = srcp AND - OPSIZ;
          a0 = load64 m srcp
      in if len AND 1 \<noteq> 0
         then let a1 = load64 m (srcp + OPSIZ);
                  m = store64 m dstp (MERGE a0 sh_1 a1 sh_2)
              in if len = 1 then Some m
                 else wordcopy_fwd_dest_aligned_loop m sh_1 sh_2 a1 (dstp + OPSIZ) (srcp + OPSIZ)
                        (len - 1)
         else wordcopy_fwd_dest_aligned_loop m sh_1 sh_2 a0 dstp srcp len)"

partial_function (option) wordcopy_bwd_aligned_loop :: "mem \<Rightarrow> u64 \<Rightarrow> u64 \<Rightarrow> u64 \<Rightarrow> mem option" where
  "wordcopy_bwd_aligned_loop m dstp srcp len =
     (let srcp = srcp - 2 * OPSIZ;
          dstp = dstp - 2 * OPSIZ;
          a1 = load64 m (srcp + OPSIZ);
          a0 = load64 m srcp;
          m = store64 (store64 m (dstp + OPSIZ) a1) dstp a0;
          len = len - 2
      in if len \<noteq> 0 then wordcopy_bwd_aligned_loop m dstp srcp len else Some m)"

definition wordcopy_bwd_aligned :: "mem \<Rightarrow> u64 \<Rightarrow> u64 \<Rightarrow> u64 \<Rightarrow> mem option" where
  "wordcopy_bwd_aligned m dstp srcp len =
     (if len AND 1 \<noteq> 0
      then let srcp = srcp - OPSIZ;
               dstp = dstp - OPSIZ;
               m = store64 m dstp (load64 m srcp)
           in if len = 1 then Some m else wordcopy_bwd_aligned_loop m dstp srcp (len - 1)
      else wordcopy_bwd_aligned_loop m dstp srcp len)"

partial_function (option) wordcopy_bwd_dest_aligned_loop ::
  "mem \<Rightarrow> nat \<Rightarrow> nat \<Rightarrow> u64 \<Rightarrow> u64 \<Rightarrow> u64 \<Rightarrow> u64 \<Rightarrow> mem option" where
  "wordcopy_bwd_dest_aligned_loop m sh_1 sh_2 a2 dstp srcp len =
     (let srcp = srcp - 2 * OPSIZ;
          dstp = dstp - 2 * OPSIZ;
          a1 = load64 m (srcp + OPSIZ);
          a0 = load64 m srcp;
          m = store64 (store64 m (dstp + OPSIZ) (MERGE a1 sh_1 a2 sh_2)) dstp (MERGE a0 sh_1 a1 sh_2);
          len = len - 2
      in if len \<noteq> 0 then wordcopy_bwd_dest_aligned_loop m sh_1 sh_2 a0 dstp srcp len else Some m)"

definition wordcopy_bwd_dest_aligned :: "mem \<Rightarrow> u64 \<Rightarrow> u64 \<Rightarrow> u64 \<Rightarrow> mem option" where
  "wordcopy_bwd_dest_aligned m dstp srcp len =
     (let sh_1 = 8 * unat (srcp mod OPSIZ);
          sh_2 = 64 - sh_1;
          srcp = srcp AND - OPSIZ;
          a2 = load64 m srcp
      in if len AND 1 \<noteq> 0
         then let srcp = srcp - OPSIZ;
                  dstp = dstp - OPSIZ;
                  a1 = load64 m srcp;
                  m = store64 m dstp (MERGE a1 sh_1 a2 sh_2)
              in if len = 1 then Some m
                 else wordcopy_bwd_dest_aligned_loop m sh_1 sh_2 a1 dstp srcp (len - 1)
         else wordcopy_bwd_dest_aligned_loop m sh_1 sh_2 a2 dstp srcp len)"

definition WORD_COPY_FWD :: "mem \<Rightarrow> u64 \<Rightarrow> u64 \<Rightarrow> u64 \<Rightarrow> (mem \<times> u64 \<times> u64 \<times> u64) option" where
  "WORD_COPY_FWD m dst_bp src_bp nbytes =
     map_option (\<lambda>m. (m, dst_bp + (nbytes AND - OPSIZ), src_bp + (nbytes AND - OPSIZ), nbytes mod OPSIZ))
       (if src_bp mod OPSIZ = 0 then wordcopy_fwd_aligned m dst_bp src_bp (nbytes div OPSIZ)
        else wordcopy_fwd_dest_aligned m dst_bp src_bp (nbytes div OPSIZ))"

definition WORD_COPY_BWD :: "mem \<Rightarrow> u64 \<Rightarrow> u64 \<Rightarrow> u64 \<Rightarrow> (mem \<times> u64 \<times> u64 \<times> u64) option" where
  "WORD_COPY_BWD m dst_ep src_ep nbytes =
     map_option (\<lambda>m. (m, dst_ep - (nbytes AND - OPSIZ), src_ep - (nbytes AND - OPSIZ), nbytes mod OPSIZ))
       (if src_ep mod OPSIZ = 0 then wordcopy_bwd_aligned m dst_ep src_ep (nbytes div OPSIZ)
        else wordcopy_bwd_dest_aligned m dst_ep src_ep (nbytes div OPSIZ))"

definition memcpy :: "mem \<Rightarrow> u64 \<Rightarrow> u64 \<Rightarrow> u64 \<Rightarrow> (mem \<times> u64) option" where
  "memcpy m dest src len =
     (if len \<ge> OP_T_THRES
      then let head = (- dest) mod OPSIZ;
               len = len - head;
               (m, destp, srcp) = BYTE_COPY_FWD m dest src head
           in case WORD_COPY_FWD m destp srcp len of
                None \<Rightarrow> None
              | Some (m, destp, srcp, len) \<Rightarrow> Some (fst (BYTE_COPY_FWD m destp srcp len), dest)
      else Some (fst (BYTE_COPY_FWD m dest src len), dest))"

definition memmove :: "mem \<Rightarrow> u64 \<Rightarrow> u64 \<Rightarrow> u64 \<Rightarrow> (mem \<times> u64) option" where
  "memmove m dest src len =
     (if dest - src \<ge> len then memcpy m dest src len
      else let srcp = src + len; destp = dest + len
           in if len \<ge> OP_T_THRES
              then let tail = destp mod OPSIZ;
                       len = len - tail;
                       (m, destp, srcp) = BYTE_COPY_BWD m destp srcp tail
                   in case WORD_COPY_BWD m destp srcp len of
                        None \<Rightarrow> None
                      | Some (m, destp, srcp, len) \<Rightarrow> Some (fst (BYTE_COPY_BWD m destp srcp len), dest)
              else Some (fst (BYTE_COPY_BWD m destp srcp len), dest))"

subsection \<open>Byte loops\<close>

lemma BYTE_COPY_FWD_correct:
  assumes "fwd_ok d s (unat n)"
  shows "BYTE_COPY_FWD m d s n = (copy_bytes m d s (unat n), d + n, s + n)"
  using assms
proof (induction "unat n" arbitrary: m d s n)
  case 0
  then have "n = 0" by (simp add: unat_eq_0)
  then show ?case by (subst BYTE_COPY_FWD.simps) simp
next
  case (Suc k)
  then have n0: "n \<noteq> 0" by auto
  then have n: "unat n = 1 + unat (n - 1)" using unat_minus_one [of n] by (simp add: unat_gt_0)
  have "BYTE_COPY_FWD m d s n = BYTE_COPY_FWD (copy_bytes m d s 1) (d + 1) (s + 1) (n - 1)"
    using n0 by (subst BYTE_COPY_FWD.simps) (simp add: copy_bytes_Suc_0 word_gt_0)
  also have "\<dots> = (copy_bytes (copy_bytes m d s 1) (d + 1) (s + 1) (unat (n - 1)),
      d + 1 + (n - 1), s + 1 + (n - 1))"
    using Suc.hyps(2) n Suc.prems by (intro Suc.hyps(1)) (auto intro: fwd_ok_mono)
  also have "copy_bytes (copy_bytes m d s 1) (d + 1) (s + 1) (unat (n - 1)) = copy_bytes m d s (unat n)"
    using copy_bytes_fwd_app [of d s 1 "unat (n - 1)" m] Suc.prems n by simp
  finally show ?case by simp
qed

lemma BYTE_COPY_BWD_correct:
  assumes "bwd_ok d s (unat n)"
  shows "BYTE_COPY_BWD m (d + n) (s + n) n = (copy_bytes m d s (unat n), d, s)"
  using assms
proof (induction "unat n" arbitrary: m n)
  case 0
  then have "n = 0" by (simp add: unat_eq_0)
  then show ?case by (subst BYTE_COPY_BWD.simps) simp
next
  case (Suc k)
  then have n0: "n \<noteq> 0" by auto
  then have n: "unat n = unat (n - 1) + 1" using unat_minus_one [of n] by (simp add: unat_gt_0)
  have "BYTE_COPY_BWD m (d + n) (s + n) n
      = BYTE_COPY_BWD (copy_bytes m (d + (n - 1)) (s + (n - 1)) 1) (d + (n - 1)) (s + (n - 1)) (n - 1)"
    using n0 by (subst BYTE_COPY_BWD.simps) (simp add: copy_bytes_Suc_0 word_gt_0 Let_def algebra_simps)
  also have "\<dots> = (copy_bytes (copy_bytes m (d + (n - 1)) (s + (n - 1)) 1) d s (unat (n - 1)), d, s)"
    using Suc.hyps(2) n Suc.prems by (intro Suc.hyps(1)) (auto intro: bwd_ok_mono)
  also have "copy_bytes (copy_bytes m (d + (n - 1)) (s + (n - 1)) 1) d s (unat (n - 1))
      = copy_bytes m d s (unat n)"
    using copy_bytes_bwd_app [of d s "unat (n - 1)" 1 m] Suc.prems n by simp
  finally show ?case .
qed

subsection \<open>Word loops\<close>

lemma unat_off8: "unat (x - (d + 8) :: u64) =
    (if 8 \<le> unat (x - d) then unat (x - d) - 8 else unat (x - d) + 18446744073709551616 - 8)"
  using unat_off [of 8 x d] by simp

lemma store64_copy:
  assumes "\<And>j. j < 8 \<Longrightarrow> byte_of j w = m (s + of_nat j)"
  shows "store64 m d w = copy_bytes m d s 8"
  using assms by (auto simp: fun_eq_iff copy_bytes_def mem_simps)

lemma store64_pair:
  assumes "\<And>j. j < 8 \<Longrightarrow> byte_of j w0 = m (s + of_nat j)"
    and "\<And>j. j < 8 \<Longrightarrow> byte_of j w1 = m (s + 8 + of_nat j)"
  shows "store64 (store64 m d w0) (d + 8) w1 = copy_bytes m d s 16" (is ?fwd)
    and "store64 (store64 m (d + 8) w1) d w0 = copy_bytes m d s 16" (is ?bwd)
proof -
  have hi: "byte_of (unat (x - d) - 8) w1 = m (s + (x - d))"
    if "8 \<le> unat (x - d)" "unat (x - d) < 16" for x
    using that assms(2) [of "unat (x - d) - 8"] by (simp add: of_nat_diff)
  have lo: "byte_of (unat (x - d)) w0 = m (s + (x - d))" if "unat (x - d) < 8" for x
    using that assms(1) [of "unat (x - d)"] by simp
  have lt: "unat (x - d) < 18446744073709551616" for x by (rule unat_lt64)
  show ?fwd
    using lt by (auto simp: fun_eq_iff copy_bytes_def mem_simps unat_off8 hi lo)
  show ?bwd
    using lt by (auto simp: fun_eq_iff copy_bytes_def mem_simps unat_off8 hi lo)
qed

lemma copy_bytes_unread:
  assumes "fwd_ok d s n" "a \<le> i" "i < n"
  shows "copy_bytes m d s a (s + of_nat i) = m (s + of_nat i)"
proof (cases "d = s")
  case False
  then have n: "n \<le> unat (d - s)" using assms(1) by (simp add: fwd_ok_def)
  have lt: "unat (d - s) < 18446744073709551616" by (rule unat_lt64)
  have e: "s + of_nat i - d = of_nat i - (d - s)" by simp
  have "unat (s + of_nat i - d) = i + 18446744073709551616 - unat (d - s)"
    unfolding e unat_sub64 [of "of_nat i" "d - s"] using n lt assms(3) by (simp add: unat_of_nat64)
  then have "\<not> unat (s + of_nat i - d) < a" using assms n lt by simp
  then show ?thesis by (simp add: copy_bytes_def)
qed simp

lemma copy_bytes_unread_bwd:
  assumes "bwd_ok d s n" "i < a" "a + b \<le> n"
  shows "copy_bytes m (d + of_nat a) (s + of_nat a) b (s + of_nat i) = m (s + of_nat i)"
proof (cases "d = s")
  case False
  then have n: "n \<le> unat (s - d)" using assms(1) by (simp add: bwd_ok_def)
  have lt: "unat (s - d) < 18446744073709551616" by (rule unat_lt64)
  have e: "s + of_nat i - (d + of_nat a) = (s - d) - of_nat (a - i)"
    using assms by (simp add: of_nat_diff)
  have u: "unat (of_nat (a - i) :: u64) = a - i"
    using n lt assms by (intro unat_of_nat64) linarith
  have "unat (s + of_nat i - (d + of_nat a)) = unat (s - d) - (a - i)"
    unfolding e unat_sub64 [of "s - d" "of_nat (a - i)"] u using n lt assms by simp
  then have "\<not> unat (s + of_nat i - (d + of_nat a)) < b" using assms n lt by simp
  then show ?thesis by (simp add: copy_bytes_def)
qed simp

lemma byte_of_MERGE:
  assumes "0 < k" "k < 8" "j < 8"
  shows "byte_of j (MERGE w0 (8 * k) w1 (64 - 8 * k)) =
     (if j + k < 8 then byte_of (j + k) w0 else byte_of (j + k - 8) w1)"
proof (rule bit_word_eqI)
  fix i assume "i < LENGTH(8)"
  then have i: "i < 8" by simp
  have "bit w0 (8 * k + (8 * j + i)) = False" if "8 \<le> j + k"
    using that bit_imp_le_length [of w0 "8 * k + (8 * j + i)"] by auto
  moreover have "\<not> 64 - 8 * k \<le> 8 * j + i" if "j + k < 8" using that i by arith
  moreover have "8 * j + i - (64 - 8 * k) = 8 * (j + k - 8) + i" if "8 \<le> j + k" using that assms by arith
  ultimately show "bit (byte_of j (MERGE w0 (8 * k) w1 (64 - 8 * k))) i =
     bit (if j + k < 8 then byte_of (j + k) w0 else byte_of (j + k - 8) w1) i"
    using i assms by (auto simp: bit_byte_of MERGE_def bit_simps algebra_simps)
qed

lemma even_len_dec:
  assumes "len = of_nat (2 * Suc q)" "16 * Suc q < 18446744073709551616"
  shows "len - 2 = (of_nat (2 * q) :: u64)" "(len - 2 = 0) = (q = 0)"
proof -
  show eq: "len - 2 = of_nat (2 * q)" using assms(1) by simp
  have "unat (of_nat (2 * q) :: u64) = 2 * q" using assms(2) by (intro unat_of_nat64) simp
  then show "(len - 2 = 0) = (q = 0)" unfolding eq by (metis mult_is_0 unat_eq_0 zero_neq_numeral)
qed

lemma fwd_aligned_loop_correct:
  assumes "0 < q" "len = of_nat (2 * q)" "fwd_ok d s (16 * q)" "16 * q < 18446744073709551616"
  shows "wordcopy_fwd_aligned_loop m d s len = Some (copy_bytes m d s (16 * q))"
  using assms
proof (induction q arbitrary: m d s len)
  case (Suc q)
  note len = even_len_dec [OF Suc.prems(2,4)]
  have step: "store64 (store64 m d (load64 m s)) (d + OPSIZ) (load64 m (s + OPSIZ)) = copy_bytes m d s 16"
    unfolding OPSIZ_def by (rule store64_pair) (simp_all add: mem_simps)
  show ?case
  proof (cases "q = 0")
    case True
    then show ?thesis
      using step len by (subst wordcopy_fwd_aligned_loop.simps) simp
  next
    case False
    have ok: "fwd_ok d s (16 + 16 * q)" using Suc.prems(3) by simp
    have "wordcopy_fwd_aligned_loop m d s len
        = wordcopy_fwd_aligned_loop (copy_bytes m d s 16) (d + 16) (s + 16) (of_nat (2 * q))"
      using step len False by (subst wordcopy_fwd_aligned_loop.simps) (simp add: OPSIZ_def)
    also have "\<dots> = Some (copy_bytes (copy_bytes m d s 16) (d + 16) (s + 16) (16 * q))"
      using Suc.prems False by (intro Suc.IH) (auto intro: fwd_ok_mono)
    finally show ?thesis using copy_bytes_fwd_app [OF ok, of m] by simp
  qed
qed simp

lemma fwd_dest_aligned_loop_correct:
  assumes "0 < q" "len = of_nat (2 * q)" "fwd_ok d (s + of_nat k) (16 * q)"
    and "16 * q < 18446744073709551616" and k: "0 < k" "k < 8"
    and "\<And>j. k \<le> j \<Longrightarrow> j < 8 \<Longrightarrow> byte_of j a0 = m (s + of_nat j)"
  shows "wordcopy_fwd_dest_aligned_loop m (8 * k) (64 - 8 * k) a0 d s len
      = Some (copy_bytes m d (s + of_nat k) (16 * q))"
  using assms(1-4,7)
proof (induction q arbitrary: m d s len a0)
  case (Suc q)
  note len = even_len_dec [OF Suc.prems(2,4)]
  let ?a1 = "load64 m (s + 8)" and ?a2 = "load64 m (s + 16)"
  have b0: "byte_of j (MERGE a0 (8 * k) ?a1 (64 - 8 * k)) = m (s + of_nat k + of_nat j)" if "j < 8" for j
    using that k Suc.prems(5) [of "j + k"]
    by (auto simp: byte_of_MERGE mem_simps of_nat_diff add_ac)
  have b1: "byte_of j (MERGE ?a1 (8 * k) ?a2 (64 - 8 * k)) = m (s + of_nat k + 8 + of_nat j)" if "j < 8" for j
    using that k by (auto simp: byte_of_MERGE mem_simps of_nat_diff add_ac)
  have step: "store64 (store64 m d (MERGE a0 (8 * k) ?a1 (64 - 8 * k))) (d + 8)
       (MERGE ?a1 (8 * k) ?a2 (64 - 8 * k)) = copy_bytes m d (s + of_nat k) 16"
    by (rule store64_pair) (simp_all add: b0 b1)
  show ?case
  proof (cases "q = 0")
    case True
    then show ?thesis
      using step len by (subst wordcopy_fwd_dest_aligned_loop.simps) (simp add: OPSIZ_def)
  next
    case False
    have ok: "fwd_ok d (s + of_nat k) (16 + 16 * q)" using Suc.prems(3) by simp
    have inv: "byte_of j ?a2 = copy_bytes m d (s + of_nat k) 16 (s + 16 + of_nat j)"
      if "k \<le> j" "j < 8" for j
      using copy_bytes_unread [OF ok, of 16 "16 + (j - k)" m] that k False
      by (simp add: mem_simps of_nat_diff algebra_simps)
    have "wordcopy_fwd_dest_aligned_loop m (8 * k) (64 - 8 * k) a0 d s len
        = wordcopy_fwd_dest_aligned_loop (copy_bytes m d (s + of_nat k) 16) (8 * k) (64 - 8 * k) ?a2
            (d + 16) (s + 16) (of_nat (2 * q))"
      using step len False by (subst wordcopy_fwd_dest_aligned_loop.simps) (simp add: OPSIZ_def)
    also have "\<dots> = Some (copy_bytes (copy_bytes m d (s + of_nat k) 16) (d + 16) (s + 16 + of_nat k) (16 * q))"
      using Suc.prems(3,4) False ok inv
      by (intro Suc.IH) (auto intro: fwd_ok_mono simp: fwd_ok_def algebra_simps)
    finally show ?thesis
      using copy_bytes_fwd_app [OF ok, of m] by (simp add: algebra_simps)
  qed
qed simp

lemma bwd_aligned_step:
  "wordcopy_bwd_aligned_loop m (d + 16) (s + 16) len =
     (if len - 2 \<noteq> 0 then wordcopy_bwd_aligned_loop (copy_bytes m d s 16) d s (len - 2)
      else Some (copy_bytes m d s 16))"
proof -
  have "store64 (store64 m (d + 8) (load64 m (s + 8))) d (load64 m s) = copy_bytes m d s 16"
    by (rule store64_pair(2)) (simp_all add: mem_simps)
  then show ?thesis by (subst wordcopy_bwd_aligned_loop.simps) (simp add: Let_def OPSIZ_def)
qed

lemma bwd_aligned_loop_correct:
  assumes "0 < q" "len = of_nat (2 * q)" "bwd_ok d s (16 * q)" "16 * q < 18446744073709551616"
  shows "wordcopy_bwd_aligned_loop m (d + of_nat (16 * q)) (s + of_nat (16 * q)) len
      = Some (copy_bytes m d s (16 * q))"
  using assms
proof (induction q arbitrary: m len)
  case (Suc q)
  note len = even_len_dec [OF Suc.prems(2,4)]
  let ?d = "d + of_nat (16 * q)" and ?s = "s + of_nat (16 * q)"
  have "bwd_ok d s (16 * q + 16)" using Suc.prems(3) by (simp add: add.commute)
  note app = copy_bytes_bwd_app [OF this, of m]
  have end_eq: "x + of_nat (16 * Suc q) = x + of_nat (16 * q) + (16 :: u64)" for x by simp
  show ?case
  proof (cases "q = 0")
    case False
    then have "wordcopy_bwd_aligned_loop (copy_bytes m ?d ?s 16) ?d ?s (of_nat (2 * q))
        = Some (copy_bytes (copy_bytes m ?d ?s 16) d s (16 * q))"
      using Suc.prems by (intro Suc.IH) (auto intro: bwd_ok_mono)
    then show ?thesis unfolding end_eq bwd_aligned_step using len False app by (simp add: add.commute)
  qed (use len app in \<open>simp add: bwd_aligned_step\<close>)
qed simp

lemma bwd_dest_aligned_step:
  assumes "0 < k" "k < 8" "\<And>j. j < k \<Longrightarrow> byte_of j a2 = m (s + 16 + of_nat j)"
  shows "wordcopy_bwd_dest_aligned_loop m (8 * k) (64 - 8 * k) a2 (d + 16) (s + 16) len =
     (if len - 2 \<noteq> 0
      then wordcopy_bwd_dest_aligned_loop (copy_bytes m d (s + of_nat k) 16) (8 * k) (64 - 8 * k)
             (load64 m s) d s (len - 2)
      else Some (copy_bytes m d (s + of_nat k) 16))"
proof -
  let ?a1 = "load64 m (s + 8)" and ?a0 = "load64 m s"
  have b0: "byte_of j (MERGE ?a0 (8 * k) ?a1 (64 - 8 * k)) = m (s + of_nat k + of_nat j)" if "j < 8" for j
    using that assms by (auto simp: byte_of_MERGE mem_simps of_nat_diff add_ac)
  have b1: "byte_of j (MERGE ?a1 (8 * k) a2 (64 - 8 * k)) = m (s + of_nat k + 8 + of_nat j)" if "j < 8" for j
    using that assms(1,2) assms(3) [of "j + k - 8"] by (auto simp: byte_of_MERGE mem_simps of_nat_diff add_ac)
  have "store64 (store64 m (d + 8) (MERGE ?a1 (8 * k) a2 (64 - 8 * k))) d
       (MERGE ?a0 (8 * k) ?a1 (64 - 8 * k)) = copy_bytes m d (s + of_nat k) 16"
    by (rule store64_pair(2)) (simp_all add: b0 b1)
  then show ?thesis by (subst wordcopy_bwd_dest_aligned_loop.simps) (simp add: Let_def OPSIZ_def)
qed

lemma bwd_dest_aligned_loop_correct:
  assumes "0 < q" "len = of_nat (2 * q)" "bwd_ok d (s + of_nat k) (16 * q)"
    and "16 * q < 18446744073709551616" and k: "0 < k" "k < 8"
    and "\<And>j. j < k \<Longrightarrow> byte_of j a2 = m (s + of_nat (16 * q) + of_nat j)"
  shows "wordcopy_bwd_dest_aligned_loop m (8 * k) (64 - 8 * k) a2
       (d + of_nat (16 * q)) (s + of_nat (16 * q)) len = Some (copy_bytes m d (s + of_nat k) (16 * q))"
  using assms(1-4,7)
proof (induction q arbitrary: m len a2)
  case (Suc q)
  note len = even_len_dec [OF Suc.prems(2,4)]
  let ?d = "d + of_nat (16 * q)" and ?s = "s + of_nat (16 * q)"
  have ok: "bwd_ok d (s + of_nat k) (16 * q + 16)" using Suc.prems(3) by (simp add: add.commute)
  note app = copy_bytes_bwd_app [OF this, of m]
  have end_eq: "x + of_nat (16 * Suc q) = x + of_nat (16 * q) + (16 :: u64)" for x by simp
  have sk: "?s + of_nat k = s + of_nat k + of_nat (16 * q)" by simp
  have "byte_of j a2 = m (?s + 16 + of_nat j)" if "j < k" for j
    using Suc.prems(5) [OF that] by (simp add: algebra_simps)
  note step = bwd_dest_aligned_step [OF k this, of ?d len, unfolded sk]
  show ?case
  proof (cases "q = 0")
    case True
    then show ?thesis unfolding end_eq using step len app by simp
  next
    case False
    have inv: "byte_of j (load64 m ?s) = copy_bytes m ?d (s + of_nat k + of_nat (16 * q)) 16 (?s + of_nat j)"
      if "j < k" for j
    proof -
      have "?s + of_nat j = s + of_nat k + of_nat (16 * q - (k - j))"
        using that k False by (simp add: of_nat_diff)
      moreover have "16 * q - (k - j) < 16 * q" using that False by simp
      ultimately have "copy_bytes m ?d (s + of_nat k + of_nat (16 * q)) 16 (?s + of_nat j) = m (?s + of_nat j)"
        using copy_bytes_unread_bwd [OF ok, of "16 * q - (k - j)" "16 * q" 16 m] by (simp only: order.refl)
      then show ?thesis using that k by (simp add: mem_simps)
    qed
    have "wordcopy_bwd_dest_aligned_loop (copy_bytes m ?d (s + of_nat k + of_nat (16 * q)) 16) (8 * k)
         (64 - 8 * k) (load64 m ?s) ?d ?s (of_nat (2 * q))
        = Some (copy_bytes (copy_bytes m ?d (s + of_nat k + of_nat (16 * q)) 16) d (s + of_nat k) (16 * q))"
      using Suc.prems(4) ok False inv by (intro Suc.IH) (auto intro: bwd_ok_mono)
    then show ?thesis unfolding end_eq using step len False app by (simp add: add.commute)
  qed
qed simp

subsection \<open>The word copy functions and their callers\<close>

lemma odd_len:
  assumes "odd (unat len)" "8 * unat len < 18446744073709551616"
  obtains q where "unat len = Suc (2 * q)" "len - 1 = (of_nat (2 * q) :: u64)"
    "8 * unat len = 8 + 16 * q" "(len = 1) = (q = 0)"
proof -
  from assms(1) obtain q where q: "unat len = Suc (2 * q)" by (auto elim: oddE)
  have "len = of_nat (unat len)" by simp
  then have "len - 1 = of_nat (2 * q)" unfolding q by simp
  moreover have "(len = 1) = (q = 0)" by (simp add: word_unat_eq_iff q)
  ultimately show ?thesis using that q by simp
qed

lemma even_len:
  assumes "even (unat len)" "unat len \<noteq> 0"
  obtains q where "0 < q" "unat len = 2 * q" "len = (of_nat (2 * q) :: u64)"
  proof -
  from assms(1) obtain q where q: "unat len = 2 * q" by (auto elim: evenE)
  have "len = of_nat (unat len)" by simp
  with q assms(2) that [of q] show ?thesis by simp
qed

lemma align_split:
  assumes "x mod 8 \<noteq> (0 :: u64)"
  shows "0 < unat x mod 8" "unat x mod 8 < 8" "(x AND - 8) + of_nat (unat x mod 8) = x"
proof -
  show "0 < unat x mod 8" using assms by (metis bot_nat_0.not_eq_extremum unat_eq_0 unat_mod_8)
  show "(x AND - 8) + of_nat (unat x mod 8) = x"
    unfolding and_neg_8 by (simp flip: unat_mod_8)
qed simp

lemma wordcopy_fwd_aligned_correct:
  assumes "unat len \<noteq> 0" "fwd_ok d s (8 * unat len)" "8 * unat len < 18446744073709551616"
  shows "wordcopy_fwd_aligned m d s len = Some (copy_bytes m d s (8 * unat len))"
proof (cases "even (unat len)")
  case True
  then obtain q where q: "0 < q" "unat len = 2 * q" "len = of_nat (2 * q)" using even_len assms(1) by blast
  then show ?thesis
    using fwd_aligned_loop_correct [OF q(1,3)] assms True by (simp add: wordcopy_fwd_aligned_def)
next
  case False
  then obtain q where q: "unat len = Suc (2 * q)" "len - 1 = of_nat (2 * q)"
      "8 * unat len = 8 + 16 * q" "(len = 1) = (q = 0)" using odd_len assms(3) by blast
  have loop: "wordcopy_fwd_aligned_loop (copy_bytes m d s 8) (d + 8) (s + 8) (len - 1)
      = Some (copy_bytes (copy_bytes m d s 8) (d + 8) (s + 8) (16 * q))" if "q \<noteq> 0"
    using that q assms by (intro fwd_aligned_loop_correct) (auto intro: fwd_ok_mono)
  have "copy_bytes (copy_bytes m d s 8) (d + 8) (s + 8) (16 * q) = copy_bytes m d s (8 * unat len)"
    using copy_bytes_fwd_app [of d s 8 "16 * q" m] assms(2) q(3) by simp
  then show ?thesis
    using loop False q(2-4) by (simp add: wordcopy_fwd_aligned_def Let_def OPSIZ_def copy_bytes_word)
qed

lemma wordcopy_fwd_dest_aligned_correct:
  assumes "unat len \<noteq> 0" "fwd_ok d s (8 * unat len)" "8 * unat len < 18446744073709551616" "s mod 8 \<noteq> 0"
  shows "wordcopy_fwd_dest_aligned m d s len = Some (copy_bytes m d s (8 * unat len))"
proof -
  define k t where "k = unat s mod 8" and "t = s AND - 8"
  have k: "0 < k" "k < 8" and s: "s = t + of_nat k" using align_split [OF assms(4)] by (simp_all add: k_def t_def)
  have loop: "wordcopy_fwd_dest_aligned_loop m' (8 * k) (64 - 8 * k) (load64 m' t') d' t' l
      = Some (copy_bytes m' d' (t' + of_nat k) (16 * q))"
    if "0 < q" "l = of_nat (2 * q)" "fwd_ok d' (t' + of_nat k) (16 * q)" "16 * q < 18446744073709551616"
    for m' t' d' l q
    using that k by (intro fwd_dest_aligned_loop_correct) (auto simp: mem_simps)
  have unf: "wordcopy_fwd_dest_aligned m d s len =
     (if odd (unat len)
      then let m = store64 m d (MERGE (load64 m t) (8 * k) (load64 m (t + 8)) (64 - 8 * k))
           in if len = 1 then Some m
              else wordcopy_fwd_dest_aligned_loop m (8 * k) (64 - 8 * k) a1 (d + 8) (t + 8) (len - 1)
      else wordcopy_fwd_dest_aligned_loop m (8 * k) (64 - 8 * k) (load64 m t) d t len)"
    if "a1 = load64 m (t + 8)" for a1
    by (simp add: that wordcopy_fwd_dest_aligned_def Let_def OPSIZ_def k_def t_def)
  show ?thesis
  proof (cases "even (unat len)")
    case True
    then obtain q where q: "0 < q" "unat len = 2 * q" "len = of_nat (2 * q)" using even_len assms(1) by blast
    have "wordcopy_fwd_dest_aligned_loop m (8 * k) (64 - 8 * k) (load64 m t) d t len
        = Some (copy_bytes m d s (8 * unat len))"
      using loop [OF q(1,3), of d t m] assms(2,3) q(2) s by simp
    then show ?thesis using True by (simp add: unf [OF refl])
  next
    case False
    then obtain q where q: "unat len = Suc (2 * q)" "len - 1 = of_nat (2 * q)"
        "8 * unat len = 8 + 16 * q" "(len = 1) = (q = 0)" using odd_len assms(3) by blast
    have first: "store64 m d (MERGE (load64 m t) (8 * k) (load64 m (t + 8)) (64 - 8 * k)) = copy_bytes m d s 8"
      using k by (intro store64_copy) (auto simp: s byte_of_MERGE mem_simps of_nat_diff add_ac)
    have "wordcopy_fwd_dest_aligned_loop (copy_bytes m d s 8) (8 * k) (64 - 8 * k) (load64 m (t + 8))
          (d + 8) (t + 8) (len - 1) = Some (copy_bytes (copy_bytes m d s 8) (d + 8) (t + 8 + of_nat k) (16 * q))"
      if "q \<noteq> 0"
    proof (intro fwd_dest_aligned_loop_correct)
      fix j assume j: "k \<le> j" "j < 8"
      have "t + 8 + of_nat j = s + of_nat (8 + (j - k))" using j s by (simp add: of_nat_diff)
      moreover have "8 \<le> 8 + (j - k)" "8 + (j - k) < 8 * unat len" using j k that q(3) by simp_all
      ultimately have "copy_bytes m d s 8 (t + 8 + of_nat j) = m (t + 8 + of_nat j)"
        using copy_bytes_unread [OF assms(2), of 8 "8 + (j - k)" m] by (simp only:)
      then show "byte_of j (load64 m (t + 8)) = copy_bytes m d s 8 (t + 8 + of_nat j)"
        using j by (simp add: mem_simps)
    next
      show "fwd_ok (d + 8) (t + 8 + of_nat k) (16 * q)"
        using fwd_ok_mono [OF assms(2), of "16 * q"] q(3) s fwd_ok_shift [of d 8 s] by (simp add: algebra_simps)
    qed (use that q assms k in auto)
    moreover have "copy_bytes (copy_bytes m d s 8) (d + 8) (t + 8 + of_nat k) (16 * q) = copy_bytes m d s (8 * unat len)"
      using copy_bytes_fwd_app [of d s 8 "16 * q" m] assms(2) q(3) s by (simp add: algebra_simps)
    ultimately show ?thesis
      using False q(2-4) first by (simp add: unf [OF refl] Let_def)
  qed
qed

lemma wordcopy_bwd_aligned_correct:
  assumes "unat len \<noteq> 0" "bwd_ok d s (8 * unat len)" "8 * unat len < 18446744073709551616"
  shows "wordcopy_bwd_aligned m (d + 8 * len) (s + 8 * len) len = Some (copy_bytes m d s (8 * unat len))"
proof (cases "even (unat len)")
  case True
  then obtain q where q: "0 < q" "unat len = 2 * q" "len = of_nat (2 * q)" using even_len assms(1) by blast
  have e: "8 * len = of_nat (16 * q)" by (simp add: q(3))
  show ?thesis
    using bwd_aligned_loop_correct [OF q(1,3), of d s m] assms True
    unfolding wordcopy_bwd_aligned_def e by (simp add: q(2))
next
  case False
  then obtain q where q: "unat len = Suc (2 * q)" "len - 1 = of_nat (2 * q)"
      "8 * unat len = 8 + 16 * q" "(len = 1) = (q = 0)" using odd_len assms(3) by blast
  let ?d = "d + of_nat (16 * q)" and ?s = "s + of_nat (16 * q)"
  have "len = of_nat (2 * q) + 1" using q(2) by (metis diff_add_cancel)
  then have e: "x + 8 * len - 8 = x + of_nat (16 * q)" for x by simp
  have loop: "wordcopy_bwd_aligned_loop (copy_bytes m ?d ?s 8) ?d ?s (len - 1)
      = Some (copy_bytes (copy_bytes m ?d ?s 8) d s (16 * q))" if "q \<noteq> 0"
    using that q assms by (intro bwd_aligned_loop_correct) (auto intro: bwd_ok_mono)
  have "copy_bytes (copy_bytes m ?d ?s 8) d s (16 * q) = copy_bytes m d s (8 * unat len)"
    using copy_bytes_bwd_app [of d s "16 * q" 8 m] assms(2) q(3) by (simp add: add.commute)
  then show ?thesis
    using loop False q(4)
    unfolding wordcopy_bwd_aligned_def Let_def OPSIZ_def e copy_bytes_word by auto
qed

lemma wordcopy_bwd_dest_aligned_correct:
  assumes "unat len \<noteq> 0" "bwd_ok d s (8 * unat len)" "8 * unat len < 18446744073709551616"
    and "(s + 8 * len) mod 8 \<noteq> 0"
  shows "wordcopy_bwd_dest_aligned m (d + 8 * len) (s + 8 * len) len = Some (copy_bytes m d s (8 * unat len))"
proof -
  define k t where "k = unat (s + 8 * len) mod 8" and "t = (s + 8 * len AND - 8) - 8 * len"
  have k: "0 < k" "k < 8" and s: "s = t + of_nat k" and t8: "s + 8 * len AND - 8 = t + 8 * len"
    using align_split [OF assms(4)] by (simp_all add: k_def t_def algebra_simps)
  have unf: "wordcopy_bwd_dest_aligned m (d + 8 * len) (s + 8 * len) len =
     (if odd (unat len)
      then let m' = store64 m (d + 8 * len - 8)
             (MERGE (load64 m (t + 8 * len - 8)) (8 * k) (load64 m (t + 8 * len)) (64 - 8 * k))
           in if len = 1 then Some m'
              else wordcopy_bwd_dest_aligned_loop m' (8 * k) (64 - 8 * k) (load64 m (t + 8 * len - 8))
                     (d + 8 * len - 8) (t + 8 * len - 8) (len - 1)
      else wordcopy_bwd_dest_aligned_loop m (8 * k) (64 - 8 * k) (load64 m (t + 8 * len))
             (d + 8 * len) (t + 8 * len) len)"
    unfolding wordcopy_bwd_dest_aligned_def Let_def OPSIZ_def unat_mod_8 k_def [symmetric] t8 by simp
  show ?thesis
  proof (cases "even (unat len)")
    case True
    then obtain q where q: "0 < q" "unat len = 2 * q" "len = of_nat (2 * q)" using even_len assms(1) by blast
    have e: "8 * len = of_nat (16 * q)" by (simp add: q(3))
    have "wordcopy_bwd_dest_aligned_loop m (8 * k) (64 - 8 * k) (load64 m (t + 8 * len))
         (d + 8 * len) (t + 8 * len) len = Some (copy_bytes m d (t + of_nat k) (16 * q))"
      unfolding e using assms(2,3) q k s
      by (intro bwd_dest_aligned_loop_correct) (auto simp: mem_simps)
    then show ?thesis using True q(2) unfolding unf s [symmetric] by simp
  next
    case False
    then obtain q where q: "unat len = Suc (2 * q)" "len - 1 = of_nat (2 * q)"
        "8 * unat len = 8 + 16 * q" "(len = 1) = (q = 0)" using odd_len assms(3) by blast
    let ?d = "d + of_nat (16 * q)" and ?s = "s + of_nat (16 * q)" and ?t = "t + of_nat (16 * q)"
    have "len = of_nat (2 * q) + 1" using q(2) by (metis diff_add_cancel)
    then have e: "x + 8 * len - 8 = x + of_nat (16 * q)" "x + 8 * len = x + of_nat (16 * q) + 8" for x by simp_all
    have ok: "bwd_ok d s (16 * q + 8)" using assms(2) q(3) by (simp add: add.commute)
    have first: "store64 m ?d (MERGE (load64 m ?t) (8 * k) (load64 m (?t + 8)) (64 - 8 * k)) = copy_bytes m ?d ?s 8"
      using k by (intro store64_copy) (auto simp: s byte_of_MERGE mem_simps of_nat_diff add_ac)
    have "wordcopy_bwd_dest_aligned_loop (copy_bytes m ?d ?s 8) (8 * k) (64 - 8 * k) (load64 m ?t) ?d ?t (len - 1)
        = Some (copy_bytes (copy_bytes m ?d ?s 8) d (t + of_nat k) (16 * q))" if "q \<noteq> 0"
    proof (intro bwd_dest_aligned_loop_correct)
      fix j assume j: "j < k"
      have "?t + of_nat j = s + of_nat (16 * q - (k - j))" using j k s that by (simp add: of_nat_diff)
      moreover have "16 * q - (k - j) < 16 * q" using j that by simp
      ultimately have "copy_bytes m ?d ?s 8 (?t + of_nat j) = m (?t + of_nat j)"
        using copy_bytes_unread_bwd [OF ok, of "16 * q - (k - j)" "16 * q" 8 m] by (simp only: order.refl)
      then show "byte_of j (load64 m ?t) = copy_bytes m ?d ?s 8 (?t + of_nat j)"
        using j k by (simp add: mem_simps)
    qed (use that q assms(3) k s ok in \<open>auto intro: bwd_ok_mono\<close>)
    moreover have "copy_bytes (copy_bytes m ?d ?s 8) d (t + of_nat k) (16 * q) = copy_bytes m d s (8 * unat len)"
      using copy_bytes_bwd_app [OF ok, of m] q(3) s by (simp add: add.commute)
    ultimately show ?thesis
      using False q(4) first unfolding unf unfolding e Let_def by auto
  qed
qed

lemma and_neg_8_div: "(x :: u64) AND - 8 = of_nat (8 * (unat x div 8))"
proof -
  have "x AND - 8 = of_nat (unat x) - of_nat (unat x mod 8)" by (simp add: and_neg_8 flip: unat_mod_8)
  also have "\<dots> = of_nat (unat x - unat x mod 8)" by (simp add: of_nat_diff)
  also have "unat x - unat x mod 8 = 8 * (unat x div 8)" by (simp add: minus_mod_eq_mult_div)
  finally show ?thesis .
qed

lemma WORD_COPY_FWD_correct:
  assumes "8 \<le> unat n" "fwd_ok d s (unat n)"
  defines "c \<equiv> 8 * (unat n div 8)"
  shows "WORD_COPY_FWD m d s n = Some (copy_bytes m d s c, d + of_nat c, s + of_nat c, n mod 8)"
proof -
  have "c \<le> unat n" by (simp add: c_def)
  then have ok: "unat (n div 8) \<noteq> 0" "fwd_ok d s (8 * unat (n div 8))" "8 * unat (n div 8) < 18446744073709551616"
    using assms(1) fwd_ok_mono [OF assms(2), of c] unat_lt64 [of n] by (auto simp: c_def)
  show ?thesis
    using wordcopy_fwd_aligned_correct [OF ok, of m] wordcopy_fwd_dest_aligned_correct [OF ok, of m]
    by (simp add: WORD_COPY_FWD_def OPSIZ_def and_neg_8_div c_def)
qed

lemma WORD_COPY_BWD_correct:
  assumes "8 \<le> unat n" "bwd_ok d s (8 * (unat n div 8))"
  defines "c \<equiv> 8 * (unat n div 8)"
  shows "WORD_COPY_BWD m (d + of_nat c) (s + of_nat c) n = Some (copy_bytes m d s c, d, s, n mod 8)"
proof -
  have ok: "unat (n div 8) \<noteq> 0" "bwd_ok d s (8 * unat (n div 8))" "8 * unat (n div 8) < 18446744073709551616"
    using assms(1,2) unat_lt64 [of n] by auto
  have "(of_nat c :: u64) = of_nat (8 * unat (n div 8))" by (simp only: c_def unat_div_8)
  also have "\<dots> = 8 * of_nat (unat (n div 8))" by (simp only: of_nat_mult of_nat_numeral)
  finally have e: "of_nat c = 8 * (n div 8)" by (simp del: unat_div_8)
  show ?thesis
    using wordcopy_bwd_aligned_correct [OF ok, of m] wordcopy_bwd_dest_aligned_correct [OF ok, of m]
    unfolding WORD_COPY_BWD_def OPSIZ_def and_neg_8_div c_def [symmetric] e by (auto simp: c_def)
qed

lemma memcpy_fwd:
  assumes "fwd_ok d s (unat n)"
  shows "memcpy m d s n = Some (copy_bytes m d s (unat n), d)"
proof (cases "16 \<le> n")
  case False
  then show ?thesis by (simp add: memcpy_def OP_T_THRES_def BYTE_COPY_FWD_correct [OF assms])
next
  case True
  define h where "h = (- d) mod 8"
  have h: "unat h < 8" by (simp add: h_def)
  have n: "16 \<le> unat n" using True by (simp add: word_le_nat_alt)
  then have n': "unat (n - h) = unat n - unat h" using h unat_sub64 [of n h] by simp
  define c where "c = 8 * (unat (n - h) div 8)"
  have split: "unat n = unat h + (c + unat (n - h) mod 8)" using n' n h by (simp add: c_def)
  have ok: "fwd_ok d s (unat h)" "fwd_ok d s (unat (n - h))" "fwd_ok d s (unat (n - h) mod 8)"
    using split by (auto intro: fwd_ok_mono [OF assms] simp: c_def)
  have w: "WORD_COPY_FWD m' (d + h) (s + h) (n - h) =
     Some (copy_bytes m' (d + h) (s + h) c, d + h + of_nat c, s + h + of_nat c, (n - h) mod 8)" for m'
    using WORD_COPY_FWD_correct [of "n - h" "d + h" "s + h" m'] n n' h ok(2) by (simp add: c_def)
  have b: "fst (BYTE_COPY_FWD m' (d + h + of_nat c) (s + h + of_nat c) ((n - h) mod 8)) =
     copy_bytes m' (d + h + of_nat c) (s + h + of_nat c) (unat (n - h) mod 8)" for m'
    using BYTE_COPY_FWD_correct [of "d + h + of_nat c" "s + h + of_nat c" "(n - h) mod 8" m'] ok(3)
    by (simp add: add.assoc)
  have "copy_bytes (copy_bytes (copy_bytes m d s (unat h)) (d + h) (s + h) c) (d + h + of_nat c)
      (s + h + of_nat c) (unat (n - h) mod 8) = copy_bytes m d s (unat n)"
    using copy_bytes_fwd_app [of "d + h" "s + h" c "unat (n - h) mod 8" "copy_bytes m d s (unat h)"]
      copy_bytes_fwd_app [of d s "unat h" "c + unat (n - h) mod 8" m] assms fwd_ok_mono [OF assms] split
    by simp
  then show ?thesis
    using True by (simp add: memcpy_def OP_T_THRES_def OPSIZ_def flip: h_def)
      (simp add: BYTE_COPY_FWD_correct [OF ok(1)] w b)
qed

lemma memmove_bwd:
  assumes "dest - src < n" "bwd_ok dest src (unat n)"
  shows "memmove m dest src n = Some (copy_bytes m dest src (unat n), dest)"
proof (cases "16 \<le> n")
  case False
  moreover have "\<not> n \<le> dest - src" using assms(1) by simp
  ultimately show ?thesis
    by (simp add: memmove_def OP_T_THRES_def Let_def BYTE_COPY_BWD_correct [OF assms(2)])
next
  case True
  define h where "h = (dest + n) mod 8"
  have h: "unat h < 8" by (simp add: h_def)
  have n: "16 \<le> unat n" using True by (simp add: word_le_nat_alt)
  then have n': "unat (n - h) = unat n - unat h" using h unat_sub64 [of n h] by simp
  define c r where "c = 8 * (unat (n - h) div 8)" and "r = unat (n - h) mod 8"
  have split: "unat n = r + (c + unat h)" and nh: "unat (n - h) = r + c"
    using n' n h by (simp_all add: c_def r_def)
  have nhc: "n - h = of_nat (r + c)" by (subst nh [symmetric]) simp
  have ends: "x + n = x + (n - h) + h" "x + (n - h) = x + of_nat r + of_nat c" for x
    by (simp, simp add: nhc add.assoc)
  have ok: "bwd_ok dest src (unat h)" "bwd_ok dest src c" "bwd_ok dest src r"
    using split by (auto intro: bwd_ok_mono [OF assms(2)])
  have t: "BYTE_COPY_BWD m (dest + n) (src + n) h =
     (copy_bytes m (dest + (n - h)) (src + (n - h)) (unat h), dest + (n - h), src + (n - h))"
    unfolding ends(1) using ok(1) by (intro BYTE_COPY_BWD_correct) simp
  have w: "WORD_COPY_BWD m' (dest + (n - h)) (src + (n - h)) (n - h) =
     Some (copy_bytes m' (dest + of_nat r) (src + of_nat r) c, dest + of_nat r, src + of_nat r, (n - h) mod 8)" for m'
    unfolding ends(2) c_def using n n' h ok(2) by (intro WORD_COPY_BWD_correct) (simp_all add: c_def)
  have b: "fst (BYTE_COPY_BWD m' (dest + of_nat r) (src + of_nat r) ((n - h) mod 8)) = copy_bytes m' dest src r" for m'
    using BYTE_COPY_BWD_correct [of dest src "(n - h) mod 8" m'] ok(3) by (simp add: r_def flip: unat_mod_8)
  have "copy_bytes (copy_bytes (copy_bytes m (dest + (n - h)) (src + (n - h)) (unat h))
      (dest + of_nat r) (src + of_nat r) c) dest src r = copy_bytes m dest src (unat n)"
    unfolding ends(2) using copy_bytes_bwd_app [of "dest + of_nat r" "src + of_nat r" c "unat h" m]
      copy_bytes_bwd_app [of dest src r "c + unat h" m] assms(2) bwd_ok_mono [OF assms(2)] split
    by simp
  moreover have "\<not> n \<le> dest - src" using assms(1) by simp
  ultimately show ?thesis
    using True by (simp add: memmove_def OP_T_THRES_def OPSIZ_def Let_def flip: h_def) (simp add: t w b)
qed

text \<open>
  C33: whenever the destination does not start inside the source (\<^verbatim>\<open>dest - src >= length\<close> in
  unsigned 64-bit arithmetic), \<^verbatim>\<open>memcpy\<close> returns, returns \<open>dest\<close>, and the memory it leaves is the
  reference copy: exactly \<open>length\<close> bytes at \<open>dest\<close> hold what the source range held before the call
  and every other address is unchanged, for every alignment of the two pointers.
\<close>

theorem memcpy_correct:
  assumes "n \<le> dest - src"
  shows "memcpy m dest src n = Some (copy_bytes m dest src (unat n), dest)"
  using memcpy_fwd assms by (simp add: fwd_ok_def word_le_nat_alt)

text \<open>The unaligned copy of 40 bytes from \<open>0x1001\<close> to \<open>0x2003\<close>.\<close>

theorem memcpy_correct_witness:
  "(40 :: u64) \<le> 0x2003 - 0x1001 \<and>
   memcpy ucast 0x2003 0x1001 40 = Some (copy_bytes ucast 0x2003 0x1001 40, 0x2003) \<and>
   copy_bytes ucast 0x2003 0x1001 40 0x202A = 0x28"
  using memcpy_correct [of 40 "0x2003" "0x1001" ucast] by (simp add: copy_bytes_def)

lemma memmove_copy:
  assumes "unat dest + unat n \<le> 2 ^ 64" "unat src + unat n \<le> 2 ^ 64"
  shows "memmove m dest src n = Some (copy_bytes m dest src (unat n), dest)"
proof (cases "n \<le> dest - src")
  case True
  then show ?thesis using memcpy_fwd by (simp add: memmove_def fwd_ok_def word_le_nat_alt)
next
  case False
  then have lt: "dest - src < n" by simp
  have "bwd_ok dest src (unat n)"
    using lt assms unat_sub64 [of dest src] unat_sub64 [of src dest]
    by (auto simp: bwd_ok_def word_less_nat_alt word_unat_eq_iff split: if_splits)
  with lt show ?thesis by (rule memmove_bwd)
qed

text \<open>
  C34: for two ranges that do not run past the end of the address space, however they overlap,
  \<^verbatim>\<open>memmove\<close> returns, returns \<open>dest\<close>, and leaves the reference copy of the source's old contents.
\<close>

theorem memmove_correct:
  assumes "unat dest + unat n \<le> 2 ^ 64" "unat src + unat n \<le> 2 ^ 64"
  shows "memmove m dest src n = Some (copy_bytes m dest src (unat n), dest)"
  using assms by (rule memmove_copy)

text \<open>Two ranges of 40 bytes that overlap, the destination three bytes above the source.\<close>

theorem memmove_correct_witness:
  "unat (0x1004 :: u64) + unat (40 :: u64) \<le> 2 ^ 64 \<and> unat (0x1001 :: u64) + unat (40 :: u64) \<le> 2 ^ 64 \<and>
   memmove ucast 0x1004 0x1001 40 = Some (copy_bytes ucast 0x1004 0x1001 40, 0x1004) \<and>
   copy_bytes ucast 0x1004 0x1001 40 0x1020 = 0x1D"
  using memmove_correct [of "0x1004" 40 "0x1001" ucast] by (simp add: copy_bytes_def)

end
