(* ===== verification/Memcmp.thy ===== *)
theory Memcmp
  imports Memcopy
begin

text \<open>
  \<^verbatim>\<open>libc/string/memcmp.c\<close> and \<^verbatim>\<open>memcmp_bytes\<close> of \<^verbatim>\<open>memcopy.c\<close>.  The word comparison loops are entered
  at one of four labels; the model keeps the label as a value together with the words that are
  live there (the names \<open>a0\<close>, \<open>a1\<close>, ... of the source rotate, one pair per label).
\<close>

subsection \<open>Definitions\<close>

text \<open>The two words compared by \<^verbatim>\<open>memcmp_bytes\<close> have eight bytes; \<open>None\<close> is a read past them.\<close>

function memcmp_bytes_from :: "nat \<Rightarrow> u64 \<Rightarrow> u64 \<Rightarrow> u32 option" where
  "memcmp_bytes_from k a b =
     (if 8 \<le> k then None
      else let a0 = ucast (byte_of k a) :: u64; b0 = ucast (byte_of k b)
           in if a0 = b0 then memcmp_bytes_from (Suc k) a b else Some (ucast (a0 - b0)))"
  by pat_completeness auto
termination
  by (relation "measure (\<lambda>(k, a, b). 8 - k)") auto

declare memcmp_bytes_from.simps [simp del]

definition memcmp_bytes :: "u64 \<Rightarrow> u64 \<Rightarrow> u32 option" where
  "memcmp_bytes a b = memcmp_bytes_from 0 a b"

definition CMP_LT_OR_GT :: "u64 \<Rightarrow> u64 \<Rightarrow> u32 option" where
  "CMP_LT_OR_GT a b = memcmp_bytes a b"

datatype cmp_label = Do_top | Do3 | Do2 | Do1

partial_function (option) memcmp_common_alignment_loop ::
  "mem \<Rightarrow> cmp_label \<Rightarrow> u64 \<Rightarrow> u64 \<Rightarrow> u64 \<Rightarrow> u64 \<Rightarrow> u64 \<Rightarrow> u32 option" where
  "memcmp_common_alignment_loop m l srcp1 srcp2 len a b =
     (case l of
        Do_top \<Rightarrow>
          (let a0 = load64 m srcp1; b0 = load64 m srcp2
           in if a \<noteq> b then CMP_LT_OR_GT a b
              else memcmp_common_alignment_loop m Do3 srcp1 srcp2 len a0 b0)
      | Do3 \<Rightarrow>
          (let a1 = load64 m (srcp1 + OPSIZ); b1 = load64 m (srcp2 + OPSIZ)
           in if a \<noteq> b then CMP_LT_OR_GT a b
              else memcmp_common_alignment_loop m Do2 srcp1 srcp2 len a1 b1)
      | Do2 \<Rightarrow>
          (let a0 = load64 m (srcp1 + 2 * OPSIZ); b0 = load64 m (srcp2 + 2 * OPSIZ)
           in if a \<noteq> b then CMP_LT_OR_GT a b
              else memcmp_common_alignment_loop m Do1 srcp1 srcp2 len a0 b0)
      | Do1 \<Rightarrow>
          (let a1 = load64 m (srcp1 + 3 * OPSIZ); b1 = load64 m (srcp2 + 3 * OPSIZ)
           in if a \<noteq> b then CMP_LT_OR_GT a b
              else let srcp1 = srcp1 + 4 * OPSIZ; srcp2 = srcp2 + 4 * OPSIZ; len = len - 4
                   in if len \<noteq> 0 then memcmp_common_alignment_loop m Do_top srcp1 srcp2 len a1 b1
                      else if a1 \<noteq> b1 then CMP_LT_OR_GT a1 b1 else Some 0))"

definition memcmp_common_alignment :: "mem \<Rightarrow> u64 \<Rightarrow> u64 \<Rightarrow> u64 \<Rightarrow> u32 option" where
  "memcmp_common_alignment m srcp1 srcp2 len =
     (let a = load64 m srcp1; b = load64 m srcp2 in
      if len mod 4 = 3
      then memcmp_common_alignment_loop m Do2 (srcp1 - OPSIZ) (srcp2 - OPSIZ) (len + 1) a b
      else if len mod 4 = 0
      then if OP_T_THRES \<le> 3 * OPSIZ \<and> len = 0 then Some 0
           else memcmp_common_alignment_loop m Do3 srcp1 srcp2 len a b
      else if len mod 4 = 1
      then let srcp1 = srcp1 + OPSIZ; srcp2 = srcp2 + OPSIZ; len = len - 1
           in if OP_T_THRES \<le> 3 * OPSIZ \<and> len = 0
              then if a \<noteq> b then CMP_LT_OR_GT a b else Some 0
              else memcmp_common_alignment_loop m Do_top srcp1 srcp2 len a b
      else memcmp_common_alignment_loop m Do1 (srcp1 - 2 * OPSIZ) (srcp2 - 2 * OPSIZ) (len + 2) a b)"

text \<open>
  Of the words loaded from the unaligned operand the last two, \<open>a\<close> and \<open>a'\<close>, are live, and \<open>b\<close> from
  the other one.
\<close>

partial_function (option) memcmp_not_common_alignment_loop ::
  "mem \<Rightarrow> nat \<Rightarrow> nat \<Rightarrow> cmp_label \<Rightarrow> u64 \<Rightarrow> u64 \<Rightarrow> u64 \<Rightarrow> u64 \<Rightarrow> u64 \<Rightarrow> u64 \<Rightarrow> u32 option" where
  "memcmp_not_common_alignment_loop m shl shr l srcp1 srcp2 len a a' b =
     (case l of
        Do_top \<Rightarrow>
          (let a0 = load64 m srcp1; b0 = load64 m srcp2; x = MERGE a shl a' shr
           in if x \<noteq> b then CMP_LT_OR_GT x b
              else memcmp_not_common_alignment_loop m shl shr Do3 srcp1 srcp2 len a' a0 b0)
      | Do3 \<Rightarrow>
          (let a1 = load64 m (srcp1 + OPSIZ); b1 = load64 m (srcp2 + OPSIZ); x = MERGE a shl a' shr
           in if x \<noteq> b then CMP_LT_OR_GT x b
              else memcmp_not_common_alignment_loop m shl shr Do2 srcp1 srcp2 len a' a1 b1)
      | Do2 \<Rightarrow>
          (let a2 = load64 m (srcp1 + 2 * OPSIZ); b2 = load64 m (srcp2 + 2 * OPSIZ); x = MERGE a shl a' shr
           in if x \<noteq> b then CMP_LT_OR_GT x b
              else memcmp_not_common_alignment_loop m shl shr Do1 srcp1 srcp2 len a' a2 b2)
      | Do1 \<Rightarrow>
          (let a3 = load64 m (srcp1 + 3 * OPSIZ); b3 = load64 m (srcp2 + 3 * OPSIZ); x = MERGE a shl a' shr
           in if x \<noteq> b then CMP_LT_OR_GT x b
              else let srcp1 = srcp1 + 4 * OPSIZ; srcp2 = srcp2 + 4 * OPSIZ; len = len - 4
                   in if len \<noteq> 0
                      then memcmp_not_common_alignment_loop m shl shr Do_top srcp1 srcp2 len a' a3 b3
                      else let x = MERGE a' shl a3 shr
                           in if x \<noteq> b3 then CMP_LT_OR_GT x b3 else Some 0))"

definition memcmp_not_common_alignment :: "mem \<Rightarrow> u64 \<Rightarrow> u64 \<Rightarrow> u64 \<Rightarrow> u32 option" where
  "memcmp_not_common_alignment m srcp1 srcp2 len =
     (let shl = 8 * unat (srcp1 mod OPSIZ); shr = 64 - shl;
          srcp1 = srcp1 AND - OPSIZ;
          a = load64 m srcp1; a' = load64 m (srcp1 + OPSIZ); b = load64 m srcp2 in
      if len mod 4 = 3
      then memcmp_not_common_alignment_loop m shl shr Do2 srcp1 (srcp2 - OPSIZ) (len + 1) a a' b
      else if len mod 4 = 0
      then if OP_T_THRES \<le> 3 * OPSIZ \<and> len = 0 then Some 0
           else memcmp_not_common_alignment_loop m shl shr Do3 (srcp1 + OPSIZ) srcp2 len a a' b
      else if len mod 4 = 1
      then let srcp1 = srcp1 + 2 * OPSIZ; srcp2 = srcp2 + OPSIZ; len = len - 1
           in if OP_T_THRES \<le> 3 * OPSIZ \<and> len = 0
              then let x = MERGE a shl a' shr in if x \<noteq> b then CMP_LT_OR_GT x b else Some 0
              else memcmp_not_common_alignment_loop m shl shr Do_top srcp1 srcp2 len a a' b
      else memcmp_not_common_alignment_loop m shl shr Do1 (srcp1 - OPSIZ) (srcp2 - 2 * OPSIZ) (len + 2) a a' b)"

text \<open>
  The two byte loops of \<^verbatim>\<open>memcmp\<close>.  The alignment loop ends with the \<open>res\<close> it returns or with the
  pointers and the length it has reached.
\<close>

function memcmp_align :: "mem \<Rightarrow> u64 \<Rightarrow> u64 \<Rightarrow> u64 \<Rightarrow> u64 + (u64 \<times> u64 \<times> u64)" where
  "memcmp_align m srcp1 srcp2 len =
     (if srcp2 mod OPSIZ \<noteq> 0
      then let a0 = ucast (m srcp1); b0 = ucast (m srcp2); res = a0 - b0
           in if res \<noteq> 0 then Inl res else memcmp_align m (srcp1 + 1) (srcp2 + 1) (len - 1)
      else Inr (srcp1, srcp2, len))"
  by pat_completeness auto
termination
proof (relation "measure (\<lambda>(m, p, q, n). unat ((- q) mod 8))")
  fix m :: mem and p q n :: u64
  assume "q mod OPSIZ \<noteq> 0"
  then have "q mod 8 \<noteq> 0" by (simp add: OPSIZ_def)
  from neg_mod_8_step [OF this]
  show "((m, p + 1, q + 1, n - 1), (m, p, q, n)) \<in> measure (\<lambda>(m, p, q, n). unat ((- q) mod 8))"
    by (simp del: unat_mod_8 minus_add_distrib)
qed simp

function memcmp_tail :: "mem \<Rightarrow> u64 \<Rightarrow> u64 \<Rightarrow> u64 \<Rightarrow> u32" where
  "memcmp_tail m srcp1 srcp2 len =
     (if len \<noteq> 0
      then let a0 = ucast (m srcp1); b0 = ucast (m srcp2); res = a0 - b0 :: u64
           in if res \<noteq> 0 then ucast res else memcmp_tail m (srcp1 + 1) (srcp2 + 1) (len - 1)
      else 0)"
  by pat_completeness auto
termination
  by (relation "measure (\<lambda>(m, p, q, n). unat n)") (auto intro: measure_unat)

declare memcmp_align.simps [simp del] memcmp_tail.simps [simp del]

text \<open>\<open>res\<close> has type \<^verbatim>\<open>op_t\<close>: the \<^verbatim>\<open>int\<close> results are sign-extended into it and cut off again on return.\<close>

definition memcmp :: "mem \<Rightarrow> u64 \<Rightarrow> u64 \<Rightarrow> u64 \<Rightarrow> u32 option" where
  "memcmp m s1 s2 len =
     (if len \<ge> OP_T_THRES
      then case memcmp_align m s1 s2 len of
          Inl res \<Rightarrow> Some (ucast res)
        | Inr (srcp1, srcp2, len) \<Rightarrow>
           (case (if srcp1 mod OPSIZ = 0 then memcmp_common_alignment m srcp1 srcp2 (len div OPSIZ)
                  else memcmp_not_common_alignment m srcp1 srcp2 (len div OPSIZ)) of
              None \<Rightarrow> None
            | Some r \<Rightarrow>
               (let res = scast r :: u64
                in if res \<noteq> 0 then Some (ucast res)
                   else Some (memcmp_tail m (srcp1 + (len AND - OPSIZ)) (srcp2 + (len AND - OPSIZ)) (len mod OPSIZ))))
      else Some (memcmp_tail m s1 s2 len))"

subsection \<open>Reference comparison\<close>

text \<open>The difference of the first two bytes that differ, as the \<^verbatim>\<open>int\<close> the C standard's order needs.\<close>

primrec cmp_bytes :: "mem \<Rightarrow> u64 \<Rightarrow> u64 \<Rightarrow> nat \<Rightarrow> u32" where
  "cmp_bytes m p q 0 = 0"
| "cmp_bytes m p q (Suc n) =
     (if m p \<noteq> m q then ucast (m p) - ucast (m q) else cmp_bytes m (p + 1) (q + 1) n)"

primrec cmp_words :: "mem \<Rightarrow> u64 \<Rightarrow> u64 \<Rightarrow> nat \<Rightarrow> u32 option" where
  "cmp_words m p q 0 = Some 0"
| "cmp_words m p q (Suc n) =
     (if load64 m p \<noteq> load64 m q then CMP_LT_OR_GT (load64 m p) (load64 m q)
      else cmp_words m (p + 8) (q + 8) n)"

lemma ucast_diff_eq_0: "ucast (x :: u8) - ucast (y :: u8) = (0 :: u64) \<longleftrightarrow> x = y"
  by (simp add: ucast_up_inj)

lemma ucast_diff: "ucast (ucast (x :: u8) - ucast (y :: u8) :: u64) = (ucast x - ucast y :: u32)"
  by (simp add: trunc32_diff ucast_ucast_up)

lemma cmp_bytes_eq_0: "cmp_bytes m p q n = 0 \<longleftrightarrow> bytes_at m p n = bytes_at m q n"
proof (induction n arbitrary: p q)
  case (Suc n)
  then show ?case by (simp add: ucast_up_inj bytes_at_Suc)
qed simp

lemma cmp_bytes_add:
  "cmp_bytes m p q (a + b) =
     (if cmp_bytes m p q a \<noteq> 0 then cmp_bytes m p q a
      else cmp_bytes m (p + of_nat a) (q + of_nat a) b)"
  by (induction a arbitrary: p q) (auto simp: add_ac ucast_up_inj)

lemma memcmp_bytes_from_correct:
  "k \<le> 8 \<Longrightarrow> memcmp_bytes_from k (load64 m p) (load64 m q) =
     (if cmp_bytes m (p + of_nat k) (q + of_nat k) (8 - k) = 0 then None
      else Some (cmp_bytes m (p + of_nat k) (q + of_nat k) (8 - k)))"
proof (induction "8 - k" arbitrary: k)
  case 0
  then show ?case by (subst memcmp_bytes_from.simps) simp
next
  case (Suc n)
  then have k: "k < 8" "8 - k = Suc (8 - Suc k)" by simp_all
  have "memcmp_bytes_from (Suc k) (load64 m p) (load64 m q) =
     (if cmp_bytes m (p + of_nat (Suc k)) (q + of_nat (Suc k)) (8 - Suc k) = 0 then None
      else Some (cmp_bytes m (p + of_nat (Suc k)) (q + of_nat (Suc k)) (8 - Suc k)))"
    using Suc.hyps(2) k by (intro Suc.hyps(1)) simp_all
  then show ?case
    using k(1) unfolding k(2) memcmp_bytes_from.simps [of k]
    by (simp add: mem_simps ucast_up_inj ucast_diff Let_def add_ac)
qed

lemma load64_eq_cmp: "load64 m p = load64 m q \<longleftrightarrow> cmp_bytes m p q 8 = 0"
proof -
  have "load64 m p = load64 m q \<longleftrightarrow> (\<forall>k < 8. m (p + of_nat k) = m (q + of_nat k))"
    by (metis byte_of_load64 u64_eq_bytes)
  then show ?thesis by (auto simp: cmp_bytes_eq_0 bytes_at_def list_eq_iff_nth_eq)
qed

lemma cmp_words_correct: "cmp_words m p q n = Some (cmp_bytes m p q (8 * n))"
proof (induction n arbitrary: p q)
  case (Suc n)
  have "8 * Suc n = 8 + 8 * n" by simp
  then show ?case
    unfolding cmp_words.simps CMP_LT_OR_GT_def memcmp_bytes_def
    using memcmp_bytes_from_correct [of 0 m p q] load64_eq_cmp [of m p q] Suc cmp_bytes_add [of m p q 8 "8 * n"]
    by simp
qed simp

text \<open>
  At label \<open>l\<close> the loops have yet to load \<open>4 * n - label_off l\<close> words, the next one at index
  \<open>label_off l\<close> from the pointers.
\<close>

primrec label_off :: "cmp_label \<Rightarrow> nat" where
  "label_off Do_top = 0" | "label_off Do3 = 1" | "label_off Do2 = 2" | "label_off Do1 = 3"

lemma of_nat_minus_4:
  assumes "0 < n" "4 * n < 18446744073709551616"
  shows "of_nat (4 * n) - 4 = (of_nat (4 * (n - 1)) :: u64)"
    and "(of_nat (4 * (n - 1)) :: u64) = 0 \<longleftrightarrow> n = 1"
proof -
  show "of_nat (4 * n) - 4 = (of_nat (4 * (n - 1)) :: u64)" using assms(1) by (cases n) simp_all
  have "unat (of_nat (4 * (n - 1)) :: u64) = 4 * (n - 1)" using assms by (intro unat_of_nat64) simp
  then show "(of_nat (4 * (n - 1)) :: u64) = 0 \<longleftrightarrow> n = 1" using assms(1) unat_eq_0 by force
qed

lemmas common_loop_Do1 = memcmp_common_alignment_loop.simps [of _ Do1, simplified cmp_label.case]
  and not_common_loop_Do1 = memcmp_not_common_alignment_loop.simps [of _ _ _ Do1, simplified cmp_label.case]

lemma common_loop_correct:
  assumes "r = 4 * n - label_off l" "0 < n" "4 * n < 18446744073709551616"
  shows "memcmp_common_alignment_loop m l p q (of_nat (4 * n))
       (load64 m (p + 8 * of_nat (label_off l) - 8)) (load64 m (q + 8 * of_nat (label_off l) - 8)) =
     cmp_words m (p + 8 * of_nat (label_off l) - 8) (q + 8 * of_nat (label_off l) - 8) (Suc r)"
  using assms
proof (induction r arbitrary: l p q n)
  case 0
  then show ?case by (cases l) simp_all
next
  case (Suc r)
  note unf = memcmp_common_alignment_loop.simps and n = of_nat_minus_4 [OF Suc.prems(2,3)]
  show ?case
  proof (cases l)
    case Do_top
    then have e: "r = 4 * n - label_off Do3" using Suc.prems by simp
    show ?thesis using Do_top Suc.IH [OF e Suc.prems(2,3), of p q] by (subst unf) (simp add: OPSIZ_def Let_def add_ac)
  next
    case Do3
    then have e: "r = 4 * n - label_off Do2" using Suc.prems by simp
    show ?thesis using Do3 Suc.IH [OF e Suc.prems(2,3), of p q] by (subst unf) (simp add: OPSIZ_def Let_def add_ac)
  next
    case Do2
    then have e: "r = 4 * n - label_off Do1" using Suc.prems by simp
    show ?thesis using Do2 Suc.IH [OF e Suc.prems(2,3), of p q] by (subst unf) (simp add: OPSIZ_def Let_def add_ac)
  next
    case Do1
    have "memcmp_common_alignment_loop m Do_top (p + 32) (q + 32) (of_nat (4 * (n - 1)))
       (load64 m (p + 24)) (load64 m (q + 24)) = cmp_words m (p + 24) (q + 24) (Suc r)" if "n \<noteq> 1"
    proof -
      have "r = 4 * (n - 1) - label_off Do_top" "0 < n - 1" "4 * (n - 1) < 18446744073709551616"
        using Do1 that Suc.prems by simp_all
      from Suc.IH [OF this, of "p + 32" "q + 32"] show ?thesis by (simp only: label_off.simps) (simp add: add_ac)
    qed
    moreover have "r = 0" if "n = 1" using that Do1 Suc.prems by simp
    ultimately show ?thesis
      unfolding Do1 common_loop_Do1 Let_def OPSIZ_def n by (auto simp: add_ac)
  qed
qed

lemma MERGE_load64:
  assumes "0 < k" "k < 8"
  shows "MERGE (load64 m t) (8 * k) (load64 m (t + 8)) (64 - 8 * k) = load64 m (t + of_nat k)"
  using assms by (intro u64_eq_bytes) (auto simp: byte_of_MERGE mem_simps of_nat_diff add_ac)

lemma not_common_loop_correct:
  assumes "r = 4 * n - label_off l" "0 < n" "4 * n < 18446744073709551616" "0 < k" "k < 8"
  shows "memcmp_not_common_alignment_loop m (8 * k) (64 - 8 * k) l p q (of_nat (4 * n))
       (load64 m (p + 8 * of_nat (label_off l) - 16)) (load64 m (p + 8 * of_nat (label_off l) - 8))
       (load64 m (q + 8 * of_nat (label_off l) - 8)) =
     cmp_words m (p + 8 * of_nat (label_off l) - 16 + of_nat k) (q + 8 * of_nat (label_off l) - 8) (Suc r)"
  using assms(1-3)
proof (induction r arbitrary: l p q n)
  case 0
  then show ?case by (cases l) simp_all
next
  case (Suc r)
  note unf = memcmp_not_common_alignment_loop.simps and n = of_nat_minus_4 [OF Suc.prems(2,3)]
    and M = MERGE_load64 [OF assms(4,5)]
  show ?case
  proof (cases l)
    case Do_top
    then have e: "r = 4 * n - label_off Do3" using Suc.prems by simp
    show ?thesis using Do_top Suc.IH [OF e Suc.prems(2,3), of p q] M [of m "p - 16"]
      by (subst unf) (simp add: OPSIZ_def Let_def add_ac)
  next
    case Do3
    then have e: "r = 4 * n - label_off Do2" using Suc.prems by simp
    show ?thesis using Do3 Suc.IH [OF e Suc.prems(2,3), of p q] M [of m "p - 8"]
      by (subst unf) (simp add: OPSIZ_def Let_def add_ac)
  next
    case Do2
    then have e: "r = 4 * n - label_off Do1" using Suc.prems by simp
    show ?thesis using Do2 Suc.IH [OF e Suc.prems(2,3), of p q] M [of m p]
      by (subst unf) (simp add: OPSIZ_def Let_def add_ac)
  next
    case Do1
    have "memcmp_not_common_alignment_loop m (8 * k) (64 - 8 * k) Do_top (p + 32) (q + 32) (of_nat (4 * (n - 1)))
       (load64 m (p + 16)) (load64 m (p + 24)) (load64 m (q + 24)) = cmp_words m (p + 16 + of_nat k) (q + 24) (Suc r)"
      if "n \<noteq> 1"
    proof -
      have "r = 4 * (n - 1) - label_off Do_top" "0 < n - 1" "4 * (n - 1) < 18446744073709551616"
        using Do1 that Suc.prems by simp_all
      from Suc.IH [OF this, of "p + 32" "q + 32"] show ?thesis by (simp only: label_off.simps) (simp add: add_ac)
    qed
    moreover have "r = 0" if "n = 1" using that Do1 Suc.prems by simp
    ultimately show ?thesis
      using M [of m "p + 8"] M [of m "p + 16"]
      unfolding Do1 not_common_loop_Do1 Let_def OPSIZ_def n by (auto simp: add_ac)
  qed
qed

lemma mod_4_u64:
  assumes "n < 4611686018427387904"
  shows "of_nat n mod 4 = (3 :: u64) \<longleftrightarrow> n mod 4 = 3" "of_nat n mod 4 = (0 :: u64) \<longleftrightarrow> n mod 4 = 0"
    "of_nat n mod 4 = (1 :: u64) \<longleftrightarrow> n mod 4 = 1" "of_nat n - 1 = (0 :: u64) \<longleftrightarrow> n = 1"
    "of_nat n = (0 :: u64) \<longleftrightarrow> n = 0"
proof -
  have "unat (of_nat n mod 4 :: u64) = n mod 4" "unat (of_nat n :: u64) = n"
    using assms by (simp_all add: unat_mod_distrib unat_of_nat64)
  note u = this
  show "of_nat n mod 4 = (3 :: u64) \<longleftrightarrow> n mod 4 = 3" "of_nat n mod 4 = (0 :: u64) \<longleftrightarrow> n mod 4 = 0"
    "of_nat n mod 4 = (1 :: u64) \<longleftrightarrow> n mod 4 = 1" "of_nat n = (0 :: u64) \<longleftrightarrow> n = 0"
    unfolding word_unat_eq_iff u by simp_all
  show "of_nat n - 1 = (0 :: u64) \<longleftrightarrow> n = 1" 
    unfolding diff_eq_eq add_0 word_unat_eq_iff [of "of_nat n"] u by simp
qed

lemma mod_4_cases:
  obtains j where "n = 4 * j" "n mod 4 = 0" | j where "n = Suc (4 * j)" "n mod 4 = 1"
  | j where "n = Suc (Suc (4 * j))" "n mod 4 = 2" | j where "n = Suc (Suc (Suc (4 * j)))" "n mod (4 :: nat) = 3"
proof -
  have "n mod 4 < 4" "n = 4 * (n div 4) + n mod 4" by simp_all
  then consider "n mod 4 = 0" "n = 4 * (n div 4)" | "n mod 4 = 1" "n = Suc (4 * (n div 4))"
    | "n mod 4 = 2" "n = Suc (Suc (4 * (n div 4)))" | "n mod 4 = 3" "n = Suc (Suc (Suc (4 * (n div 4))))"
    by linarith
  then show ?thesis by cases (metis that)+
qed

lemma memcmp_common_alignment_correct:
  assumes n: "n < 4611686018427387904"
  shows "memcmp_common_alignment m p q (of_nat n) = cmp_words m p q n"
proof -
  note L = common_loop_correct [OF refl] and D = memcmp_common_alignment_def [of m p q "of_nat n"]
  note D' = D [unfolded mod_4_u64 [OF n] OPSIZ_def OP_T_THRES_def Let_def]
  show ?thesis
  proof (cases n rule: mod_4_cases)
    case (1 j)
    then show ?thesis using L [where n = j and l = Do3 and m = m and p = p and q = q] n
      unfolding D' by (cases "j = 0") auto
  next
    case (2 j)
    then show ?thesis using L [where n = j and l = Do_top and m = m and p = "p + 8" and q = "q + 8"] n
      unfolding D' by (cases "j = 0") auto
  next
    case (3 j)
    then show ?thesis using L [where n = "Suc j" and l = Do1 and m = m and p = "p - 16" and q = "q - 16"] n
      unfolding D' by (simp add: add_ac del: cmp_words.simps)
  next
    case (4 j)
    then show ?thesis using L [where n = "Suc j" and l = Do2 and m = m and p = "p - 8" and q = "q - 8"] n
      unfolding D' by (simp add: add_ac del: cmp_words.simps)
  qed
qed

lemma memcmp_not_common_alignment_correct:
  assumes n: "n < 4611686018427387904" and "p mod 8 \<noteq> 0"
  shows "memcmp_not_common_alignment m p q (of_nat n) = cmp_words m p q n"
proof -
  define k t where "k = unat p mod 8" and "t = p AND - 8"
  have k: "0 < k" "k < 8" and p: "p = t + of_nat k"
    using align_split [OF assms(2)] by (simp_all add: k_def t_def)
  note L = not_common_loop_correct [OF refl _ _ k] and M = MERGE_load64 [OF k, of m t]
  note D = memcmp_not_common_alignment_def [of m p q "of_nat n", unfolded OPSIZ_def, folded t_def,
      unfolded unat_mod_8, folded k_def]
  note D' = D [unfolded mod_4_u64 [OF n] OP_T_THRES_def Let_def]
  show ?thesis
  proof (cases n rule: mod_4_cases)
    case (1 j)
    then show ?thesis using L [where n = j and l = Do3 and m = m and p = "t + 8" and q = q] n
      unfolding D' unfolding p by (cases "j = 0") (auto simp: add.commute [of 8 t])
  next
    case (2 j)
    then show ?thesis using L [where n = j and l = Do_top and m = m and p = "t + 16" and q = "q + 8"] n M
      unfolding D' unfolding p by (cases "j = 0") (auto simp: add.commute [of 8 t])
  next
    case (3 j)
    then show ?thesis using L [where n = "Suc j" and l = Do1 and m = m and p = "t - 8" and q = "q - 16"] n
      unfolding D' unfolding p by (simp add: add_ac del: cmp_words.simps)
  next
    case (4 j)
    then show ?thesis using L [where n = "Suc j" and l = Do2 and m = m and p = t and q = "q - 8"] n
      unfolding D' unfolding p by (simp add: add_ac del: cmp_words.simps)
  qed
qed

lemma memcmp_tail_correct: "memcmp_tail m p q n = cmp_bytes m p q (unat n)"
proof (induction "unat n" arbitrary: p q n)
  case 0
  then have "n = 0" by (simp add: unat_eq_0)
  then show ?case by (subst memcmp_tail.simps) simp
next
  case (Suc k)
  then have "n \<noteq> 0" by auto
  then have n: "unat n = Suc (unat (n - 1))" using unat_minus_one [of n] by (simp add: unat_gt_0)
  then have "memcmp_tail m (p + 1) (q + 1) (n - 1) = cmp_bytes m (p + 1) (q + 1) (unat (n - 1))"
    using Suc.hyps(2) by (intro Suc.hyps(1)) simp
  then show ?case using \<open>n \<noteq> 0\<close> unfolding n
    by (subst memcmp_tail.simps) (simp add: Let_def ucast_up_inj ucast_diff)
qed

lemma memcmp_align_correct:
  "case memcmp_align m p q n of
     Inl res \<Rightarrow> cmp_bytes m p q (unat ((- q) mod 8)) \<noteq> 0 \<and> ucast res = cmp_bytes m p q (unat ((- q) mod 8))
   | Inr x \<Rightarrow> cmp_bytes m p q (unat ((- q) mod 8)) = 0 \<and> x = (p + (- q) mod 8, q + (- q) mod 8, n - (- q) mod 8)"
proof (induction m p q n rule: memcmp_align.induct)
  case (1 m p q n)
  show ?case
  proof (cases "q mod 8 = 0")
    case True
    then have "unat ((- q) mod 8) = 0" unfolding unat_neg_mod_8 by (metis diff_zero mod_self unat_0 unat_mod_8)
    then have "(- q) mod 8 = 0" by (metis unat_eq_0)
    then show ?thesis using True by (subst memcmp_align.simps) (simp add: OPSIZ_def)
  next
    case False
    note h = neg_mod_8_step [OF this]
    have w: "(- q) mod 8 = 1 + (- (q + 1)) mod 8" using h by (metis of_nat_Suc u64_of_nat_unat)
    have ?thesis if "m p \<noteq> m q"
      using that False unfolding h by (subst memcmp_align.simps) (simp add: OPSIZ_def Let_def ucast_up_inj ucast_diff)
    moreover have ?thesis if "m p = m q"
      using that False 1 [OF _ refl refl refl] unfolding h unfolding w
      by (subst memcmp_align.simps)
        (auto simp: OPSIZ_def Let_def add.assoc diff_diff_eq simp del: minus_add_distrib split: sum.splits)
    ultimately show ?thesis by blast
  qed
qed

text \<open>
  C35: \<^verbatim>\<open>memcmp\<close> returns for every pair of pointers, alignments and length, and its result is the
  difference of the first two bytes that differ, 0 when the ranges are equal: the word loops with
  their four entry points compute what a loop over the bytes computes.
\<close>

theorem memcmp_correct: "memcmp m s1 s2 n = Some (cmp_bytes m s1 s2 (unat n))"
proof (cases "16 \<le> n")
  case False
  then show ?thesis by (simp add: memcmp_def OP_T_THRES_def memcmp_tail_correct)
next
  case True
  define h where "h = (- s2) mod 8"
  have h: "unat h < 8" by (simp add: h_def)
  have n: "unat n = unat h + unat (n - h)"
    using True h unat_sub64 [of n h] by (simp add: word_le_nat_alt)
  define c where "c = unat (n - h) div 8"
  have c: "c < 4611686018427387904" "of_nat c = (n - h) div 8"
    using unat_lt64 [of "n - h"] unfolding c_def by (simp, metis u64_of_nat_unat unat_div_8)
  have split: "unat n = unat h + (8 * c + unat ((n - h) mod 8))" using n by (simp add: c_def)
  have W: "(if (s1 + h) mod 8 = 0 then memcmp_common_alignment m (s1 + h) (s2 + h) ((n - h) div 8)
      else memcmp_not_common_alignment m (s1 + h) (s2 + h) ((n - h) div 8)) =
      Some (cmp_bytes m (s1 + h) (s2 + h) (8 * c))"
    unfolding c(2) [symmetric]
    by (simp add: memcmp_common_alignment_correct [OF c(1)] memcmp_not_common_alignment_correct [OF c(1)]
        cmp_words_correct)
  show ?thesis
  proof (cases "memcmp_align m s1 s2 n")
    case (Inl r)
    then have "cmp_bytes m s1 s2 (unat h) \<noteq> 0" "ucast r = cmp_bytes m s1 s2 (unat h)"
      using memcmp_align_correct [of m s1 s2 n] by (simp_all add: h_def del: unat_mod_8)
    then show ?thesis using True Inl by (simp add: memcmp_def OP_T_THRES_def n cmp_bytes_add)
  next
    case (Inr x)
    then have a: "cmp_bytes m s1 s2 (unat h) = 0" "x = (s1 + h, s2 + h, n - h)"
      using memcmp_align_correct [of m s1 s2 n] by (simp_all add: h_def del: unat_mod_8)
    let ?p = "s1 + h" and ?q = "s2 + h" and ?r = "(n - h) mod 8"
    have "memcmp m s1 s2 n = Some (if cmp_bytes m ?p ?q (8 * c) \<noteq> 0 then cmp_bytes m ?p ?q (8 * c)
        else cmp_bytes m (?p + of_nat (8 * c)) (?q + of_nat (8 * c)) (unat ?r))"
      using True W unfolding memcmp_def Inr a(2) OPSIZ_def OP_T_THRES_def
      by (simp add: and_neg_8_div c_def memcmp_tail_correct Let_def scast_up_eq_0 ucast_scast_up del: unat_mod_8)
    also have "\<dots> = Some (cmp_bytes m ?p ?q (8 * c + unat ?r))" by (simp only: cmp_bytes_add)
    also have "cmp_bytes m ?p ?q (8 * c + unat ?r) = cmp_bytes m s1 s2 (unat n)"
      unfolding split using a(1) cmp_bytes_add [of m s1 s2 "unat h" "8 * c + unat ?r"] by (simp del: unat_mod_8)
    finally show ?thesis .
  qed
qed

end
