(* ===== verification/Memset.thy ===== *)
theory Memset
  imports Memcopy
begin

text \<open>
  \<^verbatim>\<open>libc/string/memset.c\<close>.  The three loops are total functions on the memory and the running
  pointer.  The alignment loop decrements the scratch counter \<^verbatim>\<open>len\<close>, which is overwritten right
  after it, and leaves \<^verbatim>\<open>length\<close> alone; the model therefore carries \<^verbatim>\<open>length\<close> unchanged past it.
\<close>

subsection \<open>Definitions\<close>

definition memset_word :: "u8 \<Rightarrow> u64" where
  "memset_word c =
     (let word = ucast c;
          word = word OR push_bit 8 word;
          word = word OR push_bit 16 word
      in word OR push_bit 16 (push_bit 16 word))"

function memset_head :: "mem \<Rightarrow> u64 \<Rightarrow> u8 \<Rightarrow> mem \<times> u64" where
  "memset_head m destp c =
     (if destp mod OPSIZ \<noteq> 0 then memset_head (m(destp := c)) (destp + 1) c else (m, destp))"
  by pat_completeness auto
termination
proof (relation "measure (\<lambda>(m, destp, c). unat ((- destp) mod 8))")
  fix m :: mem and destp :: u64 and c :: u8
  assume "destp mod OPSIZ \<noteq> 0"
  then have "destp mod 8 \<noteq> 0" by (simp add: OPSIZ_def)
  from neg_mod_8_step [OF this]
  show "((m(destp := c), destp + 1, c), (m, destp, c)) \<in> measure (\<lambda>(m, destp, c). unat ((- destp) mod 8))"
    by (simp del: unat_mod_8 minus_add_distrib)
qed simp

function memset_blocks :: "mem \<Rightarrow> u64 \<Rightarrow> u64 \<Rightarrow> u64 \<Rightarrow> mem \<times> u64" where
  "memset_blocks m destp word len =
     (if len > 0
      then let m = store64 m destp word;
               m = store64 m (destp + OPSIZ) word;
               m = store64 m (destp + 2 * OPSIZ) word;
               m = store64 m (destp + 3 * OPSIZ) word;
               m = store64 m (destp + 4 * OPSIZ) word;
               m = store64 m (destp + 5 * OPSIZ) word;
               m = store64 m (destp + 6 * OPSIZ) word;
               m = store64 m (destp + 7 * OPSIZ) word
           in memset_blocks m (destp + 8 * OPSIZ) word (len - 1)
      else (m, destp))"
  by pat_completeness auto
termination
  by (relation "measure (\<lambda>(m, d, w, n). unat n)") (auto intro: measure_unat)

function memset_words :: "mem \<Rightarrow> u64 \<Rightarrow> u64 \<Rightarrow> u64 \<Rightarrow> mem \<times> u64" where
  "memset_words m destp word len =
     (if len > 0 then memset_words (store64 m destp word) (destp + OPSIZ) word (len - 1) else (m, destp))"
  by pat_completeness auto
termination
  by (relation "measure (\<lambda>(m, d, w, n). unat n)") (auto intro: measure_unat)

function memset_tail :: "mem \<Rightarrow> u64 \<Rightarrow> u8 \<Rightarrow> u64 \<Rightarrow> mem" where
  "memset_tail m destp c len =
     (if len > 0 then memset_tail (m(destp := c)) (destp + 1) c (len - 1) else m)"
  by pat_completeness auto
termination
  by (relation "measure (\<lambda>(m, d, c, n). unat n)") (auto intro: measure_unat)

declare memset_head.simps [simp del] memset_blocks.simps [simp del] memset_words.simps [simp del]
  memset_tail.simps [simp del]

definition memset :: "mem \<Rightarrow> u64 \<Rightarrow> 32 word \<Rightarrow> u64 \<Rightarrow> mem \<times> u64" where
  "memset m dest c len =
     (let b = ucast c in
      if len \<ge> 8
      then let word = memset_word b;
               (m, destp) = memset_head m dest b;
               (m, destp) = memset_blocks m destp word (len div (OPSIZ * 8));
               len = len mod (OPSIZ * 8);
               (m, destp) = memset_words m destp word (len div OPSIZ);
               len = len mod OPSIZ
           in (memset_tail m destp b len, dest)
      else (memset_tail m dest b len, dest))"

subsection \<open>The loops fill consecutive ranges\<close>

lemma byte_of_memset_word: "k < 8 \<Longrightarrow> byte_of k (memset_word c) = c"
proof (rule bit_word_eqI)
  fix i assume "k < 8" "i < LENGTH(8)"
  then show "bit (byte_of k (memset_word c)) i = bit c i"
    by (drule_tac nat_lt_8_cases)
      (elim disjE; auto simp: bit_byte_of memset_word_def Let_def bit_simps dest: bit_imp_le_length)
qed

lemma store64_memset_word: "store64 m d (memset_word c) = fill_bytes m d c 8"
  by (auto simp: fun_eq_iff fill_bytes_def mem_simps byte_of_memset_word)

lemma fill_bytes_Suc_0: "fill_bytes m d c (Suc 0) = m(d := c)"
  by (auto simp: fill_bytes_def fun_eq_iff unat_eq_0)

lemma fill_step:
  "unat n + k < 18446744073709551616 \<Longrightarrow>
   fill_bytes (fill_bytes m d c k) (d + of_nat k) c (unat n) = fill_bytes m d c (unat n + k)"
  using fill_bytes_app [of k "unat n" m d c] by (simp add: add.commute)

lemma memset_tail_fill: "memset_tail m d c n = fill_bytes m d c (unat n)"
proof (induction "unat n" arbitrary: m d n)
  case 0
  then have "n = 0" by (simp add: unat_eq_0)
  then show ?case by (subst memset_tail.simps) simp
next
  case (Suc k)
  then have "n \<noteq> 0" by auto
  then have n: "unat n = unat (n - 1) + 1" using unat_minus_one [of n] by (simp add: unat_gt_0)
  have "memset_tail m d c n = memset_tail (fill_bytes m d c 1) (d + 1) c (n - 1)"
    using \<open>n \<noteq> 0\<close> by (subst memset_tail.simps) (simp add: word_gt_0 fill_bytes_Suc_0)
  also have "\<dots> = fill_bytes (fill_bytes m d c 1) (d + 1) c (unat (n - 1))"
    using Suc.hyps(2) n by (intro Suc.hyps(1)) simp
  finally show ?case using fill_step [of "n - 1" 1 m d c] n unat_lt64 [of n] by simp
qed

lemma memset_words_fill:
  assumes "8 * unat n < 18446744073709551616"
  shows "memset_words m d (memset_word c) n = (fill_bytes m d c (8 * unat n), d + 8 * n)"
  using assms
proof (induction "unat n" arbitrary: m d n)
  case 0
  then have "n = 0" by (simp add: unat_eq_0)
  then show ?case by (subst memset_words.simps) simp
next
  case (Suc k)
  then have "n \<noteq> 0" by auto
  then have n: "unat n = unat (n - 1) + 1" using unat_minus_one [of n] by (simp add: unat_gt_0)
  have "memset_words m d (memset_word c) n = memset_words (fill_bytes m d c 8) (d + 8) (memset_word c) (n - 1)"
    using \<open>n \<noteq> 0\<close> by (subst memset_words.simps) (simp add: word_gt_0 store64_memset_word OPSIZ_def)
  also have "\<dots> = (fill_bytes (fill_bytes m d c 8) (d + 8) c (8 * unat (n - 1)), d + 8 + 8 * (n - 1))"
    using Suc.hyps(2) n Suc.prems by (intro Suc.hyps(1)) simp_all
  finally show ?case
    using fill_bytes_app [of 8 "8 * unat (n - 1)" m d c] Suc.prems n by (simp add: algebra_simps)
qed

lemma fill_block:
  "store64 (store64 (store64 (store64 (store64 (store64 (store64 (store64 m d (memset_word c))
     (d + 8) (memset_word c)) (d + 16) (memset_word c)) (d + 24) (memset_word c))
     (d + 32) (memset_word c)) (d + 40) (memset_word c)) (d + 48) (memset_word c)) (d + 56) (memset_word c)
   = fill_bytes m d c 64"
proof -
  have "fill_bytes (fill_bytes m d c (8 * k)) (d + of_nat (8 * k)) c 8 = fill_bytes m d c (8 * k + 8)"
    if "k < 8" for k
    using fill_bytes_app [of "8 * k" 8 m d c] that by simp
  from this [of 1] this [of 2] this [of 3] this [of 4] this [of 5] this [of 6] this [of 7]
  show ?thesis by (simp add: store64_memset_word)
qed

lemma memset_blocks_fill:
  assumes "64 * unat n < 18446744073709551616"
  shows "memset_blocks m d (memset_word c) n = (fill_bytes m d c (64 * unat n), d + 64 * n)"
  using assms
proof (induction "unat n" arbitrary: m d n)
  case 0
  then have "n = 0" by (simp add: unat_eq_0)
  then show ?case by (subst memset_blocks.simps) simp
next
  case (Suc k)
  then have "n \<noteq> 0" by auto
  then have n: "unat n = unat (n - 1) + 1" using unat_minus_one [of n] by (simp add: unat_gt_0)
  have "memset_blocks m d (memset_word c) n = memset_blocks (fill_bytes m d c 64) (d + 64) (memset_word c) (n - 1)"
    using \<open>n \<noteq> 0\<close> by (subst memset_blocks.simps) (simp add: word_gt_0 fill_block OPSIZ_def)
  also have "\<dots> = (fill_bytes (fill_bytes m d c 64) (d + 64) c (64 * unat (n - 1)), d + 64 + 64 * (n - 1))"
    using Suc.hyps(2) n Suc.prems by (intro Suc.hyps(1)) simp_all
  finally show ?case
    using fill_bytes_app [of 64 "64 * unat (n - 1)" m d c] Suc.prems n by (simp add: algebra_simps)
qed

lemma memset_head_fill:
  "memset_head m d c = (fill_bytes m d c (unat ((- d) mod 8)), d + (- d) mod 8)"
proof (induction "unat ((- d) mod 8)" arbitrary: m d)
  case 0
  then have "(- d) mod 8 = 0" by (metis unat_eq_0)
  moreover from this have "d mod 8 = 0" using neg_mod_8_step [of d] by (metis nat.distinct(1) unat_0)
  ultimately show ?case by (subst memset_head.simps) (simp add: OPSIZ_def)
next
  case (Suc k)
  have d: "d mod 8 \<noteq> 0"
  proof
    assume "d mod 8 = 0"
    then have "unat d mod 8 = 0" by (metis unat_0 unat_mod_8)
    then have "unat ((- d) mod 8) = 0" unfolding unat_neg_mod_8 by simp
    then show False using Suc.hyps(2) by linarith
  qed
  note h = neg_mod_8_step [OF this]
  have "memset_head m d c = memset_head (fill_bytes m d c 1) (d + 1) c"
    using d by (subst memset_head.simps) (simp add: OPSIZ_def fill_bytes_Suc_0)
  also have "\<dots> = (fill_bytes (fill_bytes m d c 1) (d + 1) c (unat ((- (d + 1)) mod 8)), d + 1 + (- (d + 1)) mod 8)"
    using Suc.hyps(2) h by (intro Suc.hyps(1)) linarith
  also have "fill_bytes (fill_bytes m d c 1) (d + 1) c (unat ((- (d + 1)) mod 8)) = fill_bytes m d c (unat ((- d) mod 8))"
    using fill_step [of "(- (d + 1)) mod 8" 1 m d c] h unat_lt64 [of "(- d) mod 8"] by simp
  also have "d + 1 + (- (d + 1)) mod 8 = d + (- d) mod 8"
    using arg_cong [OF h, of "of_nat :: nat \<Rightarrow> u64"] by (simp del: unat_mod_8)
  finally show ?case .
qed

lemma memset_aligned_part:
  assumes "unat n < 18446744073709551616 - 7"
  shows "(let (m, d) = memset_blocks m d (memset_word c) (n div 64);
              n' = n mod 64;
              (m, d) = memset_words m d (memset_word c) (n' div 8)
          in memset_tail m d c (n' mod 8)) = fill_bytes m d c (unat n)"
proof -
  define a b r where "a = unat n div 64" and "b = unat n mod 64 div 8" and "r = unat n mod 64 mod 8"
  have u: "unat (n div 64) = a" "unat (n mod 64 div 8) = b" "unat (n mod 64 mod 8) = r"
    by (simp_all add: a_def b_def r_def unat_div_distrib unat_mod_distrib)
  have n: "unat n = 64 * a + (8 * b + r)" by (simp add: a_def b_def r_def)
  have ab: "64 * (n div 64) = of_nat (64 * a)" "8 * (n mod 64 div 8) = of_nat (8 * b)"
    using u by (metis of_nat_mult of_nat_numeral u64_of_nat_unat)+
  have lt: "64 * a + (8 * b + r) < 18446744073709551616" using n assms by simp
  have blocks: "memset_blocks m d (memset_word c) (n div 64) = (fill_bytes m d c (64 * a), d + of_nat (64 * a))"
    using memset_blocks_fill [of "n div 64" m d c] lt by (simp add: u ab)
  have words: "memset_words m' d' (memset_word c) (n mod 64 div 8) = (fill_bytes m' d' c (8 * b), d' + of_nat (8 * b))" for m' d'
    using memset_words_fill [of "n mod 64 div 8" m' d' c] lt unfolding u ab by simp
  show ?thesis
    using fill_bytes_app [OF lt, of m d c] fill_bytes_app [of "8 * b" r "fill_bytes m d c (64 * a)" "d + of_nat (64 * a)" c] lt
    by (simp add: blocks words memset_tail_fill u n Let_def del: of_nat_mult unat_mod_8)
qed

lemma memset_fill:
  assumes "unat n < 18446744073709551609"
  shows "memset m dest c n =
    (fill_bytes m dest (ucast c) (unat n + (if 8 \<le> n then (8 - unat dest mod 8) mod 8 else 0)), dest)"
proof (cases "8 \<le> n")
  case False
  then show ?thesis by (simp add: memset_def memset_tail_fill)
next
  case True
  let ?h = "(- dest) mod 8"
  have h: "unat ?h = (8 - unat dest mod 8) mod 8" by (rule unat_neg_mod_8)
  have "fst (memset m dest c n) = fill_bytes (fill_bytes m dest (ucast c) (unat ?h)) (dest + ?h) (ucast c) (unat n)"
    using True memset_aligned_part [of n "fill_bytes m dest (ucast c) (unat ?h)" "dest + ?h" "ucast c"] assms
    by (simp add: memset_def memset_head_fill OPSIZ_def Let_def split_beta del: unat_mod_8)
  also have "\<dots> = fill_bytes m dest (ucast c) (unat n + unat ?h)"
  proof -
    have "unat n + unat ?h < 18446744073709551616" unfolding h using assms by simp
    from fill_step [OF this, of m dest "ucast c"] show ?thesis by (simp only: u64_of_nat_unat)
  qed
  finally have "fst (memset m dest c n) = fill_bytes m dest (ucast c) (unat n + unat ?h)" .
  moreover have "snd (memset m dest c n) = dest" by (simp add: memset_def Let_def split_beta)
  ultimately show ?thesis using True h by (auto simp: prod_eq_iff)
qed

text \<open>
  C39: \<^verbatim>\<open>memset\<close> returns \<open>dest\<close> and fills one contiguous range that starts at \<open>dest\<close>.  The range has
  \<open>length\<close> bytes when \<open>length < 8\<close> or \<open>dest\<close> is 8-byte aligned; otherwise it is longer than requested
  by the \<open>8 - dest mod 8\<close> bytes the alignment loop wrote without deducting them from \<^verbatim>\<open>length\<close>.
  Nothing outside that range changes.
\<close>

theorem memset_extent:
  assumes "unat n < 2 ^ 64 - 7"
  shows "memset m dest c n =
    (fill_bytes m dest (ucast c) (unat n + (if 8 \<le> n then (8 - unat dest mod 8) mod 8 else 0)), dest)"
  using assms by (intro memset_fill) simp

text \<open>
  Filling 16 bytes at the misaligned address \<open>0x1003\<close> also overwrites the five bytes that follow
  them; the sixth is left alone.
\<close>

theorem memset_extent_witness:
  "unat (16 :: u64) < 2 ^ 64 - 7 \<and>
   memset (\<lambda>_. 0) 0x1003 0xAB 16 = (fill_bytes (\<lambda>_. 0) 0x1003 0xAB 21, 0x1003) \<and>
   fst (memset (\<lambda>_. 0) 0x1003 0xAB 16) 0x1017 = 0xAB \<and> fst (memset (\<lambda>_. 0) 0x1003 0xAB 16) 0x1018 = 0"
  using memset_extent [of 16 "\<lambda>_. 0" "0x1003" "0xAB"] by (simp add: fill_bytes_def)

end
