(* ===== verification/Strings.thy ===== *)
theory Strings
  imports Memset
begin

text \<open>
  The string routines of \<^verbatim>\<open>libc/string\<close> on the flat memory.  A scan that has no bound of its own
  (\<^verbatim>\<open>strlen\<close>, \<^verbatim>\<open>strnlen\<close>, \<^verbatim>\<open>strcmp\<close>) is a \<^theory_text>\<open>partial_function\<close> whose value \<open>None\<close> means that the loop does
  not end; \<^verbatim>\<open>char\<close> is compared for equality only, so a byte stands for it.
\<close>

subsection \<open>Definitions\<close>

partial_function (option) strlen_loop :: "mem \<Rightarrow> u64 \<Rightarrow> u64 option" where
  "strlen_loop m endp = (if m endp \<noteq> 0 then strlen_loop m (endp + 1) else Some endp)"

definition strlen :: "mem \<Rightarrow> u64 \<Rightarrow> u64 option" where
  "strlen m s = map_option (\<lambda>endp. endp - s) (strlen_loop m s)"

partial_function (option) strnlen_loop :: "mem \<Rightarrow> u64 \<Rightarrow> u64 \<Rightarrow> u64 \<Rightarrow> u64 option" where
  "strnlen_loop m endp len maxlen =
     (if m endp \<noteq> 0 \<and> len \<le> maxlen then strnlen_loop m (endp + 1) (len + 1) maxlen else Some len)"

definition strnlen :: "mem \<Rightarrow> u64 \<Rightarrow> u64 \<Rightarrow> u64 option" where
  "strnlen m string maxlen = strnlen_loop m string 0 maxlen"

partial_function (option) strcmp :: "mem \<Rightarrow> u64 \<Rightarrow> u64 \<Rightarrow> u32 option" where
  "strcmp m s1 s2 =
     (if m s1 = m s2
      then if m s1 = 0 then Some 0 else strcmp m (s1 + 1) (s2 + 1)
      else Some (of_bool (m s1 < m (s2 - 1))))"

function strncmp_loop :: "mem \<Rightarrow> u64 \<Rightarrow> u64 \<Rightarrow> u64 \<Rightarrow> u32" where
  "strncmp_loop m s1 s2 count =
     (if m s1 \<noteq> m s2 then ucast (m s1) - ucast (m s2)
      else if m s1 = 0 then 0
      else if count - 1 \<noteq> 0 then strncmp_loop m (s1 + 1) (s2 + 1) (count - 1)
      else 0)"
  by pat_completeness auto
termination
proof (relation "measure (\<lambda>(m, p, q, n). unat (n - 1))")
  fix m :: mem and p q n :: u64
  assume "n - 1 \<noteq> 0"
  from measure_unat [OF this] show "((m, p + 1, q + 1, n - 1), m, p, q, n) \<in> measure (\<lambda>(m, p, q, n). unat (n - 1))" by simp
qed simp

declare strncmp_loop.simps [simp del]

definition strncmp :: "mem \<Rightarrow> u64 \<Rightarrow> u64 \<Rightarrow> u64 \<Rightarrow> u32" where
  "strncmp m s1 s2 count = (if count = 0 then 0 else strncmp_loop m s1 s2 count)"

definition strcpy :: "mem \<Rightarrow> u64 \<Rightarrow> u64 \<Rightarrow> (mem \<times> u64) option" where
  "strcpy m dest src =
     (case strlen m src of None \<Rightarrow> None
      | Some len \<Rightarrow>
         (case memcpy m dest src (len + 1) of None \<Rightarrow> None | Some (m, _) \<Rightarrow> Some (m, dest)))"

definition strncpy :: "mem \<Rightarrow> u64 \<Rightarrow> u64 \<Rightarrow> u64 \<Rightarrow> (mem \<times> u64) option" where
  "strncpy m dest src count =
     (case strnlen m src count of None \<Rightarrow> None
      | Some src_len \<Rightarrow>
         if src_len < count
         then (case memcpy m dest src src_len of None \<Rightarrow> None
               | Some (m, _) \<Rightarrow> Some (fst (memset m (dest + src_len) 0 (count - src_len)), dest))
         else (case memcpy m dest src count of None \<Rightarrow> None | Some (m, _) \<Rightarrow> Some (m, dest)))"

definition strcat :: "mem \<Rightarrow> u64 \<Rightarrow> u64 \<Rightarrow> (mem \<times> u64) option" where
  "strcat m dest src =
     (case strlen m dest of None \<Rightarrow> None
      | Some dest_len \<Rightarrow>
         (case strlen m src of None \<Rightarrow> None
          | Some src_len \<Rightarrow>
             (case memcpy m (dest + dest_len) src src_len of None \<Rightarrow> None
              | Some (m, _) \<Rightarrow> Some (m(dest + dest_len + src_len := 0), dest))))"

definition strncat :: "mem \<Rightarrow> u64 \<Rightarrow> u64 \<Rightarrow> u64 \<Rightarrow> (mem \<times> u64) option" where
  "strncat m dest src count =
     (case strlen m dest of None \<Rightarrow> None
      | Some dest_len \<Rightarrow>
         (case strnlen m src count of None \<Rightarrow> None
          | Some src_len \<Rightarrow>
             (let copy_len = if src_len < count then src_len else count
              in case memcpy m (dest + dest_len) src copy_len of None \<Rightarrow> None
                 | Some (m, _) \<Rightarrow> Some (m(dest + dest_len + copy_len := 0), dest))))"

subsection \<open>C strings\<close>

text \<open>A string of \<open>n\<close> characters at \<open>s\<close>: \<open>n\<close> bytes that are not 0, then a 0.\<close>

definition cstring :: "mem \<Rightarrow> u64 \<Rightarrow> nat \<Rightarrow> bool" where
  "cstring m s n \<longleftrightarrow> n < 2 ^ 64 \<and> (\<forall>i < n. m (s + of_nat i) \<noteq> 0) \<and> m (s + of_nat n) = 0"

lemma cstring_0 [simp]: "cstring m s 0 \<longleftrightarrow> m s = 0"
  by (simp add: cstring_def)

lemma cstring_Suc: "cstring m s (Suc n) \<longleftrightarrow> Suc n < 2 ^ 64 \<and> m s \<noteq> 0 \<and> cstring m (s + 1) n"
  by (auto simp: cstring_def All_less_Suc2 add_ac)

lemma cstring_unique: "cstring m s a \<Longrightarrow> cstring m s b \<Longrightarrow> a = b"
  by (metis cstring_def linorder_neqE_nat)

lemma cstring_exists: "m x = 0 \<Longrightarrow> \<exists>n. cstring m s n"
proof -
  assume "m x = 0"
  then have x: "m (s + of_nat (unat (x - s))) = 0" by simp
  define n where "n = (LEAST n. m (s + of_nat n) = 0)"
  have "m (s + of_nat n) = 0" "n \<le> unat (x - s)"
    unfolding n_def by (rule LeastI [of "\<lambda>n. m (s + of_nat n) = 0", OF x], rule Least_le [of "\<lambda>n. m (s + of_nat n) = 0", OF x])
  moreover have "m (s + of_nat i) \<noteq> 0" if "i < n" for i using that not_less_Least unfolding n_def by blast
  ultimately show ?thesis using unat_lt64 [of "x - s"] by (intro exI [of _ n]) (auto simp: cstring_def)
qed

lemma strlen_loop_cstring: "cstring m s n \<Longrightarrow> strlen_loop m s = Some (s + of_nat n)"
proof (induction n arbitrary: s)
  case (Suc n)
  then show ?case by (subst strlen_loop.simps) (simp add: cstring_Suc add_ac)
qed (simp add: strlen_loop.simps)

lemma strlen_cstring: "cstring m s n \<Longrightarrow> strlen m s = Some (of_nat n)"
  by (simp add: strlen_def strlen_loop_cstring)

lemma strlen_loop_nul: "strlen_loop m s = Some e \<Longrightarrow> m e = 0"
  by (rule strlen_loop.raw_induct [where P = "\<lambda>m s e. m e = 0"]) (auto split: if_splits)

text \<open>
  \<^verbatim>\<open>strlen\<close> returns \<open>k\<close> exactly when a C string of \<open>k\<close> characters stands at \<open>s\<close>; in particular it
  returns whenever some byte of the memory is 0.
\<close>

theorem strlen_correct: "strlen m s = Some k \<longleftrightarrow> cstring m s (unat k)"
proof
  assume "strlen m s = Some k"
  then obtain e where "strlen_loop m s = Some e" "k = e - s" by (auto simp: strlen_def)
  then have "m e = 0" by (simp add: strlen_loop_nul)
  then obtain n where n: "cstring m s n" using cstring_exists by blast
  then have "k = of_nat n" using strlen_cstring \<open>strlen m s = Some k\<close> by force
  then show "cstring m s (unat k)" using n by (simp add: unat_of_nat64 cstring_def)
qed (use strlen_cstring in force)

lemma takeWhile_bytes_Suc:
  "takeWhile (\<lambda>b. b \<noteq> 0) (bytes_at m s (Suc n)) =
     (if m s = 0 then [] else m s # takeWhile (\<lambda>b. b \<noteq> 0) (bytes_at m (s + 1) n))"
  by (simp add: bytes_at_Suc)

lemma strnlen_loop_correct:
  assumes "unat maxlen < 2 ^ 64 - 1" "unat l \<le> unat maxlen + 1"
  shows "strnlen_loop m e l maxlen =
    Some (l + of_nat (length (takeWhile (\<lambda>b. b \<noteq> 0) (bytes_at m e (unat maxlen + 1 - unat l)))))"
  using assms
proof (induction "unat maxlen + 1 - unat l" arbitrary: e l)
  case 0
  then show ?case by (subst strnlen_loop.simps) (simp add: word_le_nat_alt bytes_at_def)
next
  case (Suc k)
  then have l: "unat l \<le> unat maxlen" by simp
  then have l1: "unat (l + 1) = unat l + 1" using Suc.prems by (simp add: unat_word_ariths)
  then have k: "k = unat maxlen + 1 - unat (l + 1)" "unat maxlen + 1 - unat l = Suc k" using Suc.hyps(2) by simp_all
  have "strnlen_loop m (e + 1) (l + 1) maxlen =
    Some (l + 1 + of_nat (length (takeWhile (\<lambda>b. b \<noteq> 0) (bytes_at m (e + 1) k))))"
    unfolding k(1) using Suc.prems l l1 k by (intro Suc.hyps(1)) simp_all
  then show ?case
    using l unfolding k(2) by (subst strnlen_loop.simps) (simp add: word_le_nat_alt takeWhile_bytes_Suc add_ac)
qed

text \<open>
  \<^verbatim>\<open>strnlen\<close> returns for every bound below \<^verbatim>\<open>SIZE_MAX\<close> and counts the characters before the first
  NUL of the first \<open>maxlen + 1\<close> bytes: a string that is longer than \<open>maxlen\<close> gives \<open>maxlen + 1\<close>.
\<close>

theorem strnlen_counts:
  assumes "unat maxlen < 2 ^ 64 - 1"
  shows "strnlen m s maxlen =
    Some (of_nat (length (takeWhile (\<lambda>b. b \<noteq> 0) (bytes_at m s (unat maxlen + 1)))))"
  using strnlen_loop_correct [of maxlen 0 m s] assms by (simp add: strnlen_def)

theorem strnlen_counts_witness:
  "unat (2 :: u64) < 2 ^ 64 - 1 \<and> strnlen (\<lambda>_. 65) 0 2 = Some 3"
  using strnlen_counts [of 2 "\<lambda>_. 65" 0] by (simp add: numeral_3_eq_3 bytes_at_Suc)

text \<open>Two strings that agree, without a NUL, in their first \<open>i\<close> bytes.\<close>

definition same_prefix :: "mem \<Rightarrow> u64 \<Rightarrow> u64 \<Rightarrow> nat \<Rightarrow> bool" where
  "same_prefix m s1 s2 i \<longleftrightarrow> (\<forall>j < i. m (s1 + of_nat j) = m (s2 + of_nat j) \<and> m (s1 + of_nat j) \<noteq> 0)"

lemma same_prefix_Suc:
  "same_prefix m s1 s2 (Suc i) \<longleftrightarrow>
   same_prefix m s1 s2 i \<and> m (s1 + of_nat i) = m (s2 + of_nat i) \<and> m (s2 + of_nat i) \<noteq> 0"
  by (auto simp: same_prefix_def less_Suc_eq)

lemma strcmp_prefix: "same_prefix m s1 s2 i \<Longrightarrow> strcmp m s1 s2 = strcmp m (s1 + of_nat i) (s2 + of_nat i)"
proof (induction i)
  case (Suc i)
  then have "strcmp m (s1 + of_nat i) (s2 + of_nat i) = strcmp m (s1 + of_nat (Suc i)) (s2 + of_nat (Suc i))"
    by (subst strcmp.simps) (simp add: same_prefix_Suc add_ac)
  then show ?case using Suc by (simp add: same_prefix_Suc)
qed simp

text \<open>
  \<^verbatim>\<open>strcmp\<close> returns 0 for equal strings.  For strings that first differ at index \<open>i\<close> it returns 1 if
  the byte of the first string there is below the byte of the second string at index \<open>i - 1\<close>, one
  before the difference, and 0 otherwise.
\<close>

theorem strcmp_value:
  assumes "same_prefix m s1 s2 i"
    and "m (s1 + of_nat i) = m (s2 + of_nat i) \<longrightarrow> m (s1 + of_nat i) = 0"
  shows "strcmp m s1 s2 =
    Some (of_bool (m (s1 + of_nat i) \<noteq> m (s2 + of_nat i) \<and> m (s1 + of_nat i) < m (s2 + of_nat i - 1)))"
proof -
  have "strcmp m s1 s2 = strcmp m (s1 + of_nat i) (s2 + of_nat i)" using assms(1) by (rule strcmp_prefix)
  also have "\<dots> = Some (of_bool (m (s1 + of_nat i) \<noteq> m (s2 + of_nat i) \<and> m (s1 + of_nat i) < m (s2 + of_nat i - 1)))"
    using assms(2) by (subst strcmp.simps) auto
  finally show ?thesis .
qed

text \<open>The strings ``aa'' at 16 and ``ab'' at 32 are reported equal.\<close>

theorem strcmp_value_witness:
  "strcmp ((\<lambda>_. 0)(16 := 97, 17 := 97, 32 := 97, 33 := 98)) 16 32 = Some 0"
  using strcmp_value [where i = 1 and m = "(\<lambda>_. 0)(16 := 97, 17 := 97, 32 := 97, 33 := 98)" and ?s1.0 = 16 and ?s2.0 = 32] by (simp add: same_prefix_def)

lemma strncmp_loop_prefix:
  assumes "same_prefix m s1 s2 i" "i < unat n"
  shows "strncmp_loop m s1 s2 n = strncmp_loop m (s1 + of_nat i) (s2 + of_nat i) (n - of_nat i)"
  using assms
proof (induction i)
  case (Suc i)
  have "unat (n - of_nat i) = unat n - i"
    using Suc.prems(2) unat_lt64 [of n] by (simp add: unat_sub64 unat_of_nat64)
  then have "unat (n - of_nat i) \<noteq> 1" using Suc.prems(2) by simp
  then have "n - of_nat i - 1 \<noteq> 0" unfolding right_minus_eq by (metis unat_1)
  then have "strncmp_loop m (s1 + of_nat i) (s2 + of_nat i) (n - of_nat i) =
      strncmp_loop m (s1 + of_nat (Suc i)) (s2 + of_nat (Suc i)) (n - of_nat (Suc i))"
    using Suc.prems(1) by (subst strncmp_loop.simps) (simp add: same_prefix_Suc add_ac diff_diff_eq)
  then show ?case using Suc by (simp add: same_prefix_Suc)
qed simp

text \<open>
  \<^verbatim>\<open>strncmp\<close> orders two strings by the first byte, among the first \<open>count\<close> and not past a common NUL,
  in which they differ.
\<close>

theorem strncmp_correct:
  assumes "same_prefix m s1 s2 i" "i \<le> unat n"
    and "i = unat n \<or> m (s1 + of_nat i) \<noteq> m (s2 + of_nat i) \<or> m (s1 + of_nat i) = 0"
  shows "strncmp m s1 s2 n =
    (if i < unat n then ucast (m (s1 + of_nat i)) - ucast (m (s2 + of_nat i)) else 0)"
proof (cases "i < unat n")
  case True
  then have "n \<noteq> 0" by auto
  then have "strncmp m s1 s2 n = strncmp_loop m (s1 + of_nat i) (s2 + of_nat i) (n - of_nat i)"
    using strncmp_loop_prefix [OF assms(1) True] by (simp add: strncmp_def)
  then show ?thesis using True assms(3) by (subst (asm) strncmp_loop.simps) auto
next
  case False
  then have i: "i = unat n" using assms(2) by simp
  show ?thesis
  proof (cases "n = 0")
    case False
    then obtain k where k: "unat n = Suc k" by (metis not0_implies_Suc unat_eq_0)
    then have "n - of_nat k = 1" by (metis add_diff_cancel_left' of_nat_Suc add.commute u64_of_nat_unat)
    moreover have "strncmp_loop m s1 s2 n = strncmp_loop m (s1 + of_nat k) (s2 + of_nat k) (n - of_nat k)"
      using assms(1) k i by (intro strncmp_loop_prefix) (auto simp: same_prefix_Suc)
    ultimately show ?thesis
      using assms(1) k i False by (simp add: strncmp_def) (simp add: strncmp_loop.simps same_prefix_Suc)
  qed (simp add: strncmp_def)
qed

theorem strncmp_correct_witness:
  "strncmp ((\<lambda>_. 0)(16 := 97, 17 := 97, 32 := 97, 33 := 98)) 16 32 7 = - 1"
  using strncmp_correct [where i = 1 and m = "(\<lambda>_. 0)(16 := 97, 17 := 97, 32 := 97, 33 := 98)"
    and ?s1.0 = 16 and ?s2.0 = 32 and n = 7] by (simp add: same_prefix_def)

subsection \<open>Copying and concatenating\<close>

lemma strnlen_cstring:
  assumes "cstring m s n" "unat maxlen < 2 ^ 64 - 1"
  shows "strnlen m s maxlen = Some (of_nat (min n (unat maxlen + 1)))"
proof -
  have "length (takeWhile (\<lambda>b. b \<noteq> 0) (bytes_at m s k)) = min n k" for k
    using assms(1)
  proof (induction k arbitrary: n s)
    case (Suc k)
    then show ?case by (cases n) (auto simp: takeWhile_bytes_Suc cstring_Suc)
  qed simp
  then show ?thesis using strnlen_loop_correct [of maxlen 0 m s] assms(2) by (simp add: strnlen_def)
qed

text \<open>
  \<^verbatim>\<open>strcpy\<close> of a string of \<open>n\<close> characters, to a destination that does not start inside it, copies
  exactly its \<open>n + 1\<close> bytes, and the destination then holds a string of \<open>n\<close> characters.
\<close>

theorem strcpy_correct:
  assumes "cstring m src n" "Suc n \<le> unat (dest - src)"
  shows "strcpy m dest src = Some (copy_bytes m dest src (Suc n), dest) \<and>
    cstring (copy_bytes m dest src (Suc n)) dest n"
proof
  note len = assms(2)

  have n: "Suc n < 18446744073709551616" using len unat_lt64 [of "dest - src"] by simp
  then have "unat (of_nat n + 1 :: u64) = Suc n" using unat_of_nat64 [of "Suc n"] by (simp add: add.commute)
  then show "strcpy m dest src = Some (copy_bytes m dest src (Suc n), dest)"
    using memcpy_fwd [of dest src "of_nat n + 1" m] assms by (simp add: strcpy_def strlen_cstring fwd_ok_def)
  show "cstring (copy_bytes m dest src (Suc n)) dest n"
    using assms(1) n by (auto simp: cstring_def copy_bytes_at)
qed

theorem strcpy_correct_witness:
  "strcpy ((\<lambda>_. 0)(16 := 97, 17 := 98)) 32 16 = Some (copy_bytes ((\<lambda>_. 0)(16 := 97, 17 := 98)) 32 16 3, 32) \<and>
   cstring (copy_bytes ((\<lambda>_. 0)(16 := 97, 17 := 98)) 32 16 3) 32 2"
proof -
  have c: "cstring ((\<lambda>_. 0)(16 := 97, 17 := 98)) 16 2" by (auto simp: cstring_def less_2_cases_iff)
  show ?thesis using strcpy_correct [OF c, of 32] by (simp add: numeral_3_eq_3)
qed

lemma append_at_end:
  assumes "cstring m dest a" "\<forall>i < b. m (src + of_nat i) \<noteq> 0" "a + b < 2 ^ 64"
  defines "m' \<equiv> (copy_bytes m (dest + of_nat a) src b)(dest + of_nat a + of_nat b := 0)"
  shows "cstring m' dest (a + b)" "bytes_at m' dest (a + b) = bytes_at m dest a @ bytes_at m src b"
    "b < unat (x - (dest + of_nat a)) \<Longrightarrow> m' x = m x"
proof -
  have "m' (dest + of_nat i) = m (dest + of_nat i)" if "i < a" for i
  proof -
    have "\<not> i + 18446744073709551616 - a < b" using that assms(3) by simp
    then show ?thesis
      using that assms(3) unat_off [of a "dest + of_nat i" dest]
        of_nat_off_inj [of i "a + b" dest] by (simp add: m'_def copy_bytes_def unat_of_nat64 add_ac)
  qed
  moreover have "m' (dest + of_nat i) = (if i = a + b then 0 else m (src + of_nat (i - a)))"
    if "a \<le> i" "i \<le> a + b" for i
    using that assms(3) copy_bytes_at [of "i - a" m "dest + of_nat a" src b]
      of_nat_off_inj [of i "a + b" dest] by (auto simp: m'_def of_nat_diff add_ac)
  ultimately have at: "m' (dest + of_nat i) =
      (if i < a then m (dest + of_nat i) else if i = a + b then 0 else m (src + of_nat (i - a)))"
    if "i \<le> a + b" for i
    using that by simp
  show "cstring m' dest (a + b)"
    unfolding cstring_def
  proof (intro conjI allI impI)
    fix i assume i: "i < a + b"
    then have "i < a \<or> i - a < b" by linarith
    then show "m' (dest + of_nat i) \<noteq> 0" using at [of i] i assms(1,2) by (auto simp: cstring_def simp del: of_nat_diff)
  qed (use assms(3) at [of "a + b"] in simp_all)
  show "bytes_at m' dest (a + b) = bytes_at m dest a @ bytes_at m src b"
    using at by (auto simp: list_eq_iff_nth_eq nth_append)
  show "b < unat (x - (dest + of_nat a)) \<Longrightarrow> m' x = m x"
    using assms(3) by (auto simp: m'_def copy_bytes_def unat_of_nat64)
qed

text \<open>
  \<^verbatim>\<open>strcat\<close> appends.  For a string of \<open>a\<close> characters at \<open>dest\<close> and one of \<open>b\<close> characters at \<open>src\<close>, the
  end of the first not inside the second, it returns \<open>dest\<close>, which then holds a string of \<open>a + b\<close>
  characters, those of \<open>dest\<close> followed by those of \<open>src\<close>; no byte outside the \<open>b + 1\<close> bytes from the
  old NUL on changes.
\<close>

theorem strcat_correct:
  assumes "cstring m dest a" "cstring m src b" "b \<le> unat (dest + of_nat a - src)" "a + b < 2 ^ 64"
  shows "\<exists>m'. strcat m dest src = Some (m', dest) \<and> cstring m' dest (a + b) \<and>
    bytes_at m' dest (a + b) = bytes_at m dest a @ bytes_at m src b \<and>
    (\<forall>x. b < unat (x - (dest + of_nat a)) \<longrightarrow> m' x = m x)"
proof -
  have "strcat m dest src = Some ((copy_bytes m (dest + of_nat a) src b)(dest + of_nat a + of_nat b := 0), dest)"
    using memcpy_fwd [of "dest + of_nat a" src "of_nat b" m] assms
    by (simp add: strcat_def strlen_cstring fwd_ok_def unat_of_nat64)
  moreover have "\<forall>i < b. m (src + of_nat i) \<noteq> 0" using assms(2) by (simp add: cstring_def)
  ultimately show ?thesis using append_at_end [OF assms(1) _ assms(4)] by blast
qed

theorem strcat_correct_witness:
  "\<exists>m'. strcat ((\<lambda>_. 0)(16 := 97, 32 := 98)) 16 32 = Some (m', 16) \<and> cstring m' 16 (1 + 1) \<and>
    bytes_at m' 16 (1 + 1) = [97, 98] \<and> m' 32 = 98"
proof -
  let ?m = "(\<lambda>_. 0)(16 := 97, 32 := 98) :: mem"
  have c: "cstring ?m 16 1" "cstring ?m 32 1" by (auto simp: cstring_def)
  show ?thesis
    using strcat_correct [OF c] by (auto simp: bytes_at_Suc)
qed

text \<open>
  \<^verbatim>\<open>strncat\<close> appends at most \<open>count\<close> characters of \<open>src\<close> and always terminates the result, although
  the \<^verbatim>\<open>strnlen\<close> it calls may count one character too many.
\<close>

theorem strncat_correct:
  assumes "cstring m dest a" "cstring m src b" "min b (unat count) \<le> unat (dest + of_nat a - src)"
    and "a + min b (unat count) < 2 ^ 64" "unat count < 2 ^ 64 - 1"
  shows "\<exists>m'. strncat m dest src count = Some (m', dest) \<and> cstring m' dest (a + min b (unat count)) \<and>
    bytes_at m' dest (a + min b (unat count)) = bytes_at m dest a @ bytes_at m src (min b (unat count)) \<and>
    (\<forall>x. min b (unat count) < unat (x - (dest + of_nat a)) \<longrightarrow> m' x = m x)"
proof -
  define c where "c = min b (unat count)"
  have n: "strnlen m src count = Some (of_nat (min b (Suc (unat count))))" using assms by (simp add: strnlen_cstring)
  have "unat (of_nat (min b (Suc (unat count))) :: u64) = min b (Suc (unat count))"
    using assms(5) by (intro unat_of_nat64) simp
  then have k: "(if of_nat (min b (Suc (unat count))) < count then of_nat (min b (Suc (unat count))) else count) = of_nat c"
    by (auto simp: word_less_nat_alt c_def min_def)
  have "unat (of_nat c :: u64) = c" using assms(5) by (intro unat_of_nat64) (simp add: c_def)
  then have "strncat m dest src count = Some ((copy_bytes m (dest + of_nat a) src c)(dest + of_nat a + of_nat c := 0), dest)"
    using memcpy_fwd [of "dest + of_nat a" src "of_nat c" m] assms(3)
    by (simp add: strncat_def strlen_cstring [OF assms(1)] n Let_def k fwd_ok_def flip: c_def)
  moreover have "\<forall>i < c. m (src + of_nat i) \<noteq> 0" using assms(2) by (simp add: cstring_def c_def)
  ultimately show ?thesis using append_at_end [OF assms(1) _ assms(4)] unfolding c_def by blast
qed

theorem strncat_correct_witness:
  "\<exists>m'. strncat ((\<lambda>_. 0)(16 := 97, 32 := 98, 33 := 99)) 16 32 1 = Some (m', 16) \<and> cstring m' 16 (1 + 1) \<and>
    bytes_at m' 16 (1 + 1) = [97, 98]"
proof -
  let ?m = "(\<lambda>_. 0)(16 := 97, 32 := 98, 33 := 99) :: mem"
  have c: "cstring ?m 16 1" "cstring ?m 32 2" by (auto simp: cstring_def less_2_cases_iff)
  show ?thesis
    using strncat_correct [OF c, of 1] by (auto simp: bytes_at_Suc)
qed

text \<open>
  C40: \<^verbatim>\<open>strncpy\<close> copies the first \<open>min n count\<close> bytes of a string of \<open>n\<close> characters and pads with zeros up
  to \<open>count\<close> bytes.  When the padding has at least eight bytes and does not start on an 8-byte
  boundary, the zeros run past \<open>dest + count\<close>, up to the overrun of \<^verbatim>\<open>memset\<close>.
\<close>

theorem strncpy_extent:
  assumes "cstring m src n" "unat count \<le> unat (dest - src)" "unat count < 2 ^ 64 - 7"
  shows "strncpy m dest src count =
    Some (if n < unat count
          then fill_bytes (copy_bytes m dest src n) (dest + of_nat n) 0
            (unat count - n + (if 8 \<le> unat count - n then (8 - unat (dest + of_nat n) mod 8) mod 8 else 0))
          else copy_bytes m dest src (unat count), dest)"
proof -
  have n: "strnlen m src count = Some (of_nat (min n (unat count + 1)))" using assms by (simp add: strnlen_cstring)
  have "unat (of_nat (min n (unat count + 1)) :: u64) = min n (unat count + 1)"
    using assms(3) by (intro unat_of_nat64) simp
  then have lt: "of_nat (min n (unat count + 1)) < count \<longleftrightarrow> n < unat count"
    by (auto simp: word_less_nat_alt)
  show ?thesis
  proof (cases "n < unat count")
    case True
    then have u: "unat (of_nat n :: u64) = n" using assms(3) by (intro unat_of_nat64) simp
    then have c: "unat (count - of_nat n) = unat count - n" using True by (simp add: unat_sub64)
    have "memcpy m dest src (of_nat n) = Some (copy_bytes m dest src n, dest)"
      using memcpy_fwd [of dest src "of_nat n" m] assms(2) True by (simp add: u fwd_ok_def)
    moreover have "memset (copy_bytes m dest src n) (dest + of_nat n) 0 (count - of_nat n) =
        (fill_bytes (copy_bytes m dest src n) (dest + of_nat n) 0
          (unat count - n + (if 8 \<le> unat count - n then (8 - unat (dest + of_nat n) mod 8) mod 8 else 0)), dest + of_nat n)"
      using memset_fill [of "count - of_nat n" "copy_bytes m dest src n" "dest + of_nat n" 0] assms(3) c
      by (simp add: word_le_nat_alt)
    ultimately show ?thesis using True lt by (simp add: strncpy_def n min_def)
  next
    case False
    then show ?thesis
      using memcpy_fwd [of dest src count m] assms(2) lt by (simp add: strncpy_def n fwd_ok_def)
  qed
qed

text \<open>Copying ``a'' with \<open>count = 9\<close> to 32 clears the bytes 33 to 47, seven of them past the field.\<close>

theorem strncpy_extent_witness:
  "strncpy ((\<lambda>_. 66)(16 := 97, 17 := 0)) 32 16 9 =
     Some (fill_bytes (copy_bytes ((\<lambda>_. 66)(16 := 97, 17 := 0)) 32 16 1) 33 0 15, 32)"
proof -
  have c: "cstring ((\<lambda>_. 66)(16 := 97, 17 := 0)) 16 1" by (auto simp: cstring_def)
  show ?thesis using strncpy_extent [OF c, of 9 32] by simp
qed

end
