(* ===== verification/Ctype.thy ===== *)
theory Ctype
  imports Prelude
begin

text \<open>
  The character classes of \<^verbatim>\<open>libc/ctype.c\<close>.  The argument is a C \<^verbatim>\<open>int\<close>; no operation below leaves the
  32-bit range, so it is an \<open>int\<close> here.  A \<^verbatim>\<open>char\<close> read from memory is sign-extended to one.
\<close>

definition char_at :: "mem \<Rightarrow> u64 \<Rightarrow> int" where
  "char_at m s = sint (m s)"

definition isdigit :: "int \<Rightarrow> bool" where
  "isdigit ch \<longleftrightarrow> ch \<ge> 48 \<and> ch \<le> 57"

definition isupper :: "int \<Rightarrow> bool" where
  "isupper ch \<longleftrightarrow> ch \<ge> 65 \<and> ch \<le> 90"

definition islower :: "int \<Rightarrow> bool" where
  "islower ch \<longleftrightarrow> ch \<ge> 97 \<and> ch \<le> 122"

definition isalpha :: "int \<Rightarrow> bool" where
  "isalpha ch \<longleftrightarrow> isupper ch \<or> islower ch"

definition isalnum :: "int \<Rightarrow> bool" where
  "isalnum ch \<longleftrightarrow> isalpha ch \<or> isdigit ch"

definition isascii :: "int \<Rightarrow> bool" where
  "isascii ch \<longleftrightarrow> ch \<ge> 0 \<and> ch \<le> 127"

definition isblank :: "int \<Rightarrow> bool" where
  "isblank ch \<longleftrightarrow> ch = 32 \<or> ch = 9"

definition iscntrl :: "int \<Rightarrow> bool" where
  "iscntrl ch \<longleftrightarrow> (ch \<ge> 0 \<and> ch \<le> 31) \<or> ch = 127"

definition isgraph :: "int \<Rightarrow> bool" where
  "isgraph ch \<longleftrightarrow> ch > 32 \<and> ch \<le> 126"

definition isprint :: "int \<Rightarrow> bool" where
  "isprint ch \<longleftrightarrow> ch \<ge> 32 \<and> ch \<le> 126"

definition isspace :: "int \<Rightarrow> bool" where
  "isspace ch \<longleftrightarrow> ch = 32 \<or> (ch \<ge> 9 \<and> ch \<le> 13)"

definition isxdigit :: "int \<Rightarrow> bool" where
  "isxdigit ch \<longleftrightarrow> isdigit ch \<or> (ch \<ge> 65 \<and> ch \<le> 70) \<or> (ch \<ge> 97 \<and> ch \<le> 102)"

definition toascii :: "int \<Rightarrow> int" where
  "toascii ch = ch AND 0x7F"

definition tolower :: "int \<Rightarrow> int" where
  "tolower ch = (if isupper ch then ch + (97 - 65) else ch)"

definition toupper :: "int \<Rightarrow> int" where
  "toupper ch = (if islower ch then ch - (97 - 65) else ch)"

lemmas ctype_defs = isdigit_def isupper_def islower_def isalpha_def isalnum_def isascii_def
  isblank_def iscntrl_def isgraph_def isprint_def isspace_def isxdigit_def tolower_def toupper_def

text \<open>
  The classes fit together: every ASCII code is a control character or printable and never
  both, the printable ones are the graphic ones and the space, letters and digits are disjoint and
  graphic, blanks are white space, \<^verbatim>\<open>toascii\<close> lands in the ASCII range and is the identity on it,
  and the case conversions are inverse to each other on letters and fix everything else.
\<close>

theorem ctype_classes:
  "(isascii ch \<longleftrightarrow> iscntrl ch \<or> isprint ch) \<and> \<not> (iscntrl ch \<and> isprint ch) \<and>
   (isprint ch \<longleftrightarrow> isgraph ch \<or> ch = 32) \<and> \<not> (isalpha ch \<and> isdigit ch) \<and>
   (isalnum ch \<or> isxdigit ch \<longleftrightarrow> isalnum ch \<and> isgraph ch) \<and> (isblank ch \<or> isspace ch \<longleftrightarrow> isspace ch) \<and>
   isascii (toascii ch) \<and> (isascii ch \<longleftrightarrow> toascii ch = ch) \<and>
   (if isupper ch then islower (tolower ch) \<and> toupper (tolower ch) = ch else tolower ch = ch) \<and>
   (if islower ch then isupper (toupper ch) \<and> tolower (toupper ch) = ch else toupper ch = ch)"
proof -
  have "toascii ch = ch mod 128"
    using take_bit_eq_mask [of 7 ch] by (simp add: toascii_def take_bit_eq_mod mask_eq_exp_minus_1)
  moreover have "0 \<le> ch mod 128" "ch mod 128 < 128" by simp_all
  moreover have "ch mod 128 = ch \<longleftrightarrow> 0 \<le> ch \<and> ch < 128" by presburger
  ultimately show ?thesis unfolding ctype_defs by (intro conjI) (simp_all, linarith+)
qed

end
