(* ===== verification/Stdlib.thy ===== *)
theory Stdlib
  imports Ctype "HOL-Library.Signed_Division"
begin

text \<open>
  \<^verbatim>\<open>libc/stdlib\<close>: absolute values, divisions with remainder and the number parsers.  The four parsers
  \<^verbatim>\<open>strtol\<close>, \<^verbatim>\<open>strtoll\<close>, \<^verbatim>\<open>strtoul\<close> and \<^verbatim>\<open>strtoull\<close> repeat the same prefix and digit loops with their own
  limits; the loops are shared here and take the limits as arguments.  \<open>None\<close> means that a scan
  does not end.
\<close>

subsection \<open>Definitions\<close>

definition abs_int :: "u32 \<Rightarrow> u32" where
  "abs_int i = (if sint i < 0 then - i else i)"

definition labs :: "u64 \<Rightarrow> u64" where
  "labs i = (if sint i < 0 then - i else i)"

definition llabs :: "u64 \<Rightarrow> u64" where
  "llabs i = (if sint i < 0 then - i else i)"

record 'w div_result =
  quot :: 'w
  rem :: 'w

text \<open>Division by zero and the one overflowing quotient trap on amd64: \<open>None\<close>.\<close>

definition div_int :: "u32 \<Rightarrow> u32 \<Rightarrow> u32 div_result option" where
  "div_int numer denom =
     (if denom = 0 \<or> (sint numer = - (2 ^ 31) \<and> sint denom = - 1) then None
      else Some \<lparr>quot = word_of_int (sint numer sdiv sint denom), rem = word_of_int (sint numer smod sint denom)\<rparr>)"

definition ldiv :: "u64 \<Rightarrow> u64 \<Rightarrow> u64 div_result option" where
  "ldiv numer denom =
     (if denom = 0 \<or> (sint numer = - (2 ^ 63) \<and> sint denom = - 1) then None
      else Some \<lparr>quot = word_of_int (sint numer sdiv sint denom), rem = word_of_int (sint numer smod sint denom)\<rparr>)"

definition lldiv :: "u64 \<Rightarrow> u64 \<Rightarrow> u64 div_result option" where
  "lldiv numer denom =
     (if denom = 0 \<or> (sint numer = - (2 ^ 63) \<and> sint denom = - 1) then None
      else Some \<lparr>quot = word_of_int (sint numer sdiv sint denom), rem = word_of_int (sint numer smod sint denom)\<rparr>)"

partial_function (option) atou_loop :: "mem \<Rightarrow> u64 \<Rightarrow> u64 \<Rightarrow> u64 option" where
  "atou_loop m endp val =
     (if isdigit (char_at m endp)
      then atou_loop m (endp + 1) (val * 10 + word_of_int (char_at m endp - 48))
      else Some val)"

definition atou :: "mem \<Rightarrow> u64 \<Rightarrow> u64 option" where
  "atou m nptr = atou_loop m nptr 0"

text \<open>The state of a parser between its parts: the last character read, the pointer after it, \<open>neg\<close>, \<open>base\<close>.\<close>

record strto_state =
  st_c :: int
  st_s :: u64
  st_neg :: bool
  st_base :: int

partial_function (option) skip_space :: "mem \<Rightarrow> u64 \<Rightarrow> (int \<times> u64) option" where
  "skip_space m s =
     (let c = char_at m s; s = s + 1 in if isspace c then skip_space m s else Some (c, s))"

definition strto_prefix :: "mem \<Rightarrow> u64 \<Rightarrow> int \<Rightarrow> strto_state option" where
  "strto_prefix m nptr base =
     (case skip_space m nptr of None \<Rightarrow> None
      | Some (c, s) \<Rightarrow>
         (let (neg, c, s) = (if c = 45 then (True, char_at m s, s + 1)
                             else if c = 43 then (False, char_at m s, s + 1)
                             else (False, c, s));
              (c, s, base) = (if (base = 0 \<or> base = 16) \<and> c = 48 \<and> (char_at m s = 120 \<or> char_at m s = 88)
                              then (char_at m (s + 1), s + 2, 16) else (c, s, base));
              base = (if base = 0 then (if c = 48 then 8 else 10) else base)
          in Some \<lparr>st_c = c, st_s = s, st_neg = neg, st_base = base\<rparr>))"

text \<open>The value of a character as a digit; \<open>None\<close> is the \<^verbatim>\<open>break\<close> for other characters.\<close>

definition digit_of :: "int \<Rightarrow> int option" where
  "digit_of c =
     (if isdigit c then Some (c - 48)
      else if isalpha c then Some (c - (if isupper c then 65 - 10 else 97 - 10))
      else None)"

text \<open>Ends with \<open>any\<close>, \<open>acc\<close> and the pointer after the character that ended the digits.\<close>

partial_function (option) strto_digits ::
  "mem \<Rightarrow> int \<Rightarrow> u64 \<Rightarrow> int \<Rightarrow> int \<Rightarrow> u64 \<Rightarrow> int \<Rightarrow> u64 \<Rightarrow> (int \<times> u64 \<times> u64) option" where
  "strto_digits m base cutoff cutlim c s any acc =
     (case digit_of c of
        None \<Rightarrow> Some (any, acc, s)
      | Some c \<Rightarrow>
         if c \<ge> base then Some (any, acc, s)
         else if any < 0 \<or> acc > cutoff \<or> (acc = cutoff \<and> c > cutlim)
         then strto_digits m base cutoff cutlim (char_at m s) (s + 1) (- 1) acc
         else strto_digits m base cutoff cutlim (char_at m s) (s + 1) 1 (acc * word_of_int base + word_of_int c))"

definition strto_end :: "mem \<Rightarrow> u64 \<Rightarrow> u64 \<Rightarrow> int \<Rightarrow> u64 \<Rightarrow> mem" where
  "strto_end m endptr nptr any s =
     (if endptr \<noteq> 0 then store64 m endptr (if any \<noteq> 0 then s - 1 else nptr) else m)"

definition LONG_MIN :: u64 where "LONG_MIN = 0x8000000000000000"
definition LONG_MAX :: u64 where "LONG_MAX = 0x7FFFFFFFFFFFFFFF"
definition ULONG_MAX :: u64 where "ULONG_MAX = 0xFFFFFFFFFFFFFFFF"

definition to_int :: "u64 \<Rightarrow> int" where
  "to_int w = sint (ucast w :: u32)"

definition strtol :: "mem \<Rightarrow> u64 \<Rightarrow> u64 \<Rightarrow> int \<Rightarrow> (u64 \<times> mem) option" where
  "strtol m nptr endptr base =
     (case strto_prefix m nptr base of None \<Rightarrow> None
      | Some st \<Rightarrow>
         (let base = word_of_int (st_base st);
              cutoff = (if st_neg st then - LONG_MIN else LONG_MAX);
              cutlim = to_int (cutoff mod base);
              cutoff = cutoff div base
          in case strto_digits m (st_base st) cutoff cutlim (st_c st) (st_s st) 0 0 of None \<Rightarrow> None
             | Some (any, acc, s) \<Rightarrow>
                (let acc = (if any < 0 then (if st_neg st then LONG_MIN else LONG_MAX)
                            else if st_neg st then - acc else acc)
                 in Some (acc, strto_end m endptr nptr any s))))"

definition strtoll :: "mem \<Rightarrow> u64 \<Rightarrow> u64 \<Rightarrow> int \<Rightarrow> (u64 \<times> mem) option" where
  "strtoll m nptr endptr base =
     (case strto_prefix m nptr base of None \<Rightarrow> None
      | Some st \<Rightarrow>
         (let base = word_of_int (st_base st);
              cutoff = (if st_neg st then - LONG_MIN else LONG_MAX);
              cutlim = to_int (cutoff mod base);
              cutoff = cutoff div base
          in case strto_digits m (st_base st) cutoff cutlim (st_c st) (st_s st) 0 0 of None \<Rightarrow> None
             | Some (any, acc, s) \<Rightarrow>
                (let acc = (if any < 0 then (if st_neg st then LONG_MIN else LONG_MAX)
                            else if st_neg st then - acc else acc)
                 in Some (acc, strto_end m endptr nptr any s))))"

definition strtoul :: "mem \<Rightarrow> u64 \<Rightarrow> u64 \<Rightarrow> int \<Rightarrow> (u64 \<times> mem) option" where
  "strtoul m nptr endptr base =
     (case strto_prefix m nptr base of None \<Rightarrow> None
      | Some st \<Rightarrow>
         (let base = word_of_int (st_base st);
              cutoff = ULONG_MAX div base;
              cutlim = to_int (ULONG_MAX mod base)
          in case strto_digits m (st_base st) cutoff cutlim (st_c st) (st_s st) 0 0 of None \<Rightarrow> None
             | Some (any, acc, s) \<Rightarrow>
                (let acc = (if any < 0 then ULONG_MAX else if st_neg st then - acc else acc)
                 in Some (acc, strto_end m endptr nptr any s))))"

definition strtoull :: "mem \<Rightarrow> u64 \<Rightarrow> u64 \<Rightarrow> int \<Rightarrow> (u64 \<times> mem) option" where
  "strtoull m nptr endptr base =
     (case strto_prefix m nptr base of None \<Rightarrow> None
      | Some st \<Rightarrow>
         (let base = word_of_int (st_base st);
              cutoff = ULONG_MAX div base;
              cutlim = to_int (ULONG_MAX mod base)
          in case strto_digits m (st_base st) cutoff cutlim (st_c st) (st_s st) 0 0 of None \<Rightarrow> None
             | Some (any, acc, s) \<Rightarrow>
                (let acc = (if any < 0 then ULONG_MAX else if st_neg st then - acc else acc)
                 in Some (acc, strto_end m endptr nptr any s))))"

definition atoi :: "mem \<Rightarrow> u64 \<Rightarrow> u32 option" where
  "atoi m nptr = map_option (\<lambda>(r, _). ucast r) (strtol m nptr 0 10)"

definition atol :: "mem \<Rightarrow> u64 \<Rightarrow> u64 option" where
  "atol m nptr = map_option fst (strtol m nptr 0 10)"

definition atoll :: "mem \<Rightarrow> u64 \<Rightarrow> u64 option" where
  "atoll m nptr = map_option fst (strtoll m nptr 0 10)"

subsection \<open>Digit strings and their values\<close>

text \<open>The digits \<open>ds\<close> of a numeral in base \<open>base\<close> at \<open>p\<close>, ended by a character that is not one.\<close>

primrec digits_at :: "mem \<Rightarrow> int \<Rightarrow> u64 \<Rightarrow> int list \<Rightarrow> bool" where
  "digits_at m base p [] \<longleftrightarrow> (case digit_of (char_at m p) of None \<Rightarrow> True | Some d \<Rightarrow> base \<le> d)"
| "digits_at m base p (d # ds) \<longleftrightarrow> digit_of (char_at m p) = Some d \<and> d < base \<and> digits_at m base (p + 1) ds"

definition horner :: "int \<Rightarrow> int \<Rightarrow> int list \<Rightarrow> int" where
  "horner base a ds = foldl (\<lambda>a d. a * base + d) a ds"

lemma horner_simps [simp]:
  "horner base a [] = a" "horner base a (d # ds) = horner base (a * base + d) ds"
  by (simp_all add: horner_def)

lemma digit_of_nonneg: "digit_of c = Some d \<Longrightarrow> 0 \<le> d"
  by (auto simp: digit_of_def ctype_defs split: if_splits)

lemma horner_mono: "digits_at m base p ds \<Longrightarrow> 0 \<le> a \<Longrightarrow> 1 \<le> base \<Longrightarrow> a \<le> horner base a ds"
proof (induction ds arbitrary: a p)
  case (Cons d ds)
  then have d: "0 \<le> d" using digit_of_nonneg by auto
  have "a * 1 \<le> a * base" using Cons.prems by (intro mult_left_mono) auto
  then have "a \<le> a * base + d" using d by simp
  moreover have "a * base + d \<le> horner base (a * base + d) ds"
    using Cons.prems d by (intro Cons.IH) auto
  ultimately show ?case by simp
qed simp

lemma to_int_small:
  assumes "uint w < 2 ^ 31"
  shows "to_int w = uint w"
proof -
  have u: "uint (ucast w :: u32) = uint w"
    using assms unsigned_greater_eq [of w] by (simp add: unsigned_ucast_eq take_bit_int_eq_self)
  have "signed_take_bit 31 (uint w) = uint w"
    using assms unsigned_greater_eq [of w, where 'a = int] by (intro signed_take_bit_int_eq_self) linarith+
  then show ?thesis by (simp add: to_int_def sint_uint u)
qed

lemma cutoff_iff:
  fixes L q r b a d :: int
  assumes "L = q * b + r" "0 \<le> r" "r < b" "0 \<le> d" "d < b"
  shows "q < a \<or> (a = q \<and> r < d) \<longleftrightarrow> L < a * b + d"
proof -
  have "q * b + b \<le> a * b" if "q < a"
    using mult_right_mono [of "q + 1" a b] that assms by (simp add: algebra_simps)
  moreover have "a * b + b \<le> q * b" if "a < q"
    using mult_right_mono [of "a + 1" q b] that assms by (simp add: algebra_simps)
  ultimately show ?thesis using assms by (cases a q rule: linorder_cases) auto
qed

subsection \<open>The digit loop\<close>

lemma strto_digits_overflowed:
  "digits_at m base p ds \<Longrightarrow>
   strto_digits m base cutoff cutlim (char_at m p) (p + 1) (- 1) acc = Some (- 1, acc, p + of_nat (length ds) + 1)"
proof (induction ds arbitrary: p)
  case Nil
  then show ?case by (subst strto_digits.simps) (auto split: option.splits)
next
  case (Cons d ds)
  then show ?case using Cons.IH [of "p + 1"] by (subst strto_digits.simps) (simp add: add.commute add.left_commute)
qed

lemma strto_digits_correct:
  assumes "digits_at m base p ds" "2 \<le> base" "base \<le> 36" "0 \<le> any" "acc \<le> L"
  shows "\<exists>acc'. strto_digits m base (L div word_of_int base) (to_int (L mod word_of_int base))
      (char_at m p) (p + 1) any acc =
    Some (if ds = [] then any else if horner base (uint acc) ds \<le> uint L then 1 else - 1, acc',
      p + of_nat (length ds) + 1) \<and>
    (horner base (uint acc) ds \<le> uint L \<longrightarrow> acc' = word_of_int (horner base (uint acc) ds))"
  using assms(1,4,5)
proof (induction ds arbitrary: p any acc)
  case Nil
  then show ?case by (subst strto_digits.simps) (auto split: option.splits)
next
  case (Cons d ds)
  let ?B = "word_of_int base :: u64"
  have d: "0 \<le> d" "d < base" "digit_of (char_at m p) = Some d" and ds: "digits_at m base (p + 1) ds"
    using Cons.prems(1) digit_of_nonneg by auto
  have B: "uint ?B = base" using assms(2,3) by (simp add: uint_word_of_int)
  have c: "uint (L div ?B) = uint L div base" "uint (L mod ?B) = uint L mod base"
    by (simp_all add: uint_div_distrib uint_mod_distrib B)
  have "uint L mod base < 36" using assms(2,3) pos_mod_bound [of base "uint L"] by linarith
  then have cl: "to_int (L mod ?B) = uint L mod base" using c by (simp add: to_int_small)
  have "L div ?B < acc \<or> (acc = L div ?B \<and> to_int (L mod ?B) < d) \<longleftrightarrow> uint L < uint acc * base + d"
    unfolding word_less_def word_uint_eq_iff c cl using assms(2) d by (intro cutoff_iff) simp_all
  note ov = this
  let ?a = "uint acc * base + d"
  have unf: "strto_digits m base (L div ?B) (to_int (L mod ?B)) (char_at m p) (p + 1) any acc =
     (if uint L < ?a
      then strto_digits m base (L div ?B) (to_int (L mod ?B)) (char_at m (p + 1)) (p + 1 + 1) (- 1) acc
      else strto_digits m base (L div ?B) (to_int (L mod ?B)) (char_at m (p + 1)) (p + 1 + 1) 1
             (acc * ?B + word_of_int d))"
    using Cons.prems(2) d ov by (subst strto_digits.simps) (simp del: disj_not1)
  show ?case
  proof (cases "uint L < ?a")
    case True
    have "0 \<le> uint acc * base" using assms(2) by (intro mult_nonneg_nonneg) simp_all
    then have "?a \<le> horner base ?a ds" using horner_mono [OF ds, of ?a] assms(2) d(1) by simp
    then show ?thesis using True unf strto_digits_overflowed [OF ds] by (simp add: add_ac)
  next
    case False
    have "0 \<le> uint acc * base" using assms(2) by (intro mult_nonneg_nonneg) simp_all
    moreover have "uint L < 2 ^ 64" using uint_lt2p [of L] by simp
    ultimately have "0 \<le> ?a" "?a < 2 ^ 64" using False d(1) by linarith+
    then have "uint (word_of_int ?a :: u64) = ?a" unfolding uint_word_of_int by simp
    moreover have "acc * ?B + word_of_int d = word_of_int ?a" by simp
    ultimately have u: "uint (acc * ?B + word_of_int d) = ?a" by metis
    then have "acc * ?B + word_of_int d \<le> L" using False by (simp add: word_le_def)
    from Cons.IH [OF ds _ this, of 1] show ?thesis using False unf u by (auto simp: add_ac)
  qed
qed

subsection \<open>The parsers\<close>

text \<open>
  The text at \<open>nptr\<close> that the parsers accept: white space, an optional sign, the prefix \<^verbatim>\<open>0x\<close> where the
  base allows it, and at \<open>p\<close> the digits \<open>ds\<close> in the effective base \<open>base'\<close>.
\<close>

definition numeral_text :: "mem \<Rightarrow> u64 \<Rightarrow> int \<Rightarrow> bool \<Rightarrow> int \<Rightarrow> u64 \<Rightarrow> int list \<Rightarrow> bool" where
  "numeral_text m nptr base neg base' p ds \<longleftrightarrow>
     (\<exists>k q. (\<forall>i < k. isspace (char_at m (nptr + of_nat i))) \<and> \<not> isspace (char_at m (nptr + of_nat k)) \<and>
        neg = (char_at m (nptr + of_nat k) = 45) \<and>
        q = nptr + of_nat k + (if char_at m (nptr + of_nat k) \<in> {43, 45} then 1 else 0) \<and>
        (base', p) = (if (base = 0 \<or> base = 16) \<and> char_at m q = 48 \<and> char_at m (q + 1) \<in> {88, 120} then (16, q + 2)
                      else if base \<noteq> 0 then (base, q) else if char_at m q = 48 then (8, q) else (10, q))) \<and>
     digits_at m base' p ds"

lemma skip_space_correct:
  "(\<forall>i < k. isspace (char_at m (s + of_nat i))) \<Longrightarrow> \<not> isspace (char_at m (s + of_nat k)) \<Longrightarrow>
   skip_space m s = Some (char_at m (s + of_nat k), s + of_nat k + 1)"
proof (induction k arbitrary: s)
  case 0
  then show ?case by (subst skip_space.simps) (simp add: Let_def)
next
  case (Suc k)
  have sp: "isspace (char_at m (s + of_nat i))" if "i < Suc k" for i using Suc.prems(1) that by blast
  have "isspace (char_at m s)" using sp [of 0] by simp
  moreover have "\<forall>i < k. isspace (char_at m (s + 1 + of_nat i))"
    using sp [of "Suc i" for i] by (simp add: add.assoc)
  then have "skip_space m (s + 1) = Some (char_at m (s + 1 + of_nat k), s + 1 + of_nat k + 1)"
    using Suc.prems(2) by (intro Suc.IH) (simp_all add: add.assoc)
  ultimately show ?case by (subst skip_space.simps) (simp add: Let_def add.assoc)
qed

lemma strto_prefix_correct:
  assumes "numeral_text m nptr base neg base' p ds"
  shows "strto_prefix m nptr base = Some \<lparr>st_c = char_at m p, st_s = p + 1, st_neg = neg, st_base = base'\<rparr>"
proof -
  obtain k q where k: "\<forall>i < k. isspace (char_at m (nptr + of_nat i))" "\<not> isspace (char_at m (nptr + of_nat k))"
    and neg: "neg = (char_at m (nptr + of_nat k) = 45)"
    and q: "q = nptr + of_nat k + (if char_at m (nptr + of_nat k) \<in> {43, 45} then 1 else 0)"
    and b: "(base', p) = (if (base = 0 \<or> base = 16) \<and> char_at m q = 48 \<and> char_at m (q + 1) \<in> {88, 120} then (16, q + 2)
                      else if base \<noteq> 0 then (base, q) else if char_at m q = 48 then (8, q) else (10, q))"
    using assms unfolding numeral_text_def by blast
  define c s where "c = char_at m (nptr + of_nat k)" and "s = nptr + of_nat k + 1"
  have sign: "(if c = 45 then (True, char_at m s, s + 1) else if c = 43 then (False, char_at m s, s + 1)
      else (False, c, s)) = (neg, char_at m q, q + 1)"
    unfolding c_def s_def neg q by auto
  show ?thesis
    using b unfolding strto_prefix_def skip_space_correct [OF k] c_def [symmetric] s_def [symmetric] option.case prod.case sign
    by (auto simp: Let_def add.commute [of 2 q] split: if_splits)
qed

lemma strtol_value:
  assumes "numeral_text m nptr base neg base' p ds" "2 \<le> base'" "base' \<le> 36"
  shows "strtol m nptr endptr base =
    Some (word_of_int (max (- (2 ^ 63)) (min (2 ^ 63 - 1) (if neg then - horner base' 0 ds else horner base' 0 ds))),
      if endptr \<noteq> 0 then store64 m endptr (if ds = [] then nptr else p + of_nat (length ds)) else m)"
proof -
  have ds: "digits_at m base' p ds" using assms(1) by (simp add: numeral_text_def)
  have nn: "0 \<le> horner base' 0 ds" using horner_mono [OF ds, of 0] assms(2) by simp
  let ?L = "if neg then - LONG_MIN else LONG_MAX"
  have L: "uint ?L = (if neg then 2 ^ 63 else 2 ^ 63 - 1)" by (simp add: LONG_MIN_def LONG_MAX_def)
  obtain acc where acc: "strto_digits m base' (?L div word_of_int base') (to_int (?L mod word_of_int base'))
      (char_at m p) (p + 1) 0 0 =
      Some (if ds = [] then 0 else if horner base' 0 ds \<le> uint ?L then 1 else - 1, acc, p + of_nat (length ds) + 1)"
    "horner base' 0 ds \<le> uint ?L \<longrightarrow> acc = word_of_int (horner base' 0 ds)"
    using strto_digits_correct [OF ds assms(2,3), of 0 0 ?L] by auto
  have e: "strtol m nptr endptr base =
     Some (if ds \<noteq> [] \<and> uint ?L < horner base' 0 ds then (if neg then LONG_MIN else LONG_MAX) else if neg then - acc else acc,
       if endptr \<noteq> 0 then store64 m endptr (if ds = [] then nptr else p + of_nat (length ds)) else m)"
    unfolding strtol_def strto_prefix_correct [OF assms(1)] Let_def option.case strto_state.simps acc(1) prod.case
    by (auto simp: strto_end_def)
  show ?thesis
  proof (cases "horner base' 0 ds \<le> uint ?L")
    case True
    then show ?thesis using e acc(2) L nn by (cases neg) auto
  next
    case False
    then have "ds \<noteq> []" by auto
    then show ?thesis using e False L nn by (cases neg) (auto simp: LONG_MIN_def LONG_MAX_def)
  qed
qed

text \<open>
  \<^verbatim>\<open>strtol\<close> returns on every numeral in an effective base between 2 and 36.  Its result is the value
  of the numeral clamped to the range of \<^verbatim>\<open>long\<close>, with no wrap-around whatever the number of digits,
  and \<open>*endptr\<close> is set after the last digit, or to \<open>nptr\<close> when there is no digit.
\<close>

theorem strtol_correct:
  assumes "numeral_text m nptr base neg base' p ds" "2 \<le> base'" "base' \<le> 36"
  shows "strtol m nptr endptr base =
    Some (word_of_int (max (- (2 ^ 63)) (min (2 ^ 63 - 1) (if neg then - horner base' 0 ds else horner base' 0 ds))),
      if endptr \<noteq> 0 then store64 m endptr (if ds = [] then nptr else p + of_nat (length ds)) else m)"
  using assms by (rule strtol_value)

text \<open>The hexadecimal numeral \<^verbatim>\<open>-0x1F\<close> at address 16, parsed with base 0.\<close>

theorem strtol_correct_witness:
  "strtol ((\<lambda>_. 0)(16 := 45, 17 := 48, 18 := 120, 19 := 49, 20 := 70)) 16 64 0 =
     Some (- 31, store64 ((\<lambda>_. 0)(16 := 45, 17 := 48, 18 := 120, 19 := 49, 20 := 70)) 64 21)"
proof -
  let ?m = "(\<lambda>_. 0)(16 := 45, 17 := 48, 18 := 120, 19 := 49, 20 := 70) :: mem"
  have t: "numeral_text ?m 16 0 True 16 19 [1, 15]"
    unfolding numeral_text_def
    by (intro conjI exI [of _ 0] exI [of _ 17]) (simp_all add: char_at_def ctype_defs digit_of_def)
  show ?thesis using strtol_correct [OF t, of 64] by simp
qed

text \<open>
  \<^verbatim>\<open>strtoul\<close> returns on every numeral in an effective base between 2 and 36.  A value above
  \<^verbatim>\<open>ULONG_MAX\<close> gives \<^verbatim>\<open>ULONG_MAX\<close>, any other one its residue modulo \<open>2 ^ 64\<close>, negated after a minus sign.
\<close>

theorem strtoul_correct:
  assumes "numeral_text m nptr base neg base' p ds" "2 \<le> base'" "base' \<le> 36"
  shows "strtoul m nptr endptr base =
    Some (if 2 ^ 64 \<le> horner base' 0 ds then - 1
          else word_of_int (if neg then - horner base' 0 ds else horner base' 0 ds),
      if endptr \<noteq> 0 then store64 m endptr (if ds = [] then nptr else p + of_nat (length ds)) else m)"
proof -
  have ds: "digits_at m base' p ds" using assms(1) by (simp add: numeral_text_def)
  have L: "uint ULONG_MAX = 2 ^ 64 - 1" by (simp add: ULONG_MAX_def)
  obtain acc where acc: "strto_digits m base' (ULONG_MAX div word_of_int base') (to_int (ULONG_MAX mod word_of_int base'))
      (char_at m p) (p + 1) 0 0 =
      Some (if ds = [] then 0 else if horner base' 0 ds \<le> uint ULONG_MAX then 1 else - 1, acc, p + of_nat (length ds) + 1)"
    "horner base' 0 ds \<le> uint ULONG_MAX \<longrightarrow> acc = word_of_int (horner base' 0 ds)"
    using strto_digits_correct [OF ds assms(2,3), of 0 0 ULONG_MAX] by auto
  have e: "strtoul m nptr endptr base =
     Some (if ds \<noteq> [] \<and> uint ULONG_MAX < horner base' 0 ds then ULONG_MAX else if neg then - acc else acc,
       if endptr \<noteq> 0 then store64 m endptr (if ds = [] then nptr else p + of_nat (length ds)) else m)"
    unfolding strtoul_def strto_prefix_correct [OF assms(1)] Let_def option.case strto_state.simps acc(1) prod.case
    by (auto simp: strto_end_def)
  show ?thesis
  proof (cases "horner base' 0 ds \<le> uint ULONG_MAX")
    case True
    then show ?thesis using e acc(2) L by auto
  next
    case False
    then have "ds \<noteq> []" by (auto simp: L)
    then show ?thesis using e False L by (simp add: ULONG_MAX_def)
  qed
qed

text \<open>The octal numeral \<^verbatim>\<open>017\<close> after a space.\<close>

theorem strtoul_correct_witness:
  "strtoul ((\<lambda>_. 0)(16 := 32, 17 := 48, 18 := 49, 19 := 55)) 16 0 0 =
     Some (15, (\<lambda>_. 0)(16 := 32, 17 := 48, 18 := 49, 19 := 55))"
proof -
  let ?m = "(\<lambda>_. 0)(16 := 32, 17 := 48, 18 := 49, 19 := 55) :: mem"
  have t: "numeral_text ?m 16 0 False 8 17 [0, 1, 7]"
    unfolding numeral_text_def
    by (intro conjI exI [of _ 1] exI [of _ 17]) (simp_all add: char_at_def ctype_defs digit_of_def)
  show ?thesis using strtoul_correct [OF t, of 0] by simp
qed

lemma digit_of_decimal: "(\<exists>d. digit_of c = Some d \<and> d < 10) \<longleftrightarrow> isdigit c" "isdigit c \<Longrightarrow> digit_of c = Some (c - 48)"
  by (auto simp: digit_of_def ctype_defs)

lemma atou_loop_correct:
  "digits_at m 10 p ds \<Longrightarrow> atou_loop m p (word_of_int a) = Some (word_of_int (horner 10 a ds))"
proof (induction ds arbitrary: p a)
  case Nil
  then have "\<not> isdigit (char_at m p)" using digit_of_decimal(1) [of "char_at m p"] by (auto split: option.splits)
  then show ?case by (subst atou_loop.simps) simp
next
  case (Cons d ds)
  then have "isdigit (char_at m p)" "d = char_at m p - 48"
    using digit_of_decimal [of "char_at m p"] by auto
  then show ?case using Cons.IH [of "p + 1" "a * 10 + d"] Cons.prems by (subst atou_loop.simps) simp
qed

text \<open>
  \<^verbatim>\<open>atou\<close> returns the value of the decimal digits at \<open>nptr\<close> modulo \<open>2 ^ 64\<close>: unlike the \<^verbatim>\<open>strto\<close>
  parsers it wraps around on overflow.
\<close>

theorem atou_correct:
  assumes "digits_at m 10 nptr ds"
  shows "atou m nptr = Some (word_of_int (horner 10 0 ds))"
  using atou_loop_correct [OF assms, of 0] by (simp add: atou_def)

theorem atou_correct_witness:
  "digits_at ((\<lambda>_. 0)(16 := 52, 17 := 50)) 10 16 [4, 2] \<and> atou ((\<lambda>_. 0)(16 := 52, 17 := 50)) 16 = Some 42"
proof -
  have d: "digits_at ((\<lambda>_. 0)(16 := 52, 17 := 50)) 10 16 [4, 2]"
    by (simp add: char_at_def ctype_defs digit_of_def)
  show ?thesis using atou_correct [OF d] d by simp
qed

lemma sdiv_in_range:
  fixes a b :: int
  assumes "- K \<le> a" "a < K" "b \<noteq> 0" "\<not> (a = - K \<and> b = - 1)"
  shows "- K \<le> a sdiv b \<and> a sdiv b < K"
proof (cases "a = - K")
  case False
  then show ?thesis using sdiv_int_range [of a b] assms by auto
next
  case True
  have K: "0 < K" using assms by linarith
  have "a sdiv b < K"
  proof (cases "0 < b")
    case True
    then have "a sdiv b = - (K div b)" using \<open>a = - K\<close> K by (simp add: signed_divide_int_def)
    moreover have "0 \<le> K div b" using K True by (simp add: pos_imp_zdiv_nonneg_iff)
    ultimately show ?thesis using K by linarith
  next
    case False
    then have b: "1 < - b" using assms True by linarith
    have "a sdiv b = K div (- b)" using \<open>a = - K\<close> K b by (simp add: signed_divide_int_def)
    then show ?thesis using K b by (simp add: int_div_less_self del: div_minus_right)
  qed
  then show ?thesis using sdiv_int_range [of a b] True K by auto
qed

text \<open>
  \<^verbatim>\<open>ldiv\<close> (and with it \<^verbatim>\<open>lldiv\<close>) fails exactly on a zero denominator and on \<^verbatim>\<open>LONG_MIN / -1\<close>; otherwise
  numerator = quotient * denominator + remainder as integers, the remainder is smaller than the
  denominator in magnitude and its sign is not opposite to the numerator's.
\<close>

theorem ldiv_correct:
  "case ldiv n d of
     None \<Rightarrow> d = 0 \<or> (sint n = - (2 ^ 63) \<and> sint d = - 1)
   | Some r \<Rightarrow> sint n = sint (quot r) * sint d + sint (rem r) \<and> \<bar>sint (rem r)\<bar> < \<bar>sint d\<bar> \<and>
       0 \<le> sint (rem r) * sint n \<and> lldiv n d = Some r"
proof (cases "d = 0 \<or> (sint n = - (2 ^ 63) \<and> sint d = - 1)")
  case True
  then show ?thesis by (auto simp: ldiv_def)
next
  case False
  have b: "- (2 ^ 63) \<le> sint n" "sint n < 2 ^ 63" "sint d \<noteq> 0" "- (2 ^ 63) \<le> sint d" "sint d < 2 ^ 63"
    using sint_ge [of n] sint_lt [of n] sint_ge [of d] sint_lt [of d] False by (simp_all add: signed_eq_0_iff)
  have q: "sint (word_of_int (sint n sdiv sint d) :: u64) = sint n sdiv sint d"
    using sdiv_in_range [of "2 ^ 63" "sint n" "sint d"] b False
    by (simp add: sint_sbintrunc' signed_take_bit_int_eq_self)
  have r: "\<bar>sint n smod sint d\<bar> < \<bar>sint d\<bar>" using smod_int_range [OF b(3), of "sint n"] by auto
  then have r': "sint (word_of_int (sint n smod sint d) :: u64) = sint n smod sint d"
    using b(4,5) by (simp add: sint_sbintrunc' signed_take_bit_int_eq_self)
  have "0 \<le> (sint n smod sint d) * sint n"
    using smod_int_compares [of "sint n" "sint d"] b(3)
    by (cases "0 \<le> sint n"; cases "0 < sint d") (auto simp: zero_le_mult_iff)
  moreover have "ldiv n d = Some \<lparr>quot = word_of_int (sint n sdiv sint d), rem = word_of_int (sint n smod sint d)\<rparr>"
    "lldiv n d = ldiv n d"
    using False by (auto simp: ldiv_def lldiv_def)
  ultimately show ?thesis using q r r' by (simp add: sdiv_mult_smod_eq)
qed

end
