(* ===== verification/Stdio.thy ===== *)
theory Stdio
  imports Ctype Strings
begin

text \<open>
  Character output, \<^verbatim>\<open>libc/stdio/putc.c\<close> and \<^verbatim>\<open>fputs.c\<close>, on the stream structure of \<^verbatim>\<open>sys/file.h\<close>.  A stream
  either writes to a buffer in memory or calls its write function, which belongs to the kernel and
  is a parameter: \<open>write_func\<close> gives its result for a character, and the characters it is called with
  are recorded in \<open>io_sent\<close>.
\<close>

subsection \<open>Definitions\<close>

record FILE =
  fl_flags :: u32
  buffer_size :: u64
  position :: u64
  buffer_ptr :: u64
  write_func :: "(int \<Rightarrow> int) option"

record io =
  io_mem :: mem
  io_file :: FILE
  io_sent :: "int list"

definition putc :: "int \<Rightarrow> io \<Rightarrow> int \<times> io" where
  "putc c st =
     (let ret = 0;
          stream = io_file st;
          write_pos = position stream;
          st = st\<lparr>io_file := stream\<lparr>position := write_pos + 1\<rparr>\<rparr>;
          ret = (if write_pos \<ge> buffer_size stream then SYSTEM_ERR_BUFFER_TOO_SMALL else ret)
      in case write_func stream of
           Some f \<Rightarrow> (let ret = f c in (ret, st\<lparr>io_sent := io_sent st @ [c]\<rparr>))
         | None \<Rightarrow> (let st = st\<lparr>io_mem := (io_mem st)(buffer_ptr stream + write_pos := word_of_int c)\<rparr>;
                        ret = SYSTEM_OK in (ret, st)))"

definition put :: "int \<Rightarrow> io \<Rightarrow> io" where
  "put c st = snd (putc c st)"

definition putchar :: "int \<Rightarrow> io \<Rightarrow> int \<times> io" where
  "putchar c st = putc c st"

function fputs_loop :: "u64 \<Rightarrow> u64 \<Rightarrow> u64 \<Rightarrow> io \<Rightarrow> int \<times> io" where
  "fputs_loop s i len st =
     (if i < len
      then let (ret, st) = putc (char_at (io_mem st) (s + i)) st
           in if ret \<noteq> SYSTEM_OK then (SYSTEM_ERR_INTERNAL, st) else fputs_loop s (i + 1) len st
      else (SYSTEM_OK, st))"
  by pat_completeness auto
termination
  by (relation "measure (\<lambda>(s, i, n, st). unat (n - i))") (simp_all add: measure_up)

declare fputs_loop.simps [simp del]

definition fputs :: "u64 \<Rightarrow> io \<Rightarrow> (int \<times> io) option" where
  "fputs s st = map_option (\<lambda>len. fputs_loop s 0 len st) (strlen (io_mem st) s)"

definition puts :: "u64 \<Rightarrow> io \<Rightarrow> (int \<times> io) option" where
  "puts s st = map_option (\<lambda>(ret, st). let (_, st) = putc 10 st in (ret, st)) (fputs s st)"

subsection \<open>Streams as sinks\<close>

text \<open>
  What the formatter needs of a stream: every character is appended to what the stream has
  received, and the position counts them.
\<close>

locale char_sink =
  fixes inv :: "'s \<Rightarrow> bool" and received :: "'s \<Rightarrow> int list" and pos :: "'s \<Rightarrow> u64" and put :: "int \<Rightarrow> 's \<Rightarrow> 's"
  assumes put_inv: "inv s \<Longrightarrow> inv (put c s)"
    and put_received: "inv s \<Longrightarrow> received (put c s) = received s @ [c]"
    and put_pos: "inv s \<Longrightarrow> pos (put c s) = pos s + 1"
begin

lemma fold_put:
  "inv s \<Longrightarrow> inv (fold put cs s) \<and> received (fold put cs s) = received s @ cs \<and>
     pos (fold put cs s) = pos s + of_nat (length cs)"
  by (induction cs arbitrary: s) (simp_all add: put_inv put_received put_pos add_ac)

end

text \<open>A stream with a write function.\<close>

definition device :: "io \<Rightarrow> bool" where
  "device st \<longleftrightarrow> write_func (io_file st) \<noteq> None"

interpretation device_sink: char_sink device io_sent "\<lambda>st. position (io_file st)" put
  by unfold_locales (auto simp: device_def put_def putc_def Let_def)

text \<open>Writing a list of characters to a buffer, wherever its position stands.\<close>

lemma put_buffer:
  "write_func (io_file st) = None \<Longrightarrow>
   put c st = st\<lparr>io_file := (io_file st)\<lparr>position := position (io_file st) + 1\<rparr>,
     io_mem := (io_mem st)(buffer_ptr (io_file st) + position (io_file st) := word_of_int c)\<rparr>"
  by (simp add: put_def putc_def Let_def)

definition write_bytes :: "mem \<Rightarrow> u64 \<Rightarrow> int list \<Rightarrow> mem" where
  "write_bytes m a cs = (\<lambda>x. if unat (x - a) < length cs then word_of_int (cs ! unat (x - a)) else m x)"

lemma write_bytes_Cons:
  assumes "length cs < 18446744073709551615"
  shows "write_bytes (m(a := word_of_int c)) (a + 1) cs = write_bytes m a (c # cs)"
proof (rule ext)
  fix x
  show "write_bytes (m(a := word_of_int c)) (a + 1) cs x = write_bytes m a (c # cs) x"
  proof (cases "x = a")
    case True
    then show ?thesis using assms unat_off [of 1 x a] by (simp add: write_bytes_def)
  next
    case False
    then have "unat (x - a) \<noteq> 0" by (simp add: unat_eq_0)
    then show ?thesis using False unat_off [of 1 x a] by (auto simp: write_bytes_def)
  qed
qed

lemma fold_put_buffer:
  assumes "write_func (io_file st) = None" "length cs < 18446744073709551615"
  shows "fold put cs st = st\<lparr>io_file := (io_file st)\<lparr>position := position (io_file st) + of_nat (length cs)\<rparr>,
     io_mem := write_bytes (io_mem st) (buffer_ptr (io_file st) + position (io_file st)) cs\<rparr>"
  using assms
proof (induction cs arbitrary: st)
  case Nil
  then show ?case by (simp add: write_bytes_def)
next
  case (Cons c cs)
  then show ?case
    using write_bytes_Cons [of cs "io_mem st" "buffer_ptr (io_file st) + position (io_file st)" c]
    by (simp add: put_buffer add_ac)
qed

subsection \<open>Strings on a device\<close>

text \<open>The characters a device is sent up to the first one it refuses.\<close>

definition accepted :: "(int \<Rightarrow> int) \<Rightarrow> int list \<Rightarrow> int list" where
  "accepted w cs = takeWhile (\<lambda>c. w c = SYSTEM_OK) cs"

lemma putc_device:
  "write_func (io_file st) = Some w \<Longrightarrow>
   putc c st = (w c, st\<lparr>io_file := (io_file st)\<lparr>position := position (io_file st) + 1\<rparr>, io_sent := io_sent st @ [c]\<rparr>)"
  by (simp add: putc_def Let_def)

lemma fputs_loop_device:
  assumes "write_func (io_file st) = Some w" "unat i + length cs = unat n"
    "cs = map sint (bytes_at (io_mem st) (s + i) (length cs))"
  shows "fputs_loop s i n st =
    (let k = (if accepted w cs = cs then length cs else Suc (length (accepted w cs)))
     in (if accepted w cs = cs then SYSTEM_OK else SYSTEM_ERR_INTERNAL,
         st\<lparr>io_file := (io_file st)\<lparr>position := position (io_file st) + of_nat k\<rparr>, io_sent := io_sent st @ take k cs\<rparr>))"
  using assms
proof (induction cs arbitrary: i st)
  case Nil
  then have "\<not> i < n" by (simp add: word_less_nat_alt)
  then show ?case by (subst fputs_loop.simps) (simp add: accepted_def)
next
  case (Cons c cs)
  let ?st = "st\<lparr>io_file := (io_file st)\<lparr>position := position (io_file st) + 1\<rparr>, io_sent := io_sent st @ [c]\<rparr>"
  have lt: "i < n" using Cons.prems(2) by (simp add: word_less_nat_alt)
  have c: "char_at (io_mem st) (s + i) = c" "cs = map sint (bytes_at (io_mem st) (s + (i + 1)) (length cs))"
    using Cons.prems(3) by (simp_all add: bytes_at_Suc char_at_def add.assoc)
  have u: "unat (i + 1) + length cs = unat n" using unat_Suc_le [OF lt] Cons.prems(2) by simp
  have "putc (char_at (io_mem st) (s + i)) st = (w c, ?st)" using Cons.prems(1) by (simp add: putc_device c)
  then have step: "fputs_loop s i n st = (if w c \<noteq> SYSTEM_OK then (SYSTEM_ERR_INTERNAL, ?st) else fputs_loop s (i + 1) n ?st)"
    using lt by (subst fputs_loop.simps) (simp add: Let_def)
  show ?case
  proof (cases "w c = SYSTEM_OK")
    case True
    then show ?thesis using Cons.IH [of ?st "i + 1"] Cons.prems(1) c(2) u
      by (simp add: step accepted_def Let_def add.assoc)
  next
    case False
    then show ?thesis by (simp add: step accepted_def Let_def)
  qed
qed

text \<open>
  \<^verbatim>\<open>fputs\<close> on a device sends the characters of the string in order.  It reports success exactly if
  the device accepts all of them; otherwise it stops right after the first refused character and
  reports an internal error.  The position counts the characters sent and memory is not touched.
\<close>

theorem fputs_correct:
  assumes "cstring (io_mem st) s n" "write_func (io_file st) = Some w"
    "cs = map sint (bytes_at (io_mem st) s n)"
  shows "fputs s st =
    (let k = (if accepted w cs = cs then n else Suc (length (accepted w cs)))
     in Some (if accepted w cs = cs then SYSTEM_OK else SYSTEM_ERR_INTERNAL,
         st\<lparr>io_file := (io_file st)\<lparr>position := position (io_file st) + of_nat k\<rparr>, io_sent := io_sent st @ take k cs\<rparr>))"
proof -
  have len: "length cs = n" using assms(3) by simp
  have "n < 18446744073709551616" using assms(1) by (simp add: cstring_def)
  then have "unat (0 :: u64) + length cs = unat (of_nat n :: u64)" using len by (simp add: unat_of_nat64)
  then show ?thesis
    using fputs_loop_device [OF assms(2), of 0 cs "of_nat n" s] assms(3) len
    by (simp add: fputs_def strlen_cstring [OF assms(1)] Let_def)
qed

text \<open>A device that refuses the letter \<open>c\<close> gets \<open>abc\<close> of \<open>abcd\<close>.\<close>

theorem fputs_correct_witness:
  "let st = \<lparr>io_mem = (\<lambda>_. 0)(16 := 97, 17 := 98, 18 := 99, 19 := 100),
       io_file = \<lparr>fl_flags = 0, buffer_size = 0, position = 0, buffer_ptr = 0,
         write_func = Some (\<lambda>c. if c = 99 then - 1 else 0)\<rparr>, io_sent = []\<rparr>
   in map_option (\<lambda>(r, st'). (r, io_sent st')) (fputs 16 st) = Some (SYSTEM_ERR_INTERNAL, [97, 98, 99])"
proof -
  let ?m = "(\<lambda>_. 0)(16 := 97, 17 := 98, 18 := 99, 19 := 100) :: mem" and ?w = "\<lambda>c :: int. if c = 99 then - 1 else 0 :: int"
  let ?st = "\<lparr>io_mem = ?m, io_file = \<lparr>fl_flags = 0, buffer_size = 0, position = 0, buffer_ptr = 0,
     write_func = Some ?w\<rparr>, io_sent = []\<rparr>"
  have s: "cstring ?m 16 (Suc (Suc (Suc (Suc 0))))" unfolding cstring_Suc by simp
  have b: "map sint (bytes_at ?m 16 (Suc (Suc (Suc (Suc 0))))) = [97, 98, 99, 100]" by (simp add: bytes_at_Suc)
  show ?thesis
    using fputs_correct [of ?st 16 "Suc (Suc (Suc (Suc 0)))" ?w "[97, 98, 99, 100]"] s b
    by (simp add: accepted_def SYSTEM_OK_def)
qed

end
