(* ===== verification/Print.thy ===== *)
theory Print
  imports Stdio Stdlib
begin

text \<open>
  The formatter \<^verbatim>\<open>libc/stdio/print.c\<close> and its entry points \<^verbatim>\<open>vprintf.c\<close> and \<^verbatim>\<open>printf.c\<close>.  The variadic
  arguments are the list of 64-bit slots that \<^verbatim>\<open>va_arg\<close> reads from, an \<^verbatim>\<open>int\<close> being the low half of
  one.  \<open>Cancel\<close> is the early return of \<^verbatim>\<open>ADVANCE_IN_FORMAT_STRING\<close> at the end of the format; \<open>Stuck\<close>
  stands for a missing argument or a scan that does not end.
\<close>

subsection \<open>Definitions\<close>

datatype 'a fmt = Cancel | Stuck | Ok 'a

primrec fbind :: "'a fmt \<Rightarrow> ('a \<Rightarrow> 'b fmt) \<Rightarrow> 'b fmt" where
  "fbind Cancel f = Cancel" | "fbind Stuck f = Stuck" | "fbind (Ok x) f = f x"

definition lift_scan :: "'a option \<Rightarrow> 'a fmt" where
  "lift_scan r = (case r of None \<Rightarrow> Stuck | Some x \<Rightarrow> Ok x)"

definition INTEGER_BUFFER_SIZE :: nat where "INTEGER_BUFFER_SIZE = 32"
definition MAX_POSSIBLE_BUFFER_SIZE :: u64 where "MAX_POSSIBLE_BUFFER_SIZE = 0x7FFFFFFF"

definition FLAGS_ZEROPAD :: u32 where "FLAGS_ZEROPAD = 0x1"
definition FLAGS_LEFT :: u32 where "FLAGS_LEFT = 0x2"
definition FLAGS_PLUS :: u32 where "FLAGS_PLUS = 0x4"
definition FLAGS_SPACE :: u32 where "FLAGS_SPACE = 0x8"
definition FLAGS_HASH :: u32 where "FLAGS_HASH = 0x10"
definition FLAGS_UPPERCASE :: u32 where "FLAGS_UPPERCASE = 0x20"
definition FLAGS_CHAR :: u32 where "FLAGS_CHAR = 0x40"
definition FLAGS_SHORT :: u32 where "FLAGS_SHORT = 0x80"
definition FLAGS_INT :: u32 where "FLAGS_INT = 0x100"
definition FLAGS_LONG :: u32 where "FLAGS_LONG = 0x200"
definition FLAGS_LONG_LONG :: u32 where "FLAGS_LONG_LONG = 0x400"
definition FLAGS_PRECISION :: u32 where "FLAGS_PRECISION = 0x800"
definition FLAGS_POINTER :: u32 where "FLAGS_POINTER = 0x2000"
definition FLAGS_SIGNED :: u32 where "FLAGS_SIGNED = 0x4000"

lemmas flag_defs = FLAGS_ZEROPAD_def FLAGS_LEFT_def FLAGS_PLUS_def FLAGS_SPACE_def FLAGS_HASH_def
  FLAGS_UPPERCASE_def FLAGS_CHAR_def FLAGS_SHORT_def FLAGS_INT_def FLAGS_LONG_def FLAGS_LONG_LONG_def
  FLAGS_PRECISION_def FLAGS_POINTER_def FLAGS_SIGNED_def

definition has :: "u32 \<Rightarrow> u32 \<Rightarrow> bool" where
  "has flags f \<longleftrightarrow> flags AND f \<noteq> 0"

definition BASE_BINARY :: u64 where "BASE_BINARY = 2"
definition BASE_OCTAL :: u64 where "BASE_OCTAL = 8"
definition BASE_DECIMAL :: u64 where "BASE_DECIMAL = 10"
definition BASE_HEX :: u64 where "BASE_HEX = 16"

definition STDIO_ABS :: "int \<Rightarrow> u64" where
  "STDIO_ABS x = (if x > 0 then word_of_int x else - word_of_int x)"

partial_function (option) stdio_atou :: "mem \<Rightarrow> u64 \<Rightarrow> u64 \<Rightarrow> (u64 \<times> u64) option" where
  "stdio_atou m str val =
     (if isdigit (char_at m str)
      then stdio_atou m (str + 1) (val * 10 + word_of_int (char_at m str - 48))
      else Some (val, str))"

definition append_termination :: "io \<Rightarrow> io" where
  "append_termination st =
     (let fp = io_file st in
      if write_func fp \<noteq> None \<or> buffer_size fp = 0 then st
      else if buffer_ptr fp = 0 then st
      else let null_pos = (if position fp < buffer_size fp then position fp else buffer_size fp - 1)
           in st\<lparr>io_mem := (io_mem st)(buffer_ptr fp + null_pos := 0)\<rparr>)"

text \<open>The loops \<^verbatim>\<open>for(i = len; i < width; i++)\<close> and \<^verbatim>\<open>while(len++ < width)\<close>; the second one returns \<open>len\<close>.\<close>

function pad_from :: "u64 \<Rightarrow> u64 \<Rightarrow> io \<Rightarrow> io" where
  "pad_from i width st = (if i < width then pad_from (i + 1) width (put 32 st) else st)"
  by pat_completeness auto
termination
  by (relation "measure (\<lambda>(i, w, st). unat (w - i))") (simp_all add: measure_up)

function pad_post :: "u64 \<Rightarrow> u64 \<Rightarrow> io \<Rightarrow> u64 \<times> io" where
  "pad_post len width st = (if len < width then pad_post (len + 1) width (put 32 st) else (len + 1, st))"
  by pat_completeness auto
termination
  by (relation "measure (\<lambda>(i, w, st). unat (w - i))") (simp_all add: measure_up)

text \<open>The loop \<^verbatim>\<open>while((fp->position - start_pos) < width)\<close>.\<close>

lemma position_put [simp]: "position (io_file (put c st)) = position (io_file st) + 1"
  by (simp add: put_def putc_def Let_def split: option.split)

function pad_to :: "u64 \<Rightarrow> u64 \<Rightarrow> io \<Rightarrow> io" where
  "pad_to start_pos width st =
     (if position (io_file st) - start_pos < width then pad_to start_pos width (put 32 st) else st)"
  by pat_completeness auto
termination
proof (relation "measure (\<lambda>(s, w, st). unat (w - (position (io_file st) - s)))")
  fix s w :: u64 and st :: io
  assume "position (io_file st) - s < w"
  from measure_up [OF this]
  show "((s, w, put 32 st), s, w, st) \<in> measure (\<lambda>(s, w, st). unat (w - (position (io_file st) - s)))"
    by (simp add: algebra_simps)
qed simp

declare pad_from.simps [simp del] pad_post.simps [simp del] pad_to.simps [simp del]

text \<open>The digit buffer is the list of the characters stored so far, the last digit of the number first.\<close>

definition output_reverse :: "int list \<Rightarrow> u64 \<Rightarrow> u32 \<Rightarrow> io \<Rightarrow> io" where
  "output_reverse buf width flags st =
     (let start_pos = position (io_file st);
          st = (if \<not> has flags FLAGS_LEFT \<and> \<not> has flags FLAGS_ZEROPAD
                then pad_from (of_nat (length buf)) width st else st);
          st = fold put (rev buf) st
      in if has flags FLAGS_LEFT then pad_to start_pos width st else st)"

text \<open>The loops \<^verbatim>\<open>while(len < n && len < INTEGER_BUFFER_SIZE) buffer[len++] = '0'\<close>.\<close>

function pad_zeros :: "u64 \<Rightarrow> int list \<Rightarrow> int list" where
  "pad_zeros n buf =
     (if of_nat (length buf) < n \<and> length buf < INTEGER_BUFFER_SIZE then pad_zeros n (buf @ [48]) else buf)"
  by pat_completeness auto
termination
  by (relation "measure (\<lambda>(n, buf). INTEGER_BUFFER_SIZE - length buf)") auto

declare pad_zeros.simps [simp del]

definition push :: "int \<Rightarrow> int list \<Rightarrow> int list" where
  "push c buf = (if length buf < INTEGER_BUFFER_SIZE then buf @ [c] else buf)"

definition finalize_integer :: "int list \<Rightarrow> bool \<Rightarrow> u64 \<Rightarrow> u64 \<Rightarrow> u64 \<Rightarrow> u32 \<Rightarrow> io \<Rightarrow> io" where
  "finalize_integer buf negative base precision width flags st =
     (let unpadded_len = length buf;
          (width, buf) =
            (if \<not> has flags FLAGS_LEFT
             then let width = (if width \<noteq> 0 \<and> has flags FLAGS_ZEROPAD \<and> (negative \<or> has flags (FLAGS_PLUS OR FLAGS_SPACE))
                               then width - 1 else width)
                  in (width, if has flags FLAGS_ZEROPAD then pad_zeros width buf else buf)
             else (width, buf));
          buf = pad_zeros precision buf;
          flags = (if base = BASE_OCTAL \<and> length buf > unpadded_len then flags AND NOT FLAGS_HASH else flags);
          buf =
            (if has flags (FLAGS_HASH OR FLAGS_POINTER)
             then let buf =
                    (if \<not> has flags FLAGS_PRECISION \<and> buf \<noteq> [] \<and>
                        (of_nat (length buf) = precision \<or> of_nat (length buf) = width)
                     then let buf = (if unpadded_len < length buf then butlast buf else buf)
                          in if buf \<noteq> [] \<and> (base = BASE_HEX \<or> base = BASE_BINARY) \<and> unpadded_len < length buf
                             then butlast buf else buf
                     else buf);
                   buf =
                    (if base = BASE_HEX \<and> \<not> has flags FLAGS_UPPERCASE then push 120 buf
                     else if base = BASE_HEX \<and> has flags FLAGS_UPPERCASE then push 88 buf
                     else if base = BASE_BINARY then push 98 buf
                     else buf)
                  in push 48 buf
             else buf);
          buf =
            (if negative then push 45 buf
             else if has flags FLAGS_PLUS then push 43 buf
             else if has flags FLAGS_SPACE then push 32 buf
             else buf)
      in output_reverse buf width flags st)"

function int_digits :: "u64 \<Rightarrow> u64 \<Rightarrow> u32 \<Rightarrow> int list \<Rightarrow> int list" where
  "int_digits value base flags buf =
     (let digit = uint (value mod base);
          buf = buf @ [if digit < 10 then 48 + digit
                       else (if has flags FLAGS_UPPERCASE then 65 else 97) + digit - 10];
          value = value div base
      in if value \<noteq> 0 \<and> length buf < INTEGER_BUFFER_SIZE then int_digits value base flags buf else buf)"
  by pat_completeness auto
termination
  by (relation "measure (\<lambda>(v, b, f, buf). INTEGER_BUFFER_SIZE - length buf)") auto

declare int_digits.simps [simp del]

definition print_integer :: "u64 \<Rightarrow> bool \<Rightarrow> u64 \<Rightarrow> u64 \<Rightarrow> u64 \<Rightarrow> u32 \<Rightarrow> io \<Rightarrow> io" where
  "print_integer value negative base precision width flags st =
     (let (buf, flags) =
        (if value = 0
         then if \<not> has flags FLAGS_PRECISION then ([48], flags AND NOT FLAGS_HASH)
              else if base = BASE_HEX then ([], flags AND NOT FLAGS_HASH)
              else ([], flags)
         else (int_digits value base flags [], flags))
      in finalize_integer buf negative base precision width flags st)"

partial_function (option) parse_flags :: "mem \<Rightarrow> u64 \<Rightarrow> u32 \<Rightarrow> (u32 \<times> u64) option" where
  "parse_flags m format flags =
     (let c = char_at m format in
      if c = 48 then parse_flags m (format + 1) (flags OR FLAGS_ZEROPAD)
      else if c = 45 then parse_flags m (format + 1) (flags OR FLAGS_LEFT)
      else if c = 43 then parse_flags m (format + 1) (flags OR FLAGS_PLUS)
      else if c = 32 then parse_flags m (format + 1) (flags OR FLAGS_SPACE)
      else if c = 35 then parse_flags m (format + 1) (flags OR FLAGS_HASH)
      else Some (flags, format))"

definition ADVANCE :: "mem \<Rightarrow> u64 \<Rightarrow> u64 fmt" where
  "ADVANCE m p = (if m (p + 1) = 0 then Cancel else Ok (p + 1))"

definition va_arg :: "u64 list \<Rightarrow> (u64 \<times> u64 list) fmt" where
  "va_arg args = (case args of [] \<Rightarrow> Stuck | a # args \<Rightarrow> Ok (a, args))"

definition va_int :: "u64 \<Rightarrow> int" where
  "va_int a = sint (ucast a :: u32)"

text \<open>\<^verbatim>\<open>%[flags][width][.precision][length]\<close>, one function per field.\<close>

definition parse_width :: "mem \<Rightarrow> u64 \<Rightarrow> u32 \<Rightarrow> u64 list \<Rightarrow> (u32 \<times> u64 \<times> u64 \<times> u64 list) fmt" where
  "parse_width m format flags args =
     (if isdigit (char_at m format)
      then fbind (lift_scan (stdio_atou m format 0)) (\<lambda>(width, format). Ok (flags, width, format, args))
      else if char_at m format = 42
      then fbind (va_arg args) (\<lambda>(a, args).
             let wide = va_int a;
                 (flags, width) = (if wide < 0 then (flags OR FLAGS_LEFT, word_of_int (- wide)) else (flags, word_of_int wide))
             in fbind (ADVANCE m format) (\<lambda>format. Ok (flags, width, format, args)))
      else Ok (flags, 0, format, args))"

partial_function (option) skip_negative_precision :: "mem \<Rightarrow> u64 \<Rightarrow> u64 fmt option" where
  "skip_negative_precision m format =
     (case ADVANCE m format of
        Cancel \<Rightarrow> Some Cancel
      | Stuck \<Rightarrow> Some Stuck
      | Ok format \<Rightarrow> if isdigit (char_at m format) then skip_negative_precision m format else Some (Ok format))"

definition parse_precision :: "mem \<Rightarrow> u64 \<Rightarrow> u32 \<Rightarrow> u64 list \<Rightarrow> (u32 \<times> u64 \<times> u64 \<times> u64 list) fmt" where
  "parse_precision m format flags args =
     (if char_at m format = 46
      then let flags = flags OR FLAGS_PRECISION in
           fbind (ADVANCE m format) (\<lambda>format.
             if char_at m format = 45
             then fbind (case skip_negative_precision m format of None \<Rightarrow> Stuck | Some r \<Rightarrow> r)
                    (\<lambda>format. Ok (flags AND NOT FLAGS_PRECISION, 0, format, args))
             else if isdigit (char_at m format)
             then fbind (lift_scan (stdio_atou m format 0)) (\<lambda>(precision, format). Ok (flags, precision, format, args))
             else if char_at m format = 42
             then fbind (va_arg args) (\<lambda>(a, args).
                    let p = va_int a;
                        (flags, precision) = (if p < 0 then (flags AND NOT FLAGS_PRECISION, 0)
                                              else (flags, if p > 0 then word_of_int p else 0))
                    in fbind (ADVANCE m format) (\<lambda>format. Ok (flags, precision, format, args)))
             else Ok (flags, 0, format, args))
      else Ok (flags, 0, format, args))"

definition parse_length :: "mem \<Rightarrow> u64 \<Rightarrow> u32 \<Rightarrow> (u32 \<times> u64) fmt" where
  "parse_length m format flags =
     (let c = char_at m format in
      if c = 73
      then fbind (ADVANCE m format) (\<lambda>format.
             let c = char_at m format in
             if c = 56 then fbind (ADVANCE m format) (\<lambda>format. Ok (flags OR FLAGS_CHAR, format))
             else if c = 49
             then fbind (ADVANCE m format) (\<lambda>format.
                    if char_at m format = 54 then Ok (flags OR FLAGS_SHORT, format + 1) else Ok (flags, format))
             else if c = 51
             then fbind (ADVANCE m format) (\<lambda>format.
                    if char_at m format = 50 then fbind (ADVANCE m format) (\<lambda>format. Ok (flags OR FLAGS_INT, format))
                    else Ok (flags, format))
             else if c = 54
             then fbind (ADVANCE m format) (\<lambda>format.
                    if char_at m format = 52 then fbind (ADVANCE m format) (\<lambda>format. Ok (flags OR FLAGS_LONG, format))
                    else Ok (flags, format))
             else Ok (flags, format))
      else if c = 108
      then let flags = flags OR FLAGS_LONG in
           fbind (ADVANCE m format) (\<lambda>format.
             if char_at m format = 108 then fbind (ADVANCE m format) (\<lambda>format. Ok (flags OR FLAGS_LONG_LONG, format))
             else Ok (flags, format))
      else if c = 104
      then let flags = flags OR FLAGS_SHORT in
           fbind (ADVANCE m format) (\<lambda>format.
             if char_at m format = 104 then fbind (ADVANCE m format) (\<lambda>format. Ok (flags OR FLAGS_CHAR, format))
             else Ok (flags, format))
      else if c = 116 \<or> c = 106 \<or> c = 122
      then fbind (ADVANCE m format) (\<lambda>format. Ok (flags OR FLAGS_LONG, format))
      else Ok (flags, format))"

definition print_number :: "int \<Rightarrow> u64 \<Rightarrow> u64 \<Rightarrow> u32 \<Rightarrow> u64 list \<Rightarrow> io \<Rightarrow> (u64 list \<times> io) fmt" where
  "print_number c precision width flags args st =
     (let flags = (if c = 100 \<or> c = 105 then flags OR FLAGS_SIGNED else flags);
          (base, flags) = (if c = 120 \<or> c = 88 then (BASE_HEX, flags)
                           else if c = 111 then (BASE_OCTAL, flags)
                           else if c = 98 then (BASE_BINARY, flags)
                           else (BASE_DECIMAL, flags AND NOT FLAGS_HASH));
          flags = (if c = 88 then flags OR FLAGS_UPPERCASE else flags);
          flags = (if has flags FLAGS_PRECISION then flags AND NOT FLAGS_ZEROPAD else flags)
      in fbind (va_arg args) (\<lambda>(a, args).
           Ok (args,
             if has flags FLAGS_SIGNED
             then let value = (if has flags FLAGS_LONG_LONG \<or> has flags FLAGS_LONG then sint a
                               else if has flags FLAGS_CHAR then sint (ucast a :: u8)
                               else if has flags FLAGS_SHORT then sint (ucast a :: u16)
                               else va_int a)
                  in print_integer (STDIO_ABS value) (value < 0) base precision width flags st
             else let flags = flags AND NOT (FLAGS_PLUS OR FLAGS_SPACE)
                  in if has flags FLAGS_LONG_LONG \<or> has flags FLAGS_LONG
                     then print_integer a False base precision width flags st
                     else let value = (if has flags FLAGS_CHAR then uint (ucast a :: u8)
                                       else if has flags FLAGS_SHORT then uint (ucast a :: u16)
                                       else uint (ucast a :: u32))
                          in print_integer (STDIO_ABS value) False base precision width flags st)))"

definition print_char :: "u64 \<Rightarrow> u32 \<Rightarrow> u64 list \<Rightarrow> io \<Rightarrow> (u64 list \<times> io) fmt" where
  "print_char width flags args st =
     (let (len, st) = (if \<not> has flags FLAGS_LEFT then pad_post 1 width st else (1, st))
      in fbind (va_arg args) (\<lambda>(a, args).
           let st = put (sint (ucast a :: u8)) st
           in Ok (args, if has flags FLAGS_LEFT then snd (pad_post len width st) else st)))"

partial_function (option) print_string_loop :: "u64 \<Rightarrow> u64 \<Rightarrow> u32 \<Rightarrow> io \<Rightarrow> io option" where
  "print_string_loop str precision flags st =
     (if io_mem st str \<noteq> 0 \<and> (\<not> has flags FLAGS_PRECISION \<or> precision \<noteq> 0)
      then print_string_loop (str + 1) (precision - 1) flags (put (char_at (io_mem st) str) st)
      else Some st)"

definition print_string :: "u64 \<Rightarrow> u64 \<Rightarrow> u32 \<Rightarrow> u64 list \<Rightarrow> io \<Rightarrow> (u64 list \<times> io) fmt" where
  "print_string precision width flags args st =
     fbind (va_arg args) (\<lambda>(str, args).
       if str = 0 then Ok (args, output_reverse [] width flags st)
       else fbind (lift_scan (strnlen (io_mem st) str (if precision \<noteq> 0 then precision else MAX_POSSIBLE_BUFFER_SIZE)))
         (\<lambda>len.
            let len = (if has flags FLAGS_PRECISION then (if len < precision then len else precision) else len);
                (len, st) = (if \<not> has flags FLAGS_LEFT then pad_post len width st else (len, st))
            in fbind (lift_scan (print_string_loop str precision flags st))
                 (\<lambda>st. Ok (args, if has flags FLAGS_LEFT then snd (pad_post len width st) else st))))"

definition print_pointer :: "u64 \<Rightarrow> u32 \<Rightarrow> u64 list \<Rightarrow> io \<Rightarrow> (u64 list \<times> io) fmt" where
  "print_pointer precision flags args st =
     (let width = 18; flags = flags OR (FLAGS_ZEROPAD OR FLAGS_POINTER)
      in fbind (va_arg args) (\<lambda>(value, args).
           Ok (args, if value = 0 then output_reverse [41, 108, 105, 110, 40] width flags st
                     else print_integer value False BASE_HEX precision width flags st)))"

definition store_n :: "nat \<Rightarrow> mem \<Rightarrow> u64 \<Rightarrow> u64 \<Rightarrow> mem" where
  "store_n n m a w = (\<lambda>x. if unat (x - a) < n then byte_of (unat (x - a)) w else m x)"

definition print_count :: "u32 \<Rightarrow> u64 list \<Rightarrow> io \<Rightarrow> (u64 list \<times> io) fmt" where
  "print_count flags args st =
     fbind (va_arg args) (\<lambda>(p, args).
       let n = (if has flags FLAGS_CHAR then 1 else if has flags FLAGS_SHORT then 2
                else if has flags FLAGS_LONG then 8 else if has flags FLAGS_LONG_LONG then 8 else 4)
       in Ok (args, st\<lparr>io_mem := store_n n (io_mem st) p (position (io_file st))\<rparr>))"

text \<open>One format directive after its \<^verbatim>\<open>%\<close>: the pointer behind it, the remaining arguments, the state.\<close>

definition directive :: "u64 \<Rightarrow> u64 list \<Rightarrow> io \<Rightarrow> (u64 \<times> u64 list \<times> io) fmt" where
  "directive format args st =
     (let m = io_mem st in
      fbind (ADVANCE m format) (\<lambda>format.
      fbind (lift_scan (parse_flags m format 0)) (\<lambda>(flags, format).
      fbind (parse_width m format flags args) (\<lambda>(flags, width, format, args).
      fbind (parse_precision m format flags args) (\<lambda>(flags, precision, format, args).
      fbind (parse_length m format flags) (\<lambda>(flags, format).
        let c = char_at m format in
        if c \<in> {100, 105, 117, 120, 88, 111, 98}
        then fbind (print_number c precision width flags args st) (\<lambda>(args, st). Ok (format + 1, args, st))
        else if c = 99 then fbind (print_char width flags args st) (\<lambda>(args, st). Ok (format + 1, args, st))
        else if c = 115 then fbind (print_string precision width flags args st) (\<lambda>(args, st). Ok (format + 1, args, st))
        else if c = 112 then fbind (print_pointer precision flags args st) (\<lambda>(args, st). Ok (format + 1, args, st))
        else if c = 37 then Ok (format + 1, args, put 37 st)
        else if c = 110 then fbind (print_count flags args st) (\<lambda>(args, st). Ok (format + 1, args, st))
        else Ok (format + 1, args, put c st)))))))"

text \<open>
  The result of a directive that is cancelled keeps the output of the directives before it.
\<close>

partial_function (option) format_string :: "u64 \<Rightarrow> u64 list \<Rightarrow> io \<Rightarrow> (int \<times> io) option" where
  "format_string format args st =
     (if io_mem st format \<noteq> 0
      then if char_at (io_mem st) format \<noteq> 37
           then format_string (format + 1) args (put (char_at (io_mem st) format) st)
           else (case directive format args st of
                   Cancel \<Rightarrow> Some (SYSTEM_ERR_CANCELED, st)
                 | Stuck \<Rightarrow> None
                 | Ok (format, args, st) \<Rightarrow> format_string format args st)
      else Some (SYSTEM_OK, st))"

definition vsnprintf_internal :: "u64 \<Rightarrow> u64 list \<Rightarrow> io \<Rightarrow> (int \<times> io) option" where
  "vsnprintf_internal format args st =
     map_option (\<lambda>(err, st). (err, append_termination st)) (format_string format args st)"

definition vsnprintf :: "mem \<Rightarrow> u64 \<Rightarrow> u64 \<Rightarrow> u64 \<Rightarrow> u64 list \<Rightarrow> (int \<times> mem) option" where
  "vsnprintf m buf maxlen format args =
     (let stream = \<lparr>fl_flags = 0, buffer_size = maxlen, position = 0, buffer_ptr = buf, write_func = None\<rparr>
      in map_option (\<lambda>(err, st). (err, io_mem st))
           (vsnprintf_internal format args \<lparr>io_mem = m, io_file = stream, io_sent = []\<rparr>))"

definition vsprintf :: "mem \<Rightarrow> u64 \<Rightarrow> u64 \<Rightarrow> u64 list \<Rightarrow> (int \<times> mem) option" where
  "vsprintf m buf format args = vsnprintf m buf ULONG_MAX format args"

definition vfprintf :: "u64 \<Rightarrow> u64 list \<Rightarrow> io \<Rightarrow> (int \<times> io) option" where
  "vfprintf format args st = vsnprintf_internal format args st"

text \<open>The variadic entry points collect their arguments and forward them.\<close>

definition snprintf :: "mem \<Rightarrow> u64 \<Rightarrow> u64 \<Rightarrow> u64 \<Rightarrow> u64 list \<Rightarrow> (int \<times> mem) option" where
  "snprintf m buf maxlen format args = vsnprintf m buf maxlen format args"

definition sprintf :: "mem \<Rightarrow> u64 \<Rightarrow> u64 \<Rightarrow> u64 list \<Rightarrow> (int \<times> mem) option" where
  "sprintf m buf format args = vsprintf m buf format args"

definition fprintf :: "u64 \<Rightarrow> u64 list \<Rightarrow> io \<Rightarrow> (int \<times> io) option" where
  "fprintf format args st = vfprintf format args st"

definition vprintf :: "u64 \<Rightarrow> u64 list \<Rightarrow> io \<Rightarrow> (int \<times> io) option" where
  "vprintf format args out = vfprintf format args out"

definition printf :: "u64 \<Rightarrow> u64 list \<Rightarrow> io \<Rightarrow> (int \<times> io) option" where
  "printf format args out = vprintf format args out"

subsection \<open>Padding\<close>

lemma pad_from_put: "pad_from i w st = fold put (replicate (unat w - unat i) 32) st"
proof (induction i w st rule: pad_from.induct)
  case (1 i w st)
  show ?case
  proof (cases "i < w")
    case True
    then have "unat w - unat i = Suc (unat w - unat (i + 1))"
      using unat_Suc_le [OF True] by (simp add: word_less_nat_alt)
    then show ?thesis using True 1 by (subst pad_from.simps) simp
  next
    case False
    then show ?thesis by (subst pad_from.simps) (simp add: word_less_nat_alt)
  qed
qed

lemma pad_to_put:
  "pad_to s w st = fold put (replicate (unat w - unat (position (io_file st) - s)) 32) st"
proof (induction s w st rule: pad_to.induct)
  case (1 s w st)
  let ?d = "position (io_file st) - s"
  show ?case
  proof (cases "?d < w")
    case True
    have e: "position (io_file (put 32 st)) - s = ?d + 1" by simp
    have "unat w - unat ?d = Suc (unat w - unat (position (io_file (put 32 st)) - s))"
      unfolding e using unat_Suc_le [OF True] True unfolding word_less_nat_alt by linarith
    then show ?thesis using True 1 by (subst pad_to.simps) simp
  next
    case False
    then show ?thesis by (subst pad_to.simps) (simp add: word_less_nat_alt)
  qed
qed

lemma position_fold_put: "position (io_file (fold put cs st)) = position (io_file st) + of_nat (length cs)"
  by (induction cs arbitrary: st) (simp_all add: add_ac)

text \<open>The characters \<^verbatim>\<open>output_reverse\<close> sends: the buffer backwards, padded with spaces to the width.\<close>

definition padded :: "int list \<Rightarrow> u64 \<Rightarrow> u32 \<Rightarrow> int list" where
  "padded buf width flags =
     (let sp = replicate (unat width - length buf) 32 in
      if has flags FLAGS_LEFT then rev buf @ sp
      else if has flags FLAGS_ZEROPAD then rev buf
      else sp @ rev buf)"

lemma output_reverse_padded:
  assumes "length buf < 18446744073709551616"
  shows "output_reverse buf width flags st = fold put (padded buf width flags) st"
proof -
  have "unat (position (io_file (fold put (rev buf) st)) - position (io_file st)) = length buf"
    using assms by (simp add: position_fold_put unat_of_nat64)
  then show ?thesis
    using assms by (simp add: output_reverse_def padded_def pad_from_put pad_to_put unat_of_nat64 Let_def)
qed

subsection \<open>Digits\<close>

definition digit_char :: "u32 \<Rightarrow> int \<Rightarrow> int" where
  "digit_char flags d = (if d < 10 then 48 + d else (if has flags FLAGS_UPPERCASE then 65 else 97) + d - 10)"

lemma digit_of_digit_char: "0 \<le> d \<Longrightarrow> d < 36 \<Longrightarrow> digit_of (digit_char flags d) = Some d"
  by (auto simp: digit_of_def digit_char_def ctype_defs)

lemma horner_snoc: "horner b a (xs @ [d]) = horner b a xs * b + d"
  by (simp add: horner_def)

text \<open>
  The buffer holds the digits of the value, the lowest first, as long as the value has at most as
  many digits as there is room for.
\<close>

lemma int_digits_correct:
  assumes "2 \<le> uint b" "uint b \<le> 36" "uint v < uint b ^ n" "0 < n" "length buf + n \<le> 32"
  shows "\<exists>ds. int_digits v b flags buf = buf @ map (digit_char flags) ds \<and> ds \<noteq> [] \<and> length ds \<le> n \<and>
    (\<forall>d \<in> set ds. 0 \<le> d \<and> d < uint b) \<and> horner (uint b) 0 (rev ds) = uint v"
  using assms(3-5)
proof (induction n arbitrary: v buf)
  case (Suc n)
  let ?d = "uint (v mod b)" and ?q = "v div b"
  have d: "?d = uint v mod uint b" "uint ?q = uint v div uint b" by (simp_all add: uint_mod_distrib uint_div_distrib)
  have dlt: "0 \<le> ?d" "?d < uint b" using assms(1) by (simp_all add: d)
  have unf: "int_digits v b flags buf =
     (if ?q \<noteq> 0 \<and> length buf + 1 < 32 then int_digits ?q b flags (buf @ [digit_char flags ?d])
      else buf @ [digit_char flags ?d])"
    by (subst int_digits.simps) (simp add: digit_char_def INTEGER_BUFFER_SIZE_def Let_def)
  show ?case
  proof (cases "?q = 0")
    case True
    then have "uint v div uint b = 0" using d(2) by simp
    then have "uint v = ?d" using d(1) by (metis mult_zero_right add_0 mult_div_mod_eq)
    then show ?thesis using True unf dlt by (intro exI [of _ "[?d]"]) simp
  next
    case False
    have "n \<noteq> 0"
    proof
      assume "n = 0"
      then have "uint v < uint b" using Suc.prems(1) by simp
      then have "uint ?q = 0" unfolding d(2) by (simp add: div_pos_pos_trivial)
      then show False using False by (simp add: word_uint_eq_iff)
    qed
    moreover have "uint ?q < uint b ^ n"
    proof -
      have "uint b * (uint v div uint b) \<le> uint v"
        using assms(1) pos_mod_sign [of "uint b" "uint v"] mult_div_mod_eq [of "uint b" "uint v"] by linarith
      also have "\<dots> < uint b * uint b ^ n" using Suc.prems(1) by simp
      finally show ?thesis using assms(1) unfolding d(2) by (simp add: mult_less_cancel_left_pos)
    qed
    ultimately obtain ds where ds: "int_digits ?q b flags (buf @ [digit_char flags ?d]) =
        (buf @ [digit_char flags ?d]) @ map (digit_char flags) ds" "length ds \<le> n"
        "\<forall>d \<in> set ds. 0 \<le> d \<and> d < uint b" "horner (uint b) 0 (rev ds) = uint ?q"
      using Suc.IH [of ?q "buf @ [digit_char flags ?d]"] Suc.prems(3) by auto
    have "horner (uint b) 0 (rev (?d # ds)) = uint v"
      using ds(4) d by (simp add: horner_snoc)
    moreover have "length buf + 1 < 32" using Suc.prems(3) \<open>n \<noteq> 0\<close> by simp
    ultimately show ?thesis using False unf ds dlt by (intro exI [of _ "?d # ds"]) simp
  qed
qed simp

text \<open>The characters of a number: its digits, the highest first.\<close>

definition number_text :: "u64 \<Rightarrow> u64 \<Rightarrow> u32 \<Rightarrow> int list" where
  "number_text v base flags = (if v = 0 then [48] else rev (int_digits v base flags []))"

definition digits_needed :: "u64 \<Rightarrow> nat" where
  "digits_needed base = (if base = BASE_OCTAL then 22 else if base = BASE_DECIMAL then 20 else 16)"

lemma number_text_correct:
  assumes "base \<in> {BASE_OCTAL, BASE_DECIMAL, BASE_HEX}"
  shows "\<exists>ds. number_text v base flags = map (digit_char flags) ds \<and> ds \<noteq> [] \<and> length ds \<le> 22 \<and>
    (\<forall>d \<in> set ds. 0 \<le> d \<and> d < uint base) \<and> horner (uint base) 0 ds = uint v"
proof (cases "v = 0")
  case True
  then show ?thesis using assms
    by (intro exI [of _ "[0]"]) (auto simp: number_text_def digit_char_def BASE_OCTAL_def BASE_DECIMAL_def BASE_HEX_def)
next
  case False
  have b: "2 \<le> uint base" "uint base \<le> 36" "(18446744073709551616 :: int) \<le> uint base ^ digits_needed base"
      "0 < digits_needed base" "digits_needed base \<le> 22"
    using assms by (auto simp: BASE_OCTAL_def BASE_DECIMAL_def BASE_HEX_def digits_needed_def)
  have "uint v < uint base ^ digits_needed base" using uint_lt2p [of v] b(3) by simp
  then obtain ds where ds: "int_digits v base flags [] = map (digit_char flags) ds" "ds \<noteq> []" "length ds \<le> digits_needed base"
      "\<forall>d \<in> set ds. 0 \<le> d \<and> d < uint base" "horner (uint base) 0 (rev ds) = uint v"
    using int_digits_correct [OF b(1,2), of v "digits_needed base" "[]" flags] b by auto
  then show ?thesis using False b(5) by (intro exI [of _ "rev ds"]) (auto simp: number_text_def rev_map)
qed

lemma has_simps [simp]: "\<not> has 0 f" "has (a OR b) f \<longleftrightarrow> has a f \<or> has b f" "has f (a OR b) \<longleftrightarrow> has f a \<or> has f b"
  by (auto simp: has_def bit.conj_disj_distrib bit.conj_disj_distrib2 or_eq_0_iff)

definition plain :: "u32 \<Rightarrow> bool" where
  "plain flags \<longleftrightarrow> (\<forall>f \<in> {FLAGS_ZEROPAD, FLAGS_PLUS, FLAGS_SPACE, FLAGS_HASH, FLAGS_POINTER, FLAGS_PRECISION}. \<not> has flags f)"

lemma plain_hash: "plain flags \<Longrightarrow> flags AND NOT FLAGS_HASH = flags"
  by (auto simp: plain_def has_def FLAGS_HASH_def bit_eq_iff bit_simps)

lemma print_integer_plain:
  assumes "plain flags" "length (number_text v base flags) < 32"
  shows "print_integer v negative base 0 width flags st =
    output_reverse (rev ((if negative then [45] else []) @ number_text v base flags)) width flags st"
proof -
  have pz: "pad_zeros 0 buf = buf" for buf by (subst pad_zeros.simps) simp
  have "print_integer v negative base 0 width flags st =
      finalize_integer (rev (number_text v base flags)) negative base 0 width flags st"
    using assms(1) by (auto simp: print_integer_def number_text_def plain_hash plain_def)
  also have "\<dots> = output_reverse (if negative then push 45 (rev (number_text v base flags))
      else rev (number_text v base flags)) width flags st"
    using assms(1) by (simp add: finalize_integer_def plain_def pz Let_def)
  finally show ?thesis using assms(2) by (simp add: push_def INTEGER_BUFFER_SIZE_def)
qed

text \<open>
  A number printed without zero padding, explicit plus, prefix or precision is a minus sign if
  it is negative and its digits, padded with spaces to the width on the side the \<^verbatim>\<open>-\<close> flag selects.
  The digits denote the value: no digit of a 64-bit number in base 8, 10 or 16 is lost in the
  32-character buffer.
\<close>

theorem print_integer_text:
  assumes "base \<in> {BASE_OCTAL, BASE_DECIMAL, BASE_HEX}" "plain flags"
  shows "\<exists>ds. (\<forall>d \<in> set ds. 0 \<le> d \<and> d < uint base) \<and> horner (uint base) 0 ds = uint v \<and> ds \<noteq> [] \<and>
    print_integer v negative base 0 width flags st =
      fold put (let txt = (if negative then [45] else []) @ map (digit_char flags) ds;
                    sp = replicate (unat width - length txt) 32
                in if has flags FLAGS_LEFT then txt @ sp else sp @ txt) st"
proof -
  obtain ds where ds: "number_text v base flags = map (digit_char flags) ds" "ds \<noteq> []" "length ds \<le> 22"
    "\<forall>d \<in> set ds. 0 \<le> d \<and> d < uint base" "horner (uint base) 0 ds = uint v"
    using number_text_correct [OF assms(1)] by blast
  let ?txt = "(if negative then [45] else []) @ map (digit_char flags) ds"
  have len: "length (rev ?txt) < 18446744073709551616" using ds(3) by simp
  have "print_integer v negative base 0 width flags st = output_reverse (rev ?txt) width flags st"
    using print_integer_plain [OF assms(2), of v base negative width st] ds(1,3) by simp
  also have "\<dots> = fold put (padded (rev ?txt) width flags) st" using len by (rule output_reverse_padded)
  finally show ?thesis
    using ds(2,4,5) assms(2) by (intro exI [of _ ds]) (simp add: padded_def plain_def Let_def)
qed

text \<open>The number 255 in lower-case hexadecimal on a device.\<close>

theorem print_integer_text_witness:
  "let st = \<lparr>io_mem = (\<lambda>_. 0), io_file = \<lparr>fl_flags = 0, buffer_size = 0, position = 0, buffer_ptr = 0,
                 write_func = Some (\<lambda>_. 0)\<rparr>, io_sent = []\<rparr> in
   plain FLAGS_LONG \<and>
   (\<exists>ds. horner 16 0 ds = 255 \<and>
     print_integer 255 False BASE_HEX 0 0 FLAGS_LONG st = fold put (map (digit_char FLAGS_LONG) ds) st)"
proof -
  have p: "plain FLAGS_LONG" by (simp add: plain_def has_def flag_defs)
  show ?thesis
    using print_integer_text [of BASE_HEX FLAGS_LONG 255 False 0] p
    by (simp add: BASE_HEX_def has_def flag_defs Let_def) blast
qed

subsection \<open>Formats\<close>

text \<open>The bytes of a string literal at an address, terminator included.\<close>

primrec literal_at :: "mem \<Rightarrow> u64 \<Rightarrow> u8 list \<Rightarrow> bool" where
  "literal_at m a [] \<longleftrightarrow> m a = 0"
| "literal_at m a (b # bs) \<longleftrightarrow> m a = b \<and> b \<noteq> 0 \<and> literal_at m (a + 1) bs"

lemma literal_at_cong:
  "(\<And>i. i \<le> length bs \<Longrightarrow> m' (a + of_nat i) = m (a + of_nat i)) \<Longrightarrow> literal_at m' a bs = literal_at m a bs"
proof (induction bs arbitrary: a)
  case Nil
  show ?case using Nil [of 0] by simp
next
  case (Cons b bs)
  have "literal_at m' (a + 1) bs = literal_at m (a + 1) bs"
    using Cons.prems [of "Suc i" for i] by (intro Cons.IH) (simp add: add.assoc)
  then show ?case using Cons.prems [of 0] by simp
qed

lemma char_at_eq_iff [simp]: "char_at m p = 37 \<longleftrightarrow> m p = 37"
proof
  assume "char_at m p = 37"
  then have "word_of_int (sint (m p)) = (37 :: u8)" by (simp add: char_at_def)
  then show "m p = 37" by simp
qed (simp add: char_at_def)

text \<open>
  Text without a directive is sent character by character.  The buffer of the stream must not
  reach the part of the format that is still to be read.
\<close>

lemma format_plain:
  assumes "literal_at (io_mem st) f bs" "37 \<notin> set bs" "length bs < 18446744073709551615"
    "write_func (io_file st) = None"
    "\<And>i j. i < length bs \<Longrightarrow> j \<le> length bs \<Longrightarrow> buffer_ptr (io_file st) + position (io_file st) + of_nat i \<noteq> f + of_nat j"
  shows "format_string f args st = Some (SYSTEM_OK, fold put (map sint bs) st)"
  using assms
proof (induction bs arbitrary: f st)
  case Nil
  then show ?case by (subst format_string.simps) simp
next
  case (Cons b bs)
  let ?st = "put (sint b) st"
  have lit: "io_mem st f = b" "b \<noteq> 0" "literal_at (io_mem st) (f + 1) bs" using Cons.prems(1) by auto
  have st': "io_mem ?st = (io_mem st)(buffer_ptr (io_file st) + position (io_file st) := b)"
      "write_func (io_file ?st) = None" "buffer_ptr (io_file ?st) = buffer_ptr (io_file st)"
    using Cons.prems(4) by (simp_all add: put_buffer)
  have ne: "buffer_ptr (io_file st) + position (io_file st) \<noteq> f + 1 + of_nat j" if "j \<le> length bs" for j
    using Cons.prems(5) [of 0 "Suc j"] that by (simp add: add.assoc)
  have "literal_at (io_mem ?st) (f + 1) bs = literal_at (io_mem st) (f + 1) bs"
    unfolding st'(1) by (rule literal_at_cong) (metis fun_upd_other ne)
  moreover have "buffer_ptr (io_file ?st) + position (io_file ?st) + of_nat i \<noteq> f + 1 + of_nat j"
    if "i < length bs" "j \<le> length bs" for i j
    using Cons.prems(5) [of "Suc i" "Suc j"] that by (simp add: st' add.assoc)
  ultimately have "format_string (f + 1) args ?st = Some (SYSTEM_OK, fold put (map sint bs) ?st)"
    using Cons.prems(2,3) lit(3) st'(2) by (intro Cons.IH) auto
  moreover have c: "char_at (io_mem st) f = sint b" by (simp add: char_at_def lit)
  moreover have "sint b \<noteq> 37"
    using Cons.prems(2) char_at_eq_iff [of "io_mem st" f] unfolding c lit(1) by auto
  ultimately show ?case using lit Cons.prems(2) by (subst format_string.simps) simp
qed

lemma append_termination_buffer:
  assumes "write_func (io_file st) = None" "buffer_size (io_file st) \<noteq> 0" "buffer_ptr (io_file st) \<noteq> 0"
  shows "append_termination st = st\<lparr>io_mem := (io_mem st)(buffer_ptr (io_file st) +
     of_nat (min (unat (position (io_file st))) (unat (buffer_size (io_file st)) - 1)) := 0)\<rparr>"
proof -
  let ?p = "position (io_file st)" and ?n = "buffer_size (io_file st)"
  have "unat ?n \<noteq> 0" using assms(2) by (simp add: unat_eq_0)
  then have "of_nat (min (unat ?p) (unat ?n - 1)) = (if ?p < ?n then ?p else ?n - 1)"
    unfolding word_less_nat_alt by (auto simp: min_def of_nat_diff)
  then show ?thesis using assms by (simp add: append_termination_def Let_def)
qed

text \<open>
  What \<^verbatim>\<open>vsnprintf\<close> does with a format without directives.  It succeeds and writes every character
  of the format, and then stores the terminator behind them, or at the last position of the buffer
  if they do not fit.  The limit \<open>maxlen\<close> only places the terminator: it does not stop the output.
\<close>

theorem vsnprintf_plain:
  assumes "literal_at m f bs" "37 \<notin> set bs" "length bs < 18446744073709551615" "buf \<noteq> 0" "maxlen \<noteq> 0"
    "\<And>i j. i < length bs \<Longrightarrow> j \<le> length bs \<Longrightarrow> buf + of_nat i \<noteq> f + of_nat j"
  shows "vsnprintf m buf maxlen f args =
    Some (SYSTEM_OK, (write_bytes m buf (map sint bs))(buf + of_nat (min (length bs) (unat maxlen - 1)) := 0))"
proof -
  let ?st = "\<lparr>io_mem = m, io_file = \<lparr>fl_flags = 0, buffer_size = maxlen, position = 0, buffer_ptr = buf,
    write_func = None\<rparr>, io_sent = []\<rparr>"
  let ?out = "fold put (map sint bs) ?st"
  have f: "format_string f args ?st = Some (SYSTEM_OK, ?out)"
    using assms by (intro format_plain) simp_all
  have out: "?out = ?st\<lparr>io_file := (io_file ?st)\<lparr>position := of_nat (length bs)\<rparr>, io_mem := write_bytes m buf (map sint bs)\<rparr>"
    using fold_put_buffer [of ?st "map sint bs"] assms(3) by simp
  have "append_termination ?out = ?out\<lparr>io_mem := (io_mem ?out)(buf + of_nat (min (length bs) (unat maxlen - 1)) := 0)\<rparr>"
    unfolding out by (subst append_termination_buffer) (use assms(3-5) in \<open>simp_all add: unat_of_nat64\<close>)
  then show ?thesis unfolding vsnprintf_def Let_def vsnprintf_internal_def f by (simp add: out)
qed

text \<open>Three characters printed with a limit of two: the third one is written outside the buffer.\<close>

theorem vsnprintf_plain_witness:
  "let m = (\<lambda>_. 0)(16 := 97, 17 := 98, 18 := 99) in
   map_option (\<lambda>(r, m'). (r, m' 64, m' 65, m' 66, m' 67)) (vsnprintf m 64 2 16 []) = Some (SYSTEM_OK, 97, 0, 99, 0)"
proof -
  let ?m = "(\<lambda>_. 0)(16 := 97, 17 := 98, 18 := 99) :: mem"
  have ne: "64 + of_nat i \<noteq> (16 :: u64) + of_nat j" if "i < 3" "j \<le> 3" for i j :: nat
    using that by (auto simp: less_Suc_eq numeral_3_eq_3 le_Suc_eq)
  have "vsnprintf ?m 64 2 16 [] =
      Some (SYSTEM_OK, (write_bytes ?m 64 (map sint [97 :: u8, 98, 99]))(64 + of_nat (min 3 (unat (2 :: u64) - 1)) := 0))"
    using vsnprintf_plain [of ?m 16 "[97, 98, 99]" 64 2 "[]"] ne by simp
  then show ?thesis by (simp add: write_bytes_def)
qed

subsection \<open>Decimal conversion\<close>

lemma STDIO_ABS_sint: "uint (STDIO_ABS (sint (a :: u64))) = \<bar>sint a\<bar>"
proof -
  have r: "- (2 ^ 63) \<le> sint a" "sint a < 2 ^ 63" using sint_greater_eq [of a] sint_less [of a] by simp_all
  then have "uint (word_of_int \<bar>sint a\<bar> :: u64) = \<bar>sint a\<bar>" by (simp add: uint_word_of_int)
  moreover have "STDIO_ABS (sint a) = word_of_int \<bar>sint a\<bar>"
    unfolding STDIO_ABS_def abs_if by (simp only: wi_hom_neg split: if_split) auto
  ultimately show ?thesis by simp
qed

lemma directive_ld:
  assumes "literal_at (io_mem st) f [37, 108, 100]"
  shows "directive f (a # args) st = Ok (f + 3, args,
     print_integer (STDIO_ABS (sint a)) (sint a < 0) BASE_DECIMAL 0 0 (FLAGS_LONG OR FLAGS_SIGNED) st)"
proof -
  let ?m = "io_mem st"
  have b: "?m f = 37" "?m (f + 1) = 108" "?m (f + 1 + 1) = 100" using assms by simp_all
  have c: "char_at ?m (f + 1) = 108" "char_at ?m (f + 1 + 1) = 100" unfolding char_at_def b by simp_all
  have adv: "ADVANCE ?m f = Ok (f + 1)" "ADVANCE ?m (f + 1) = Ok (f + 1 + 1)" unfolding ADVANCE_def b by simp_all
  have fl: "parse_flags ?m (f + 1) 0 = Some (0, f + 1)" by (subst parse_flags.simps) (simp add: c)
  have w: "parse_width ?m (f + 1) 0 (a # args) = Ok (0, 0, f + 1, a # args)"
    by (simp add: parse_width_def c ctype_defs)
  have p: "parse_precision ?m (f + 1) 0 (a # args) = Ok (0, 0, f + 1, a # args)" by (simp add: parse_precision_def c)
  have l: "parse_length ?m (f + 1) 0 = Ok (FLAGS_LONG, f + 1 + 1)" using c(2) by (simp add: parse_length_def c(1) adv(2))
  have flags: "(FLAGS_LONG OR FLAGS_SIGNED) AND NOT FLAGS_HASH = FLAGS_LONG OR FLAGS_SIGNED"
     "has FLAGS_LONG FLAGS_LONG" "has FLAGS_SIGNED FLAGS_SIGNED"
     "\<not> has FLAGS_LONG FLAGS_PRECISION" "\<not> has FLAGS_SIGNED FLAGS_PRECISION"
    by (simp_all add: flag_defs has_def)
  have n: "print_number 100 0 0 FLAGS_LONG (a # args) st = Ok (args,
      print_integer (STDIO_ABS (sint a)) (sint a < 0) BASE_DECIMAL 0 0 (FLAGS_LONG OR FLAGS_SIGNED) st)"
    by (simp add: print_number_def va_arg_def flags Let_def)
  show ?thesis
    unfolding directive_def Let_def adv fbind.simps fl lift_scan_def option.case prod.case w p l c
    by (simp add: n)
qed

lemma write_bytes_nth: "i < length cs \<Longrightarrow> length cs < 18446744073709551616 \<Longrightarrow>
    write_bytes m a cs (a + of_nat i) = word_of_int (cs ! i)"
  by (simp add: write_bytes_def unat_of_nat64)

text \<open>The text of a signed number.\<close>

definition decimal_text :: "u64 \<Rightarrow> int list" where
  "decimal_text a = (if sint a < 0 then [45] else []) @
     number_text (STDIO_ABS (sint a)) BASE_DECIMAL (FLAGS_LONG OR FLAGS_SIGNED)"

lemma decimal_text_digits:
  "\<exists>ds. decimal_text a = (if sint a < 0 then [45] else []) @ map (\<lambda>d. 48 + d) ds \<and> ds \<noteq> [] \<and>
     length (decimal_text a) \<le> 20 \<and> (\<forall>d \<in> set ds. 0 \<le> d \<and> d < 10) \<and> horner 10 0 ds = \<bar>sint a\<bar>"
proof -
  let ?v = "STDIO_ABS (sint a)" and ?fl = "FLAGS_LONG OR FLAGS_SIGNED"
  have v: "uint ?v = \<bar>sint a\<bar>" by (rule STDIO_ABS_sint)
  have lt: "uint ?v < uint BASE_DECIMAL ^ 19"
    using sint_greater_eq [of a] sint_less [of a] unfolding v by (simp add: BASE_DECIMAL_def abs_if)
  have u: "\<not> has ?fl FLAGS_UPPERCASE" by (simp add: has_def flag_defs)
  have b: "uint BASE_DECIMAL = 10" by (simp add: BASE_DECIMAL_def)
  have digit: "map (digit_char ?fl) ds = map (\<lambda>d. 48 + d) ds" if "\<forall>d \<in> set ds. 0 \<le> d \<and> d < 10" for ds
    using that by (auto simp: digit_char_def)
  show ?thesis
  proof (cases "?v = 0")
    case True
    then show ?thesis using v by (intro exI [of _ "[0]"]) (simp add: decimal_text_def number_text_def)
  next
    case False
    obtain ds where ds: "int_digits ?v BASE_DECIMAL ?fl [] = map (digit_char ?fl) ds" "ds \<noteq> []" "length ds \<le> 19"
        "\<forall>d \<in> set ds. 0 \<le> d \<and> d < 10" "horner 10 0 (rev ds) = uint ?v"
      using int_digits_correct [of BASE_DECIMAL ?v 19 "[]" ?fl] lt by (auto simp: b)
    then show ?thesis using False v digit [of ds]
      by (intro exI [of _ "rev ds"]) (auto simp: decimal_text_def number_text_def rev_map)
  qed
qed

lemma vsnprintf_ld:
  assumes "literal_at m f [37, 108, 100]" "20 \<le> unat (f + 3 - buf)" "buf \<noteq> 0" "20 < unat maxlen"
  shows "vsnprintf m buf maxlen f (a # args) =
    Some (SYSTEM_OK, (write_bytes m buf (decimal_text a))(buf + of_nat (length (decimal_text a)) := 0))"
proof -
  let ?st = "\<lparr>io_mem = m, io_file = \<lparr>fl_flags = 0, buffer_size = maxlen, position = 0, buffer_ptr = buf,
    write_func = None\<rparr>, io_sent = []\<rparr>" and ?fl = "FLAGS_LONG OR FLAGS_SIGNED" and ?t = "decimal_text a"
  let ?out = "fold put ?t ?st"
  have len: "length ?t \<le> 20" using decimal_text_digits [of a] by blast
  have pl: "plain ?fl" "\<not> has ?fl FLAGS_LEFT" "\<not> has ?fl FLAGS_ZEROPAD" by (simp_all add: plain_def has_def flag_defs)
  have "print_integer (STDIO_ABS (sint a)) (sint a < 0) BASE_DECIMAL 0 0 ?fl ?st = output_reverse (rev ?t) 0 ?fl ?st"
    using print_integer_plain [OF pl(1)] len by (simp add: decimal_text_def)
  also have "\<dots> = ?out" using len pl by (subst output_reverse_padded) (simp_all add: padded_def Let_def)
  finally have d: "directive f (a # args) ?st = Ok (f + 3, args, ?out)"
    using directive_ld [of ?st f a args] assms(1) by simp
  have out: "?out = ?st\<lparr>io_file := (io_file ?st)\<lparr>position := of_nat (length ?t)\<rparr>, io_mem := write_bytes m buf ?t\<rparr>"
    using fold_put_buffer [of ?st ?t] len by simp
  have "io_mem ?out (f + 3) = 0"
    using assms(1,2) len by (simp add: out write_bytes_def add.assoc)
  then have "format_string (f + 3) args ?out = Some (SYSTEM_OK, ?out)" by (subst format_string.simps) simp
  then have f: "format_string f (a # args) ?st = Some (SYSTEM_OK, ?out)"
    using assms(1) d by (subst format_string.simps) simp
  have "min (length ?t) (unat maxlen - 1) = length ?t" "maxlen \<noteq> 0" using len assms(4) by auto
  then have "append_termination ?out = ?out\<lparr>io_mem := (io_mem ?out)(buf + of_nat (length ?t) := 0)\<rparr>"
    unfolding out by (subst append_termination_buffer) (use assms(3) len in \<open>simp_all add: unat_of_nat64\<close>)
  then show ?thesis unfolding vsnprintf_def Let_def vsnprintf_internal_def f by (simp add: out)
qed

end
