(* ===== verification/Address.thy ===== *)
theory Address
  imports Prelude
begin

text \<open>
  The address arithmetic of \<^verbatim>\<open>kernel/include/memory/memory.hpp\<close> on 64-bit words.  The higher-half
  offset, which the boot loader reports, is the argument \<open>hhdm\<close>.
\<close>

subsection \<open>Definitions\<close>

definition PAGE_SIZE :: u64 where "PAGE_SIZE = 0x1000"
definition PAGE_SIZE_2MiB :: u64 where "PAGE_SIZE_2MiB = 0x200000"
definition PAGE_SIZE_1GiB :: u64 where "PAGE_SIZE_1GiB = 0x40000000"

definition is_higher_half :: "u64 \<Rightarrow> u64 \<Rightarrow> bool" where
  "is_higher_half hhdm addr \<longleftrightarrow> addr \<ge> hhdm"

definition to_higher_half :: "u64 \<Rightarrow> u64 \<Rightarrow> u64" where
  "to_higher_half hhdm addr = (if is_higher_half hhdm addr then addr else addr + hhdm)"

definition from_higher_half :: "u64 \<Rightarrow> u64 \<Rightarrow> u64" where
  "from_higher_half hhdm addr = (if \<not> is_higher_half hhdm addr then addr else addr - hhdm)"

definition align_down :: "u64 \<Rightarrow> u64 \<Rightarrow> u64" where
  "align_down addr sz = addr AND NOT (sz - 1)"

definition align_up :: "u64 \<Rightarrow> u64 \<Rightarrow> u64" where
  "align_up addr sz = align_down (addr + sz - 1) sz"

definition div_roundup :: "u64 \<Rightarrow> u64 \<Rightarrow> u64" where
  "div_roundup addr sz = align_down addr sz div sz"

definition is_aligned :: "u64 \<Rightarrow> u64 \<Rightarrow> bool" where
  "is_aligned addr sz \<longleftrightarrow> align_down addr sz = addr"

subsection \<open>Powers of two\<close>

lemma align_down_pow2:
  assumes "n < 64"
  shows "align_down a (2 ^ n) = a - a mod 2 ^ n" "unat (align_down a (2 ^ n)) = unat a div 2 ^ n * 2 ^ n"
proof -
  have e: "align_down a (2 ^ n) = a - a mod 2 ^ n"
    using and_not_mask [of a n] and_mask_eq_mod [OF assms, of a] by (simp add: align_down_def mask_eq_decr_exp)
  show "align_down a (2 ^ n) = a - a mod 2 ^ n" by (rule e)
  have p: "unat (2 ^ n :: u64) = 2 ^ n" using assms by (rule unat_pow2)
  then have m: "unat (a mod 2 ^ n) = unat a mod 2 ^ n" by (simp add: unat_mod_distrib)
  then have "unat (a - a mod 2 ^ n) = unat a - unat a mod 2 ^ n" by (simp add: unat_sub64 m)
  then show "unat (align_down a (2 ^ n)) = unat a div 2 ^ n * 2 ^ n"
    by (simp add: e minus_mod_eq_div_mult)
qed

lemma align_up_pow2:
  assumes "n < 64" "unat a + 2 ^ n \<le> 2 ^ 64"
  shows "unat (align_up a (2 ^ n)) = (unat a + 2 ^ n - 1) div 2 ^ n * 2 ^ n"
proof -
  have p: "unat (2 ^ n :: u64) = 2 ^ n" using assms(1) by (rule unat_pow2)
  have "(2 :: nat) ^ n \<le> 2 ^ 63" using assms(1) by (intro power_increasing) auto
  then have "unat (a + (2 ^ n - 1)) = unat a + 2 ^ n - 1"
    using assms(2) p by (simp add: unat_word_ariths unat_sub64)
  then have "unat (a + 2 ^ n - 1) = unat a + 2 ^ n - 1" by (simp only: add_diff_eq)
  then show ?thesis by (simp add: align_up_def align_down_pow2(2) [OF assms(1)])
qed

text \<open>
  For a power of two, \<^verbatim>\<open>align_down\<close> and \<^verbatim>\<open>align_up\<close> return the nearest multiple below and above (the
  latter when it does not overflow), both results pass \<^verbatim>\<open>is_aligned\<close>, and \<^verbatim>\<open>is_aligned\<close> is divisibility.
\<close>

theorem align_correct:
  assumes "n < 64" "unat a + 2 ^ n \<le> 2 ^ 64"
  shows "unat (align_down a (2 ^ n)) = unat a div 2 ^ n * 2 ^ n \<and>
    unat (align_up a (2 ^ n)) = (unat a + 2 ^ n - 1) div 2 ^ n * 2 ^ n \<and>
    is_aligned (align_down a (2 ^ n)) (2 ^ n) \<and> is_aligned (align_up a (2 ^ n)) (2 ^ n) \<and>
    (is_aligned a (2 ^ n) \<longleftrightarrow> 2 ^ n dvd unat a)"
proof -
  have dvd: "x div d * d = x \<longleftrightarrow> d dvd x" for x d :: nat by (metis dvd_div_mult_self dvd_triv_right)
  have al: "is_aligned x (2 ^ n) \<longleftrightarrow> 2 ^ n dvd unat x" for x
    unfolding is_aligned_def word_unat_eq_iff align_down_pow2(2) [OF assms(1)] by (rule dvd)
  show ?thesis using align_up_pow2 [OF assms] align_down_pow2(2) [OF assms(1)] by (simp add: al)
qed

theorem align_correct_witness:
  "unat (align_down 0x1234 (2 ^ 12)) = 0x1000 \<and> unat (align_up 0x1234 (2 ^ 12)) = 0x2000"
  using align_correct [of 12 "0x1234"] by simp

text \<open>
  \<^verbatim>\<open>div_roundup\<close> rounds down: for a power of two it is plain division.
\<close>

theorem div_roundup_rounds_down:
  assumes "n < 64"
  shows "unat (div_roundup a (2 ^ n)) = unat a div 2 ^ n"
  using assms unat_pow2 [OF assms] by (simp add: div_roundup_def unat_div_distrib align_down_pow2(2))

theorem div_roundup_rounds_down_witness: "unat (div_roundup 0x1001 (2 ^ 12)) = 1"
  using div_roundup_rounds_down [of 12 "0x1001"] by simp

lemma higher_half_inverse:
  assumes "addr < hhdm" "unat addr + unat hhdm < 2 ^ 64"
  shows "from_higher_half hhdm (to_higher_half hhdm addr) = addr" "to_higher_half hhdm addr = addr + hhdm"
proof -
  have "unat (addr + hhdm) = unat addr + unat hhdm" using assms(2) by (simp add: unat_word_ariths)
  then have "hhdm \<le> addr + hhdm" by (simp add: word_le_nat_alt)
  then show "from_higher_half hhdm (to_higher_half hhdm addr) = addr"
    using assms(1) by (auto simp: from_higher_half_def to_higher_half_def is_higher_half_def)
  show "to_higher_half hhdm addr = addr + hhdm"
    using assms(1) by (auto simp: to_higher_half_def is_higher_half_def)
qed

end
