(* ===== verification/Bitmap.thy ===== *)
theory Bitmap
  imports Prelude
begin

text \<open>
  The bitmap of \<^verbatim>\<open>kernel/include/libs/bitmap.hpp\<close>, whose buffer lies in the flat memory.  The
  assertions are compiled in (the default build type defines \<^verbatim>\<open>DEBUG\<close>); an operation whose assertion
  fails is \<open>None\<close>.  The proxy class \<^verbatim>\<open>Bit\<close> only forwards to \<^verbatim>\<open>set\<close> and \<^verbatim>\<open>bit\<close>.
\<close>

subsection \<open>Definitions\<close>

datatype BitmapMark = BITMAP_FREE | BITMAP_USED

definition mark_bool :: "BitmapMark \<Rightarrow> bool" where
  "mark_bool v = (v = BITMAP_USED)"

record Bitmap =
  buffer :: u64
  bsize :: u64

definition bitmap_initialize :: "u64 \<Rightarrow> u64 \<Rightarrow> Bitmap option" where
  "bitmap_initialize buf sz = (if buf \<noteq> 0 \<and> sz \<noteq> 0 then Some \<lparr>buffer = buf, bsize = sz\<rparr> else None)"

definition bitmap_byte :: "mem \<Rightarrow> Bitmap \<Rightarrow> u64 \<Rightarrow> u8 option" where
  "bitmap_byte m b index = (if index < bsize b then Some (m (buffer b + index div 8)) else None)"

definition bitmap_bit :: "mem \<Rightarrow> Bitmap \<Rightarrow> u64 \<Rightarrow> bool option" where
  "bitmap_bit m b index =
     (if index < bsize b
      then map_option (\<lambda>x. x AND push_bit (unat (index mod 8)) 1 \<noteq> 0) (bitmap_byte m b index)
      else None)"

definition bitmap_set :: "mem \<Rightarrow> Bitmap \<Rightarrow> u64 \<Rightarrow> bool \<Rightarrow> mem option" where
  "bitmap_set m b index val =
     (if index < bsize b
      then let a = buffer b + index div 8
           in Some (if val then m(a := m a OR push_bit (unat (index mod 8)) 1)
                    else m(a := m a AND NOT (push_bit (unat (index mod 8)) 1)))
      else None)"

subsection \<open>Arrays of bits\<close>

text \<open>What the clients of a bitmap rely on.\<close>

locale bit_array =
  fixes get :: "'s \<Rightarrow> nat \<Rightarrow> bool" and put :: "nat \<Rightarrow> bool \<Rightarrow> 's \<Rightarrow> 's" and len :: "'s \<Rightarrow> nat"
  assumes get_put: "i < len s \<Longrightarrow> j < len s \<Longrightarrow> get (put i v s) j = (if i = j then v else get s j)"
    and len_put: "len (put i v s) = len s"
begin

lemma len_fold_put: "len (fold (\<lambda>i. put i v) is s) = len s"
  by (induction "is" arbitrary: s) (simp_all add: len_put)

lemma get_fold_put:
  "\<forall>i \<in> set is. i < len s \<Longrightarrow> j < len s \<Longrightarrow>
   get (fold (\<lambda>i. put i v) is s) j = (if j \<in> set is then v else get s j)"
  by (induction "is" arbitrary: s) (auto simp: get_put len_put)

end

text \<open>The bit with index \<open>i\<close> of the buffer, and the memory in which it has been written.\<close>

definition bit_at :: "mem \<Rightarrow> u64 \<Rightarrow> nat \<Rightarrow> bool" where
  "bit_at m a i = bit (m (a + of_nat (i div 8))) (i mod 8)"

definition write_bit :: "u64 \<Rightarrow> nat \<Rightarrow> bool \<Rightarrow> mem \<Rightarrow> mem" where
  "write_bit a i v m =
     m(a + of_nat (i div 8) := (if v then set_bit (i mod 8) else unset_bit (i mod 8)) (m (a + of_nat (i div 8))))"

lemma bit_at_write_bit:
  assumes "i < 18446744073709551616" "j < 18446744073709551616"
  shows "bit_at (write_bit a i v m) a j = (if i = j then v else bit_at m a j)"
proof -
  have lt: "i div 8 < 18446744073709551616" "j div 8 < 18446744073709551616" using assms by simp_all
  have bits: "bit ((if v then set_bit k else unset_bit k) w) n = (if n = k then v else bit w n)"
    if "n < 8" for k n and w :: u8
    using that by (simp add: bit_set_bit_iff bit_unset_bit_iff)
  show ?thesis
  proof (cases "i div 8 = j div 8")
    case True
    moreover have "i mod 8 = j mod 8 \<longleftrightarrow> i = j" using True by (metis mult_div_mod_eq)
    ultimately show ?thesis unfolding bit_at_def write_bit_def using bits [of "j mod 8"] by auto
  next
    case False
    then have "a + of_nat (j div 8) \<noteq> a + of_nat (i div 8)" unfolding of_nat_off_inj [OF lt(2,1)] by simp
    then show ?thesis using False unfolding bit_at_def write_bit_def by auto
  qed
qed

interpretation flat_bits: bit_array "\<lambda>m. bit_at m a" "write_bit a" "\<lambda>_. 18446744073709551616" for a
  by unfold_locales (simp_all add: bit_at_write_bit)

lemma div_8_of_nat: "(i :: u64) div 8 = of_nat (unat i div 8)"
  by (metis u64_of_nat_unat unat_div_8)

lemma bitmap_bit_at: "index < bsize b \<Longrightarrow> bitmap_bit m b index = Some (bit_at m (buffer b) (unat index))"
  unfolding bitmap_bit_def bitmap_byte_def bit_at_def bit_iff_and_push_bit_not_eq_0 div_8_of_nat unat_mod_8 by simp

lemma bitmap_set_at: "index < bsize b \<Longrightarrow> bitmap_set m b index v = Some (write_bit (buffer b) (unat index) v m)"
  unfolding bitmap_set_def write_bit_def set_bit_eq_or unset_bit_eq_and_not div_8_of_nat unat_mod_8 Let_def by simp

lemma write_bit_frame:
  assumes "i < 8 * n" "n \<le> unat (x - a)" "n < 18446744073709551616"
  shows "write_bit a i v m x = m x"
proof -
  have d: "i div 8 < n" using assms(1) by linarith
  have "unat (of_nat (i div 8) :: u64) = i div 8" using less_trans [OF d assms(3)] by (rule unat_of_nat64)
  then have lt: "unat (of_nat (i div 8) :: u64) < n" using d by simp
  have "x \<noteq> a + of_nat (i div 8)"
  proof
    assume "x = a + of_nat (i div 8)"
    then have "x - a = of_nat (i div 8)" by simp
    then show False using lt assms(2) by simp
  qed
  then show ?thesis by (simp add: write_bit_def)
qed

text \<open>
  C37: a bitmap of \<open>bsize\<close> bits is an array of booleans.  Reading and writing fail exactly outside its
  size; a write changes the bit it names and no other, and touches only the byte that holds it.
\<close>

theorem bitmap_read_write:
  "(if i < bsize b
    then \<exists>m'. bitmap_set m b i v = Some m' \<and>
      (\<forall>j. bitmap_bit m' b j = (if j = i then Some v else bitmap_bit m b j)) \<and>
      (\<forall>x. x = buffer b + i div 8 \<or> m' x = m x)
    else bitmap_set m b i v = None \<and> bitmap_bit m b i = None \<and> bitmap_byte m b i = None)"
proof (cases "i < bsize b")
  case True
  let ?m = "write_bit (buffer b) (unat i) v m"
  have "bitmap_bit ?m b j = (if j = i then Some v else bitmap_bit m b j)" for j
  proof (cases "j < bsize b")
    case True
    then show ?thesis
      using flat_bits.get_put [OF unat_lt64 [of i] unat_lt64 [of j], of "buffer b" v m]
      by (auto simp: bitmap_bit_at word_unat_eq_iff)
  qed (use \<open>i < bsize b\<close> in \<open>auto simp: bitmap_bit_def\<close>)
  then show ?thesis using True by (auto simp: bitmap_set_at write_bit_def div_8_of_nat)
qed (simp add: bitmap_set_def bitmap_bit_def bitmap_byte_def)

end
