(* ===== verification/Lock.thy ===== *)
theory Lock
  imports Prelude
begin

text \<open>
  \<^verbatim>\<open>kernel/include/lock.hpp\<close>.  The ticket lock is modelled twice over the same pair of counters: by the
  atomic accesses of its operations, interleaved between any number of processors (a step relation
  with one program counter per processor), and as sequential operations for the code of one
  processor, where spinning on a ticket nobody will serve is the error \<open>Deadlock\<close>.  The counters are
  64-bit words that wrap around.  Memory accesses are sequentially consistent in the model.
\<close>

subsection \<open>Sequential operations\<close>

datatype lock_error = Deadlock | Null_mutex

record TicketLock =
  next_ticket :: u64
  serving_ticket :: u64

definition TicketLock_init :: TicketLock where
  "TicketLock_init = \<lparr>next_ticket = 0, serving_ticket = 0\<rparr>"

definition is_locked :: "TicketLock \<Rightarrow> bool" where
  "is_locked l = (let current = serving_ticket l; nxt = next_ticket l in current \<noteq> nxt)"

definition lock_seq :: "TicketLock \<Rightarrow> lock_error + TicketLock" where
  "lock_seq l =
     (let ticket = next_ticket l; l = l\<lparr>next_ticket := ticket + 1\<rparr>
      in if serving_ticket l \<noteq> ticket then Inl Deadlock else Inr l)"

definition unlock_seq :: "TicketLock \<Rightarrow> TicketLock" where
  "unlock_seq l =
     (if \<not> is_locked l then l
      else let current = serving_ticket l in l\<lparr>serving_ticket := current + 1\<rparr>)"

definition try_lock_seq :: "TicketLock \<Rightarrow> lock_error + bool \<times> TicketLock" where
  "try_lock_seq l =
     (if is_locked l then Inr (False, l)
      else case lock_seq l of Inl e \<Rightarrow> Inl e | Inr l \<Rightarrow> Inr (True, l))"

subsection \<open>Interleaved operations\<close>

text \<open>
  The program counter of a processor: \<open>Spin k\<close> holds ticket \<open>k\<close> in \<^verbatim>\<open>lock\<close>; \<open>Try1 c\<close> has loaded the
  serving counter in \<^verbatim>\<open>try_lock\<close>'s \<^verbatim>\<open>is_locked\<close> and \<open>Try2\<close> has seen the lock free; \<open>Unl1 c\<close> has loaded
  the serving counter in \<^verbatim>\<open>unlock\<close>'s \<^verbatim>\<open>is_locked\<close>, \<open>Unl2\<close> has seen it locked and \<open>Unl3 c\<close> has loaded
  \<open>current\<close>.
\<close>

datatype pc = Idle | Spin u64 | Held | Try1 u64 | Try2 | Unl1 u64 | Unl2 | Unl3 u64

record 't lock_state =
  tlock :: TicketLock
  pcs :: "'t \<Rightarrow> pc"

definition lock_init :: "'t lock_state" where
  "lock_init = \<lparr>tlock = TicketLock_init, pcs = (\<lambda>_. Idle)\<rparr>"

definition goto :: "'t lock_state \<Rightarrow> 't \<Rightarrow> pc \<Rightarrow> 't lock_state" where
  "goto s t p = s\<lparr>pcs := (pcs s)(t := p)\<rparr>"

text \<open>One atomic access of processor \<open>t\<close>; only a processor that holds the lock calls \<^verbatim>\<open>unlock\<close>.\<close>

inductive lock_step :: "'t \<Rightarrow> 't lock_state \<Rightarrow> 't lock_state \<Rightarrow> bool" where
  lock_take: "pcs s t = Idle \<Longrightarrow>
    lock_step t s (goto (s\<lparr>tlock := (tlock s)\<lparr>next_ticket := next_ticket (tlock s) + 1\<rparr>\<rparr>) t (Spin (next_ticket (tlock s))))"
| lock_pause: "pcs s t = Spin k \<Longrightarrow> serving_ticket (tlock s) \<noteq> k \<Longrightarrow> lock_step t s s"
| lock_enter: "pcs s t = Spin k \<Longrightarrow> serving_ticket (tlock s) = k \<Longrightarrow> lock_step t s (goto s t Held)"
| try_load: "pcs s t = Idle \<Longrightarrow> lock_step t s (goto s t (Try1 (serving_ticket (tlock s))))"
| try_fail: "pcs s t = Try1 c \<Longrightarrow> c \<noteq> next_ticket (tlock s) \<Longrightarrow> lock_step t s (goto s t Idle)"
| try_free: "pcs s t = Try1 c \<Longrightarrow> c = next_ticket (tlock s) \<Longrightarrow> lock_step t s (goto s t Try2)"
| try_take: "pcs s t = Try2 \<Longrightarrow>
    lock_step t s (goto (s\<lparr>tlock := (tlock s)\<lparr>next_ticket := next_ticket (tlock s) + 1\<rparr>\<rparr>) t (Spin (next_ticket (tlock s))))"
| unlock_load: "pcs s t = Held \<Longrightarrow> lock_step t s (goto s t (Unl1 (serving_ticket (tlock s))))"
| unlock_return: "pcs s t = Unl1 c \<Longrightarrow> c = next_ticket (tlock s) \<Longrightarrow> lock_step t s (goto s t Idle)"
| unlock_locked: "pcs s t = Unl1 c \<Longrightarrow> c \<noteq> next_ticket (tlock s) \<Longrightarrow> lock_step t s (goto s t Unl2)"
| unlock_current: "pcs s t = Unl2 \<Longrightarrow> lock_step t s (goto s t (Unl3 (serving_ticket (tlock s))))"
| unlock_store: "pcs s t = Unl3 c \<Longrightarrow>
    lock_step t s (goto (s\<lparr>tlock := (tlock s)\<lparr>serving_ticket := c + 1\<rparr>\<rparr>) t Idle)"

inductive_cases lock_stepE: "lock_step t s s'"

definition some_step :: "'t lock_state \<Rightarrow> 't lock_state \<Rightarrow> bool" where
  "some_step s s' \<longleftrightarrow> (\<exists>t. lock_step t s s')"

text \<open>Processors are named by their 32-bit x2APIC identifiers.\<close>

type_synonym cpu = u32

definition lock_reachable :: "cpu lock_state \<Rightarrow> bool" where
  "lock_reachable s \<longleftrightarrow> some_step\<^sup>*\<^sup>* lock_init s"

text \<open>Processors between the return of \<^verbatim>\<open>lock\<close> and the store of \<^verbatim>\<open>unlock\<close>.\<close>

fun holds :: "pc \<Rightarrow> bool" where
  "holds Held = True" | "holds (Unl1 _) = True" | "holds Unl2 = True" | "holds (Unl3 _) = True" | "holds _ = False"

fun active :: "pc \<Rightarrow> bool" where
  "active (Spin _) = True" | "active p = holds p"

subsection \<open>The queue behind the counters\<close>

text \<open>
  The invariant: the active processors form a queue whose length is the difference of the counters;
  the processor at position \<open>i\<close> waits for ticket \<open>serving + i\<close>, and only the first one may be past its
  wait, with an up-to-date copy of the serving counter.
\<close>

definition at_position :: "u64 \<Rightarrow> nat \<Rightarrow> pc \<Rightarrow> bool" where
  "at_position serving i p \<longleftrightarrow> p = Spin (serving + of_nat i) \<or>
     (i = 0 \<and> (p = Held \<or> p = Unl1 serving \<or> p = Unl2 \<or> p = Unl3 serving))"

definition lock_inv :: "'t lock_state \<Rightarrow> 't list \<Rightarrow> bool" where
  "lock_inv s q \<longleftrightarrow> distinct q \<and> length q = unat (next_ticket (tlock s) - serving_ticket (tlock s)) \<and>
     (\<forall>t. t \<in> set q \<longleftrightarrow> active (pcs s t)) \<and>
     (\<forall>i < length q. at_position (serving_ticket (tlock s)) i (pcs s (q ! i)))"

lemma lock_inv_init: "lock_inv lock_init []"
  by (simp add: lock_inv_def lock_init_def TicketLock_init_def)

lemma lock_invD:
  assumes "lock_inv s q"
  shows "distinct q" "length q = unat (next_ticket (tlock s) - serving_ticket (tlock s))"
    "t \<in> set q \<longleftrightarrow> active (pcs s t)" "i < length q \<Longrightarrow> at_position (serving_ticket (tlock s)) i (pcs s (q ! i))"
  using assms unfolding lock_inv_def by blast+

lemma lock_invI:
  assumes "distinct q" "length q = unat (next_ticket (tlock s) - serving_ticket (tlock s))"
    "\<And>t. t \<in> set q \<longleftrightarrow> active (pcs s t)"
    "\<And>i. i < length q \<Longrightarrow> at_position (serving_ticket (tlock s)) i (pcs s (q ! i))"
  shows "lock_inv s q"
  using assms unfolding lock_inv_def by blast

lemma pcs_goto [simp]: "pcs (goto s t p) = (pcs s)(t := p)" "tlock (goto s t p) = tlock s"
  by (simp_all add: goto_def)

lemma inv_length: "lock_inv s q \<Longrightarrow> length q < 18446744073709551616"
  using unat_lt64 lock_invD(2) by metis

lemma served_is_head:
  assumes "lock_inv s q" "pcs s t = Spin (serving_ticket (tlock s)) \<or> holds (pcs s t)"
  shows "q \<noteq> []" "t = q ! 0"
proof -
  have "active (pcs s t)" using assms(2) by (cases "pcs s t") auto
  then obtain i where i: "i < length q" "t = q ! i" using lock_invD(3) [OF assms(1)] by (metis in_set_conv_nth)
  have at: "at_position (serving_ticket (tlock s)) i (pcs s t)" using lock_invD(4) [OF assms(1) i(1)] i(2) by simp
  have "i = 0"
  proof (rule ccontr)
    assume "i \<noteq> 0"
    then have "serving_ticket (tlock s) = serving_ticket (tlock s) + of_nat i"
      using at assms(2) by (auto simp: at_position_def)
    then show False
      using of_nat_off_inj [of 0 i "serving_ticket (tlock s)"] inv_length [OF assms(1)] i \<open>i \<noteq> 0\<close> by simp
  qed
  then show "q \<noteq> []" "t = q ! 0" using i by auto
qed

lemma inv_goto_head:
  assumes "lock_inv s q" "q \<noteq> []" "t = q ! 0" "active p" "at_position (serving_ticket (tlock s)) 0 p"
  shows "lock_inv (goto s t p) q"
proof (rule lock_invI)
  note inv = lock_invD [OF assms(1)]
  have "t \<in> set q" using assms(2,3) by simp
  then show "t' \<in> set q \<longleftrightarrow> active (pcs (goto s t p) t')" for t'
    using inv(3) [of t'] assms(4) by (cases "t' = t") simp_all
  show "at_position (serving_ticket (tlock (goto s t p))) i (pcs (goto s t p) (q ! i))" if "i < length q" for i
    using inv(1) inv(4) [OF that] assms(2,3,5) that by (auto simp: nth_eq_iff_index_eq)
qed (use lock_invD [OF assms(1)] in simp_all)

lemma inv_goto_inactive:
  assumes "lock_inv s q" "\<not> active (pcs s t)" "\<not> active p"
  shows "lock_inv (goto s t p) q"
proof (rule lock_invI)
  note inv = lock_invD [OF assms(1)]
  show "t' \<in> set q \<longleftrightarrow> active (pcs (goto s t p) t')" for t' using inv(3) assms(2,3) by auto
  show "at_position (serving_ticket (tlock (goto s t p))) i (pcs (goto s t p) (q ! i))" if "i < length q" for i
    using inv(3) [of t] inv(4) [OF that] assms(2) that by auto
qed (use lock_invD [OF assms(1)] in simp_all)

lemma inv_take:
  fixes s :: "'t::finite lock_state"
  assumes "lock_inv s q" "\<not> active (pcs s t)" "CARD('t) < 2 ^ 64"
  shows "lock_inv (goto (s\<lparr>tlock := (tlock s)\<lparr>next_ticket := next_ticket (tlock s) + 1\<rparr>\<rparr>) t
    (Spin (next_ticket (tlock s)))) (q @ [t])" (is "lock_inv ?s' _")
proof (rule lock_invI)
  let ?n = "next_ticket (tlock s)" and ?v = "serving_ticket (tlock s)"
  note inv = lock_invD [OF assms(1)]
  have t: "t \<notin> set q" using inv(3) assms(2) by simp
  show d: "distinct (q @ [t])" using t inv(1) by simp
  have "length (q @ [t]) \<le> CARD('t)" using distinct_card [OF d] card_mono [OF finite subset_UNIV, of "set (q @ [t])"] by simp
  then have l: "Suc (length q) < 2 ^ 64" using assms(3) by simp
  have "?n - ?v = of_nat (length q)" by (simp add: inv(2))
  then have n: "?n = ?v + of_nat (length q)" by (simp add: diff_eq_eq add.commute)
  have e: "?n + 1 - ?v = of_nat (Suc (length q))" unfolding n by simp
  have "unat (?n + 1 - ?v) = Suc (length q)" unfolding e using l by (intro unat_of_nat64) simp
  then show "length (q @ [t]) = unat (next_ticket (tlock ?s') - serving_ticket (tlock ?s'))" by simp
  show "t' \<in> set (q @ [t]) \<longleftrightarrow> active (pcs ?s' t')" for t' using inv(3) by auto
  show "at_position (serving_ticket (tlock ?s')) i (pcs ?s' ((q @ [t]) ! i))" if "i < length (q @ [t])" for i
  proof (cases "i < length q")
    case True
    then show ?thesis using inv(4) t by (auto simp: nth_append)
  next
    case False
    then have "i = length q" using that by simp
    then show ?thesis using n by (simp add: at_position_def)
  qed
qed

lemma inv_release:
  assumes "lock_inv s q" "pcs s t = Unl3 c"
  shows "c = serving_ticket (tlock s)"
    "lock_inv (goto (s\<lparr>tlock := (tlock s)\<lparr>serving_ticket := c + 1\<rparr>\<rparr>) t Idle) (tl q)" (is "lock_inv ?s' _")
proof -
  let ?n = "next_ticket (tlock s)" and ?v = "serving_ticket (tlock s)"
  note inv = lock_invD [OF assms(1)]
  obtain q' where q: "q = t # q'"
    using served_is_head [OF assms(1), of t] assms(2) by (cases q) auto
  show c: "c = ?v" using inv(4) [of 0] assms(2) q by (auto simp: at_position_def)
  show "lock_inv ?s' (tl q)"
  proof (rule lock_invI)
    show "distinct (tl q)" using inv(1) by (simp add: distinct_tl)
    show "length (tl q) = unat (next_ticket (tlock ?s') - serving_ticket (tlock ?s'))"
      using inv(2) q unat_off [of 1 ?n ?v] c by simp
    show "t' \<in> set (tl q) \<longleftrightarrow> active (pcs ?s' t')" for t' using inv(1) inv(3) [of t'] q by auto
    show "at_position (serving_ticket (tlock ?s')) i (pcs ?s' (tl q ! i))" if "i < length (tl q)" for i
      using inv(4) [of "Suc i"] inv(1) that q c by (auto simp: at_position_def add.assoc)
  qed
qed

subsection \<open>The lock refines a FIFO queue\<close>

text \<open>
  The abstract lock: a queue of processors, of which the first is inside the critical section when
  \<open>inside\<close> is set.
\<close>

record 't fifo =
  queue :: "'t list"
  inside :: bool

inductive fifo_step :: "'t fifo \<Rightarrow> 't fifo \<Rightarrow> bool" where
  fifo_stutter: "fifo_step a a"
| fifo_request: "t \<notin> set (queue a) \<Longrightarrow> fifo_step a (a\<lparr>queue := queue a @ [t]\<rparr>)"
| fifo_grant: "queue a \<noteq> [] \<Longrightarrow> \<not> inside a \<Longrightarrow> fifo_step a (a\<lparr>inside := True\<rparr>)"
| fifo_leave: "inside a \<Longrightarrow> queue a \<noteq> [] \<Longrightarrow> fifo_step a \<lparr>queue = tl (queue a), inside = False\<rparr>"

definition fifo_abs :: "'t fifo \<Rightarrow> 't lock_state \<Rightarrow> bool" where
  "fifo_abs a s \<longleftrightarrow> lock_inv s (queue a) \<and> inside a = (\<exists>t. holds (pcs s t))"

lemma holder_unique: "lock_inv s q \<Longrightarrow> holds (pcs s t) \<Longrightarrow> holds (pcs s t') \<Longrightarrow> t = t'"
  using served_is_head by metis

lemma not_holding_goto:
  assumes "lock_inv s q" "holds (pcs s t)" "\<not> holds p" "pcs s' = (pcs s)(t := p)"
  shows "\<not> (\<exists>t'. holds (pcs s' t'))"
proof
  assume "\<exists>t'. holds (pcs s' t')"
  then obtain t' where "holds (pcs s' t')" ..
  then have "t' \<noteq> t \<and> holds (pcs s t')" using assms(3,4) by (cases "t' = t") simp_all
  then show False using holder_unique [OF assms(1,2)] by blast
qed

lemma waiting_head_not_holding:
  assumes "lock_inv s q" "pcs s t = Spin (serving_ticket (tlock s))"
  shows "\<not> (\<exists>t'. holds (pcs s t'))"
proof
  assume "\<exists>t'. holds (pcs s t')"
  then obtain t' where "holds (pcs s t')" ..
  moreover from this have "t' = t" using served_is_head(2) [OF assms(1)] assms(2) by blast
  ultimately show False using assms(2) by simp
qed

lemma holds_goto_iff:
  "holds p = holds (pcs s t) \<Longrightarrow> pcs s' = (pcs s)(t := p) \<Longrightarrow> (\<exists>t'. holds (pcs s' t')) = (\<exists>t'. holds (pcs s t'))"
  by (metis fun_upd_apply)

lemma holder_serving:
  assumes "lock_inv s q" "pcs s t = Unl1 c"
  shows "c = serving_ticket (tlock s)" "c \<noteq> next_ticket (tlock s)"
proof -
  note h = served_is_head [OF assms(1), of t]
  show "c = serving_ticket (tlock s)"
    using lock_invD(4) [OF assms(1), of 0] h assms(2) by (auto simp: at_position_def)
  moreover have "unat (next_ticket (tlock s) - serving_ticket (tlock s)) \<noteq> 0"
    using lock_invD(2) [OF assms(1)] h(1) assms(2) by (metis holds.simps(2) length_0_conv)
  ultimately show "c \<noteq> next_ticket (tlock s)" by auto
qed

lemma fifo_simulation_step:
  fixes s :: "'t::finite lock_state"
  assumes "lock_step t s s'" "fifo_abs a s" "CARD('t) < 2 ^ 64"
  shows "\<exists>a'. fifo_step a a' \<and> fifo_abs a' s'"
proof -
  have inv: "lock_inv s (queue a)" and ins: "inside a = (\<exists>t. holds (pcs s t))" using assms(2) by (simp_all add: fifo_abs_def)
  note head = served_is_head [OF inv, of t]
  have stut: "\<exists>a'. fifo_step a a' \<and> fifo_abs a' s'" if "fifo_abs a s'" using that fifo_stutter by blast
  have req: "\<exists>a'. fifo_step a a' \<and> fifo_abs a' s'"
    if "\<not> active (pcs s t)" "lock_inv s' (queue a @ [t])" "pcs s' = (pcs s)(t := Spin k)" for k
  proof -
    have "holds (Spin k) = holds (pcs s t)" using that(1) by (cases "pcs s t") auto
    then have "fifo_abs (a\<lparr>queue := queue a @ [t]\<rparr>) s'"
      using that(2) ins holds_goto_iff [OF _ that(3)] by (simp add: fifo_abs_def)
    then show ?thesis using fifo_request [of t a] lock_invD(3) [OF inv] that(1) by blast
  qed
  from assms(1) show ?thesis
  proof (cases rule: lock_step.cases)
    case lock_take
    then show ?thesis using inv_take [OF inv _ assms(3), of t] by (intro req) simp_all
  next
    case (lock_pause k)
    then show ?thesis using assms(2) stut by simp
  next
    case (lock_enter k)
    then have "lock_inv s' (queue a)" using inv head by (auto intro!: inv_goto_head simp: at_position_def)
    moreover have "\<exists>t'. holds (pcs s' t')" using lock_enter by (auto intro: exI [of _ t])
    ultimately have "fifo_abs (a\<lparr>inside := True\<rparr>) s'" by (simp add: fifo_abs_def)
    moreover have "\<not> inside a" using waiting_head_not_holding [OF inv, of t] lock_enter ins by simp
    ultimately show ?thesis using fifo_grant [of a] head lock_enter by blast
  next
    case try_load
    then show ?thesis
      using inv_goto_inactive [OF inv, of t] holds_goto_iff [of _ s t s'] ins by (intro stut) (simp add: fifo_abs_def)
  next
    case (try_fail c)
    then show ?thesis
      using inv_goto_inactive [OF inv, of t] holds_goto_iff [of _ s t s'] ins by (intro stut) (simp add: fifo_abs_def)
  next
    case (try_free c)
    then show ?thesis
      using inv_goto_inactive [OF inv, of t] holds_goto_iff [of _ s t s'] ins by (intro stut) (simp add: fifo_abs_def)
  next
    case try_take
    then show ?thesis using inv_take [OF inv _ assms(3), of t] by (intro req) simp_all
  next
    case unlock_load
    then show ?thesis
      using inv_goto_head [OF inv] head holds_goto_iff [of _ s t s'] ins
      by (intro stut) (simp add: fifo_abs_def at_position_def)
  next
    case (unlock_return c)
    then show ?thesis using holder_serving [OF inv] by blast
  next
    case (unlock_locked c)
    then show ?thesis
      using inv_goto_head [OF inv] head holds_goto_iff [of _ s t s'] ins
      by (intro stut) (simp add: fifo_abs_def at_position_def)
  next
    case unlock_current
    then show ?thesis
      using inv_goto_head [OF inv] head holds_goto_iff [of _ s t s'] ins
      by (intro stut) (simp add: fifo_abs_def at_position_def)
  next
    case (unlock_store c)
    have h: "holds (pcs s t)" using unlock_store by simp
    have "lock_inv s' (tl (queue a))" using inv_release [OF inv] unlock_store by simp
    moreover have "\<not> (\<exists>t'. holds (pcs s' t'))"
      using not_holding_goto [OF inv h, of Idle s'] unlock_store by simp
    ultimately have "fifo_abs \<lparr>queue = tl (queue a), inside = False\<rparr> s'" by (simp add: fifo_abs_def)
    then show ?thesis using fifo_leave [of a] head h ins by blast
  qed
qed

definition fifo_init :: "'t fifo" where
  "fifo_init = \<lparr>queue = [], inside = False\<rparr>"

lemma card_cpu: "CARD(cpu) < 2 ^ 64"
  by (simp add: card_word)

interpretation ticket: forward_simulation "some_step :: cpu lock_state \<Rightarrow> cpu lock_state \<Rightarrow> bool" lock_init fifo_step fifo_init fifo_abs
proof
  show "fifo_abs fifo_init (lock_init :: cpu lock_state)"
    using lock_inv_init by (simp add: fifo_abs_def fifo_init_def) (simp add: lock_init_def)
  show "\<exists>a'. fifo_step a a' \<and> fifo_abs a' s'" if "some_step s s'" "fifo_abs a s" for s s' :: "cpu lock_state" and a
    using fifo_simulation_step [OF _ that(2) card_cpu] that(1) by (auto simp: some_step_def)
qed

lemma reachable_inv: "lock_reachable s \<Longrightarrow> \<exists>q. lock_inv s q"
  using ticket.simulates unfolding lock_reachable_def fifo_abs_def by blast

lemma reach_init [intro]: "lock_reachable lock_init"
  by (simp add: lock_reachable_def)

lemma reach_step: "lock_reachable s \<Longrightarrow> lock_step t s s' \<Longrightarrow> lock_reachable s'"
  using rtranclp.rtrancl_into_rtrancl [of some_step lock_init s s'] unfolding lock_reachable_def some_step_def by blast

text \<open>
  C1: mutual exclusion.  However the atomic accesses of any number of processors interleave, and
  although the 64-bit ticket counters wrap around, at most one processor is between the return of
  \<^verbatim>\<open>lock\<close> (or of a successful \<^verbatim>\<open>try_lock\<close>) and the store of its \<^verbatim>\<open>unlock\<close>.
\<close>

theorem lock_mutual_exclusion:
  assumes "lock_reachable s"
  shows "card {t. holds (pcs s t)} \<le> 1"
proof -
  obtain q where q: "lock_inv s q" using reachable_inv [OF assms] ..
  have "\<forall>t \<in> {t. holds (pcs s t)}. \<forall>t' \<in> {t. holds (pcs s t)}. t = t'"
    by (intro ballI, unfold mem_Collect_eq) (rule holder_unique [OF q])
  then have "card {t. holds (pcs s t)} \<le> Suc 0" by (rule card_le_Suc0_iff_eq [OF finite, THEN iffD2])
  then show ?thesis by (simp only: One_nat_def)
qed

text \<open>Processor 1 holds the lock while processor 2 waits for ticket 1.\<close>

definition contended :: "cpu lock_state" where
  "contended = \<lparr>tlock = \<lparr>next_ticket = 2, serving_ticket = 0\<rparr>, pcs = (\<lambda>_. Idle)(1 := Held, 2 := Spin 1)\<rparr>"

lemma contended_reachable: "lock_reachable contended"
proof -
  note take = lock_take and enter = lock_enter
  define s1 where "s1 = goto (lock_init\<lparr>tlock := \<lparr>next_ticket = 1, serving_ticket = 0\<rparr>\<rparr>) (1 :: cpu) (Spin 0)"
  have "lock_step 1 lock_init s1"
    using lock_take [of lock_init "1 :: cpu"] by (simp add: s1_def lock_init_def TicketLock_init_def)
  then have "lock_reachable s1" using reach_step by blast
  moreover define s2 where "s2 = goto s1 1 Held"
  have "lock_step 1 s1 s2" unfolding s2_def by (rule lock_enter [of _ _ 0]) (simp_all add: s1_def)
  moreover have "lock_step 2 s2 contended"
    using lock_take [of s2 "2 :: cpu"]
    by (simp add: s2_def s1_def contended_def goto_def lock_init_def fun_upd_twist)
  ultimately show ?thesis using reach_step by blast
qed

theorem lock_mutual_exclusion_witness:
  "lock_reachable contended \<and> holds (pcs contended 1) \<and> card {t. holds (pcs contended t)} \<le> 1"
  using lock_mutual_exclusion [OF contended_reachable] contended_reachable by (simp add: contended_def)

text \<open>
  C2: the ticket lock refines a first-come-first-served queue.  Every reachable state of the
  interleaved accesses corresponds to a state of the abstract lock reached by requests appended at
  the end, grants to the first processor and departures of the first processor; the tickets of the
  waiting processors are their positions in that queue.
\<close>

theorem lock_refines_fifo:
  assumes "lock_reachable s"
  shows "\<exists>a. fifo_step\<^sup>*\<^sup>* fifo_init a \<and> fifo_abs a s"
  using ticket.simulates assms unfolding lock_reachable_def by blast

theorem lock_refines_fifo_witness:
  "lock_reachable contended \<and> (\<exists>a. fifo_step\<^sup>*\<^sup>* fifo_init a \<and> fifo_abs a contended)"
  using lock_refines_fifo [OF contended_reachable] contended_reachable by simp

subsection \<open>Progress\<close>

lemma some_stepI: "lock_step t s s' \<Longrightarrow> some_step s s'"
  by (auto simp: some_step_def)

text \<open>The processor in the critical section can leave it, in at most four accesses of its own.\<close>

lemma holder_can_release:
  assumes "lock_inv s q" "holds (pcs s t)"
  shows "\<exists>s'. some_step\<^sup>*\<^sup>* s s' \<and> lock_inv s' (tl q) \<and> pcs s' = (pcs s)(t := Idle) \<and>
    serving_ticket (tlock s') = serving_ticket (tlock s) + 1"
proof -
  note head = served_is_head [OF assms(1)]
  have store: ?thesis if "lock_inv s1 q" "pcs s1 t = Unl3 c" "pcs s1 = (pcs s)(t := Unl3 c)" "tlock s1 = tlock s"
      "some_step\<^sup>*\<^sup>* s s1" for s1 c
    using inv_release [OF that(1,2)] some_stepI [OF unlock_store [OF that(2)]] that(3-5)
    by (intro exI [of _ "goto (s1\<lparr>tlock := (tlock s1)\<lparr>serving_ticket := c + 1\<rparr>\<rparr>) t Idle"])
      (auto intro: rtranclp.rtrancl_into_rtrancl)
  have current: ?thesis if "lock_inv s1 q" "pcs s1 t = Unl2" "pcs s1 = (pcs s)(t := Unl2)" "tlock s1 = tlock s"
      "some_step\<^sup>*\<^sup>* s s1" for s1
  proof (rule store)
    let ?s = "goto s1 t (Unl3 (serving_ticket (tlock s1)))"
    show "lock_inv ?s q" using served_is_head [OF that(1), of t] that(1,2)
      by (auto intro!: inv_goto_head simp: at_position_def)
    show "some_step\<^sup>*\<^sup>* s ?s" using that(5) some_stepI [OF unlock_current [OF that(2)]] by (rule rtranclp.rtrancl_into_rtrancl)
  qed (use that in auto)
  have locked: ?thesis if "lock_inv s1 q" "pcs s1 t = Unl1 c" "pcs s1 = (pcs s)(t := Unl1 c)" "tlock s1 = tlock s"
      "some_step\<^sup>*\<^sup>* s s1" for s1 c
  proof (rule current)
    let ?s = "goto s1 t Unl2"
    show "lock_inv ?s q" using served_is_head [OF that(1), of t] that(1,2)
      by (auto intro!: inv_goto_head simp: at_position_def)
    show "some_step\<^sup>*\<^sup>* s ?s"
      using that(5) some_stepI [OF unlock_locked [OF that(2) holder_serving(2) [OF that(1,2)]]] by (rule rtranclp.rtrancl_into_rtrancl)
  qed (use that in auto)
  have held: ?thesis if h: "pcs s t = Held"
  proof (rule locked)
    let ?s = "goto s t (Unl1 (serving_ticket (tlock s)))"
    show "lock_inv ?s q" using head(1,2) [of t] assms(1) h by (auto intro!: inv_goto_head simp: at_position_def)
    show "some_step\<^sup>*\<^sup>* s ?s" using some_stepI [OF unlock_load [OF h]] by (rule r_into_rtranclp)
  qed auto
  show ?thesis
  proof (cases "pcs s t")
    case Held
    then show ?thesis by (rule held)
  next
    case (Unl1 c)
    then show ?thesis using assms(1) by (intro locked [of s c]) auto
  next
    case Unl2
    then show ?thesis using assms(1) by (intro current [of s]) auto
  next
    case (Unl3 c)
    then show ?thesis using assms(1) by (intro store [of s c]) auto
  qed (use assms(2) in simp_all)
qed

lemma head_can_enter:
  assumes "lock_inv s q" "q \<noteq> []" "\<not> holds (pcs s (hd q))"
  shows "some_step s (goto s (hd q) Held)" "lock_inv (goto s (hd q) Held) q"
proof -
  have h: "hd q = q ! 0" using assms(2) by (simp add: hd_conv_nth)
  then have "pcs s (hd q) = Spin (serving_ticket (tlock s))"
    using lock_invD(4) [OF assms(1), of 0] assms(2,3) by (auto simp: at_position_def)
  then show "some_step s (goto s (hd q) Held)" by (intro some_stepI [OF lock_enter]) auto
  show "lock_inv (goto s (hd q) Held) q"
    using assms h by (intro inv_goto_head) (simp_all add: at_position_def)
qed

lemma waiter_can_enter:
  assumes "lock_inv s q" "i < length q" "pcs s (q ! i) = Spin k"
  shows "\<exists>s'. some_step\<^sup>*\<^sup>* s s' \<and> pcs s' (q ! i) = Held \<and> serving_ticket (tlock s') = k"
  using assms
proof (induction i arbitrary: s q)
  case 0
  then have h: "hd q = q ! 0" "\<not> holds (pcs s (hd q))" by (auto simp: hd_conv_nth)
  moreover have "k = serving_ticket (tlock s)"
    using lock_invD(4) [OF 0(1,2)] 0(3) by (simp add: at_position_def)
  ultimately show ?case
    using head_can_enter [OF 0(1), of] 0(2)
    by (intro exI [of _ "goto s (hd q) Held"]) auto
next
  case (Suc i)
  obtain t q' where q: "q = t # q'" using Suc.prems(2) by (cases q) auto
  have ne: "q' ! i \<noteq> t" using lock_invD(1) [OF Suc.prems(1)] Suc.prems(2) q by auto
  have "\<exists>s1. some_step\<^sup>*\<^sup>* s s1 \<and> lock_inv s1 q \<and> holds (pcs s1 t) \<and> pcs s1 (q' ! i) = Spin k"
  proof (cases "holds (pcs s t)")
    case True
    then show ?thesis using Suc.prems q by auto
  next
    case False
    then show ?thesis using head_can_enter [OF Suc.prems(1)] q Suc.prems(3) ne
      by (intro exI [of _ "goto s t Held"]) auto
  qed
  then obtain s1 where s1: "some_step\<^sup>*\<^sup>* s s1" "lock_inv s1 q" "holds (pcs s1 t)" "pcs s1 (q' ! i) = Spin k" by blast
  obtain s2 where s2: "some_step\<^sup>*\<^sup>* s1 s2" "lock_inv s2 q'" "pcs s2 = (pcs s1)(t := Idle)"
    using holder_can_release [OF s1(2,3)] q by auto
  have "\<exists>s'. some_step\<^sup>*\<^sup>* s2 s' \<and> pcs s' (q' ! i) = Held \<and> serving_ticket (tlock s') = k"
    using Suc.prems(2) q s2 s1(4) ne by (intro Suc.IH) auto
  then show ?case using s1(1) s2(1) q by (auto intro: rtranclp_trans)
qed

text \<open>
  C3: no deadlock and no lost release.  From every reachable state, a processor waiting with ticket
  \<open>k\<close> can still enter the critical section, and it does so when the serving counter is \<open>k\<close>; and a
  holder that calls \<^verbatim>\<open>unlock\<close> never takes the early return of the \<^verbatim>\<open>is_locked\<close> test.
\<close>

theorem lock_progress:
  assumes "lock_reachable s"
  shows "(pcs s t = Spin k \<longrightarrow> (\<exists>s'. some_step\<^sup>*\<^sup>* s s' \<and> pcs s' t = Held \<and> serving_ticket (tlock s') = k)) \<and>
    (pcs s t = Unl1 k \<longrightarrow> k \<noteq> next_ticket (tlock s))"
proof -
  obtain q where q: "lock_inv s q" using reachable_inv [OF assms] ..
  have "\<exists>s'. some_step\<^sup>*\<^sup>* s s' \<and> pcs s' t = Held \<and> serving_ticket (tlock s') = k" if "pcs s t = Spin k"
  proof -
    have "t \<in> set q" using lock_invD(3) [OF q] that by simp
    then obtain i where "i < length q" "t = q ! i" by (metis in_set_conv_nth)
    then show ?thesis using waiter_can_enter [OF q] that by metis
  qed
  then show ?thesis using holder_serving(2) [OF q] by blast
qed

theorem lock_progress_witness:
  "\<exists>s'. some_step\<^sup>*\<^sup>* contended s' \<and> pcs s' 2 = Held \<and> serving_ticket (tlock s') = 1"
  using lock_progress [OF contended_reachable, of 2 1] by (simp add: contended_def)

end
