(* ===== verification/Scoped_Lock.thy ===== *)
theory Scoped_Lock
  imports Lock
begin

text \<open>
  The guard class \<^verbatim>\<open>ScopedLock\<close> of \<^verbatim>\<open>kernel/include/lock.hpp\<close>, on a store of ticket locks indexed by
  address.  A guard is the pair of its fields; a constructor returns the store and the guard.  What
  the guard needs of its mutex type is the locale \<open>mutex\<close>, interpreted on the ticket lock.
\<close>

subsection \<open>Definitions\<close>

type_synonym mutexes = "u64 \<Rightarrow> TicketLock"

record ScopedLock =
  mutex_ptr :: "u64 option"
  locked :: bool

definition scoped_default :: ScopedLock where
  "scoped_default = \<lparr>mutex_ptr = None, locked = False\<rparr>"

definition scoped_swap :: "ScopedLock \<Rightarrow> ScopedLock \<Rightarrow> ScopedLock \<times> ScopedLock" where
  "scoped_swap this other =
     (\<lparr>mutex_ptr = mutex_ptr other, locked = locked other\<rparr>, \<lparr>mutex_ptr = mutex_ptr this, locked = locked this\<rparr>)"

definition scoped_move :: "ScopedLock \<Rightarrow> ScopedLock \<times> ScopedLock" where
  "scoped_move other = scoped_swap scoped_default other"

definition scoped_new :: "mutexes \<Rightarrow> u64 \<Rightarrow> lock_error + mutexes \<times> ScopedLock" where
  "scoped_new ms m =
     (case lock_seq (ms m) of Inl e \<Rightarrow> Inl e
      | Inr l \<Rightarrow> Inr (ms(m := l), \<lparr>mutex_ptr = Some m, locked = True\<rparr>))"

definition scoped_defer :: "u64 \<Rightarrow> ScopedLock" where
  "scoped_defer m = \<lparr>mutex_ptr = Some m, locked = False\<rparr>"

definition scoped_try :: "mutexes \<Rightarrow> u64 \<Rightarrow> lock_error + mutexes \<times> ScopedLock" where
  "scoped_try ms m =
     (case try_lock_seq (ms m) of Inl e \<Rightarrow> Inl e
      | Inr (_, l) \<Rightarrow> Inr (ms(m := l), \<lparr>mutex_ptr = Some m, locked = True\<rparr>))"

definition scoped_adopt :: "u64 \<Rightarrow> ScopedLock" where
  "scoped_adopt m = \<lparr>mutex_ptr = Some m, locked = True\<rparr>"

definition scoped_delete :: "mutexes \<Rightarrow> ScopedLock \<Rightarrow> lock_error + mutexes" where
  "scoped_delete ms g =
     (if locked g
      then case mutex_ptr g of None \<Rightarrow> Inl Null_mutex | Some m \<Rightarrow> Inr (ms(m := unlock_seq (ms m)))
      else Inr ms)"

definition scoped_unlock :: "mutexes \<Rightarrow> ScopedLock \<Rightarrow> mutexes \<times> ScopedLock" where
  "scoped_unlock ms g =
     (case mutex_ptr g of None \<Rightarrow> (ms, g) | Some m \<Rightarrow> (ms(m := unlock_seq (ms m)), g\<lparr>locked := False\<rparr>))"

definition scoped_assign :: "mutexes \<Rightarrow> ScopedLock \<Rightarrow> ScopedLock \<Rightarrow> mutexes \<times> ScopedLock \<times> ScopedLock" where
  "scoped_assign ms this other =
     (let (ms, this) = (if locked this then scoped_unlock ms this else (ms, this))
      in (ms, scoped_swap this other))"

definition scoped_lock :: "mutexes \<Rightarrow> ScopedLock \<Rightarrow> lock_error + mutexes \<times> ScopedLock" where
  "scoped_lock ms g =
     (case mutex_ptr g of None \<Rightarrow> Inr (ms, g)
      | Some m \<Rightarrow>
         (case lock_seq (ms m) of Inl e \<Rightarrow> Inl e | Inr l \<Rightarrow> Inr (ms(m := l), g\<lparr>locked := True\<rparr>)))"

definition scoped_try_lock :: "mutexes \<Rightarrow> ScopedLock \<Rightarrow> lock_error + bool \<times> mutexes \<times> ScopedLock" where
  "scoped_try_lock ms g =
     (case mutex_ptr g of None \<Rightarrow> Inr (False, ms, g)
      | Some m \<Rightarrow>
         (case try_lock_seq (ms m) of Inl e \<Rightarrow> Inl e
          | Inr (ret, l) \<Rightarrow> Inr (ret, ms(m := l), if ret then g\<lparr>locked := True\<rparr> else g)))"

definition scoped_release :: "ScopedLock \<Rightarrow> u64 option \<times> ScopedLock" where
  "scoped_release g = (let ret = mutex_ptr g in (ret, g\<lparr>mutex_ptr := None, locked := False\<rparr>))"

definition owns_lock :: "ScopedLock \<Rightarrow> bool" where
  "owns_lock g = locked g"

subsection \<open>The mutex interface\<close>

locale mutex =
  fixes free :: "'m \<Rightarrow> bool"
    and acquire :: "'m \<Rightarrow> lock_error + 'm"
    and release :: "'m \<Rightarrow> 'm"
    and try_acquire :: "'m \<Rightarrow> lock_error + bool \<times> 'm"
  assumes acquire_free: "free m \<Longrightarrow> \<exists>m'. acquire m = Inr m' \<and> \<not> free m' \<and> free (release m')"
    and acquire_taken: "\<not> free m \<Longrightarrow> acquire m = Inl Deadlock"
    and release_free: "free m \<Longrightarrow> release m = m"
    and try_acquire_free: "free m \<Longrightarrow> try_acquire m = map_sum id (Pair True) (acquire m)"
    and try_acquire_taken: "\<not> free m \<Longrightarrow> try_acquire m = Inr (False, m)"
begin

text \<open>A guarded section: acquire, run, release.\<close>

lemma section_returns_free:
  assumes "acquire m = Inr m'"
  shows "free m" "\<not> free m'" "free (release m')"
  using assms acquire_free [of m] acquire_taken [of m] by (cases "free m"; auto)+

lemma reacquire_deadlocks:
  assumes "acquire m = Inr m'"
  shows "acquire m' = Inl Deadlock" "try_acquire m' = Inr (False, m')"
  using section_returns_free [OF assms] acquire_taken try_acquire_taken by blast+

lemma acquire_iff: "(\<exists>m'. acquire m = Inr m') \<longleftrightarrow> free m"
  using acquire_free section_returns_free by blast

lemma try_acquire_total: "\<exists>r m'. try_acquire m = Inr (r, m') \<and> r = free m \<and> \<not> free m'"
  using acquire_free [of m] try_acquire_free [of m] try_acquire_taken [of m] by (cases "free m") auto

end

interpretation ticket_mutex: mutex "\<lambda>l. \<not> is_locked l" lock_seq unlock_seq try_lock_seq
  by unfold_locales
    (auto simp: is_locked_def lock_seq_def unlock_seq_def try_lock_seq_def Let_def)

subsection \<open>Guards\<close>

text \<open>A guard that says it is locked refers to a mutex, and that mutex is locked.\<close>

definition guard_ok :: "mutexes \<Rightarrow> ScopedLock \<Rightarrow> bool" where
  "guard_ok ms g \<longleftrightarrow> (locked g \<longrightarrow> (\<exists>m. mutex_ptr g = Some m \<and> is_locked (ms m)))"

text \<open>
  A scope guarded by \<^verbatim>\<open>ScopedLock guard(m)\<close>.  The constructor returns exactly when the mutex was
  free; then the guard owns it, a second acquisition of the same mutex by the same processor never
  returns, and the destructor leaves the mutex free again with both counters advanced by one and
  every other mutex untouched.
\<close>

theorem scoped_section:
  "case scoped_new ms m of
     Inl e \<Rightarrow> is_locked (ms m) \<and> e = Deadlock
   | Inr (ms', g) \<Rightarrow> \<not> is_locked (ms m) \<and> owns_lock g \<and> is_locked (ms' m) \<and> scoped_new ms' m = Inl Deadlock \<and>
       scoped_delete ms' g =
         Inr (ms(m := \<lparr>next_ticket = next_ticket (ms m) + 1, serving_ticket = serving_ticket (ms m) + 1\<rparr>)) \<and>
       \<not> is_locked (unlock_seq (ms' m))"
proof (cases "lock_seq (ms m)")
  case (Inl e)
  then have "is_locked (ms m)" using ticket_mutex.acquire_free [of "ms m"] by auto
  then show ?thesis using Inl ticket_mutex.acquire_taken [of "ms m"] by (simp add: scoped_new_def)
next
  case (Inr l)
  note sec = ticket_mutex.section_returns_free [OF Inr] ticket_mutex.reacquire_deadlocks [OF Inr]
  have "unlock_seq l = \<lparr>next_ticket = next_ticket (ms m) + 1, serving_ticket = serving_ticket (ms m) + 1\<rparr>"
    using Inr sec(2) by (auto simp: lock_seq_def unlock_seq_def Let_def split: if_splits)
  then show ?thesis using Inr sec by (simp add: scoped_new_def scoped_delete_def owns_lock_def)
qed

text \<open>
  C38: with the \<^verbatim>\<open>TryToLock\<close> tag the constructor marks the guard as owner whether or not the mutex was
  acquired.  On a mutex that somebody else holds, the guard does not hold it, and its destructor
  releases the other owner's lock.
\<close>

theorem scoped_try_claims_foreign_lock:
  assumes "is_locked (ms m)"
  shows "\<exists>g. scoped_try ms m = Inr (ms, g) \<and> owns_lock g \<and>
    scoped_delete ms g = Inr (ms(m := (ms m)\<lparr>serving_ticket := serving_ticket (ms m) + 1\<rparr>))"
  using ticket_mutex.try_acquire_taken [of "ms m"] assms
  by (simp add: scoped_try_def owns_lock_def scoped_delete_def unlock_seq_def Let_def)

theorem scoped_try_claims_foreign_lock_witness:
  "\<exists>g. scoped_try (\<lambda>_. \<lparr>next_ticket = 1, serving_ticket = 0\<rparr>) 7 = Inr (\<lambda>_. \<lparr>next_ticket = 1, serving_ticket = 0\<rparr>, g) \<and>
    owns_lock g"
  using scoped_try_claims_foreign_lock [where ms = "\<lambda>_. \<lparr>next_ticket = 1, serving_ticket = 0\<rparr>" and m = 7]
  by (auto simp: is_locked_def)

text \<open>
  Moving, swapping, deferring, locking, trying and unlocking through the guard keep guards
  truthful: a guard that claims ownership refers to a locked mutex.
\<close>

theorem guard_ok_preserved:
  assumes "guard_ok ms g" "guard_ok ms h"
  shows "guard_ok ms (scoped_defer m) \<and> guard_ok ms (fst (scoped_move g)) \<and> guard_ok ms (snd (scoped_move g)) \<and>
    guard_ok ms (fst (scoped_swap g h)) \<and> guard_ok ms (snd (scoped_swap g h)) \<and>
    guard_ok ms (snd (scoped_release g)) \<and>
    (case scoped_lock ms g of Inl _ \<Rightarrow> True | Inr (ms', g') \<Rightarrow> guard_ok ms' g') \<and>
    (case scoped_try_lock ms g of Inl _ \<Rightarrow> False | Inr (r, ms', g') \<Rightarrow> guard_ok ms' g') \<and>
    (let (ms', g') = scoped_unlock ms g in guard_ok ms' g') \<and>
    (let (ms', g', h') = scoped_assign ms g scoped_default in guard_ok ms' g')"
proof (intro conjI)
  show "case scoped_lock ms g of Inl _ \<Rightarrow> True | Inr (ms', g') \<Rightarrow> guard_ok ms' g'"
  proof (cases "mutex_ptr g")
    case (Some m)
    then show ?thesis using ticket_mutex.section_returns_free(2) [of "ms m"]
      by (auto simp: scoped_lock_def guard_ok_def split: sum.split)
  qed (use assms in \<open>simp add: scoped_lock_def\<close>)
  show "case scoped_try_lock ms g of Inl _ \<Rightarrow> False | Inr (r, ms', g') \<Rightarrow> guard_ok ms' g'"
  proof (cases "mutex_ptr g")
    case (Some m)
    obtain r l where "try_lock_seq (ms m) = Inr (r, l)" "is_locked l"
      using ticket_mutex.try_acquire_total [of "ms m"] by auto
    then show ?thesis using Some assms by (auto simp: scoped_try_lock_def guard_ok_def)
  qed (use assms in \<open>simp add: scoped_try_lock_def\<close>)
qed (use assms in \<open>auto simp: guard_ok_def scoped_defer_def scoped_move_def scoped_swap_def scoped_default_def
    scoped_release_def scoped_unlock_def scoped_assign_def Let_def split: option.splits\<close>)

theorem guard_ok_preserved_witness:
  "guard_ok (\<lambda>_. TicketLock_init) scoped_default \<and>
   (case scoped_lock (\<lambda>_. TicketLock_init) (scoped_defer 7) of Inl _ \<Rightarrow> False | Inr (ms', g') \<Rightarrow> guard_ok ms' g')"
proof -
  have g: "guard_ok (\<lambda>_. TicketLock_init) (scoped_defer 7)" by (simp add: guard_ok_def scoped_defer_def)
  then show ?thesis
    using guard_ok_preserved [OF g g]
    by (auto simp: scoped_lock_def scoped_defer_def scoped_default_def guard_ok_def lock_seq_def TicketLock_init_def)
qed

end
