(* ===== verification/Physical.thy ===== *)
theory Physical
  imports Address Bitmap Memset Scoped_Lock
begin

text \<open>
  The physical page allocator, \<^verbatim>\<open>kernel/memory/physical.cpp\<close>.  Its globals are a record; the bitmap's
  buffer and the pages it hands out lie in the flat memory \<open>pmem\<close>, so that clearing a page could
  destroy the bitmap.  Failed assertions, the panic on exhaustion and self-deadlock are errors.
  The memory map is the boot loader's array of entries; the higher-half offset is \<open>hhdm\<close>.
\<close>

subsection \<open>Definitions\<close>

record PhysicalMemoryStats =
  highest_physical_addr :: u64
  lowest_usable_addr :: u64
  highest_usable_addr :: u64
  total_pages :: u64
  usable_pages :: u64
  used_pages :: u64
  free_pages :: u64

datatype phys_error = Assertion_failed | Out_of_memory | Lock_error lock_error | Endless_loop

record phys =
  phys_stats :: PhysicalMemoryStats
  phys_bitmap :: Bitmap
  phys_lock :: TicketLock
  bitmap_last_index :: u64
  pmem :: mem

definition phys_boot :: "mem \<Rightarrow> phys" where
  "phys_boot m = \<lparr>phys_stats = \<lparr>highest_physical_addr = 0, lowest_usable_addr = 0, highest_usable_addr = 0,
       total_pages = 0, usable_pages = 0, used_pages = 0, free_pages = 0\<rparr>,
     phys_bitmap = \<lparr>buffer = 0, bsize = 0\<rparr>, phys_lock = TicketLock_init, bitmap_last_index = 0, pmem = m\<rparr>"

text \<open>The marking loop \<^verbatim>\<open>for(j = page; j < end; j++) phys_bitmap[j] = mark\<close>.\<close>

function mark_range :: "phys \<Rightarrow> u64 \<Rightarrow> u64 \<Rightarrow> BitmapMark \<Rightarrow> phys_error + phys" where
  "mark_range st j e mark =
     (if j < e
      then case bitmap_set (pmem st) (phys_bitmap st) j (mark_bool mark) of
             None \<Rightarrow> Inl Assertion_failed
           | Some m \<Rightarrow> mark_range (st\<lparr>pmem := m\<rparr>) (j + 1) e mark
      else Inr st)"
  by pat_completeness auto
termination
  by (relation "measure (\<lambda>(st, j, e, k). unat (e - j))") (simp_all add: measure_up)

declare mark_range.simps [simp del]

text \<open>The lambda \<^verbatim>\<open>allocate_internal\<close>: the page's address, 0 for \<^verbatim>\<open>nullptr\<close>.\<close>

function allocate_internal :: "phys \<Rightarrow> u64 \<Rightarrow> u64 \<Rightarrow> u64 \<Rightarrow> phys_error + phys \<times> u64" where
  "allocate_internal st count limit i =
     (if bitmap_last_index st < limit
      then let index = bitmap_last_index st;
               st = st\<lparr>bitmap_last_index := index + 1\<rparr>
           in case bitmap_bit (pmem st) (phys_bitmap st) index of
                None \<Rightarrow> Inl Assertion_failed
              | Some b \<Rightarrow>
                 if b = mark_bool BITMAP_FREE
                 then if i + 1 = count
                      then let page = bitmap_last_index st - count
                           in case mark_range st page (bitmap_last_index st) BITMAP_USED of
                                Inl e \<Rightarrow> Inl e
                              | Inr st \<Rightarrow> Inr (st, page * PAGE_SIZE)
                      else allocate_internal st count limit (i + 1)
                 else allocate_internal st count limit 0
      else Inr (st, 0))"
  by pat_completeness auto
termination
  by (relation "measure (\<lambda>(st, c, l, i). unat (l - bitmap_last_index st))") (simp_all add: measure_up)

declare allocate_internal.simps [simp del]

definition physical_allocate :: "u64 \<Rightarrow> phys \<Rightarrow> u64 \<Rightarrow> phys_error + phys \<times> u64" where
  "physical_allocate hhdm st count =
     (if count = 0 then Inr (st, 0)
      else case lock_seq (phys_lock st) of Inl e \<Rightarrow> Inl (Lock_error e)
      | Inr l \<Rightarrow>
         (let st = st\<lparr>phys_lock := l\<rparr>;
              index = bitmap_last_index st
          in case allocate_internal st count (highest_usable_addr (phys_stats st) div PAGE_SIZE) 0 of
               Inl e \<Rightarrow> Inl e
             | Inr (st, ret) \<Rightarrow>
                (case (if ret = 0
                       then case allocate_internal (st\<lparr>bitmap_last_index := 0\<rparr>) count index 0 of
                              Inl e \<Rightarrow> Inl e
                            | Inr (st, ret) \<Rightarrow> if ret = 0 then Inl Out_of_memory else Inr (st, ret)
                       else Inr (st, ret)) of
                   Inl e \<Rightarrow> Inl e
                 | Inr (st, ret) \<Rightarrow>
                    (let st = st\<lparr>pmem := fst (memset (pmem st) (to_higher_half hhdm ret) 0 (count * PAGE_SIZE))\<rparr>;
                         stats = phys_stats st;
                         stats = stats\<lparr>used_pages := used_pages stats + count, free_pages := free_pages stats - count\<rparr>;
                         st = st\<lparr>phys_stats := stats, phys_lock := unlock_seq (phys_lock st)\<rparr>
                     in Inr (st, ret)))))"

definition physical_free :: "phys \<Rightarrow> u64 \<Rightarrow> u64 \<Rightarrow> phys_error + phys" where
  "physical_free st ptr count =
     (if ptr = 0 then Inr st
      else case lock_seq (phys_lock st) of Inl e \<Rightarrow> Inl (Lock_error e)
      | Inr l \<Rightarrow>
         (let st = st\<lparr>phys_lock := l\<rparr>;
              page = ptr div PAGE_SIZE
          in case mark_range st page (page + count) BITMAP_FREE of
               Inl e \<Rightarrow> Inl e
             | Inr st \<Rightarrow>
                (let stats = phys_stats st;
                     stats = stats\<lparr>used_pages := used_pages stats - count, free_pages := free_pages stats + count\<rparr>
                 in Inr (st\<lparr>phys_stats := stats, phys_lock := unlock_seq (phys_lock st)\<rparr>))))"

text \<open>The structure is copied field by field to \<open>dest\<close>.\<close>

definition physical_get_status :: "phys \<Rightarrow> u64 \<Rightarrow> mem" where
  "physical_get_status st dest =
     (let s = phys_stats st; m = pmem st;
          m = store64 m dest (highest_physical_addr s);
          m = store64 m (dest + 8) (lowest_usable_addr s);
          m = store64 m (dest + 16) (highest_usable_addr s);
          m = store64 m (dest + 24) (total_pages s);
          m = store64 m (dest + 32) (usable_pages s);
          m = store64 m (dest + 40) (used_pages s)
      in store64 m (dest + 48) (free_pages s))"

subsection \<open>Runs of free pages\<close>

definition used :: "phys \<Rightarrow> nat \<Rightarrow> bool" where
  "used st p = bit_at (pmem st) (buffer (phys_bitmap st)) p"

definition page_limit :: "phys \<Rightarrow> nat" where
  "page_limit st = unat (highest_usable_addr (phys_stats st) div PAGE_SIZE)"

definition free_run :: "phys \<Rightarrow> nat \<Rightarrow> nat \<Rightarrow> bool" where
  "free_run st p n \<longleftrightarrow> (\<forall>q. p \<le> q \<and> q < p + n \<longrightarrow> \<not> used st q)"

definition mark_pages :: "nat \<Rightarrow> nat \<Rightarrow> bool \<Rightarrow> phys \<Rightarrow> phys" where
  "mark_pages a b v st = st\<lparr>pmem := fold (\<lambda>i. write_bit (buffer (phys_bitmap st)) i v) [a..<b] (pmem st)\<rparr>"

lemma mark_pages_simps [simp]:
  "phys_stats (mark_pages a b v st) = phys_stats st" "phys_bitmap (mark_pages a b v st) = phys_bitmap st"
  "phys_lock (mark_pages a b v st) = phys_lock st" "bitmap_last_index (mark_pages a b v st) = bitmap_last_index st"
  by (simp_all add: mark_pages_def)

lemma used_mark_pages:
  assumes "b \<le> 18446744073709551616" "q < 18446744073709551616"
  shows "used (mark_pages a b v st) q = (if a \<le> q \<and> q < b then v else used st q)"
proof -
  have "i < 18446744073709551616" if "i \<in> set [a..<b]" for i
    using that less_le_trans [OF _ assms(1)] unfolding set_upt atLeastLessThan_iff by blast
  then have lt: "\<forall>i \<in> set [a..<b]. i < 18446744073709551616" by (rule ballI)
  show ?thesis
    using flat_bits.get_fold_put [OF lt assms(2), of "buffer (phys_bitmap st)" v "pmem st"]
    unfolding used_def mark_pages_def set_upt atLeastLessThan_iff by simp
qed

lemma mark_pages_frame:
  assumes "b \<le> 8 * n" "n \<le> unat (x - buffer (phys_bitmap st))" "n < 18446744073709551616"
  shows "pmem (mark_pages a b v st) x = pmem st x"
proof -
  have frame: "write_bit (buffer (phys_bitmap st)) i v m x = m x" if "i < b" for i m
    using write_bit_frame [OF less_le_trans [OF that assms(1)] assms(2,3)] .
  have "fold (\<lambda>i. write_bit (buffer (phys_bitmap st)) i v) is m x = m x" if "\<forall>i \<in> set is. i < b" for m and "is"
    using that by (induction "is" arbitrary: m) (simp_all add: frame)
  then show ?thesis by (simp add: mark_pages_def)
qed

lemma mark_range_correct:
  assumes "e \<le> bsize (phys_bitmap st)"
  shows "mark_range st j e mark = Inr (mark_pages (unat j) (unat e) (mark_bool mark) st)"
  using assms
proof (induction st j e mark rule: mark_range.induct)
  case (1 st j e mark)
  show ?case
  proof (cases "j < e")
    case True
    then have j: "j < bsize (phys_bitmap st)" "unat (j + 1) = Suc (unat j)" "[unat j..<unat e] = unat j # [Suc (unat j)..<unat e]"
      using 1(2) unat_Suc_le [OF True] True by (auto simp: upt_conv_Cons word_less_nat_alt word_le_nat_alt)
    show ?thesis
      using 1(1) [OF True bitmap_set_at [OF j(1)]] 1(2) True j
      by (subst mark_range.simps) (simp add: bitmap_set_at mark_pages_def)
  next
    case False
    then show ?thesis by (subst mark_range.simps) (simp add: mark_pages_def word_less_nat_alt)
  qed
qed

text \<open>Where a scan from \<open>low\<close> for \<open>c\<close> pages below \<open>lim\<close> may succeed.\<close>

definition fits :: "phys \<Rightarrow> nat \<Rightarrow> nat \<Rightarrow> nat \<Rightarrow> nat \<Rightarrow> bool" where
  "fits st low lim c p \<longleftrightarrow> low \<le> p \<and> p + c \<le> lim \<and> free_run st p c"

lemma free_run_0 [simp]: "free_run st p 0"
  by (auto simp: free_run_def)

lemma free_run_Suc: "free_run st p (Suc n) \<longleftrightarrow> free_run st p n \<and> \<not> used st (p + n)"
  by (auto simp: free_run_def less_Suc_eq)

lemma free_run_last [simp]:
  "free_run (st\<lparr>bitmap_last_index := x\<rparr>) = free_run st" "used (st\<lparr>bitmap_last_index := x\<rparr>) = used st"
  "fits (st\<lparr>bitmap_last_index := x\<rparr>) = fits st"
  by (simp_all add: fits_def free_run_def used_def fun_eq_iff)

text \<open>
  The result of a scan: the first place that fits, with its pages marked and the index moved behind
  them, or the null pointer with the index moved to the limit.
\<close>

definition scan_result :: "phys \<Rightarrow> nat \<Rightarrow> u64 \<Rightarrow> u64 \<Rightarrow> (phys_error + phys \<times> u64) \<Rightarrow> bool" where
  "scan_result st low limit count res \<longleftrightarrow>
    (\<exists>p. fits st low (unat limit) (unat count) p \<and> (\<forall>p'. fits st low (unat limit) (unat count) p' \<longrightarrow> p \<le> p') \<and>
      res = Inr (mark_pages p (p + unat count) True (st\<lparr>bitmap_last_index := of_nat (p + unat count)\<rparr>), of_nat p * PAGE_SIZE)) \<or>
    (\<not> (\<exists>p. fits st low (unat limit) (unat count) p) \<and>
      res = Inr (st\<lparr>bitmap_last_index := max (bitmap_last_index st) limit\<rparr>, 0))"

lemma scan_result_advance:
  assumes "bitmap_last_index st < limit"
    "\<And>p. fits st low' (unat limit) (unat count) p = fits st low (unat limit) (unat count) p"
  shows "scan_result (st\<lparr>bitmap_last_index := bitmap_last_index st + 1\<rparr>) low' limit count res = scan_result st low limit count res"
proof -
  have "max (bitmap_last_index st + 1) limit = max (bitmap_last_index st) limit"
    using assms(1) unat_Suc_le [OF assms(1)] by (simp add: max_def word_le_nat_alt word_less_nat_alt)
  then show ?thesis unfolding scan_result_def free_run_last assms(2) by simp
qed

lemma allocate_internal_correct:
  assumes "limit \<le> bsize (phys_bitmap st)" "i < count" "unat i \<le> unat (bitmap_last_index st)"
    and "free_run st (unat (bitmap_last_index st) - unat i) (unat i)"
  shows "scan_result st (unat (bitmap_last_index st) - unat i) limit count (allocate_internal st count limit i)"
  using assms
proof (induction st count limit i rule: allocate_internal.induct)
  case (1 st count limit i)
  let ?L = "bitmap_last_index st" and ?c = "unat count"
  let ?st = "st\<lparr>bitmap_last_index := ?L + 1\<rparr>" and ?low = "unat ?L - unat i"
  have ic: "unat i < ?c" using 1(4) by (simp add: word_less_nat_alt)
  show ?case
  proof (cases "?L < limit")
    case False
    then have "\<not> fits st ?low (unat limit) ?c p" for p
      using ic 1(5) by (auto simp: fits_def word_less_nat_alt)
    moreover have "max ?L limit = ?L" using False by simp
    ultimately show ?thesis using False by (subst allocate_internal.simps) (simp add: scan_result_def)
  next
    case True
    have L: "unat (?L + 1) = Suc (unat ?L)" using unat_Suc_le [OF True] .
    have "?L < bsize (phys_bitmap ?st)" using True 1(3) by simp
    from bitmap_bit_at [OF this] have bit: "bitmap_bit (pmem ?st) (phys_bitmap ?st) ?L = Some (used st (unat ?L))"
      by (simp add: used_def)
    have unf: "allocate_internal st count limit i =
      (if used st (unat ?L) then allocate_internal ?st count limit 0
       else if i + 1 = count
       then case mark_range ?st (?L + 1 - count) (?L + 1) BITMAP_USED of Inl e \<Rightarrow> Inl e
            | Inr st \<Rightarrow> Inr (st, (?L + 1 - count) * PAGE_SIZE)
       else allocate_internal ?st count limit (i + 1))"
      using True bit by (subst allocate_internal.simps) (simp add: mark_bool_def Let_def)
    show ?thesis
    proof (cases "used st (unat ?L)")
      case used: True
      have "scan_result ?st (Suc (unat ?L)) limit count (allocate_internal ?st count limit 0)"
        using 1(2) [OF True refl refl bit] 1(3) used ic L by (simp add: mark_bool_def word_less_nat_alt)
      moreover have "fits st (Suc (unat ?L)) (unat limit) ?c p = fits st ?low (unat limit) ?c p" for p
        using used ic by (auto simp: fits_def free_run_def not_less_eq_eq [symmetric])
      ultimately show ?thesis using scan_result_advance [OF True] used unf by simp
    next
      case free: False
      show ?thesis
      proof (cases "i + 1 = count")
        case last: True
        then have c: "?c = Suc (unat i)" using unat_Suc_le [OF 1(4)] by simp
        have fit: "fits st ?low (unat limit) ?c ?low"
          using 1(5,6) free c True by (simp add: fits_def free_run_Suc word_less_nat_alt)
        have e: "?low + ?c = Suc (unat ?L)" using c 1(5) by simp
        then have e': "of_nat (?low + ?c) = ?L + 1" by (metis L u64_of_nat_unat)
        then have page: "?L + 1 - count = of_nat ?low" by (metis add_diff_cancel_right' of_nat_add u64_of_nat_unat)
        have "unat (?L + 1 - count) = ?low"
          unfolding page using unat_lt64 [of ?L] by (intro unat_of_nat64) linarith
        moreover have "?L + 1 \<le> bsize (phys_bitmap ?st)"
          using True 1(3) L by (simp add: word_le_nat_alt word_less_nat_alt)
        ultimately have "mark_range ?st (?L + 1 - count) (?L + 1) BITMAP_USED =
            Inr (mark_pages ?low (?low + ?c) True ?st)"
          by (simp add: mark_range_correct mark_bool_def L e)
        then have "allocate_internal st count limit i =
            Inr (mark_pages ?low (?low + ?c) True (st\<lparr>bitmap_last_index := of_nat (?low + ?c)\<rparr>), of_nat ?low * PAGE_SIZE)"
          unfolding unf e' page using free last by simp
        moreover have "?low \<le> p'" if "fits st ?low (unat limit) ?c p'" for p' using that by (simp add: fits_def)
        ultimately show ?thesis using fit unfolding scan_result_def by blast
      next
        case False
        then have i1: "unat (i + 1) = Suc (unat i)" "i + 1 < count"
          using unat_Suc_le [OF 1(4)] ic by (auto simp: word_less_nat_alt word_unat_eq_iff)
        have "scan_result ?st ?low limit count (allocate_internal ?st count limit (i + 1))"
          using 1(1) [OF True refl refl bit _ False] 1(3,5,6) free L i1
          by (simp add: mark_bool_def free_run_Suc)
        then show ?thesis using scan_result_advance [OF True] free False unf by simp
      qed
    qed
  qed
qed

subsection \<open>The invariant of the allocator\<close>

definition page_addr :: "u64 \<Rightarrow> nat \<Rightarrow> u64" where
  "page_addr hhdm p = hhdm + of_nat (4096 * p)"

text \<open>The bytes of the bitmap's buffer, and the pages that hold some of them.\<close>

definition in_bitmap :: "phys \<Rightarrow> u64 \<Rightarrow> bool" where
  "in_bitmap st x \<longleftrightarrow> unat (x - buffer (phys_bitmap st)) < (unat (bsize (phys_bitmap st)) + 7) div 8"

definition bitmap_page :: "u64 \<Rightarrow> phys \<Rightarrow> nat \<Rightarrow> bool" where
  "bitmap_page hhdm st p \<longleftrightarrow> (\<exists>x. in_bitmap st x \<and> unat (x - page_addr hhdm p) < 4096)"

definition free_count :: "phys \<Rightarrow> nat" where
  "free_count st = card {p. p < page_limit st \<and> \<not> used st p}"

text \<open>
  Between operations the lock is free; the bitmap covers all pages below the limit; page 0 and the
  pages that hold the bitmap are marked used; the direct map of the pages fits above the offset; and
  the statistics count the free bits.
\<close>

definition phys_layout :: "u64 \<Rightarrow> phys \<Rightarrow> bool" where
  "phys_layout hhdm st \<longleftrightarrow> page_limit st \<le> unat (bsize (phys_bitmap st)) \<and>
     4096 dvd unat hhdm \<and> 4096 * page_limit st \<le> unat hhdm \<and>
     unat hhdm + 4096 * page_limit st \<le> 18446744073709551616"

definition phys_inv :: "u64 \<Rightarrow> phys \<Rightarrow> bool" where
  "phys_inv hhdm st \<longleftrightarrow> phys_layout hhdm st \<and> \<not> is_locked (phys_lock st) \<and>
     unat (bitmap_last_index st) \<le> page_limit st \<and> used st 0 \<and>
     (\<forall>p < page_limit st. bitmap_page hhdm st p \<longrightarrow> used st p) \<and>
     free_pages (phys_stats st) = of_nat (free_count st) \<and>
     used_pages (phys_stats st) + free_pages (phys_stats st) = usable_pages (phys_stats st)"

lemma phys_layoutD:
  assumes "phys_layout hhdm st"
  shows "page_limit st \<le> unat (bsize (phys_bitmap st))" "4096 dvd unat hhdm" "4096 * page_limit st \<le> unat hhdm"
    "unat hhdm + 4096 * page_limit st \<le> 18446744073709551616"
  using assms unfolding phys_layout_def by blast+

lemma phys_invD:
  assumes "phys_inv hhdm st"
  shows "phys_layout hhdm st" "\<not> is_locked (phys_lock st)" "unat (bitmap_last_index st) \<le> page_limit st" "used st 0"
    "p < page_limit st \<Longrightarrow> bitmap_page hhdm st p \<Longrightarrow> used st p"
    "free_pages (phys_stats st) = of_nat (free_count st)"
    "used_pages (phys_stats st) + free_pages (phys_stats st) = usable_pages (phys_stats st)"
  using assms unfolding phys_inv_def by blast+

lemma phys_invI:
  assumes "phys_layout hhdm st" "\<not> is_locked (phys_lock st)" "unat (bitmap_last_index st) \<le> page_limit st" "used st 0"
    "\<And>p. p < page_limit st \<Longrightarrow> bitmap_page hhdm st p \<Longrightarrow> used st p"
    "free_pages (phys_stats st) = of_nat (free_count st)"
    "used_pages (phys_stats st) + free_pages (phys_stats st) = usable_pages (phys_stats st)"
  shows "phys_inv hhdm st"
  using assms unfolding phys_inv_def by blast

lemma page_limit_bound: "page_limit st < 4503599627370496"
proof -
  have "page_limit st = unat (highest_usable_addr (phys_stats st)) div 4096"
    by (simp add: page_limit_def PAGE_SIZE_def unat_div_distrib)
  also have "\<dots> < 4503599627370496"
    using unat_lt64 [of "highest_usable_addr (phys_stats st)"] by (intro less_mult_imp_div_less) linarith
  finally show ?thesis .
qed

lemma page_addr_off:
  assumes "unat (x - page_addr hhdm p) < 4096 * c" "p + c < 4503599627370496"
  shows "\<exists>k < c. unat (x - page_addr hhdm (p + k)) < 4096"
proof -
  define d k where "d = unat (x - page_addr hhdm p)" and "k = d div 4096"
  have k: "k < c" "d = 4096 * k + d mod 4096" using assms(1) by (simp_all add: d_def k_def div_less_iff_less_mult mult.commute)
  have e: "page_addr hhdm (p + k) = page_addr hhdm p + of_nat (4096 * k)"
    by (simp add: page_addr_def add.assoc distrib_left)
  have "4096 * k < 18446744073709551616" using k(1) assms(2) by linarith
  from unat_off [OF this, of x "page_addr hhdm p"]
  have "unat (x - page_addr hhdm (p + k)) = d - 4096 * k" using k(2) unfolding e d_def [symmetric] by simp
  then have "unat (x - page_addr hhdm (p + k)) < 4096" using k(2) by simp
  then show ?thesis using k(1) by blast
qed

lemma bit_at_cong_outside:
  assumes "\<And>x. in_bitmap st x \<Longrightarrow> m' x = pmem st x" "q < unat (bsize (phys_bitmap st))"
  shows "bit_at m' (buffer (phys_bitmap st)) q = used st q"
proof -
  have "q div 8 \<le> q" by simp
  then have "unat (of_nat (q div 8) :: u64) = q div 8"
    using less_trans [OF assms(2) unat_lt64] by (intro unat_of_nat64) (rule le_less_trans)
  moreover have "q div 8 < (unat (bsize (phys_bitmap st)) + 7) div 8" using assms(2) by linarith
  ultimately have "in_bitmap st (buffer (phys_bitmap st) + of_nat (q div 8))" by (simp add: in_bitmap_def)
  then show ?thesis using assms(1) by (simp add: used_def bit_at_def)
qed

lemma page_ret:
  assumes "p < 4503599627370496"
  shows "unat (of_nat p * PAGE_SIZE) = 4096 * p" "of_nat p * PAGE_SIZE = of_nat (4096 * p)"
proof -
  show e: "of_nat p * PAGE_SIZE = (of_nat (4096 * p) :: u64)" by (simp add: PAGE_SIZE_def mult.commute)
  show "unat (of_nat p * PAGE_SIZE) = 4096 * p" unfolding e using assms by (intro unat_of_nat64) linarith
qed

lemma unat_page_addr:
  assumes "phys_layout hhdm st" "p < page_limit st"
  shows "unat (page_addr hhdm p) = unat hhdm + 4096 * p"
proof -
  have "unat hhdm + 4096 * p < 18446744073709551616" using phys_layoutD(4) [OF assms(1)] assms(2) by linarith
  moreover have e: "unat (of_nat (4096 * p) :: u64) = 4096 * p"
    using page_limit_bound [of st] assms(2) by (intro unat_of_nat64) linarith
  ultimately show ?thesis
    using unat_add64 [of hhdm "of_nat (4096 * p)"] unfolding page_addr_def e by blast
qed

lemma higher_half_page:
  assumes "phys_layout hhdm st" "p < page_limit st"
  shows "to_higher_half hhdm (of_nat p * PAGE_SIZE) = page_addr hhdm p"
proof -
  have p: "p < 4503599627370496" using assms(2) page_limit_bound [of st] by linarith
  have "4096 * p < unat hhdm" using phys_layoutD(3) [OF assms(1)] assms(2) by linarith
  then have "to_higher_half hhdm (of_nat p * PAGE_SIZE) = of_nat p * PAGE_SIZE + hhdm"
    using page_ret(1) [OF p] by (simp add: to_higher_half_def is_higher_half_def word_le_nat_alt)
  then show ?thesis unfolding page_ret(2) [OF p] page_addr_def by (simp only: add.commute)
qed

lemma clear_pages:
  assumes "phys_layout hhdm st" "p + unat count \<le> page_limit st" "count \<noteq> 0"
  shows "fst (memset m (to_higher_half hhdm (of_nat p * PAGE_SIZE)) 0 (count * PAGE_SIZE)) =
    fill_bytes m (page_addr hhdm p) 0 (4096 * unat count)"
proof -
  have lim: "p + unat count < 4503599627370496" using assms(2) page_limit_bound [of st] by (rule le_less_trans)
  have c: "0 < unat count" using assms(3) by (simp add: unat_gt_0)
  have h: "4096 dvd unat hhdm" "4096 * page_limit st \<le> unat hhdm" "unat hhdm + 4096 * page_limit st \<le> 18446744073709551616"
    using assms(1) unfolding phys_layout_def by blast+
  have cl: "unat count < 4503599627370496" "p < 4503599627370496" using lim by linarith+
  have n: "unat (count * PAGE_SIZE) = 4096 * unat count"
    using page_ret(1) [OF cl(1)] by (simp only: u64_of_nat_unat)
  have pl: "p < page_limit st" using assms(2) c by linarith
  note a = higher_half_page [OF assms(1) pl]
  have "unat (page_addr hhdm p) = unat hhdm + 4096 * p" using assms(1) pl by (rule unat_page_addr)
  moreover have "8 dvd unat hhdm + 4096 * p"
    using h(1) by (intro dvd_add dvd_trans [of 8 4096 "unat hhdm"] dvd_mult2) simp_all
  ultimately have "8 dvd unat (page_addr hhdm p)" by simp
  then have al: "(8 - unat (page_addr hhdm p) mod 8) mod 8 = 0" by simp
  have "4096 * unat count < 18446744073709551609" using cl(1) by linarith
  then have "unat (count * PAGE_SIZE) < 18446744073709551609" unfolding n .
  from memset_fill [OF this, of m "page_addr hhdm p" 0] show ?thesis unfolding a n al by simp
qed

subsection \<open>Allocation\<close>

text \<open>The state after \<open>count\<close> pages from page \<open>p\<close> on have been granted.\<close>

definition granted :: "u64 \<Rightarrow> phys \<Rightarrow> nat \<Rightarrow> u64 \<Rightarrow> phys" where
  "granted hhdm st p count =
     (let st1 = mark_pages p (p + unat count) True st; s = phys_stats st
      in st\<lparr>pmem := fill_bytes (pmem st1) (page_addr hhdm p) 0 (4096 * unat count),
            bitmap_last_index := of_nat (p + unat count),
            phys_stats := s\<lparr>used_pages := used_pages s + count, free_pages := free_pages s - count\<rparr>,
            phys_lock := \<lparr>next_ticket = next_ticket (phys_lock st) + 1, serving_ticket = serving_ticket (phys_lock st) + 1\<rparr>\<rparr>)"

lemma same_geometry:
  assumes "phys_bitmap st' = phys_bitmap st" "highest_usable_addr (phys_stats st') = highest_usable_addr (phys_stats st)"
  shows "page_limit st' = page_limit st" "in_bitmap st' = in_bitmap st" "phys_layout hhdm st' = phys_layout hhdm st"
    "bitmap_page hhdm st' = bitmap_page hhdm st"
proof -
  show p: "page_limit st' = page_limit st" unfolding page_limit_def assms ..
  show i: "in_bitmap st' = in_bitmap st" unfolding in_bitmap_def assms ..
  show "phys_layout hhdm st' = phys_layout hhdm st" unfolding phys_layout_def p assms ..
  show "bitmap_page hhdm st' = bitmap_page hhdm st" unfolding bitmap_page_def i ..
qed

lemma granted_fields [simp]:
  "phys_bitmap (granted hhdm st p count) = phys_bitmap st"
  "highest_usable_addr (phys_stats (granted hhdm st p count)) = highest_usable_addr (phys_stats st)"
  "\<not> is_locked (phys_lock (granted hhdm st p count)) \<longleftrightarrow> \<not> is_locked (phys_lock st)"
  "bitmap_last_index (granted hhdm st p count) = of_nat (p + unat count)"
  "used_pages (phys_stats (granted hhdm st p count)) = used_pages (phys_stats st) + count"
  "free_pages (phys_stats (granted hhdm st p count)) = free_pages (phys_stats st) - count"
  "usable_pages (phys_stats (granted hhdm st p count)) = usable_pages (phys_stats st)"
  by (simp_all add: granted_def is_locked_def Let_def)

lemmas granted_geometry [simp] = same_geometry [OF granted_fields(1,2)]

lemma run_misses_bitmap:
  assumes "phys_inv hhdm st" "fits st 0 (page_limit st) c p" "in_bitmap st x"
  shows "\<not> unat (x - page_addr hhdm p) < 4096 * c"
proof
  assume "unat (x - page_addr hhdm p) < 4096 * c"
  moreover have lim: "p + c \<le> page_limit st" using assms(2) by (simp add: fits_def)
  ultimately obtain k where k: "k < c" "unat (x - page_addr hhdm (p + k)) < 4096"
    using page_addr_off le_less_trans [OF lim page_limit_bound] by blast
  then have "bitmap_page hhdm st (p + k)" using assms(3) by (auto simp: bitmap_page_def)
  moreover have "p + k < page_limit st" using lim k(1) by linarith
  ultimately have "used st (p + k)" using phys_invD(5) [OF assms(1)] by blast
  then show False using assms(2) k(1) by (simp add: fits_def free_run_def)
qed

lemma used_granted:
  assumes "phys_inv hhdm st" "fits st 0 (page_limit st) (unat count) p" "q < page_limit st"
  shows "used (granted hhdm st p count) q \<longleftrightarrow> used st q \<or> (p \<le> q \<and> q < p + unat count)"
proof -
  let ?st1 = "mark_pages p (p + unat count) True st"
  have lim: "page_limit st \<le> unat (bsize (phys_bitmap st))" "p + unat count \<le> page_limit st"
    using phys_layoutD(1) [OF phys_invD(1) [OF assms(1)]] assms(2) by (simp_all add: fits_def)
  have b: "page_limit st < 18446744073709551616" using page_limit_bound [of st] by linarith
  have e: "phys_bitmap ?st1 = phys_bitmap st" "in_bitmap ?st1 = in_bitmap st" by (simp_all add: in_bitmap_def fun_eq_iff)
  have "fill_bytes (pmem ?st1) (page_addr hhdm p) 0 (4096 * unat count) x = pmem ?st1 x" if "in_bitmap ?st1 x" for x
    using run_misses_bitmap [OF assms(1,2)] that by (simp add: fill_bytes_def e)
  moreover have "q < unat (bsize (phys_bitmap ?st1))" using assms(3) lim by simp
  ultimately have "bit_at (fill_bytes (pmem ?st1) (page_addr hhdm p) 0 (4096 * unat count)) (buffer (phys_bitmap ?st1)) q = used ?st1 q"
    by (rule bit_at_cong_outside)
  moreover have "used ?st1 q = (if p \<le> q \<and> q < p + unat count then True else used st q)"
    using b lim assms(3) by (intro used_mark_pages) linarith+
  ultimately show ?thesis by (auto simp: used_def granted_def Let_def)
qed

lemma granted_mem:
  assumes "phys_inv hhdm st" "p + unat count \<le> page_limit st" "\<not> in_bitmap st x"
  shows "pmem (granted hhdm st p count) x = (if unat (x - page_addr hhdm p) < 4096 * unat count then 0 else pmem st x)"
proof -
  let ?n = "(unat (bsize (phys_bitmap st)) + 7) div 8"
  have "p + unat count \<le> 8 * ?n"
    using assms(2) phys_layoutD(1) [OF phys_invD(1) [OF assms(1)]] by linarith
  moreover have "?n \<le> unat (x - buffer (phys_bitmap st))" using assms(3) by (simp add: in_bitmap_def not_less)
  ultimately have "pmem (mark_pages p (p + unat count) True st) x = pmem st x"
    using bytes_lt64 by (rule mark_pages_frame)
  then show ?thesis by (simp add: granted_def fill_bytes_def Let_def)
qed

lemma free_count_granted:
  assumes "phys_inv hhdm st" "fits st 0 (page_limit st) (unat count) p"
  shows "free_count st = free_count (granted hhdm st p count) + unat count"
proof -
  have run: "{p..<p + unat count} \<subseteq> {q. q < page_limit st \<and> \<not> used st q}"
    using assms(2) by (auto simp: fits_def free_run_def)
  have "{q. q < page_limit st \<and> \<not> used (granted hhdm st p count) q} =
      {q. q < page_limit st \<and> \<not> used st q} - {p..<p + unat count}"
    using used_granted [OF assms] by auto
  moreover have "unat count \<le> card {q. q < page_limit st \<and> \<not> used st q}"
    using card_mono [OF _ run] by simp
  ultimately show ?thesis using run by (simp add: free_count_def card_Diff_subset)
qed

lemma used_0_below: "phys_inv hhdm st \<Longrightarrow> fits st 0 (page_limit st) c p \<Longrightarrow> 0 < c \<Longrightarrow> 0 < page_limit st \<and> p \<noteq> 0"
  using phys_invD(4) [of hhdm st] by (auto simp: fits_def free_run_def)

lemma phys_inv_granted:
  assumes "phys_inv hhdm st" "fits st 0 (page_limit st) (unat count) p" "count \<noteq> 0"
  shows "phys_inv hhdm (granted hhdm st p count)"
proof (rule phys_invI)
  note inv = phys_invD [OF assms(1)]
  have lim: "p + unat count \<le> page_limit st" "page_limit st < 18446744073709551616"
    using assms(2) page_limit_bound [of st] by (simp add: fits_def, linarith)
  have "unat (of_nat (p + unat count) :: u64) = p + unat count" using le_less_trans [OF lim] by (rule unat_of_nat64)
  then show "unat (bitmap_last_index (granted hhdm st p count)) \<le> page_limit (granted hhdm st p count)"
    using lim(1) by (simp only: granted_fields granted_geometry)
  show "used (granted hhdm st p count) 0"
    using used_granted [OF assms(1,2)] used_0_below [OF assms(1,2)] inv(4) assms(3) by (simp add: unat_gt_0)
  show "used (granted hhdm st p count) q" if "q < page_limit (granted hhdm st p count)" "bitmap_page hhdm (granted hhdm st p count) q" for q
    using used_granted [OF assms(1,2)] inv(5) that by simp
  show "free_pages (phys_stats (granted hhdm st p count)) = of_nat (free_count (granted hhdm st p count))"
    using inv(6) free_count_granted [OF assms(1,2)] by simp
  show "used_pages (phys_stats (granted hhdm st p count)) + free_pages (phys_stats (granted hhdm st p count)) =
      usable_pages (phys_stats (granted hhdm st p count))"
    using inv(7) by (simp add: algebra_simps)
qed (use phys_invD [OF assms(1)] in simp_all)

lemma fits_lock [simp]:
  "fits (st\<lparr>phys_lock := l\<rparr>) = fits st" "free_run (st\<lparr>phys_lock := l\<rparr>) = free_run st"
  by (simp_all add: fits_def free_run_def used_def fun_eq_iff)

text \<open>A place the allocator can find: it lies entirely above or entirely below the last index.\<close>

definition findable :: "phys \<Rightarrow> nat \<Rightarrow> nat \<Rightarrow> bool" where
  "findable st c p \<longleftrightarrow> fits st 0 (page_limit st) c p \<and>
     (unat (bitmap_last_index st) \<le> p \<or> p + c \<le> unat (bitmap_last_index st))"

lemma physical_allocate_cases:
  assumes "phys_inv hhdm st" "count \<noteq> 0"
  shows "(\<exists>p. findable st (unat count) p \<and> physical_allocate hhdm st count = Inr (granted hhdm st p count, of_nat p * PAGE_SIZE)) \<or>
    (\<not> (\<exists>p. findable st (unat count) p) \<and> physical_allocate hhdm st count = Inl Out_of_memory)"
proof -
  note inv = phys_invD [OF assms(1)]
  let ?c = "unat count" and ?idx = "bitmap_last_index st" and ?lim = "highest_usable_addr (phys_stats st) div PAGE_SIZE"
  define l where "l = (phys_lock st)\<lparr>next_ticket := next_ticket (phys_lock st) + 1\<rparr>"
  define st0 where "st0 = st\<lparr>phys_lock := l\<rparr>"
  define fin where "fin = (\<lambda>(s, ret). let s = s\<lparr>pmem := fst (memset (pmem s) (to_higher_half hhdm ret) 0 (count * PAGE_SIZE))\<rparr>;
       stats = phys_stats s; stats = stats\<lparr>used_pages := used_pages stats + count, free_pages := free_pages stats - count\<rparr>;
       s = s\<lparr>phys_stats := stats, phys_lock := unlock_seq (phys_lock s)\<rparr> in (Inr (s, ret) :: phys_error + phys \<times> u64))"
  have lock: "lock_seq (phys_lock st) = Inr l"
    using inv(2) by (auto simp: lock_seq_def is_locked_def l_def Let_def)
  have unlock: "unlock_seq l = \<lparr>next_ticket = next_ticket (phys_lock st) + 1, serving_ticket = serving_ticket (phys_lock st) + 1\<rparr>"
    using inv(2) by (simp add: unlock_seq_def is_locked_def l_def Let_def)
  have unf: "physical_allocate hhdm st count =
    (case allocate_internal st0 count ?lim 0 of Inl e \<Rightarrow> Inl e
     | Inr (s, ret) \<Rightarrow>
        (case (if ret = 0 then case allocate_internal (s\<lparr>bitmap_last_index := 0\<rparr>) count ?idx 0 of Inl e \<Rightarrow> Inl e
                 | Inr (s, ret) \<Rightarrow> if ret = 0 then Inl Out_of_memory else Inr (s, ret)
               else Inr (s, ret)) of Inl e \<Rightarrow> Inl e | Inr r \<Rightarrow> fin r))"
    using assms(2) by (simp add: physical_allocate_def lock st0_def fin_def Let_def split: sum.split)
  have fin: "fin (mark_pages p (p + ?c) True (st0\<lparr>bitmap_last_index := of_nat (p + ?c)\<rparr>), of_nat p * PAGE_SIZE) =
      Inr (granted hhdm st p count, of_nat p * PAGE_SIZE)" if "p + ?c \<le> page_limit st" for p
    using clear_pages [OF inv(1) that assms(2)] unlock
    by (simp add: fin_def granted_def st0_def mark_pages_def Let_def del: of_nat_add)
  have nz: "of_nat p * PAGE_SIZE \<noteq> 0" if "fits st 0 (page_limit st) ?c p" for p
  proof -
    have "p \<noteq> 0" using used_0_below [OF assms(1) that] assms(2) by (simp add: unat_gt_0)
    moreover have "p + ?c \<le> page_limit st" using that by (simp add: fits_def)
    then have "p < 4503599627370496" using page_limit_bound [of st] by linarith
    ultimately have "unat (of_nat p * PAGE_SIZE) \<noteq> 0" using page_ret(1) [of p] by linarith
    then show ?thesis using unat_0 by metis
  qed
  have c0: "0 < count" using assms(2) by (simp add: word_gt_0)
  have lim: "unat ?lim = page_limit st" by (simp add: page_limit_def)
  have "?lim \<le> bsize (phys_bitmap st0)" "?idx \<le> bsize (phys_bitmap st0)"
    using phys_layoutD(1) [OF inv(1)] inv(3) lim by (simp_all add: word_le_nat_alt st0_def)
  note bounds = this
  have scan1: "scan_result st0 (unat ?idx) ?lim count (allocate_internal st0 count ?lim 0)"
    using allocate_internal_correct [OF bounds(1) c0] by (simp add: st0_def)
  have low: "fits st0 low n c p \<Longrightarrow> n \<le> page_limit st \<Longrightarrow> fits st 0 (page_limit st) c p" for low n c p
    by (auto simp: fits_def st0_def)
  show ?thesis
  proof (cases "\<exists>p. fits st0 (unat ?idx) (page_limit st) ?c p")
    case True
    then obtain p where p: "fits st0 (unat ?idx) (page_limit st) ?c p"
      "allocate_internal st0 count ?lim 0 = Inr (mark_pages p (p + ?c) True (st0\<lparr>bitmap_last_index := of_nat (p + ?c)\<rparr>), of_nat p * PAGE_SIZE)"
      using scan1 unfolding scan_result_def lim by blast
    have f: "fits st 0 (page_limit st) ?c p" using low [OF p(1)] by simp
    then have "p + ?c \<le> page_limit st" by (simp add: fits_def)
    then have "physical_allocate hhdm st count = Inr (granted hhdm st p count, of_nat p * PAGE_SIZE)"
      using unf nz [OF f] fin [of p] unfolding p(2) by simp
    moreover have "findable st ?c p" using f p(1) by (simp add: findable_def fits_def)
    ultimately show ?thesis by blast
  next
    case False
    then have r1: "allocate_internal st0 count ?lim 0 = Inr (st0\<lparr>bitmap_last_index := max ?idx ?lim\<rparr>, 0)"
      using scan1 unfolding scan_result_def lim by (auto simp: st0_def)
    let ?st1 = "st0\<lparr>bitmap_last_index := 0\<rparr>"
    have scan2: "scan_result ?st1 0 ?idx count (allocate_internal ?st1 count ?idx 0)"
      using allocate_internal_correct [of ?idx ?st1 0 count] bounds(2) c0 by simp
    show ?thesis
    proof (cases "\<exists>p. fits st0 0 (unat ?idx) ?c p")
      case True
      then obtain p where p: "fits st0 0 (unat ?idx) ?c p"
        "allocate_internal ?st1 count ?idx 0 = Inr (mark_pages p (p + ?c) True (st0\<lparr>bitmap_last_index := of_nat (p + ?c)\<rparr>), of_nat p * PAGE_SIZE)"
        using scan2 unfolding scan_result_def by auto
      have f: "fits st 0 (page_limit st) ?c p" using low [OF p(1) inv(3)] .
      then have "p + ?c \<le> page_limit st" by (simp add: fits_def)
      then have "physical_allocate hhdm st count = Inr (granted hhdm st p count, of_nat p * PAGE_SIZE)"
        using unf nz [OF f] fin [of p] p(2) unfolding r1 by simp
      moreover have "findable st ?c p" using f p(1) by (simp add: findable_def fits_def)
      ultimately show ?thesis by blast
    next
      case none: False
      then have "physical_allocate hhdm st count = Inl Out_of_memory"
        using unf r1 scan2 unfolding scan_result_def by auto
      moreover have "\<not> findable st ?c p" for p
        using False none by (auto simp: findable_def fits_def st0_def)
      ultimately show ?thesis by blast
    qed
  qed
qed

subsection \<open>Release\<close>

definition taken :: "phys \<Rightarrow> nat set" where
  "taken st = {q. q < page_limit st \<and> used st q}"

text \<open>Page 0 and the pages of the bitmap are never handed out.\<close>

definition reserved :: "u64 \<Rightarrow> phys \<Rightarrow> nat set" where
  "reserved hhdm st = {q. q < page_limit st \<and> (q = 0 \<or> bitmap_page hhdm st q)}"

definition pages_of :: "u64 \<Rightarrow> u64 \<Rightarrow> nat set" where
  "pages_of a count = {unat a div 4096 ..< unat a div 4096 + unat count}"

definition released :: "phys \<Rightarrow> nat \<Rightarrow> u64 \<Rightarrow> phys" where
  "released st p count =
     (let s = phys_stats st
      in (mark_pages p (p + unat count) False st)
           \<lparr>phys_stats := s\<lparr>used_pages := used_pages s - count, free_pages := free_pages s + count\<rparr>,
            phys_lock := \<lparr>next_ticket = next_ticket (phys_lock st) + 1, serving_ticket = serving_ticket (phys_lock st) + 1\<rparr>\<rparr>)"

lemma released_fields [simp]:
  "phys_bitmap (released st p count) = phys_bitmap st"
  "highest_usable_addr (phys_stats (released st p count)) = highest_usable_addr (phys_stats st)"
  "\<not> is_locked (phys_lock (released st p count)) \<longleftrightarrow> \<not> is_locked (phys_lock st)"
  "bitmap_last_index (released st p count) = bitmap_last_index st"
  "used_pages (phys_stats (released st p count)) = used_pages (phys_stats st) - count"
  "free_pages (phys_stats (released st p count)) = free_pages (phys_stats st) + count"
  "usable_pages (phys_stats (released st p count)) = usable_pages (phys_stats st)"
  by (simp_all add: released_def is_locked_def Let_def)

lemmas released_geometry [simp] = same_geometry [OF released_fields(1,2)]

lemma used_released:
  assumes "p + unat count \<le> page_limit st" "q < page_limit st"
  shows "used (released st p count) q \<longleftrightarrow> used st q \<and> \<not> (p \<le> q \<and> q < p + unat count)"
proof -
  have "used (mark_pages p (p + unat count) False st) q = (if p \<le> q \<and> q < p + unat count then False else used st q)"
    using assms page_limit_bound [of st] by (intro used_mark_pages) linarith+
  moreover have "used (released st p count) q = used (mark_pages p (p + unat count) False st) q"
    by (simp add: used_def released_def Let_def)
  ultimately show ?thesis by auto
qed

lemma physical_free_released:
  assumes "phys_inv hhdm st" "unat ptr div 4096 + unat count \<le> page_limit st" "ptr \<noteq> 0"
  shows "physical_free st ptr count = Inr (released st (unat ptr div 4096) count)"
proof -
  note inv = phys_invD [OF assms(1)]
  have p: "unat (ptr div PAGE_SIZE) = unat ptr div 4096" by (simp add: PAGE_SIZE_def unat_div_distrib)
  have e: "unat (ptr div PAGE_SIZE + count) = unat ptr div 4096 + unat count"
    using assms(2) page_limit_bound [of st] unfolding p [symmetric] by (intro unat_add64) linarith
  have "ptr div PAGE_SIZE + count \<le> bsize (phys_bitmap st)"
    using assms(2) phys_layoutD(1) [OF inv(1)] unfolding word_le_nat_alt e by (rule order_trans)
  then show ?thesis
    using inv(2) assms(3)
    by (simp add: physical_free_def lock_seq_def unlock_seq_def is_locked_def mark_range_correct mark_bool_def p e
        released_def Let_def) (simp add: mark_pages_def)
qed

lemma free_count_released:
  assumes "p + unat count \<le> page_limit st" "\<And>q. p \<le> q \<Longrightarrow> q < p + unat count \<Longrightarrow> used st q"
  shows "free_count (released st p count) = free_count st + unat count"
proof -
  have "{q. q < page_limit st \<and> \<not> used (released st p count) q} =
      {q. q < page_limit st \<and> \<not> used st q} \<union> {p..<p + unat count}"
    using used_released [OF assms(1)] assms by auto
  moreover have "{q. q < page_limit st \<and> \<not> used st q} \<inter> {p..<p + unat count} = {}" using assms(2) by auto
  ultimately show ?thesis by (simp add: free_count_def card_Un_disjoint)
qed

lemma phys_inv_released:
  assumes "phys_inv hhdm st" "pages_of ptr count \<subseteq> taken st - reserved hhdm st" "0 < unat count"
  shows "phys_inv hhdm (released st (unat ptr div 4096) count)"
proof (rule phys_invI)
  note inv = phys_invD [OF assms(1)]
  let ?p = "unat ptr div 4096" and ?c = "unat count"
  have in_run: "q \<in> taken st" "q \<notin> reserved hhdm st" if "?p \<le> q" "q < ?p + ?c" for q
    using assms(2) that by (auto simp: pages_of_def)
  have "?p + ?c - 1 \<in> taken st" using assms(3) by (intro in_run) simp_all
  then have "?p + ?c - 1 < page_limit st" by (simp add: taken_def)
  then have lim: "?p + ?c \<le> page_limit st" using assms(3) by linarith
  have run: "used st q" "q \<noteq> 0" "\<not> bitmap_page hhdm st q" if "?p \<le> q" "q < ?p + ?c" for q
    using in_run [OF that] by (auto simp: taken_def reserved_def)
  have "0 < page_limit st" using lim assms(3) by simp
  from used_released [OF lim this] show "used (released st ?p count) 0" using inv(4) run(2) [of 0] by metis
  show "used (released st ?p count) q" if "q < page_limit (released st ?p count)" "bitmap_page hhdm (released st ?p count) q" for q
    using used_released [OF lim, of q] that inv(5) [of q] run(3) [of q] by (simp only: released_geometry) blast
  show "free_pages (phys_stats (released st ?p count)) = of_nat (free_count (released st ?p count))"
    using inv(6) free_count_released [OF lim run(1)] by simp
  show "used_pages (phys_stats (released st ?p count)) + free_pages (phys_stats (released st ?p count)) =
      usable_pages (phys_stats (released st ?p count))"
    using inv(7) by simp
qed (use phys_invD [OF assms(1)] in simp_all)

lemma taken_granted:
  assumes "phys_inv hhdm st" "fits st 0 (page_limit st) (unat count) p"
  shows "taken (granted hhdm st p count) = taken st \<union> {p..<p + unat count}"
    "reserved hhdm (granted hhdm st p count) = reserved hhdm st" "taken st \<inter> {p..<p + unat count} = {}"
  using used_granted [OF assms] assms(2) by (auto simp: taken_def reserved_def fits_def free_run_def)

lemma taken_released:
  assumes "p + unat count \<le> page_limit st"
  shows "taken (released st p count) = taken st - {p..<p + unat count}" "reserved hhdm (released st p count) = reserved hhdm st"
  using used_released [OF assms] by (auto simp: taken_def reserved_def)

subsection \<open>The interface of a page allocator\<close>

text \<open>What the page tables, the heap and the other clients of the allocator rely on.\<close>

text \<open>
  A client of the allocator: it allocates ranges and releases, in any order, ranges it holds.  The list
  of the ranges it holds grows at the end; the release of a range that is not held is not a call.
\<close>

datatype page_call = Take u64 | Give nat

fun run_pages :: "('s \<Rightarrow> u64 \<Rightarrow> 'e + 's \<times> u64) \<Rightarrow> ('s \<Rightarrow> u64 \<Rightarrow> u64 \<Rightarrow> 'e + 's) \<Rightarrow> page_call list \<Rightarrow>
    's \<times> (u64 \<times> u64) list \<Rightarrow> 'e + 's \<times> (u64 \<times> u64) list" where
  "run_pages alloc free [] (s, held) = Inr (s, held)"
| "run_pages alloc free (Take n # cs) (s, held) =
     (case alloc s n of
        Inl e \<Rightarrow> Inl e
      | Inr (s, a) \<Rightarrow> run_pages alloc free cs (s, held @ [(a, n)]))"
| "run_pages alloc free (Give i # cs) (s, held) =
     (if i < length held
      then case free s (fst (held ! i)) (snd (held ! i)) of
             Inl e \<Rightarrow> Inl e
           | Inr s \<Rightarrow> run_pages alloc free cs (s, take i held @ drop (Suc i) held)
      else run_pages alloc free cs (s, held))"

definition apart :: "u64 \<times> u64 \<Rightarrow> u64 \<times> u64 \<Rightarrow> bool" where
  "apart x y \<longleftrightarrow> pages_of (fst x) (snd x) \<inter> pages_of (fst y) (snd y) = {}"

definition held_pages :: "(u64 \<times> u64) list \<Rightarrow> nat set" where
  "held_pages held = (\<Union>x \<in> set held. pages_of (fst x) (snd x))"

lemma held_pages_append [simp]: "held_pages (xs @ ys) = held_pages xs \<union> held_pages ys"
  by (auto simp: held_pages_def)

lemma held_pages_Cons [simp]: "held_pages (x # xs) = pages_of (fst x) (snd x) \<union> held_pages xs" "held_pages [] = {}"
  by (auto simp: held_pages_def)

lemma apart_held: "(\<forall>y \<in> set ys. apart x y) \<longleftrightarrow> pages_of (fst x) (snd x) \<inter> held_pages ys = {}"
  by (auto simp: apart_def held_pages_def)

lemma apart_sym: "apart x y \<longleftrightarrow> apart y x"
  by (auto simp: apart_def)

locale page_allocator =
  fixes inv :: "'s \<Rightarrow> bool" and taken :: "'s \<Rightarrow> nat set" and reserved :: "'s \<Rightarrow> nat set"
    and alloc :: "'s \<Rightarrow> u64 \<Rightarrow> 'e + 's \<times> u64" and free :: "'s \<Rightarrow> u64 \<Rightarrow> u64 \<Rightarrow> 'e + 's"
  assumes alloc_ok: "inv s \<Longrightarrow> n \<noteq> 0 \<Longrightarrow> alloc s n = Inr (s', a) \<Longrightarrow>
      inv s' \<and> a \<noteq> 0 \<and> taken s \<inter> pages_of a n = {} \<and> taken s' = taken s \<union> pages_of a n \<and> reserved s' = reserved s"
    and free_ok: "inv s \<Longrightarrow> a \<noteq> 0 \<Longrightarrow> n \<noteq> 0 \<Longrightarrow> pages_of a n \<subseteq> taken s - reserved s \<Longrightarrow>
      \<exists>s'. free s a n = Inr s' \<and> inv s' \<and> taken s' = taken s - pages_of a n \<and> reserved s' = reserved s"
    and reserved_taken: "inv s \<Longrightarrow> reserved s \<subseteq> taken s"
begin

text \<open>The ranges that are held lie apart from each other and from the pages that were in use before.\<close>

definition holds :: "nat set \<Rightarrow> 's \<Rightarrow> (u64 \<times> u64) list \<Rightarrow> bool" where
  "holds T s held \<longleftrightarrow> inv s \<and> reserved s \<subseteq> T \<and> taken s = T \<union> held_pages held \<and> T \<inter> held_pages held = {} \<and>
     sorted_wrt apart held \<and> (\<forall>x \<in> set held. fst x \<noteq> 0 \<and> snd x \<noteq> 0)"

lemma holds_take:
  assumes "holds T s held" "n \<noteq> 0" "alloc s n = Inr (s', a)"
  shows "holds T s' (held @ [(a, n)])"
proof -
  have h: "inv s" "reserved s \<subseteq> T" "taken s = T \<union> held_pages held" "T \<inter> held_pages held = {}" "sorted_wrt apart held"
    using assms(1) by (simp_all add: holds_def)
  note a = alloc_ok [OF h(1) assms(2,3)]
  have "\<forall>x \<in> set held. apart (a, n) x" unfolding apart_held using a h(3) by auto
  then have "sorted_wrt apart (held @ [(a, n)])" using h(5) by (simp add: sorted_wrt_append apart_sym)
  then show ?thesis using a h assms by (auto simp: holds_def)
qed

lemma holds_give:
  assumes "holds T s held" "i < length held"
  shows "\<exists>s'. free s (fst (held ! i)) (snd (held ! i)) = Inr s' \<and> holds T s' (take i held @ drop (Suc i) held)"
proof -
  let ?x = "held ! i" and ?xs = "take i held" and ?ys = "drop (Suc i) held"
  have e: "held = ?xs @ ?x # ?ys" using id_take_nth_drop [OF assms(2)] .
  have h: "inv s" "reserved s \<subseteq> T" "taken s = T \<union> held_pages held" "T \<inter> held_pages held = {}" "sorted_wrt apart held"
    "fst ?x \<noteq> 0" "snd ?x \<noteq> 0" using assms by (simp_all add: holds_def)
  have p: "held_pages held = held_pages ?xs \<union> pages_of (fst ?x) (snd ?x) \<union> held_pages ?ys" by (subst e) auto
  have s: "sorted_wrt apart ?xs" "sorted_wrt apart ?ys" "\<forall>x \<in> set ?xs. apart ?x x" "\<forall>y \<in> set ?ys. apart ?x y"
    "\<forall>x \<in> set ?xs. \<forall>y \<in> set ?ys. apart x y"
    using h(5) by (subst (asm) e, simp add: sorted_wrt_append apart_sym)+
  have "pages_of (fst ?x) (snd ?x) \<subseteq> taken s - reserved s" using h(2-4) p by blast
  then obtain s' where s': "free s (fst ?x) (snd ?x) = Inr s'" "inv s'" "taken s' = taken s - pages_of (fst ?x) (snd ?x)" "reserved s' = reserved s"
    using free_ok [OF h(1,6,7)] by blast
  have "pages_of (fst ?x) (snd ?x) \<inter> (held_pages ?xs \<union> held_pages ?ys) = {}" using s(3,4) unfolding apart_held by blast
  then have "taken s' = T \<union> held_pages (?xs @ ?ys)" using s'(3) h(3,4) p by auto
  moreover have "sorted_wrt apart (?xs @ ?ys)" using s by (simp add: sorted_wrt_append)
  moreover have "\<forall>x \<in> set (?xs @ ?ys). fst x \<noteq> 0 \<and> snd x \<noteq> 0"
    using assms(1) set_take_subset [of i held] set_drop_subset [of "Suc i" held] by (auto simp: holds_def)
  ultimately show ?thesis using s' h(2,4) p by (auto simp: holds_def)
qed

lemma run_holds:
  assumes "holds T s held" "\<forall>n. Take n \<in> set cs \<longrightarrow> n \<noteq> 0"
  shows "case run_pages alloc free cs (s, held) of
      Inl e \<Rightarrow> \<exists>s' n. inv s' \<and> n \<noteq> 0 \<and> alloc s' n = Inl e
    | Inr (s', held') \<Rightarrow> holds T s' held'"
  using assms
proof (induction cs arbitrary: s held)
  case (Cons c cs)
  have cs: "\<forall>n. Take n \<in> set cs \<longrightarrow> n \<noteq> 0" using Cons.prems(2) by simp
  show ?case
  proof (cases c)
    case (Take n)
    then have n: "n \<noteq> 0" using Cons.prems(2) by simp
    show ?thesis
    proof (cases "alloc s n")
      case (Inl e)
      then show ?thesis using Take n Cons.prems(1) by (auto simp: holds_def)
    next
      case (Inr z)
      then obtain s' a where z: "alloc s n = Inr (s', a)" by (cases z) auto
      then show ?thesis using Take Cons.IH [OF holds_take [OF Cons.prems(1) n z] cs] by simp
    qed
  next
    case (Give i)
    then show ?thesis using Cons.IH [OF Cons.prems(1) cs] Cons.IH [OF _ cs] holds_give [OF Cons.prems(1), of i] by fastforce
  qed
qed simp

lemma alloc_free:
  assumes "inv s" "n \<noteq> 0" "alloc s n = Inr (s1, a)"
  shows "\<exists>s2. free s1 a n = Inr s2 \<and> inv s2 \<and> taken s2 = taken s \<and> reserved s2 = reserved s"
proof -
  note 1 = alloc_ok [OF assms]
  then have "pages_of a n \<subseteq> taken s1 - reserved s1" using reserved_taken [OF assms(1)] by blast
  then obtain s2 where "free s1 a n = Inr s2" "inv s2" "taken s2 = taken s1 - pages_of a n" "reserved s2 = reserved s1"
    using free_ok [of s1 a n] 1 assms(2) by blast
  then show ?thesis using 1 by (intro exI [of _ s2]) blast
qed

end

lemma pages_of_page: "p < 4503599627370496 \<Longrightarrow> pages_of (of_nat p * PAGE_SIZE) n = {p..<p + unat n}"
  by (simp add: pages_of_def page_ret(1) del: of_nat_mult)

lemma findableD: "findable st c p \<Longrightarrow> fits st 0 (page_limit st) c p" "findable st c p \<Longrightarrow> p + c \<le> page_limit st"
  by (simp_all add: findable_def fits_def)

lemma findable_addr:
  assumes "phys_inv hhdm st" "findable st (unat n) p" "n \<noteq> 0"
  shows "p < 4503599627370496" "of_nat p * PAGE_SIZE \<noteq> 0"
proof -
  show lt: "p < 4503599627370496" using findableD(2) [OF assms(2)] page_limit_bound [of st] by linarith
  have "p \<noteq> 0" using used_0_below [OF assms(1) findableD(1) [OF assms(2)]] assms(3) by (simp add: unat_gt_0)
  then have "unat (of_nat p * PAGE_SIZE) \<noteq> 0" using page_ret(1) [OF lt] by linarith
  then show "of_nat p * PAGE_SIZE \<noteq> 0" using unat_0 by metis
qed

interpretation physical: page_allocator "phys_inv hhdm" taken "reserved hhdm" "physical_allocate hhdm" physical_free for hhdm
proof
  fix s s' :: phys and n a :: u64
  assume inv: "phys_inv hhdm s" and n: "n \<noteq> 0" and res: "physical_allocate hhdm s n = Inr (s', a)"
  then obtain p where p: "findable s (unat n) p" "s' = granted hhdm s p n" "a = of_nat p * PAGE_SIZE"
    using physical_allocate_cases [OF inv n] by auto
  note f = findableD(1) [OF p(1)] and a = findable_addr [OF inv p(1) n]
  show "phys_inv hhdm s' \<and> a \<noteq> 0 \<and> taken s \<inter> pages_of a n = {} \<and> taken s' = taken s \<union> pages_of a n \<and>
      reserved hhdm s' = reserved hhdm s"
    unfolding p(2,3) pages_of_page [OF a(1)]
    using phys_inv_granted [OF inv f n] a(2) taken_granted [OF inv f] by blast
next
  fix s :: phys and a n :: u64
  assume inv: "phys_inv hhdm s" and a: "a \<noteq> 0" and n: "n \<noteq> 0" and sub: "pages_of a n \<subseteq> taken s - reserved hhdm s"
  let ?p = "unat a div 4096"
  have n0: "0 < unat n" using n by (simp add: unat_gt_0)
  then have "?p + unat n - 1 \<in> pages_of a n" unfolding pages_of_def by auto
  then have "?p + unat n - 1 < page_limit s" using sub by (auto simp: taken_def)
  then have lim: "?p + unat n \<le> page_limit s" using n0 by linarith
  show "\<exists>s'. physical_free s a n = Inr s' \<and> phys_inv hhdm s' \<and> taken s' = taken s - pages_of a n \<and>
      reserved hhdm s' = reserved hhdm s"
    using physical_free_released [OF inv lim a] phys_inv_released [OF inv sub n0] taken_released [OF lim]
    by (simp add: pages_of_def)
next
  fix s :: phys
  assume "phys_inv hhdm s"
  then show "reserved hhdm s \<subseteq> taken s" using phys_invD(4,5) by (auto simp: reserved_def taken_def)
qed

text \<open>One page: the allocator finds it whenever any page is free.\<close>

lemma allocate_one:
  assumes "phys_inv hhdm st"
  shows "(\<exists>p. p < page_limit st \<and> p \<notin> taken st \<and> physical_allocate hhdm st 1 = Inr (granted hhdm st p 1, of_nat p * PAGE_SIZE)) \<or>
    (free_count st = 0 \<and> physical_allocate hhdm st 1 = Inl Out_of_memory)"
proof (cases "\<exists>p. findable st 1 p")
  case True
  then obtain p where p: "findable st 1 p" "physical_allocate hhdm st 1 = Inr (granted hhdm st p 1, of_nat p * PAGE_SIZE)"
    using physical_allocate_cases [OF assms, of 1] by auto
  have "p < page_limit st" "\<not> used st p"
    using findableD [OF p(1)] by (auto simp: fits_def free_run_def)
  then show ?thesis using p(2) unfolding taken_def by blast
next
  case False
  have "used st p" if "p < page_limit st" for p
  proof (rule ccontr)
    assume "\<not> used st p"
    then have "findable st 1 p" using that by (auto simp: findable_def fits_def free_run_def less_Suc_eq)
    then show False using False by blast
  qed
  then have "{p. p < page_limit st \<and> \<not> used st p} = {}" by blast
  then have "free_count st = 0" by (simp only: free_count_def card.empty)
  moreover have "physical_allocate hhdm st 1 = Inl Out_of_memory"
    using physical_allocate_cases [OF assms, of 1] False by auto
  ultimately show ?thesis by blast
qed

lemma fits_one: "p < page_limit st \<Longrightarrow> p \<notin> taken st \<Longrightarrow> fits st 0 (page_limit st) (unat (1 :: u64)) p"
  by (auto simp: fits_def free_run_def taken_def less_Suc_eq)

text \<open>Writes outside the bitmap do not disturb the allocator.\<close>

lemma phys_inv_write:
  assumes "phys_inv hhdm st" "\<And>x. in_bitmap st x \<Longrightarrow> m' x = pmem st x" "0 < page_limit st"
  shows "phys_inv hhdm (st\<lparr>pmem := m'\<rparr>)" "taken (st\<lparr>pmem := m'\<rparr>) = taken st"
    "reserved hhdm (st\<lparr>pmem := m'\<rparr>) = reserved hhdm st" "free_count (st\<lparr>pmem := m'\<rparr>) = free_count st"
    "page_limit (st\<lparr>pmem := m'\<rparr>) = page_limit st"
proof -
  let ?st = "st\<lparr>pmem := m'\<rparr>"
  note g = same_geometry [of ?st st, simplified]
  note inv = phys_invD [OF assms(1)]
  have lim: "page_limit st \<le> unat (bsize (phys_bitmap st))" using phys_layoutD(1) [OF inv(1)] .
  have u: "used ?st q = used st q" if "q < page_limit st" for q
    using bit_at_cong_outside [of st m' q] assms(2) less_le_trans [OF that lim] by (simp add: used_def)
  show t: "taken ?st = taken st" using u g by (auto simp: taken_def)
  show "reserved hhdm ?st = reserved hhdm st" by (simp add: reserved_def g)
  show f: "free_count ?st = free_count st" unfolding free_count_def g using u by (metis (mono_tags, lifting))
  show "page_limit ?st = page_limit st" by (rule g)
  have "used ?st 0" using u [OF assms(3)] inv(4) by blast
  then show "phys_inv hhdm ?st"
    using inv u f by (intro phys_invI) (simp_all add: g)
qed

text \<open>
  C4: whenever the invariant holds, \<^verbatim>\<open>physical_allocate\<close> of a positive number of pages returns pages
  exactly if a free run lies entirely above or entirely below the last index, and panics otherwise.
  The pages it returns were all free and are marked used, no other page changes state, they are
  cleared, no byte outside them and the bitmap changes, and the invariant (the lock is free again,
  the statistics count the free bits, the bitmap is intact) holds afterwards.
\<close>

theorem physical_allocate_correct:
  assumes "phys_inv hhdm st" "count \<noteq> 0"
  shows "if \<exists>p. findable st (unat count) p
    then \<exists>p st'. findable st (unat count) p \<and> p \<noteq> 0 \<and> physical_allocate hhdm st count = Inr (st', of_nat p * PAGE_SIZE) \<and>
      phys_inv hhdm st' \<and>
      (\<forall>q < page_limit st. used st' q \<longleftrightarrow> used st q \<or> (p \<le> q \<and> q < p + unat count)) \<and>
      (\<forall>x. \<not> in_bitmap st x \<longrightarrow>
        pmem st' x = (if unat (x - page_addr hhdm p) < 4096 * unat count then 0 else pmem st x))
    else physical_allocate hhdm st count = Inl Out_of_memory"
proof (cases "\<exists>p. findable st (unat count) p")
  case False
  then show ?thesis using physical_allocate_cases [OF assms] by simp
next
  case True
  then obtain p where p: "findable st (unat count) p"
    "physical_allocate hhdm st count = Inr (granted hhdm st p count, of_nat p * PAGE_SIZE)"
    using physical_allocate_cases [OF assms] by blast
  note f = findableD(1) [OF p(1)]
  have "p \<noteq> 0" using used_0_below [OF assms(1) f] assms(2) by (simp add: unat_gt_0)
  then show ?thesis
    using p phys_inv_granted [OF assms(1) f assms(2)] used_granted [OF assms(1) f]
      granted_mem [OF assms(1) findableD(2) [OF p(1)]] by auto
qed

text \<open>
  A small machine: four pages below \<open>0x4000\<close>, of which page 0 is reserved and page 3 holds the bitmap;
  pages 1 and 2 are free.
\<close>

definition hhdm_example :: u64 where "hhdm_example = 0xFFFF800000000000"

definition phys_example :: "u64 \<Rightarrow> phys" where
  "phys_example li =
     \<lparr>phys_stats = \<lparr>highest_physical_addr = 0x4000, lowest_usable_addr = 0x1000, highest_usable_addr = 0x4000,
        total_pages = 3, usable_pages = 3, used_pages = 1, free_pages = 2\<rparr>,
      phys_bitmap = \<lparr>buffer = 0xFFFF800000003000, bsize = 8\<rparr>, phys_lock = TicketLock_init,
      bitmap_last_index = li, pmem = (\<lambda>_. 0)(0xFFFF800000003000 := 9)\<rparr>"

lemma phys_example_used: "p < 8 \<Longrightarrow> used (phys_example li) p \<longleftrightarrow> p = 0 \<or> p = 3"
  by (drule nat_lt_8_cases) (elim disjE; simp add: used_def phys_example_def bit_at_def bit_numeral_rec)

lemma phys_example_limit: "page_limit (phys_example li) = 4"
  by (simp add: page_limit_def phys_example_def PAGE_SIZE_def)

lemma phys_example_inv:
  assumes "li \<le> 4"
  shows "phys_inv hhdm_example (phys_example li)"
proof (rule phys_invI)
  let ?st = "phys_example li"
  note lim = phys_example_limit [of li]
  show "phys_layout hhdm_example ?st"
  proof -
    have u: "unat hhdm_example = 4096 * 4503565267632128" by (simp add: hhdm_example_def)
    show ?thesis unfolding phys_layout_def lim u
      by (intro conjI dvd_triv_left) (simp_all add: phys_example_def)
  qed
  show "used ?st 0" by (simp add: phys_example_used)
  show "used ?st p" if plt: "p < page_limit ?st" and bp: "bitmap_page hhdm_example ?st p" for p
  proof -
    have p4: "p < 4" using plt lim by simp
    obtain x where x: "in_bitmap ?st x" "unat (x - page_addr hhdm_example p) < 4096"
      using bp by (auto simp: bitmap_page_def)
    have "unat (x - 0xFFFF800000003000) < 1" using x(1) by (simp add: in_bitmap_def phys_example_def)
    then have "unat (x - 0xFFFF800000003000) = 0" by linarith
    then have "x - 0xFFFF800000003000 = 0" by (metis unat_eq_0)
    then have xe: "x = 0xFFFF800000003000" by simp
    have "p = 0 \<or> p = 1 \<or> p = 2 \<or> p = 3" using p4 by linarith
    then have "p = 3" using x(2) unfolding xe by (elim disjE) (simp_all add: page_addr_def hhdm_example_def)
    then show ?thesis by (simp add: phys_example_used)
  qed
  have "{p. p < page_limit ?st \<and> \<not> used ?st p} = {1, 2}"
  proof (rule set_eqI)
    fix p
    have "p < 4 \<Longrightarrow> used ?st p \<longleftrightarrow> p = 0 \<or> p = 3" by (simp add: phys_example_used)
    then show "p \<in> {p. p < page_limit ?st \<and> \<not> used ?st p} \<longleftrightarrow> p \<in> {1, 2}" unfolding lim by auto
  qed
  then show "free_pages (phys_stats ?st) = of_nat (free_count ?st)"
    by (simp add: free_count_def) (simp add: phys_example_def)
qed (use assms in \<open>simp_all add: phys_example_limit\<close>, simp_all add: phys_example_def is_locked_def TicketLock_init_def word_le_nat_alt)

lemma phys_example_fits: "fits (phys_example li) 0 4 c p \<Longrightarrow> 0 < c \<Longrightarrow> 1 \<le> p \<and> p + c \<le> 3"
proof -
  assume f: "fits (phys_example li) 0 4 c p" and c: "0 < c"
  have free: "\<not> used (phys_example li) q" if "p \<le> q" "q < p + c" for q using f that by (simp add: fits_def free_run_def)
  have pc: "p + c \<le> 4" using f by (simp add: fits_def)
  have "p \<noteq> 0" using free [of 0] c by (auto simp: phys_example_used)
  moreover have "\<not> 3 < p + c" using free [of 3] pc c by (auto simp: phys_example_used)
  ultimately show ?thesis by simp
qed

lemma phys_example_findable: "li = 1 \<Longrightarrow> c = 1 \<or> c = 2 \<Longrightarrow> findable (phys_example li) c 1"
  by (auto simp: findable_def fits_def free_run_def phys_example_limit phys_example_used)
    (simp_all add: phys_example_def)

theorem physical_allocate_correct_witness:
  "\<exists>st'. physical_allocate hhdm_example (phys_example 1) 2 = Inr (st', 0x1000) \<and> phys_inv hhdm_example st' \<and>
     used st' 1 \<and> used st' 2"
proof -
  have inv: "phys_inv hhdm_example (phys_example 1)" by (rule phys_example_inv) simp
  have "\<exists>p. findable (phys_example 1) (unat (2 :: u64)) p" using phys_example_findable [of 1 2] by auto
  then obtain p st' where p: "findable (phys_example 1) 2 p"
    "physical_allocate hhdm_example (phys_example 1) 2 = Inr (st', of_nat p * PAGE_SIZE)" "phys_inv hhdm_example st'"
    "\<forall>q < page_limit (phys_example 1). used st' q \<longleftrightarrow> used (phys_example 1) q \<or> (p \<le> q \<and> q < p + unat (2 :: u64))"
    using physical_allocate_correct [OF inv, of 2] by (auto split: if_splits)
  have "p = 1" using phys_example_fits [of 1 2 p] findableD(1) [OF p(1)] by (simp add: phys_example_limit)
  then show ?thesis using p(2-4) by (auto simp: PAGE_SIZE_def phys_example_limit)
qed

text \<open>
  The search misses free memory.  A run of free pages that straddles the last index is found by
  neither scan, since the count of consecutive pages restarts at 0 for the second scan and that scan
  stops at the index: with pages 1 and 2 free and the index between them, asking for two pages is
  \<^verbatim>\<open>Out of Physical Memory\<close>.
\<close>

theorem physical_allocate_misses_straddling_run:
  "phys_inv hhdm_example (phys_example 2) \<and> fits (phys_example 2) 0 (page_limit (phys_example 2)) 2 1 \<and>
   physical_allocate hhdm_example (phys_example 2) 2 = Inl Out_of_memory"
proof -
  have inv: "phys_inv hhdm_example (phys_example 2)" by (rule phys_example_inv) simp
  have fit: "fits (phys_example 2) 0 (page_limit (phys_example 2)) 2 1"
    by (auto simp: fits_def free_run_def phys_example_limit phys_example_used)
  have "\<not> findable (phys_example 2) 2 p" for p
    using phys_example_fits [of 2 2 p] by (auto simp: findable_def phys_example_limit) (auto simp: phys_example_def)
  then show ?thesis using physical_allocate_cases [OF inv, of 2] inv fit by simp
qed


lemma phys_example_pair:
  "\<exists>st1 a st2 b. physical_allocate hhdm_example (phys_example 1) 1 = Inr (st1, a) \<and> physical_allocate hhdm_example st1 1 = Inr (st2, b)"
proof -
  have inv: "phys_inv hhdm_example (phys_example 1)" by (rule phys_example_inv) simp
  have f: "findable (phys_example 1) 1 1" by (rule phys_example_findable) simp_all
  obtain p where p: "findable (phys_example 1) (unat (1 :: u64)) p"
      "physical_allocate hhdm_example (phys_example 1) 1 = Inr (granted hhdm_example (phys_example 1) p 1, of_nat p * PAGE_SIZE)"
    using physical_allocate_cases [OF inv, of 1] f by auto
  let ?s = "granted hhdm_example (phys_example 1) p 1"
  note g = used_granted [OF inv findableD(1) [OF p(1)]]
  have p12: "p = 1 \<or> p = 2"
    using phys_example_fits [of 1 1 p] findableD(1) [OF p(1)] by (auto simp: phys_example_limit)
  have inv1: "phys_inv hhdm_example ?s" using phys_inv_granted [OF inv findableD(1) [OF p(1)]] by simp
  have "findable ?s 1 (3 - p)"
    using p12 g by (auto simp: findable_def fits_def free_run_def phys_example_limit phys_example_used)
  then obtain s2 b where "physical_allocate hhdm_example ?s 1 = Inr (s2, b)"
    using physical_allocate_cases [OF inv1, of 1] by auto
  then show ?thesis using p(2) by blast
qed


text \<open>
  C6: freeing what was allocated always succeeds and restores the set of pages in use; in between,
  the statistics and the bitmap stay consistent.
\<close>

theorem physical_alloc_free:
  assumes "phys_inv hhdm st" "n \<noteq> 0" "physical_allocate hhdm st n = Inr (st1, a)"
  shows "\<exists>st2. physical_free st1 a n = Inr st2 \<and> phys_inv hhdm st2 \<and> taken st2 = taken st \<and> free_count st2 = free_count st"
proof -
  obtain st2 where s: "physical_free st1 a n = Inr st2" "phys_inv hhdm st2" "taken st2 = taken st"
    using physical.alloc_free [OF assms] by blast
  obtain p where p: "st1 = granted hhdm st p n" "a = of_nat p * PAGE_SIZE" "findable st (unat n) p"
    using physical_allocate_cases [OF assms(1,2)] assms(3) by auto
  have "unat a div 4096 = p" using page_ret(1) [OF findable_addr(1) [OF assms(1) p(3) assms(2)]] p(2) by simp
  then have "st2 = released st1 p n"
    using physical_free_released [of hhdm st1 a n] phys_inv_granted [OF assms(1) findableD(1) [OF p(3)] assms(2)]
      findableD(2) [OF p(3)] findable_addr(2) [OF assms(1) p(3) assms(2)] s(1) p(1,2) by simp
  then have lim: "page_limit st2 = page_limit st" using p(1) by simp
  have "{q. q < page_limit st2 \<and> \<not> used st2 q} = {q. q < page_limit st2} - taken st2"
    "{q. q < page_limit st \<and> \<not> used st q} = {q. q < page_limit st} - taken st" by (auto simp: taken_def)
  then have "free_count st2 = free_count st" unfolding free_count_def using lim s(3) by simp
  then show ?thesis using s by blast
qed

theorem physical_alloc_free_witness:
  "\<exists>st1 a st2. physical_allocate hhdm_example (phys_example 1) 2 = Inr (st1, a) \<and> physical_free st1 a 2 = Inr st2 \<and>
     taken st2 = {0, 3}"
proof -
  have inv: "phys_inv hhdm_example (phys_example 1)" by (rule phys_example_inv) simp
  have f: "findable (phys_example 1) 2 1" by (rule phys_example_findable) simp_all
  obtain s1 a where p: "physical_allocate hhdm_example (phys_example 1) 2 = Inr (s1, a)"
    using physical_allocate_cases [OF inv, of 2] f by auto
  have "taken (phys_example 1) = {0, 3}" unfolding taken_def phys_example_limit
    by (auto simp: phys_example_used)
  then show ?thesis using physical_alloc_free [OF inv _ p] p by auto
qed

end
