(* ===== verification/Page_Entry.thy ===== *)
theory Page_Entry
  imports Address
begin

text \<open>
  Page table entries and flags: \<^verbatim>\<open>mmu.hpp\<close>, the entry class of \<^verbatim>\<open>paging.hpp\<close>, the \<^verbatim>\<open>MAP_\<close> flags of
  \<^verbatim>\<open>virtual.hpp\<close>, the flag conversions of \<^verbatim>\<open>paging.cpp\<close> and the page sizes of \<^verbatim>\<open>virtual.cpp\<close>.  An entry is
  its 64-bit value.
\<close>

subsection \<open>Definitions\<close>

unbundle bit_operations_syntax

definition PAGE_FLAG_PRESENT :: u64 where "PAGE_FLAG_PRESENT = 0x1"
definition PAGE_FLAG_WRITABLE :: u64 where "PAGE_FLAG_WRITABLE = 0x2"
definition PAGE_FLAG_USER_ACCESSIBLE :: u64 where "PAGE_FLAG_USER_ACCESSIBLE = 0x4"
definition PAGE_FLAG_WRITE_THROUGH :: u64 where "PAGE_FLAG_WRITE_THROUGH = 0x8"
definition PAGE_FLAG_NO_CACHE :: u64 where "PAGE_FLAG_NO_CACHE = 0x10"
definition PAGE_FLAG_SIZE_EXTENSION :: u64 where "PAGE_FLAG_SIZE_EXTENSION = 0x80"
definition PAGE_FLAG_GLOBAL :: u64 where "PAGE_FLAG_GLOBAL = 0x100"
definition PAGE_FLAG_NO_EXECUTE :: u64 where "PAGE_FLAG_NO_EXECUTE = 0x8000000000000000"

definition NEW_PAGE_FLAGS :: u64 where
  "NEW_PAGE_FLAGS = PAGE_FLAG_PRESENT OR PAGE_FLAG_WRITABLE OR PAGE_FLAG_USER_ACCESSIBLE"

definition MAP_READ :: u64 where "MAP_READ = 0x1"
definition MAP_WRITE :: u64 where "MAP_WRITE = 0x2"
definition MAP_EXEC :: u64 where "MAP_EXEC = 0x4"
definition MAP_GLOBAL :: u64 where "MAP_GLOBAL = 0x8"
definition MAP_USER :: u64 where "MAP_USER = 0x10"
definition MAP_PAGE_1GB :: u64 where "MAP_PAGE_1GB = 0x20"
definition MAP_PAGE_2MB :: u64 where "MAP_PAGE_2MB = 0x40"
definition MAP_MMIO :: u64 where "MAP_MMIO = 0x80"
definition MAP_WRITE_THROUGH :: u64 where "MAP_WRITE_THROUGH = 0x40"
definition MAP_PROTECTED :: u64 where "MAP_PROTECTED = 0x80"
definition MAP_WRITE_COMBINING :: u64 where "MAP_WRITE_COMBINING = 0x100"
definition MAP_WRITE_BACK :: u64 where "MAP_WRITE_BACK = 0x200"
definition MAP_NO_CACHE :: u64 where "MAP_NO_CACHE = 0x400"

lemmas page_flag_defs = PAGE_FLAG_PRESENT_def PAGE_FLAG_WRITABLE_def PAGE_FLAG_USER_ACCESSIBLE_def
  PAGE_FLAG_WRITE_THROUGH_def PAGE_FLAG_NO_CACHE_def PAGE_FLAG_SIZE_EXTENSION_def PAGE_FLAG_GLOBAL_def
  PAGE_FLAG_NO_EXECUTE_def NEW_PAGE_FLAGS_def

lemmas map_flag_defs = MAP_READ_def MAP_WRITE_def MAP_EXEC_def MAP_GLOBAL_def MAP_USER_def MAP_PAGE_1GB_def
  MAP_PAGE_2MB_def MAP_MMIO_def MAP_WRITE_THROUGH_def MAP_PROTECTED_def MAP_WRITE_COMBINING_def
  MAP_WRITE_BACK_def MAP_NO_CACHE_def

definition PAGE_ADDR_MASK :: u64 where "PAGE_ADDR_MASK = 0x000ffffffffff000"

text \<open>The entry class.\<close>

definition pte_reset :: "u64 \<Rightarrow> u64" where
  "pte_reset val = 0"

definition pte_set_flags :: "u64 \<Rightarrow> u64 \<Rightarrow> u64" where
  "pte_set_flags val flags = val OR flags"

definition pte_clear_flags :: "u64 \<Rightarrow> u64 \<Rightarrow> u64" where
  "pte_clear_flags val flags = val AND NOT flags"

definition pte_has_flags :: "u64 \<Rightarrow> u64 \<Rightarrow> bool" where
  "pte_has_flags val flags \<longleftrightarrow> val AND flags \<noteq> 0"

definition pte_get_flags :: "u64 \<Rightarrow> u64" where
  "pte_get_flags val = val AND NOT PAGE_ADDR_MASK"

definition pte_get_address :: "u64 \<Rightarrow> u64" where
  "pte_get_address val = val AND PAGE_ADDR_MASK"

definition pte_set_address :: "u64 \<Rightarrow> u64 \<Rightarrow> u64" where
  "pte_set_address val address = (val AND NOT PAGE_ADDR_MASK) OR address"

definition is_large :: "u64 \<Rightarrow> bool" where
  "is_large val = pte_has_flags val PAGE_FLAG_SIZE_EXTENSION"

definition is_valid :: "u64 \<Rightarrow> bool" where
  "is_valid val = pte_has_flags val PAGE_FLAG_PRESENT"

text \<open>Conversion of flags; \<open>when\<close> is a conditional \<^verbatim>\<open>ret |= flag\<close>.\<close>

definition when_flag :: "bool \<Rightarrow> u64 \<Rightarrow> u64" where
  "when_flag b f = (if b then f else 0)"

definition parse_cache :: "u64 \<Rightarrow> u64 \<Rightarrow> u64" where
  "parse_cache flags page_size =
     (let patbit = (if page_size > PAGE_SIZE then 0x1000 else 0x80)
      in if flags AND MAP_MMIO \<noteq> 0 then PAGE_FLAG_NO_CACHE
         else if flags AND MAP_WRITE_COMBINING \<noteq> 0 then PAGE_FLAG_NO_CACHE OR PAGE_FLAG_WRITE_THROUGH
         else if flags AND MAP_WRITE_THROUGH \<noteq> 0 then patbit
         else if flags AND MAP_PROTECTED \<noteq> 0 then patbit OR PAGE_FLAG_WRITE_THROUGH
         else if flags AND MAP_WRITE_BACK \<noteq> 0 then patbit OR PAGE_FLAG_NO_CACHE
         else if flags AND MAP_NO_CACHE \<noteq> 0 then patbit OR PAGE_FLAG_NO_CACHE OR PAGE_FLAG_WRITE_THROUGH
         else 0)"

definition virt_parse_flags :: "u64 \<Rightarrow> u64" where
  "virt_parse_flags flags =
     when_flag (flags AND MAP_PAGE_1GB \<noteq> 0 \<or> flags AND MAP_PAGE_2MB \<noteq> 0) PAGE_FLAG_SIZE_EXTENSION OR
     when_flag (flags AND MAP_READ \<noteq> 0) PAGE_FLAG_PRESENT OR
     when_flag (flags AND MAP_WRITE \<noteq> 0) PAGE_FLAG_WRITABLE OR
     when_flag (flags AND MAP_USER \<noteq> 0) PAGE_FLAG_USER_ACCESSIBLE OR
     when_flag (flags AND MAP_EXEC = 0) PAGE_FLAG_NO_EXECUTE OR
     when_flag (flags AND MAP_GLOBAL \<noteq> 0) PAGE_FLAG_GLOBAL"

definition flag_to_page_size :: "u64 \<Rightarrow> u64" where
  "flag_to_page_size flags =
     (if flags AND MAP_PAGE_1GB \<noteq> 0 then PAGE_SIZE_1GiB
      else if flags AND MAP_PAGE_2MB \<noteq> 0 then PAGE_SIZE_2MiB
      else PAGE_SIZE)"

definition PageMap_parse_flags :: "u64 \<Rightarrow> u64" where
  "PageMap_parse_flags flags = parse_cache flags (flag_to_page_size flags) OR virt_parse_flags flags"

definition MATCH_FLAGS :: "u64 \<Rightarrow> u64 \<Rightarrow> bool" where
  "MATCH_FLAGS flags m \<longleftrightarrow> flags AND m = m"

definition vmm_flags :: "u64 \<Rightarrow> bool \<Rightarrow> u64" where
  "vmm_flags flags large_pages =
     (let patbit = (if large_pages then 0x80 else 0x1000)
      in when_flag (flags AND PAGE_FLAG_PRESENT \<noteq> 0) MAP_READ OR
         when_flag (flags AND PAGE_FLAG_WRITABLE \<noteq> 0) MAP_WRITE OR
         when_flag (flags AND PAGE_FLAG_NO_EXECUTE = 0) MAP_EXEC OR
         when_flag (flags AND PAGE_FLAG_USER_ACCESSIBLE \<noteq> 0) MAP_USER OR
         when_flag (flags AND PAGE_FLAG_GLOBAL \<noteq> 0) MAP_GLOBAL OR
         (if MATCH_FLAGS flags (patbit OR PAGE_FLAG_NO_CACHE OR PAGE_FLAG_WRITE_THROUGH) then MAP_NO_CACHE
          else if MATCH_FLAGS flags (patbit OR PAGE_FLAG_NO_CACHE) then MAP_WRITE_BACK
          else if MATCH_FLAGS flags (patbit OR PAGE_FLAG_WRITE_THROUGH) then MAP_PROTECTED
          else if MATCH_FLAGS flags patbit then MAP_WRITE_THROUGH
          else if MATCH_FLAGS flags (PAGE_FLAG_NO_CACHE OR PAGE_FLAG_WRITE_THROUGH) then MAP_WRITE_COMBINING
          else if MATCH_FLAGS flags PAGE_FLAG_NO_CACHE then MAP_MMIO
          else 0))"

text \<open>Page sizes, \<^verbatim>\<open>virtual.cpp\<close>.\<close>

definition get_page_size_flags :: "u64 \<Rightarrow> u64" where
  "get_page_size_flags page_size =
     (if page_size = PAGE_SIZE then 0
      else if page_size = PAGE_SIZE_2MiB then MAP_PAGE_2MB
      else MAP_PAGE_1GB)"

definition get_page_size :: "u64 \<Rightarrow> u64" where
  "get_page_size n =
     (if n \<ge> PAGE_SIZE_1GiB then PAGE_SIZE_1GiB
      else if n \<ge> PAGE_SIZE_2MiB then PAGE_SIZE_2MiB
      else PAGE_SIZE)"

definition required_page_size :: "u64 \<Rightarrow> u64 \<times> u64" where
  "required_page_size n =
     (if n \<ge> PAGE_SIZE_1GiB then (PAGE_SIZE_1GiB, MAP_PAGE_1GB)
      else if n \<ge> PAGE_SIZE_2MiB then (PAGE_SIZE_2MiB, MAP_PAGE_2MB)
      else (PAGE_SIZE, 0))"

definition GET_PML_ENTRY :: "u64 \<Rightarrow> nat \<Rightarrow> u64" where
  "GET_PML_ENTRY virtual_address offset = drop_bit offset virtual_address AND 0x1FF"

subsection \<open>Address and flags of an entry\<close>

text \<open>A page address the entry format can hold, and flags that do not touch the address field.\<close>

definition page_frame :: "u64 \<Rightarrow> bool" where
  "page_frame a \<longleftrightarrow> a AND PAGE_ADDR_MASK = a"

definition flag_bits :: "u64 \<Rightarrow> bool" where
  "flag_bits f \<longleftrightarrow> f AND PAGE_ADDR_MASK = 0"

lemma page_frameI:
  assumes "unat a mod 4096 = 0" "unat a < 2 ^ 52"
  shows "page_frame a"
proof -
  have "bit a n \<Longrightarrow> 12 \<le> n \<and> n < 52" for n
  proof -
    assume b: "bit a n"
    have "take_bit 12 (unat a) = 0" using assms(1) by (simp add: take_bit_eq_mod)
    then have "\<not> bit (unat a) n" if "n < 12" using that by (metis bit_take_bit_iff bit_0_eq bot_apply bot_bool_def)
    moreover have "take_bit 52 (unat a) = unat a" using assms(2) by (simp add: take_bit_nat_eq_self)
    then have "\<not> bit (unat a) n" if "52 \<le> n" using that by (metis bit_take_bit_iff not_less)
    moreover have "bit (unat a) n" using b by (simp add: bit_unsigned_iff)
    ultimately show ?thesis by force
  qed
  note rng = this
  have m: "PAGE_ADDR_MASK = mask 52 AND NOT (mask 12)" by (simp add: PAGE_ADDR_MASK_def mask_eq_exp_minus_1)
  show ?thesis
    unfolding page_frame_def m by (intro bit_word_eqI) (auto simp: bit_simps dest: rng)
qed

lemma pte_address_flags:
  assumes "page_frame a" "flag_bits f"
  shows "pte_get_address (pte_set_flags (pte_set_address v a) f) = a"
    "pte_get_flags (pte_set_flags (pte_set_address 0 a) f) = f"
    "pte_get_flags (pte_set_flags (pte_set_address v a) f) = pte_get_flags v OR f"
proof -
  have b: "bit a n \<Longrightarrow> bit PAGE_ADDR_MASK n" "bit f n \<Longrightarrow> \<not> bit PAGE_ADDR_MASK n" for n
    using assms unfolding page_frame_def flag_bits_def by (metis bit_and_iff, metis bit_and_iff bit_0_eq bot_apply bot_bool_def)
  show "pte_get_address (pte_set_flags (pte_set_address v a) f) = a"
    "pte_get_flags (pte_set_flags (pte_set_address 0 a) f) = f"
    "pte_get_flags (pte_set_flags (pte_set_address v a) f) = pte_get_flags v OR f"
    unfolding pte_get_address_def pte_set_flags_def pte_set_address_def pte_get_flags_def
    by (intro bit_word_eqI; use b in \<open>auto simp: bit_simps\<close>)+
qed

text \<open>The entry that links a table.\<close>

lemma table_entry:
  assumes "page_frame a"
  shows "pte_get_address (pte_set_flags (pte_set_address v a) NEW_PAGE_FLAGS) = a"
    "is_valid (pte_set_flags (pte_set_address v a) NEW_PAGE_FLAGS)"
    "is_large (pte_set_flags (pte_set_address v a) NEW_PAGE_FLAGS) = is_large v"
proof -
  have "flag_bits NEW_PAGE_FLAGS" by (simp add: flag_bits_def page_flag_defs PAGE_ADDR_MASK_def)
  then show "pte_get_address (pte_set_flags (pte_set_address v a) NEW_PAGE_FLAGS) = a"
    using assms by (rule pte_address_flags [rotated])
  have a: "a = a AND PAGE_ADDR_MASK" using assms by (simp add: page_frame_def)
  have t: "(x OR y) AND f = (x AND f) OR (y AND f)" "(x AND y) AND f = x AND (y AND f)" for x y f :: u64
    by (simp_all add: bit.conj_disj_distrib2 and.assoc)
  have "a AND 1 = 0" "a AND 0x80 = 0"
    by (subst a, simp only: t, simp add: PAGE_ADDR_MASK_def)+
  then show "is_valid (pte_set_flags (pte_set_address v a) NEW_PAGE_FLAGS)"
    "is_large (pte_set_flags (pte_set_address v a) NEW_PAGE_FLAGS) = is_large v"
    unfolding is_valid_def is_large_def pte_has_flags_def pte_set_flags_def pte_set_address_def page_flag_defs t
    by (simp_all add: PAGE_ADDR_MASK_def or_eq_0_iff)
qed

subsection \<open>Conversion of flags\<close>

lemma when_flag_and [simp]: "when_flag b f AND g = when_flag b (f AND g)"
  by (simp add: when_flag_def)

lemma when_flag_0 [simp]: "when_flag b 0 = 0" "f \<noteq> 0 \<Longrightarrow> when_flag b f = 0 \<longleftrightarrow> \<not> b"
  by (simp_all add: when_flag_def)

lemma when_flag_test:
  "when_flag (x AND 0x1 \<noteq> 0) 0x1 = x AND 0x1" "when_flag (x AND 0x2 \<noteq> 0) 0x2 = x AND 0x2" "when_flag (x AND 0x4 \<noteq> 0) 0x4 = x AND 0x4"
  "when_flag (x AND 0x8 \<noteq> 0) 0x8 = x AND 0x8" "when_flag (x AND 0x10 \<noteq> 0) 0x10 = x AND 0x10"
proof -
  have w: "when_flag (x AND push_bit n 1 \<noteq> 0) (push_bit n 1) = x AND push_bit n 1" for n
    unfolding bit_iff_and_push_bit_not_eq_0 [symmetric] when_flag_def by (intro bit_word_eqI) (auto simp: bit_simps)
  show "when_flag (x AND 0x1 \<noteq> 0) 0x1 = x AND 0x1" "when_flag (x AND 0x2 \<noteq> 0) 0x2 = x AND 0x2" "when_flag (x AND 0x4 \<noteq> 0) 0x4 = x AND 0x4"
    "when_flag (x AND 0x8 \<noteq> 0) 0x8 = x AND 0x8" "when_flag (x AND 0x10 \<noteq> 0) 0x10 = x AND 0x10"
    using w [of 0] w [of 1] w [of 2] w [of 3] w [of 4] by (simp_all add: push_bit_eq_mult)
qed

lemma parse_cache_values:
  "parse_cache flags ps \<in> {0, 0x10, 0x18, 0x80, 0x88, 0x90, 0x98, 0x1000, 0x1008, 0x1010, 0x1018}"
  by (simp add: parse_cache_def page_flag_defs Let_def)

lemma parse_cache_and:
  "parse_cache flags ps AND PAGE_FLAG_PRESENT = 0" "parse_cache flags ps AND PAGE_FLAG_WRITABLE = 0"
  "parse_cache flags ps AND PAGE_FLAG_USER_ACCESSIBLE = 0" "parse_cache flags ps AND PAGE_FLAG_NO_EXECUTE = 0"
  "parse_cache flags ps AND PAGE_FLAG_GLOBAL = 0"
  using parse_cache_values [of flags ps] by (auto simp: page_flag_defs)

lemma parse_flags_test:
  "PageMap_parse_flags flags AND PAGE_FLAG_PRESENT \<noteq> 0 \<longleftrightarrow> flags AND MAP_READ \<noteq> 0"
  "PageMap_parse_flags flags AND PAGE_FLAG_WRITABLE \<noteq> 0 \<longleftrightarrow> flags AND MAP_WRITE \<noteq> 0"
  "PageMap_parse_flags flags AND PAGE_FLAG_USER_ACCESSIBLE \<noteq> 0 \<longleftrightarrow> flags AND MAP_USER \<noteq> 0"
  "PageMap_parse_flags flags AND PAGE_FLAG_NO_EXECUTE = 0 \<longleftrightarrow> flags AND MAP_EXEC \<noteq> 0"
  "PageMap_parse_flags flags AND PAGE_FLAG_GLOBAL \<noteq> 0 \<longleftrightarrow> flags AND MAP_GLOBAL \<noteq> 0"
  by (simp_all add: PageMap_parse_flags_def virt_parse_flags_def bit.conj_disj_distrib2 parse_cache_and)
    (simp_all add: page_flag_defs)

lemma vmm_cache_values: "x = (if a then MAP_NO_CACHE else if b then MAP_WRITE_BACK else if c then MAP_PROTECTED
    else if d then MAP_WRITE_THROUGH else if e then MAP_WRITE_COMBINING else if f then MAP_MMIO else 0) \<Longrightarrow> x AND 0x1F = 0"
  by (simp add: map_flag_defs split: if_splits)

text \<open>
  The permissions of a mapping survive the way into a page table entry and back.  Whatever the
  page size and the caching attribute, \<^verbatim>\<open>vmm_flags\<close> recovers exactly the read, write, execute, user and
  global bits that \<^verbatim>\<open>parse_flags\<close> encoded.
\<close>

theorem page_permissions_roundtrip:
  "vmm_flags (PageMap_parse_flags flags) large AND 0x1F = flags AND 0x1F"
proof -
  have low: "flags AND 0x1F = when_flag (flags AND MAP_READ \<noteq> 0) MAP_READ OR when_flag (flags AND MAP_WRITE \<noteq> 0) MAP_WRITE OR
      when_flag (flags AND MAP_EXEC \<noteq> 0) MAP_EXEC OR when_flag (flags AND MAP_USER \<noteq> 0) MAP_USER OR
      when_flag (flags AND MAP_GLOBAL \<noteq> 0) MAP_GLOBAL"
    unfolding when_flag_test MAP_READ_def MAP_WRITE_def MAP_EXEC_def MAP_USER_def MAP_GLOBAL_def
    by (simp flip: bit.conj_disj_distrib)
  show ?thesis
    unfolding vmm_flags_def Let_def parse_flags_test bit.conj_disj_distrib2 vmm_cache_values [OF refl] low
    by (simp add: map_flag_defs)
qed

text \<open>
  The caching attribute does not: \<^verbatim>\<open>parse_cache\<close> and \<^verbatim>\<open>vmm_flags\<close> disagree on the position of the PAT bit,
  so a write-back mapping of a 4 KiB page is read back as memory-mapped I/O.
\<close>

lemma page_cache_confused:
  "vmm_flags (PageMap_parse_flags (MAP_READ OR MAP_WRITE OR MAP_WRITE_BACK)) False = MAP_READ OR MAP_WRITE OR MAP_MMIO"
  by (simp add: vmm_flags_def PageMap_parse_flags_def parse_cache_def virt_parse_flags_def flag_to_page_size_def
    MATCH_FLAGS_def when_flag_def Let_def page_flag_defs map_flag_defs PAGE_SIZE_def)

subsection \<open>Page table indices\<close>

lemma GET_PML_ENTRY_lt: "unat (GET_PML_ENTRY va n) < 512"
proof -
  have "GET_PML_ENTRY va n = take_bit 9 (drop_bit n va)"
    by (simp add: GET_PML_ENTRY_def take_bit_eq_mask mask_eq_exp_minus_1)
  then show ?thesis using take_bit_nat_less_exp [of 9 "unat (drop_bit n va)"] by (simp add: unsigned_take_bit_eq)
qed

end
