(* ===== verification/Page_Walk.thy ===== *)
theory Page_Walk
  imports Physical Page_Entry "HOL-Library.Sublist"
begin

text \<open>
  Trees of page tables in memory, independently of the code that builds them.  A table is the
  number of the page that holds it, a path the list of the indices taken from the top.  The two
  updates of such a tree, linking a fresh table and writing an entry of a last-level table, are
  described by their effect on the paths.
\<close>

subsection \<open>Entries of tables\<close>

definition slot :: "u64 \<Rightarrow> nat \<Rightarrow> nat \<Rightarrow> u64" where
  "slot h p i = page_addr h p + of_nat (8 * i)"

lemma unat_slot:
  assumes "phys_layout h st" "p < page_limit st" "i < 512" "k < 8"
  shows "unat (slot h p i + of_nat k) = unat h + 4096 * p + 8 * i + k"
proof -
  have e: "slot h p i + of_nat k = page_addr h p + of_nat (8 * i + k)" by (simp add: slot_def add.assoc)
  have "8 * i + k < 4096" using assms(3,4) by linarith
  moreover have "4096 * p + 4096 \<le> 4096 * page_limit st" using assms(2) by linarith
  ultimately have lt: "unat h + 4096 * p + (8 * i + k) < 18446744073709551616"
    using phys_layoutD(4) [OF assms(1)] by linarith
  have o: "unat (of_nat (8 * i + k) :: u64) = 8 * i + k" using assms(3,4) by (intro unat_of_nat64) linarith
  show ?thesis
    using unat_add64 [of "page_addr h p" "of_nat (8 * i + k)"] lt
    unfolding e o unat_page_addr [OF assms(1,2)] by linarith
qed

lemma slot_inj:
  assumes "phys_layout h st" "p < page_limit st" "q < page_limit st" "i < 512" "j < 512" "k < 8" "l < 8"
    "slot h p i + of_nat k = slot h q j + of_nat l"
  shows "p = q \<and> i = j \<and> k = l"
proof -
  have "4096 * p + 8 * i + k = 4096 * q + 8 * j + l"
    using unat_slot [OF assms(1,2,4,6)] unat_slot [OF assms(1,3,5,7)] assms(8) by simp
  moreover have "8 * i + k < 4096" "8 * j + l < 4096" using assms by linarith+
  ultimately have pq: "p = q" by linarith
  with \<open>4096 * p + 8 * i + k = 4096 * q + 8 * j + l\<close> have "8 * i + k = 8 * j + l" by simp
  then have "i = j \<and> k = l" using assms(6,7) by presburger
  then show ?thesis using pq by blast
qed

lemma store_slot_apply:
  assumes "unat (x - slot h p i) \<ge> 8"
  shows "store64 m (slot h p i) v x = m x"
  using assms by (simp add: store64_apply)

lemma load_store_slot:
  assumes "phys_layout h st" "p < page_limit st" "q < page_limit st" "i < 512" "j < 512"
  shows "load64 (store64 m (slot h p i) v) (slot h q j) = (if p = q \<and> i = j then v else load64 m (slot h q j))"
proof (cases "p = q \<and> i = j")
  case True
  then show ?thesis by (simp add: load64_store64)
next
  case False
  have "store64 m (slot h p i) v (slot h q j + of_nat l) = m (slot h q j + of_nat l)" if l: "l < 8" for l
  proof (rule store_slot_apply, rule ccontr)
    define k where "k = unat (slot h q j + of_nat l - slot h p i)"
    assume "\<not> 8 \<le> unat (slot h q j + of_nat l - slot h p i)"
    then have "k < 8" by (simp add: k_def)
    moreover have "slot h p i + of_nat k = slot h q j + of_nat l" unfolding k_def by (rule add_unat_off)
    ultimately show False using slot_inj [OF assms _ l] False by blast
  qed
  then show ?thesis using False load64_cong [of "store64 m (slot h p i) v" "slot h q j" m] by auto
qed

text \<open>The bytes of an entry lie in the page of its table.\<close>

lemma slot_in_page:
  assumes "i < 512" "k < 8"
  shows "unat (slot h p i + of_nat k - page_addr h p) < 4096"
proof -
  have "slot h p i + of_nat k - page_addr h p = of_nat (8 * i + k)" by (simp add: slot_def)
  moreover have "8 * i + k < 4096" using assms by linarith
  ultimately show ?thesis by (simp only: unat_of_nat64)
qed

lemma slot_byte:
  assumes "unat (x - slot h p i) < 8"
  obtains k where "k < 8" "x = slot h p i + of_nat k"
  using that [of "unat (x - slot h p i)"] assms by simp

lemma slot_not_in_bitmap:
  assumes "\<not> bitmap_page h st p" "i < 512" "k < 8"
  shows "\<not> in_bitmap st (slot h p i + of_nat k)"
  using assms slot_in_page [OF assms(2,3)] unfolding bitmap_page_def by blast

lemma not_reservedD: "p \<notin> reserved h st \<Longrightarrow> p < page_limit st \<Longrightarrow> \<not> bitmap_page h st p \<and> p \<noteq> 0"
  by (simp add: reserved_def)

subsection \<open>Paths\<close>

definition pt_child :: "u64 \<Rightarrow> mem \<Rightarrow> nat \<Rightarrow> nat \<Rightarrow> nat option" where
  "pt_child h m p i =
     (let v = load64 m (slot h p i) in if is_valid v then Some (unat (pte_get_address v) div 4096) else None)"

fun walk :: "u64 \<Rightarrow> mem \<Rightarrow> nat \<Rightarrow> nat list \<Rightarrow> nat option" where
  "walk h m p [] = Some p"
| "walk h m p (i # is) = (case pt_child h m p i of None \<Rightarrow> None | Some q \<Rightarrow> walk h m q is)"

lemma walk_append: "walk h m p (is @ js) = (case walk h m p is of None \<Rightarrow> None | Some q \<Rightarrow> walk h m q js)"
  by (induction "is" arbitrary: p) (simp_all split: option.split)

lemma walk_snoc: "walk h m p (is @ [i]) = (case walk h m p is of None \<Rightarrow> None | Some q \<Rightarrow> pt_child h m q i)"
  by (simp add: walk_append split: option.split)

definition is_path :: "nat \<Rightarrow> nat list \<Rightarrow> bool" where
  "is_path d is \<longleftrightarrow> length is \<le> d \<and> (\<forall>i \<in> set is. i < 512)"

lemma is_path_snoc [simp]: "is_path d (is @ [i]) \<longleftrightarrow> is_path d is \<and> length is < d \<and> i < 512"
  by (auto simp: is_path_def)

lemma is_path_prefix: "is_path d (is @ js) \<Longrightarrow> is_path d is"
  by (auto simp: is_path_def)

text \<open>
  A well-formed tree of depth \<open>d\<close>: its tables are pages in use that are neither page 0 nor hold the
  bitmap, no table is reached by two paths, and no entry above the last level is marked as a large
  page.
\<close>

definition tree_ok :: "nat \<Rightarrow> u64 \<Rightarrow> phys \<Rightarrow> nat \<Rightarrow> bool" where
  "tree_ok d h st r \<longleftrightarrow>
     (\<forall>is p. is_path d is \<longrightarrow> walk h (pmem st) r is = Some p \<longrightarrow> p \<in> taken st - reserved h st) \<and>
     (\<forall>is js p. is_path d is \<longrightarrow> is_path d js \<longrightarrow> walk h (pmem st) r is = Some p \<longrightarrow> walk h (pmem st) r js = Some p \<longrightarrow> is = js) \<and>
     (\<forall>is p i. is_path d (is @ [i]) \<longrightarrow> walk h (pmem st) r is = Some p \<longrightarrow> \<not> is_large (load64 (pmem st) (slot h p i)))"

lemma tree_okD:
  assumes "tree_ok d h st r"
  shows "is_path d is \<Longrightarrow> walk h (pmem st) r is = Some p \<Longrightarrow> p \<in> taken st - reserved h st"
    "is_path d is \<Longrightarrow> is_path d js \<Longrightarrow> walk h (pmem st) r is = Some p \<Longrightarrow> walk h (pmem st) r js = Some p \<Longrightarrow> is = js"
    "is_path d (is @ [i]) \<Longrightarrow> walk h (pmem st) r is = Some p \<Longrightarrow> \<not> is_large (load64 (pmem st) (slot h p i))"
  using assms unfolding tree_ok_def by blast+

lemma tree_ok_table:
  assumes "tree_ok d h st r" "is_path d is" "walk h (pmem st) r is = Some p"
  shows "p < page_limit st" "p \<in> taken st" "p \<notin> reserved h st"
  using tree_okD(1) [OF assms] by (auto simp: taken_def)

text \<open>
  The effect of writing entry \<open>i\<^sub>0\<close> of the table at \<open>is\<^sub>0\<close> on the paths: those that do not go through the
  entry are unchanged.
\<close>

lemma walk_other:
  assumes tree: "tree_ok d h st r"
    and p0: "is_path d is0" "walk h (pmem st) r is0 = Some p0"
    and same: "\<And>js q j. is_path d js \<Longrightarrow> walk h (pmem st) r js = Some q \<Longrightarrow> j < 512 \<Longrightarrow> (q, j) \<noteq> (p0, i0) \<Longrightarrow>
      load64 m' (slot h q j) = load64 (pmem st) (slot h q j)"
    and js: "is_path d js" "\<not> prefix (is0 @ [i0]) js"
  shows "walk h m' r js = walk h (pmem st) r js"
  using js
proof (induction js rule: rev_induct)
  case Nil
  then show ?case by simp
next
  case (snoc j js)
  then have IH: "walk h m' r js = walk h (pmem st) r js" and path: "is_path d js" "j < 512" by auto
  have "pt_child h m' q j = pt_child h (pmem st) q j" if q: "walk h (pmem st) r js = Some q" for q
  proof -
    have "(q, j) \<noteq> (p0, i0)"
    proof
      assume "(q, j) = (p0, i0)"
      then have "js = is0" "j = i0" using tree_okD(2) [OF tree path(1) p0(1)] q p0(2) by auto
      then show False using snoc.prems(2) by simp
    qed
    then show ?thesis using same [OF path(1) q path(2)] by (simp add: pt_child_def)
  qed
  then show ?case by (simp add: walk_snoc IH split: option.split)
qed

text \<open>What a tree maps: the valid last-level entry of a page, which a path of \<open>d + 1\<close> indices names.\<close>

definition is_page :: "nat \<Rightarrow> nat list \<Rightarrow> bool" where
  "is_page d ks \<longleftrightarrow> length ks = Suc d \<and> (\<forall>i \<in> set ks. i < 512)"

definition leaf :: "u64 \<Rightarrow> mem \<Rightarrow> nat \<Rightarrow> nat list \<Rightarrow> u64 option" where
  "leaf h m r ks =
     (case walk h m r (butlast ks) of None \<Rightarrow> None
      | Some p \<Rightarrow> let v = load64 m (slot h p (last ks)) in if is_valid v then Some v else None)"

lemma is_page_split:
  assumes "is_page d ks"
  obtains js j where "ks = js @ [j]" "is_path d js" "length js = d" "j < 512"
proof -
  have "ks \<noteq> []" using assms by (auto simp: is_page_def)
  then show ?thesis
    using that [of "butlast ks" "last ks"] assms by (auto simp: is_page_def is_path_def dest: in_set_butlastD)
qed

lemma leaf_snoc: "leaf h m r (js @ [j]) =
    (case walk h m r js of None \<Rightarrow> None
     | Some p \<Rightarrow> if is_valid (load64 m (slot h p j)) then Some (load64 m (slot h p j)) else None)"
  by (simp add: leaf_def Let_def split: option.split)

lemma not_is_valid_0 [simp]: "\<not> is_valid 0" "\<not> is_large 0"
  by (simp_all add: is_valid_def is_large_def pte_has_flags_def)

text \<open>Linking the fresh table \<open>q\<^sub>0\<close> at an entry that was not valid.\<close>

definition linked :: "nat \<Rightarrow> u64 \<Rightarrow> phys \<Rightarrow> phys \<Rightarrow> nat \<Rightarrow> nat list \<Rightarrow> nat \<Rightarrow> nat \<Rightarrow> nat \<Rightarrow> bool" where
  "linked d h st st' r is0 i0 p0 q0 \<longleftrightarrow>
     tree_ok d h st r \<and> is_path d (is0 @ [i0]) \<and> walk h (pmem st) r is0 = Some p0 \<and>
     \<not> is_valid (load64 (pmem st) (slot h p0 i0)) \<and>
     q0 \<notin> taken st \<and> taken st' = insert q0 (taken st) \<and> q0 \<notin> reserved h st \<and> reserved h st' = reserved h st \<and>
     pt_child h (pmem st') p0 i0 = Some q0 \<and> \<not> is_large (load64 (pmem st') (slot h p0 i0)) \<and>
     (\<forall>j < 512. load64 (pmem st') (slot h q0 j) = 0) \<and>
     (\<forall>q \<in> taken st - reserved h st. \<forall>j < 512. (q, j) \<noteq> (p0, i0) \<longrightarrow>
        load64 (pmem st') (slot h q j) = load64 (pmem st) (slot h q j))"

lemma linkedD:
  assumes "linked d h st st' r is0 i0 p0 q0"
  shows "tree_ok d h st r" "is_path d is0" "i0 < 512" "length is0 < d" "walk h (pmem st) r is0 = Some p0"
    "\<not> is_valid (load64 (pmem st) (slot h p0 i0))"
    "q0 \<notin> taken st" "taken st' = insert q0 (taken st)" "q0 \<notin> reserved h st" "reserved h st' = reserved h st"
    "pt_child h (pmem st') p0 i0 = Some q0" "\<not> is_large (load64 (pmem st') (slot h p0 i0))"
    "j < 512 \<Longrightarrow> load64 (pmem st') (slot h q0 j) = 0"
    "is_path d js \<Longrightarrow> walk h (pmem st) r js = Some q \<Longrightarrow> j < 512 \<Longrightarrow> (q, j) \<noteq> (p0, i0) \<Longrightarrow>
       load64 (pmem st') (slot h q j) = load64 (pmem st) (slot h q j)"
proof -
  have t: "tree_ok d h st r" using assms by (simp add: linked_def)
  then show "tree_ok d h st r" .
  have s: "\<forall>q \<in> taken st - reserved h st. \<forall>j < 512. (q, j) \<noteq> (p0, i0) \<longrightarrow>
      load64 (pmem st') (slot h q j) = load64 (pmem st) (slot h q j)"
    using assms unfolding linked_def by (elim conjE)
  show "load64 (pmem st') (slot h q j) = load64 (pmem st) (slot h q j)"
    if a: "is_path d js" "walk h (pmem st) r js = Some q" "j < 512" "(q, j) \<noteq> (p0, i0)"
    using s tree_okD(1) [OF t a(1,2)] a(3,4) by simp
qed (use assms in \<open>simp_all add: linked_def\<close>)

lemma walk_linked:
  assumes link: "linked d h st st' r is0 i0 p0 q0" and "is_path d js"
  shows "walk h (pmem st') r js = (if js = is0 @ [i0] then Some q0 else walk h (pmem st) r js)"
proof -
  note L = linkedD [OF link]
  show ?thesis
proof (cases "prefix (is0 @ [i0]) js")
  case False
  then show ?thesis using walk_other [OF L(1,2,5) L(14) assms(2)] by auto
next
  case True
  then obtain ks where js: "js = (is0 @ [i0]) @ ks" by (auto elim: prefixE)
  have "\<not> prefix (is0 @ [i0]) is0" by (metis append_self_conv not_Cons_self2 prefix_order.antisym prefixI)
  then have "walk h (pmem st') r is0 = Some p0"
    using walk_other [OF L(1,2,5) L(14) L(2)] L(5) by auto
  then have new: "walk h (pmem st') r (is0 @ [i0]) = Some q0" using L(11) by (simp only: walk_snoc option.case)
  have old: "walk h (pmem st) r (is0 @ [i0]) = None" using L(5,6) by (simp add: walk_snoc pt_child_def)
  show ?thesis
  proof (cases ks)
    case Nil
    then show ?thesis using new js by simp
  next
    case (Cons k ks')
    then have "k < 512" using assms(2) js by (auto simp: is_path_def)
    then have "pt_child h (pmem st') q0 k = None" using L(13) by (simp add: pt_child_def)
    then have "walk h (pmem st') r js = None"
      unfolding js walk_append [of h "pmem st'" r "is0 @ [i0]"] new using Cons by simp
    moreover have "walk h (pmem st) r js = None"
      unfolding js walk_append [of h "pmem st" r "is0 @ [i0]"] old by simp
    ultimately show ?thesis using js Cons by simp
  qed
qed
qed

lemma tree_linked:
  assumes link: "linked d h st st' r is0 i0 p0 q0"
  shows "tree_ok d h st' r"
  unfolding tree_ok_def
proof (intro conjI allI impI)
  note L = linkedD [OF link]
  fix js q assume "is_path d js" "walk h (pmem st') r js = Some q"
  then show "q \<in> taken st' - reserved h st'"
    using L(7-10) tree_okD(1) [OF L(1), of js q] by (auto simp: walk_linked [OF link] split: if_splits)
next
  note L = linkedD [OF link]
  fix js ks q assume p: "is_path d js" "is_path d ks" and w: "walk h (pmem st') r js = Some q" "walk h (pmem st') r ks = Some q"
  show "js = ks"
  proof (cases "q = q0")
    case True
    then show ?thesis using w p L(7) tree_okD(1) [OF L(1)] by (auto simp: walk_linked [OF link] split: if_splits)
  next
    case False
    then show ?thesis using w p tree_okD(2) [OF L(1) p] by (auto simp: walk_linked [OF link] split: if_splits)
  qed
next
  note L = linkedD [OF link]
  fix js q j assume p: "is_path d (js @ [j])" and w: "walk h (pmem st') r js = Some q"
  have pj: "is_path d js" "j < 512" using p by auto
  show "\<not> is_large (load64 (pmem st') (slot h q j))"
  proof (cases "js = is0 @ [i0]")
    case True
    then have "q = q0" using w walk_linked [OF link pj(1)] by simp
    then show ?thesis using L(13) [OF pj(2)] by simp
  next
    case False
    then have old: "walk h (pmem st) r js = Some q" using w walk_linked [OF link pj(1)] by simp
    show ?thesis
    proof (cases "(q, j) = (p0, i0)")
      case True
      then show ?thesis using L(12) by simp
    next
      case False
      then show ?thesis using L(14) [OF pj(1) old pj(2)] tree_okD(3) [OF L(1) p old] by simp
    qed
  qed
qed

lemma leaf_linked:
  assumes link: "linked d h st st' r is0 i0 p0 q0" and "is_page d ks"
  shows "leaf h (pmem st') r ks = leaf h (pmem st) r ks"
proof -
  note L = linkedD [OF link]
  obtain js j where ks: "ks = js @ [j]" "is_path d js" "length js = d" "j < 512" using is_page_split [OF assms(2)] .
  show ?thesis
  proof (cases "js = is0 @ [i0]")
    case True
    have "walk h (pmem st) r js = None" unfolding True using L(5,6) by (simp add: walk_snoc pt_child_def)
    then show ?thesis using True walk_linked [OF link ks(2)] L(13) [OF ks(4)] unfolding ks(1) leaf_snoc by simp
  next
    case False
    have "load64 (pmem st') (slot h q j) = load64 (pmem st) (slot h q j)" if q: "walk h (pmem st) r js = Some q" for q
    proof (rule L(14) [OF ks(2) q ks(4)])
      show "(q, j) \<noteq> (p0, i0)"
        using tree_okD(2) [OF L(1) ks(2) L(2) q] L(4,5) ks(3) by auto
    qed
    then show ?thesis using False walk_linked [OF link ks(2)] unfolding ks(1) leaf_snoc by (auto split: option.split)
  qed
qed

subsection \<open>Updates of memory\<close>

lemma phys_inv_slot:
  assumes "phys_inv h st" "p < page_limit st" "p \<notin> reserved h st" "i < 512"
  shows "phys_inv h (st\<lparr>pmem := store64 (pmem st) (slot h p i) v\<rparr>)"
    "taken (st\<lparr>pmem := store64 (pmem st) (slot h p i) v\<rparr>) = taken st"
    "reserved h (st\<lparr>pmem := store64 (pmem st) (slot h p i) v\<rparr>) = reserved h st"
    "free_count (st\<lparr>pmem := store64 (pmem st) (slot h p i) v\<rparr>) = free_count st"
    "page_limit (st\<lparr>pmem := store64 (pmem st) (slot h p i) v\<rparr>) = page_limit st"
proof -
  have keep: "store64 (pmem st) (slot h p i) v x = pmem st x" if x: "in_bitmap st x" for x
  proof (rule store_slot_apply, rule ccontr)
    assume "\<not> 8 \<le> unat (x - slot h p i)"
    then obtain k where "k < 8" "x = slot h p i + of_nat k" using slot_byte [of x h p i] by (auto simp: not_le)
    then show False using slot_not_in_bitmap [OF not_reservedD [OF assms(3,2), THEN conjunct1] assms(4)] x by blast
  qed
  have "0 < page_limit st" using assms(2) by linarith
  note w = phys_inv_write [OF assms(1) keep this]
  show "phys_inv h (st\<lparr>pmem := store64 (pmem st) (slot h p i) v\<rparr>)" by (rule w(1))
  show "taken (st\<lparr>pmem := store64 (pmem st) (slot h p i) v\<rparr>) = taken st" by (rule w(2))
  show "reserved h (st\<lparr>pmem := store64 (pmem st) (slot h p i) v\<rparr>) = reserved h st" by (rule w(3))
  show "free_count (st\<lparr>pmem := store64 (pmem st) (slot h p i) v\<rparr>) = free_count st" by (rule w(4))
  show "page_limit (st\<lparr>pmem := store64 (pmem st) (slot h p i) v\<rparr>) = page_limit st" by (rule w(5))
qed

text \<open>Writing an entry of a last-level table.\<close>

lemma leaf_write:
  assumes inv: "phys_inv h st" and tree: "tree_ok d h st r" and path: "is_path d is0" "length is0 = d" "i0 < 512"
    and at: "walk h (pmem st) r is0 = Some p0" and st'_def: "st' = st\<lparr>pmem := store64 (pmem st) (slot h p0 i0) v\<rparr>"
  shows "phys_inv h st'" "tree_ok d h st' r"
    "is_path d js \<Longrightarrow> walk h (pmem st') r js = walk h (pmem st) r js"
    "is_page d ks \<Longrightarrow> leaf h (pmem st') r ks =
       (if ks = is0 @ [i0] then if is_valid v then Some v else None else leaf h (pmem st) r ks)"
proof -
  note t0 = tree_ok_table [OF tree path(1) at] and lay = phys_invD(1) [OF inv]
  note w = phys_inv_slot [OF inv t0(1,3) path(3), of v]
  show "phys_inv h st'" unfolding st'_def by (rule w)
  have ld: "load64 (pmem st') (slot h q j) = (if p0 = q \<and> i0 = j then v else load64 (pmem st) (slot h q j))"
    if "is_path d js" "walk h (pmem st) r js = Some q" "j < 512" for js q j
    using load_store_slot [OF lay t0(1) tree_ok_table(1) [OF tree that(1,2)] path(3) that(3)] by (simp add: st'_def)
  have wk: "walk h (pmem st') r js = walk h (pmem st) r js" if "is_path d js" for js
  proof (rule walk_other [OF tree path(1) at _ that])
    show "\<not> prefix (is0 @ [i0]) js"
      using that path(2) prefix_length_le [of "is0 @ [i0]" js] by (auto simp: is_path_def)
  qed (use ld in auto)
  then show "is_path d js \<Longrightarrow> walk h (pmem st') r js = walk h (pmem st) r js" .
  have large: "load64 (pmem st') (slot h q j) = load64 (pmem st) (slot h q j)"
    if "is_path d (js @ [j])" "walk h (pmem st) r js = Some q" for js q j
    using ld [of js q j] that tree_okD(2) [OF tree path(1), of js] at path(2) by auto
  have tr: "taken st' = taken st" "reserved h st' = reserved h st" unfolding st'_def by (rule w)+
  show "tree_ok d h st' r"
    unfolding tree_ok_def tr
  proof (intro conjI allI impI)
    fix js q assume "is_path d js" "walk h (pmem st') r js = Some q"
    then show "q \<in> taken st - reserved h st" using tree_okD(1) [OF tree] wk by simp
  next
    fix js ks q assume "is_path d js" "is_path d ks" "walk h (pmem st') r js = Some q" "walk h (pmem st') r ks = Some q"
    then show "js = ks" using tree_okD(2) [OF tree] wk by simp
  next
    fix js q j assume p: "is_path d (js @ [j])" and "walk h (pmem st') r js = Some q"
    then have "walk h (pmem st) r js = Some q" using wk [of js] by simp
    then show "\<not> is_large (load64 (pmem st') (slot h q j))" using large [OF p] tree_okD(3) [OF tree p] by simp
  qed
  show "leaf h (pmem st') r ks = (if ks = is0 @ [i0] then if is_valid v then Some v else None else leaf h (pmem st) r ks)"
    if pg: "is_page d ks"
  proof -
    obtain js j where ks: "ks = js @ [j]" "is_path d js" "length js = d" "j < 512" using is_page_split [OF pg] .
    show ?thesis
    proof (cases "walk h (pmem st) r js")
      case None
      then show ?thesis using at unfolding ks(1) leaf_snoc wk [OF ks(2)] by auto
    next
      case (Some q)
      have "p0 = q \<and> i0 = j \<longleftrightarrow> js @ [j] = is0 @ [i0]"
        using tree_okD(2) [OF tree ks(2) path(1) Some] at Some by auto
      then show ?thesis using ld [OF ks(2) Some ks(4)] unfolding ks(1) leaf_snoc wk [OF ks(2)] Some
        by (cases "js = is0 \<and> j = i0") auto
    qed
  qed
qed

text \<open>Granting a page and linking it.\<close>

lemma fresh_not_reserved: "phys_inv h st \<Longrightarrow> q \<notin> taken st \<Longrightarrow> q \<notin> reserved h st"
  using physical.reserved_taken by blast

lemma granted_load:
  assumes "phys_inv h st" "q0 < page_limit st" "q0 \<notin> taken st" "q \<in> taken st" "\<not> bitmap_page h st q" "j < 512"
  shows "load64 (pmem (granted h st q0 1)) (slot h q j) = load64 (pmem st) (slot h q j)"
proof (rule load64_cong)
  fix k :: nat assume k: "k < 8"
  let ?x = "slot h q j + of_nat k"
  note lay = phys_invD(1) [OF assms(1)]
  have q: "q < page_limit st" using assms(4) by (simp add: taken_def)
  have "\<not> unat (?x - page_addr h q0) < 4096"
  proof
    assume "unat (?x - page_addr h q0) < 4096"
    moreover define n where "n = unat (?x - page_addr h q0)"
    ultimately have n: "n < 4096" by simp
    have "?x = page_addr h q0 + of_nat (8 * (n div 8) + n mod 8)" unfolding n_def by simp
    then have x: "?x = slot h q0 (n div 8) + of_nat (n mod 8)"
      unfolding slot_def by (simp only: of_nat_add add.assoc)
    have "n div 8 < 512" "n mod 8 < 8" using n by auto
    then have "q = q0" using slot_inj [OF lay q assms(2) assms(6) _ k _ x] by blast
    then show False using assms(3,4) by simp
  qed
  moreover have "\<not> in_bitmap st ?x" using slot_not_in_bitmap [OF assms(5,6) k] .
  moreover have "q0 + unat (1 :: u64) \<le> page_limit st" using assms(2) by simp
  ultimately show "pmem (granted h st q0 1) ?x = pmem st ?x" using granted_mem [OF assms(1)] by simp
qed

lemma granted_zero:
  assumes "phys_inv h st" "q0 < page_limit st" "q0 \<notin> taken st" "j < 512"
  shows "load64 (pmem (granted h st q0 1)) (slot h q0 j) = 0"
proof -
  have nr: "q0 \<notin> reserved h st"
    using fresh_not_reserved [OF assms(1,3)] .
  have z: "pmem (granted h st q0 1) (slot h q0 j + of_nat k) = 0" if "k < 8" for k
    using granted_mem [OF assms(1), of q0 1] slot_not_in_bitmap [OF not_reservedD [OF nr assms(2), THEN conjunct1] assms(4) that]
      slot_in_page [OF assms(4) that, of h q0] assms(2) by simp
  have "load64 (pmem (granted h st q0 1)) (slot h q0 j) = load64 (\<lambda>_. 0) (slot h q0 j)"
    using z by (rule load64_cong)
  then show ?thesis by (simp add: load64_def)
qed

lemma link_granted:
  assumes inv: "phys_inv h st" and tree: "tree_ok d h st r" and path: "is_path d (is0 @ [i0])"
    and at: "walk h (pmem st) r is0 = Some p0" and q0: "q0 < page_limit st" "q0 \<notin> taken st"
    and lim: "page_limit st \<le> 2 ^ 40" and absent: "\<not> is_valid (load64 (pmem st) (slot h p0 i0))"
    and st1_def: "st1 = granted h st q0 1"
    and st2_def: "st2 = st1\<lparr>pmem := store64 (pmem st1) (slot h p0 i0)
      (pte_set_flags (pte_set_address (load64 (pmem st1) (slot h p0 i0)) (of_nat q0 * PAGE_SIZE)) NEW_PAGE_FLAGS)\<rparr>"
  shows "linked d h st st2 r is0 i0 p0 q0" "phys_inv h st2" "free_count st = Suc (free_count st2)" "page_limit st2 = page_limit st"
proof -
  let ?a = "of_nat q0 * PAGE_SIZE"
  have path0: "is_path d is0" "i0 < 512" using path by auto
  note t0 = tree_ok_table [OF tree path0(1) at]
  note nr = fresh_not_reserved [OF inv q0(2)] and fit = fits_one [OF q0]
  note inv1 = phys_inv_granted [OF inv fit, folded st1_def, simplified]
  have lim1: "page_limit st1 = page_limit st" "reserved h st1 = reserved h st" "free_count st = Suc (free_count st1)"
    "taken st1 = insert q0 (taken st)"
    using free_count_granted [OF inv fit] taken_granted [OF inv fit] by (auto simp: st1_def reserved_def)
  note w = phys_inv_slot [OF inv1, of p0 i0, folded st2_def, unfolded lim1, OF t0(1,3) path0(2)]
  show "phys_inv h st2" "free_count st = Suc (free_count st2)" "page_limit st2 = page_limit st"
    using w lim1 by (simp_all add: st2_def)
  have q0b: "q0 < 4503599627370496" using q0(1) page_limit_bound [of st] by linarith
  have ua: "unat ?a = 4096 * q0" using page_ret(1) [OF q0b] .
  have frame: "page_frame ?a" using q0(1) lim by (intro page_frameI) (simp_all add: ua)
  have lay1: "phys_layout h st1" using phys_invD(1) [OF inv1] .
  have ne: "p0 \<noteq> q0" using t0(2) q0(2) by blast
  have old: "load64 (pmem st1) (slot h q j) = load64 (pmem st) (slot h q j)" if "q \<in> taken st" "q \<notin> reserved h st" "j < 512" for q j
    unfolding st1_def using granted_load [OF inv q0 that(1) _ that(3)] not_reservedD [OF that(2)] that(1) by (simp add: taken_def)
  define v where "v = pte_set_flags (pte_set_address (load64 (pmem st) (slot h p0 i0)) ?a) NEW_PAGE_FLAGS"
  note v = table_entry [OF frame, of "load64 (pmem st) (slot h p0 i0)", folded v_def]
  have ld: "load64 (pmem st2) (slot h q j) = (if p0 = q \<and> i0 = j then v else load64 (pmem st1) (slot h q j))"
    if "q < page_limit st" "j < 512" for q j
    using load_store_slot [OF lay1, of p0 q i0 j] t0(1) path0(2) that lim1(1) old [OF t0(2,3) path0(2)]
    by (simp add: st2_def v_def)
  have v2: "load64 (pmem st2) (slot h p0 i0) = v" using ld [OF t0(1) path0(2)] by simp
  have "pt_child h (pmem st2) p0 i0 = Some q0" using v v2 ua by (simp add: pt_child_def)
  moreover have "\<not> is_large (load64 (pmem st2) (slot h p0 i0))" using v v2 tree_okD(3) [OF tree path at] by simp
  moreover have "load64 (pmem st2) (slot h q0 j) = 0" if "j < 512" for j
    using ld [OF q0(1) that] ne granted_zero [OF inv q0 that] by (simp add: st1_def)
  moreover have "load64 (pmem st2) (slot h q j) = load64 (pmem st) (slot h q j)"
    if "q \<in> taken st - reserved h st" "j < 512" "(q, j) \<noteq> (p0, i0)" for q j
  proof -
    have "q < page_limit st" using that(1) by (simp add: taken_def)
    from ld [OF this that(2)] old [of q j] that show ?thesis by auto
  qed
  moreover have "taken st2 = insert q0 (taken st)" "reserved h st2 = reserved h st"
    using w lim1 by (simp_all add: st2_def)
  ultimately show "linked d h st st2 r is0 i0 p0 q0"
    unfolding linked_def using tree path at absent q0(2) nr by (intro conjI ballI allI impI) simp_all
qed

end
