(* ===== verification/Paging.thy ===== *)
theory Paging
  imports Page_Walk
begin

text \<open>
  Page tables, \<^verbatim>\<open>arch/amd64/memory/paging.cpp\<close>.  The tables lie in the memory of the physical allocator,
  at the higher-half addresses of the pages it hands out, and entries are read and written there.
  What the boot loader reports is the record \<open>boot\<close>.  The processor state that the code touches
  (\<^verbatim>\<open>CR3\<close>, the \<^verbatim>\<open>PAT\<close> register, the flushed addresses) is part of the state.
\<close>

subsection \<open>Definitions\<close>

record boot =
  hhdm :: u64
  is_paging_mode_max :: bool

record PageMap =
  top_lvl :: u64
  pm_lock :: TicketLock

record vm =
  vphys :: phys
  this :: PageMap
  pml3_translation :: bool
  cr3 :: u64
  msr_pat :: u64
  flushed :: "u64 list"

text \<open>
  Errors: those of the allocator, a lock that is never released, the panic on a misaligned large
  page, a loop counter that wraps around, the bound on the nesting of \<^verbatim>\<open>map_page\<close> in itself, and for the
  clients a failed assertion and the use of a null entry.
\<close>

datatype page_error =
  Phys_error phys_error | Page_lock lock_error | Unexpected_entry_address u64 | Counter_wraps | Nesting_bound |
  Page_assert | Null_entry

type_synonym 'a vmres = "page_error + 'a \<times> vm"

definition vbind :: "'a vmres \<Rightarrow> ('a \<Rightarrow> vm \<Rightarrow> 'b vmres) \<Rightarrow> 'b vmres" where
  "vbind r f = (case r of Inl e \<Rightarrow> Inl e | Inr (a, st) \<Rightarrow> f a st)"

definition entry_at :: "vm \<Rightarrow> u64 \<Rightarrow> u64" where
  "entry_at st e = load64 (pmem (vphys st)) e"

definition set_entry :: "u64 \<Rightarrow> u64 \<Rightarrow> vm \<Rightarrow> vm" where
  "set_entry e v st = st\<lparr>vphys := (vphys st)\<lparr>pmem := store64 (pmem (vphys st)) e v\<rparr>\<rparr>"

definition vm_allocate :: "boot \<Rightarrow> vm \<Rightarrow> u64 vmres" where
  "vm_allocate b st =
     (case physical_allocate (hhdm b) (vphys st) 1 of
        Inl e \<Rightarrow> Inl (Phys_error e)
      | Inr (p, a) \<Rightarrow> Inr (a, st\<lparr>vphys := p\<rparr>))"

text \<open>A scope with \<^verbatim>\<open>lock::ScopedLock guard(this->lock_)\<close>.\<close>

definition with_guard :: "(vm \<Rightarrow> 'a vmres) \<Rightarrow> vm \<Rightarrow> 'a vmres" where
  "with_guard body st =
     (case lock_seq (pm_lock (this st)) of
        Inl e \<Rightarrow> Inl (Page_lock e)
      | Inr l \<Rightarrow> vbind (body (st\<lparr>this := (this st)\<lparr>pm_lock := l\<rparr>\<rparr>))
          (\<lambda>r st. Inr (r, st\<lparr>this := (this st)\<lparr>pm_lock := unlock_seq (pm_lock (this st))\<rparr>\<rparr>)))"

text \<open>
  The loops \<^verbatim>\<open>for(size_t i = 0; i < size; i += step)\<close>, which stop at the first result other than
  \<^verbatim>\<open>SYSTEM_OK\<close>; the final value of \<^verbatim>\<open>i\<close> is returned too.
\<close>

function for_loop :: "(u64 \<Rightarrow> vm \<Rightarrow> int vmres) \<Rightarrow> u64 \<Rightarrow> u64 \<Rightarrow> u64 \<Rightarrow> vm \<Rightarrow> (int \<times> u64) vmres" where
  "for_loop body i sz step st =
     (if i < sz
      then case body i st of
             Inl e \<Rightarrow> Inl e
           | Inr (r, st) \<Rightarrow>
              if r \<noteq> SYSTEM_OK then Inr ((r, i), st)
              else if i + step \<le> i then Inl Counter_wraps
              else for_loop body (i + step) sz step st
      else Inr ((SYSTEM_OK, i), st))"
  by pat_completeness auto
termination
proof (relation "measure (\<lambda>(body, i, sz, step, st). 18446744073709551616 - unat i)")
  fix body :: "u64 \<Rightarrow> vm \<Rightarrow> int vmres" and i sz step :: u64 and st st' :: vm
  assume "\<not> i + step \<le> i"
  then have "unat i < unat (i + step)" "unat (i + step) < 18446744073709551616"
    using unat_lt64 by (auto simp: word_le_nat_alt)
  then show "((body, i + step, sz, step, st'), body, i, sz, step, st) \<in>
      measure (\<lambda>(body, i, sz, step, st). 18446744073709551616 - unat i)" by simp
qed simp

declare for_loop.simps [simp del]

text \<open>
  \<^verbatim>\<open>get_next_lvl\<close>, \<^verbatim>\<open>virtual_to_entry\<close> and \<^verbatim>\<open>map_page\<close> call each other.  The first group of definitions takes the
  \<^verbatim>\<open>map_page\<close> that \<^verbatim>\<open>get_next_lvl\<close> calls as the argument \<open>mp\<close>.  Entries are passed by their address.
\<close>

type_synonym map_fn = "u64 \<Rightarrow> u64 \<Rightarrow> u64 \<Rightarrow> vm \<Rightarrow> int vmres"

definition get_next_lvl_via :: "map_fn \<Rightarrow> boot \<Rightarrow> u64 \<Rightarrow> bool \<Rightarrow> u64 \<Rightarrow> u64 \<Rightarrow> u64 \<Rightarrow> vm \<Rightarrow> u64 vmres" where
  "get_next_lvl_via mp b entry allocate virtual_address old_page_size page_size st =
     vbind
       (if is_valid (entry_at st entry)
        then if is_large (entry_at st entry) \<and> old_page_size \<noteq> - 1
             then let old_flags = vmm_flags (pte_get_flags (entry_at st entry)) (old_page_size > PAGE_SIZE);
                      old_phys_address = pte_get_address (entry_at st entry);
                      old_virt_address = virtual_address AND NOT (old_page_size - 1)
                  in if old_phys_address AND (old_page_size - 1) \<noteq> 0
                     then Inl (Unexpected_entry_address old_phys_address)
                     else vbind (vm_allocate b st) (\<lambda>ret st.
                          let st = set_entry entry (pte_set_flags (pte_set_address (entry_at st entry) ret) NEW_PAGE_FLAGS) st
                          in vbind (for_loop (\<lambda>i st. vbind (mp (old_virt_address + i) (old_phys_address + i)
                                                      (old_flags OR get_page_size_flags page_size) st)
                                              (\<lambda>_ st. Inr (SYSTEM_OK, st)))
                                      0 old_page_size page_size st)
                               (\<lambda>_ st. Inr (ret, st)))
             else Inr (pte_get_address (entry_at st entry), st)
        else if allocate
        then vbind (vm_allocate b st) (\<lambda>ret st.
             Inr (ret, set_entry entry (pte_set_flags (pte_set_address (entry_at st entry) ret) NEW_PAGE_FLAGS) st))
        else Inr (0, st))
       (\<lambda>ret st. Inr (to_higher_half (hhdm b) ret, st))"

definition entries :: "u64 \<Rightarrow> u64 \<Rightarrow> u64" where
  "entries table i = table + 8 * i"

definition virtual_to_entry_via :: "map_fn \<Rightarrow> boot \<Rightarrow> u64 \<Rightarrow> bool \<Rightarrow> u64 \<Rightarrow> bool \<Rightarrow> vm \<Rightarrow> u64 vmres" where
  "virtual_to_entry_via mp b virtual_address allocate page_size check_large st =
     (let pml5_entry = GET_PML_ENTRY virtual_address 48;
          pml4_entry = GET_PML_ENTRY virtual_address 39;
          pdp_entry = GET_PML_ENTRY virtual_address 30;
          pd_entry = GET_PML_ENTRY virtual_address 21;
          pt_entry = GET_PML_ENTRY virtual_address 12
      in if top_lvl (this st) = 0 then Inr (0, st)
         else vbind (if is_paging_mode_max b
                     then get_next_lvl_via mp b (entries (top_lvl (this st)) pml5_entry) allocate (- 1) (- 1) (- 1) st
                     else Inr (top_lvl (this st), st)) (\<lambda>pml4 st.
         if pml4 = 0 then Inr (0, st)
         else vbind (get_next_lvl_via mp b (entries pml4 pml4_entry) allocate (- 1) (- 1) (- 1) st) (\<lambda>pdp st.
         if pdp = 0 then Inr (0, st)
         else if page_size = PAGE_SIZE_1GiB \<or> (check_large \<and> is_large (entry_at st (entries pdp pdp_entry)))
         then Inr (entries pdp pdp_entry, st)
         else vbind (get_next_lvl_via mp b (entries pdp pdp_entry) allocate virtual_address PAGE_SIZE_1GiB page_size st) (\<lambda>pd st.
         if pd = 0 then Inr (0, st)
         else if page_size = PAGE_SIZE_2MiB \<or> (check_large \<and> is_large (entry_at st (entries pdp pd_entry)))
         then Inr (entries pd pd_entry, st)
         else vbind (get_next_lvl_via mp b (entries pd pd_entry) allocate virtual_address PAGE_SIZE_2MiB page_size st) (\<lambda>pt st.
         if pt = 0 then Inr (0, st)
         else Inr (entries pt pt_entry, st))))))"

definition map_one_via :: "map_fn \<Rightarrow> boot \<Rightarrow> u64 \<Rightarrow> u64 \<Rightarrow> u64 \<Rightarrow> u64 \<Rightarrow> vm \<Rightarrow> int vmres" where
  "map_one_via mp b virtual_address physical_address flags page_size st =
     vbind (virtual_to_entry_via mp b virtual_address True page_size False st) (\<lambda>pml_entry st.
       if pml_entry = 0 then Inr (SYSTEM_ERR_ADDRESS_UNREACHABLE, st)
       else let st = set_entry pml_entry (pte_reset (entry_at st pml_entry)) st;
                st = set_entry pml_entry (pte_set_address (entry_at st pml_entry) physical_address) st;
                st = set_entry pml_entry (pte_set_flags (entry_at st pml_entry) flags) st
            in Inr (SYSTEM_OK, st))"

definition map_page_via :: "map_fn \<Rightarrow> boot \<Rightarrow> map_fn" where
  "map_page_via mp b virtual_address physical_address flags =
     with_guard (\<lambda>st.
       let page_size = flag_to_page_size flags;
           parsed_flags = PageMap_parse_flags flags
       in if page_size = PAGE_SIZE_1GiB \<and> \<not> pml3_translation st
          then vbind (for_loop (\<lambda>i. map_one_via mp b (virtual_address + i) (physical_address + i) parsed_flags PAGE_SIZE_2MiB)
                        0 PAGE_SIZE_1GiB PAGE_SIZE_2MiB st)
                 (\<lambda>(r, i) st. Inr (if r \<noteq> SYSTEM_OK then SYSTEM_ERR_ADDRESS_UNREACHABLE else SYSTEM_OK, st))
          else map_one_via mp b virtual_address physical_address parsed_flags page_size st)"

primrec map_page_n :: "nat \<Rightarrow> boot \<Rightarrow> map_fn" where
  "map_page_n 0 b virtual_address physical_address flags st = Inl Nesting_bound"
| "map_page_n (Suc n) b virtual_address physical_address flags st =
     map_page_via (map_page_n n b) b virtual_address physical_address flags st"

text \<open>
  A nested call finds the lock taken, so that nesting never goes deeper than two calls: \<open>map_page_n\<close>
  is the same function for every bound from 2 on (\<open>map_page_n_stable\<close> below).
\<close>

definition map_page :: "boot \<Rightarrow> map_fn" where
  "map_page b = map_page_n 2 b"

definition get_next_lvl :: "boot \<Rightarrow> u64 \<Rightarrow> bool \<Rightarrow> u64 \<Rightarrow> u64 \<Rightarrow> u64 \<Rightarrow> vm \<Rightarrow> u64 vmres" where
  "get_next_lvl b = get_next_lvl_via (map_page b) b"

definition virtual_to_entry :: "boot \<Rightarrow> u64 \<Rightarrow> bool \<Rightarrow> u64 \<Rightarrow> bool \<Rightarrow> vm \<Rightarrow> u64 vmres" where
  "virtual_to_entry b = virtual_to_entry_via (map_page b) b"

definition virtual_to_physical :: "boot \<Rightarrow> u64 \<Rightarrow> u64 \<Rightarrow> vm \<Rightarrow> u64 vmres" where
  "virtual_to_physical b virtual_address flags =
     with_guard (\<lambda>st.
       let page_size = flag_to_page_size flags
       in vbind (virtual_to_entry b virtual_address False page_size True st) (\<lambda>pml_entry st.
            Inr (if pml_entry = 0 \<or> \<not> pte_has_flags (entry_at st pml_entry) PAGE_FLAG_PRESENT then - 1
                 else pte_get_address (entry_at st pml_entry) + virtual_address mod page_size, st)))"

definition unmap_one :: "boot \<Rightarrow> u64 \<Rightarrow> u64 \<Rightarrow> vm \<Rightarrow> int vmres" where
  "unmap_one b virtual_address page_size st =
     vbind (virtual_to_entry b virtual_address False page_size True st) (\<lambda>pml_entry st.
       if pml_entry = 0 then Inr (SYSTEM_ERR_ADDRESS_UNREACHABLE, st)
       else let st = set_entry pml_entry (pte_reset (entry_at st pml_entry)) st
            in Inr (SYSTEM_OK, st\<lparr>flushed := flushed st @ [virtual_address]\<rparr>))"

definition unmap_page :: "boot \<Rightarrow> u64 \<Rightarrow> u64 \<Rightarrow> vm \<Rightarrow> int vmres" where
  "unmap_page b virtual_address flags =
     with_guard (\<lambda>st.
       let page_size = flag_to_page_size flags
       in if page_size = PAGE_SIZE_1GiB \<and> \<not> pml3_translation st
          then vbind (for_loop (\<lambda>i. unmap_one b (virtual_address + i) PAGE_SIZE_2MiB) 0 PAGE_SIZE_1GiB PAGE_SIZE_2MiB st)
                 (\<lambda>(r, i) st. Inr (if r \<noteq> SYSTEM_OK then SYSTEM_ERR_ADDRESS_UNREACHABLE else SYSTEM_OK, st))
          else unmap_one b virtual_address page_size st)"

definition setflags_page :: "boot \<Rightarrow> u64 \<Rightarrow> u64 \<Rightarrow> vm \<Rightarrow> int vmres" where
  "setflags_page b virtual_address flags =
     with_guard (\<lambda>st.
       let page_size = flag_to_page_size flags;
           parsed_flags = PageMap_parse_flags flags
       in vbind (virtual_to_entry b virtual_address True page_size True st) (\<lambda>pml_entry st.
            if pml_entry = 0 then Inr (SYSTEM_ERR_ADDRESS_UNREACHABLE, st)
            else let physical_address = pte_get_address (entry_at st pml_entry);
                     st = set_entry pml_entry (pte_reset (entry_at st pml_entry)) st;
                     st = set_entry pml_entry (pte_set_address (entry_at st pml_entry) physical_address) st;
                     st = set_entry pml_entry (pte_set_flags (entry_at st pml_entry) parsed_flags) st
                 in Inr (SYSTEM_OK, st)))"

definition remap_page :: "boot \<Rightarrow> u64 \<Rightarrow> u64 \<Rightarrow> u64 \<Rightarrow> vm \<Rightarrow> int vmres" where
  "remap_page b old_virtual_address new_virtual_address flags st =
     vbind (virtual_to_physical b old_virtual_address flags st) (\<lambda>physical_address st.
     vbind (unmap_page b old_virtual_address flags st) (\<lambda>_ st.
     map_page b new_virtual_address physical_address flags st))"

definition unmap_pages :: "boot \<Rightarrow> u64 \<Rightarrow> u64 \<Rightarrow> u64 \<Rightarrow> vm \<Rightarrow> int vmres" where
  "unmap_pages b virtual_address sz flags st =
     vbind (for_loop (\<lambda>i. unmap_page b (virtual_address + i) flags) 0 sz (flag_to_page_size flags) st)
       (\<lambda>(r, i) st. Inr (if r \<noteq> SYSTEM_OK then SYSTEM_ERR_ADDRESS_UNREACHABLE else SYSTEM_OK, st))"

definition map_pages :: "boot \<Rightarrow> u64 \<Rightarrow> u64 \<Rightarrow> u64 \<Rightarrow> u64 \<Rightarrow> vm \<Rightarrow> int vmres" where
  "map_pages b virtual_address physical_address sz flags st =
     (let page_size = flag_to_page_size flags
      in vbind (for_loop (\<lambda>i. map_page b (virtual_address + i) (physical_address + i) flags) 0 sz page_size st)
           (\<lambda>(r, i) st.
              if r \<noteq> SYSTEM_OK
              then vbind (unmap_pages b virtual_address (i - page_size) flags st)
                     (\<lambda>_ st. Inr (SYSTEM_ERR_ADDRESS_UNREACHABLE, st))
              else Inr (SYSTEM_OK, st)))"

definition setflags_pages :: "boot \<Rightarrow> u64 \<Rightarrow> u64 \<Rightarrow> u64 \<Rightarrow> vm \<Rightarrow> int vmres" where
  "setflags_pages b virtual_address sz flags st =
     vbind (for_loop (\<lambda>i. setflags_page b (virtual_address + i) flags) 0 sz (flag_to_page_size flags) st)
       (\<lambda>(r, i) st. Inr (if r \<noteq> SYSTEM_OK then SYSTEM_ERR_ADDRESS_UNREACHABLE else SYSTEM_OK, st))"

definition remap_pages :: "boot \<Rightarrow> u64 \<Rightarrow> u64 \<Rightarrow> u64 \<Rightarrow> u64 \<Rightarrow> vm \<Rightarrow> int vmres" where
  "remap_pages b old_virtual_address new_virtual_address sz flags st =
     vbind (for_loop (\<lambda>i. remap_page b (old_virtual_address + i) (new_virtual_address + i) flags)
              0 sz (flag_to_page_size flags) st)
       (\<lambda>(r, i) st. Inr (if r \<noteq> SYSTEM_OK then SYSTEM_ERR_ADDRESS_UNREACHABLE else SYSTEM_OK, st))"

definition pagemap_load :: "boot \<Rightarrow> vm \<Rightarrow> vm" where
  "pagemap_load b st = st\<lparr>cr3 := from_higher_half (hhdm b) (top_lvl (this st))\<rparr>"

definition pagemap_save :: "boot \<Rightarrow> vm \<Rightarrow> vm" where
  "pagemap_save b st = st\<lparr>this := (this st)\<lparr>top_lvl := to_higher_half (hhdm b) (cr3 st)\<rparr>\<rparr>"

text \<open>\<^verbatim>\<open>destroy_level\<close> and the destructor; the loop over the entries is a recursion on their number.\<close>

function destroy_level :: "boot \<Rightarrow> nat \<Rightarrow> u64 \<Rightarrow> nat \<Rightarrow> nat \<Rightarrow> vm \<Rightarrow> unit vmres" where
  "destroy_level b 0 pml i e st = Inr ((), st)"
| "destroy_level b (Suc level) pml i e st =
     (if pml = 0 then Inr ((), st)
      else if i < e
      then vbind (get_next_lvl b (entries pml (of_nat i)) False (- 1) (- 1) (- 1) st) (\<lambda>next st.
           if next = 0 then destroy_level b (Suc level) pml (Suc i) e st
           else vbind (destroy_level b level next 0 512 st) (\<lambda>_ st. destroy_level b (Suc level) pml (Suc i) e st))
      else case physical_free (vphys st) (from_higher_half (hhdm b) (top_lvl (this st))) 1 of
             Inl x \<Rightarrow> Inl (Phys_error x)
           | Inr p \<Rightarrow> Inr ((), st\<lparr>vphys := p\<rparr>))"
  by pat_completeness auto
termination
  by (relation "measures [\<lambda>(b, level, pml, i, e, st). level, \<lambda>(b, level, pml, i, e, st). e - i]") auto

definition pagemap_delete :: "boot \<Rightarrow> vm \<Rightarrow> unit vmres" where
  "pagemap_delete b st = destroy_level b (if is_paging_mode_max b then 5 else 4) (top_lvl (this st)) 0 256 st"

definition DEFAULT_PAT :: u64 where
  "DEFAULT_PAT = push_bit 56 0x7 OR push_bit 48 0x6 OR push_bit 40 0x5 OR push_bit 32 0x4 OR push_bit 24 0x1 OR push_bit 16 0x0"

definition enable_pat :: "vm \<Rightarrow> vm" where
  "enable_pat st = st\<lparr>msr_pat := DEFAULT_PAT\<rparr>"

text \<open>
  \<^verbatim>\<open>PageMap::initialize\<close>.  \<open>huge\<close> is the answer of \<^verbatim>\<open>test_feature(FEATURE_HUGE_PAGE)\<close> and \<open>base\<close> the top level of
  \<^verbatim>\<open>base_pagemap\<close>.
\<close>

function upper_half_loop :: "(nat \<Rightarrow> vm \<Rightarrow> 'a vmres) \<Rightarrow> nat \<Rightarrow> vm \<Rightarrow> unit vmres" where
  "upper_half_loop body i st =
     (if i < 512 then vbind (body i st) (\<lambda>_ st. upper_half_loop body (Suc i) st) else Inr ((), st))"
  by pat_completeness auto
termination
  by (relation "measure (\<lambda>(body, i, st). 512 - i)") auto

definition pagemap_initialize :: "boot \<Rightarrow> bool \<Rightarrow> u64 \<Rightarrow> bool \<Rightarrow> vm \<Rightarrow> unit vmres" where
  "pagemap_initialize b huge base kernel_pagemap st =
     vbind (vm_allocate b st) (\<lambda>a st.
       let top = to_higher_half (hhdm b) a;
           st = st\<lparr>this := (this st)\<lparr>top_lvl := top\<rparr>,
                   vphys := (vphys st)\<lparr>pmem := fst (memset (pmem (vphys st)) top 0 4096)\<rparr>\<rparr>
       in if kernel_pagemap
          then vbind (upper_half_loop (\<lambda>i. get_next_lvl b (entries top (of_nat i)) True (- 1) (- 1) (- 1)) 256
                        (st\<lparr>pml3_translation := huge\<rparr>))
                 (\<lambda>_ st. Inr ((), enable_pat st))
          else upper_half_loop (\<lambda>i st. Inr ((), set_entry (entries top (of_nat i)) (entry_at st (entries base (of_nat i))) st)) 256 st)"

declare upper_half_loop.simps [simp del]

subsection \<open>The lock and the nesting of \<^verbatim>\<open>map_page\<close>\<close>

definition vm_locked :: "vm \<Rightarrow> bool" where
  "vm_locked st \<longleftrightarrow> is_locked (pm_lock (this st))"

lemma vbind_simps [simp]: "vbind (Inl e) f = Inl e" "vbind (Inr (a, st)) f = f a st"
  by (simp_all add: vbind_def)

lemma with_guard_locked: "vm_locked st \<Longrightarrow> with_guard body st = Inl (Page_lock Deadlock)"
  using ticket_mutex.acquire_taken [of "pm_lock (this st)"] by (simp add: with_guard_def vm_locked_def)

text \<open>A map function that cannot be entered while the lock is held.\<close>

definition deadlocks :: "map_fn \<Rightarrow> bool" where
  "deadlocks mp \<longleftrightarrow> (\<forall>va pa flags st. vm_locked st \<longrightarrow> mp va pa flags st = Inl (Page_lock Deadlock))"

lemma deadlocks_map_page [simp]: "deadlocks (map_page_n (Suc n) b)" "deadlocks (map_page_via mp b)"
  by (simp_all add: deadlocks_def map_page_via_def with_guard_locked)

lemma vm_allocate_this: "vm_allocate b st = Inr (a, st') \<Longrightarrow> this st' = this st"
  by (auto simp: vm_allocate_def split: sum.splits)

lemma set_entry_this [simp]: "this (set_entry e v st) = this st"
  by (simp add: set_entry_def)

text \<open>
  What \<^verbatim>\<open>get_next_lvl\<close> does while the lock is held does not depend on the \<^verbatim>\<open>map_page\<close> it calls: splitting a
  large page deadlocks in the first call.
\<close>

lemma split_loop_locked:
  assumes "deadlocks mp" "vm_locked st" "0 < sz"
  shows "for_loop (\<lambda>i st. vbind (mp (va + i) (pa + i) fl st) (\<lambda>_ st. Inr (SYSTEM_OK, st))) 0 sz step st = Inl (Page_lock Deadlock)"
  using assms by (subst for_loop.simps) (simp add: deadlocks_def)

lemma for_loop_0: "for_loop body 0 0 step st = Inr ((SYSTEM_OK, 0), st)"
  by (subst for_loop.simps) simp

lemma get_next_lvl_locked:
  assumes "deadlocks mp" "deadlocks mp'" "vm_locked st"
  shows "get_next_lvl_via mp b e al va ops ps st = get_next_lvl_via mp' b e al va ops ps st"
    "get_next_lvl_via mp b e al va ops ps st = Inr (t, st') \<Longrightarrow> this st' = this st"
proof -
  have loop: "for_loop (\<lambda>i st. vbind (mp (a + i) (c + i) fl st) (\<lambda>_ st. Inr (SYSTEM_OK, st))) 0 ops ps s =
      (if ops = 0 then Inr ((SYSTEM_OK, 0), s) else Inl (Page_lock Deadlock))"
    if "deadlocks mp" "vm_locked s" for mp a c fl s
    using split_loop_locked [OF that] by (simp add: for_loop_0 word_gt_0)
  have s: "vm_locked (set_entry e v s)" if "vm_allocate b st = Inr (r, s)" for r s v
    using assms(3) vm_allocate_this [OF that] by (simp add: vm_locked_def)
  show "get_next_lvl_via mp b e al va ops ps st = get_next_lvl_via mp' b e al va ops ps st"
    unfolding get_next_lvl_via_def Let_def
    by (cases "vm_allocate b st") (auto simp: loop [OF assms(1) s] loop [OF assms(2) s])
  show "this st' = this st" if "get_next_lvl_via mp b e al va ops ps st = Inr (t, st')"
    using that vm_allocate_this [of b st] unfolding get_next_lvl_via_def Let_def
    by (cases "vm_allocate b st") (auto simp: loop [OF assms(1) s] split: if_splits)
qed

lemma vbind_cong:
  assumes "r = r'" "\<And>a st. r' = Inr (a, st) \<Longrightarrow> f a st = g a st"
  shows "vbind r f = vbind r' g"
  using assms by (cases r') (auto simp: vbind_def)

lemma vbind_Inr: "vbind r f = Inr x \<Longrightarrow> (\<And>a st. r = Inr (a, st) \<Longrightarrow> f a st = Inr x \<Longrightarrow> P) \<Longrightarrow> P"
  by (cases r) (auto simp: vbind_def)

lemma virtual_to_entry_locked:
  assumes "deadlocks mp" "deadlocks mp'" "vm_locked st"
  shows "virtual_to_entry_via mp b va al ps cl st = virtual_to_entry_via mp' b va al ps cl st"
    "virtual_to_entry_via mp b va al ps cl st = Inr (e, st') \<Longrightarrow> this st' = this st"
proof -
  have lk: "vm_locked s'" if "get_next_lvl_via mp' b e al va ops ps s = Inr (t, s')" "vm_locked s" for s s' e va ops ps t
    using get_next_lvl_locked(2) [OF assms(2,1) that(2,1)] that(2) by (simp add: vm_locked_def)
  note eq = get_next_lvl_locked(1) [OF assms(1,2)]
  show "virtual_to_entry_via mp b va al ps cl st = virtual_to_entry_via mp' b va al ps cl st"
    unfolding virtual_to_entry_via_def Let_def
    by (intro if_cong refl vbind_cong eq) (auto simp: assms(3) split: if_splits, (metis lk assms(3))+)
  have tk: "this s' = this s \<and> vm_locked s'"
    if "get_next_lvl_via mp b e al va ops ps s = Inr (t, s')" "vm_locked s" for s s' e va ops ps t
    using get_next_lvl_locked(2) [OF assms(1,2) that(2,1)] that(2) by (simp add: vm_locked_def)
  show "this st' = this st" if "virtual_to_entry_via mp b va al ps cl st = Inr (e, st')"
    using that assms(3) unfolding virtual_to_entry_via_def Let_def
    by (auto elim!: vbind_Inr split: if_splits dest!: tk)
qed

lemma map_one_locked:
  assumes "deadlocks mp" "deadlocks mp'" "vm_locked st"
  shows "map_one_via mp b va pa fl ps st = map_one_via mp' b va pa fl ps st"
    "map_one_via mp b va pa fl ps st = Inr (r, st') \<Longrightarrow> this st' = this st"
proof -
  note v = virtual_to_entry_locked [OF assms]
  show "map_one_via mp b va pa fl ps st = map_one_via mp' b va pa fl ps st"
    unfolding map_one_via_def v(1) ..
  show "this st' = this st" if "map_one_via mp b va pa fl ps st = Inr (r, st')"
    using that unfolding map_one_via_def Let_def
    by (auto elim!: vbind_Inr split: if_splits simp: v(2))
qed

lemma for_loop_locked:
  assumes "vm_locked st" "\<And>i s. vm_locked s \<Longrightarrow> body i s = body' i s"
    "\<And>i s r s'. vm_locked s \<Longrightarrow> body i s = Inr (r, s') \<Longrightarrow> this s' = this s"
  shows "for_loop body i sz step st = for_loop body' i sz step st \<and>
    (\<forall>r st'. for_loop body i sz step st = Inr (r, st') \<longrightarrow> this st' = this st)"
  using assms
proof (induction body i sz step st rule: for_loop.induct)
  case (1 body i sz step st)
  have e: "body' i st = body i st" using 1(2,3) by simp
  show ?case
  proof (cases "body i st")
    case (Inl x)
    then show ?thesis using e by (simp add: for_loop.simps [of body] for_loop.simps [of body'])
  next
    case (Inr y)
    then obtain r s where y: "body i st = Inr (r, s)" by (cases y) auto
    have s: "vm_locked s" "this s = this st" using 1(4) [OF 1(2) y] 1(2) by (simp_all add: vm_locked_def)
    show ?thesis
      using 1(1) [OF _ y refl] 1(3,4) s y e
      by (simp add: for_loop.simps [of body i] for_loop.simps [of body' i])
  qed
qed

lemma map_page_via_deadlocks:
  assumes "deadlocks mp" "deadlocks mp'"
  shows "map_page_via mp b = map_page_via mp' b"
proof (intro ext)
  fix va pa fl st
  show "map_page_via mp b va pa fl st = map_page_via mp' b va pa fl st"
  proof (cases "lock_seq (pm_lock (this st))")
    case (Inl e)
    then show ?thesis by (simp add: map_page_via_def with_guard_def)
  next
    case (Inr l)
    let ?st = "st\<lparr>this := (this st)\<lparr>pm_lock := l\<rparr>\<rparr>"
    have lk: "vm_locked ?st" using ticket_mutex.section_returns_free(2) [OF Inr] by (simp add: vm_locked_def)
    note loop = for_loop_locked [OF lk map_one_locked(1) [OF assms] map_one_locked(2) [OF assms], THEN conjunct1]
    show ?thesis using Inr map_one_locked(1) [OF assms lk]
      by (simp add: map_page_via_def with_guard_def Let_def loop)
  qed
qed

text \<open>The bound on the nesting is no restriction.\<close>

lemma map_page_n_stable: "map_page_n (Suc (Suc n)) b = map_page b"
proof -
  have e: "map_page_n (Suc k) b = map_page_via (map_page_n k b) b" for k by (intro ext) simp
  have "map_page_via (map_page_n (Suc n) b) b = map_page_via (map_page_n (Suc 0) b) b"
    by (rule map_page_via_deadlocks) simp_all
  then show ?thesis unfolding map_page_def numeral_2_eq_2 e .
qed

lemma map_page_unfold: "map_page b = map_page_via (map_page b) b"
  using map_page_n_stable [of 1 b] map_page_n_stable [of 0 b] by (intro ext) (metis One_nat_def map_page_n.simps(2))

end
