(* ===== verification/Address_Space.thy ===== *)
theory Address_Space
  imports Paging
begin

text \<open>
  Correctness of the page tables for 4 KiB pages.  The tables of a page map form a tree; \<open>leaf\<close> is the
  partial function from pages to entries it represents.  Mapping, unmapping and looking up are
  updates and applications of that function.
\<close>

subsection \<open>Paths of addresses\<close>

definition depth :: "boot \<Rightarrow> nat" where
  "depth b = (if is_paging_mode_max b then 4 else 3)"

definition path_of :: "boot \<Rightarrow> u64 \<Rightarrow> nat list" where
  "path_of b va = (if is_paging_mode_max b then [unat (GET_PML_ENTRY va 48)] else []) @
     [unat (GET_PML_ENTRY va 39), unat (GET_PML_ENTRY va 30), unat (GET_PML_ENTRY va 21)]"

definition vpage :: "boot \<Rightarrow> u64 \<Rightarrow> nat list" where
  "vpage b va = path_of b va @ [unat (GET_PML_ENTRY va 12)]"

lemma path_of_path: "is_path (depth b) (path_of b va)" "length (path_of b va) = depth b"
  by (simp_all add: path_of_def depth_def is_path_def GET_PML_ENTRY_lt)

lemma vpage_page [simp]: "is_page (depth b) (vpage b va)"
  using path_of_path [of b va] by (auto simp: vpage_def is_page_def is_path_def GET_PML_ENTRY_lt)

lemma entries_slot: "entries (page_addr h p) i = slot h p (unat i)"
  by (simp add: entries_def slot_def)

subsection \<open>The invariant\<close>

text \<open>
  The tree of the page map lies in pages of the allocator, which are addressable by an entry; the
  physical page 0, which the lookup of an absent table ends up in, is blank.
\<close>

definition null_page :: "u64 \<Rightarrow> phys \<Rightarrow> bool" where
  "null_page h st \<longleftrightarrow> 0 < page_limit st \<and> \<not> bitmap_page h st 0 \<and> (\<forall>i < 512. load64 (pmem st) (slot h 0 i) = 0)"

definition vm_tree :: "boot \<Rightarrow> nat \<Rightarrow> vm \<Rightarrow> bool" where
  "vm_tree b r st \<longleftrightarrow> phys_inv (hhdm b) (vphys st) \<and> page_limit (vphys st) \<le> 2 ^ 40 \<and>
     top_lvl (this st) = page_addr (hhdm b) r \<and> tree_ok (depth b) (hhdm b) (vphys st) r \<and> null_page (hhdm b) (vphys st)"

lemma vm_treeD:
  assumes "vm_tree b r st"
  shows "phys_inv (hhdm b) (vphys st)" "page_limit (vphys st) \<le> 2 ^ 40" "top_lvl (this st) = page_addr (hhdm b) r"
    "tree_ok (depth b) (hhdm b) (vphys st) r" "null_page (hhdm b) (vphys st)"
  using assms by (simp_all add: vm_tree_def)

abbreviation vwalk :: "boot \<Rightarrow> nat \<Rightarrow> vm \<Rightarrow> nat list \<Rightarrow> nat option" where
  "vwalk b r st \<equiv> walk (hhdm b) (pmem (vphys st)) r"

definition vleaf :: "boot \<Rightarrow> nat \<Rightarrow> vm \<Rightarrow> nat list \<Rightarrow> u64 option" where
  "vleaf b r st ks = leaf (hhdm b) (pmem (vphys st)) r ks"

lemma page_addr_nonzero:
  assumes "phys_layout h st" "p < page_limit st"
  shows "page_addr h p \<noteq> 0"
proof
  assume "page_addr h p = 0"
  then have "unat h + 4096 * p = 0" using unat_page_addr [OF assms] by simp
  then show False using phys_layoutD(3) [OF assms(1)] assms(2) by simp
qed

lemma pte_page:
  "of_nat (unat (pte_get_address v) div 4096) * PAGE_SIZE = pte_get_address v"
proof -
  have m: "PAGE_ADDR_MASK = mask 52 AND NOT (mask 12)" by (simp add: PAGE_ADDR_MASK_def mask_eq_exp_minus_1)
  have "take_bit 12 (pte_get_address v) = 0"
    unfolding pte_get_address_def m by (intro bit_word_eqI) (auto simp: bit_simps)
  then have "unat (pte_get_address v) mod 4096 = 0"
    by (simp add: take_bit_eq_mod word_unat_eq_iff unat_mod_distrib)
  then have "unat (pte_get_address v) = 4096 * (unat (pte_get_address v) div 4096)" by (metis add.right_neutral mult_div_mod_eq)
  then show ?thesis unfolding PAGE_SIZE_def
    by (metis (no_types, lifting) mult.commute of_nat_mult of_nat_numeral u64_of_nat_unat)
qed

subsection \<open>One level\<close>

lemma next_present:
  assumes "vm_tree b r st" "is_path (depth b) (is @ [i])" "vwalk b r st is = Some p" "vwalk b r st (is @ [i]) = Some q"
  shows "get_next_lvl_via mp b (slot (hhdm b) p i) al va ops ps st = Inr (page_addr (hhdm b) q, st)"
proof -
  note t = vm_treeD [OF assms(1)]
  let ?v = "load64 (pmem (vphys st)) (slot (hhdm b) p i)"
  have c: "pt_child (hhdm b) (pmem (vphys st)) p i = Some q" using assms(3,4) by (simp add: walk_snoc)
  then have v: "is_valid ?v" "q = unat (pte_get_address ?v) div 4096" by (auto simp: pt_child_def Let_def split: if_splits)
  have l: "\<not> is_large ?v" using tree_okD(3) [OF t(4) assms(2,3)] .
  have "q < page_limit (vphys st)" using tree_ok_table(1) [OF t(4) assms(2,4)] .
  then have "to_higher_half (hhdm b) (pte_get_address ?v) = page_addr (hhdm b) q"
    using higher_half_page [OF phys_invD(1) [OF t(1)], of q] pte_page [of ?v] v(2) by simp
  then show ?thesis using v l by (simp add: get_next_lvl_via_def entry_at_def)
qed

lemma next_null:
  assumes "vm_tree b r st" "\<not> is_valid (entry_at st e)"
  shows "get_next_lvl_via mp b e False va ops ps st = Inr (page_addr (hhdm b) 0, st)"
proof -
  note t = vm_treeD [OF assms(1)]
  have "to_higher_half (hhdm b) 0 = page_addr (hhdm b) 0"
    using higher_half_page [OF phys_invD(1) [OF t(1)], of 0] t(5) by (simp add: null_page_def)
  then show ?thesis using assms(2) by (simp add: get_next_lvl_via_def)
qed

text \<open>
  The state after a table was linked: the same pages are mapped, at most one page was taken, and
  nothing but the memory changed.
\<close>

text \<open>A page that is a table of the tree.\<close>

definition is_table :: "boot \<Rightarrow> nat \<Rightarrow> vm \<Rightarrow> nat \<Rightarrow> bool" where
  "is_table b r st p \<longleftrightarrow> (\<exists>is. is_path (depth b) is \<and> vwalk b r st is = Some p)"

definition grows :: "boot \<Rightarrow> nat \<Rightarrow> vm \<Rightarrow> vm \<Rightarrow> bool" where
  "grows b r st st' \<longleftrightarrow> taken (vphys st) \<subseteq> taken (vphys st') \<and> reserved (hhdm b) (vphys st') = reserved (hhdm b) (vphys st) \<and>
     (\<forall>is q. is_path (depth b) is \<longrightarrow> vwalk b r st is = Some q \<longrightarrow> vwalk b r st' is = Some q) \<and>
     (\<forall>q \<in> taken (vphys st') - taken (vphys st). is_table b r st' q) \<and>
     (\<forall>is q. is_path (depth b) is \<longrightarrow> vwalk b r st' is = Some q \<longrightarrow> vwalk b r st is = Some q \<or> q \<notin> taken (vphys st))"

lemma grows_table: "grows b r st st' \<Longrightarrow> is_table b r st q \<Longrightarrow> is_table b r st' q"
  unfolding grows_def is_table_def by blast

lemma grows_trans: "grows b r s1 s2 \<Longrightarrow> grows b r s2 s3 \<Longrightarrow> grows b r s1 s3"
  using grows_table [of b r s2 s3] unfolding grows_def by blast

definition extends :: "boot \<Rightarrow> nat \<Rightarrow> nat \<Rightarrow> vm \<Rightarrow> vm \<Rightarrow> bool" where
  "extends b r n st st' \<longleftrightarrow> vm_tree b r st' \<and> (\<forall>ks. is_page (depth b) ks \<longrightarrow> vleaf b r st' ks = vleaf b r st ks) \<and>
     (\<forall>js p. is_path (depth b) js \<longrightarrow> vwalk b r st js = Some p \<longrightarrow> vwalk b r st' js = Some p) \<and> grows b r st st' \<and>
     st' = st\<lparr>vphys := vphys st'\<rparr> \<and> free_count (vphys st) \<le> free_count (vphys st') + n"

lemma extends_trans: "extends b r n s1 s2 \<Longrightarrow> extends b r k s2 s3 \<Longrightarrow> extends b r (n + k) s1 s3"
  unfolding extends_def by (intro conjI) (simp_all, metis grows_trans, metis vm.surjective vm.update_convs(1))

lemma null_page_slot:
  assumes "phys_layout h st" "null_page h st" "p < page_limit st" "p \<noteq> 0" "i < 512"
  shows "null_page h (st\<lparr>pmem := store64 (pmem st) (slot h p i) v\<rparr>)"
  using assms load_store_slot [OF assms(1,3) _ assms(5), of 0] same_geometry(1,4) [of "st\<lparr>pmem := m\<rparr>" st for m]
  by (simp add: null_page_def)

lemma null_page_granted:
  assumes "phys_inv h st" "null_page h st" "q < page_limit st" "q \<notin> taken st"
  shows "null_page h (granted h st q 1)"
proof -
  have "load64 (pmem (granted h st q 1)) (slot h 0 j) = 0" if "j < 512" for j
  proof -
    have "load64 (pmem (granted h st q 1)) (slot h 0 j) = load64 (pmem st) (slot h 0 j)"
      using granted_load [OF assms(1,3,4) _ _ that, of 0] assms(2) phys_invD(4) [OF assms(1)]
      by (simp add: null_page_def taken_def)
    then show ?thesis using assms(2) that by (simp add: null_page_def)
  qed
  then show ?thesis using assms(2) by (simp add: null_page_def)
qed

lemma next_alloc:
  assumes "vm_tree b r st" "is_path (depth b) (is @ [i])" "vwalk b r st is = Some p" "vwalk b r st (is @ [i]) = None"
  shows "(\<exists>q st'. get_next_lvl_via mp b (slot (hhdm b) p i) True va ops ps st = Inr (page_addr (hhdm b) q, st') \<and>
      vwalk b r st' (is @ [i]) = Some q \<and> extends b r 1 st st') \<or>
    (get_next_lvl_via mp b (slot (hhdm b) p i) True va ops ps st = Inl (Phys_error Out_of_memory) \<and> free_count (vphys st) = 0)"
proof -
  let ?h = "hhdm b" and ?ph = "vphys st" and ?d = "depth b"
  note t = vm_treeD [OF assms(1)]
  note lay = phys_invD(1) [OF t(1)]
  have path: "is_path ?d is" "i < 512" using assms(2) by auto
  note t0 = tree_ok_table [OF t(4) path(1) assms(3)]
  have absent: "\<not> is_valid (load64 (pmem ?ph) (slot ?h p i))"
    using assms(3,4) by (auto simp: walk_snoc pt_child_def Let_def split: if_splits)
  show ?thesis
  proof (cases "\<exists>q. q < page_limit ?ph \<and> q \<notin> taken ?ph \<and> physical_allocate ?h ?ph 1 = Inr (granted ?h ?ph q 1, of_nat q * PAGE_SIZE)")
    case True
    then obtain q where q: "q < page_limit ?ph" "q \<notin> taken ?ph"
      and al: "physical_allocate ?h ?ph 1 = Inr (granted ?h ?ph q 1, of_nat q * PAGE_SIZE)" by blast
    define ph1 where "ph1 = granted ?h ?ph q 1"
    define ph2 where "ph2 = ph1\<lparr>pmem := store64 (pmem ph1) (slot ?h p i)
      (pte_set_flags (pte_set_address (load64 (pmem ph1) (slot ?h p i)) (of_nat q * PAGE_SIZE)) NEW_PAGE_FLAGS)\<rparr>"
    note link = link_granted [OF t(1,4) assms(2,3) q t(2) absent ph1_def ph2_def]
    have res: "get_next_lvl_via mp b (slot ?h p i) True va ops ps st = Inr (page_addr ?h q, st\<lparr>vphys := ph2\<rparr>)"
      using absent al higher_half_page [OF lay q(1)]
      by (simp add: get_next_lvl_via_def entry_at_def vm_allocate_def set_entry_def ph1_def ph2_def)
    have n1: "null_page ?h ph1" unfolding ph1_def using null_page_granted [OF t(1,5) q] .
    have lay1: "phys_layout ?h ph1" "page_limit ph1 = page_limit ?ph" using lay by (simp_all add: ph1_def)
    have "null_page ?h ph2"
      unfolding ph2_def using null_page_slot [OF lay1(1) n1 _ _ path(2)] t0 not_reservedD [OF t0(3,1)] lay1(2) by simp
    then have tree: "vm_tree b r (st\<lparr>vphys := ph2\<rparr>)"
      using link t tree_linked [OF link(1)] by (simp add: vm_tree_def)
    have new: "is_table b r (st\<lparr>vphys := ph2\<rparr>) q"
      unfolding is_table_def by (rule exI [of _ "is @ [i]"]) (use assms(2) walk_linked [OF link(1) assms(2)] in simp)
    have old: "vwalk b r (st\<lparr>vphys := ph2\<rparr>) js = Some p'" if "is_path ?d js" "vwalk b r st js = Some p'" for js p'
      using walk_linked [OF link(1) that(1)] that(2) assms(4) by (auto split: if_splits)
    have "grows b r st (st\<lparr>vphys := ph2\<rparr>)"
      using link(1) walk_linked [OF link(1)] q(2) new old by (auto simp: grows_def linked_def split: if_splits)
    then have "extends b r 1 st (st\<lparr>vphys := ph2\<rparr>)"
      using tree leaf_linked [OF link(1)] link(3) walk_linked [OF link(1)] assms(4) by (auto simp: extends_def vleaf_def)
    moreover have "vwalk b r (st\<lparr>vphys := ph2\<rparr>) (is @ [i]) = Some q" using walk_linked [OF link(1) assms(2)] by simp
    ultimately show ?thesis using res by blast
  next
    case False
    then have "free_count ?ph = 0 \<and> physical_allocate ?h ?ph 1 = Inl Out_of_memory" using allocate_one [OF t(1)] by blast
    then show ?thesis using absent by (simp add: get_next_lvl_via_def entry_at_def vm_allocate_def)
  qed
qed

subsection \<open>Walks\<close>

text \<open>
  A walk that allocates: it ends at the entry of the address after taking at most \<open>n\<close> pages, or fails
  because fewer than \<open>n\<close> pages were free.
\<close>

definition reaches :: "boot \<Rightarrow> nat \<Rightarrow> nat \<Rightarrow> vm \<Rightarrow> nat list \<Rightarrow> nat \<Rightarrow> u64 vmres \<Rightarrow> bool" where
  "reaches b r n st js j res \<longleftrightarrow>
     (case res of
        Inl e \<Rightarrow> e = Phys_error Out_of_memory \<and> free_count (vphys st) < n
      | Inr (a, st') \<Rightarrow> \<exists>p. a = slot (hhdm b) p j \<and> vwalk b r st' js = Some p \<and> extends b r n st st')"

lemma extends_refl: "vm_tree b r st \<Longrightarrow> extends b r 0 st st"
  by (simp add: extends_def grows_def)

lemma reaches_extends:
  assumes "extends b r k st st'" "reaches b r n st' js j res"
  shows "reaches b r (k + n) st js j res"
proof (cases res)
  case (Inl e)
  then show ?thesis using assms by (auto simp: reaches_def extends_def)
next
  case (Inr x)
  then obtain a s where "res = Inr (a, s)" by (cases x) auto
  then show ?thesis using assms extends_trans [OF assms(1)] by (auto simp: reaches_def)
qed

lemma vwalk_table:
  assumes "vm_tree b r st" "is_path (depth b) is" "vwalk b r st is = Some p"
  shows "page_addr (hhdm b) p \<noteq> 0" "p < page_limit (vphys st)"
  using vm_treeD [OF assms(1)] tree_ok_table(1) [OF _ assms(2,3)] page_addr_nonzero phys_invD(1) by blast+

lemma descend:
  assumes "vm_tree b r st" "is_path (depth b) (is @ [i])" "vwalk b r st is = Some p"
    and f: "\<And>q st'. extends b r 1 st st' \<Longrightarrow> vm_tree b r st' \<Longrightarrow> vwalk b r st' (is @ [i]) = Some q \<Longrightarrow> page_addr (hhdm b) q \<noteq> 0 \<Longrightarrow>
      reaches b r n st' js j (f (page_addr (hhdm b) q) st')"
  shows "reaches b r (Suc n) st js j (vbind (get_next_lvl_via mp b (slot (hhdm b) p i) True va ops ps st) f)"
proof (cases "vwalk b r st (is @ [i])")
  case (Some q)
  have ex: "extends b r 1 st st" using assms(1) by (simp add: extends_def grows_def)
  from reaches_extends [OF ex f [OF ex assms(1) Some vwalk_table(1) [OF assms(1,2) Some]]]
  show ?thesis using next_present [OF assms(1-3) Some] by simp
next
  case None
  from next_alloc [OF assms(1-3) None, of mp va ops ps] show ?thesis
  proof (elim disjE exE conjE)
    fix q st'
    assume g: "get_next_lvl_via mp b (slot (hhdm b) p i) True va ops ps st = Inr (page_addr (hhdm b) q, st')"
      and w: "vwalk b r st' (is @ [i]) = Some q" and ex: "extends b r 1 st st'"
    have t: "vm_tree b r st'" using ex by (simp add: extends_def)
    show ?thesis using reaches_extends [OF ex f [OF ex t w vwalk_table(1) [OF t assms(2) w]]] g by simp
  next
    assume "get_next_lvl_via mp b (slot (hhdm b) p i) True va ops ps st = Inl (Phys_error Out_of_memory)" "free_count (vphys st) = 0"
    then show ?thesis by (simp add: reaches_def)
  qed
qed

lemma page_sizes [simp]: "PAGE_SIZE \<noteq> PAGE_SIZE_1GiB" "PAGE_SIZE \<noteq> PAGE_SIZE_2MiB" "PAGE_SIZE_2MiB \<noteq> PAGE_SIZE_1GiB"
  by (simp_all add: PAGE_SIZE_def PAGE_SIZE_1GiB_def PAGE_SIZE_2MiB_def)

text \<open>The levels below the PML4, for a table at path \<open>is\<close>.\<close>

lemma walked_not_large:
  assumes "vm_tree b r st" "is_path (depth b) (is @ [i])" "vwalk b r st is = Some p"
  shows "is_large (entry_at st (slot (hhdm b) p i)) = False"
  using tree_okD(3) [OF vm_treeD(4) [OF assms(1)] assms(2,3)] by (simp add: entry_at_def)

lemma extends_walk: "extends b r n st st' \<Longrightarrow> is_path (depth b) js \<Longrightarrow> vwalk b r st js = Some p \<Longrightarrow> vwalk b r st' js = Some p"
  by (simp add: extends_def)

lemma descend_pml4:
  assumes "vm_tree b r st" "vwalk b r st is = Some p" "length is + 3 = depth b" "\<forall>i \<in> set is. i < 512"
  shows "reaches b r 3 st (is @ [unat (GET_PML_ENTRY va 39), unat (GET_PML_ENTRY va 30), unat (GET_PML_ENTRY va 21)])
      (unat (GET_PML_ENTRY va 12))
     (vbind (get_next_lvl_via mp b (entries (page_addr (hhdm b) p) (GET_PML_ENTRY va 39)) True (- 1) (- 1) (- 1) st) (\<lambda>pdp st.
        if pdp = 0 then Inr (0, st)
        else if PAGE_SIZE = PAGE_SIZE_1GiB \<or> (cl \<and> is_large (entry_at st (entries pdp (GET_PML_ENTRY va 30))))
        then Inr (entries pdp (GET_PML_ENTRY va 30), st)
        else vbind (get_next_lvl_via mp b (entries pdp (GET_PML_ENTRY va 30)) True va PAGE_SIZE_1GiB PAGE_SIZE st) (\<lambda>pd st.
        if pd = 0 then Inr (0, st)
        else if PAGE_SIZE = PAGE_SIZE_2MiB \<or> (cl \<and> is_large (entry_at st (entries pdp (GET_PML_ENTRY va 21))))
        then Inr (entries pd (GET_PML_ENTRY va 21), st)
        else vbind (get_next_lvl_via mp b (entries pd (GET_PML_ENTRY va 21)) True va PAGE_SIZE_2MiB PAGE_SIZE st) (\<lambda>pt st.
        if pt = 0 then Inr (0, st)
        else Inr (entries pt (GET_PML_ENTRY va 12), st)))))"
proof -
  let ?h = "hhdm b" and ?i = "unat (GET_PML_ENTRY va 39)" and ?j = "unat (GET_PML_ENTRY va 30)" and ?k = "unat (GET_PML_ENTRY va 21)"
    and ?l = "unat (GET_PML_ENTRY va 12)"
  have path: "is_path (depth b) (is @ [?i])" "is_path (depth b) ((is @ [?i]) @ [?j])"
    "is_path (depth b) (((is @ [?i]) @ [?j]) @ [?k])" "is_path (depth b) ((is @ [?i]) @ [?k])"
    using assms(3,4) by (auto simp: is_path_def GET_PML_ENTRY_lt)
  have e: "is @ [?i, ?j, ?k] = ((is @ [?i]) @ [?j]) @ [?k]" by simp
  have n: "3 = Suc (Suc (Suc 0))" by simp
  show ?thesis
    unfolding entries_slot e n
    apply (rule descend [OF assms(1) path(1) assms(2)])
    subgoal for q s
      apply (simp only: entries_slot page_sizes simp_thms if_False walked_not_large [OF _ path(2)])
      apply (rule descend [OF _ path(2)], assumption, assumption)
      subgoal for q' s'
        apply (simp only: entries_slot page_sizes simp_thms if_False walked_not_large [OF _ path(4) extends_walk [OF _ path(1)]])
        apply (rule descend [OF _ path(3)], assumption, assumption)
        apply (simp only: entries_slot if_False)
        apply (simp add: reaches_def extends_refl)
        done
      done
    done
qed

lemma virtual_to_entry_alloc:
  assumes "vm_tree b r st"
  shows "reaches b r (depth b) st (path_of b va) (unat (GET_PML_ENTRY va 12)) (virtual_to_entry_via mp b va True PAGE_SIZE cl st)"
proof -
  note t = vm_treeD [OF assms]
  have root: "vwalk b r st [] = Some r" "is_path (depth b) []" by (simp_all add: is_path_def)
  have nz: "top_lvl (this st) \<noteq> 0" using vwalk_table(1) [OF assms root(2,1)] t(3) by simp
  show ?thesis
  proof (cases "is_paging_mode_max b")
    case False
    then show ?thesis
      using nz descend_pml4 [OF assms root(1), of va mp cl] t(3)
      by (simp add: virtual_to_entry_via_def path_of_def depth_def Let_def)
  next
    case True
    let ?i = "unat (GET_PML_ENTRY va 48)"
    have d: "depth b = Suc 3" using True by (simp add: depth_def)
    have path: "is_path (depth b) ([] @ [?i])" by (simp add: d is_path_def GET_PML_ENTRY_lt)
    have "reaches b r (Suc 3) st (path_of b va) (unat (GET_PML_ENTRY va 12)) (virtual_to_entry_via mp b va True PAGE_SIZE cl st)"
      unfolding virtual_to_entry_via_def Let_def if_not_P [OF nz] if_P [OF True]
      unfolding t(3) entries_slot
    proof (rule descend [OF assms path root(1)], goal_cases)
      case (1 q s)
      then show ?case using descend_pml4 [OF 1(2,3), of va mp cl] True
        by (simp add: d path_of_def GET_PML_ENTRY_lt entries_slot)
    qed
    then show ?thesis by (simp add: d)
  qed
qed

text \<open>A walk that does not allocate ends up in page 0 where a table is missing.\<close>

definition table :: "boot \<Rightarrow> nat \<Rightarrow> vm \<Rightarrow> nat list \<Rightarrow> nat" where
  "table b r st is = (case vwalk b r st is of Some p \<Rightarrow> p | None \<Rightarrow> 0)"

lemma table_lim: "vm_tree b r st \<Longrightarrow> is_path (depth b) is \<Longrightarrow> table b r st is < page_limit (vphys st)"
  using vwalk_table(2) vm_treeD(5) by (auto simp: table_def null_page_def split: option.split)

lemma table_addr: "vm_tree b r st \<Longrightarrow> is_path (depth b) is \<Longrightarrow> page_addr (hhdm b) (table b r st is) \<noteq> 0"
  using page_addr_nonzero [OF phys_invD(1) [OF vm_treeD(1)] table_lim] by blast

lemma table_not_large:
  assumes "vm_tree b r st" "is_path (depth b) (is @ [i])"
  shows "\<not> is_large (entry_at st (slot (hhdm b) (table b r st is) i))"
  using tree_okD(3) [OF vm_treeD(4) [OF assms(1)] assms(2)] vm_treeD(5) [OF assms(1)] assms(2)
  by (auto simp: table_def entry_at_def null_page_def split: option.split)

lemma next_lookup:
  assumes "vm_tree b r st" "is_path (depth b) (is @ [i])"
  shows "get_next_lvl_via mp b (slot (hhdm b) (table b r st is) i) False va ops ps st =
    Inr (page_addr (hhdm b) (table b r st (is @ [i])), st)"
proof (cases "vwalk b r st (is @ [i])")
  case (Some q)
  then obtain p where p: "vwalk b r st is = Some p" by (auto simp: walk_snoc split: option.splits)
  then show ?thesis using next_present [OF assms p Some] Some by (simp add: table_def)
next
  case None
  have "\<not> is_valid (entry_at st (slot (hhdm b) (table b r st is) i))"
  proof (cases "vwalk b r st is")
    case (Some p)
    then show ?thesis using None by (auto simp: walk_snoc pt_child_def entry_at_def table_def Let_def split: if_splits)
  next
    case None
    then show ?thesis using vm_treeD(5) [OF assms(1)] assms(2) by (simp add: table_def null_page_def entry_at_def)
  qed
  then show ?thesis using next_null [OF assms(1)] None by (simp add: table_def)
qed

lemma virtual_to_entry_lookup:
  assumes "vm_tree b r st"
  shows "virtual_to_entry_via mp b va False PAGE_SIZE True st =
    Inr (slot (hhdm b) (table b r st (path_of b va)) (unat (GET_PML_ENTRY va 12)), st)"
proof -
  let ?i = "unat (GET_PML_ENTRY va 39)" and ?j = "unat (GET_PML_ENTRY va 30)" and ?k = "unat (GET_PML_ENTRY va 21)"
  have root: "top_lvl (this st) = page_addr (hhdm b) (table b r st [])" using vm_treeD(3) [OF assms] by (simp add: table_def)
  have low: "is_path (depth b) (is @ [?i])" "is_path (depth b) ((is @ [?i]) @ [?j])"
      "is_path (depth b) ((is @ [?i]) @ [?k])" "is_path (depth b) (((is @ [?i]) @ [?j]) @ [?k])"
    if "length is + 3 = depth b" "\<forall>i \<in> set is. i < 512" for "is"
    using that by (auto simp: is_path_def GET_PML_ENTRY_lt)
  note step = next_lookup [OF assms] table_not_large [OF assms] table_addr [OF assms] entries_slot page_sizes
  show ?thesis
  proof (cases "is_paging_mode_max b")
    case False
    then have "length [] + 3 = depth b" by (simp add: depth_def)
    note path = low [OF this, simplified]
    have e: "[] @ [?i] = [?i]" "[?i] @ [?j] = [?i, ?j]" "[?i, ?j] @ [?k] = [?i, ?j, ?k]" "[?i] @ [?k] = [?i, ?k]" by simp_all
    have nz: "page_addr (hhdm b) (table b r st []) \<noteq> 0" by (rule step) (simp add: is_path_def)
    show ?thesis
      using False nz next_lookup [OF assms, of "[]" ?i, unfolded e, OF path(1)]
        next_lookup [OF assms, of "[?i]" ?j, unfolded e, OF path(2)]
        next_lookup [OF assms, of "[?i, ?j]" ?k, unfolded e, OF path(4)]
        table_not_large [OF assms, of "[?i]" ?j, unfolded e, OF path(2)]
        table_not_large [OF assms, of "[?i]" ?k, unfolded e, OF path(3)]
        table_addr [OF assms path(1)] table_addr [OF assms path(2)] table_addr [OF assms path(4)]
      by (simp add: virtual_to_entry_via_def path_of_def root entries_slot Let_def)
  next
    case True
    let ?g = "unat (GET_PML_ENTRY va 48)"
    have d: "length [?g] + 3 = depth b" using True by (simp add: depth_def)
    note path = low [OF d, simplified, OF GET_PML_ENTRY_lt]
    have e: "[] @ [?g] = [?g]" "[?g] @ [?i] = [?g, ?i]" "[?g, ?i] @ [?j] = [?g, ?i, ?j]" "[?g, ?i, ?j] @ [?k] = [?g, ?i, ?j, ?k]"
      "[?g, ?i] @ [?k] = [?g, ?i, ?k]" by simp_all
    have p0: "is_path (depth b) [?g]" using d by (simp add: is_path_def GET_PML_ENTRY_lt)
    have nz: "page_addr (hhdm b) (table b r st []) \<noteq> 0" by (rule step) (simp add: is_path_def)
    show ?thesis
      using True nz next_lookup [OF assms, of "[]" ?g, unfolded e, OF p0]
        next_lookup [OF assms, of "[?g]" ?i, unfolded e, OF path(1)]
        next_lookup [OF assms, of "[?g, ?i]" ?j, unfolded e, OF path(2)]
        next_lookup [OF assms, of "[?g, ?i, ?j]" ?k, unfolded e, OF path(4)]
        table_not_large [OF assms, of "[?g, ?i]" ?j, unfolded e, OF path(2)]
        table_not_large [OF assms, of "[?g, ?i]" ?k, unfolded e, OF path(3)]
        table_addr [OF assms p0] table_addr [OF assms path(1)] table_addr [OF assms path(2)] table_addr [OF assms path(4)]
      by (simp add: virtual_to_entry_via_def path_of_def root entries_slot Let_def)
  qed
qed

lemma vleaf_table:
  assumes "vm_tree b r st"
  shows "vleaf b r st (vpage b va) =
    (let v = entry_at st (slot (hhdm b) (table b r st (path_of b va)) (unat (GET_PML_ENTRY va 12)))
     in if is_valid v then Some v else None)"
  using vm_treeD(5) [OF assms] GET_PML_ENTRY_lt [of va 12]
  by (auto simp: vleaf_def vpage_def leaf_snoc table_def entry_at_def null_page_def Let_def split: option.split)

subsection \<open>Operations on 4 KiB pages\<close>

definition vm_inv :: "boot \<Rightarrow> nat \<Rightarrow> vm \<Rightarrow> bool" where
  "vm_inv b r st \<longleftrightarrow> vm_tree b r st \<and> \<not> vm_locked st"

text \<open>The state with the lock taken, and with its section finished.\<close>

definition lock_taken :: "vm \<Rightarrow> vm" where
  "lock_taken st = st\<lparr>this := (this st)\<lparr>pm_lock := (pm_lock (this st))\<lparr>next_ticket := next_ticket (pm_lock (this st)) + 1\<rparr>\<rparr>\<rparr>"

definition lock_released :: "vm \<Rightarrow> vm" where
  "lock_released st = st\<lparr>this := (this st)\<lparr>pm_lock := unlock_seq (pm_lock (this st))\<rparr>\<rparr>"

lemma with_guard_free:
  "\<not> vm_locked st \<Longrightarrow> with_guard body st = vbind (body (lock_taken st)) (\<lambda>r st. Inr (r, lock_released st))"
  by (simp add: with_guard_def lock_seq_def vm_locked_def is_locked_def lock_taken_def lock_released_def Let_def)

lemma lock_state_simps [simp]:
  "vphys (lock_taken st) = vphys st" "vphys (lock_released st) = vphys st"
  "vm_tree b r (lock_taken st) = vm_tree b r st" "vm_tree b r (lock_released st) = vm_tree b r st"
  "vleaf b r (lock_taken st) = vleaf b r st" "vleaf b r (lock_released st) = vleaf b r st"
  "flushed (lock_taken st) = flushed st" "flushed (lock_released st) = flushed st"
  "pml3_translation (lock_taken st) = pml3_translation st"
  by (simp_all add: lock_taken_def lock_released_def vm_tree_def vleaf_def fun_eq_iff)

lemma lock_section_free:
  assumes "\<not> vm_locked st" "this st' = this (lock_taken st)"
  shows "\<not> vm_locked (lock_released st')"
  using assms by (simp add: vm_locked_def is_locked_def lock_taken_def lock_released_def unlock_seq_def Let_def)

text \<open>Writes to a last-level entry.\<close>

lemma store64_store64: "store64 (store64 m a v) a w = store64 m a w"
  by (intro ext) (simp add: store64_apply)

lemma store64_same: "store64 m a (load64 m a) = m"
proof (rule ext)
  fix x
  show "store64 m a (load64 m a) x = m x"
    by (cases "unat (x - a) < 8") (simp_all add: store64_apply byte_of_load64)
qed

lemma set_entry_simps [simp]:
  "entry_at (set_entry e v st) e = v" "set_entry e w (set_entry e v st) = set_entry e w st"
  "set_entry e (entry_at st e) st = st"
  by (simp_all add: set_entry_def entry_at_def load64_store64 store64_store64 store64_same)

definition same_tables :: "boot \<Rightarrow> nat \<Rightarrow> vm \<Rightarrow> vm \<Rightarrow> bool" where
  "same_tables b r st st' \<longleftrightarrow> taken (vphys st') = taken (vphys st) \<and> reserved (hhdm b) (vphys st') = reserved (hhdm b) (vphys st) \<and>
     (\<forall>is. is_path (depth b) is \<longrightarrow> vwalk b r st' is = vwalk b r st is)"

lemma grows_lock [simp]: "grows b r (lock_taken st) s = grows b r st s" "grows b r st (lock_released s) = grows b r st s"
  by (simp_all add: grows_def is_table_def)

lemma grows_tables: "grows b r st s \<Longrightarrow> same_tables b r s st' \<Longrightarrow> grows b r st st'"
  unfolding grows_def same_tables_def is_table_def by (intro conjI) (simp, simp, simp, metis, simp)

lemma set_leaf:
  assumes "vm_tree b r st" "vwalk b r st (path_of b va) = Some p"
    and st'_def: "st' = set_entry (slot (hhdm b) p (unat (GET_PML_ENTRY va 12))) v st"
  shows "vm_tree b r st'" "same_tables b r st st'" "free_count (vphys st') = free_count (vphys st)"
    "is_page (depth b) ks \<Longrightarrow> vleaf b r st' ks = (if ks = vpage b va then if is_valid v then Some v else None else vleaf b r st ks)"
proof -
  let ?h = "hhdm b" and ?i = "unat (GET_PML_ENTRY va 12)" and ?ph = "vphys st"
  note t = vm_treeD [OF assms(1)] and path = path_of_path [of b va]
  note t0 = tree_ok_table [OF t(4) path(1) assms(2)]
  note w = leaf_write [where v = v, OF t(1,4) path GET_PML_ENTRY_lt assms(2) refl]
  have e: "vphys st' = ?ph\<lparr>pmem := store64 (pmem ?ph) (slot ?h p ?i) v\<rparr>" by (simp add: st'_def set_entry_def)
  have "null_page ?h (vphys st')"
    unfolding e using null_page_slot [OF phys_invD(1) [OF t(1)] t(5) t0(1) _ GET_PML_ENTRY_lt] not_reservedD [OF t0(3,1)] by simp
  moreover have "page_limit (vphys st') = page_limit ?ph" unfolding e by (rule same_geometry) simp_all
  ultimately show "vm_tree b r st'"
    using w(1,2) t by (simp add: vm_tree_def e) (simp add: st'_def)
  show "same_tables b r st st'" "free_count (vphys st') = free_count (vphys st)"
    using w(3) phys_inv_slot [OF t(1) t0(1,3) GET_PML_ENTRY_lt] by (simp_all add: same_tables_def e)
  show "vleaf b r st' ks = (if ks = vpage b va then if is_valid v then Some v else None else vleaf b r st ks)"
    if "is_page (depth b) ks"
    using w(4) [OF that] by (simp add: vleaf_def e vpage_def)
qed

lemma is_valid_flags: "flags AND MAP_READ \<noteq> 0 \<Longrightarrow> is_valid (a OR PageMap_parse_flags flags)"
  using parse_flags_test(1) [of flags]
  by (auto simp: is_valid_def pte_has_flags_def bit.conj_disj_distrib2 or_eq_0_iff)

lemma pte_new: "pte_set_flags (pte_set_address 0 a) f = a OR f"
  by (simp add: pte_set_flags_def pte_set_address_def)

text \<open>The outcome of an operation that may allocate tables: out of memory, or the map \<open>f\<close> and success.\<close>

definition op_outcome :: "boot \<Rightarrow> nat \<Rightarrow> vm \<Rightarrow> (nat list \<Rightarrow> u64 option) \<Rightarrow> int vmres \<Rightarrow> bool" where
  "op_outcome b r st f res \<longleftrightarrow>
     (case res of
        Inl e \<Rightarrow> e = Phys_error Out_of_memory \<and> free_count (vphys st) < depth b
      | Inr (x, st') \<Rightarrow> x = SYSTEM_OK \<and> vm_inv b r st' \<and> grows b r st st' \<and>
          free_count (vphys st) \<le> free_count (vphys st') + depth b \<and> (\<forall>ks. is_page (depth b) ks \<longrightarrow> vleaf b r st' ks = f ks))"

lemma slot_nonzero:
  assumes "vm_tree b r st" "p < page_limit (vphys st)" "i < 512"
  shows "slot (hhdm b) p i \<noteq> 0"
proof
  note lay = phys_invD(1) [OF vm_treeD(1) [OF assms(1)]]
  assume "slot (hhdm b) p i = 0"
  then have "unat (slot (hhdm b) p i + of_nat 0) = 0" by simp
  then show False using unat_slot [OF lay assms(2,3), of 0] phys_layoutD(3) [OF lay] assms(2) by simp
qed

lemma walk_and_write:
  assumes inv: "vm_inv b r st"
    and reach: "reaches b r (depth b) (lock_taken st) (path_of b va) (unat (GET_PML_ENTRY va 12)) res"
    and w: "\<And>s p. extends b r (depth b) (lock_taken st) s \<Longrightarrow> vwalk b r s (path_of b va) = Some p \<Longrightarrow>
      w (entry_at s (slot (hhdm b) p (unat (GET_PML_ENTRY va 12)))) = v" and valid: "is_valid v"
  shows "op_outcome b r st ((vleaf b r st)(vpage b va \<mapsto> v))
     (vbind (vbind res (\<lambda>e s. if e = 0 then Inr (SYSTEM_ERR_ADDRESS_UNREACHABLE, s) else Inr (SYSTEM_OK, set_entry e (w (entry_at s e)) s)))
       (\<lambda>x s. Inr (x, lock_released s)))"
proof (cases res)
  case (Inl e)
  then show ?thesis using reach by (simp add: reaches_def op_outcome_def)
next
  case (Inr y)
  then obtain a s where y: "res = Inr (a, s)" by (cases y) auto
  then obtain p where p: "a = slot (hhdm b) p (unat (GET_PML_ENTRY va 12))" "vwalk b r s (path_of b va) = Some p"
    and ex: "extends b r (depth b) (lock_taken st) s" using reach by (auto simp: reaches_def)
  have gr: "grows b r st s" "free_count (vphys st) \<le> free_count (vphys s) + depth b" using ex by (simp_all add: extends_def)
  have tree: "vm_tree b r s" and same: "this s = this (lock_taken st)"
    and old: "is_page (depth b) ks \<Longrightarrow> vleaf b r s ks = vleaf b r st ks" for ks
    using ex by (auto simp: extends_def) (metis vm.select_convs(2) vm.surjective vm.update_convs(1))
  have "a \<noteq> 0" unfolding p(1) using slot_nonzero [OF tree vwalk_table(2) [OF tree path_of_path(1) p(2)] GET_PML_ENTRY_lt] .
  then show ?thesis
    using set_leaf [where v = v, OF tree p(2) refl] grows_tables [OF gr(1)] gr valid lock_section_free [of st "set_entry a v s"] inv same old p(1) w [OF ex p(2)] y
    by (simp add: op_outcome_def vm_inv_def)
qed

lemma map_page_outcome:
  assumes "vm_inv b r st" "flag_to_page_size flags = PAGE_SIZE" "flags AND MAP_READ \<noteq> 0"
  shows "op_outcome b r st ((vleaf b r st)(vpage b va \<mapsto> pa OR PageMap_parse_flags flags)) (map_page b va pa flags st)"
proof -
  have inv: "vm_tree b r st" "\<not> vm_locked st" using assms(1) by (simp_all add: vm_inv_def)
  have "map_page b va pa flags st =
     vbind (vbind (virtual_to_entry_via (map_page b) b va True PAGE_SIZE False (lock_taken st))
       (\<lambda>e s. if e = 0 then Inr (SYSTEM_ERR_ADDRESS_UNREACHABLE, s)
              else Inr (SYSTEM_OK, set_entry e (pa OR PageMap_parse_flags flags) s)))
       (\<lambda>x s. Inr (x, lock_released s))"
    by (subst map_page_unfold)
      (simp add: map_page_via_def with_guard_free [OF inv(2)] assms(2) map_one_via_def Let_def pte_reset_def pte_new cong: if_cong)
  moreover have "reaches b r (depth b) (lock_taken st) (path_of b va) (unat (GET_PML_ENTRY va 12))
      (virtual_to_entry_via (map_page b) b va True PAGE_SIZE False (lock_taken st))"
    using inv(1) by (intro virtual_to_entry_alloc) simp
  ultimately show ?thesis
    using walk_and_write [OF assms(1), of va _ "\<lambda>_. pa OR PageMap_parse_flags flags"] is_valid_flags [OF assms(3)] by simp
qed

lemma setflags_page_outcome:
  assumes "vm_inv b r st" "flag_to_page_size flags = PAGE_SIZE" "flags AND MAP_READ \<noteq> 0" "vleaf b r st (vpage b va) = Some v"
  shows "op_outcome b r st ((vleaf b r st)(vpage b va \<mapsto> pte_get_address v OR PageMap_parse_flags flags)) (setflags_page b va flags st)"
proof -
  have inv: "vm_tree b r st" "\<not> vm_locked st" using assms(1) by (simp_all add: vm_inv_def)
  let ?w = "\<lambda>x. pte_get_address x OR PageMap_parse_flags flags"
  have eq: "setflags_page b va flags st =
     vbind (vbind (virtual_to_entry_via (map_page b) b va True PAGE_SIZE True (lock_taken st))
       (\<lambda>e s. if e = 0 then Inr (SYSTEM_ERR_ADDRESS_UNREACHABLE, s) else Inr (SYSTEM_OK, set_entry e (?w (entry_at s e)) s)))
       (\<lambda>x s. Inr (x, lock_released s))"
    by (simp add: setflags_page_def virtual_to_entry_def with_guard_free [OF inv(2)] assms(2) Let_def pte_reset_def pte_new cong: if_cong)
  have reach: "reaches b r (depth b) (lock_taken st) (path_of b va) (unat (GET_PML_ENTRY va 12))
      (virtual_to_entry_via (map_page b) b va True PAGE_SIZE True (lock_taken st))"
    using inv(1) by (intro virtual_to_entry_alloc) simp
  have v: "?w (entry_at s (slot (hhdm b) p (unat (GET_PML_ENTRY va 12)))) = ?w v"
    if "extends b r (depth b) (lock_taken st) s" "vwalk b r s (path_of b va) = Some p" for s p
  proof -
    have "vleaf b r s (vpage b va) = Some v" using that(1) assms(4) by (simp add: extends_def)
    then show ?thesis using that(2) by (simp add: vleaf_def vpage_def leaf_snoc entry_at_def split: if_splits)
  qed
  show ?thesis unfolding eq using walk_and_write [where w = ?w and v = "?w v", OF assms(1) reach v] is_valid_flags [OF assms(3)] by blast
qed

lemma virtual_to_physical_lookup:
  assumes "vm_inv b r st" "flag_to_page_size flags = PAGE_SIZE"
  shows "\<exists>st'. virtual_to_physical b va flags st =
      Inr (case vleaf b r st (vpage b va) of None \<Rightarrow> - 1 | Some v \<Rightarrow> pte_get_address v + va mod PAGE_SIZE, st') \<and>
    vm_inv b r st' \<and> vleaf b r st' = vleaf b r st \<and> vphys st' = vphys st"
proof -
  have inv: "vm_tree b r (lock_taken st)" "\<not> vm_locked st" using assms(1) by (simp_all add: vm_inv_def)
  let ?e = "slot (hhdm b) (table b r (lock_taken st) (path_of b va)) (unat (GET_PML_ENTRY va 12))"
  have nz: "?e \<noteq> 0" using slot_nonzero [OF inv(1) table_lim [OF inv(1) path_of_path(1)] GET_PML_ENTRY_lt] by simp
  have "virtual_to_physical b va flags st =
      Inr (case vleaf b r st (vpage b va) of None \<Rightarrow> - 1 | Some v \<Rightarrow> pte_get_address v + va mod PAGE_SIZE, lock_released (lock_taken st))"
    using nz vleaf_table [OF inv(1), of va]
    by (simp add: virtual_to_physical_def virtual_to_entry_def with_guard_free [OF inv(2)] assms(2) Let_def
        virtual_to_entry_lookup [OF inv(1)] is_valid_def split: if_splits)
  moreover have "vm_inv b r (lock_released (lock_taken st))"
    using inv lock_section_free [OF inv(2)] by (simp add: vm_inv_def)
  ultimately show ?thesis by auto
qed

lemma unmap_page_lookup:
  assumes "vm_inv b r st" "flag_to_page_size flags = PAGE_SIZE"
  shows "\<exists>st'. unmap_page b va flags st = Inr (SYSTEM_OK, st') \<and> vm_inv b r st' \<and> flushed st' = flushed st @ [va] \<and> same_tables b r st st' \<and>
    (\<forall>ks. is_page (depth b) ks \<longrightarrow> vleaf b r st' ks = ((vleaf b r st)(vpage b va := None)) ks)"
proof -
  have inv: "vm_tree b r (lock_taken st)" "\<not> vm_locked st" using assms(1) by (simp_all add: vm_inv_def)
  let ?st = "lock_taken st" and ?i = "unat (GET_PML_ENTRY va 12)"
  let ?e = "slot (hhdm b) (table b r ?st (path_of b va)) ?i"
  define s where "s = set_entry ?e 0 ?st"
  have nz: "?e \<noteq> 0" using slot_nonzero [OF inv(1) table_lim [OF inv(1) path_of_path(1)] GET_PML_ENTRY_lt] by simp
  have res: "unmap_page b va flags st = Inr (SYSTEM_OK, lock_released (s\<lparr>flushed := flushed s @ [va]\<rparr>))"
    using nz by (simp add: unmap_page_def unmap_one_def virtual_to_entry_def with_guard_free [OF inv(2)] assms(2) Let_def
        virtual_to_entry_lookup [OF inv(1)] s_def pte_reset_def)
  have tree: "vm_tree b r s \<and> same_tables b r ?st s \<and> (\<forall>ks. is_page (depth b) ks \<longrightarrow> vleaf b r s ks = ((vleaf b r st)(vpage b va := None)) ks)"
  proof (cases "vwalk b r ?st (path_of b va)")
    case (Some p)
    then show ?thesis using set_leaf [where v = 0, OF inv(1) Some refl] by (simp add: s_def table_def)
  next
    case None
    then have "entry_at ?st ?e = 0" "vleaf b r st (vpage b va) = None"
      using vm_treeD(5) [OF inv(1)] GET_PML_ENTRY_lt [of va 12]
      by (simp_all add: table_def entry_at_def null_page_def vleaf_def vpage_def leaf_snoc)
    then have "s = ?st" using set_entry_simps(3) [of ?e ?st] by (simp add: s_def)
    then show ?thesis using inv(1) \<open>vleaf b r st (vpage b va) = None\<close> by (auto simp: same_tables_def)
  qed
  let ?s = "s\<lparr>flushed := flushed s @ [va]\<rparr>"
  have "vm_tree b r ?s" "vleaf b r ?s = vleaf b r s" "flushed s = flushed st" using tree
    by (simp_all add: vm_tree_def vleaf_def fun_eq_iff s_def set_entry_def)
  moreover have "\<not> vm_locked (lock_released ?s)" by (rule lock_section_free [OF inv(2)]) (simp add: s_def)
  ultimately show ?thesis using res tree by (simp add: vm_inv_def same_tables_def)
qed

subsection \<open>The interface of an address space\<close>

text \<open>What the clients of a page map rely on: mapping, unmapping and translating act on a partial function.\<close>

locale address_space =
  fixes inv :: "'s \<Rightarrow> bool" and key :: "'a \<Rightarrow> 'k" and is_key :: "'k \<Rightarrow> bool" and look :: "'s \<Rightarrow> 'k \<Rightarrow> 'v option"
    and map_ok :: "'f \<Rightarrow> bool" and ok :: "'f \<Rightarrow> bool" and enc :: "'m \<Rightarrow> 'f \<Rightarrow> 'v" and dec :: "'a \<Rightarrow> 'v option \<Rightarrow> 'm"
    and map :: "'a \<Rightarrow> 'm \<Rightarrow> 'f \<Rightarrow> 's \<Rightarrow> 'e + int \<times> 's" and unmap :: "'a \<Rightarrow> 'f \<Rightarrow> 's \<Rightarrow> 'e + int \<times> 's"
    and translate :: "'a \<Rightarrow> 'f \<Rightarrow> 's \<Rightarrow> 'e + 'm \<times> 's"
  assumes key: "is_key (key a)"
    and map_law: "inv s \<Longrightarrow> map_ok f \<Longrightarrow> map a p f s = Inr (x, s') \<Longrightarrow>
      x = SYSTEM_OK \<and> inv s' \<and> (\<forall>k. is_key k \<longrightarrow> look s' k = ((look s)(key a \<mapsto> enc p f)) k)"
    and unmap_law: "inv s \<Longrightarrow> ok f \<Longrightarrow>
      \<exists>s'. unmap a f s = Inr (SYSTEM_OK, s') \<and> inv s' \<and> (\<forall>k. is_key k \<longrightarrow> look s' k = ((look s)(key a := None)) k)"
    and translate_law: "inv s \<Longrightarrow> ok f \<Longrightarrow>
      \<exists>s'. translate a f s = Inr (dec a (look s (key a)), s') \<and> inv s' \<and> look s' = look s"
begin

lemma map_translate:
  assumes "inv s" "map_ok f" "map a p f s = Inr (x, s')" "ok g"
  shows "\<exists>s''. translate a' g s' = Inr (dec a' (if key a' = key a then Some (enc p f) else look s (key a')), s'') \<and> inv s''"
  using map_law [OF assms(1-3)] translate_law [of s' g a'] assms(4) key [of a'] by auto

lemma unmap_translate:
  assumes "inv s" "ok f" "ok g"
  shows "\<exists>s' s''. unmap a f s = Inr (SYSTEM_OK, s') \<and>
    translate a' g s' = Inr (dec a' (if key a' = key a then None else look s (key a')), s'') \<and> inv s''"
proof -
  obtain s' where s': "unmap a f s = Inr (SYSTEM_OK, s')" "inv s'"
    "\<forall>k. is_key k \<longrightarrow> look s' k = ((look s)(key a := None)) k" using unmap_law [OF assms(1,2)] by blast
  then show ?thesis using translate_law [OF s'(2) assms(3), of a'] key [of a'] by auto
qed

text \<open>Moving a mapping: translate, unmap, map elsewhere.\<close>

lemma move:
  assumes "inv s" "ok f" "map_ok f" "look s (key a) = Some v" "translate a f s = Inr (m, s1)" "unmap a f s1 = Inr (y, s2)"
    "map a' m f s2 = Inr (x, s3)"
  shows "x = SYSTEM_OK \<and> inv s3 \<and> m = dec a (Some v) \<and>
    (\<forall>k. is_key k \<longrightarrow> look s3 k = ((look s)(key a := None, key a' \<mapsto> enc m f)) k)"
proof -
  have 1: "m = dec a (Some v)" "inv s1" "look s1 = look s" using translate_law [OF assms(1,2), of a] assms(4,5) by auto
  have 2: "inv s2" "\<forall>k. is_key k \<longrightarrow> look s2 k = ((look s1)(key a := None)) k"
    using unmap_law [OF 1(2) assms(2), of a] assms(6) by auto
  show ?thesis using map_law [OF 2(1) assms(3,7)] 1 2(2) by auto
qed

end

definition small_page :: "u64 \<Rightarrow> bool" where
  "small_page flags \<longleftrightarrow> flag_to_page_size flags = PAGE_SIZE"

definition small_present :: "u64 \<Rightarrow> bool" where
  "small_present flags \<longleftrightarrow> small_page flags \<and> flags AND MAP_READ \<noteq> 0"

definition encode_entry :: "u64 \<Rightarrow> u64 \<Rightarrow> u64" where
  "encode_entry pa flags = pa OR PageMap_parse_flags flags"

definition decode_entry :: "u64 \<Rightarrow> u64 option \<Rightarrow> u64" where
  "decode_entry va e = (case e of None \<Rightarrow> - 1 | Some v \<Rightarrow> pte_get_address v + va mod PAGE_SIZE)"

interpretation page_map: address_space "vm_inv b r" "vpage b" "is_page (depth b)" "vleaf b r" small_present small_page
  encode_entry decode_entry "map_page b" "unmap_page b" "virtual_to_physical b" for b r
proof
  fix s s' a p f x
  assume "vm_inv b r s" "small_present f" "map_page b a p f s = Inr (x, s')"
  then show "x = SYSTEM_OK \<and> vm_inv b r s' \<and>
      (\<forall>k. is_page (depth b) k \<longrightarrow> vleaf b r s' k = ((vleaf b r s)(vpage b a \<mapsto> encode_entry p f)) k)"
    using map_page_outcome [of b r s f a p] by (simp add: small_present_def small_page_def op_outcome_def encode_entry_def)
next
  fix s a f
  assume "vm_inv b r s" "small_page f"
  then show "\<exists>s'. unmap_page b a f s = Inr (SYSTEM_OK, s') \<and> vm_inv b r s' \<and>
      (\<forall>k. is_page (depth b) k \<longrightarrow> vleaf b r s' k = ((vleaf b r s)(vpage b a := None)) k)"
    using unmap_page_lookup [of b r s f a] by (auto simp: small_page_def)
next
  fix s a f
  assume "vm_inv b r s" "small_page f"
  then show "\<exists>s'. virtual_to_physical b a f s = Inr (decode_entry a (vleaf b r s (vpage b a)), s') \<and> vm_inv b r s' \<and> vleaf b r s' = vleaf b r s"
    using virtual_to_physical_lookup [of b r s f a] by (auto simp: small_page_def decode_entry_def)
qed simp

lemma parse_cache_small: "flag_bits (parse_cache flags PAGE_SIZE)"
proof -
  have "parse_cache flags PAGE_SIZE \<in> {0, 0x10, 0x18, 0x80, 0x88, 0x90, 0x98}"
    by (simp add: parse_cache_def page_flag_defs Let_def)
  then show ?thesis by (auto simp: flag_bits_def PAGE_ADDR_MASK_def)
qed

lemma small_flag_bits: "small_page flags \<Longrightarrow> flag_bits (PageMap_parse_flags flags)"
  using parse_cache_small [of flags]
  by (simp add: small_page_def PageMap_parse_flags_def flag_bits_def virt_parse_flags_def bit.conj_disj_distrib2)
    (simp add: page_flag_defs PAGE_ADDR_MASK_def)

lemma decode_encode: "page_frame pa \<Longrightarrow> small_page flags \<Longrightarrow> decode_entry va (Some (encode_entry pa flags)) = pa + va mod PAGE_SIZE"
  using pte_address_flags(1) [OF _ small_flag_bits, of pa flags 0] by (simp add: decode_entry_def encode_entry_def pte_new)

end
