(* ===== verification/Page_Maps.thy ===== *)
theory Page_Maps
  imports Address_Space
begin

text \<open>
  The properties of page maps: mapping and translation, moving and unmapping, and what happens to
  large pages.  A small machine serves as the example.
\<close>

subsection \<open>A small machine\<close>

text \<open>
  Eight pages: page 0, the top-level table in page 1 and the bitmap in page 7 are in use, all memory
  but the bitmap is zero.
\<close>

definition phys_machine :: phys where
  "phys_machine =
     \<lparr>phys_stats = \<lparr>highest_physical_addr = 0x8000, lowest_usable_addr = 0x1000, highest_usable_addr = 0x8000,
        total_pages = 7, usable_pages = 7, used_pages = 2, free_pages = 5\<rparr>,
      phys_bitmap = \<lparr>buffer = 0xFFFF800000007000, bsize = 8\<rparr>, phys_lock = TicketLock_init,
      bitmap_last_index = 0, pmem = (\<lambda>_. 0)(0xFFFF800000007000 := 0x83)\<rparr>"

definition vm_machine :: vm where
  "vm_machine = \<lparr>vphys = phys_machine, this = \<lparr>top_lvl = 0xFFFF800000001000, pm_lock = TicketLock_init\<rparr>,
     pml3_translation = False, cr3 = 0, msr_pat = 0, flushed = []\<rparr>"

definition boot_machine :: boot where
  "boot_machine = \<lparr>hhdm = hhdm_example, is_paging_mode_max = False\<rparr>"

lemma machine_used: "p < 8 \<Longrightarrow> used phys_machine p \<longleftrightarrow> p = 0 \<or> p = 1 \<or> p = 7"
  by (drule nat_lt_8_cases) (elim disjE; simp add: used_def phys_machine_def bit_at_def bit_numeral_rec)

lemma machine_limit: "page_limit phys_machine = 8"
  by (simp add: page_limit_def phys_machine_def PAGE_SIZE_def)

lemma machine_bitmap_page: "p < 8 \<Longrightarrow> bitmap_page hhdm_example phys_machine p \<Longrightarrow> p = 7"
proof -
  assume "p < 8" "bitmap_page hhdm_example phys_machine p"
  then obtain x where x: "in_bitmap phys_machine x" "unat (x - page_addr hhdm_example p) < 4096"
    by (auto simp: bitmap_page_def)
  have "unat (x - 0xFFFF800000007000) < 1" using x(1) by (simp add: in_bitmap_def phys_machine_def)
  then have "x - 0xFFFF800000007000 = 0" by (metis less_one unat_eq_0)
  then have "x = 0xFFFF800000007000" by simp
  then show "p = 7"
    using x(2) nat_lt_8_cases [OF \<open>p < 8\<close>] by (elim disjE) (simp_all add: page_addr_def hhdm_example_def)
qed

lemma machine_free_count: "free_count phys_machine = 5"
proof -
  have "{p. p < 8 \<and> \<not> used phys_machine p} = {2, 3, 4, 5, 6}"
  proof (rule set_eqI)
    fix p
    show "p \<in> {p. p < 8 \<and> \<not> used phys_machine p} \<longleftrightarrow> p \<in> {2, 3, 4, 5, 6}"
      using machine_used [of p] nat_lt_8_cases [of p] by auto
  qed
  then show ?thesis by (simp add: free_count_def machine_limit)
qed

lemma machine_layout: "phys_layout hhdm_example phys_machine"
proof -
  have u: "unat hhdm_example = 4096 * 4503565267632128" by (simp add: hhdm_example_def)
  show ?thesis unfolding phys_layout_def machine_limit u by (intro conjI dvd_triv_left) (simp_all add: phys_machine_def)
qed

lemma machine_phys_inv: "phys_inv hhdm_example phys_machine"
proof (rule phys_invI [OF machine_layout])
  show "used phys_machine 0" by (simp add: machine_used)
  show "used phys_machine p" if "p < page_limit phys_machine" "bitmap_page hhdm_example phys_machine p" for p
    using machine_bitmap_page [of p] that by (simp add: machine_limit machine_used)
  show "free_pages (phys_stats phys_machine) = of_nat (free_count phys_machine)"
    by (simp add: machine_free_count) (simp add: phys_machine_def)
qed (simp_all add: machine_limit, simp_all add: phys_machine_def is_locked_def TicketLock_init_def)

lemma machine_zero:
  assumes "p < 7" "i < 512"
  shows "load64 (pmem phys_machine) (slot hhdm_example p i) = 0"
proof -
  have "pmem phys_machine (slot hhdm_example p i + of_nat k) = 0" if k: "k < 8" for k
  proof -
    have u: "unat (slot hhdm_example p i + of_nat k) = unat hhdm_example + 4096 * p + 8 * i + k"
      using assms k by (intro unat_slot [OF machine_layout]) (simp_all add: machine_limit)
    have "4096 * p + 8 * i + k < 28672" using assms k by linarith
    then have "unat (slot hhdm_example p i + of_nat k) \<noteq> unat (0xFFFF800000007000 :: u64)"
      unfolding u by (simp add: hhdm_example_def)
    then have "slot hhdm_example p i + of_nat k \<noteq> 0xFFFF800000007000" by metis
    then show ?thesis by (simp add: phys_machine_def)
  qed
  then have "load64 (pmem phys_machine) (slot hhdm_example p i) = load64 (\<lambda>_. 0) (slot hhdm_example p i)"
    by (intro load64_cong)
  then show ?thesis by (simp add: load64_def)
qed

lemma machine_walk: "is_path d is \<Longrightarrow> walk hhdm_example (pmem phys_machine) 1 is = (if is = [] then Some 1 else None)"
  by (cases "is") (simp_all add: is_path_def pt_child_def machine_zero)

lemma machine_inv: "vm_inv boot_machine 1 vm_machine"
proof -
  have "tree_ok 3 hhdm_example phys_machine 1"
    unfolding tree_ok_def
  proof (intro conjI allI impI)
    fix js q j
    assume p: "is_path 3 (js @ [j])" and w: "walk hhdm_example (pmem phys_machine) 1 js = Some q"
    then have "js = []" "q = 1" using machine_walk [of 3 js] by (auto split: if_splits)
    then show "\<not> is_large (load64 (pmem phys_machine) (slot hhdm_example q j))" using p machine_zero [of 1 j] by (simp add: is_path_def)
  qed (use machine_bitmap_page [of 1] in \<open>auto simp: machine_walk [unfolded One_nat_def] machine_limit taken_def reserved_def machine_used split: if_splits\<close>)
  moreover have "null_page hhdm_example phys_machine"
    using machine_bitmap_page [of 0] machine_zero [of 0] by (auto simp: null_page_def machine_limit)
  moreover have "page_addr hhdm_example 1 = 0xFFFF800000001000" by (simp add: page_addr_def hhdm_example_def)
  ultimately show ?thesis
    using machine_phys_inv
    by (simp add: vm_inv_def vm_tree_def boot_machine_def vm_machine_def depth_def machine_limit vm_locked_def is_locked_def TicketLock_init_def)
qed

lemma machine_no_leaf: "is_page 3 ks \<Longrightarrow> vleaf boot_machine 1 vm_machine ks = None"
  by (erule is_page_split) (auto simp: vleaf_def leaf_snoc boot_machine_def vm_machine_def machine_walk [unfolded One_nat_def])

subsection \<open>Mapping and translating\<close>

text \<open>
  C9: \<^verbatim>\<open>map_page\<close> of a readable 4 KiB page refines the update of a partial function from pages to entries.
  It fails only for lack of memory, with fewer free pages than the tables have levels; otherwise it
  succeeds, the entry of the page is the given address with the parsed flags, the entries of all
  other pages are unchanged, and the invariant of the tables, the allocator and the lock holds again.
\<close>

theorem map_page_refines:
  assumes "vm_inv b r st" "flag_to_page_size flags = PAGE_SIZE" "flags AND MAP_READ \<noteq> 0"
  shows "case map_page b va pa flags st of
      Inl e \<Rightarrow> e = Phys_error Out_of_memory \<and> free_count (vphys st) < depth b
    | Inr (x, st') \<Rightarrow> x = SYSTEM_OK \<and> vm_inv b r st' \<and>
        (\<forall>ks. is_page (depth b) ks \<longrightarrow>
          vleaf b r st' ks = ((vleaf b r st)(vpage b va \<mapsto> pa OR PageMap_parse_flags flags)) ks)"
  using map_page_outcome [OF assms, of va pa] by (auto simp: op_outcome_def split: sum.splits)

lemma machine_flags: "flag_to_page_size 0x203 = PAGE_SIZE" "0x203 AND MAP_READ \<noteq> 0" "flag_to_page_size 0 = PAGE_SIZE"
  by (simp_all add: flag_to_page_size_def map_flag_defs)

lemma machine_map: "\<exists>x st'. map_page boot_machine va pa 0x203 vm_machine = Inr (x, st')"
proof -
  have "free_count (vphys vm_machine) = 5" "depth boot_machine = 3"
    by (simp_all add: vm_machine_def machine_free_count boot_machine_def depth_def)
  then show ?thesis
    using map_page_outcome [OF machine_inv machine_flags(1,2), of va pa] unfolding op_outcome_def
    by (cases "map_page boot_machine va pa 0x203 vm_machine") auto
qed

text \<open>The kernel's read, write, write-back mapping of one page on the small machine.\<close>

theorem map_page_refines_witness:
  "\<exists>st'. map_page boot_machine 0xFFFF800000005000 0x5000 0x203 vm_machine = Inr (SYSTEM_OK, st') \<and>
     vleaf boot_machine 1 st' (vpage boot_machine 0xFFFF800000005000) = Some (0x5000 OR PageMap_parse_flags 0x203)"
  using map_page_refines [OF machine_inv machine_flags(1,2), of "0xFFFF800000005000" "0x5000"]
    machine_map [of "0xFFFF800000005000" "0x5000"] by auto

text \<open>
  C10: after a successful \<^verbatim>\<open>map_page\<close>, \<^verbatim>\<open>virtual_to_physical\<close> returns the physical address with the page offset
  for every address of the page, and what it returned before for every address of another page.
\<close>

theorem map_page_translate:
  assumes "vm_inv b r st" "small_present flags" "page_frame pa" "map_page b va pa flags st = Inr (x, st')"
  shows "\<exists>st''. virtual_to_physical b va' 0 st' =
    Inr (if vpage b va' = vpage b va then pa + va' mod PAGE_SIZE
         else case vleaf b r st (vpage b va') of None \<Rightarrow> - 1 | Some v \<Rightarrow> pte_get_address v + va' mod PAGE_SIZE, st'') \<and>
    vm_inv b r st''"
proof -
  have "small_page 0" by (simp add: small_page_def machine_flags)
  then show ?thesis
    using page_map.map_translate [OF assms(1,2,4), of 0 va'] decode_encode [OF assms(3)] assms(2)
    by (auto simp: small_present_def decode_entry_def)
qed

theorem map_page_translate_witness:
  "\<exists>st' st''. map_page boot_machine 0xFFFF800000005000 0x5000 0x203 vm_machine = Inr (SYSTEM_OK, st') \<and>
     virtual_to_physical boot_machine 0xFFFF800000005123 0 st' = Inr (0x5123, st'')"
proof -
  have s: "small_present 0x203" by (simp add: small_present_def small_page_def machine_flags)
  have f: "page_frame 0x5000" by (simp add: page_frame_def PAGE_ADDR_MASK_def)
  obtain x st' where m: "map_page boot_machine 0xFFFF800000005000 0x5000 0x203 vm_machine = Inr (x, st')"
    using machine_map by blast
  then have x: "x = SYSTEM_OK" using page_map.map_law [OF machine_inv s] by blast
  have "vpage boot_machine 0xFFFF800000005123 = vpage boot_machine 0xFFFF800000005000"
    by (simp add: vpage_def path_of_def boot_machine_def GET_PML_ENTRY_def)
  then show ?thesis
    using map_page_translate [OF machine_inv s f m, of "0xFFFF800000005123"] m x by (auto simp: PAGE_SIZE_def)
qed

text \<open>
  C11: \<^verbatim>\<open>unmap_page\<close> always succeeds, flushes the address, removes the page from the map and no other
  page; a translation afterwards reports an unmapped page.
\<close>

theorem unmap_page_correct:
  assumes "vm_inv b r st" "flag_to_page_size flags = PAGE_SIZE"
  shows "\<exists>st' st''. unmap_page b va flags st = Inr (SYSTEM_OK, st') \<and> vm_inv b r st' \<and> flushed st' = flushed st @ [va] \<and>
    (\<forall>ks. is_page (depth b) ks \<longrightarrow> vleaf b r st' ks = ((vleaf b r st)(vpage b va := None)) ks) \<and>
    virtual_to_physical b va 0 st' = Inr (- 1, st'')"
proof -
  obtain st' where u: "unmap_page b va flags st = Inr (SYSTEM_OK, st')" "vm_inv b r st'" "flushed st' = flushed st @ [va]"
    "\<forall>ks. is_page (depth b) ks \<longrightarrow> vleaf b r st' ks = ((vleaf b r st)(vpage b va := None)) ks"
    using unmap_page_lookup [OF assms] by blast
  then have "vleaf b r st' (vpage b va) = None" by simp
  then show ?thesis using u virtual_to_physical_lookup [OF u(2) machine_flags(3), of va] by auto
qed

theorem unmap_page_correct_witness:
  "\<exists>st' st''. unmap_page boot_machine 0xFFFF800000005000 0 vm_machine = Inr (SYSTEM_OK, st') \<and>
     virtual_to_physical boot_machine 0xFFFF800000005000 0 st' = Inr (- 1, st'')"
  using unmap_page_correct [OF machine_inv machine_flags(3)] by blast

text \<open>
  \<^verbatim>\<open>remap_page\<close> of a mapped page moves it: it fails only for lack of memory; otherwise the old page is
  unmapped, the new page has the frame of the old one with the given flags, and no other page changes.
\<close>

theorem remap_page_moves:
  assumes "vm_inv b r st" "small_present flags" "vleaf b r st (vpage b old) = Some v" "old mod PAGE_SIZE = 0"
  shows "case remap_page b old new flags st of
      Inl e \<Rightarrow> e = Phys_error Out_of_memory
    | Inr (x, st') \<Rightarrow> x = SYSTEM_OK \<and> vm_inv b r st' \<and>
        (\<forall>ks. is_page (depth b) ks \<longrightarrow> vleaf b r st' ks =
          ((vleaf b r st)(vpage b old := None, vpage b new \<mapsto> pte_get_address v OR PageMap_parse_flags flags)) ks)"
proof -
  have f: "small_page flags" using assms(2) by (simp add: small_present_def)
  obtain s1 where s1: "virtual_to_physical b old flags st = Inr (pte_get_address v, s1)" "vm_inv b r s1"
    using page_map.translate_law [OF assms(1) f, of old] assms(3,4) by (auto simp: decode_entry_def)
  obtain s2 where s2: "unmap_page b old flags s1 = Inr (SYSTEM_OK, s2)" "vm_inv b r s2"
    using page_map.unmap_law [OF s1(2) f, of old] by blast
  have e: "remap_page b old new flags st = map_page b new (pte_get_address v) flags s2"
    using s1(1) s2(1) by (simp add: remap_page_def)
  show ?thesis
  proof (cases "map_page b new (pte_get_address v) flags s2")
    case (Inl x)
    then show ?thesis
      using e map_page_outcome [OF s2(2), of flags new "pte_get_address v"] assms(2)
      by (simp add: op_outcome_def small_present_def small_page_def)
  next
    case (Inr y)
    then obtain x s3 where "map_page b new (pte_get_address v) flags s2 = Inr (x, s3)" by (cases y) auto
    with page_map.move [OF assms(1) f assms(2,3) s1(1) s2(1) this] e show ?thesis by (simp add: encode_entry_def)
  qed
qed

lemma machine_mapped: "\<exists>st. map_page boot_machine va pa 0x203 vm_machine = Inr (SYSTEM_OK, st) \<and> vm_inv boot_machine 1 st \<and>
    vleaf boot_machine 1 st (vpage boot_machine va) = Some (pa OR PageMap_parse_flags 0x203)"
  using map_page_outcome [OF machine_inv machine_flags(1,2), of va pa] machine_map [of va pa] by (auto simp: op_outcome_def)

theorem remap_page_moves_witness:
  "\<exists>st. map_page boot_machine 0xFFFF800000005000 0x5000 0x203 vm_machine = Inr (SYSTEM_OK, st) \<and>
     (case remap_page boot_machine 0xFFFF800000005000 0xFFFF800000009000 0x203 st of
        Inl e \<Rightarrow> e = Phys_error Out_of_memory
      | Inr (x, st') \<Rightarrow> x = SYSTEM_OK \<and> vleaf boot_machine 1 st' (vpage boot_machine 0xFFFF800000005000) = None)"
proof -
  have s: "small_present 0x203" by (simp add: small_present_def small_page_def machine_flags)
  have a: "(0xFFFF800000005000 :: u64) mod PAGE_SIZE = 0" by (simp add: PAGE_SIZE_def)
  have ne: "vpage boot_machine 0xFFFF800000005000 \<noteq> vpage boot_machine 0xFFFF800000009000"
    by (simp add: vpage_def path_of_def boot_machine_def GET_PML_ENTRY_def)
  obtain st where st: "map_page boot_machine 0xFFFF800000005000 0x5000 0x203 vm_machine = Inr (SYSTEM_OK, st)" "vm_inv boot_machine 1 st"
    "vleaf boot_machine 1 st (vpage boot_machine 0xFFFF800000005000) = Some (0x5000 OR PageMap_parse_flags 0x203)"
    using machine_mapped by blast
  show ?thesis using remap_page_moves [OF st(2) s st(3) a, of "0xFFFF800000009000"] st(1) ne
    by (intro exI [of _ st]) (auto split: sum.splits)
qed

subsection \<open>Large pages\<close>

text \<open>
  C14: a large page cannot be split.  \<^verbatim>\<open>get_next_lvl\<close> is called with the lock of the page map held; at a
  large page it panics if the address of the page is not aligned, and otherwise, once a page for the
  new table is found, calls \<^verbatim>\<open>map_page\<close>, which waits for that lock forever.
\<close>

theorem split_deadlocks:
  assumes "vm_locked st" "is_valid (entry_at st e)" "is_large (entry_at st e)" "old_page_size \<noteq> - 1" "old_page_size \<noteq> 0"
  shows "get_next_lvl b e allocate va old_page_size page_size st =
    (if pte_get_address (entry_at st e) AND (old_page_size - 1) \<noteq> 0
     then Inl (Unexpected_entry_address (pte_get_address (entry_at st e)))
     else case vm_allocate b st of Inl x \<Rightarrow> Inl x | Inr _ \<Rightarrow> Inl (Page_lock Deadlock))"
proof -
  have d: "deadlocks (map_page b)" by (subst map_page_unfold) (rule deadlocks_map_page(2))
  have "vm_locked (set_entry e v s)" if "vm_allocate b st = Inr (a, s)" for a s v
    using assms(1) vm_allocate_this [OF that] by (simp add: vm_locked_def)
  then show ?thesis
    using assms split_loop_locked [OF d] unfolding get_next_lvl_def get_next_lvl_via_def Let_def
    by (cases "vm_allocate b st") (auto simp: word_gt_0)
qed

text \<open>The 2 MiB page at 4 MiB, entered in the first entry of a table.\<close>

definition vm_large :: vm where
  "vm_large = set_entry (slot hhdm_example 1 0) 0x400083 (lock_taken vm_machine)"

lemma vm_large_facts: "vm_locked vm_large" "entry_at vm_large (slot hhdm_example 1 0) = 0x400083" "\<exists>r. vm_allocate boot_machine vm_large = Inr r"
proof -
  show "vm_locked vm_large"
    by (simp add: vm_large_def vm_locked_def) (simp add: lock_taken_def is_locked_def vm_machine_def TicketLock_init_def)
  show "entry_at vm_large (slot hhdm_example 1 0) = 0x400083" by (simp add: vm_large_def set_entry_simps)
  have "1 \<notin> reserved hhdm_example phys_machine" using machine_bitmap_page [of 1] by (auto simp: reserved_def machine_limit)
  from phys_inv_slot [OF machine_phys_inv _ this, of 0 "0x400083"]
  have "phys_inv hhdm_example (vphys vm_large)" "free_count (vphys vm_large) = 5"
    by (simp_all add: machine_limit machine_free_count vm_large_def set_entry_def) (simp_all add: vm_machine_def machine_free_count)
  from allocate_one [OF this(1)] this(2) show "\<exists>r. vm_allocate boot_machine vm_large = Inr r"
    by (auto simp: vm_allocate_def boot_machine_def)
qed

theorem split_deadlocks_witness:
  "get_next_lvl boot_machine (slot hhdm_example 1 0) True 0x400000 PAGE_SIZE_2MiB PAGE_SIZE vm_large = Inl (Page_lock Deadlock)"
proof -
  have "is_valid 0x400083" "is_large 0x400083" "pte_get_address 0x400083 AND (PAGE_SIZE_2MiB - 1) = 0"
    "PAGE_SIZE_2MiB \<noteq> - 1" "PAGE_SIZE_2MiB \<noteq> 0"
    by (simp_all add: is_valid_def is_large_def pte_has_flags_def pte_get_address_def page_flag_defs PAGE_ADDR_MASK_def PAGE_SIZE_2MiB_def)
  then show ?thesis
    using split_deadlocks [OF vm_large_facts(1), of "slot hhdm_example 1 0" PAGE_SIZE_2MiB boot_machine True "0x400000" PAGE_SIZE]
      vm_large_facts(2,3) by auto
qed

end
