(* ===== verification/Page_Ranges.thy ===== *)
theory Page_Ranges
  imports Page_Maps
begin

text \<open>
  Ranges of pages: a rule for the loops over pages, \<^verbatim>\<open>map_pages\<close> and \<^verbatim>\<open>unmap_pages\<close>, and the
  initialization of the page map of the kernel.
\<close>

subsection \<open>Loops over pages\<close>

text \<open>The loop from \<open>a\<close> to \<open>e\<close> in steps of a page runs through \<open>n\<close> pages.\<close>

definition pages_between :: "u64 \<Rightarrow> u64 \<Rightarrow> nat \<Rightarrow> bool" where
  "pages_between a e n \<longleftrightarrow> unat a + 4096 * n < 18446744073709551616 \<and> unat e \<le> unat a + 4096 * n \<and>
     (n \<noteq> 0 \<longrightarrow> unat a + 4096 * (n - 1) < unat e)"

lemma unat_step:
  assumes "unat a + 4096 * n < 18446744073709551616"
  shows "unat (a + of_nat n * PAGE_SIZE) = unat a + 4096 * n"
proof -
  have n: "n < 18446744073709551616" using assms by linarith
  have "unat (of_nat n * PAGE_SIZE :: u64) = 4096 * n"
    using assms by (simp add: unat_word_ariths PAGE_SIZE_def unat_of_nat64 [OF n])
  then show ?thesis using assms by (simp add: unat_word_ariths)
qed

lemma for_loop_pages:
  assumes between: "pages_between a e n" and "k \<le> n" "P k st"
    and step: "\<And>k s. k < n \<Longrightarrow> P k s \<Longrightarrow>
      (case body (a + of_nat k * PAGE_SIZE) s of Inl x \<Rightarrow> Q x | Inr (y, s') \<Rightarrow> y = SYSTEM_OK \<and> P (Suc k) s')"
  shows "case for_loop body (a + of_nat k * PAGE_SIZE) e PAGE_SIZE st of
      Inl x \<Rightarrow> Q x | Inr ((y, i), s') \<Rightarrow> y = SYSTEM_OK \<and> P n s'"
  using assms(2,3)
proof (induction "n - k" arbitrary: k st)
  case 0
  then have k: "k = n" by simp
  have "unat (a + of_nat n * PAGE_SIZE) = unat a + 4096 * n" using between by (intro unat_step) (simp add: pages_between_def)
  then have "\<not> a + of_nat n * PAGE_SIZE < e" using between by (simp add: pages_between_def word_less_nat_alt)
  then show ?case using 0(3) k by (subst for_loop.simps) simp
next
  case (Suc m)
  then have k: "k < n" by simp
  have b: "unat a + 4096 * n < 18446744073709551616" "unat a + 4096 * (n - 1) < unat e"
    using between k by (auto simp: pages_between_def)
  have m: "4096 * k \<le> 4096 * (n - 1)" "4096 * Suc k \<le> 4096 * n" using k by simp_all
  have u: "unat (a + of_nat k * PAGE_SIZE) = unat a + 4096 * k" "unat (a + of_nat (Suc k) * PAGE_SIZE) = unat a + 4096 * Suc k"
    using b(1) m by (intro unat_step, linarith)+
  have lt: "a + of_nat k * PAGE_SIZE < e" unfolding word_less_nat_alt u(1) using b(2) m(1) by linarith
  have next_page: "a + of_nat k * PAGE_SIZE + PAGE_SIZE = a + of_nat (Suc k) * PAGE_SIZE" by (simp add: algebra_simps)
  have nw: "\<not> a + of_nat k * PAGE_SIZE + PAGE_SIZE \<le> a + of_nat k * PAGE_SIZE"
    unfolding next_page word_le_nat_alt u by simp
  show ?case
  proof (cases "body (a + of_nat k * PAGE_SIZE) st")
    case (Inl x)
    then show ?thesis using step [OF k Suc(4)] lt by (subst for_loop.simps) simp
  next
    case (Inr z)
    then obtain y s where z: "body (a + of_nat k * PAGE_SIZE) st = Inr (y, s)" by (cases z) auto
    then have s: "y = SYSTEM_OK" "P (Suc k) s" using step [OF k Suc(4)] by simp_all
    have "for_loop body (a + of_nat k * PAGE_SIZE) e PAGE_SIZE st = for_loop body (a + of_nat (Suc k) * PAGE_SIZE) e PAGE_SIZE s"
      using lt z s(1) nw by (subst for_loop.simps) (simp add: next_page del: of_nat_Suc)
    then show ?thesis using Suc(1) [OF _ _ s(2)] Suc(2) k by simp
  qed
qed

lemma page_loop:
  assumes "pages_between a e n" "P 0 st"
    and "\<And>k s. k < n \<Longrightarrow> P k s \<Longrightarrow>
      (case body (a + of_nat k * PAGE_SIZE) s of Inl x \<Rightarrow> Q x | Inr (y, s') \<Rightarrow> y = SYSTEM_OK \<and> P (Suc k) s')"
  shows "case for_loop body a e PAGE_SIZE st of Inl x \<Rightarrow> Q x | Inr ((y, i), s') \<Rightarrow> y = SYSTEM_OK \<and> P n s'"
  using for_loop_pages [OF assms(1) le0 assms(2,3)] by simp

lemma page_loop_total:
  assumes "pages_between a e n" "P 0 st"
    and "\<And>k s. k < n \<Longrightarrow> P k s \<Longrightarrow>
      (case body (a + of_nat k * PAGE_SIZE) s of Inl x \<Rightarrow> False | Inr (y, s') \<Rightarrow> y = SYSTEM_OK \<and> P (Suc k) s')"
  shows "\<exists>i s'. for_loop body a e PAGE_SIZE st = Inr ((SYSTEM_OK, i), s') \<and> P n s'"
  using page_loop [where P = P and Q = "\<lambda>_. False" and body = body, OF assms(1,2) assms(3)] by (auto split: sum.splits)

subsection \<open>Ranges\<close>

text \<open>The update of a partial function at \<open>n\<close> keys in turn.\<close>

primrec update_range :: "('k \<Rightarrow> 'v option) \<Rightarrow> (nat \<Rightarrow> 'k) \<Rightarrow> (nat \<Rightarrow> 'v option) \<Rightarrow> nat \<Rightarrow> 'k \<Rightarrow> 'v option" where
  "update_range f key v 0 = f"
| "update_range f key v (Suc n) = (update_range f key v n)(key n := v n)"

lemma update_range_other: "(\<And>i. i < n \<Longrightarrow> key i \<noteq> k) \<Longrightarrow> update_range f key v n k = f k"
  by (induction n) auto

lemma update_range_key:
  assumes "i < n" "\<And>j. j < n \<Longrightarrow> key j = key i \<Longrightarrow> v j = v i"
  shows "update_range f key v n (key i) = v i"
  using assms
proof (induction n)
  case (Suc n)
  show ?case
  proof (cases "key n = key i")
    case True
    then show ?thesis using Suc.prems(2) [of n] by simp
  next
    case False
    then have "i < n" using Suc.prems(1) by (metis less_antisym)
    then have "update_range f key v n (key i) = v i" by (rule Suc.IH) (rule Suc.prems(2), simp_all)
    then show ?thesis using False by simp
  qed
qed simp

abbreviation pages_at :: "boot \<Rightarrow> u64 \<Rightarrow> nat \<Rightarrow> nat list" where
  "pages_at b va \<equiv> \<lambda>i. vpage b (va + of_nat i * PAGE_SIZE)"

lemma map_loop:
  assumes "vm_inv b r st" "small_present flags" "pages_between 0 sz n"
  shows "case for_loop (\<lambda>i. map_page b (va + i) (pa + i) flags) 0 sz PAGE_SIZE st of
      Inl e \<Rightarrow> e = Phys_error Out_of_memory \<and> free_count (vphys st) < n * depth b
    | Inr ((y, i), st') \<Rightarrow> y = SYSTEM_OK \<and> vm_inv b r st' \<and> free_count (vphys st) \<le> free_count (vphys st') + n * depth b \<and>
        (\<forall>ks. is_page (depth b) ks \<longrightarrow> vleaf b r st' ks =
          update_range (vleaf b r st) (pages_at b va) (\<lambda>i. Some ((pa + of_nat i * PAGE_SIZE) OR PageMap_parse_flags flags)) n ks)"
proof -
  let ?P = "\<lambda>k s. vm_inv b r s \<and> free_count (vphys st) \<le> free_count (vphys s) + k * depth b \<and>
    (\<forall>ks. is_page (depth b) ks \<longrightarrow> vleaf b r s ks =
      update_range (vleaf b r st) (pages_at b va) (\<lambda>i. Some ((pa + of_nat i * PAGE_SIZE) OR PageMap_parse_flags flags)) k ks)"
  let ?Q = "\<lambda>e. e = Phys_error Out_of_memory \<and> free_count (vphys st) < n * depth b"
  have f: "flag_to_page_size flags = PAGE_SIZE" "flags AND MAP_READ \<noteq> 0"
    using assms(2) by (simp_all add: small_present_def small_page_def)
  have step: "case map_page b (va + (0 + of_nat k * PAGE_SIZE)) (pa + (0 + of_nat k * PAGE_SIZE)) flags s of
      Inl x \<Rightarrow> ?Q x | Inr (y, s') \<Rightarrow> y = SYSTEM_OK \<and> ?P (Suc k) s'" if k: "k < n" and s: "?P k s" for k s
  proof -
    have "Suc k * depth b \<le> n * depth b" using k by (intro mult_right_mono) auto
    then show ?thesis
      using map_page_outcome [OF _ f, of b r s "va + of_nat k * PAGE_SIZE" "pa + of_nat k * PAGE_SIZE"] s
      by (auto simp: op_outcome_def split: sum.splits)
  qed
  have "?P 0 st" using assms(1) by simp
  from page_loop [where P = ?P and Q = ?Q and body = "\<lambda>i. map_page b (va + i) (pa + i) flags", OF assms(3) this step]
  show ?thesis .
qed

subsection \<open>Page numbers\<close>

lemma unat_GET_PML_ENTRY: "n < 64 \<Longrightarrow> unat (GET_PML_ENTRY va n) = unat va div 2 ^ n mod 512"
proof -
  assume n: "n < 64"
  have "GET_PML_ENTRY va n = take_bit 9 (drop_bit n va)"
    by (simp add: GET_PML_ENTRY_def take_bit_eq_mask mask_eq_exp_minus_1)
  moreover have "take_bit 64 (unat va) = unat va" using unat_lt64 [of va] by (intro take_bit_nat_eq_self) simp
  ultimately have "unat (GET_PML_ENTRY va n) = take_bit 9 (drop_bit n (unat va))"
    by (simp only: unsigned_take_bit_eq unsigned_drop_bit_eq) simp
  then show ?thesis by (simp add: take_bit_eq_mod drop_bit_eq_div)
qed

lemma div_512: "(x :: nat) div 512 div 512 = x div 262144" "x div 262144 div 512 = x div 134217728"
  and div_4096: "(x :: nat) div 4096 div 512 = x div 2097152" "x div 4096 div 262144 = x div 1073741824"
    "x div 4096 div 134217728 = x div 549755813888" "x div 4096 div 68719476736 = x div 281474976710656"
  using div_mult2_eq [of x 512 512] div_mult2_eq [of x 262144 512] div_mult2_eq [of x 4096 512] div_mult2_eq [of x 4096 262144]
    div_mult2_eq [of x 4096 134217728] div_mult2_eq [of x 4096 68719476736] by simp_all

lemma mod_digits:
  fixes x :: nat
  shows "x mod 68719476736 = x mod 512 + 512 * (x div 512 mod 512) + 262144 * (x div 262144 mod 512) + 134217728 * (x div 134217728 mod 512)"
  using mod_mult2_eq [of x 512 134217728] mod_mult2_eq [of "x div 512" 512 262144] mod_mult2_eq [of "x div 262144" 512 512]
  by (simp add: div_512)

lemma vpage_indices:
  "vpage b x = (if is_paging_mode_max b then [unat x div 281474976710656 mod 512] else []) @
     [unat x div 549755813888 mod 512, unat x div 1073741824 mod 512, unat x div 2097152 mod 512, unat x div 4096 mod 512]"
  by (simp add: vpage_def path_of_def unat_GET_PML_ENTRY)

lemma vpage_eqD:
  assumes "vpage b x = vpage b y"
  shows "unat x div 4096 mod 68719476736 = unat y div 4096 mod 68719476736"
proof -
  have e: "unat x div 4096 mod 512 = unat y div 4096 mod 512" "unat x div 2097152 mod 512 = unat y div 2097152 mod 512"
    "unat x div 1073741824 mod 512 = unat y div 1073741824 mod 512" "unat x div 549755813888 mod 512 = unat y div 549755813888 mod 512"
    using assms unfolding vpage_indices by (simp_all split: if_splits)
  show ?thesis unfolding mod_digits div_4096 e ..
qed

lemma vpage_offset: "unat x div 4096 = unat y div 4096 \<Longrightarrow> vpage b x = vpage b y"
  unfolding vpage_indices div_4096 [symmetric] by simp

lemma pages_at_inj:
  assumes "unat va + 4096 * n \<le> 18446744073709551616" "n \<le> 68719476736" "i < n" "j < n" "pages_at b va i = pages_at b va j"
  shows "i = j"
proof -
  have m: "4096 * i + 4096 \<le> 4096 * n" "4096 * j + 4096 \<le> 4096 * n" using assms(3,4) by simp_all
  have u: "unat (va + of_nat i * PAGE_SIZE) = unat va + 4096 * i" "unat (va + of_nat j * PAGE_SIZE) = unat va + 4096 * j"
    using assms(1) m by (intro unat_step, linarith)+
  have e: "(unat va div 4096 + i) mod 68719476736 = (unat va div 4096 + j) mod 68719476736"
    using vpage_eqD [OF assms(5)] unfolding u by (simp add: add.commute)
  then obtain x y where "unat va div 4096 + i + 68719476736 * x = unat va div 4096 + j + 68719476736 * y"
    by (auto simp: nat_mod_eq_iff)
  then have "(i + 68719476736 * x) mod 68719476736 = (j + 68719476736 * y) mod 68719476736" by simp
  then show ?thesis using assms(2-4) by simp
qed

subsection \<open>Mapping and unmapping ranges\<close>

lemma map_pages_outcome:
  assumes "vm_inv b r st" "small_present flags" "pages_between 0 sz n"
  shows "case map_pages b va pa sz flags st of
      Inl e \<Rightarrow> e = Phys_error Out_of_memory \<and> free_count (vphys st) < n * depth b
    | Inr (x, st') \<Rightarrow> x = SYSTEM_OK \<and> vm_inv b r st' \<and>
        (\<forall>ks. is_page (depth b) ks \<longrightarrow> vleaf b r st' ks =
          update_range (vleaf b r st) (pages_at b va) (\<lambda>i. Some ((pa + of_nat i * PAGE_SIZE) OR PageMap_parse_flags flags)) n ks)"
proof -
  have f: "flag_to_page_size flags = PAGE_SIZE" using assms(2) by (simp add: small_present_def small_page_def)
  show ?thesis
    using map_loop [OF assms, of va pa] unfolding map_pages_def f Let_def
    by (cases "for_loop (\<lambda>i. map_page b (va + i) (pa + i) flags) 0 sz PAGE_SIZE st") auto
qed

lemma unmap_pages_outcome:
  assumes "vm_inv b r st" "small_page flags" "pages_between 0 sz n"
  shows "\<exists>st'. unmap_pages b va sz flags st = Inr (SYSTEM_OK, st') \<and> vm_inv b r st' \<and>
    (\<forall>ks. is_page (depth b) ks \<longrightarrow> vleaf b r st' ks = update_range (vleaf b r st) (pages_at b va) (\<lambda>_. None) n ks)"
proof -
  let ?P = "\<lambda>k s. vm_inv b r s \<and> (\<forall>ks. is_page (depth b) ks \<longrightarrow> vleaf b r s ks = update_range (vleaf b r st) (pages_at b va) (\<lambda>_. None) k ks)"
  let ?body = "\<lambda>i. unmap_page b (va + i) flags"
  have f: "flag_to_page_size flags = PAGE_SIZE" using assms(2) by (simp add: small_page_def)
  have step: "case ?body (0 + of_nat k * PAGE_SIZE) s of Inl x \<Rightarrow> False | Inr (y, s') \<Rightarrow> y = SYSTEM_OK \<and> ?P (Suc k) s'"
    if "k < n" and s: "?P k s" for k s
  proof -
    obtain s' where s': "unmap_page b (va + of_nat k * PAGE_SIZE) flags s = Inr (SYSTEM_OK, s')" "vm_inv b r s'"
      "\<forall>ks. is_page (depth b) ks \<longrightarrow> vleaf b r s' ks = ((vleaf b r s)(pages_at b va k := None)) ks"
      using page_map.unmap_law [OF conjunct1 [OF s] assms(2)] by blast
    have "vleaf b r s' ks = update_range (vleaf b r st) (pages_at b va) (\<lambda>_. None) (Suc k) ks" if "is_page (depth b) ks" for ks
      using s'(3) conjunct2 [OF s] that by simp
    then show ?thesis using s'(1,2) by simp
  qed
  have "?P 0 st" using assms(1) by simp
  from page_loop_total [where P = ?P and body = ?body, OF assms(3) this step]
  obtain i s' where "for_loop ?body 0 sz PAGE_SIZE st = Inr ((SYSTEM_OK, i), s')" "?P n s'" by blast
  then show ?thesis unfolding unmap_pages_def f by (intro exI [of _ s']) simp
qed

lemma page_offset:
  assumes "va mod PAGE_SIZE = 0" "unat va + d < 18446744073709551616"
  shows "vpage b (va + of_nat d) = pages_at b va (d div 4096)" "(va + of_nat d) mod PAGE_SIZE = of_nat (d mod 4096)"
proof -
  have m: "unat va mod 4096 = 0" using assms(1) by (simp add: word_unat_eq_iff unat_mod_distrib PAGE_SIZE_def)
  have u: "unat (va + of_nat d) = unat va + d" using assms(2) by (simp add: unat_word_ariths unat_of_nat64)
  have le: "4096 * (d div 4096) \<le> d" by simp
  have k: "unat (va + of_nat (d div 4096) * PAGE_SIZE) = unat va + 4096 * (d div 4096)"
    using assms(2) le by (intro unat_step) linarith
  show "vpage b (va + of_nat d) = pages_at b va (d div 4096)"
    by (rule vpage_offset) (use m in \<open>simp add: u k div_add1_eq [of "unat va" d]\<close>)
  have "unat ((va + of_nat d) mod PAGE_SIZE) = d mod 4096"
    using m mod_add_left_eq [of "unat va" 4096 d] by (simp add: unat_mod_distrib PAGE_SIZE_def u)
  then show "(va + of_nat d) mod PAGE_SIZE = of_nat (d mod 4096)" 
    using less_trans [OF mod_less_divisor [of 4096 d], of 18446744073709551616] by (simp add: word_unat_eq_iff unat_of_nat64)
qed

lemma range_frame:
  assumes "unat pa mod 4096 = 0" "unat pa + 4096 * n \<le> 2 ^ 52" "i < n"
  shows "page_frame (pa + of_nat i * PAGE_SIZE)"
proof -
  have "4096 * i + 4096 \<le> 4096 * n" using assms(3) by simp
  then have "unat (pa + of_nat i * PAGE_SIZE) = unat pa + 4096 * i" using assms(2) by (intro unat_step) simp
  then show ?thesis using assms \<open>4096 * i + 4096 \<le> 4096 * n\<close> by (intro page_frameI) (simp_all add: mod_add_eq [symmetric])
qed

text \<open>
  C13: \<^verbatim>\<open>map_pages\<close> over a range of pages.  It fails only for lack of memory, with fewer free pages than the
  tables of the range could need; otherwise every address of the range translates to the address at
  the same offset in physical memory, and all other pages are mapped as before.
\<close>

theorem map_pages_translate:
  assumes "vm_inv b r st" "small_present flags" "pages_between 0 sz n"
    "va mod PAGE_SIZE = 0" "unat va + 4096 * n \<le> 18446744073709551616" "unat pa mod 4096 = 0" "unat pa + 4096 * n \<le> 2 ^ 48"
  shows "case map_pages b va pa sz flags st of
      Inl e \<Rightarrow> e = Phys_error Out_of_memory \<and> free_count (vphys st) < n * depth b
    | Inr (x, st') \<Rightarrow> x = SYSTEM_OK \<and> vm_inv b r st' \<and>
        (\<forall>d < 4096 * n. \<exists>st''. virtual_to_physical b (va + of_nat d) 0 st' = Inr (pa + of_nat d, st'')) \<and>
        (\<forall>ks. is_page (depth b) ks \<longrightarrow> (\<forall>i < n. ks \<noteq> pages_at b va i) \<longrightarrow> vleaf b r st' ks = vleaf b r st ks)"
proof (cases "map_pages b va pa sz flags st")
  case (Inl e)
  then show ?thesis using map_pages_outcome [OF assms(1-3), of va pa] by simp
next
  case (Inr z)
  then obtain x st' where z: "map_pages b va pa sz flags st = Inr (x, st')" by (cases z) auto
  let ?v = "\<lambda>i. (pa + of_nat i * PAGE_SIZE) OR PageMap_parse_flags flags"
  have m: "x = SYSTEM_OK" "vm_inv b r st'"
    "\<forall>ks. is_page (depth b) ks \<longrightarrow> vleaf b r st' ks = update_range (vleaf b r st) (pages_at b va) (\<lambda>i. Some (?v i)) n ks"
    using map_pages_outcome [OF assms(1-3), of va pa] z by simp_all
  have small: "small_page flags" "small_page 0"
    using assms(2) by (simp_all add: small_present_def small_page_def machine_flags)
  have "\<exists>st''. virtual_to_physical b (va + of_nat d) 0 st' = Inr (pa + of_nat d, st'')" if d: "d < 4096 * n" for d
  proof -
    have i: "d div 4096 < n" using d by (simp add: div_less_iff_less_mult mult.commute)
    have o: "unat va + d < 18446744073709551616" using assms(5) d by linarith
    have n: "n \<le> 68719476736" "unat pa + 4096 * n \<le> 2 ^ 52" using assms(7) by simp_all
    have "vleaf b r st' (pages_at b va (d div 4096)) = Some (?v (d div 4096))"
      using m(3) update_range_key [OF i, of "pages_at b va" "\<lambda>i. Some (?v i)"] pages_at_inj [OF assms(5) n(1) _ i] by auto
    then have l: "vleaf b r st' (vpage b (va + of_nat d)) = Some (encode_entry (pa + of_nat (d div 4096) * PAGE_SIZE) flags)"
      using page_offset(1) [OF assms(4) o] by (simp add: encode_entry_def)
    have "of_nat d = (of_nat (4096 * (d div 4096) + d mod 4096) :: u64)" by simp
    then have "pa + of_nat (d div 4096) * PAGE_SIZE + of_nat (d mod 4096) = pa + of_nat d"
      by (simp only: of_nat_add of_nat_mult PAGE_SIZE_def) (simp add: mult.commute)
    then have "decode_entry (va + of_nat d) (vleaf b r st' (vpage b (va + of_nat d))) = pa + of_nat d"
      using decode_encode [OF range_frame [OF assms(6) n(2) i] small(1)] page_offset(2) [OF assms(4) o] by (simp add: l)
    then show ?thesis using page_map.translate_law [OF m(2) small(2), of "va + of_nat d"] by auto
  qed
  moreover have "vleaf b r st' ks = vleaf b r st ks" if "is_page (depth b) ks" "\<forall>i < n. ks \<noteq> pages_at b va i" for ks
  proof -
    have "update_range (vleaf b r st) (pages_at b va) (\<lambda>i. Some (?v i)) n ks = vleaf b r st ks"
      by (rule update_range_other) (use that(2) in blast)
    then show ?thesis using m(3) that(1) by simp
  qed
  ultimately show ?thesis using m(1,2) z by simp
qed

theorem map_pages_translate_witness:
  "\<exists>st' st''. map_pages boot_machine 0xFFFF800000005000 0x5000 0x1000 0x203 vm_machine = Inr (SYSTEM_OK, st') \<and>
     virtual_to_physical boot_machine 0xFFFF800000005FFF 0 st' = Inr (0x5FFF, st'')"
proof -
  have s: "small_present 0x203" by (simp add: small_present_def small_page_def machine_flags)
  have p: "pages_between 0 0x1000 1" by (simp add: pages_between_def)
  have f: "free_count (vphys vm_machine) = 5" "depth boot_machine = 3"
    by (simp_all add: vm_machine_def machine_free_count boot_machine_def depth_def)
  have t: "case map_pages boot_machine 0xFFFF800000005000 0x5000 0x1000 0x203 vm_machine of
      Inl e \<Rightarrow> e = Phys_error Out_of_memory \<and> (5 :: nat) < 1 * 3
    | Inr (x, st') \<Rightarrow> x = SYSTEM_OK \<and> vm_inv boot_machine 1 st' \<and>
        (\<forall>d < 4096 * 1. \<exists>st''. virtual_to_physical boot_machine (0xFFFF800000005000 + of_nat d) 0 st' = Inr (0x5000 + of_nat d, st'')) \<and>
        (\<forall>ks. is_page 3 ks \<longrightarrow> (\<forall>i < 1. ks \<noteq> pages_at boot_machine 0xFFFF800000005000 i) \<longrightarrow>
          vleaf boot_machine 1 st' ks = vleaf boot_machine 1 vm_machine ks)"
    using map_pages_translate [OF machine_inv s p, of "0xFFFF800000005000" "0x5000", unfolded f] by (simp add: PAGE_SIZE_def)
  then obtain st' where st': "map_pages boot_machine 0xFFFF800000005000 0x5000 0x1000 0x203 vm_machine = Inr (SYSTEM_OK, st')"
    "\<forall>d < 4096 * 1. \<exists>st''. virtual_to_physical boot_machine (0xFFFF800000005000 + of_nat d) 0 st' = Inr (0x5000 + of_nat d, st'')"
    by (auto split: sum.splits)
  show ?thesis using st'(1) st'(2) [rule_format, of 4095] by simp
qed

lemma update_range_restore:
  assumes "\<And>i. i < n \<Longrightarrow> f (key i) = None"
  shows "update_range (update_range f key v n) key (\<lambda>_. None) n k = f k"
proof (cases "\<exists>i < n. key i = k")
  case True
  then obtain i where "i < n" "key i = k" by blast
  then show ?thesis using update_range_key [of i n key "\<lambda>_. None" "update_range f key v n"] assms [of i] by simp
next
  case False
  then have "update_range (update_range f key v n) key (\<lambda>_. None) n k = update_range f key v n k" "update_range f key v n k = f k"
    by (intro update_range_other, blast)+
  then show ?thesis by simp
qed

lemma update_range_cong:
  assumes "\<And>k. p k \<Longrightarrow> f k = g k" "p k"
  shows "update_range f key v n k = update_range g key v n k"
  using assms by (induction n) auto

text \<open>
  Mapping a range of unmapped pages and unmapping it again restores the address space.
\<close>

theorem map_unmap_pages:
  assumes "vm_inv b r st" "small_present flags" "pages_between 0 sz n" "\<And>i. i < n \<Longrightarrow> vleaf b r st (pages_at b va i) = None"
    "map_pages b va pa sz flags st = Inr (x, st1)"
  shows "\<exists>st2. unmap_pages b va sz flags st1 = Inr (SYSTEM_OK, st2) \<and> vm_inv b r st2 \<and>
    (\<forall>ks. is_page (depth b) ks \<longrightarrow> vleaf b r st2 ks = vleaf b r st ks)"
proof -
  let ?v = "\<lambda>i. Some ((pa + of_nat i * PAGE_SIZE) OR PageMap_parse_flags flags)"
  have 1: "vm_inv b r st1" "\<And>ks. is_page (depth b) ks \<Longrightarrow> vleaf b r st1 ks = update_range (vleaf b r st) (pages_at b va) ?v n ks"
    using map_pages_outcome [OF assms(1-3), of va pa] assms(5) by simp_all
  have f: "small_page flags" using assms(2) by (simp add: small_present_def)
  obtain st2 where 2: "unmap_pages b va sz flags st1 = Inr (SYSTEM_OK, st2)" "vm_inv b r st2"
    "\<forall>ks. is_page (depth b) ks \<longrightarrow> vleaf b r st2 ks = update_range (vleaf b r st1) (pages_at b va) (\<lambda>_. None) n ks"
    using unmap_pages_outcome [OF 1(1) f assms(3)] by blast
  have "vleaf b r st2 ks = vleaf b r st ks" if ks: "is_page (depth b) ks" for ks
  proof -
    have "vleaf b r st2 ks = update_range (vleaf b r st1) (pages_at b va) (\<lambda>_. None) n ks" using 2(3) ks by blast
    also have "\<dots> = update_range (update_range (vleaf b r st) (pages_at b va) ?v n) (pages_at b va) (\<lambda>_. None) n ks"
      by (rule update_range_cong [where p = "is_page (depth b)"]) (use 1(2) ks in blast)+
    also have "\<dots> = vleaf b r st ks" using assms(4) by (rule update_range_restore)
    finally show ?thesis .
  qed
  then show ?thesis using 2(1,2) by blast
qed

theorem map_unmap_pages_witness:
  "\<exists>st1 st2. map_pages boot_machine 0xFFFF800000005000 0x5000 0x1000 0x203 vm_machine = Inr (SYSTEM_OK, st1) \<and>
     unmap_pages boot_machine 0xFFFF800000005000 0x1000 0x203 st1 = Inr (SYSTEM_OK, st2) \<and>
     (\<forall>ks. is_page 3 ks \<longrightarrow> vleaf boot_machine 1 st2 ks = None)"
proof -
  have s: "small_present 0x203" by (simp add: small_present_def small_page_def machine_flags)
  have p: "pages_between 0 0x1000 1" by (simp add: pages_between_def)
  have d: "depth boot_machine = 3" by (simp add: boot_machine_def depth_def)
  have f: "free_count (vphys vm_machine) = 5" by (simp add: vm_machine_def machine_free_count)
  have n: "vleaf boot_machine 1 vm_machine (vpage boot_machine va) = None" for va
    using machine_no_leaf vpage_page [of boot_machine] d by simp
  obtain st1 where st1: "map_pages boot_machine 0xFFFF800000005000 0x5000 0x1000 0x203 vm_machine = Inr (SYSTEM_OK, st1)"
    using map_pages_outcome [OF machine_inv s p, of "0xFFFF800000005000" "0x5000"] f d by (auto split: sum.splits)
  show ?thesis
    using map_unmap_pages [OF machine_inv s p n st1] st1 machine_no_leaf unfolding d by auto
qed

end
