(* ===== verification/Physical_Init.thy ===== *)
theory Physical_Init
  imports Physical
begin

text \<open>
  \<^verbatim>\<open>physical_initialize\<close> of \<^verbatim>\<open>kernel/memory/physical.cpp\<close>.  The memory map is the list of entries that the
  boot loader reports; the function shortens the entry it takes the bitmap from, so that the list is
  returned with the state.  The list and the globals are not part of the memory \<open>pmem\<close>: the clearing of
  the bitmap, which writes eight times its size, reaches the pages of \<open>pmem\<close> behind the bitmap but
  never the memory map or the globals.
\<close>

subsection \<open>Definitions\<close>

text \<open>The kinds of memory that the kernel tells apart.\<close>

datatype memmap_type = Usable | Framebuffer | Kernel_and_modules | Bootloader_reclaimable | Other_memory

record memmap_entry =
  mm_base :: u64
  mm_length :: u64
  mm_type :: memmap_type

text \<open>The first loop: statistics.\<close>

definition stats_entry :: "memmap_entry \<Rightarrow> PhysicalMemoryStats \<Rightarrow> PhysicalMemoryStats" where
  "stats_entry e s =
     (let limit = mm_base e + mm_length e;
          s = s\<lparr>highest_physical_addr := max (highest_physical_addr s) limit\<rparr>;
          count = (\<lambda>s. s\<lparr>total_pages := total_pages s + mm_length e div PAGE_SIZE\<rparr>)
      in case mm_type e of
           Usable \<Rightarrow> count (s\<lparr>highest_usable_addr := max (highest_usable_addr s) limit,
                             lowest_usable_addr := min (lowest_usable_addr s) limit,
                             usable_pages := usable_pages s + mm_length e div PAGE_SIZE\<rparr>)
         | Kernel_and_modules \<Rightarrow> count s
         | Bootloader_reclaimable \<Rightarrow> count s
         | _ \<Rightarrow> s)"

text \<open>The second loop: the first usable entry that is large enough holds the bitmap.\<close>

primrec place_bitmap :: "u64 \<Rightarrow> u64 \<Rightarrow> u64 \<Rightarrow> memmap_entry list \<Rightarrow> phys \<Rightarrow> phys_error + memmap_entry list \<times> phys" where
  "place_bitmap hhdm bitmap_size bitmap_entries [] st = Inr ([], st)"
| "place_bitmap hhdm bitmap_size bitmap_entries (e # es) st =
     (if mm_type e = Usable \<and> mm_length e \<ge> bitmap_size
      then case bitmap_initialize (to_higher_half hhdm (mm_base e)) bitmap_entries of
             None \<Rightarrow> Inl Assertion_failed
           | Some b \<Rightarrow>
              (let st = st\<lparr>phys_bitmap := b, pmem := fst (memset (pmem st) (buffer b) 0xff bitmap_entries)\<rparr>;
                   e = e\<lparr>mm_length := mm_length e - bitmap_size, mm_base := mm_base e + bitmap_size\<rparr>;
                   stats = phys_stats st;
                   stats = stats\<lparr>used_pages := used_pages stats + div_roundup bitmap_size PAGE_SIZE\<rparr>
               in Inr (e # es, st\<lparr>phys_stats := stats\<rparr>))
      else case place_bitmap hhdm bitmap_size bitmap_entries es st of
             Inl x \<Rightarrow> Inl x
           | Inr (es, st) \<Rightarrow> Inr (e # es, st))"

text \<open>The third loop: the pages of the usable entries are free.\<close>

function free_entry :: "memmap_entry \<Rightarrow> u64 \<Rightarrow> phys \<Rightarrow> phys_error + phys" where
  "free_entry e j st =
     (if j < mm_length e
      then case bitmap_set (pmem st) (phys_bitmap st) ((mm_base e + j) div PAGE_SIZE) (mark_bool BITMAP_FREE) of
             None \<Rightarrow> Inl Assertion_failed
           | Some m \<Rightarrow> if j + PAGE_SIZE \<le> j then Inl Endless_loop else free_entry e (j + PAGE_SIZE) (st\<lparr>pmem := m\<rparr>)
      else Inr st)"
  by pat_completeness auto
termination
proof (relation "measure (\<lambda>(e, j, st). 18446744073709551616 - unat j)")
  fix e :: memmap_entry and j :: u64 and st :: phys and m :: mem
  assume "\<not> j + PAGE_SIZE \<le> j"
  then have "unat j < unat (j + PAGE_SIZE)" "unat (j + PAGE_SIZE) < 18446744073709551616"
    using unat_lt64 by (auto simp: word_le_nat_alt)
  then show "((e, j + PAGE_SIZE, st\<lparr>pmem := m\<rparr>), e, j, st) \<in> measure (\<lambda>(e, j, st). 18446744073709551616 - unat j)" by simp
qed simp

declare free_entry.simps [simp del]

primrec free_entries :: "memmap_entry list \<Rightarrow> phys \<Rightarrow> phys_error + phys" where
  "free_entries [] st = Inr st"
| "free_entries (e # es) st =
     (if mm_type e \<noteq> Usable then free_entries es st
      else case free_entry e 0 st of Inl x \<Rightarrow> Inl x | Inr st \<Rightarrow> free_entries es st)"

definition physical_initialize :: "u64 \<Rightarrow> memmap_entry list \<Rightarrow> phys \<Rightarrow> phys_error + memmap_entry list \<times> phys" where
  "physical_initialize hhdm memmaps st =
     (let stats = fold stats_entry memmaps (phys_stats st);
          stats = (if lowest_usable_addr stats = 0 then stats\<lparr>lowest_usable_addr := 0x1000\<rparr> else stats);
          bitmap_entries = highest_usable_addr stats div PAGE_SIZE;
          bitmap_size = align_up (bitmap_entries div 8) PAGE_SIZE;
          bitmap_entries = bitmap_size * 8
      in case place_bitmap hhdm bitmap_size bitmap_entries memmaps (st\<lparr>phys_stats := stats\<rparr>) of
           Inl x \<Rightarrow> Inl x
         | Inr (memmaps, st) \<Rightarrow>
            (case free_entries memmaps st of
               Inl x \<Rightarrow> Inl x
             | Inr st \<Rightarrow>
                (let stats = phys_stats st
                 in Inr (memmaps, st\<lparr>phys_stats := stats\<lparr>free_pages := usable_pages stats - used_pages stats\<rparr>\<rparr>))))"

subsection \<open>The memory map in page numbers\<close>

definition region :: "memmap_entry \<Rightarrow> nat set" where
  "region e = (if mm_type e = Usable then {unat (mm_base e) div 4096 ..< unat (mm_base e) div 4096 + unat (mm_length e) div 4096} else {})"

definition entry_aligned :: "memmap_entry \<Rightarrow> bool" where
  "entry_aligned e \<longleftrightarrow> (mm_type e = Usable \<longrightarrow> 4096 dvd unat (mm_base e) \<and> 4096 dvd unat (mm_length e) \<and> 4096 \<le> unat (mm_base e) \<and>
     unat (mm_base e) + unat (mm_length e) < 18446744073709551616)"

primrec regions_disjoint :: "memmap_entry list \<Rightarrow> bool" where
  "regions_disjoint [] \<longleftrightarrow> True"
| "regions_disjoint (e # es) \<longleftrightarrow> region e \<inter> (\<Union>e \<in> set es. region e) = {} \<and> regions_disjoint es"

lemma finite_region [simp]: "finite (region e)"
  by (simp add: region_def)

lemma card_regions: "regions_disjoint es \<Longrightarrow> card (\<Union>e \<in> set es. region e) = sum_list (map (\<lambda>e. card (region e)) es)"
  by (induction es) (simp_all add: card_Un_disjoint)

subsection \<open>Freeing the usable pages\<close>

lemma free_entry_marks:
  assumes al: "entry_aligned e" "mm_type e = Usable"
    and lim: "unat (mm_base e) div 4096 + unat (mm_length e) div 4096 \<le> unat (bsize (phys_bitmap st))"
    and "k \<le> unat (mm_length e) div 4096"
  shows "free_entry e (of_nat k * PAGE_SIZE) st =
    Inr (mark_pages (unat (mm_base e) div 4096 + k) (unat (mm_base e) div 4096 + unat (mm_length e) div 4096) False st)"
  using lim assms(4)
proof (induction "unat (mm_length e) div 4096 - k" arbitrary: k st)
  case 0
  have "unat (mm_length e) = 4096 * k" using 0 al by (auto simp: entry_aligned_def)
  then have "mm_length e = of_nat k * PAGE_SIZE"
    using page_ret(1) [of k] unat_lt64 [of "mm_length e"] by (simp add: word_unat_eq_iff)
  then show ?case using 0 by (subst free_entry.simps) (simp add: mark_pages_def)
next
  case (Suc n)
  let ?b = "unat (mm_base e) div 4096" and ?l = "unat (mm_length e) div 4096"
  have k: "k < ?l" using Suc(2) by simp
  have d: "unat (mm_base e) = 4096 * ?b" "unat (mm_length e) = 4096 * ?l" using al by (simp_all add: entry_aligned_def)
  have b: "unat (mm_base e) + unat (mm_length e) < 18446744073709551616" using al by (simp add: entry_aligned_def)
  have kl: "4096 * k + 4096 \<le> unat (mm_length e)" 
  proof -
    have "4096 * k + 4096 \<le> 4096 * ?l" using k by simp
    then show ?thesis using d(2) by linarith
  qed
  have u: "unat (of_nat k * PAGE_SIZE :: u64) = 4096 * k" "unat (of_nat (Suc k) * PAGE_SIZE :: u64) = 4096 * Suc k"
    using k b kl d by (intro page_ret(1), linarith)+
  have nx: "of_nat k * PAGE_SIZE + PAGE_SIZE = (of_nat (Suc k) * PAGE_SIZE :: u64)" by (simp add: algebra_simps)
  have lt: "of_nat k * PAGE_SIZE < mm_length e" unfolding word_less_nat_alt u using kl by linarith
  have nw: "\<not> of_nat k * PAGE_SIZE + PAGE_SIZE \<le> (of_nat k * PAGE_SIZE :: u64)" unfolding nx word_le_nat_alt u by simp
  have "unat (mm_base e + of_nat k * PAGE_SIZE) = 4096 * (?b + k)"
    using b kl d(1) u(1) by (subst unat_add64) (linarith, simp)
  then have ix: "unat ((mm_base e + of_nat k * PAGE_SIZE) div PAGE_SIZE) = ?b + k" by (simp add: unat_div_distrib PAGE_SIZE_def)
  then have "(mm_base e + of_nat k * PAGE_SIZE) div PAGE_SIZE < bsize (phys_bitmap st)"
    unfolding word_less_nat_alt ix using Suc(3) k by linarith
  note set = bitmap_set_at [OF this, of "pmem st" False, unfolded ix]
  let ?st = "st\<lparr>pmem := write_bit (buffer (phys_bitmap st)) (?b + k) False (pmem st)\<rparr>"
  have "free_entry e (of_nat k * PAGE_SIZE) st = free_entry e (of_nat (Suc k) * PAGE_SIZE) ?st"
    using lt nw set by (subst free_entry.simps) (simp add: mark_bool_def nx del: of_nat_Suc)
  also have "\<dots> = Inr (mark_pages (?b + Suc k) (?b + ?l) False ?st)"
    using Suc(1) [of "Suc k" ?st] Suc(2,3) k by simp
  also have "mark_pages (?b + Suc k) (?b + ?l) False ?st = mark_pages (?b + k) (?b + ?l) False st"
    using k by (simp add: mark_pages_def upt_conv_Cons)
  finally show ?case .
qed

text \<open>All usable entries.\<close>

definition freed :: "memmap_entry list \<Rightarrow> phys \<Rightarrow> phys" where
  "freed es st = fold (\<lambda>e st. if mm_type e = Usable
     then mark_pages (unat (mm_base e) div 4096) (unat (mm_base e) div 4096 + unat (mm_length e) div 4096) False st else st) es st"

lemma freed_simps [simp]:
  "phys_stats (freed es st) = phys_stats st" "phys_bitmap (freed es st) = phys_bitmap st"
  "phys_lock (freed es st) = phys_lock st" "bitmap_last_index (freed es st) = bitmap_last_index st"
  by (induction es arbitrary: st) (simp_all add: freed_def)

definition within :: "nat \<Rightarrow> memmap_entry \<Rightarrow> bool" where
  "within n e \<longleftrightarrow> (mm_type e = Usable \<longrightarrow> unat (mm_base e) div 4096 + unat (mm_length e) div 4096 \<le> n)"

lemma free_entries_freed:
  assumes "\<forall>e \<in> set es. entry_aligned e" "\<forall>e \<in> set es. within (unat (bsize (phys_bitmap st))) e"
  shows "free_entries es st = Inr (freed es st)"
  using assms
proof (induction es arbitrary: st)
  case (Cons e es)
  show ?case
  proof (cases "mm_type e = Usable")
    case True
    then have "free_entry e 0 st = Inr (mark_pages (unat (mm_base e) div 4096) (unat (mm_base e) div 4096 + unat (mm_length e) div 4096) False st)"
      using free_entry_marks [of e st 0] Cons.prems by (simp add: within_def)
    then show ?thesis using Cons True by (simp add: freed_def)
  qed (use Cons in \<open>simp add: freed_def\<close>)
qed (simp add: freed_def)

lemma used_freed:
  assumes "\<forall>e \<in> set es. within n e" "n \<le> 18446744073709551616" "p < 18446744073709551616"
  shows "used (freed es st) p \<longleftrightarrow> used st p \<and> p \<notin> (\<Union>e \<in> set es. region e)"
  using assms(1)
proof (induction es arbitrary: st)
  case (Cons e es)
  show ?case
  proof (cases "mm_type e = Usable")
    case True
    let ?m = "mark_pages (unat (mm_base e) div 4096) (unat (mm_base e) div 4096 + unat (mm_length e) div 4096) False st"
    have "used ?m p \<longleftrightarrow> used st p \<and> p \<notin> region e"
      using used_mark_pages [of "unat (mm_base e) div 4096 + unat (mm_length e) div 4096" p] Cons.prems assms(2,3) True
      by (auto simp: region_def within_def)
    moreover have "freed (e # es) st = freed es ?m" using True by (simp add: freed_def)
    ultimately show ?thesis using Cons by auto
  next
    case False
    then have "freed (e # es) st = freed es st" "region e = {}" by (simp_all add: freed_def region_def)
    then show ?thesis using Cons by simp
  qed
qed (simp add: freed_def)

lemma freed_frame:
  assumes "\<forall>e \<in> set es. within (8 * n) e" "n \<le> unat (x - buffer (phys_bitmap st))" "n < 18446744073709551616"
  shows "pmem (freed es st) x = pmem st x"
  using assms(1,2)
proof (induction es arbitrary: st)
  case (Cons e es)
  then show ?case
    using mark_pages_frame [OF _ Cons.prems(2) assms(3)] by (simp add: freed_def within_def)
qed (simp add: freed_def)

subsection \<open>Statistics\<close>

definition entry_top :: "memmap_entry \<Rightarrow> nat \<Rightarrow> nat" where
  "entry_top e m = (if mm_type e = Usable then max m (unat (mm_base e) + unat (mm_length e)) else m)"

definition highest_usable :: "memmap_entry list \<Rightarrow> nat" where
  "highest_usable es = fold entry_top es 0"

lemma stats_highest:
  assumes "\<forall>e \<in> set es. entry_aligned e"
  shows "unat (highest_usable_addr (fold stats_entry es s)) =
    fold entry_top es (unat (highest_usable_addr s))"
  using assms
proof (induction es arbitrary: s)
  case (Cons e es)
  have "unat (highest_usable_addr (stats_entry e s)) = entry_top e (unat (highest_usable_addr s))"
    using Cons.prems unat_add64 [of "mm_base e" "mm_length e"]
    by (auto simp: stats_entry_def entry_top_def entry_aligned_def Let_def max_def word_le_nat_alt split: memmap_type.splits)
  then show ?case using Cons by simp
qed simp

lemma stats_usable:
  "usable_pages (fold stats_entry es s) = usable_pages s + of_nat (sum_list (map (\<lambda>e. card (region e)) es))"
proof (induction es arbitrary: s)
  case (Cons e es)
  have "of_nat (unat (mm_length e) div 4096) = mm_length e div PAGE_SIZE"
    using u64_of_nat_unat [of "mm_length e div PAGE_SIZE"] by (simp add: unat_div_distrib PAGE_SIZE_def)
  then show ?case using Cons by (simp add: stats_entry_def region_def Let_def split: memmap_type.splits)
qed simp

lemma stats_rest:
  "used_pages (fold stats_entry es s) = used_pages s" "free_pages (fold stats_entry es s) = free_pages s"
  by (induction es arbitrary: s) (simp_all add: stats_entry_def Let_def split: memmap_type.splits)

lemma fold_top_le: "m \<le> fold entry_top es m"
proof (induction es arbitrary: m)
  case (Cons e es)
  have "m \<le> entry_top e m" by (simp add: entry_top_def)
  then show ?case using Cons [of "entry_top e m"] by simp
qed simp

lemma fold_top_ge: "e \<in> set es \<Longrightarrow> mm_type e = Usable \<Longrightarrow> unat (mm_base e) + unat (mm_length e) \<le> fold entry_top es m"
proof (induction es arbitrary: m)
  case (Cons x es)
  have "unat (mm_base x) + unat (mm_length x) \<le> entry_top x m" if "mm_type x = Usable" using that by (simp add: entry_top_def)
  then show ?case using Cons fold_top_le [of "entry_top x m" es] by (cases "e = x") auto
qed simp

lemma highest_usable_ge: "e \<in> set es \<Longrightarrow> mm_type e = Usable \<Longrightarrow> unat (mm_base e) + unat (mm_length e) \<le> highest_usable es"
  unfolding highest_usable_def by (rule fold_top_ge)

subsection \<open>The bitmap\<close>

lemma place_bitmap_found:
  assumes "\<forall>x \<in> set pre. \<not> (mm_type x = Usable \<and> mm_length x \<ge> bitmap_size)" "mm_type e = Usable" "mm_length e \<ge> bitmap_size"
    "bitmap_initialize (to_higher_half hhdm (mm_base e)) bitmap_entries = Some b"
  shows "place_bitmap hhdm bitmap_size bitmap_entries (pre @ e # post) st =
    Inr (pre @ e\<lparr>mm_length := mm_length e - bitmap_size, mm_base := mm_base e + bitmap_size\<rparr> # post,
      st\<lparr>phys_bitmap := b, pmem := fst (memset (pmem st) (buffer b) 0xff bitmap_entries),
         phys_stats := (phys_stats st)\<lparr>used_pages := used_pages (phys_stats st) + div_roundup bitmap_size PAGE_SIZE\<rparr>\<rparr>)"
  using assms(1)
proof (induction pre)
  case Nil
  show ?case using assms(2-4) by (simp add: Let_def)
next
  case (Cons x pre)
  then show ?case by auto
qed

text \<open>The size of the bitmap in bytes, for memory up to \<open>h\<close>.\<close>

definition bitmap_bytes :: "nat \<Rightarrow> nat" where
  "bitmap_bytes h = 4096 * ((h div 4096 div 8 + 4095) div 4096)"

lemma bitmap_bytes_word:
  assumes "unat h < 9223372036854775808 + 1"
  shows "unat (align_up (h div PAGE_SIZE div 8) PAGE_SIZE) = bitmap_bytes (unat h)" "bitmap_bytes (unat h) \<le> 281474976714752"
proof -
  have u: "unat (h div PAGE_SIZE div 8) = unat h div 4096 div 8" by (simp add: unat_div_distrib PAGE_SIZE_def)
  have b: "unat h div 4096 div 8 \<le> 281474976710656" using assms by simp
  show "unat (align_up (h div PAGE_SIZE div 8) PAGE_SIZE) = bitmap_bytes (unat h)"
  proof -
    have "unat (align_up (h div PAGE_SIZE div 8) (2 ^ 12)) = (unat h div 4096 div 8 + 2 ^ 12 - 1) div 2 ^ 12 * 2 ^ 12"
      unfolding u [symmetric] by (rule align_up_pow2) (use b u in simp_all)
    moreover have "(2 :: u64) ^ 12 = PAGE_SIZE" "x + 2 ^ 12 - 1 = x + 4095" "(2 :: nat) ^ 12 = 4096" for x :: nat
      by (simp_all add: PAGE_SIZE_def)
    ultimately show ?thesis unfolding bitmap_bytes_def by (simp only: mult.commute)
  qed
  show "bitmap_bytes (unat h) \<le> 281474976714752" using b by (simp add: bitmap_bytes_def)
qed

lemma bit_0xff: "i < 8 \<Longrightarrow> bit (0xFF :: u8) i"
  using bit_mask_iff [of 8 i, where 'a = u8] by (simp add: mask_eq_exp_minus_1)

lemma used_filled:
  assumes "p < 8 * n" "8 * n < 18446744073709551616"
  shows "bit_at (fill_bytes m a 0xFF (8 * n)) a p"
proof -
  have "p div 8 < 8 * n" using assms(1) by linarith
  moreover have "p div 8 < 18446744073709551616" using assms by linarith
  ultimately show ?thesis using bit_0xff [of "p mod 8"] by (simp add: bit_at_def fill_bytes_def unat_of_nat64)
qed

subsection \<open>The invariant\<close>

text \<open>
  What is assumed of the memory map: usable entries are whole pages, do not overlap and leave out
  page 0; the higher half has room for the usable memory; some entry can hold the bitmap; and the
  bitmap is not too small, which happens when the number of pages is just above a multiple of 32768.
\<close>

definition memmap_ok :: "u64 \<Rightarrow> memmap_entry list \<Rightarrow> bool" where
  "memmap_ok hhdm es \<longleftrightarrow> (\<forall>e \<in> set es. entry_aligned e) \<and> regions_disjoint es \<and>
     4096 dvd unat hhdm \<and> highest_usable es \<le> unat hhdm \<and> unat hhdm + highest_usable es \<le> 18446744073709551616 \<and>
     highest_usable es div 4096 \<le> 8 * bitmap_bytes (highest_usable es) \<and>
     (\<exists>e \<in> set es. mm_type e = Usable \<and> bitmap_bytes (highest_usable es) \<le> unat (mm_length e) \<and> 0 < unat (mm_length e))"

text \<open>The memory map that is left: the bitmap is taken from the first usable entry that can hold it.\<close>

primrec take_bitmap :: "nat \<Rightarrow> memmap_entry list \<Rightarrow> memmap_entry list" where
  "take_bitmap n [] = []"
| "take_bitmap n (e # es) =
     (if mm_type e = Usable \<and> n \<le> unat (mm_length e)
      then e\<lparr>mm_length := mm_length e - of_nat n, mm_base := mm_base e + of_nat n\<rparr> # es else e # take_bitmap n es)"

lemma take_bitmap_split:
  assumes "\<exists>e \<in> set es. mm_type e = Usable \<and> n \<le> unat (mm_length e)"
  shows "\<exists>pre e post. es = pre @ e # post \<and> mm_type e = Usable \<and> n \<le> unat (mm_length e) \<and>
    (\<forall>x \<in> set pre. \<not> (mm_type x = Usable \<and> n \<le> unat (mm_length x))) \<and>
    take_bitmap n es = pre @ e\<lparr>mm_length := mm_length e - of_nat n, mm_base := mm_base e + of_nat n\<rparr> # post"
  using assms
proof (induction es)
  case (Cons x es)
  show ?case
  proof (cases "mm_type x = Usable \<and> n \<le> unat (mm_length x)")
    case True
    then show ?thesis by (intro exI [of _ "[]"] exI [of _ x] exI [of _ es]) simp
  next
    case False
    then have "\<exists>e \<in> set es. mm_type e = Usable \<and> n \<le> unat (mm_length e)" using Cons.prems by auto
    from Cons.IH [OF this] obtain pre e post where *: "es = pre @ e # post" "mm_type e = Usable" "n \<le> unat (mm_length e)"
      "\<forall>x \<in> set pre. \<not> (mm_type x = Usable \<and> n \<le> unat (mm_length x))"
      "take_bitmap n es = pre @ e\<lparr>mm_length := mm_length e - of_nat n, mm_base := mm_base e + of_nat n\<rparr> # post" by blast
    then show ?thesis using False by (intro exI [of _ "x # pre"] exI [of _ e] exI [of _ post]) auto
  qed
qed simp

lemma regions_disjoint_append:
  "regions_disjoint (xs @ ys) \<longleftrightarrow> regions_disjoint xs \<and> regions_disjoint ys \<and> (\<Union>e \<in> set xs. region e) \<inter> (\<Union>e \<in> set ys. region e) = {}"
  by (induction xs) auto

text \<open>The entry without its first \<open>n\<close> bytes.\<close>

lemma shortened:
  assumes "entry_aligned e" "mm_type e = Usable" "n \<le> unat (mm_length e)" "4096 dvd n"
    and e'_def: "e' = e\<lparr>mm_length := mm_length e - of_nat n, mm_base := mm_base e + of_nat n\<rparr>"
  shows "entry_aligned e'" "region e' = region e - {unat (mm_base e) div 4096 ..< unat (mm_base e) div 4096 + n div 4096}"
    "{unat (mm_base e) div 4096 ..< unat (mm_base e) div 4096 + n div 4096} \<subseteq> region e"
    "unat (mm_base e') div 4096 + unat (mm_length e') div 4096 = unat (mm_base e) div 4096 + unat (mm_length e) div 4096" "mm_type e' = Usable"
proof -
  have a: "4096 dvd unat (mm_base e)" "4096 dvd unat (mm_length e)" "4096 \<le> unat (mm_base e)"
    "unat (mm_base e) + unat (mm_length e) < 18446744073709551616" using assms(1,2) by (simp_all add: entry_aligned_def)
  have n: "unat (of_nat n :: u64) = n" using assms(3) a(4) by (intro unat_of_nat64) linarith
  have b: "unat (mm_base e') = unat (mm_base e) + n" unfolding e'_def using unat_add64 [of "mm_base e" "of_nat n"] n a(4) assms(3) by simp
  have l: "unat (mm_length e') = unat (mm_length e) - n"
    unfolding e'_def using unat_sub64 [of "mm_length e" "of_nat n"] n assms(3) by simp
  show "mm_type e' = Usable" using assms(2) by (simp add: e'_def)
  then show "entry_aligned e'" using a assms(3,4) by (simp add: entry_aligned_def b l dvd_diff_nat)
  have d: "unat (mm_base e') div 4096 = unat (mm_base e) div 4096 + n div 4096" unfolding b using a(1) by (rule div_plus_div_distrib_dvd_left)
  obtain x y where "unat (mm_length e) = 4096 * x" "n = 4096 * y" using a(2) assms(4) by (elim dvdE) auto
  then have m: "unat (mm_length e') div 4096 = unat (mm_length e) div 4096 - n div 4096" "n div 4096 \<le> unat (mm_length e) div 4096"
    using assms(3) by (simp_all add: l diff_mult_distrib2 [symmetric])
  show "unat (mm_base e') div 4096 + unat (mm_length e') div 4096 = unat (mm_base e) div 4096 + unat (mm_length e) div 4096"
    using d m by simp
  show "region e' = region e - {unat (mm_base e) div 4096 ..< unat (mm_base e) div 4096 + n div 4096}"
    "{unat (mm_base e) div 4096 ..< unat (mm_base e) div 4096 + n div 4096} \<subseteq> region e"
    using \<open>mm_type e' = Usable\<close> assms(2) d m by (auto simp: region_def)
qed

lemma take_bitmap_facts:
  assumes ok: "\<forall>e \<in> set es. entry_aligned e" "regions_disjoint es" "\<forall>e \<in> set es. within k e" and es: "es = pre @ e # post"
    and e: "mm_type e = Usable" "n \<le> unat (mm_length e)" "4096 dvd n"
    and es'_def: "es' = pre @ e\<lparr>mm_length := mm_length e - of_nat n, mm_base := mm_base e + of_nat n\<rparr> # post"
    and B_def: "B = {unat (mm_base e) div 4096 ..< unat (mm_base e) div 4096 + n div 4096}"
  shows "\<forall>e \<in> set es'. entry_aligned e" "regions_disjoint es'" "\<forall>e \<in> set es'. within k e"
    "(\<Union>e \<in> set es'. region e) = (\<Union>e \<in> set es. region e) - B" "B \<subseteq> (\<Union>e \<in> set es. region e)"
proof -
  let ?e' = "e\<lparr>mm_length := mm_length e - of_nat n, mm_base := mm_base e + of_nat n\<rparr>"
  have "entry_aligned e" using ok(1) es by simp
  note s = shortened [OF this e refl]
  show "\<forall>e \<in> set es'. entry_aligned e" using ok(1) s(1) by (simp add: es es'_def)
  show "\<forall>e \<in> set es'. within k e" using ok(3) s(4,5) e(1) by (simp add: es es'_def within_def)
  have r: "region ?e' = region e - B" "B \<subseteq> region e" using s(2,3) by (simp_all add: B_def)
  show "B \<subseteq> (\<Union>e \<in> set es. region e)" using r(2) by (auto simp: es)
  have dj: "region e \<inter> (\<Union>x \<in> set pre. region x) = {}" "region e \<inter> (\<Union>x \<in> set post. region x) = {}"
    using ok(2) by (auto simp: es regions_disjoint_append)
  show "(\<Union>e \<in> set es'. region e) = (\<Union>e \<in> set es. region e) - B" using r dj by (auto simp: es es'_def)
  show "regions_disjoint es'" using ok(2) r(1) by (auto simp: es es'_def regions_disjoint_append)
qed

text \<open>The state that \<^verbatim>\<open>physical_initialize\<close> leaves when the bitmap is at the start of entry \<open>e\<close>.\<close>

definition initial_stats :: "memmap_entry list \<Rightarrow> PhysicalMemoryStats" where
  "initial_stats es = (let s = fold stats_entry es (phys_stats (phys_boot (\<lambda>_. 0)))
     in if lowest_usable_addr s = 0 then s\<lparr>lowest_usable_addr := 0x1000\<rparr> else s)"

definition initial_phys :: "u64 \<Rightarrow> memmap_entry list \<Rightarrow> memmap_entry \<Rightarrow> mem \<Rightarrow> phys" where
  "initial_phys hhdm es e m =
     (let n = bitmap_bytes (highest_usable es);
          st = freed (take_bitmap n es) ((phys_boot m)
            \<lparr>phys_stats := (initial_stats es)\<lparr>used_pages := of_nat (n div 4096)\<rparr>,
              phys_bitmap := \<lparr>buffer = hhdm + mm_base e, bsize = of_nat (8 * n)\<rparr>,
              pmem := fill_bytes m (hhdm + mm_base e) 0xFF (8 * n)\<rparr>)
      in st\<lparr>phys_stats := (phys_stats st)\<lparr>free_pages := usable_pages (phys_stats st) - used_pages (phys_stats st)\<rparr>\<rparr>)"

lemma initial_stats_facts:
  assumes "\<forall>e \<in> set es. entry_aligned e"
  shows "unat (highest_usable_addr (initial_stats es)) = highest_usable es" "used_pages (initial_stats es) = 0"
    "usable_pages (initial_stats es) = of_nat (sum_list (map (\<lambda>e. card (region e)) es))"
  using stats_highest [OF assms] stats_usable stats_rest
  by (simp_all add: initial_stats_def Let_def phys_boot_def highest_usable_def)

lemma memmap_okD:
  assumes "memmap_ok hhdm es"
  shows "\<forall>e \<in> set es. entry_aligned e" "regions_disjoint es" "4096 dvd unat hhdm" "highest_usable es \<le> unat hhdm"
    "unat hhdm + highest_usable es \<le> 18446744073709551616" "highest_usable es div 4096 \<le> 8 * bitmap_bytes (highest_usable es)"
    "\<exists>e \<in> set es. mm_type e = Usable \<and> bitmap_bytes (highest_usable es) \<le> unat (mm_length e) \<and> 0 < unat (mm_length e)"
  using assms by (simp_all add: memmap_ok_def)

lemma within_highest: "\<forall>e \<in> set es. entry_aligned e \<Longrightarrow> \<forall>e \<in> set es. within (highest_usable es div 4096) e"
proof
  fix e assume a: "\<forall>e \<in> set es. entry_aligned e" "e \<in> set es"
  show "within (highest_usable es div 4096) e"
    unfolding within_def
  proof
    assume u: "mm_type e = Usable"
    then have "(unat (mm_base e) + unat (mm_length e)) div 4096 \<le> highest_usable es div 4096"
      using highest_usable_ge [OF a(2)] by (intro div_le_mono)
    then show "unat (mm_base e) div 4096 + unat (mm_length e) div 4096 \<le> highest_usable es div 4096"
      using a u by (simp add: entry_aligned_def div_plus_div_distrib_dvd_left)
  qed
qed

lemma bitmap_words:
  assumes "memmap_ok hhdm es"
  shows "8 * bitmap_bytes (highest_usable es) < 18446744073709551609" "0 < bitmap_bytes (highest_usable es)" "4096 dvd bitmap_bytes (highest_usable es)"
    "align_up (highest_usable_addr (initial_stats es) div PAGE_SIZE div 8) PAGE_SIZE = of_nat (bitmap_bytes (highest_usable es))"
    "div_roundup (of_nat (bitmap_bytes (highest_usable es))) PAGE_SIZE = of_nat (bitmap_bytes (highest_usable es) div 4096)"
proof -
  note ok = memmap_okD [OF assms] and st = initial_stats_facts [OF memmap_okD(1) [OF assms]]
  let ?n = "bitmap_bytes (highest_usable es)"
  have "unat (highest_usable_addr (initial_stats es)) < 9223372036854775808 + 1" unfolding st(1) using ok(4,5) by linarith
  note w = bitmap_bytes_word [OF this, unfolded st(1)]
  show b: "8 * ?n < 18446744073709551609" using w(2) by linarith
  show "4096 dvd ?n" by (simp add: bitmap_bytes_def)
  obtain e where e: "e \<in> set es" "mm_type e = Usable" "0 < unat (mm_length e)" using ok(7) by blast
  then have "4096 \<le> highest_usable es" using highest_usable_ge [OF e(1,2)] ok(1) by (fastforce simp: entry_aligned_def)
  then have "0 < highest_usable es div 4096" by (simp add: div_greater_zero_iff)
  then show "0 < ?n" using ok(6) by linarith
  have un: "unat (of_nat ?n :: u64) = ?n" using b by (intro unat_of_nat64) linarith
  then show "align_up (highest_usable_addr (initial_stats es) div PAGE_SIZE div 8) PAGE_SIZE = of_nat ?n"
    using w(1) by (simp add: word_unat_eq_iff)
  have "unat (align_down (of_nat ?n) PAGE_SIZE) = ?n div 4096 * 4096"
    using align_down_pow2(2) [of 12 "of_nat ?n"] un by (simp add: PAGE_SIZE_def)
  then have "unat (div_roundup (of_nat ?n) PAGE_SIZE) = ?n div 4096" by (simp add: div_roundup_def unat_div_distrib PAGE_SIZE_def)
  moreover have "unat (of_nat (?n div 4096) :: u64) = ?n div 4096" using b by (intro unat_of_nat64) linarith
  ultimately show "div_roundup (of_nat ?n) PAGE_SIZE = of_nat (?n div 4096)" by (simp add: word_unat_eq_iff)
qed

lemma physical_initialize_state:
  assumes "memmap_ok hhdm es"
  shows "\<exists>pre e post. es = pre @ e # post \<and> mm_type e = Usable \<and> bitmap_bytes (highest_usable es) \<le> unat (mm_length e) \<and>
    take_bitmap (bitmap_bytes (highest_usable es)) es = pre @ e\<lparr>mm_length := mm_length e - of_nat (bitmap_bytes (highest_usable es)),
      mm_base := mm_base e + of_nat (bitmap_bytes (highest_usable es))\<rparr> # post \<and>
    physical_initialize hhdm es (phys_boot m) = Inr (take_bitmap (bitmap_bytes (highest_usable es)) es, initial_phys hhdm es e m)"
proof -
  let ?n = "bitmap_bytes (highest_usable es)"
  note ok = memmap_okD [OF assms] and w = bitmap_words [OF assms]
  obtain pre e post where es: "es = pre @ e # post" "mm_type e = Usable" "?n \<le> unat (mm_length e)"
    "\<forall>x \<in> set pre. \<not> (mm_type x = Usable \<and> ?n \<le> unat (mm_length x))"
    "take_bitmap ?n es = pre @ e\<lparr>mm_length := mm_length e - of_nat ?n, mm_base := mm_base e + of_nat ?n\<rparr> # post"
    using take_bitmap_split [of es ?n] ok(7) by blast
  have e: "entry_aligned e" "unat (mm_base e) + unat (mm_length e) \<le> highest_usable es"
    using ok(1) highest_usable_ge [of e es] es(1,2) by simp_all
  have un: "unat (of_nat ?n :: u64) = ?n" "unat (of_nat (8 * ?n) :: u64) = 8 * ?n" using w(1) by (intro unat_of_nat64, linarith)+
  have b: "unat (mm_base e) < unat hhdm" "unat (mm_base e) + unat hhdm < 18446744073709551616"
    using e ok(4,5) w(2) es(3) by linarith+
  have hh: "to_higher_half hhdm (mm_base e) = hhdm + mm_base e"
    using higher_half_inverse(2) [of "mm_base e" hhdm] b by (simp add: word_less_nat_alt add.commute)
  have ub: "unat (hhdm + mm_base e) = unat hhdm + unat (mm_base e)" using b by (intro unat_add64) simp
  have init: "bitmap_initialize (to_higher_half hhdm (mm_base e)) (of_nat (8 * ?n)) = Some \<lparr>buffer = hhdm + mm_base e, bsize = of_nat (8 * ?n)\<rparr>"
    using ub e(1) es(2) un(2) w(2) by (auto simp: bitmap_initialize_def hh entry_aligned_def word_unat_eq_iff)
  have "8 dvd unat (hhdm + mm_base e)"
    unfolding ub using ok(3) e(1) es(2) by (auto simp: entry_aligned_def intro!: dvd_add intro: dvd_trans [of 8 4096])
  then have al: "(8 - unat (hhdm + mm_base e) mod 8) mod 8 = 0" by simp
  have ms: "fst (memset m (hhdm + mm_base e) 0xFF (of_nat (8 * ?n))) = fill_bytes m (hhdm + mm_base e) 0xFF (8 * ?n)"
    using memset_fill [of "of_nat (8 * ?n)" m "hhdm + mm_base e" "0xFF"] w(1) un(2) al by simp
  have small: "\<forall>x \<in> set pre. \<not> (mm_type x = Usable \<and> mm_length x \<ge> of_nat ?n)" "mm_length e \<ge> of_nat ?n"
    using es(3,4) by (simp_all add: word_le_nat_alt un)
  have size8: "of_nat ?n * 8 = (of_nat (8 * ?n) :: u64)" by simp
  note place = place_bitmap_found [OF small(1) es(2) small(2) init, where post = post]
  have stats: "phys_stats (phys_boot m) = phys_stats (phys_boot (\<lambda>_. 0))" by (simp add: phys_boot_def)
  let ?st = "(phys_boot m)\<lparr>phys_stats := (initial_stats es)\<lparr>used_pages := of_nat (?n div 4096)\<rparr>,
    phys_bitmap := \<lparr>buffer = hhdm + mm_base e, bsize = of_nat (8 * ?n)\<rparr>, pmem := fill_bytes m (hhdm + mm_base e) 0xFF (8 * ?n)\<rparr>"
  have lim: "\<forall>e \<in> set (take_bitmap ?n es). within (unat (bsize (phys_bitmap ?st))) e" "\<forall>e \<in> set (take_bitmap ?n es). entry_aligned e"
    using take_bitmap_facts(1,3) [OF ok(1,2) within_highest [OF ok(1)] es(1-3) w(3) es(5) refl] ok(6) un(2)
    by (auto simp: within_def)
  have p: "place_bitmap hhdm (of_nat ?n) (of_nat (8 * ?n)) es ((phys_boot m)\<lparr>phys_stats := initial_stats es\<rparr>) =
      Inr (take_bitmap ?n es, ?st)"
    unfolding es(5) using place [of "(phys_boot m)\<lparr>phys_stats := initial_stats es\<rparr>"] initial_stats_facts(2) [OF ok(1)] ms w(5)
    by (simp add: es(1) phys_boot_def)
  have "physical_initialize hhdm es (phys_boot m) = Inr (take_bitmap ?n es, initial_phys hhdm es e m)"
    unfolding physical_initialize_def Let_def stats initial_stats_def [unfolded Let_def, symmetric] w(4) size8 p
    using free_entries_freed [OF lim(2,1)] by (simp add: initial_phys_def Let_def)
  then show ?thesis using es by blast
qed

lemma initial_phys_simps [simp]:
  "phys_bitmap (initial_phys hhdm es e m) = \<lparr>buffer = hhdm + mm_base e, bsize = of_nat (8 * bitmap_bytes (highest_usable es))\<rparr>"
  "phys_lock (initial_phys hhdm es e m) = TicketLock_init" "bitmap_last_index (initial_phys hhdm es e m) = 0"
  "highest_usable_addr (phys_stats (initial_phys hhdm es e m)) = highest_usable_addr (initial_stats es)"
  "usable_pages (phys_stats (initial_phys hhdm es e m)) = usable_pages (initial_stats es)"
  "used_pages (phys_stats (initial_phys hhdm es e m)) = of_nat (bitmap_bytes (highest_usable es) div 4096)"
  "free_pages (phys_stats (initial_phys hhdm es e m)) =
     usable_pages (initial_stats es) - of_nat (bitmap_bytes (highest_usable es) div 4096)"
  by (simp_all add: initial_phys_def Let_def phys_boot_def)

lemma initial_used:
  assumes "memmap_ok hhdm es" "\<forall>e \<in> set (take_bitmap (bitmap_bytes (highest_usable es)) es). within (highest_usable es div 4096) e"
    "p < 8 * bitmap_bytes (highest_usable es)"
  shows "used (initial_phys hhdm es e m) p \<longleftrightarrow> p \<notin> (\<Union>e \<in> set (take_bitmap (bitmap_bytes (highest_usable es)) es). region e)"
proof -
  let ?n = "bitmap_bytes (highest_usable es)"
  let ?st = "(phys_boot m)\<lparr>phys_stats := (initial_stats es)\<lparr>used_pages := of_nat (?n div 4096)\<rparr>,
    phys_bitmap := \<lparr>buffer = hhdm + mm_base e, bsize = of_nat (8 * ?n)\<rparr>, pmem := fill_bytes m (hhdm + mm_base e) 0xFF (8 * ?n)\<rparr>"
  have b: "8 * ?n < 18446744073709551616" using bitmap_words(1) [OF assms(1)] by linarith
  have "highest_usable es div 4096 \<le> 18446744073709551616" using memmap_okD(4,5) [OF assms(1)] by linarith
  moreover have "p < 18446744073709551616" using assms(3) b by linarith
  moreover have "used ?st p" using used_filled [OF assms(3) b] by (simp add: used_def)
  ultimately have "used (freed (take_bitmap ?n es) ?st) p \<longleftrightarrow> p \<notin> (\<Union>e \<in> set (take_bitmap ?n es). region e)"
    using used_freed [OF assms(2)] by blast
  moreover have "used (initial_phys hhdm es e m) p = used (freed (take_bitmap ?n es) ?st) p"
    by (simp add: initial_phys_def Let_def used_def)
  ultimately show ?thesis by simp
qed

text \<open>The pages in which the bitmap lies.\<close>

lemma initial_bitmap_page:
  assumes "memmap_ok hhdm es" "e \<in> set es" "mm_type e = Usable" "p < highest_usable es div 4096"
    "bitmap_page hhdm (initial_phys hhdm es e m) p" "bitmap_bytes (highest_usable es) \<le> unat (mm_length e)"
  shows "p \<in> {unat (mm_base e) div 4096 ..< unat (mm_base e) div 4096 + bitmap_bytes (highest_usable es) div 4096}"
proof -
  let ?n = "bitmap_bytes (highest_usable es)" and ?a = "hhdm + mm_base e"
  note ok = memmap_okD [OF assms(1)] and w = bitmap_words [OF assms(1)]
  have e: "entry_aligned e" "unat (mm_base e) + unat (mm_length e) \<le> highest_usable es"
    using ok(1) highest_usable_ge [of e es] assms(2,3) by simp_all
  have bn: "unat (mm_base e) + ?n \<le> highest_usable es" using e(2) assms(6) by linarith
  have ub: "unat ?a = unat hhdm + unat (mm_base e)" using bn ok(5) w(2) by (intro unat_add64) linarith
  have un: "unat (of_nat (8 * ?n) :: u64) = 8 * ?n" using w(1) by (intro unat_of_nat64) linarith
  have p: "4096 * p + 4096 \<le> highest_usable es" using assms(4) by linarith
  have "unat (of_nat (4096 * p) :: u64) = 4096 * p" using p ok(5) by (intro unat_of_nat64) linarith
  then have up: "unat (page_addr hhdm p) = unat hhdm + 4096 * p"
    unfolding page_addr_def using p ok(5) unat_add64 [of hhdm "of_nat (4096 * p)"] by linarith
  obtain x where x: "unat (x - ?a) < ?n" "unat (x - page_addr hhdm p) < 4096"
    using assms(5) un by (auto simp: bitmap_page_def in_bitmap_def)
  have "unat x = unat (x - ?a) + (unat hhdm + unat (mm_base e))"
    using x(1) bn ok(5) ub unat_add64 [of "x - ?a" ?a] by simp
  moreover have "unat x = unat (x - page_addr hhdm p) + (unat hhdm + 4096 * p)"
    using x(2) p ok(5) up unat_add64 [of "x - page_addr hhdm p" "page_addr hhdm p"] by simp
  ultimately have eq: "unat (x - ?a) + unat (mm_base e) = unat (x - page_addr hhdm p) + 4096 * p" by linarith
  have "unat (mm_base e) = 4096 * (unat (mm_base e) div 4096)" "?n = 4096 * (?n div 4096)"
    using e(1) assms(3) w(3) by (simp_all add: entry_aligned_def)
  then show ?thesis using eq x unfolding atLeastLessThan_iff by linarith
qed

lemma initialize_phys_inv:
  assumes "memmap_ok hhdm es"
  shows "\<exists>e \<in> set es. mm_type e = Usable \<and> bitmap_bytes (highest_usable es) \<le> unat (mm_length e) \<and>
    physical_initialize hhdm es (phys_boot m) = Inr (take_bitmap (bitmap_bytes (highest_usable es)) es, initial_phys hhdm es e m) \<and>
    phys_inv hhdm (initial_phys hhdm es e m) \<and> page_limit (initial_phys hhdm es e m) = highest_usable es div 4096 \<and>
    taken (initial_phys hhdm es e m) =
      {..< highest_usable es div 4096} - (\<Union>e \<in> set (take_bitmap (bitmap_bytes (highest_usable es)) es). region e)"
proof -
  let ?n = "bitmap_bytes (highest_usable es)" and ?es = "take_bitmap (bitmap_bytes (highest_usable es)) es"
  note ok = memmap_okD [OF assms] and w = bitmap_words [OF assms]
  obtain pre e post where es: "es = pre @ e # post" "mm_type e = Usable" "?n \<le> unat (mm_length e)"
    "?es = pre @ e\<lparr>mm_length := mm_length e - of_nat ?n, mm_base := mm_base e + of_nat ?n\<rparr> # post"
    and run: "physical_initialize hhdm es (phys_boot m) = Inr (?es, initial_phys hhdm es e m)"
    using physical_initialize_state [OF assms, of m] by blast
  let ?st = "initial_phys hhdm es e m" and ?B = "{unat (mm_base e) div 4096 ..< unat (mm_base e) div 4096 + ?n div 4096}"
  have mem: "e \<in> set es" using es(1) by simp
  note st = initial_stats_facts [OF ok(1)]
  note tb = take_bitmap_facts [OF ok(1,2) within_highest [OF ok(1)] es(1-3) w(3) es(4) refl]
  have pl: "page_limit ?st = highest_usable es div 4096" using st(1) by (simp add: page_limit_def unat_div_distrib PAGE_SIZE_def)
  have sub: "(\<Union>e \<in> set ?es. region e) \<subseteq> {..< highest_usable es div 4096}"
    using tb(3) by (auto simp: region_def within_def split: if_splits)
  have us: "used ?st p \<longleftrightarrow> p \<notin> (\<Union>e \<in> set ?es. region e)" if "p < highest_usable es div 4096" for p
    using initial_used [OF assms tb(3)] ok(6) that by simp
  have un: "unat (of_nat (8 * ?n) :: u64) = 8 * ?n" using w(1) by (intro unat_of_nat64) linarith
  have "free_count ?st = card (\<Union>e \<in> set ?es. region e)"
    unfolding free_count_def pl using us sub by (intro arg_cong [where f = card]) blast
  also have "\<dots> = card (\<Union>e \<in> set es. region e) - card ?B" unfolding tb(4) using tb(5) by (intro card_Diff_subset) simp_all
  finally have fc: "free_count ?st + ?n div 4096 = sum_list (map (\<lambda>e. card (region e)) es)"
    using card_mono [OF _ tb(5)] card_regions [OF ok(2)] by simp
  have "phys_inv hhdm ?st"
  proof (rule phys_invI)
    have "4096 * (highest_usable es div 4096) \<le> highest_usable es" by simp
    then have "4096 * (highest_usable es div 4096) \<le> unat hhdm" "unat hhdm + 4096 * (highest_usable es div 4096) \<le> 18446744073709551616"
      using ok(4,5) by linarith+
    then show "phys_layout hhdm ?st" using ok(3,6) pl un by (simp add: phys_layout_def)
    show "used ?st 0"
    proof (cases "0 < highest_usable es div 4096")
      case True
      have "0 \<notin> region x" if "x \<in> set ?es" for x using tb(1) that by (auto simp: region_def entry_aligned_def split: if_splits)
      then show ?thesis using us [OF True] by blast
    next
      case False
      have "unat (mm_base e) + unat (mm_length e) \<le> highest_usable es" "4096 \<le> unat (mm_base e)"
        using highest_usable_ge [OF mem es(2)] ok(1) mem es(2) by (auto simp: entry_aligned_def)
      then show ?thesis using False by (simp add: div_greater_zero_iff)
    qed
    show "used ?st p" if "p < page_limit ?st" "bitmap_page hhdm ?st p" for p
      using us [of p] that initial_bitmap_page [OF assms mem es(2) _ that(2) es(3)] tb(4) by (simp add: pl)
    have "of_nat (free_count ?st + ?n div 4096) = usable_pages (initial_stats es)" using fc st(3) by simp
    then show "free_pages (phys_stats ?st) = of_nat (free_count ?st)" by (simp add: algebra_simps)
  qed (simp_all add: pl is_locked_def TicketLock_init_def)
  moreover have "taken ?st = {..< highest_usable es div 4096} - (\<Union>e \<in> set ?es. region e)"
    using us by (auto simp: taken_def pl)
  ultimately show ?thesis using mem es(2,3) run pl by blast
qed

text \<open>
  C7: \<^verbatim>\<open>physical_initialize\<close> establishes the invariant of the physical allocator.  For a memory map that
  is well formed it returns, with the bitmap taken from an entry of the map; the pages in use are
  exactly those outside the usable memory that is left, so that page 0 and the bitmap are never
  handed out, and the statistics count the free pages.
\<close>

theorem physical_initialize_establishes:
  assumes "memmap_ok hhdm memmaps"
  shows "\<exists>st. physical_initialize hhdm memmaps (phys_boot m) = Inr (take_bitmap (bitmap_bytes (highest_usable memmaps)) memmaps, st) \<and>
    phys_inv hhdm st \<and> page_limit st = highest_usable memmaps div 4096 \<and>
    taken st = {..< page_limit st} - (\<Union>e \<in> set (take_bitmap (bitmap_bytes (highest_usable memmaps)) memmaps). region e)"
  using initialize_phys_inv [OF assms, of m] by (elim bexE conjE) (intro exI conjI, assumption+, simp)

text \<open>A machine with 16 megabytes of usable memory behind the first megabyte.\<close>

definition memmap_small :: "memmap_entry list" where
  "memmap_small = [\<lparr>mm_base = 0, mm_length = 0x1000, mm_type = Other_memory\<rparr>, \<lparr>mm_base = 0x1000, mm_length = 0x9E000, mm_type = Usable\<rparr>,
     \<lparr>mm_base = 0x100000, mm_length = 0xF00000, mm_type = Usable\<rparr>]"

lemma memmap_small_facts: "highest_usable memmap_small = 0x1000000" "bitmap_bytes 0x1000000 = 4096" "memmap_ok hhdm_example memmap_small"
proof -
  show h: "highest_usable memmap_small = 0x1000000" by (simp add: highest_usable_def memmap_small_def entry_top_def)
  show n: "bitmap_bytes 0x1000000 = 4096" by (simp add: bitmap_bytes_def)
  have u: "unat hhdm_example = 4096 * 4503565267632128" by (simp add: hhdm_example_def)
  have d: "4096 dvd (0xFFFF800000000000 :: nat)" by (rule dvdI [of _ _ 4503565267632128]) simp
  show "memmap_ok hhdm_example memmap_small"
    unfolding memmap_ok_def h n u
    by (intro conjI dvd_triv_left) (auto simp: memmap_small_def entry_aligned_def region_def)
qed

theorem physical_initialize_establishes_witness:
  "\<exists>st. physical_initialize hhdm_example memmap_small (phys_boot (\<lambda>_. 0)) = Inr (take_bitmap 4096 memmap_small, st) \<and>
     phys_inv hhdm_example st \<and> page_limit st = 4096"
  using physical_initialize_establishes [OF memmap_small_facts(3), of "\<lambda>_. 0"] memmap_small_facts(1,2) by auto

end
