(* ===== verification/Virtual.thy ===== *)
theory Virtual
  imports Page_Maps Physical_Init
begin

text \<open>
  The virtual memory manager, \<^verbatim>\<open>kernel/memory/virtual.cpp\<close>, on the page map \<^verbatim>\<open>base_pagemap\<close>.  The memory map,
  the size of the kernel file and its addresses are what the boot loader reports.
\<close>

subsection \<open>Definitions\<close>

definition FOUR_GiB :: u64 where "FOUR_GiB = PAGE_SIZE_1GiB * 4"

definition assert_mapped :: "int vmres \<Rightarrow> int vmres" where
  "assert_mapped r = vbind r (\<lambda>x st. if x = 0 then Inr (SYSTEM_OK, st) else Inl Page_assert)"

text \<open>The loop over the memory map, and the pages of one entry above 4 GiB.\<close>

definition map_entry :: "boot \<Rightarrow> memmap_entry \<Rightarrow> vm \<Rightarrow> unit vmres" where
  "map_entry b entry st =
     (let base = align_down (mm_base entry) PAGE_SIZE;
          top = align_up (mm_base entry + mm_length entry) PAGE_SIZE
      in if top < FOUR_GiB then Inr ((), st)
         else let cache = (if mm_type entry = Framebuffer then MAP_WRITE_COMBINING else MAP_WRITE_BACK);
                  sz = top - base
              in vbind (for_loop (\<lambda>j st.
                          if j < FOUR_GiB then Inr (SYSTEM_OK, st)
                          else assert_mapped (map_page b (to_higher_half (hhdm b) j) j (MAP_READ OR MAP_WRITE OR cache) st))
                        base (base + sz) PAGE_SIZE st)
                   (\<lambda>_ st. Inr ((), st)))"

primrec map_memmap :: "boot \<Rightarrow> memmap_entry list \<Rightarrow> vm \<Rightarrow> unit vmres" where
  "map_memmap b [] st = Inr ((), st)"
| "map_memmap b (entry # memmaps) st = vbind (map_entry b entry st) (\<lambda>_ st. map_memmap b memmaps st)"

definition virtual_initialize :: "boot \<Rightarrow> bool \<Rightarrow> memmap_entry list \<Rightarrow> u64 \<Rightarrow> u64 \<Rightarrow> u64 \<Rightarrow> vm \<Rightarrow> unit vmres" where
  "virtual_initialize b huge memmaps kernel_size virtual_base physical_base st =
     vbind (pagemap_initialize b huge (top_lvl (this st)) True st) (\<lambda>_ st.
     vbind (for_loop (\<lambda>i st. assert_mapped (map_page b (to_higher_half (hhdm b) i) i
                                (MAP_READ OR MAP_WRITE OR MAP_WRITE_BACK) st))
              0 FOUR_GiB PAGE_SIZE st) (\<lambda>_ st.
     vbind (map_memmap b memmaps st) (\<lambda>_ st.
     vbind (for_loop (\<lambda>i st. assert_mapped (map_page b (virtual_base + i) (physical_base + i)
                                (MAP_WRITE OR MAP_READ OR MAP_EXEC OR MAP_WRITE_BACK) st))
              0 kernel_size PAGE_SIZE st) (\<lambda>_ st.
     Inr ((), pagemap_load b st)))))"

text \<open>
  \<^verbatim>\<open>virtual_allocate\<close> between two addresses.  The search for a valid page leaves the inner loop with the
  address it stopped at.
\<close>

definition FOUND_VALID :: int where "FOUND_VALID = 1"

definition scan_pages :: "boot \<Rightarrow> u64 \<Rightarrow> u64 \<Rightarrow> vm \<Rightarrow> u64 vmres" where
  "scan_pages b start sz st =
     vbind (for_loop (\<lambda>address st.
              vbind (virtual_to_entry b address False PAGE_SIZE True st) (\<lambda>e st.
                if e = 0 then Inl Null_entry
                else Inr (if is_valid (entry_at st e) then FOUND_VALID else SYSTEM_OK, st)))
            start (start + sz) PAGE_SIZE st)
       (\<lambda>(_, address) st. Inr (address, st))"

definition map_fresh :: "boot \<Rightarrow> u64 \<Rightarrow> u64 \<Rightarrow> u64 \<Rightarrow> vm \<Rightarrow> int vmres" where
  "map_fresh b start flags i st =
     vbind (vm_allocate b st) (\<lambda>physical_address st. map_page b (start + i) (physical_address + i) flags st)"

function virtual_allocate_from :: "boot \<Rightarrow> u64 \<Rightarrow> u64 \<Rightarrow> u64 \<Rightarrow> u64 \<Rightarrow> vm \<Rightarrow> u64 vmres" where
  "virtual_allocate_from b start e sz flags st =
     vbind (scan_pages b start sz st) (\<lambda>address st.
       if address \<ge> start + sz
       then vbind (for_loop (map_fresh b start flags) 0 sz PAGE_SIZE st) (\<lambda>(r, _) st.
              Inr (if r = SYSTEM_OK then start else 0, pagemap_load b st))
       else if start + PAGE_SIZE \<le> start then Inl Counter_wraps
       else if start + PAGE_SIZE < e then virtual_allocate_from b (start + PAGE_SIZE) e sz flags st
       else Inr (0, pagemap_load b st))"
  by pat_completeness auto
termination
proof (relation "measure (\<lambda>(b, start, e, sz, flags, st). 18446744073709551616 - unat start)")
  fix b start e sz flags and st st' :: vm
  assume "\<not> start + PAGE_SIZE \<le> start"
  then have "unat start < unat (start + PAGE_SIZE)" "unat (start + PAGE_SIZE) < 18446744073709551616"
    using unat_lt64 by (auto simp: word_le_nat_alt)
  then show "((b, start + PAGE_SIZE, e, sz, flags, st'), b, start, e, sz, flags, st)
      \<in> measure (\<lambda>(b, start, e, sz, flags, st). 18446744073709551616 - unat start)" by simp
qed simp

declare virtual_allocate_from.simps [simp del]

definition virtual_allocate_range :: "boot \<Rightarrow> u64 \<Rightarrow> u64 \<Rightarrow> u64 \<Rightarrow> u64 \<Rightarrow> vm \<Rightarrow> u64 vmres" where
  "virtual_allocate_range b base limit count flags st =
     virtual_allocate_from b base (limit - count * PAGE_SIZE) (count * PAGE_SIZE) flags st"

definition virtual_allocate :: "boot \<Rightarrow> u64 \<Rightarrow> u64 \<Rightarrow> u64 \<Rightarrow> vm \<Rightarrow> u64 vmres" where
  "virtual_allocate b kernel_virtual_base count flags st =
     (let virtual_base = to_higher_half (hhdm b) (highest_physical_addr (phys_stats (vphys st)))
      in virtual_allocate_range b virtual_base kernel_virtual_base count flags st)"

primrec virtual_free_loop :: "boot \<Rightarrow> u64 \<Rightarrow> nat \<Rightarrow> vm \<Rightarrow> unit vmres" where
  "virtual_free_loop b address 0 st = Inr ((), st)"
| "virtual_free_loop b address (Suc n) st =
     vbind (virtual_to_physical b address 0 st) (\<lambda>physical_address st.
       if physical_address = - 1 then Inr ((), st)
       else vbind (unmap_page b address 0 st) (\<lambda>_ st.
            case physical_free (vphys st) physical_address 1 of
              Inl x \<Rightarrow> Inl (Phys_error x)
            | Inr p \<Rightarrow> virtual_free_loop b address n (pagemap_load b (st\<lparr>vphys := p\<rparr>))))"

definition virtual_free :: "boot \<Rightarrow> u64 \<Rightarrow> u64 \<Rightarrow> vm \<Rightarrow> unit vmres" where
  "virtual_free b ptr count st = virtual_free_loop b (align_down ptr PAGE_SIZE) (unat count) st"

subsection \<open>Changes of the allocator under a page map\<close>

text \<open>
  The allocator may take or release any page that is not a table: the tree and what it maps depend
  only on the tables.
\<close>

lemma walk_frame:
  assumes "tree_ok d h st r" "\<And>is q j. is_path d is \<Longrightarrow> walk h (pmem st) r is = Some q \<Longrightarrow> j < 512 \<Longrightarrow>
      load64 m' (slot h q j) = load64 (pmem st) (slot h q j)"
    and "is_path d js"
  shows "walk h m' r js = walk h (pmem st) r js"
  using assms(3)
proof (induction js rule: rev_induct)
  case (snoc j js)
  then have "walk h m' r js = walk h (pmem st) r js" "is_path d js" "j < 512" by auto
  then show ?case using assms(2) by (auto simp: walk_snoc pt_child_def split: option.split)
qed simp

lemma vm_inv_frame:
  assumes "vm_inv b r st" "phys_inv (hhdm b) ph" "page_limit ph = page_limit (vphys st)"
    "reserved (hhdm b) ph = reserved (hhdm b) (vphys st)" "null_page (hhdm b) ph"
    and keep: "\<And>is q. is_path (depth b) is \<Longrightarrow> vwalk b r st is = Some q \<Longrightarrow> q \<in> taken ph"
    and load: "\<And>is q j. is_path (depth b) is \<Longrightarrow> vwalk b r st is = Some q \<Longrightarrow> j < 512 \<Longrightarrow>
      load64 (pmem ph) (slot (hhdm b) q j) = load64 (pmem (vphys st)) (slot (hhdm b) q j)"
  shows "vm_inv b r (st\<lparr>vphys := ph\<rparr>)" "is_page (depth b) ks \<Longrightarrow> vleaf b r (st\<lparr>vphys := ph\<rparr>) ks = vleaf b r st ks"
    "is_path (depth b) js \<Longrightarrow> vwalk b r (st\<lparr>vphys := ph\<rparr>) js = vwalk b r st js"
proof -
  have tree: "vm_tree b r st" "\<not> vm_locked st" using assms(1) by (simp_all add: vm_inv_def)
  note t = vm_treeD [OF tree(1)]
  have w: "walk (hhdm b) (pmem ph) r js = vwalk b r st js" if "is_path (depth b) js" for js
    using walk_frame [OF t(4) load that] .
  then show "is_path (depth b) js \<Longrightarrow> vwalk b r (st\<lparr>vphys := ph\<rparr>) js = vwalk b r st js" by simp
  have "tree_ok (depth b) (hhdm b) ph r"
    unfolding tree_ok_def
  proof (intro conjI allI impI)
    fix js q assume "is_path (depth b) js" "walk (hhdm b) (pmem ph) r js = Some q"
    then show "q \<in> taken ph - reserved (hhdm b) ph"
      using keep tree_okD(1) [OF t(4)] w assms(4) by auto
  next
    fix js ks q
    assume p: "is_path (depth b) js" "is_path (depth b) ks"
      and "walk (hhdm b) (pmem ph) r js = Some q" "walk (hhdm b) (pmem ph) r ks = Some q"
    then show "js = ks" using tree_okD(2) [OF t(4) p] w by simp
  next
    fix js q j
    assume p: "is_path (depth b) (js @ [j])" and q: "walk (hhdm b) (pmem ph) r js = Some q"
    have "is_path (depth b) js" "j < 512" using p by simp_all
    then show "\<not> is_large (load64 (pmem ph) (slot (hhdm b) q j))"
      using tree_okD(3) [OF t(4) p] q w load by simp
  qed
  then show "vm_inv b r (st\<lparr>vphys := ph\<rparr>)"
    using t assms tree(2) by (simp add: vm_inv_def vm_tree_def vm_locked_def)
  show "vleaf b r (st\<lparr>vphys := ph\<rparr>) ks = vleaf b r st ks" if pg: "is_page (depth b) ks"
  proof -
    obtain js j where ks: "ks = js @ [j]" "is_path (depth b) js" "j < 512" using is_page_split [OF pg] by metis
    show ?thesis unfolding ks(1) vleaf_def leaf_snoc using w [OF ks(2)] load [OF ks(2) _ ks(3)] by (auto split: option.split)
  qed
qed

text \<open>A page that was allocated for something else than a table.\<close>

definition owned :: "boot \<Rightarrow> nat \<Rightarrow> vm \<Rightarrow> nat \<Rightarrow> bool" where
  "owned b r st q \<longleftrightarrow> q \<in> taken (vphys st) - reserved (hhdm b) (vphys st) \<and> (\<forall>is. is_path (depth b) is \<longrightarrow> vwalk b r st is \<noteq> Some q)"

lemma owned_iff: "owned b r st q \<longleftrightarrow> q \<in> taken (vphys st) - reserved (hhdm b) (vphys st) \<and> \<not> is_table b r st q"
  by (auto simp: owned_def is_table_def)

lemma is_table_cong: "(\<And>js. is_path (depth b) js \<Longrightarrow> vwalk b r st' js = vwalk b r st js) \<Longrightarrow> is_table b r st' = is_table b r st"
  by (auto simp: is_table_def fun_eq_iff)

lemma is_table_vphys: "vphys st' = vphys st \<Longrightarrow> is_table b r st' = is_table b r st"
  by (simp add: is_table_def fun_eq_iff)

lemma is_table_same: "same_tables b r st st' \<Longrightarrow> is_table b r st' = is_table b r st"
  by (simp add: is_table_def same_tables_def fun_eq_iff cong: conj_cong)

lemma owned_grows: "owned b r st q \<Longrightarrow> grows b r st st' \<Longrightarrow> owned b r st' q"
  unfolding owned_def grows_def by blast

lemma vm_allocate_fresh:
  assumes "vm_inv b r st"
  shows "(\<exists>q ph. vm_allocate b st = Inr (of_nat q * PAGE_SIZE, st\<lparr>vphys := ph\<rparr>) \<and> q < page_limit (vphys st) \<and> q \<notin> taken (vphys st) \<and>
      taken ph = insert q (taken (vphys st)) \<and> free_count (vphys st) = Suc (free_count ph) \<and> vm_inv b r (st\<lparr>vphys := ph\<rparr>) \<and>
      owned b r (st\<lparr>vphys := ph\<rparr>) q \<and> is_table b r (st\<lparr>vphys := ph\<rparr>) = is_table b r st \<and> (\<forall>p. owned b r st p \<longrightarrow> owned b r (st\<lparr>vphys := ph\<rparr>) p) \<and>
      (\<forall>ks. is_page (depth b) ks \<longrightarrow> vleaf b r (st\<lparr>vphys := ph\<rparr>) ks = vleaf b r st ks)) \<or>
    (vm_allocate b st = Inl (Phys_error Out_of_memory) \<and> free_count (vphys st) = 0)"
proof -
  let ?h = "hhdm b" and ?ph = "vphys st"
  have tree: "vm_tree b r st" using assms by (simp add: vm_inv_def)
  note t = vm_treeD [OF tree]
  show ?thesis
  proof (cases "\<exists>q. q < page_limit ?ph \<and> q \<notin> taken ?ph \<and> physical_allocate ?h ?ph 1 = Inr (granted ?h ?ph q 1, of_nat q * PAGE_SIZE)")
    case False
    then have "free_count ?ph = 0 \<and> physical_allocate ?h ?ph 1 = Inl Out_of_memory" using allocate_one [OF t(1)] by blast
    then show ?thesis by (simp add: vm_allocate_def)
  next
    case True
    then obtain q where q: "q < page_limit ?ph" "q \<notin> taken ?ph"
      and al: "physical_allocate ?h ?ph 1 = Inr (granted ?h ?ph q 1, of_nat q * PAGE_SIZE)" by blast
    let ?g = "granted ?h ?ph q 1"
    note fit = fits_one [OF q]
    have tk: "taken ?g = insert q (taken ?ph)" "reserved ?h ?g = reserved ?h ?ph" "free_count ?ph = Suc (free_count ?g)"
      using taken_granted [OF t(1) fit] free_count_granted [OF t(1) fit] by auto
    have own: "p \<in> taken ?ph" "p \<notin> reserved ?h ?ph" "p < page_limit ?ph" if "is_path (depth b) is" "vwalk b r st is = Some p" for "is" p
      using tree_ok_table [OF t(4) that] by simp_all
    have load: "load64 (pmem ?g) (slot ?h p j) = load64 (pmem ?ph) (slot ?h p j)"
      if "is_path (depth b) is" "vwalk b r st is = Some p" "j < 512" for "is" p j
      using granted_load [OF t(1) q own(1) [OF that(1,2)] _ that(3)] not_reservedD own [OF that(1,2)] by blast
    have keep: "p \<in> taken ?g" if "is_path (depth b) is" "vwalk b r st is = Some p" for "is" p
      using own(1) [OF that] tk(1) by simp
    have inv1: "phys_inv ?h ?g" "page_limit ?g = page_limit ?ph" using phys_inv_granted [OF t(1) fit] by simp_all
    note inv = vm_inv_frame [OF assms inv1 tk(2) null_page_granted [OF t(1,5) q] keep load]
    have "q \<in> taken ?g - reserved ?h ?g" using tk(1,2) fresh_not_reserved [OF t(1) q(2)] by simp
    moreover have "vwalk b r (st\<lparr>vphys := ?g\<rparr>) is \<noteq> Some q" if "is_path (depth b) is" for "is"
      using inv(3) [OF _ _ _ _ _ that] own(1) [OF that, of q] q(2) by auto
    ultimately have "owned b r (st\<lparr>vphys := ?g\<rparr>) q" by (simp add: owned_def)
    moreover have tb: "is_table b r (st\<lparr>vphys := ?g\<rparr>) = is_table b r st"
      by (rule is_table_cong) (rule inv(3))
    moreover have "owned b r (st\<lparr>vphys := ?g\<rparr>) p" if "owned b r st p" for p
      using that tk(1,2) unfolding owned_iff tb by simp
    moreover have "vm_inv b r (st\<lparr>vphys := ?g\<rparr>)" by (rule inv(1))
    moreover have "vleaf b r (st\<lparr>vphys := ?g\<rparr>) ks = vleaf b r st ks" if "is_page (depth b) ks" for ks
      using inv(2) [OF _ _ _ _ _ that] .
    ultimately show ?thesis using al q tk(1,3) by (intro disjI1 exI [of _ q] exI [of _ ?g]) (simp add: vm_allocate_def)
  qed
qed

subsection \<open>Allocation\<close>

lemma pagemap_load_simps [simp]:
  "vm_inv b r (pagemap_load b' st) = vm_inv b r st" "vleaf b r (pagemap_load b' st) = vleaf b r st"
  "owned b r (pagemap_load b' st) = owned b r st" "is_table b r (pagemap_load b' st) = is_table b r st"
  "vphys (pagemap_load b' st) = vphys st" "cr3 (pagemap_load b' st) = from_higher_half (hhdm b') (top_lvl (this st))"
  by (simp_all add: pagemap_load_def vm_inv_def vm_tree_def vm_locked_def vleaf_def owned_def is_table_def fun_eq_iff)

lemma map_fresh_outcome:
  assumes "vm_inv b r st" "small_present flags"
  shows "case map_fresh b start flags i st of
      Inl e \<Rightarrow> e = Phys_error Out_of_memory \<and> free_count (vphys st) \<le> depth b
    | Inr (x, st') \<Rightarrow> x = SYSTEM_OK \<and> vm_inv b r st' \<and> taken (vphys st) \<subseteq> taken (vphys st') \<and>
        free_count (vphys st) \<le> free_count (vphys st') + Suc (depth b) \<and>
        (\<forall>p. is_table b r st p \<longrightarrow> is_table b r st' p) \<and> (\<forall>p. owned b r st p \<longrightarrow> owned b r st' p) \<and>
        (\<exists>q. (\<forall>p \<in> taken (vphys st') - taken (vphys st). p = q \<or> is_table b r st' p) \<and> q \<notin> taken (vphys st) \<and> q < page_limit (vphys st) \<and> owned b r st' q \<and>
          (\<forall>ks. is_page (depth b) ks \<longrightarrow>
            vleaf b r st' ks = ((vleaf b r st)(vpage b (start + i) \<mapsto> (of_nat q * PAGE_SIZE + i) OR PageMap_parse_flags flags)) ks))"
  using vm_allocate_fresh [OF assms(1)]
proof (elim disjE exE conjE)
  assume "vm_allocate b st = Inl (Phys_error Out_of_memory)" "free_count (vphys st) = 0"
  then show ?thesis by (simp add: map_fresh_def)
next
  fix q ph
  assume q: "vm_allocate b st = Inr (of_nat q * PAGE_SIZE, st\<lparr>vphys := ph\<rparr>)" "q < page_limit (vphys st)" "q \<notin> taken (vphys st)"
    and tk: "taken ph = insert q (taken (vphys st))" and f: "free_count (vphys st) = Suc (free_count ph)" and inv: "vm_inv b r (st\<lparr>vphys := ph\<rparr>)"
    and own: "owned b r (st\<lparr>vphys := ph\<rparr>) q" and tb: "is_table b r (st\<lparr>vphys := ph\<rparr>) = is_table b r st"
    and own': "\<forall>p. owned b r st p \<longrightarrow> owned b r (st\<lparr>vphys := ph\<rparr>) p" and same: "\<forall>ks. is_page (depth b) ks \<longrightarrow> vleaf b r (st\<lparr>vphys := ph\<rparr>) ks = vleaf b r st ks"
  have s: "flag_to_page_size flags = PAGE_SIZE" "flags AND MAP_READ \<noteq> 0"
    using assms(2) by (simp_all add: small_present_def small_page_def)
  note m = map_page_outcome [OF inv s, of "start + i" "of_nat q * PAGE_SIZE + i"]
  show ?thesis
  proof (cases "map_page b (start + i) (of_nat q * PAGE_SIZE + i) flags (st\<lparr>vphys := ph\<rparr>)")
    case (Inl e)
    then show ?thesis using m q(1) f by (simp add: map_fresh_def op_outcome_def)
  next
    case (Inr z)
    then obtain x st' where z: "map_page b (start + i) (of_nat q * PAGE_SIZE + i) flags (st\<lparr>vphys := ph\<rparr>) = Inr (x, st')" by (cases z) auto
    have gr: "grows b r (st\<lparr>vphys := ph\<rparr>) st'" using m z by (simp add: op_outcome_def)
    then have tk': "taken (vphys st) \<subseteq> taken (vphys st')" "\<forall>p \<in> taken (vphys st') - taken (vphys st). p = q \<or> is_table b r st' p"
      using tk by (auto simp: grows_def)
    have o: "\<forall>p. is_table b r st p \<longrightarrow> is_table b r st' p" "\<forall>p. owned b r st p \<longrightarrow> owned b r st' p" "owned b r st' q"
      using grows_table [OF gr] tb own' owned_grows [OF _ gr] own by simp_all
    have e: "map_fresh b start flags i st = Inr (x, st')" using q(1) z by (simp add: map_fresh_def)
    show ?thesis unfolding e sum.case prod.case using m z q(2,3) f same tk' o by (auto simp: op_outcome_def)
  qed
qed

lemma machine_small: "small_present 0x203"
  by (simp add: small_present_def small_page_def machine_flags)

lemma small_presentD: "small_present flags \<Longrightarrow> small_page flags"
  by (simp add: small_present_def)

lemma scan_one_page:
  assumes "vm_inv b r st" "vleaf b r st (vpage b base) = None" "\<not> base + PAGE_SIZE \<le> base"
  shows "scan_pages b base PAGE_SIZE st = Inr (base + PAGE_SIZE, st)"
proof -
  have tree: "vm_tree b r st" using assms(1) by (simp add: vm_inv_def)
  let ?e = "slot (hhdm b) (table b r st (path_of b base)) (unat (GET_PML_ENTRY base 12))"
  have e: "virtual_to_entry b base False PAGE_SIZE True st = Inr (?e, st)"
    unfolding virtual_to_entry_def by (rule virtual_to_entry_lookup [OF tree])
  have "?e \<noteq> 0" using slot_nonzero [OF tree table_lim [OF tree path_of_path(1)] GET_PML_ENTRY_lt] .
  moreover have "\<not> is_valid (entry_at st ?e)"
    using vleaf_table [OF tree, of base] assms(2) by (simp add: Let_def split: if_splits)
  moreover have "base < base + PAGE_SIZE" using assms(3) by simp
  ultimately show ?thesis
    using e assms(3) unfolding scan_pages_def
    by (subst for_loop.simps, simp, subst for_loop.simps, simp)
qed

lemma allocate_page:
  assumes "vm_inv b r st" "small_present flags" "vleaf b r st (vpage b base) = None" "\<not> base + PAGE_SIZE \<le> base"
    "depth b < free_count (vphys st)"
  shows "\<exists>st' q. virtual_allocate_range b base limit 1 flags st = Inr (base, st') \<and> vm_inv b r st' \<and>
    q \<notin> taken (vphys st) \<and> q < page_limit (vphys st) \<and> owned b r st' q \<and> cr3 st' = from_higher_half (hhdm b) (top_lvl (this st')) \<and>
    (\<forall>ks. is_page (depth b) ks \<longrightarrow>
      vleaf b r st' ks = ((vleaf b r st)(vpage b base \<mapsto> of_nat q * PAGE_SIZE OR PageMap_parse_flags flags)) ks)"
proof -
  obtain st1 q where m: "map_fresh b base flags 0 st = Inr (SYSTEM_OK, st1)" "vm_inv b r st1"
    "q \<notin> taken (vphys st)" "q < page_limit (vphys st)" "owned b r st1 q"
    "\<forall>ks. is_page (depth b) ks \<longrightarrow>
      vleaf b r st1 ks = ((vleaf b r st)(vpage b base \<mapsto> of_nat q * PAGE_SIZE OR PageMap_parse_flags flags)) ks"
    using map_fresh_outcome [OF assms(1,2), of base 0] assms(5) by (auto split: sum.splits)
  have "for_loop (map_fresh b base flags) 0 PAGE_SIZE PAGE_SIZE st = Inr ((SYSTEM_OK, PAGE_SIZE), st1)"
    using m(1) by (subst for_loop.simps, simp add: PAGE_SIZE_def, subst for_loop.simps, simp add: PAGE_SIZE_def)
  then have "virtual_allocate_range b base limit 1 flags st = Inr (base, pagemap_load b st1)"
    using scan_one_page [OF assms(1,3,4)] unfolding virtual_allocate_range_def
    by (subst virtual_allocate_from.simps) simp
  moreover have "top_lvl (this (pagemap_load b st1)) = top_lvl (this st1)" by (simp add: pagemap_load_def)
  ultimately show ?thesis using m by (intro exI [of _ "pagemap_load b st1"] exI [of _ q]) simp
qed

subsection \<open>Release\<close>

lemma released_load:
  assumes "phys_inv h st" "q + unat n \<le> page_limit st" "\<not> bitmap_page h st p" "j < 512"
  shows "load64 (pmem (released st q n)) (slot h p j) = load64 (pmem st) (slot h p j)"
proof (rule load64_cong)
  fix k :: nat assume k: "k < 8"
  let ?x = "slot h p j + of_nat k" and ?n = "(unat (bsize (phys_bitmap st)) + 7) div 8"
  have "\<not> in_bitmap st ?x" using slot_not_in_bitmap [OF assms(3,4) k] .
  then have "?n \<le> unat (?x - buffer (phys_bitmap st))" by (simp add: in_bitmap_def not_less)
  moreover have "q + unat n \<le> 8 * ?n" using assms(2) phys_layoutD(1) [OF phys_invD(1) [OF assms(1)]] by linarith
  ultimately have "pmem (mark_pages q (q + unat n) False st) ?x = pmem st ?x" using mark_pages_frame bytes_lt64 by blast
  then show "pmem (released st q n) ?x = pmem st ?x" by (simp add: released_def Let_def)
qed

lemma vm_inv_released:
  assumes "vm_inv b r st" "owned b r st q" "unat a div 4096 = q" "a \<noteq> 0"
  shows "\<exists>ph. physical_free (vphys st) a 1 = Inr ph \<and> taken ph = taken (vphys st) - {q} \<and> vm_inv b r (st\<lparr>vphys := ph\<rparr>) \<and>
    is_table b r (st\<lparr>vphys := ph\<rparr>) = is_table b r st \<and> (\<forall>ks. is_page (depth b) ks \<longrightarrow> vleaf b r (st\<lparr>vphys := ph\<rparr>) ks = vleaf b r st ks)"
proof -
  let ?h = "hhdm b" and ?ph = "vphys st"
  have tree: "vm_tree b r st" using assms(1) by (simp add: vm_inv_def)
  note t = vm_treeD [OF tree]
  have q: "q \<in> taken ?ph - reserved ?h ?ph" "\<And>is. is_path (depth b) is \<Longrightarrow> vwalk b r st is \<noteq> Some q"
    using assms(2) by (simp_all add: owned_def)
  have po: "pages_of a 1 = {q}" using assms(3) by (auto simp: pages_of_def)
  obtain ph where ph: "physical_free ?ph a 1 = Inr ph" "phys_inv ?h ph" "taken ph = taken ?ph - {q}" "reserved ?h ph = reserved ?h ?ph"
    using physical.free_ok [OF t(1) assms(4), of 1] q(1) po by auto
  have lim: "q + unat (1 :: u64) \<le> page_limit ?ph" using q(1) by (auto simp: taken_def)
  then have e: "ph = released ?ph q 1" using physical_free_released [OF t(1) _ assms(4), of 1] ph(1) assms(3) by simp
  have pl: "page_limit ph = page_limit ?ph" by (simp add: e)
  have ld: "load64 (pmem ph) (slot ?h p j) = load64 (pmem ?ph) (slot ?h p j)" if "\<not> bitmap_page ?h ?ph p" "j < 512" for p j
    unfolding e using released_load [OF t(1) lim that] .
  have bp: "bitmap_page ?h ph 0 = bitmap_page ?h ?ph 0" by (simp add: e)
  have np: "null_page ?h ph" unfolding null_page_def pl bp
  proof (intro conjI allI impI)
    show "0 < page_limit ?ph" "\<not> bitmap_page ?h ?ph 0" using t(5) by (simp_all add: null_page_def)
    then show "load64 (pmem ph) (slot ?h 0 i) = 0" if "i < 512" for i using ld [of 0 i] that t(5) by (simp add: null_page_def)
  qed
  have load: "load64 (pmem ph) (slot ?h p j) = load64 (pmem ?ph) (slot ?h p j)"
    if "is_path (depth b) is" "vwalk b r st is = Some p" "j < 512" for "is" p j
    using ld [OF _ that(3)] not_reservedD tree_ok_table [OF t(4) that(1,2)] by blast
  have keep: "p \<in> taken ph" if "is_path (depth b) is" "vwalk b r st is = Some p" for "is" p
    using tree_ok_table(2) [OF t(4) that] q(2) [OF that(1)] that(2) ph(3) by auto
  have "vm_inv b r (st\<lparr>vphys := ph\<rparr>)" using vm_inv_frame(1) [OF assms(1) ph(2) pl ph(4) np keep load] .
  moreover have "vleaf b r (st\<lparr>vphys := ph\<rparr>) ks = vleaf b r st ks" if "is_page (depth b) ks" for ks
    using vm_inv_frame(2) [OF assms(1) ph(2) pl ph(4) np keep load that] .
  moreover have "is_table b r (st\<lparr>vphys := ph\<rparr>) = is_table b r st"
    by (rule is_table_cong) (rule vm_inv_frame(3) [OF assms(1) ph(2) pl ph(4) np keep load])
  ultimately show ?thesis using ph(1,3) by (intro exI [of _ ph] conjI allI impI)
qed

lemma owned_address:
  assumes "vm_inv b r st" "owned b r st q" "small_page flags"
  shows "pte_get_address (of_nat q * PAGE_SIZE OR PageMap_parse_flags flags) = of_nat q * PAGE_SIZE"
    "unat (of_nat q * PAGE_SIZE :: u64) div 4096 = q"
proof -
  note t = vm_treeD [OF conjunct1 [OF assms(1) [unfolded vm_inv_def]]]
  have q: "q < page_limit (vphys st)" using assms(2) by (simp add: owned_def taken_def)
  then have u: "unat (of_nat q * PAGE_SIZE :: u64) = 4096 * q" using page_limit_bound [of "vphys st"] by (intro page_ret(1)) linarith
  then show "unat (of_nat q * PAGE_SIZE :: u64) div 4096 = q" by simp
  have "page_frame (of_nat q * PAGE_SIZE)" using q t(2) by (intro page_frameI) (simp_all add: u)
  then show "pte_get_address (of_nat q * PAGE_SIZE OR PageMap_parse_flags flags) = of_nat q * PAGE_SIZE"
    using pte_address_flags(1) [OF _ small_flag_bits [OF assms(3)], of "of_nat q * PAGE_SIZE" 0] by (simp add: pte_new)
qed

text \<open>At a page that is not mapped the loop of \<^verbatim>\<open>virtual_free\<close> ends.\<close>

lemma virtual_free_loop_absent:
  assumes "vm_inv b r st" "vleaf b r st (vpage b va) = None"
  shows "\<exists>st'. virtual_free_loop b va n st = Inr ((), st') \<and> vm_inv b r st' \<and> vleaf b r st' = vleaf b r st \<and> vphys st' = vphys st"
  using virtual_to_physical_lookup [OF assms(1) machine_flags(3), of va] assms by (cases n) auto

lemma align_down_page: "align_down a PAGE_SIZE mod PAGE_SIZE = 0"
proof -
  have "unat (align_down a PAGE_SIZE) = unat a div 4096 * 4096" using align_down_pow2(2) [of 12 a] by (simp add: PAGE_SIZE_def)
  then show ?thesis by (simp add: word_unat_eq_iff unat_mod_distrib PAGE_SIZE_def)
qed

lemma pte_address_not_minus_1: "pte_get_address v \<noteq> - 1"
proof
  assume "pte_get_address v = - 1"
  then have "bit (pte_get_address v) 0" by simp
  then show False by (simp add: pte_get_address_def PAGE_ADDR_MASK_def bit_simps)
qed

lemma virtual_free_mapped:
  assumes inv: "vm_inv b r st" and al: "va mod PAGE_SIZE = 0" and v: "vleaf b r st (vpage b va) = Some v"
    and q: "unat (pte_get_address v) div 4096 = q" "owned b r st q"
  shows "\<exists>st'. virtual_free_loop b va (Suc n) st = Inr ((), st') \<and> vm_inv b r st' \<and> taken (vphys st') = taken (vphys st) - {q} \<and>
    is_table b r st' = is_table b r st \<and> (\<forall>ks. is_page (depth b) ks \<longrightarrow> vleaf b r st' ks = ((vleaf b r st)(vpage b va := None)) ks)"
proof -
  let ?a = "pte_get_address v"
  have "q \<noteq> 0" using q(2) by (auto simp: owned_def reserved_def taken_def)
  then have a: "?a \<noteq> 0" using q(1) by auto
  obtain s1 where s1: "virtual_to_physical b va 0 st = Inr (?a, s1)" "vm_inv b r s1" "vleaf b r s1 = vleaf b r st" "vphys s1 = vphys st"
    using virtual_to_physical_lookup [OF inv machine_flags(3), of va] v al by auto
  obtain s2 where s2: "unmap_page b va 0 s1 = Inr (SYSTEM_OK, s2)" "vm_inv b r s2" "same_tables b r s1 s2"
    "\<forall>ks. is_page (depth b) ks \<longrightarrow> vleaf b r s2 ks = ((vleaf b r s1)(vpage b va := None)) ks"
    using unmap_page_lookup [OF s1(2) machine_flags(3), of va] by blast
  have own: "owned b r s2 q" using q(2) s2(3) s1(4) by (simp add: owned_def same_tables_def)
  obtain ph where ph: "physical_free (vphys s2) ?a 1 = Inr ph" "taken ph = taken (vphys s2) - {q}" "vm_inv b r (s2\<lparr>vphys := ph\<rparr>)"
    "is_table b r (s2\<lparr>vphys := ph\<rparr>) = is_table b r s2" "\<forall>ks. is_page (depth b) ks \<longrightarrow> vleaf b r (s2\<lparr>vphys := ph\<rparr>) ks = vleaf b r s2 ks"
    using vm_inv_released [OF s2(2) own q(1) a] by blast
  let ?s3 = "pagemap_load b (s2\<lparr>vphys := ph\<rparr>)"
  have none: "vleaf b r ?s3 (vpage b va) = None" using ph(5) s2(4) vpage_page [of b va] by simp
  have "vm_inv b r ?s3" using ph(3) by simp
  then obtain s4 where s4: "virtual_free_loop b va n ?s3 = Inr ((), s4)" "vm_inv b r s4" "vleaf b r s4 = vleaf b r ?s3" "vphys s4 = ph"
    using virtual_free_loop_absent [OF _ none] by fastforce
  have "virtual_free_loop b va (Suc n) st = Inr ((), s4)"
    using s1(1) s2(1) ph(1) s4(1) pte_address_not_minus_1 by simp
  moreover have "taken (vphys s4) = taken (vphys st) - {q}" using s4(4) ph(2) s2(3) s1(4) by (simp add: same_tables_def)
  moreover have tb: "is_table b r s4 = is_table b r st"
    using is_table_vphys [of s4 "s2\<lparr>vphys := ph\<rparr>"] ph(4) is_table_same [OF s2(3)] is_table_vphys [OF s1(4)] s4(4) by simp
  ultimately show ?thesis using s4(2,3) ph(5) s2(4) s1(3) tb by auto
qed

text \<open>
  C16: \<^verbatim>\<open>virtual_free\<close> releases one page whatever the count is, since the address is never advanced: the
  page of the pointer is unmapped and its frame returned to the allocator, all other pages of the
  range stay mapped, and the loop ends at the page it has just unmapped.
\<close>

theorem virtual_free_one_page:
  assumes "vm_inv b r st" "count \<noteq> 0" "va = align_down ptr PAGE_SIZE" "vleaf b r st (vpage b va) = Some v"
    "unat (pte_get_address v) div 4096 = q" "owned b r st q"
  shows "\<exists>st'. virtual_free b ptr count st = Inr ((), st') \<and> vm_inv b r st' \<and> taken (vphys st') = taken (vphys st) - {q} \<and>
    (\<forall>ks. is_page (depth b) ks \<longrightarrow> vleaf b r st' ks = ((vleaf b r st)(vpage b va := None)) ks)"
proof -
  obtain n where n: "unat count = Suc n" using assms(2) by (metis not0_implies_Suc unat_eq_0)
  show ?thesis
    using virtual_free_mapped [OF assms(1) _ assms(4-6), of n] align_down_page [of ptr] assms(3)
    by (auto simp: virtual_free_def n simp del: virtual_free_loop.simps)
qed

lemma machine_room: "\<not> (0xFFFF900000000000 :: u64) + PAGE_SIZE \<le> 0xFFFF900000000000" "depth boot_machine < free_count (vphys vm_machine)"
  by (simp_all add: PAGE_SIZE_def vm_machine_def machine_free_count boot_machine_def depth_def)

lemma machine_page: "\<exists>st q. virtual_allocate_range boot_machine 0xFFFF900000000000 limit 1 0x203 vm_machine = Inr (0xFFFF900000000000, st) \<and>
    vm_inv boot_machine 1 st \<and> owned boot_machine 1 st q \<and>
    vleaf boot_machine 1 st (vpage boot_machine 0xFFFF900000000000) = Some (of_nat q * PAGE_SIZE OR PageMap_parse_flags 0x203)"
proof -
  have "vleaf boot_machine 1 vm_machine (vpage boot_machine 0xFFFF900000000000) = None"
    by (rule machine_no_leaf) (use vpage_page [of boot_machine] in \<open>simp add: depth_def boot_machine_def\<close>)
  then obtain st q where "virtual_allocate_range boot_machine 0xFFFF900000000000 limit 1 0x203 vm_machine = Inr (0xFFFF900000000000, st)"
    "vm_inv boot_machine 1 st" "owned boot_machine 1 st q"
    "\<forall>ks. is_page (depth boot_machine) ks \<longrightarrow> vleaf boot_machine 1 st ks =
      ((vleaf boot_machine 1 vm_machine)(vpage boot_machine 0xFFFF900000000000 \<mapsto> of_nat q * PAGE_SIZE OR PageMap_parse_flags 0x203)) ks"
    using allocate_page [OF machine_inv machine_small _ machine_room] by blast
  then show ?thesis using vpage_page [of boot_machine "0xFFFF900000000000"] by auto
qed

theorem virtual_free_one_page_witness:
  "\<exists>st st'. virtual_allocate_range boot_machine 0xFFFF900000000000 0xFFFFFFFF80000000 1 0x203 vm_machine = Inr (0xFFFF900000000000, st) \<and>
     virtual_free boot_machine 0xFFFF900000000123 3 st = Inr ((), st') \<and>
     vleaf boot_machine 1 st' (vpage boot_machine 0xFFFF900000000000) = None"
proof -
  obtain st q where st: "virtual_allocate_range boot_machine 0xFFFF900000000000 0xFFFFFFFF80000000 1 0x203 vm_machine = Inr (0xFFFF900000000000, st)"
    "vm_inv boot_machine 1 st" "owned boot_machine 1 st q"
    "vleaf boot_machine 1 st (vpage boot_machine 0xFFFF900000000000) = Some (of_nat q * PAGE_SIZE OR PageMap_parse_flags 0x203)"
    using machine_page by blast
  have a: "0xFFFF900000000000 = align_down 0xFFFF900000000123 PAGE_SIZE" by (simp add: align_down_def PAGE_SIZE_def)
  have "unat (pte_get_address (of_nat q * PAGE_SIZE OR PageMap_parse_flags 0x203)) div 4096 = q"
    using owned_address [OF st(2,3) small_presentD [OF machine_small]] by simp
  then show ?thesis
    using virtual_free_one_page [OF st(2) _ a st(4) _ st(3), of 3] st(1) vpage_page [of boot_machine "0xFFFF900000000000"] by auto
qed

end
