(* ===== verification/Kernel_Map.thy ===== *)
theory Kernel_Map
  imports Page_Ranges Virtual
begin

text \<open>
  The page map of the kernel: \<^verbatim>\<open>PageMap::initialize\<close> establishes the invariant of page maps, and
  \<^verbatim>\<open>virtual_initialize\<close> maps the first four gigabytes, the memory above them and the kernel.
\<close>

subsection \<open>The top-level table\<close>

text \<open>What the physical allocator and the boot loader leave: no page map yet.\<close>

definition vm_ready :: "boot \<Rightarrow> vm \<Rightarrow> bool" where
  "vm_ready b st \<longleftrightarrow> phys_inv (hhdm b) (vphys st) \<and> page_limit (vphys st) \<le> 2 ^ 40 \<and> null_page (hhdm b) (vphys st) \<and> \<not> vm_locked st"

lemma clear_granted:
  assumes "phys_inv h st" "q < page_limit st" "q \<notin> taken st"
  shows "fst (memset (pmem (granted h st q 1)) (to_higher_half h (of_nat q * PAGE_SIZE)) 0 4096) = pmem (granted h st q 1)"
proof (rule ext)
  fix x
  let ?g = "granted h st q 1"
  have lim: "q + unat (1 :: u64) \<le> page_limit st" using assms(2) by simp
  have m: "fst (memset (pmem ?g) (to_higher_half h (of_nat q * PAGE_SIZE)) 0 (1 * PAGE_SIZE)) = fill_bytes (pmem ?g) (page_addr h q) 0 4096"
    using clear_pages [OF phys_invD(1) [OF assms(1)] lim] by simp
  have "pmem ?g x = 0" if x: "unat (x - page_addr h q) < 4096"
  proof -
    have "\<not> bitmap_page h st q" using not_reservedD [OF fresh_not_reserved [OF assms(1,3)] assms(2)] by blast
    then have "\<not> in_bitmap st x" using x by (auto simp: bitmap_page_def)
    then show ?thesis using granted_mem [OF assms(1) lim] x by simp
  qed
  then show "fst (memset (pmem ?g) (to_higher_half h (of_nat q * PAGE_SIZE)) 0 4096) x = pmem ?g x"
    using m by (simp add: fill_bytes_def PAGE_SIZE_def)
qed

lemma empty_walk:
  assumes "\<And>j. j < 512 \<Longrightarrow> load64 m (slot h q j) = 0" "is_path d is"
  shows "walk h m q is = (if is = [] then Some q else None)"
  using assms by (cases "is") (simp_all add: is_path_def pt_child_def)

lemma empty_tree:
  assumes "\<And>j. j < 512 \<Longrightarrow> load64 (pmem ph) (slot h q j) = 0" "q \<in> taken ph - reserved h ph"
  shows "tree_ok d h ph q" "is_page d ks \<Longrightarrow> leaf h (pmem ph) q ks = None"
proof -
  note w = empty_walk [OF assms(1), where d = d]
  show "tree_ok d h ph q"
    unfolding tree_ok_def
  proof (intro conjI allI impI)
    fix js p j
    assume p: "is_path d (js @ [j])" and "walk h (pmem ph) q js = Some p"
    then have "p = q" "j < 512" using w [of js] by (auto split: if_splits)
    then show "\<not> is_large (load64 (pmem ph) (slot h p j))" using assms(1) by simp
  qed (use w assms(2) in \<open>auto split: if_splits\<close>)
  show "leaf h (pmem ph) q ks = None" if "is_page d ks"
    using that by (rule is_page_split) (use w assms(1) in \<open>auto simp: leaf_snoc split: option.split if_splits\<close>)
qed

text \<open>After the allocation of the top-level table the tree is empty.\<close>

lemma top_level:
  assumes "vm_ready b st"
  shows "(\<exists>q ph. vm_allocate b st = Inr (of_nat q * PAGE_SIZE, st\<lparr>vphys := ph\<rparr>) \<and>
      to_higher_half (hhdm b) (of_nat q * PAGE_SIZE) = page_addr (hhdm b) q \<and>
      fst (memset (pmem ph) (page_addr (hhdm b) q) 0 4096) = pmem ph \<and> free_count (vphys st) = Suc (free_count ph) \<and>
      (\<forall>st'. vphys st' = ph \<longrightarrow> top_lvl (this st') = page_addr (hhdm b) q \<longrightarrow>
        vm_tree b q st' \<and> (\<forall>ks. is_page (depth b) ks \<longrightarrow> vleaf b q st' ks = None))) \<or>
    (vm_allocate b st = Inl (Phys_error Out_of_memory) \<and> free_count (vphys st) = 0)"
proof -
  let ?h = "hhdm b" and ?ph = "vphys st"
  have t: "phys_inv ?h ?ph" "page_limit ?ph \<le> 2 ^ 40" "null_page ?h ?ph" using assms by (simp_all add: vm_ready_def)
  show ?thesis
  proof (cases "\<exists>q. q < page_limit ?ph \<and> q \<notin> taken ?ph \<and> physical_allocate ?h ?ph 1 = Inr (granted ?h ?ph q 1, of_nat q * PAGE_SIZE)")
    case False
    then have "free_count ?ph = 0 \<and> physical_allocate ?h ?ph 1 = Inl Out_of_memory" using allocate_one [OF t(1)] by blast
    then show ?thesis by (simp add: vm_allocate_def)
  next
    case True
    then obtain q where q: "q < page_limit ?ph" "q \<notin> taken ?ph"
      and al: "physical_allocate ?h ?ph 1 = Inr (granted ?h ?ph q 1, of_nat q * PAGE_SIZE)" by blast
    let ?g = "granted ?h ?ph q 1"
    note fit = fits_one [OF q]
    have tk: "taken ?g = insert q (taken ?ph)" "reserved ?h ?g = reserved ?h ?ph" "free_count ?ph = Suc (free_count ?g)"
      using taken_granted [OF t(1) fit] free_count_granted [OF t(1) fit] by auto
    have inv: "phys_inv ?h ?g" "page_limit ?g = page_limit ?ph" using phys_inv_granted [OF t(1) fit] by simp_all
    have hh: "to_higher_half ?h (of_nat q * PAGE_SIZE) = page_addr ?h q" using higher_half_page [OF phys_invD(1) [OF t(1)] q(1)] .
    have own: "q \<in> taken ?g - reserved ?h ?g" using tk(1,2) fresh_not_reserved [OF t(1) q(2)] by simp
    note e = empty_tree [OF granted_zero [OF t(1) q] own]
    have "vm_tree b q st' \<and> (\<forall>ks. is_page (depth b) ks \<longrightarrow> vleaf b q st' ks = None)"
      if "vphys st' = ?g" "top_lvl (this st') = page_addr ?h q" for st'
      using that e inv t(2) null_page_granted [OF t(1,3) q] by (simp add: vm_tree_def vleaf_def)
    moreover have "fst (memset (pmem ?g) (page_addr ?h q) 0 4096) = pmem ?g" using clear_granted [OF t(1) q] by (simp add: hh)
    ultimately show ?thesis using al hh tk(3) by (intro disjI1 exI [of _ q] exI [of _ ?g]) (simp add: vm_allocate_def)
  qed
qed

text \<open>The loop over the upper half of the top-level table.\<close>

lemma link_one:
  assumes "vm_tree b r st" "i < 512"
  shows "case get_next_lvl b (slot (hhdm b) r i) True (- 1) (- 1) (- 1) st of
      Inl e \<Rightarrow> e = Phys_error Out_of_memory \<and> free_count (vphys st) = 0
    | Inr (_, st') \<Rightarrow> extends b r 1 st st'"
proof -
  have path: "is_path (depth b) ([] @ [i])" "vwalk b r st [] = Some r" using assms(2) by (simp_all add: is_path_def depth_def)
  show ?thesis
  proof (cases "vwalk b r st ([] @ [i])")
    case (Some q)
    then show ?thesis
      using next_present [OF assms(1) path Some] extends_refl [OF assms(1)] by (simp add: get_next_lvl_def extends_def)
  next
    case None
    then show ?thesis using next_alloc [OF assms(1) path None, of "map_page b" "- 1" "- 1" "- 1"] by (auto simp: get_next_lvl_def)
  qed
qed

lemma upper_half_tables:
  assumes "vm_tree b r st" "top_lvl (this st) = t0" "i \<le> 512"
  shows "case upper_half_loop (\<lambda>i. get_next_lvl b (entries t0 (of_nat i)) True (- 1) (- 1) (- 1)) i st of
      Inl e \<Rightarrow> e = Phys_error Out_of_memory \<and> free_count (vphys st) < 512 - i
    | Inr (_, st') \<Rightarrow> extends b r (512 - i) st st'"
  using assms
proof (induction "512 - i" arbitrary: i st)
  case 0
  then show ?case using extends_refl by (subst upper_half_loop.simps) simp
next
  case (Suc n)
  then have i: "i < 512" by simp
  have e: "entries t0 (of_nat i) = slot (hhdm b) r i"
    unfolding Suc(4) [symmetric] vm_treeD(3) [OF Suc(3)] entries_slot using i by (simp add: unat_of_nat64)
  note l = link_one [OF Suc(3) i]
  show ?case
  proof (cases "get_next_lvl b (slot (hhdm b) r i) True (- 1) (- 1) (- 1) st")
    case (Inl x)
    then show ?thesis using l i by (subst upper_half_loop.simps) (simp add: e)
  next
    case (Inr y)
    then obtain t s where y: "get_next_lvl b (slot (hhdm b) r i) True (- 1) (- 1) (- 1) st = Inr (t, s)" by (cases y) auto
    have ex: "extends b r 1 st s" using l y by simp
    then have s: "vm_tree b r s" "s = st\<lparr>vphys := vphys s\<rparr>" "free_count (vphys st) \<le> free_count (vphys s) + 1"
      by (simp_all add: extends_def)
    have "this s = this st" using s(2) by (metis vm.select_convs(2) vm.surjective vm.update_convs(1))
    then have IH: "case upper_half_loop (\<lambda>i. get_next_lvl b (entries t0 (of_nat i)) True (- 1) (- 1) (- 1)) (Suc i) s of
        Inl e \<Rightarrow> e = Phys_error Out_of_memory \<and> free_count (vphys s) < 512 - Suc i
      | Inr (_, st') \<Rightarrow> extends b r (512 - Suc i) s st'"
      using Suc(1) [of "Suc i" s] Suc(2,4) s(1) i by simp
    have un: "upper_half_loop (\<lambda>i. get_next_lvl b (entries t0 (of_nat i)) True (- 1) (- 1) (- 1)) i st =
        upper_half_loop (\<lambda>i. get_next_lvl b (entries t0 (of_nat i)) True (- 1) (- 1) (- 1)) (Suc i) s"
      using i y by (subst upper_half_loop.simps) (simp add: e)
    have "1 + (512 - Suc i) = 512 - i" using i by simp
    then show ?thesis using IH extends_trans [OF ex, of "512 - Suc i"] s(3) unfolding un by (auto split: sum.splits)
  qed
qed

lemma initialize_establishes:
  assumes "vm_ready b st"
  shows "case pagemap_initialize b huge base True st of
      Inl e \<Rightarrow> e = Phys_error Out_of_memory \<and> free_count (vphys st) < 257
    | Inr (_, st') \<Rightarrow> \<exists>r. vm_inv b r st' \<and> (\<forall>ks. is_page (depth b) ks \<longrightarrow> vleaf b r st' ks = None) \<and>
        pml3_translation st' = huge \<and> msr_pat st' = DEFAULT_PAT \<and> free_count (vphys st) \<le> free_count (vphys st') + 257"
  using top_level [OF assms]
proof (elim disjE exE conjE)
  assume "vm_allocate b st = Inl (Phys_error Out_of_memory)" "free_count (vphys st) = 0"
  then show ?thesis by (simp add: pagemap_initialize_def)
next
  fix q ph
  assume al: "vm_allocate b st = Inr (of_nat q * PAGE_SIZE, st\<lparr>vphys := ph\<rparr>)"
    and hh: "to_higher_half (hhdm b) (of_nat q * PAGE_SIZE) = page_addr (hhdm b) q"
    and cl: "fst (memset (pmem ph) (page_addr (hhdm b) q) 0 4096) = pmem ph" and f: "free_count (vphys st) = Suc (free_count ph)"
    and t: "\<forall>st'. vphys st' = ph \<longrightarrow> top_lvl (this st') = page_addr (hhdm b) q \<longrightarrow>
        vm_tree b q st' \<and> (\<forall>ks. is_page (depth b) ks \<longrightarrow> vleaf b q st' ks = None)"
  define s where "s = st\<lparr>this := (this st)\<lparr>top_lvl := page_addr (hhdm b) q\<rparr>, vphys := ph, pml3_translation := huge\<rparr>"
  let ?loop = "upper_half_loop (\<lambda>i. get_next_lvl b (entries (page_addr (hhdm b) q) (of_nat i)) True (- 1) (- 1) (- 1)) 256 s"
  have e: "pagemap_initialize b huge base True st = vbind ?loop (\<lambda>_ st. Inr ((), enable_pat st))"
    using cl by (simp add: pagemap_initialize_def al hh Let_def s_def)
  have s: "vm_tree b q s" "\<forall>ks. is_page (depth b) ks \<longrightarrow> vleaf b q s ks = None" "top_lvl (this s) = page_addr (hhdm b) q"
    "vphys s = ph" "pml3_translation s = huge" "\<not> vm_locked s"
    using t assms by (simp_all add: s_def vm_ready_def vm_locked_def)
  note loop = upper_half_tables [OF s(1,3), of 256, simplified]
  show ?thesis
  proof (cases ?loop)
    case (Inl x)
    then show ?thesis using loop e f s(4) by simp
  next
    case (Inr y)
    then obtain s' where y: "?loop = Inr ((), s')" by (cases y) auto
    then have ex: "extends b q 256 s s'" using loop by simp
    then have p: "s' = s\<lparr>vphys := vphys s'\<rparr>" "vm_tree b q s'" "free_count (vphys s) \<le> free_count (vphys s') + 256"
      "\<forall>ks. is_page (depth b) ks \<longrightarrow> vleaf b q s' ks = None" using s(2) by (simp_all add: extends_def)
    have "this s' = this s" "pml3_translation s' = pml3_translation s"
      by (metis p(1) vm.select_convs(2,3) vm.surjective vm.update_convs(1))+
    then have "vm_inv b q (enable_pat s')" "vleaf b q (enable_pat s') = vleaf b q s'" "pml3_translation (enable_pat s') = huge"
      "msr_pat (enable_pat s') = DEFAULT_PAT" "vphys (enable_pat s') = vphys s'"
      using p(2) s(5,6) by (simp_all add: vm_inv_def vm_tree_def vm_locked_def enable_pat_def vleaf_def fun_eq_iff)
    then show ?thesis using e y p(3,4) f s(4) by auto
  qed
qed

text \<open>
  \<^verbatim>\<open>initialize(true)\<close> of the page map of the kernel establishes the invariant of page maps.  It fails
  only for lack of memory, with fewer than 257 free pages; otherwise the top-level table and the
  tables of its upper half are taken, nothing is mapped, and the page attribute table is set.
\<close>

theorem pagemap_initialize_establishes:
  assumes "vm_ready b st"
  shows "case pagemap_initialize b huge base True st of
      Inl e \<Rightarrow> e = Phys_error Out_of_memory \<and> free_count (vphys st) < 257
    | Inr (_, st') \<Rightarrow> \<exists>r. vm_inv b r st' \<and> (\<forall>ks. is_page (depth b) ks \<longrightarrow> vleaf b r st' ks = None) \<and>
        pml3_translation st' = huge \<and> msr_pat st' = DEFAULT_PAT \<and> free_count (vphys st) \<le> free_count (vphys st') + 257"
  using assms by (rule initialize_establishes)

subsection \<open>Stages of mapping\<close>

text \<open>
  A stage of the initialization writes the entries in \<open>W\<close> and takes at most \<open>c\<close> pages: a page that \<open>W\<close>
  mentions has one of its entries, every other page is mapped as before.
\<close>

definition maps :: "boot \<Rightarrow> nat \<Rightarrow> (nat list \<times> u64) set \<Rightarrow> nat \<Rightarrow> vm \<Rightarrow> vm \<Rightarrow> bool" where
  "maps b r W c st st' \<longleftrightarrow> vm_inv b r st' \<and> free_count (vphys st) \<le> free_count (vphys st') + c \<and>
     (\<forall>ks. is_page (depth b) ks \<longrightarrow>
       (ks \<notin> fst ` W \<and> vleaf b r st' ks = vleaf b r st ks) \<or> (\<exists>v. (ks, v) \<in> W \<and> vleaf b r st' ks = Some v))"

definition stage :: "boot \<Rightarrow> nat \<Rightarrow> (nat list \<times> u64) set \<Rightarrow> nat \<Rightarrow> vm \<Rightarrow> 'a vmres \<Rightarrow> bool" where
  "stage b r W c st res \<longleftrightarrow>
     (case res of
        Inl e \<Rightarrow> e = Phys_error Out_of_memory \<and> free_count (vphys st) < c
      | Inr (_, st') \<Rightarrow> maps b r W c st st')"

lemma maps_inv: "maps b r W c st st' \<Longrightarrow> vm_inv b r st'"
  by (simp add: maps_def)

lemma maps_refl: "vm_inv b r st \<Longrightarrow> maps b r {} 0 st st"
  by (simp add: maps_def)

lemma maps_trans:
  assumes "maps b r V c st s" "maps b r W d s st'"
  shows "maps b r (V \<union> W) (c + d) st st'"
  unfolding maps_def
proof (intro conjI allI impI)
  fix ks assume "is_page (depth b) ks"
  then show "(ks \<notin> fst ` (V \<union> W) \<and> vleaf b r st' ks = vleaf b r st ks) \<or> (\<exists>v. (ks, v) \<in> V \<union> W \<and> vleaf b r st' ks = Some v)"
    using assms unfolding maps_def by (metis UnCI Un_iff image_Un)
qed (use assms in \<open>auto simp: maps_def\<close>)

lemma stage_bind:
  assumes "stage b r V c st res" "\<And>a s. maps b r V c st s \<Longrightarrow> stage b r W d s (f a s)"
  shows "stage b r (V \<union> W) (c + d) st (vbind res f)"
proof (cases res)
  case (Inl e)
  then show ?thesis using assms(1) by (simp add: stage_def)
next
  case (Inr y)
  then obtain a s where y: "res = Inr (a, s)" by (cases y) auto
  then have m: "maps b r V c st s" using assms(1) by (simp add: stage_def)
  then have "free_count (vphys st) \<le> free_count (vphys s) + c" by (simp add: maps_def)
  then show ?thesis
    using assms(2) [OF m, of a] maps_trans [OF m] y by (auto simp: stage_def split: sum.splits)
qed

lemma stage_return: "maps b r W c st s \<Longrightarrow> stage b r W c st (Inr (a, s))"
  by (simp add: stage_def)

lemma stage_skip: "vm_inv b r s \<Longrightarrow> stage b r {} 0 s (Inr (a, s))"
  by (simp add: stage_def maps_refl)

lemma stage_map:
  assumes "vm_inv b r st" "small_present flags"
  shows "stage b r {(vpage b va, pa OR PageMap_parse_flags flags)} (depth b) st (assert_mapped (map_page b va pa flags st))"
proof -
  have f: "flag_to_page_size flags = PAGE_SIZE" "flags AND MAP_READ \<noteq> 0"
    using assms(2) by (simp_all add: small_present_def small_page_def)
  show ?thesis
    using map_page_outcome [OF assms(1) f, of va pa]
    by (cases "map_page b va pa flags st") (auto simp: op_outcome_def stage_def maps_def assert_mapped_def SYSTEM_OK_def)
qed

lemma assert_mapped_ok: "assert_mapped r = Inr (x, s) \<Longrightarrow> x = SYSTEM_OK"
  by (cases r) (auto simp: assert_mapped_def vbind_def split: if_splits)

lemma stage_loop:
  assumes "pages_between a e n" "vm_inv b r st"
    and body: "\<And>k s. k < n \<Longrightarrow> vm_inv b r s \<Longrightarrow> stage b r (W k) c s (body (a + of_nat k * PAGE_SIZE) s)"
    and ok: "\<And>i s x s'. body i s = Inr (x, s') \<Longrightarrow> x = SYSTEM_OK"
  shows "stage b r (\<Union>k < n. W k) (n * c) st (for_loop body a e PAGE_SIZE st)"
proof -
  let ?P = "\<lambda>k s. maps b r (\<Union>i < k. W i) (k * c) st s"
  let ?Q = "\<lambda>x. x = Phys_error Out_of_memory \<and> free_count (vphys st) < n * c"
  have step: "case body (a + of_nat k * PAGE_SIZE) s of Inl x \<Rightarrow> ?Q x | Inr (y, s') \<Rightarrow> y = SYSTEM_OK \<and> ?P (Suc k) s'"
    if k: "k < n" and s: "?P k s" for k s
  proof (cases "body (a + of_nat k * PAGE_SIZE) s")
    case (Inl x)
    have "Suc k * c \<le> n * c" using k by (intro mult_right_mono) auto
    then show ?thesis using body [OF k maps_inv [OF s]] Inl s by (auto simp: stage_def maps_def)
  next
    case (Inr y)
    then obtain x s' where y: "body (a + of_nat k * PAGE_SIZE) s = Inr (x, s')" by (cases y) auto
    then have "maps b r (W k) c s s'" using body [OF k maps_inv [OF s]] by (simp add: stage_def)
    from maps_trans [OF s this] show ?thesis using y ok [OF y] by (simp add: lessThan_Suc Un_commute add.commute)
  qed
  have "?P 0 st" using maps_refl [OF assms(2)] by simp
  from page_loop [where P = ?P and Q = ?Q and body = body, OF assms(1) this step]
  show ?thesis by (cases "for_loop body a e PAGE_SIZE st") (auto simp: stage_def)
qed

subsection \<open>The address space of the kernel\<close>

text \<open>The entries that \<^verbatim>\<open>virtual_initialize\<close> writes: for the higher half, for one region of the memory map, and for the kernel.\<close>

definition linear_entry :: "boot \<Rightarrow> u64 \<Rightarrow> u64 \<Rightarrow> nat list \<times> u64" where
  "linear_entry b flags j = (vpage b (to_higher_half (hhdm b) j), j OR PageMap_parse_flags flags)"

definition low_entries :: "boot \<Rightarrow> (nat list \<times> u64) set" where
  "low_entries b = (\<Union>k < 1048576. {linear_entry b (MAP_READ OR MAP_WRITE OR MAP_WRITE_BACK) (of_nat k * PAGE_SIZE)})"

definition region_pages :: "memmap_entry \<Rightarrow> nat" where
  "region_pages e = (unat (mm_base e) + unat (mm_length e) + 4095) div 4096 - unat (mm_base e) div 4096"

definition region_entries :: "boot \<Rightarrow> memmap_entry \<Rightarrow> (nat list \<times> u64) set" where
  "region_entries b e =
     (if align_up (mm_base e + mm_length e) PAGE_SIZE < FOUR_GiB then {}
      else \<Union>k < region_pages e.
        let j = align_down (mm_base e) PAGE_SIZE + of_nat k * PAGE_SIZE
        in if j < FOUR_GiB then {}
           else {linear_entry b (MAP_READ OR MAP_WRITE OR (if mm_type e = Framebuffer then MAP_WRITE_COMBINING else MAP_WRITE_BACK)) j})"

definition kernel_entries :: "boot \<Rightarrow> u64 \<Rightarrow> u64 \<Rightarrow> nat \<Rightarrow> (nat list \<times> u64) set" where
  "kernel_entries b virtual_base physical_base n =
     (\<Union>k < n. {(vpage b (virtual_base + of_nat k * PAGE_SIZE),
        (physical_base + of_nat k * PAGE_SIZE) OR PageMap_parse_flags (MAP_WRITE OR MAP_READ OR MAP_EXEC OR MAP_WRITE_BACK))})"

definition region_ok :: "memmap_entry \<Rightarrow> bool" where
  "region_ok e \<longleftrightarrow> unat (mm_base e) + unat (mm_length e) + 4096 \<le> 70368744177664"

lemma kernel_flags:
  "small_present (MAP_READ OR MAP_WRITE OR MAP_WRITE_BACK)" "small_present (MAP_READ OR MAP_WRITE OR MAP_WRITE_COMBINING)"
  "small_present (MAP_WRITE OR MAP_READ OR MAP_EXEC OR MAP_WRITE_BACK)"
  by (simp_all add: small_present_def small_page_def flag_to_page_size_def map_flag_defs)

lemma region_bounds:
  assumes "region_ok e"
  shows "unat (align_down (mm_base e) PAGE_SIZE) = 4096 * (unat (mm_base e) div 4096)"
    "unat (align_up (mm_base e + mm_length e) PAGE_SIZE) = 4096 * ((unat (mm_base e) + unat (mm_length e) + 4095) div 4096)"
    "4096 * (unat (mm_base e) div 4096) + 4096 * region_pages e = 4096 * ((unat (mm_base e) + unat (mm_length e) + 4095) div 4096)"
    "4096 * ((unat (mm_base e) + unat (mm_length e) + 4095) div 4096) \<le> 70368744177664"
proof -
  let ?b = "unat (mm_base e)" and ?l = "unat (mm_length e)"
  have b: "?b + ?l + 4096 \<le> 70368744177664" using assms by (simp add: region_ok_def)
  have u: "unat (mm_base e + mm_length e) = ?b + ?l" using b by (simp add: unat_word_ariths)
  show "unat (align_down (mm_base e) PAGE_SIZE) = 4096 * (?b div 4096)"
    using align_down_pow2(2) [of 12 "mm_base e"] by (simp add: PAGE_SIZE_def)
  show "unat (align_up (mm_base e + mm_length e) PAGE_SIZE) = 4096 * ((?b + ?l + 4095) div 4096)"
    using align_up_pow2 [of 12 "mm_base e + mm_length e"] u b by (simp add: PAGE_SIZE_def)
  have "?b div 4096 \<le> (?b + ?l + 4095) div 4096" by (intro div_le_mono) simp
  then show "4096 * (?b div 4096) + 4096 * region_pages e = 4096 * ((?b + ?l + 4095) div 4096)"
    by (simp add: region_pages_def diff_mult_distrib2)
  show "4096 * ((?b + ?l + 4095) div 4096) \<le> 70368744177664" using b by simp
qed

lemma region_between:
  assumes "region_ok e"
  shows "pages_between (align_down (mm_base e) PAGE_SIZE)
    (align_down (mm_base e) PAGE_SIZE + (align_up (mm_base e + mm_length e) PAGE_SIZE - align_down (mm_base e) PAGE_SIZE)) (region_pages e)"
proof -
  note r = region_bounds [OF assms]
  have "4096 * region_pages e = 4096 * (region_pages e - 1) + 4096" if "region_pages e \<noteq> 0" using that by simp
  then show ?thesis using r unfolding pages_between_def by auto
qed

lemma stage_entry:
  assumes "region_ok e" "vm_inv b r st"
  shows "stage b r (region_entries b e) (region_pages e * depth b) st (map_entry b e st)"
proof (cases "align_up (mm_base e + mm_length e) PAGE_SIZE < FOUR_GiB")
  case True
  then show ?thesis using assms(2) by (simp add: map_entry_def region_entries_def stage_def maps_def Let_def)
next
  case False
  let ?fl = "MAP_READ OR MAP_WRITE OR (if mm_type e = Framebuffer then MAP_WRITE_COMBINING else MAP_WRITE_BACK)"
  let ?base = "align_down (mm_base e) PAGE_SIZE"
  let ?body = "\<lambda>j st. if j < FOUR_GiB then Inr (SYSTEM_OK, st)
    else assert_mapped (map_page b (to_higher_half (hhdm b) j) j ?fl st)"
  let ?W = "\<lambda>k. let j = ?base + of_nat k * PAGE_SIZE in if j < FOUR_GiB then {} else {linear_entry b ?fl j}"
  have f: "small_present ?fl" using kernel_flags by simp
  have body: "stage b r (?W k) (depth b) s (?body (?base + of_nat k * PAGE_SIZE) s)" if "vm_inv b r s" for k s
  proof (cases "?base + of_nat k * PAGE_SIZE < FOUR_GiB")
    case True
    then show ?thesis using that by (simp add: stage_def maps_def)
  next
    case False
    show ?thesis using stage_map [OF that f] unfolding Let_def if_not_P [OF False] linear_entry_def .
  qed
  have ok: "x = SYSTEM_OK" if "?body i s = Inr (x, s')" for i s x s' using that assert_mapped_ok by (auto split: if_splits)
  let ?loop = "for_loop ?body ?base (?base + (align_up (mm_base e + mm_length e) PAGE_SIZE - ?base)) PAGE_SIZE st"
  have loop: "stage b r (\<Union>k < region_pages e. ?W k) (region_pages e * depth b) st ?loop"
    by (rule stage_loop [where body = ?body and W = ?W, OF region_between [OF assms(1)] assms(2)]) (erule body, erule ok)
  have e: "map_entry b e st = vbind ?loop (\<lambda>_ st. Inr ((), st))" using False by (simp add: map_entry_def Let_def)
  have R: "region_entries b e = (\<Union>k < region_pages e. ?W k)" unfolding region_entries_def using False by (rule if_not_P)
  have "stage b r ((\<Union>k < region_pages e. ?W k) \<union> {}) (region_pages e * depth b + 0) st (vbind ?loop (\<lambda>_ st. Inr ((), st)))"
    by (rule stage_bind [OF loop]) (rule stage_skip, erule maps_inv)
  then show ?thesis unfolding e R by (simp only: Un_empty_right add_0_right)
qed

lemma stage_memmap:
  assumes "\<forall>e \<in> set es. region_ok e" "vm_inv b r st"
  shows "stage b r (\<Union>e \<in> set es. region_entries b e) (sum_list (map region_pages es) * depth b) st (map_memmap b es st)"
  using assms
proof (induction es arbitrary: st)
  case (Cons e es)
  have e: "region_ok e" "\<forall>e \<in> set es. region_ok e" using Cons.prems(1) by simp_all
  have "stage b r (region_entries b e \<union> (\<Union>e \<in> set es. region_entries b e))
      (region_pages e * depth b + sum_list (map region_pages es) * depth b) st
      (vbind (map_entry b e st) (\<lambda>_ st. map_memmap b es st))"
    by (rule stage_bind [OF stage_entry [OF e(1) Cons.prems(2)]]) (rule Cons.IH [OF e(2)], erule maps_inv)
  then show ?case by (simp add: add_mult_distrib)
qed (simp add: stage_skip)

lemma stage_low:
  assumes "vm_inv b r st"
  shows "stage b r (low_entries b) (1048576 * depth b) st
    (for_loop (\<lambda>i st. assert_mapped (map_page b (to_higher_half (hhdm b) i) i (MAP_READ OR MAP_WRITE OR MAP_WRITE_BACK) st))
      0 FOUR_GiB PAGE_SIZE st)" (is "stage b r _ _ st (for_loop ?body 0 FOUR_GiB PAGE_SIZE st)")
proof -
  let ?W = "\<lambda>k. {linear_entry b (MAP_READ OR MAP_WRITE OR MAP_WRITE_BACK) (0 + of_nat k * PAGE_SIZE)}"
  have p: "pages_between 0 FOUR_GiB 1048576" by (simp add: pages_between_def FOUR_GiB_def PAGE_SIZE_1GiB_def)
  have "stage b r (\<Union>k < 1048576. ?W k) (1048576 * depth b) st (for_loop ?body 0 FOUR_GiB PAGE_SIZE st)"
  proof (rule stage_loop [where body = ?body and W = ?W, OF p assms])
    show "stage b r (?W k) (depth b) s (?body (0 + of_nat k * PAGE_SIZE) s)" if "vm_inv b r s" for k s
      using stage_map [OF that kernel_flags(1)] unfolding linear_entry_def .
  qed (erule assert_mapped_ok)
  then show ?thesis by (simp add: low_entries_def)
qed

lemma stage_kernel:
  assumes "vm_inv b r st" "pages_between 0 kernel_size n"
  shows "stage b r (kernel_entries b virtual_base physical_base n) (n * depth b) st
    (for_loop (\<lambda>i st. assert_mapped (map_page b (virtual_base + i) (physical_base + i)
      (MAP_WRITE OR MAP_READ OR MAP_EXEC OR MAP_WRITE_BACK) st)) 0 kernel_size PAGE_SIZE st)"
    (is "stage b r _ _ st (for_loop ?body 0 kernel_size PAGE_SIZE st)")
proof -
  let ?W = "\<lambda>k. {(vpage b (virtual_base + (0 + of_nat k * PAGE_SIZE)),
    (physical_base + (0 + of_nat k * PAGE_SIZE)) OR PageMap_parse_flags (MAP_WRITE OR MAP_READ OR MAP_EXEC OR MAP_WRITE_BACK))}"
  have "stage b r (\<Union>k < n. ?W k) (n * depth b) st (for_loop ?body 0 kernel_size PAGE_SIZE st)"
  proof (rule stage_loop [where body = ?body and W = ?W, OF assms(2,1)])
    show "stage b r (?W k) (depth b) s (?body (0 + of_nat k * PAGE_SIZE) s)" if "vm_inv b r s" for k s
      using stage_map [OF that kernel_flags(3)] .
  qed (erule assert_mapped_ok)
  then show ?thesis by (simp add: kernel_entries_def)
qed

lemma maps_load: "maps b r W c st s \<Longrightarrow> maps b r W c st (pagemap_load b' s)"
  by (simp add: maps_def)

lemma stage_initialize:
  assumes "vm_inv b r st" "\<forall>e \<in> set memmaps. region_ok e" "pages_between 0 kernel_size n"
  shows "stage b r (low_entries b \<union> ((\<Union>e \<in> set memmaps. region_entries b e) \<union> (kernel_entries b virtual_base physical_base n \<union> {})))
    (1048576 * depth b + (sum_list (map region_pages memmaps) * depth b + (n * depth b + 0))) st
    (vbind (for_loop (\<lambda>i st. assert_mapped (map_page b (to_higher_half (hhdm b) i) i (MAP_READ OR MAP_WRITE OR MAP_WRITE_BACK) st))
              0 FOUR_GiB PAGE_SIZE st) (\<lambda>_ st.
     vbind (map_memmap b memmaps st) (\<lambda>_ st.
     vbind (for_loop (\<lambda>i st. assert_mapped (map_page b (virtual_base + i) (physical_base + i)
                                (MAP_WRITE OR MAP_READ OR MAP_EXEC OR MAP_WRITE_BACK) st))
              0 kernel_size PAGE_SIZE st) (\<lambda>_ st. Inr ((), pagemap_load b st)))))"
proof (rule stage_bind [OF stage_low [OF assms(1)]])
  fix a s assume "maps b r (low_entries b) (1048576 * depth b) st s"
  note s = maps_inv [OF this]
  show "stage b r ((\<Union>e \<in> set memmaps. region_entries b e) \<union> (kernel_entries b virtual_base physical_base n \<union> {}))
     (sum_list (map region_pages memmaps) * depth b + (n * depth b + 0)) s
     (vbind (map_memmap b memmaps s) (\<lambda>_ st.
      vbind (for_loop (\<lambda>i st. assert_mapped (map_page b (virtual_base + i) (physical_base + i)
                                 (MAP_WRITE OR MAP_READ OR MAP_EXEC OR MAP_WRITE_BACK) st))
               0 kernel_size PAGE_SIZE st) (\<lambda>_ st. Inr ((), pagemap_load b st))))"
  proof (rule stage_bind [OF stage_memmap [OF assms(2) s]])
    fix a s'
    assume "maps b r (\<Union>e \<in> set memmaps. region_entries b e) (sum_list (map region_pages memmaps) * depth b) s s'"
    note s' = maps_inv [OF this]
    show "stage b r (kernel_entries b virtual_base physical_base n \<union> {}) (n * depth b + 0) s'
       (vbind (for_loop (\<lambda>i st. assert_mapped (map_page b (virtual_base + i) (physical_base + i)
                                 (MAP_WRITE OR MAP_READ OR MAP_EXEC OR MAP_WRITE_BACK) st))
               0 kernel_size PAGE_SIZE s') (\<lambda>_ st. Inr ((), pagemap_load b st)))"
      by (rule stage_bind [OF stage_kernel [OF s' assms(3)]]) (intro stage_return maps_load maps_refl, erule maps_inv)
  qed
qed

lemma load_cr3: "vm_inv b r (pagemap_load b st) \<Longrightarrow> cr3 (pagemap_load b st) = from_higher_half (hhdm b) (page_addr (hhdm b) r)"
  by (simp add: vm_inv_def vm_tree_def) (simp add: pagemap_load_def)

lemma initialize_maps:
  assumes "vm_ready b st" "\<forall>e \<in> set memmaps. region_ok e" "pages_between 0 kernel_size n"
  shows "case virtual_initialize b huge memmaps kernel_size virtual_base physical_base st of
      Inl e \<Rightarrow> e = Phys_error Out_of_memory \<and> free_count (vphys st) < 257 + (1048576 + sum_list (map region_pages memmaps) + n) * depth b
    | Inr (_, st') \<Rightarrow> \<exists>r. vm_inv b r st' \<and> cr3 st' = from_higher_half (hhdm b) (page_addr (hhdm b) r) \<and>
        (\<forall>ks. is_page (depth b) ks \<longrightarrow>
          (ks \<notin> fst ` (low_entries b \<union> (\<Union>e \<in> set memmaps. region_entries b e) \<union> kernel_entries b virtual_base physical_base n) \<and>
            vleaf b r st' ks = None) \<or>
          (\<exists>v. (ks, v) \<in> low_entries b \<union> (\<Union>e \<in> set memmaps. region_entries b e) \<union> kernel_entries b virtual_base physical_base n \<and>
            vleaf b r st' ks = Some v))"
proof (cases "pagemap_initialize b huge (top_lvl (this st)) True st")
  case (Inl e)
  then show ?thesis
    using initialize_establishes [OF assms(1), of huge "top_lvl (this st)"] by (simp add: virtual_initialize_def)
next
  case (Inr y)
  let ?W = "low_entries b \<union> (\<Union>e \<in> set memmaps. region_entries b e) \<union> kernel_entries b virtual_base physical_base n"
  obtain s where y: "pagemap_initialize b huge (top_lvl (this st)) True st = Inr ((), s)" using Inr by (cases y) auto
  then obtain r where s: "vm_inv b r s" "\<forall>ks. is_page (depth b) ks \<longrightarrow> vleaf b r s ks = None"
    "free_count (vphys st) \<le> free_count (vphys s) + 257"
    using initialize_establishes [OF assms(1), of huge "top_lvl (this st)"] by auto
  note stg = stage_initialize [OF s(1) assms(2,3), of virtual_base physical_base]
  show ?thesis
  proof (cases "virtual_initialize b huge memmaps kernel_size virtual_base physical_base st")
    case (Inl e)
    then show ?thesis using stg s(3) y by (simp add: virtual_initialize_def stage_def add_mult_distrib)
  next
    case (Inr z)
    then obtain st' where z: "virtual_initialize b huge memmaps kernel_size virtual_base physical_base st = Inr ((), st')" by (cases z) auto
    then have m: "maps b r ?W c' s st'" if "c' = 1048576 * depth b + (sum_list (map region_pages memmaps) * depth b + n * depth b)" for c'
      using stg y that by (simp add: virtual_initialize_def stage_def Un_assoc)
    obtain s' where "st' = pagemap_load b s'"
      using z y by (auto simp: virtual_initialize_def elim!: vbind_Inr)
    then have "cr3 st' = from_higher_half (hhdm b) (page_addr (hhdm b) r)" using load_cr3 maps_inv [OF m [OF refl]] by blast
    moreover have "(ks \<notin> fst ` ?W \<and> vleaf b r st' ks = None) \<or> (\<exists>v. (ks, v) \<in> ?W \<and> vleaf b r st' ks = Some v)"
      if "is_page (depth b) ks" for ks
      using m [OF refl] s(2) that unfolding maps_def by metis
    ultimately show ?thesis using z maps_inv [OF m [OF refl]] by auto
  qed
qed

text \<open>
  C12: \<^verbatim>\<open>virtual_initialize\<close> fails only for lack of memory, when the tables could need more pages than are
  free.  Otherwise it leaves a page map with its invariant, loaded in \<^verbatim>\<open>CR3\<close>, in which exactly these pages
  are mapped: the higher-half pages of the first four gigabytes and of the memory map above them,
  and the pages of the kernel, each with one of the entries written for it.
\<close>

theorem virtual_initialize_maps:
  assumes "vm_ready b st" "\<forall>e \<in> set memmaps. region_ok e" "pages_between 0 kernel_size n"
    "W = low_entries b \<union> (\<Union>e \<in> set memmaps. region_entries b e) \<union> kernel_entries b virtual_base physical_base n"
    "c = 257 + (1048576 + sum_list (map region_pages memmaps) + n) * depth b"
  shows "case virtual_initialize b huge memmaps kernel_size virtual_base physical_base st of
      Inl e \<Rightarrow> e = Phys_error Out_of_memory \<and> free_count (vphys st) < c
    | Inr (_, st') \<Rightarrow> \<exists>r. vm_inv b r st' \<and> cr3 st' = from_higher_half (hhdm b) (page_addr (hhdm b) r) \<and>
        (\<forall>ks. is_page (depth b) ks \<longrightarrow>
          (ks \<notin> fst ` W \<and> vleaf b r st' ks = None) \<or> (\<exists>v. (ks, v) \<in> W \<and> vleaf b r st' ks = Some v))"
  using initialize_maps [OF assms(1-3)] unfolding assms(4,5) .

subsection \<open>The linear mapping\<close>

text \<open>The higher half has room for 64 terabytes.\<close>

definition window :: "boot \<Rightarrow> bool" where
  "window b \<longleftrightarrow> 4096 dvd unat (hhdm b) \<and> 70368744177664 \<le> unat (hhdm b) \<and> unat (hhdm b) + 70368744177664 \<le> 18446744073709551616"

lemma window_address:
  assumes "window b" "unat j < 70368744177664"
  shows "to_higher_half (hhdm b) j = hhdm b + j" "unat (hhdm b + j) = unat (hhdm b) + unat j"
proof -
  have b: "unat j < unat (hhdm b)" "unat j + unat (hhdm b) < 18446744073709551616" using assms unfolding window_def by linarith+
  then show "to_higher_half (hhdm b) j = hhdm b + j"
    using higher_half_inverse(2) [of j "hhdm b"] by (simp add: word_less_nat_alt add.commute)
  show "unat (hhdm b + j) = unat (hhdm b) + unat j" using b(2) by (intro unat_add64) simp
qed

lemma window_page_inj:
  assumes "window b" "unat x < 70368744177664" "unat y < 70368744177664" "vpage b (hhdm b + x) = vpage b (hhdm b + y)"
  shows "unat x div 4096 = unat y div 4096"
proof -
  have h: "4096 dvd unat (hhdm b)" using assms(1) by (simp add: window_def)
  let ?k = "unat (hhdm b) div 4096"
  have "(?k + unat x div 4096) mod 68719476736 = (?k + unat y div 4096) mod 68719476736"
    using vpage_eqD [OF assms(4)] h unfolding window_address(2) [OF assms(1,2)] window_address(2) [OF assms(1,3)]
    by (simp add: div_plus_div_distrib_dvd_left)
  then obtain p q where "?k + unat x div 4096 + 68719476736 * p = ?k + unat y div 4096 + 68719476736 * q"
    by (auto simp: nat_mod_eq_iff)
  then have "(unat x div 4096 + 68719476736 * p) mod 68719476736 = (unat y div 4096 + 68719476736 * q) mod 68719476736" by simp
  then show ?thesis using assms(2,3) by simp
qed

text \<open>The physical pages in the entries of the higher half.\<close>

lemma linear_entries:
  assumes "(ks, v) \<in> low_entries b \<union> (\<Union>e \<in> set memmaps. region_entries b e)" "\<forall>e \<in> set memmaps. region_ok e"
  shows "\<exists>flags j. (ks, v) = linear_entry b flags j \<and> small_present flags \<and> unat j mod 4096 = 0 \<and> unat j < 70368744177664"
  using assms(1)
proof (elim UnE UN_E)
  assume "(ks, v) \<in> low_entries b"
  then obtain k where k: "k < 1048576" "(ks, v) = linear_entry b (MAP_READ OR MAP_WRITE OR MAP_WRITE_BACK) (of_nat k * PAGE_SIZE)"
    by (auto simp: low_entries_def)
  have "unat (of_nat k * PAGE_SIZE :: u64) = 4096 * k" using k(1) by (intro page_ret(1)) simp
  then show ?thesis using k kernel_flags(1) by (intro exI [of _ "MAP_READ OR MAP_WRITE OR MAP_WRITE_BACK"] exI [of _ "of_nat k * PAGE_SIZE"]) simp
next
  fix e
  assume e: "e \<in> set memmaps" "(ks, v) \<in> region_entries b e"
  then have "region_ok e" using assms(2) by blast
  note r = region_bounds [OF this]
  let ?fl = "MAP_READ OR MAP_WRITE OR (if mm_type e = Framebuffer then MAP_WRITE_COMBINING else MAP_WRITE_BACK)"
  obtain k where k: "k < region_pages e" "(ks, v) = linear_entry b ?fl (align_down (mm_base e) PAGE_SIZE + of_nat k * PAGE_SIZE)"
    using e(2) by (auto simp: region_entries_def Let_def split: if_splits)
  have "4096 * k + 4096 \<le> 4096 * region_pages e" using k(1) by simp
  then have "unat (align_down (mm_base e) PAGE_SIZE + of_nat k * PAGE_SIZE) = 4096 * (unat (mm_base e) div 4096) + 4096 * k"
    "4096 * (unat (mm_base e) div 4096) + 4096 * k < 70368744177664"
    using r by (subst unat_step, linarith, simp, linarith)
  moreover have "small_present ?fl" using kernel_flags by simp
  ultimately show ?thesis using k(2) by (intro exI [of _ ?fl] exI [of _ "align_down (mm_base e) PAGE_SIZE + of_nat k * PAGE_SIZE"]) simp
qed

lemma initialize_linear:
  assumes "vm_ready b st" "window b" "\<forall>e \<in> set memmaps. region_ok e" "pages_between 0 kernel_size n"
    "virtual_initialize b huge memmaps kernel_size virtual_base physical_base st = Inr (u, st')" "unat a < 4294967296"
    "vpage b (hhdm b + a) \<notin> fst ` kernel_entries b virtual_base physical_base n"
  shows "\<exists>st''. virtual_to_physical b (to_higher_half (hhdm b) a) 0 st' = Inr (a, st'')"
proof -
  let ?k = "unat a div 4096" and ?L = "low_entries b \<union> (\<Union>e \<in> set memmaps. region_entries b e)"
  let ?p = "of_nat ?k * PAGE_SIZE :: u64"
  have a: "unat a < 70368744177664" using assms(6) by simp
  have k: "?k < 1048576" using assms(6) by simp
  have p: "unat ?p = 4096 * ?k" using k by (intro page_ret(1)) simp
  then have pl: "unat ?p < 70368744177664" using k by simp
  note wa = window_address [OF assms(2) a] and wp = window_address [OF assms(2) pl]
  have h: "4096 dvd unat (hhdm b)" using assms(2) by (simp add: window_def)
  have page: "vpage b (hhdm b + a) = vpage b (hhdm b + ?p)"
    using h by (intro vpage_offset) (simp add: wa wp p div_plus_div_distrib_dvd_left)
  obtain r where r: "vm_inv b r st'" "\<And>ks. is_page (depth b) ks \<Longrightarrow>
      (ks \<notin> fst ` (?L \<union> kernel_entries b virtual_base physical_base n) \<and> vleaf b r st' ks = None) \<or>
      (\<exists>v. (ks, v) \<in> ?L \<union> kernel_entries b virtual_base physical_base n \<and> vleaf b r st' ks = Some v)"
    using initialize_maps [where huge = huge and virtual_base = virtual_base and physical_base = physical_base, OF assms(1,3,4)] assms(5) by auto
  have "fst (linear_entry b (MAP_READ OR MAP_WRITE OR MAP_WRITE_BACK) ?p) \<in> fst ` low_entries b"
    unfolding low_entries_def using k by blast
  then have "vpage b (hhdm b + a) \<in> fst ` low_entries b" by (simp add: linear_entry_def page wp)
  then have low: "vpage b (hhdm b + a) \<in> fst ` (?L \<union> kernel_entries b virtual_base physical_base n)" unfolding image_Un by blast
  obtain v where v': "(vpage b (hhdm b + a), v) \<in> ?L \<union> kernel_entries b virtual_base physical_base n"
    and leaf: "vleaf b r st' (vpage b (hhdm b + a)) = Some v"
    using r(2) [OF vpage_page, of "hhdm b + a"] low by blast
  have "(vpage b (hhdm b + a), v) \<notin> kernel_entries b virtual_base physical_base n"
    using imageI [of _ _ fst] assms(7) by (metis fst_conv)
  then have v: "(vpage b (hhdm b + a), v) \<in> ?L" "vleaf b r st' (vpage b (hhdm b + a)) = Some v" using v' leaf by blast+
  obtain fl j where j: "(vpage b (hhdm b + a), v) = linear_entry b fl j" "small_present fl" "unat j mod 4096 = 0" "unat j < 70368744177664"
    using linear_entries [OF v(1) assms(3)] by (elim exE conjE) (rule that)
  have "unat a div 4096 = unat j div 4096"
    using j(1) window_page_inj [OF assms(2) a j(4)] by (simp add: linear_entry_def window_address [OF assms(2) j(4)])
  then have "unat j = unat ?p" using j(3) p by (metis add_0_right div_mult_mod_eq mult.commute)
  then have jp: "j = ?p" by (simp add: word_unat_eq_iff)
  have f: "page_frame j" using j(3,4) by (intro page_frameI) simp_all
  have "unat ((hhdm b + a) mod PAGE_SIZE) = unat a mod 4096"
    using h by (simp add: unat_mod_distrib PAGE_SIZE_def wa mod_add_eq [symmetric])
  then have "unat (j + (hhdm b + a) mod PAGE_SIZE) = unat a"
    using p assms(6) by (subst unat_add64) (simp_all add: jp)
  then have "j + (hhdm b + a) mod PAGE_SIZE = a" by (rule word_unat_eq_iff [THEN iffD2])
  then have "decode_entry (hhdm b + a) (Some v) = a"
    using decode_encode [OF f, of fl] j(1,2) by (simp add: linear_entry_def encode_entry_def small_present_def)
  moreover have "small_page 0" by (simp add: small_page_def machine_flags)
  ultimately show ?thesis using page_map.translate_law [OF r(1), of 0 "hhdm b + a"] v(2) wa(1) by auto
qed

text \<open>
  Once \<^verbatim>\<open>virtual_initialize\<close> has returned, every address of the first four gigabytes is reachable
  through the higher half: translating its higher-half address gives it back, for all pages that the
  mapping of the kernel has not replaced.
\<close>

theorem virtual_initialize_linear:
  assumes "vm_ready b st" "window b" "\<forall>e \<in> set memmaps. region_ok e" "pages_between 0 kernel_size n"
    "virtual_initialize b huge memmaps kernel_size virtual_base physical_base st = Inr (u, st')" "unat a < 4294967296"
    "vpage b (hhdm b + a) \<notin> fst ` kernel_entries b virtual_base physical_base n"
  shows "\<exists>st''. virtual_to_physical b (to_higher_half (hhdm b) a) 0 st' = Inr (a, st'')"
  by (rule initialize_linear [OF assms])

subsection \<open>After the physical allocator\<close>

text \<open>The globals of the virtual memory manager before its initialization, on top of a physical allocator.\<close>

definition vm_boot :: "phys \<Rightarrow> vm" where
  "vm_boot ph = \<lparr>vphys = ph, this = \<lparr>top_lvl = 0, pm_lock = TicketLock_init\<rparr>, pml3_translation = False, cr3 = 0, msr_pat = 0, flushed = []\<rparr>"

lemma initial_page_0:
  assumes "memmap_ok h es" "e \<in> set es" "mm_type e = Usable" "bitmap_bytes (highest_usable es) \<le> unat (mm_length e)"
    "highest_usable es \<le> 70368744177664" "\<And>x. unat (x - h) < 4096 \<Longrightarrow> m x = 0" "i < 512" "k < 8"
    "\<forall>e \<in> set (take_bitmap (bitmap_bytes (highest_usable es)) es). within (highest_usable es div 4096) e"
  shows "pmem (initial_phys h es e m) (slot h 0 i + of_nat k) = 0"
proof -
  let ?n = "bitmap_bytes (highest_usable es)" and ?x = "slot h 0 i + of_nat k" and ?a = "h + mm_base e"
  note ok = memmap_okD [OF assms(1)] and w = bitmap_words [OF assms(1)]
  have b: "4096 \<le> unat (mm_base e)" "unat (mm_base e) + ?n \<le> highest_usable es"
    using ok(1) assms(2,3,4) highest_usable_ge [OF assms(2,3)] by (auto simp: entry_aligned_def)
  have n: "?n \<le> 70368744177664" using b(2) assms(5) by linarith
  have ua: "unat ?a = unat h + unat (mm_base e)" using b(2) ok(5) w(2) by (intro unat_add64) linarith
  have "?x - h = of_nat (8 * i + k)" by (simp add: slot_def page_addr_def)
  moreover have "unat (of_nat (8 * i + k) :: u64) = 8 * i + k" using assms(7,8) by (intro unat_of_nat64) linarith
  ultimately have o: "unat (?x - h) = 8 * i + k" by (simp only:)
  then have lt: "unat (?x - h) < 4096" using assms(7,8) by linarith
  have ux: "unat ?x = unat h + (8 * i + k)"
    using unat_add64 [of "?x - h" h] o lt b ok(5) by simp
  have "unat (?x - ?a) = unat ?x + 18446744073709551616 - unat ?a"
    unfolding unat_sub64 ua ux using lt o b(1) by simp
  then have far: "8 * ?n \<le> unat (?x - ?a)" unfolding ua ux using n b(2) assms(5) by linarith
  let ?st = "(phys_boot m)\<lparr>phys_stats := (initial_stats es)\<lparr>used_pages := of_nat (?n div 4096)\<rparr>,
    phys_bitmap := \<lparr>buffer = ?a, bsize = of_nat (8 * ?n)\<rparr>, pmem := fill_bytes m ?a 0xFF (8 * ?n)\<rparr>"
  have "\<forall>e \<in> set (take_bitmap ?n es). within (8 * ?n) e" using assms(9) ok(6) by (auto simp: within_def)
  moreover have "?n \<le> unat (?x - buffer (phys_bitmap ?st))" using far by simp
  moreover have "?n < 18446744073709551616" using n by linarith
  ultimately have "pmem (freed (take_bitmap ?n es) ?st) ?x = pmem ?st ?x" by (rule freed_frame)
  then show ?thesis using far assms(6) [OF lt] by (simp add: initial_phys_def Let_def fill_bytes_def not_less)
qed

lemma ready_after_physical:
  assumes "memmap_ok (hhdm b) es" "highest_usable es \<le> 70368744177664" "\<And>x. unat (x - hhdm b) < 4096 \<Longrightarrow> m x = 0"
    "physical_initialize (hhdm b) es (phys_boot m) = Inr (es', ph)"
  shows "vm_ready b (vm_boot ph)"
proof -
  let ?h = "hhdm b" and ?n = "bitmap_bytes (highest_usable es)"
  obtain e where e: "e \<in> set es" "mm_type e = Usable" "?n \<le> unat (mm_length e)" "ph = initial_phys ?h es e m"
    and inv: "phys_inv ?h ph" "page_limit ph = highest_usable es div 4096"
    using initialize_phys_inv [OF assms(1), of m] assms(4) by (elim bexE conjE) simp
  note ok = memmap_okD [OF assms(1)]
  obtain pre x post where x: "es = pre @ x # post" "mm_type x = Usable" "?n \<le> unat (mm_length x)"
    "take_bitmap ?n es = pre @ x\<lparr>mm_length := mm_length x - of_nat ?n, mm_base := mm_base x + of_nat ?n\<rparr> # post"
    using physical_initialize_state [OF assms(1), of m] by blast
  note tb = take_bitmap_facts(3) [OF ok(1,2) within_highest [OF ok(1)] x(1-3) bitmap_words(3) [OF assms(1)] x(4) refl]
  have al: "4096 \<le> unat (mm_base e)" "unat (mm_base e) + unat (mm_length e) \<le> highest_usable es"
    using ok(1) e highest_usable_ge [OF e(1,2)] by (auto simp: entry_aligned_def)
  then have "4096 \<le> highest_usable es" by linarith
  then have pl: "0 < page_limit ph" "page_limit ph \<le> 2 ^ 40" using inv(2) assms(2) by (simp_all add: div_greater_zero_iff)
  have "\<not> bitmap_page ?h ph 0"
    using initial_bitmap_page [OF assms(1) e(1,2) _ _ e(3), of 0 m] pl(1) al(1) inv(2) e(4) by (auto simp: div_greater_zero_iff)
  moreover have "load64 (pmem ph) (slot ?h 0 i) = 0" if "i < 512" for i
  proof -
    have "load64 (pmem ph) (slot ?h 0 i) = load64 (\<lambda>_. 0) (slot ?h 0 i)"
      unfolding e(4) by (rule load64_cong) (rule initial_page_0 [OF assms(1) e(1-3) assms(2,3) that _ tb])
    then show ?thesis by (simp add: load64_def)
  qed
  ultimately show ?thesis
    using inv(1) pl by (simp add: vm_ready_def vm_boot_def null_page_def vm_locked_def is_locked_def TicketLock_init_def)
qed

subsection \<open>A machine with 16 gigabytes\<close>

text \<open>The bitmap of 4194304 pages lies behind the first eight pages; the pages up to its end are in use.\<close>

definition phys_large :: phys where
  "phys_large =
     \<lparr>phys_stats = \<lparr>highest_physical_addr = 0x400000000, lowest_usable_addr = 0x1000, highest_usable_addr = 0x400000000,
        total_pages = 4194304, usable_pages = 4194304, used_pages = 136, free_pages = 4194168\<rparr>,
      phys_bitmap = \<lparr>buffer = 0xFFFF800000008000, bsize = 4194304\<rparr>, phys_lock = TicketLock_init,
      bitmap_last_index = 0, pmem = (\<lambda>x. if unat (x - 0xFFFF800000008000) < 17 then 0xFF else 0)\<rparr>"

definition vm_initial :: vm where
  "vm_initial = \<lparr>vphys = phys_large, this = \<lparr>top_lvl = 0, pm_lock = TicketLock_init\<rparr>,
     pml3_translation = False, cr3 = 0, msr_pat = 0, flushed = []\<rparr>"

lemma large_limit: "page_limit phys_large = 4194304"
  by (simp add: page_limit_def phys_large_def PAGE_SIZE_def)

lemma large_used: "p < 4194304 \<Longrightarrow> used phys_large p \<longleftrightarrow> p < 136"
proof -
  assume p: "p < 4194304"
  have "bit (0xFF :: u8) (p mod 8)" using bit_mask_iff [of 8 "p mod 8", where 'a = u8] by (simp add: mask_eq_exp_minus_1)
  moreover have "p div 8 < 18446744073709551616" using p by linarith
  ultimately show ?thesis by (auto simp: used_def phys_large_def bit_at_def unat_of_nat64 div_less_iff_less_mult)
qed

lemma large_layout: "phys_layout hhdm_example phys_large"
proof -
  have u: "unat hhdm_example = 4096 * 4503565267632128" by (simp add: hhdm_example_def)
  show ?thesis unfolding phys_layout_def large_limit u by (intro conjI dvd_triv_left) (simp_all add: phys_large_def)
qed

lemma large_bitmap_page:
  assumes "p < 4194304" "bitmap_page hhdm_example phys_large p"
  shows "8 \<le> p" "p < 136"
proof -
  obtain x where x: "unat (x - 0xFFFF800000008000) < 524288" "unat (x - page_addr hhdm_example p) < 4096"
    using assms(2) by (auto simp: bitmap_page_def in_bitmap_def phys_large_def)
  have a: "unat (page_addr hhdm_example p) = unat hhdm_example + 4096 * p"
    using unat_page_addr [OF large_layout] assms(1) by (simp add: large_limit)
  let ?y = "x - 0xFFFF800000008000" and ?z = "x - page_addr hhdm_example p"
  have "unat x = unat ?y + 0xFFFF800000008000" using x(1) unat_add64 [of ?y "0xFFFF800000008000"] by simp
  moreover have "unat x = unat ?z + (unat hhdm_example + 4096 * p)"
    using x(2) assms(1) unat_add64 [of ?z "page_addr hhdm_example p"] a by (simp add: hhdm_example_def)
  ultimately have "unat ?y + 0x8000 = unat ?z + 4096 * p" by (simp add: hhdm_example_def)
  then show "8 \<le> p" "p < 136" using x by linarith+
qed

lemma large_free_count: "free_count phys_large = 4194168"
proof -
  have "{p. p < 4194304 \<and> \<not> used phys_large p} = {136 ..< 4194304}" using large_used by auto
  then show ?thesis by (simp add: free_count_def large_limit)
qed

lemma large_ready: "vm_ready boot_machine vm_initial"
proof -
  have "phys_inv hhdm_example phys_large"
  proof (rule phys_invI [OF large_layout])
    show "used phys_large 0" by (simp add: large_used)
    show "used phys_large p" if "p < page_limit phys_large" "bitmap_page hhdm_example phys_large p" for p
      using large_bitmap_page [of p] that by (simp add: large_limit large_used)
    show "free_pages (phys_stats phys_large) = of_nat (free_count phys_large)"
      by (simp add: large_free_count) (simp add: phys_large_def)
  qed (simp_all add: large_limit, simp_all add: phys_large_def is_locked_def TicketLock_init_def)
  moreover have "load64 (pmem phys_large) (slot hhdm_example 0 i) = 0" if i: "i < 512" for i
  proof -
    have "pmem phys_large (slot hhdm_example 0 i + of_nat k) = 0" if k: "k < 8" for k
    proof -
      have "unat (slot hhdm_example 0 i + of_nat k) = unat hhdm_example + 4096 * 0 + 8 * i + k"
        using i k by (intro unat_slot [OF large_layout]) (simp_all add: large_limit)
      then have "unat (slot hhdm_example 0 i + of_nat k) < 0xFFFF800000008000 \<and> 0xFFFF800000000000 \<le> unat (slot hhdm_example 0 i + of_nat k)"
        using i k by (simp add: hhdm_example_def)
      then have "\<not> unat (slot hhdm_example 0 i + of_nat k - 0xFFFF800000008000) < 17"
        by (simp add: unat_sub_if')
      then show ?thesis by (simp add: phys_large_def)
    qed
    then have "load64 (pmem phys_large) (slot hhdm_example 0 i) = load64 (\<lambda>_. 0) (slot hhdm_example 0 i)" by (intro load64_cong)
    then show ?thesis by (simp add: load64_def)
  qed
  ultimately show ?thesis
    using large_bitmap_page [of 0]
    by (auto simp: vm_ready_def boot_machine_def vm_initial_def large_limit null_page_def vm_locked_def is_locked_def TicketLock_init_def)
qed

theorem pagemap_initialize_establishes_witness:
  "\<exists>st' r. pagemap_initialize boot_machine True 0 True vm_initial = Inr ((), st') \<and> vm_inv boot_machine r st' \<and> msr_pat st' = DEFAULT_PAT"
proof -
  have "free_count (vphys vm_initial) = 4194168" by (simp add: vm_initial_def large_free_count)
  then show ?thesis using pagemap_initialize_establishes [OF large_ready, of True 0] by (auto split: sum.splits)
qed

definition memmap_large :: "memmap_entry list" where
  "memmap_large = [\<lparr>mm_base = 0x1000, mm_length = 0x9F000, mm_type = Usable\<rparr>, \<lparr>mm_base = 0x100000000, mm_length = 0x40000000, mm_type = Usable\<rparr>]"

lemma memmap_large_facts: "\<forall>e \<in> set memmap_large. region_ok e" "sum_list (map region_pages memmap_large) = 262303"
  by (simp_all add: memmap_large_def region_ok_def region_pages_def)

lemma large_kernel: "pages_between 0 0x10000 16"
  by (simp add: pages_between_def)

theorem virtual_initialize_maps_witness:
  "\<exists>st' r v. virtual_initialize boot_machine True memmap_large 0x10000 0xFFFFFFFF80000000 0x200000 vm_initial = Inr ((), st') \<and>
     vm_inv boot_machine r st' \<and> vleaf boot_machine r st' (vpage boot_machine 0xFFFFFFFF80001000) = Some v"
proof -
  let ?W = "low_entries boot_machine \<union> (\<Union>e \<in> set memmap_large. region_entries boot_machine e) \<union>
    kernel_entries boot_machine 0xFFFFFFFF80000000 0x200000 16"
  have d: "depth boot_machine = 3" "free_count (vphys vm_initial) = 4194168"
    by (simp_all add: boot_machine_def depth_def vm_initial_def large_free_count)
  obtain st' r where st': "virtual_initialize boot_machine True memmap_large 0x10000 0xFFFFFFFF80000000 0x200000 vm_initial = Inr ((), st')"
    "vm_inv boot_machine r st'" "\<And>ks. is_page 3 ks \<Longrightarrow>
      (ks \<notin> fst ` ?W \<and> vleaf boot_machine r st' ks = None) \<or> (\<exists>v. (ks, v) \<in> ?W \<and> vleaf boot_machine r st' ks = Some v)"
    using virtual_initialize_maps [where huge = True and virtual_base = "0xFFFFFFFF80000000" and physical_base = "0x200000",
        OF large_ready memmap_large_facts(1) large_kernel refl refl] d memmap_large_facts(2)
    by (auto split: sum.splits)
  have "vpage boot_machine 0xFFFFFFFF80001000 = vpage boot_machine (0xFFFFFFFF80000000 + of_nat 1 * PAGE_SIZE)" by (simp add: PAGE_SIZE_def)
  then have "vpage boot_machine 0xFFFFFFFF80001000 \<in> fst ` kernel_entries boot_machine 0xFFFFFFFF80000000 0x200000 16"
    unfolding kernel_entries_def by (force intro!: image_eqI bexI [of _ 1])
  then have "vpage boot_machine 0xFFFFFFFF80001000 \<in> fst ` ?W" unfolding image_Un by blast
  moreover have "is_page 3 (vpage boot_machine 0xFFFFFFFF80001000)" using vpage_page [of boot_machine] d by simp
  ultimately show ?thesis using st' by blast
qed

lemma kernel_entries_far:
  "vpage boot_machine (hhdm_example + 0x1234567) \<notin> fst ` kernel_entries boot_machine 0xFFFFFFFF80000000 0x200000 16"
proof
    assume "vpage boot_machine (hhdm_example + 0x1234567) \<in> fst ` kernel_entries boot_machine 0xFFFFFFFF80000000 0x200000 16"
    then obtain k where k: "k < 16" "vpage boot_machine (hhdm_example + 0x1234567) = vpage boot_machine (0xFFFFFFFF80000000 + of_nat k * PAGE_SIZE)"
      by (auto simp: kernel_entries_def)
    have "unat (0xFFFFFFFF80000000 + of_nat k * PAGE_SIZE :: u64) = 0xFFFFFFFF80000000 + 4096 * k"
      using unat_step [of "0xFFFFFFFF80000000" k] k(1) by simp
    from vpage_eqD [OF k(2)] this have "(4503599626846208 + k) mod 68719476736 = 34359743028" by (simp add: hhdm_example_def)
    moreover have "4503599626846208 + k = 68718952448 + k + 65535 * 68719476736" by simp
    then have "(4503599626846208 + k) mod 68719476736 = 68718952448 + k" using k(1) by (simp only: mod_mult_self1) simp
    ultimately show False by simp
qed

theorem virtual_initialize_linear_witness:
  "\<exists>st' st''. virtual_initialize boot_machine True memmap_large 0x10000 0xFFFFFFFF80000000 0x200000 vm_initial = Inr ((), st') \<and>
     virtual_to_physical boot_machine (to_higher_half hhdm_example 0x1234567) 0 st' = Inr (0x1234567, st'')"
proof -
  have d: "depth boot_machine = 3" "free_count (vphys vm_initial) = 4194168" "hhdm boot_machine = hhdm_example"
    by (simp_all add: boot_machine_def depth_def vm_initial_def large_free_count)
  obtain st' where st': "virtual_initialize boot_machine True memmap_large 0x10000 0xFFFFFFFF80000000 0x200000 vm_initial = Inr ((), st')"
    using initialize_maps [where huge = True and virtual_base = "0xFFFFFFFF80000000" and physical_base = "0x200000",
        OF large_ready memmap_large_facts(1) large_kernel] d memmap_large_facts(2)
    by (auto split: sum.splits)
  have w: "window boot_machine" by (simp add: window_def d hhdm_example_def)
  note k = kernel_entries_far [folded d(3)]
  show ?thesis
    using virtual_initialize_linear [OF large_ready w memmap_large_facts(1) large_kernel st' _ k] st' by (simp add: d)
qed

end
