(* ===== verification/Buddy_Bits.thy ===== *)
theory Buddy_Bits
  imports Prelude
begin

text \<open>
  The arithmetic at the end of \<^verbatim>\<open>kernel/memory/buddy_alloc.h\<close> (the sections on bits and on
  mathematics): population count by table, highest set bit, powers of two and the integer square
  root, all on 64-bit \<^verbatim>\<open>size_t\<close>.
\<close>

subsection \<open>Definitions\<close>

definition popcount_lookup :: "u8 list" where
  "popcount_lookup =
     [0, 1, 1, 2, 1, 2, 2, 3, 1, 2, 2, 3, 2, 3, 3, 4, 1, 2, 2, 3, 2, 3, 3, 4, 2, 3, 3, 4, 3,
      4, 4, 5, 1, 2, 2, 3, 2, 3, 3, 4, 2, 3, 3, 4, 3, 4, 4, 5, 2, 3, 3, 4, 3, 4, 4, 5, 3, 4,
      4, 5, 4, 5, 5, 6, 1, 2, 2, 3, 2, 3, 3, 4, 2, 3, 3, 4, 3, 4, 4, 5, 2, 3, 3, 4, 3, 4, 4,
      5, 3, 4, 4, 5, 4, 5, 5, 6, 2, 3, 3, 4, 3, 4, 4, 5, 3, 4, 4, 5, 4, 5, 5, 6, 3, 4, 4, 5,
      4, 5, 5, 6, 4, 5, 5, 6, 5, 6, 6, 7, 1, 2, 2, 3, 2, 3, 3, 4, 2, 3, 3, 4, 3, 4, 4, 5, 2,
      3, 3, 4, 3, 4, 4, 5, 3, 4, 4, 5, 4, 5, 5, 6, 2, 3, 3, 4, 3, 4, 4, 5, 3, 4, 4, 5, 4, 5,
      5, 6, 3, 4, 4, 5, 4, 5, 5, 6, 4, 5, 5, 6, 5, 6, 6, 7, 2, 3, 3, 4, 3, 4, 4, 5, 3, 4, 4,
      5, 4, 5, 5, 6, 3, 4, 4, 5, 4, 5, 5, 6, 4, 5, 5, 6, 5, 6, 6, 7, 3, 4, 4, 5, 4, 5, 5, 6,
      4, 5, 5, 6, 5, 6, 6, 7, 4, 5, 5, 6, 5, 6, 6, 7, 5, 6, 6, 7, 6, 7, 7, 8]"

definition popcount_byte :: "u8 \<Rightarrow> u64" where
  "popcount_byte b = ucast (popcount_lookup ! unat b)"

definition highest_bit_position :: "u64 \<Rightarrow> u64" where
  "highest_bit_position value =
     (let all_set = [4294967295, 65535, 255, 15, 7, 3, 1];
          count = [32, 16, 8, 4, 2, 1, 1];
          (result, value) =
            fold (\<lambda>(s, c) (result, value). if value \<ge> s then (result + of_nat c, drop_bit c value) else (result, value))
              (zip all_set count) (0, value)
      in result + value)"

definition two_to_the_power_of :: "u64 \<Rightarrow> u64" where
  "two_to_the_power_of order = push_bit (unat order) 1"

definition ceiling_power_of_two :: "u64 \<Rightarrow> u64" where
  "ceiling_power_of_two value =
     (let value = value + of_bool (value = 0)
      in two_to_the_power_of (highest_bit_position (value + value - 1) - 1))"

text \<open>The two loops of \<^verbatim>\<open>integer_square_root\<close>: finding the cursor, then the digits.\<close>

lemma drop_bit_2_less: "(c :: u64) \<noteq> 0 \<Longrightarrow> unat (drop_bit 2 c) < unat c"
  by (simp add: drop_bit_eq_div unat_div_distrib unat_gt_0)

function isqrt_cursor :: "u64 \<Rightarrow> u64 \<Rightarrow> u64" where
  "isqrt_cursor op cursor = (if cursor > op then isqrt_cursor op (drop_bit 2 cursor) else cursor)"
  by pat_completeness auto
termination
  by (relation "measure (\<lambda>(op, cursor). unat cursor)") (auto intro!: drop_bit_2_less)

function isqrt_digits :: "u64 \<Rightarrow> u64 \<Rightarrow> u64 \<Rightarrow> u64" where
  "isqrt_digits op result cursor =
     (if cursor \<noteq> 0
      then if op \<ge> result + cursor
           then isqrt_digits (op - (result + cursor)) (drop_bit 1 (result + 2 * cursor)) (drop_bit 2 cursor)
           else isqrt_digits op (drop_bit 1 result) (drop_bit 2 cursor)
      else result)"
  by pat_completeness auto
termination
  by (relation "measure (\<lambda>(op, result, cursor). unat cursor)") (auto intro!: drop_bit_2_less)

declare isqrt_cursor.simps [simp del] isqrt_digits.simps [simp del]

definition integer_square_root :: "u64 \<Rightarrow> u64" where
  "integer_square_root op =
     (let cursor = drop_bit 1 (0xFFFFFFFFFFFFFFFF - drop_bit 1 0xFFFFFFFFFFFFFFFF)
      in isqrt_digits op 0 (isqrt_cursor op cursor))"

definition is_valid_alignment :: "u64 \<Rightarrow> bool" where
  "is_valid_alignment alignment \<longleftrightarrow> ceiling_power_of_two alignment = alignment"

subsection \<open>Number of binary digits\<close>

fun blen :: "nat \<Rightarrow> nat" where
  "blen n = (if n = 0 then 0 else Suc (blen (n div 2)))"

declare blen.simps [simp del]

lemma blen_0 [simp]: "blen 0 = 0"
  by (simp add: blen.simps)

lemma blen_pos: "0 < n \<Longrightarrow> blen n = Suc (blen (n div 2))"
  by (subst blen.simps) simp

lemma blen_1 [simp]: "blen (Suc 0) = 1"
  by (simp add: blen_pos)

lemma blen_double [simp]: "0 < n \<Longrightarrow> blen (2 * n) = Suc (blen n)" "0 < n \<Longrightarrow> blen (Suc (2 * n)) = Suc (blen n)"
  by (simp_all add: blen_pos)

lemma blen_gt_0: "0 < blen n \<longleftrightarrow> 0 < n"
  by (cases "n = 0") (simp_all add: blen_pos)

lemma blen_upper: "n < 2 ^ blen n"
proof (induction n rule: blen.induct)
  case (1 n)
  show ?case
  proof (cases "n = 0")
    case False
    then have "n div 2 < 2 ^ blen (n div 2)" using 1 by blast
    then show ?thesis using False by (simp add: blen_pos)
  qed simp
qed

lemma blen_lower: "0 < n \<Longrightarrow> 2 ^ (blen n - 1) \<le> n"
proof (induction n rule: blen.induct)
  case (1 n)
  show ?case
  proof (cases "n div 2 = 0")
    case True
    then show ?thesis using 1 by (simp add: blen_pos)
  next
    case False
    then have h: "2 ^ (blen (n div 2) - 1) \<le> n div 2" using 1 by simp
    have "0 < blen (n div 2)" using False by (simp add: blen_gt_0)
    then have "(2 :: nat) ^ blen (n div 2) = 2 * 2 ^ (blen (n div 2) - 1)" by (simp add: power_eq_if)
    then have "2 ^ blen (n div 2) \<le> n" using h by linarith
    then show ?thesis unfolding blen_pos [OF 1(2)] by simp
  qed
qed

lemma blen_unique:
  assumes "2 ^ k \<le> n" "n < 2 ^ Suc k"
  shows "blen n = Suc k"
proof -
  have n: "0 < n" using assms(1) by (rule less_le_trans [rotated]) simp
  have "2 ^ k < (2 :: nat) ^ blen n" "(2 :: nat) ^ (blen n - 1) < 2 ^ Suc k"
    using assms blen_upper [of n] blen_lower [OF n] by linarith+
  then have "k < blen n" "blen n - 1 < Suc k" by (simp_all del: power_Suc)
  then show ?thesis by linarith
qed

lemma blen_less: "n < 2 ^ k \<longleftrightarrow> blen n \<le> k"
proof
  assume "n < 2 ^ k"
  show "blen n \<le> k"
  proof (cases "n = 0")
    case False
    then have "(2 :: nat) ^ (blen n - 1) < 2 ^ k" using \<open>n < 2 ^ k\<close> blen_lower [of n] by linarith
    then show ?thesis by (simp add: power_strict_increasing_iff)
  qed simp
next
  assume "blen n \<le> k"
  then have "(2 :: nat) ^ blen n \<le> 2 ^ k" by (rule power_increasing) simp
  then show "n < 2 ^ k" using blen_upper [of n] by linarith
qed

lemma blen_pow2 [simp]: "blen (2 ^ k) = Suc k"
  by (rule blen_unique) simp_all

lemma blen_div_pow2: "blen (n div 2 ^ c) = blen n - c"
proof (induction c arbitrary: n)
  case (Suc c)
  have "n div 2 ^ Suc c = n div 2 div 2 ^ c" by (simp add: div_mult2_eq)
  then show ?case using Suc [of "n div 2"] by (cases "n = 0") (simp_all add: blen_pos)
qed simp

lemma blen_mono: "m \<le> n \<Longrightarrow> blen m \<le> blen n"
  using blen_less [of m "blen n"] blen_upper [of n] by simp

subsection \<open>The highest bit\<close>

lemma unat_drop: "unat (drop_bit c (v :: u64)) = unat v div 2 ^ c"
  by (simp add: unat_drop_bit_eq flip: drop_bit_eq_div)

lemma highest_step:
  assumes "2 ^ c - 1 \<le> unat v" "c < 64"
  shows "blen (unat (drop_bit c v :: u64)) + c = blen (unat v)"
proof -
  have "c \<le> blen (unat v)"
  proof (cases "c = 0")
    case False
    then have "(2 :: nat) ^ c = 2 * 2 ^ (c - 1)" by (simp add: power_eq_if)
    moreover have "0 < (2 :: nat) ^ (c - 1)" by simp
    ultimately have "2 ^ (c - 1) \<le> unat v" using assms(1) by linarith
    then have "\<not> blen (unat v) \<le> c - 1" using blen_less [of "unat v" "c - 1"] by linarith
    then show ?thesis by linarith
  qed simp
  then show ?thesis by (simp add: unat_drop blen_div_pow2)
qed

lemma highest_fold:
  assumes "s = 2 ^ k - 1" "c \<le> k" "k < 64" "unat v \<le> u" "unat r + blen (unat v) = b" "b \<le> 64"
    "(r', v') = (if v \<ge> of_nat s then (r + of_nat c :: u64, drop_bit c v) else (r, v :: u64))"
  shows "unat v' \<le> max (s - 1) (u div 2 ^ c)" "unat r' + blen (unat v') = b"
proof -
  have "(2 :: nat) ^ k < 2 ^ 64" using assms(3) by (rule power_strict_increasing) simp
  then have us: "unat (of_nat s :: u64) = s" using assms(1) by (intro unat_of_nat64) simp
  have "(2 :: nat) ^ c \<le> 2 ^ k" using assms(2) by (rule power_increasing) simp
  then have h: "blen (unat (drop_bit c v)) + c = blen (unat v)" if "s \<le> unat v"
    using that assms(1,2,3) by (intro highest_step) linarith+
  have d: "unat (drop_bit c v) \<le> u div 2 ^ c"
    using div_le_mono [OF assms(4), of "2 ^ c"] by (simp add: unat_drop)
  show "unat v' \<le> max (s - 1) (u div 2 ^ c)"
    using assms(7) d by (auto simp: word_le_nat_alt us split: if_splits)
  show "unat r' + blen (unat v') = b"
  proof (cases "s \<le> unat v")
    case True
    have "unat (of_nat c :: u64) = c" using assms(2,3) by (intro unat_of_nat64) linarith
    then have "unat (r + of_nat c) = unat r + c" using h [OF True] assms(5,6) unat_add64 [of r "of_nat c"] by linarith
    then show ?thesis using True assms(5,7) h [OF True] by (simp add: word_le_nat_alt us)
  next
    case False
    then show ?thesis using assms(5,7) by (simp add: word_le_nat_alt us)
  qed
qed

lemma unat_highest_bit_position: "unat (highest_bit_position v) = blen (unat v)"
proof -
  let ?st = "\<lambda>(s, c) (r :: u64, v). if v \<ge> s then (r + of_nat c, drop_bit c v) else (r, v :: u64)"
  have b: "blen (unat v) \<le> 64" using unat_lt64 [of v] blen_less [of "unat v" 64] by simp
  note st = highest_fold [OF refl _ _ _ _ b]
  obtain r1 v1 where e1: "?st (of_nat (2 ^ 32 - 1), 32) (0, v) = (r1, v1)" by (rule prod.exhaust)
  have 1: "unat v1 \<le> 4294967295" "unat r1 + blen (unat v1) = blen (unat v)"
    using st [OF _ _ _ _ e1 [symmetric, unfolded split], of 18446744073709551615] unat_lt64 [of v] by simp_all
  obtain r2 v2 where e2: "?st (of_nat (2 ^ 16 - 1), 16) (r1, v1) = (r2, v2)" by (rule prod.exhaust)
  have 2: "unat v2 \<le> 65535" "unat r2 + blen (unat v2) = blen (unat v)"
    using st [OF _ _ 1 e2 [symmetric, unfolded split]] by simp_all
  obtain r3 v3 where e3: "?st (of_nat (2 ^ 8 - 1), 8) (r2, v2) = (r3, v3)" by (rule prod.exhaust)
  have 3: "unat v3 \<le> 255" "unat r3 + blen (unat v3) = blen (unat v)"
    using st [OF _ _ 2 e3 [symmetric, unfolded split]] by simp_all
  obtain r4 v4 where e4: "?st (of_nat (2 ^ 4 - 1), 4) (r3, v3) = (r4, v4)" by (rule prod.exhaust)
  have 4: "unat v4 \<le> 15" "unat r4 + blen (unat v4) = blen (unat v)"
    using st [OF _ _ 3 e4 [symmetric, unfolded split]] by simp_all
  obtain r5 v5 where e5: "?st (of_nat (2 ^ 3 - 1), 2) (r4, v4) = (r5, v5)" by (rule prod.exhaust)
  have 5: "unat v5 \<le> 6" "unat r5 + blen (unat v5) = blen (unat v)"
    using st [OF _ _ 4 e5 [symmetric, unfolded split]] by simp_all
  obtain r6 v6 where e6: "?st (of_nat (2 ^ 2 - 1), 1) (r5, v5) = (r6, v6)" by (rule prod.exhaust)
  have 6: "unat v6 \<le> 3" "unat r6 + blen (unat v6) = blen (unat v)"
    using st [OF _ _ 5 e6 [symmetric, unfolded split]] by simp_all
  obtain r7 v7 where e7: "?st (of_nat (2 ^ 1 - 1), 1) (r6, v6) = (r7, v7)" by (rule prod.exhaust)
  have 7: "unat v7 \<le> 1" "unat r7 + blen (unat v7) = blen (unat v)"
    using st [OF _ _ 6 e7 [symmetric, unfolded split]] by simp_all
  have "highest_bit_position v = r7 + v7"
    unfolding highest_bit_position_def Let_def using e1 e2 e3 e4 e5 e6 e7 by simp
  moreover have "unat v7 = blen (unat v7)" using 7(1) by (cases "unat v7") auto
  ultimately show ?thesis using 7(2) b by (simp add: unat_add64)
qed


lemma unat_two_to_the_power_of: "unat order < 64 \<Longrightarrow> unat (two_to_the_power_of order) = 2 ^ unat order"
  using unat_pow2 [of "unat order"] by (simp add: two_to_the_power_of_def push_bit_eq_mult)

subsection \<open>Rounding up to a power of two\<close>

text \<open>The exponent of the smallest power of two that is not below \<open>n\<close>.\<close>

definition clog :: "nat \<Rightarrow> nat" where
  "clog n = blen (n - 1)"

lemma clog_upper: "n \<le> 2 ^ clog n"
  using blen_upper [of "n - 1"] unfolding clog_def by linarith

lemma clog_least: "n \<le> 2 ^ k \<Longrightarrow> clog n \<le> k"
proof -
  assume "n \<le> 2 ^ k"
  moreover have "0 < (2 :: nat) ^ k" by simp
  ultimately have "n - 1 < 2 ^ k" by linarith
  then show ?thesis by (simp add: clog_def blen_less)
qed

lemma clog_pow2 [simp]: "clog (2 ^ k) = k"
proof (rule le_antisym)
  have "(2 :: nat) ^ k \<le> 2 ^ clog (2 ^ k)" by (rule clog_upper)
  then show "k \<le> clog (2 ^ k)" by simp
qed (simp add: clog_least)

lemma unat_ceiling_power_of_two:
  assumes "unat v \<le> 9223372036854775808"
  shows "unat (ceiling_power_of_two v) = 2 ^ clog (unat v)"
proof -
  define w where "w = v + of_bool (v = 0)"
  have w: "0 < unat w" "unat w \<le> 9223372036854775808" "clog (unat w) = clog (unat v)"
    using assms by (simp_all add: w_def unat_gt_0 clog_def)
  have ww: "w + w - 1 = w + (w - 1)" by simp
  have w1: "unat (w - 1) = unat w - 1" using w(1) by (simp add: unat_sub64)
  then have u: "unat (w + (w - 1)) = unat w + (unat w - 1)" using w unat_add64 [of w "w - 1"] by linarith
  have b: "blen (unat w + (unat w - 1)) = Suc (clog (unat w))"
  proof -
    have "unat w + (unat w - 1) = Suc (2 * (unat w - 1))" using w(1) by linarith
    then show ?thesis by (cases "unat w - 1 = 0") (simp_all add: clog_def)
  qed
  have c: "clog (unat w) \<le> 63" using w(2) by (intro clog_least) simp
  then have "unat (highest_bit_position (w + w - 1) - 1) = clog (unat w)"
    unfolding ww unat_sub64 unat_highest_bit_position u b by simp
  then show ?thesis
    using c w(3) unfolding ceiling_power_of_two_def Let_def w_def [symmetric] by (simp add: unat_two_to_the_power_of)
qed

lemma valid_alignment_iff:
  assumes "unat v \<le> 9223372036854775808"
  shows "is_valid_alignment v \<longleftrightarrow> (\<exists>k. unat v = 2 ^ k)"
proof -
  have "is_valid_alignment v \<longleftrightarrow> unat v = 2 ^ clog (unat v)"
    unfolding is_valid_alignment_def word_unat_eq_iff unat_ceiling_power_of_two [OF assms] by auto
  then show ?thesis by (metis clog_pow2)
qed

subsection \<open>Integer square root\<close>

lemma unat_pow4: "k \<le> 31 \<Longrightarrow> unat (of_nat (4 ^ k) :: u64) = 4 ^ k" "k \<le> 31 \<Longrightarrow> (4 :: nat) ^ k < 18446744073709551616"
proof -
  assume "k \<le> 31"
  then have "(4 :: nat) ^ k \<le> 4 ^ 31" by (rule power_increasing) simp
  then show "(4 :: nat) ^ k < 18446744073709551616" by simp
  then show "unat (of_nat (4 ^ k) :: u64) = 4 ^ k" by (rule unat_of_nat64)
qed

lemma drop_2_pow4:
  assumes "Suc k \<le> 31"
  shows "drop_bit 2 (of_nat (4 ^ Suc k) :: u64) = of_nat (4 ^ k)"
proof -
  have "unat (drop_bit 2 (of_nat (4 ^ Suc k) :: u64)) = 4 ^ Suc k div 4"
    unfolding unat_drop unat_pow4(1) [OF assms] by simp
  also have "\<dots> = unat (of_nat (4 ^ k) :: u64)" using assms by (simp add: unat_pow4(1) del: of_nat_power)
  finally show ?thesis by (simp only: word_unat_eq_iff)
qed

lemma isqrt_cursor_power:
  assumes "k \<le> 31" "unat op < 4 ^ Suc k"
  shows "op = 0 \<and> isqrt_cursor op (of_nat (4 ^ k)) = 0 \<or>
    (\<exists>j \<le> k. isqrt_cursor op (of_nat (4 ^ k)) = of_nat (4 ^ j) \<and> unat op < 4 ^ Suc j)"
  using assms
proof (induction k)
  case 0
  have "isqrt_cursor 0 1 = 0" by (subst isqrt_cursor.simps, subst isqrt_cursor.simps) simp
  moreover have "op \<noteq> 0 \<Longrightarrow> isqrt_cursor op 1 = 1"
    by (subst isqrt_cursor.simps) (simp add: word_less_nat_alt unat_eq_0)
  ultimately show ?case using 0 by auto
next
  case (Suc k)
  show ?case
  proof (cases "4 ^ Suc k \<le> unat op")
    case True
    then have "isqrt_cursor op (of_nat (4 ^ Suc k)) = of_nat (4 ^ Suc k)"
      using Suc(2) by (subst isqrt_cursor.simps) (simp add: word_less_nat_alt unat_pow4(1) del: of_nat_power power_Suc)
    then show ?thesis using Suc(3) by blast
  next
    case False
    then have "isqrt_cursor op (of_nat (4 ^ Suc k)) = isqrt_cursor op (of_nat (4 ^ k))"
      using Suc(2) by (subst isqrt_cursor.simps) (simp add: word_less_nat_alt unat_pow4(1) drop_2_pow4 del: of_nat_power power_Suc)
    then show ?thesis using Suc False by (metis Suc_leD le_SucI not_le)
  qed
qed

lemma square_bound: "(r :: nat) * r < 18446744073709551616 \<Longrightarrow> r < 4294967296"
  using mult_le_mono [of 4294967296 r 4294967296 r] by linarith

text \<open>One round of the digit loop: the root so far is \<open>r\<close>, the next digit has the weight \<open>p\<close>.\<close>

lemma isqrt_round:
  assumes "k \<le> 31" "p = 2 ^ k" "unat result = r * (2 * p)" "unat op + r * r = n" "n < 18446744073709551616" "k = 31 \<longrightarrow> r = 0"
  shows "(r + p) * (r + p) \<le> n \<Longrightarrow> isqrt_digits op result (of_nat (4 ^ k)) =
      isqrt_digits (of_nat (n - (r + p) * (r + p))) (of_nat ((r + p) * p)) (drop_bit 2 (of_nat (4 ^ k)))"
    "n < (r + p) * (r + p) \<Longrightarrow> isqrt_digits op result (of_nat (4 ^ k)) =
      isqrt_digits (of_nat (n - r * r)) (of_nat (r * p)) (drop_bit 2 (of_nat (4 ^ k)))"
proof -
  let ?c = "of_nat (4 ^ k) :: u64"
  have r: "r < 4294967296" using assms(4,5) by (intro square_bound) linarith
  have pp: "(4 :: nat) ^ k = p * p" using power_mult_distrib [of "2 :: nat" 2 k] by (simp add: assms(2))
  have c: "unat ?c = p * p" using unat_pow4(1) [OF assms(1)] pp by simp
  have b: "r * (2 * p) + 2 * (p * p) < 18446744073709551616"
  proof (cases "k = 31")
    case True
    then show ?thesis using assms(2,6) by simp
  next
    case False
    then have "(2 :: nat) ^ k \<le> 2 ^ 30" using assms(1) by (intro power_increasing) linarith+
    then have "p \<le> 1073741824" using assms(2) by simp
    then have "r * (2 * p) \<le> 4294967296 * (2 * 1073741824)" "p * p \<le> 1073741824 * 1073741824"
      using r by (intro mult_le_mono; linarith)+
    then show ?thesis by linarith
  qed
  have s1: "unat (result + ?c) = r * (2 * p) + p * p" using b c assms(3) unat_add64 [of result ?c] by linarith
  have sq: "(r + p) * (r + p) = r * r + r * (2 * p) + p * p" by algebra
  have nz: "?c \<noteq> 0" using c assms(2) by (metis mult_eq_0_iff power_not_zero unat_0 zero_neq_numeral)
  have opn: "op = of_nat (n - r * r)" using assms(4) by (metis add_diff_cancel_right' u64_of_nat_unat)
  {
    assume le: "(r + p) * (r + p) \<le> n"
    then have ge: "result + ?c \<le> op" unfolding word_le_nat_alt s1 using assms(4) sq by linarith
    have s2: "unat (result + 2 * ?c) = r * (2 * p) + 2 * (p * p)"
    proof -
      have "result + 2 * ?c = (result + ?c) + ?c" by simp
      moreover have "unat ((result + ?c) + ?c) = r * (2 * p) + 2 * (p * p)"
        using b c s1 unat_add64 [of "result + ?c" ?c] by linarith
      ultimately show ?thesis by (simp only:)
    qed
    have "unat (drop_bit 1 (result + 2 * ?c)) = (r + p) * p"
    proof -
      have "r * (2 * p) + 2 * (p * p) = 2 * ((r + p) * p)" by algebra
      then show ?thesis unfolding unat_drop s2 by simp
    qed
    moreover have "unat (op - (result + ?c)) = n - (r + p) * (r + p)"
      using ge unfolding word_le_nat_alt unat_sub64 s1 using assms(4) sq by simp
    ultimately have "drop_bit 1 (result + 2 * ?c) = of_nat ((r + p) * p)" "op - (result + ?c) = of_nat (n - (r + p) * (r + p))"
      by (metis u64_of_nat_unat)+
    then show "isqrt_digits op result ?c = isqrt_digits (of_nat (n - (r + p) * (r + p))) (of_nat ((r + p) * p)) (drop_bit 2 ?c)"
      using nz ge by (subst isqrt_digits.simps) (simp only: if_True not_False_eq_True)
  next
    assume "n < (r + p) * (r + p)"
    then have ge: "\<not> result + ?c \<le> op" unfolding word_le_nat_alt s1 using assms(4) sq by linarith
    have "unat (drop_bit 1 result) = r * p" unfolding unat_drop assms(3) by simp
    then have "drop_bit 1 result = of_nat (r * p)" by (metis u64_of_nat_unat)
    then show "isqrt_digits op result ?c = isqrt_digits (of_nat (n - r * r)) (of_nat (r * p)) (drop_bit 2 ?c)"
      using nz ge opn by (subst isqrt_digits.simps) (simp only: if_True if_False not_False_eq_True)
  }
qed

lemma isqrt_digits_root:
  assumes "k \<le> 31" "unat result = r * (2 * 2 ^ k)" "unat op + r * r = n" "n < (r + 2 * 2 ^ k) * (r + 2 * 2 ^ k)"
    "n < 18446744073709551616" "k = 31 \<longrightarrow> r = 0"
  shows "\<exists>s. unat (isqrt_digits op result (of_nat (4 ^ k))) = s \<and> s * s \<le> n \<and> n < Suc s * Suc s"
  using assms
proof (induction k arbitrary: op result r)
  case 0
  have z: "isqrt_digits x y (drop_bit 2 (of_nat (4 ^ 0))) = y" for x y
    by (subst isqrt_digits.simps) (simp add: drop_bit_eq_div)
  have r: "r < 4294967296" using 0 by (intro square_bound) linarith
  show ?case
  proof (cases "(r + 1) * (r + 1) \<le> n")
    case True
    have "r + 1 < 4294967296" using True 0 by (intro square_bound) linarith
    then show ?thesis using isqrt_round(1) [of 0 1 result r op n] True 0 z by (simp add: unat_of_nat64 del: of_nat_add of_nat_Suc)
  next
    case False
    then show ?thesis using isqrt_round(2) [of 0 1 result r op n] r 0 z by (simp add: unat_of_nat64)
  qed
next
  case (Suc k)
  let ?p = "2 ^ Suc k :: nat"
  note round = isqrt_round [OF Suc(2) refl Suc(3,4,6,7)]
  have dk: "drop_bit 2 (of_nat (4 ^ Suc k) :: u64) = of_nat (4 ^ k)" using Suc(2) by (rule drop_2_pow4)
  have "(2 :: nat) ^ Suc k \<le> 2 ^ 31" using Suc(2) by (rule power_increasing) simp
  then have p: "?p \<le> 2147483648" by simp
  have r: "r < 4294967296" using Suc(4,6) by (intro square_bound) linarith
  show ?case
  proof (cases "(r + ?p) * (r + ?p) \<le> n")
    case True
    have r': "r + ?p < 4294967296" using True Suc(6) by (intro square_bound) linarith
    have "(r + ?p) * ?p \<le> 4294967296 * 2147483648" using r' p by (intro mult_le_mono) linarith+
    then have u: "unat (of_nat ((r + ?p) * ?p) :: u64) = (r + ?p) * (2 * 2 ^ k)"
      "unat (of_nat (n - (r + ?p) * (r + ?p)) :: u64) + (r + ?p) * (r + ?p) = n"
      using True Suc(6) by (subst unat_of_nat64; simp del: of_nat_add of_nat_mult)+
    have "n < (r + ?p + 2 * 2 ^ k) * (r + ?p + 2 * 2 ^ k)" using Suc(5) by (simp add: add.assoc)
    from Suc(1) [OF _ u this Suc(6)] Suc(2) show ?thesis unfolding round(1) [OF True] dk by simp
  next
    case False
    have "r * ?p \<le> 4294967296 * 2147483648" using r p by (intro mult_le_mono) linarith+
    then have u: "unat (of_nat (r * ?p) :: u64) = r * (2 * 2 ^ k)" "unat (of_nat (n - r * r) :: u64) + r * r = n"
      using Suc(4,6) by (subst unat_of_nat64; simp del: of_nat_mult)+
    have "n < (r + 2 * 2 ^ k) * (r + 2 * 2 ^ k)" using False by simp
    moreover have "n < (r + ?p) * (r + ?p)" using False by simp
    ultimately show ?thesis using Suc(1) [OF _ u _ Suc(6)] Suc(2) unfolding round(2) [OF \<open>n < (r + ?p) * (r + ?p)\<close>] dk by simp
  qed
qed

text \<open>
  \<^verbatim>\<open>integer_square_root\<close> terminates on every 64-bit number with the largest number whose square does
  not exceed it.
\<close>

theorem integer_square_root_floor:
  "unat (integer_square_root op) * unat (integer_square_root op) \<le> unat op \<and>
   unat op < Suc (unat (integer_square_root op)) * Suc (unat (integer_square_root op))"
proof -
  have start: "integer_square_root op = isqrt_digits op 0 (isqrt_cursor op (of_nat (4 ^ 31)))"
    by (simp add: integer_square_root_def drop_bit_eq_div)
  have "unat op < 4 ^ Suc 31" using unat_lt64 [of op] by simp
  then consider "op = 0" "isqrt_cursor op (of_nat (4 ^ 31)) = 0"
    | j where "j \<le> 31" "isqrt_cursor op (of_nat (4 ^ 31)) = of_nat (4 ^ j)" "unat op < 4 ^ Suc j"
    using isqrt_cursor_power [of 31 op] by blast
  then show ?thesis
  proof cases
    case 1
    then show ?thesis unfolding start by (subst (1 2 3 4) isqrt_digits.simps) simp
  next
    case 2
    have "(4 :: nat) ^ Suc j = (2 * 2 ^ j) * (2 * 2 ^ j)" using power_mult_distrib [of "2 :: nat" 2 j] by simp
    then have "unat op < (0 + 2 * 2 ^ j) * (0 + 2 * 2 ^ j)" using 2(3) by simp
    then show ?thesis unfolding start 2(2) using isqrt_digits_root [OF 2(1), of 0 0 op "unat op"] unat_lt64 [of op] by auto
  qed
qed

subsection \<open>Population count\<close>

text \<open>The table doubles: its second half counts one bit more than its first.\<close>

primrec popcount_rows :: "nat \<Rightarrow> u8 list" where
  "popcount_rows 0 = [0]"
| "popcount_rows (Suc k) = popcount_rows k @ map (\<lambda>x. x + 1) (popcount_rows k)"

lemma popcount_table: "popcount_lookup = popcount_rows 8"
  by (simp add: popcount_lookup_def numeral_eq_Suc)

lemma length_popcount_rows [simp]: "length (popcount_rows k) = 2 ^ k"
  by (induction k) simp_all

lemma nth_popcount_rows: "k \<le> 8 \<Longrightarrow> n < 2 ^ k \<Longrightarrow> unat (popcount_rows k ! n) = card {i. i < k \<and> bit n i}"
proof (induction k arbitrary: n)
  case (Suc k)
  show ?case
  proof (cases "n < 2 ^ k")
    case True
    then have "\<not> bit n k" by (simp add: bit_iff_odd)
    then have "{i. i < Suc k \<and> bit n i} = {i. i < k \<and> bit n i}" by (auto simp: less_Suc_eq)
    then show ?thesis using Suc True by (simp add: nth_append)
  next
    case False
    define j where "j = n - 2 ^ k"
    have j: "n = 2 ^ k + j" "j < 2 ^ k" using False Suc(3) by (simp_all add: j_def)
    have "bit n i \<longleftrightarrow> i = k \<or> i < k \<and> bit j i" if "i < Suc k" for i
    proof -
      have "n = set_bit k j" using j(2) by (simp add: j(1) set_bit_eq bit_iff_odd add.commute)
      then show ?thesis using that by (auto simp: bit_set_bit_iff)
    qed
    then have "{i. i < Suc k \<and> bit n i} = insert k {i. i < k \<and> bit j i}" by auto
    then have c: "card {i. i < Suc k \<and> bit n i} = Suc (card {i. i < k \<and> bit j i})" by simp
    have u: "unat (popcount_rows k ! j) = card {i. i < k \<and> bit j i}" using Suc j(2) by simp
    moreover have "card {i. i < k \<and> bit j i} \<le> card {..< k}" by (rule card_mono) auto
    ultimately have "unat (popcount_rows k ! j + 1) = Suc (unat (popcount_rows k ! j))"
      using Suc(2) by (simp add: unat_word_ariths)
    then show ?thesis using False u c by (simp add: nth_append j)
  qed
qed simp

lemma popcount_byte_card: "unat (popcount_byte b) = card {i. i < 8 \<and> bit b i}"
proof -
  have "unat b < 2 ^ 8" using unsigned_less [of b, where 'a = nat] by simp
  then show ?thesis using nth_popcount_rows [of 8 "unat b"]
    by (simp add: popcount_byte_def popcount_table unat_ucast_up bit_unsigned_iff)
qed

end
