(* ===== verification/Bitset.thy ===== *)
theory Bitset
  imports Buddy_Bits Bitmap
begin

text \<open>
  The character-backed bitset of \<^verbatim>\<open>kernel/memory/buddy_alloc.h\<close>, at an address of the flat memory.  The
  operations on ranges work on whole bytes through a table of masks; they are shown to be the
  operations on the bits of the range, which is what the allocation tree relies on.
\<close>

subsection \<open>Definitions\<close>

definition CHAR_BIT :: u64 where "CHAR_BIT = 8"

definition bitset_sizeof :: "u64 \<Rightarrow> u64" where
  "bitset_sizeof elements = (elements + CHAR_BIT - 1) div CHAR_BIT"

definition bitset_index_mask :: "u8 list" where
  "bitset_index_mask = [1, 2, 4, 8, 16, 32, 64, 128]"

definition bitset_set :: "mem \<Rightarrow> u64 \<Rightarrow> u64 \<Rightarrow> mem" where
  "bitset_set m bitset pos =
     (let bucket = pos div CHAR_BIT; index = pos mod CHAR_BIT
      in m(bitset + bucket := m (bitset + bucket) OR bitset_index_mask ! unat index))"

definition bitset_clear :: "mem \<Rightarrow> u64 \<Rightarrow> u64 \<Rightarrow> mem" where
  "bitset_clear m bitset pos =
     (let bucket = pos div CHAR_BIT; index = pos mod CHAR_BIT
      in m(bitset + bucket := m (bitset + bucket) AND NOT (bitset_index_mask ! unat index)))"

definition bitset_test :: "mem \<Rightarrow> u64 \<Rightarrow> u64 \<Rightarrow> bool" where
  "bitset_test m bitset pos =
     (let bucket = pos div CHAR_BIT; index = pos mod CHAR_BIT
      in m (bitset + bucket) AND bitset_index_mask ! unat index \<noteq> 0)"

definition bitset_char_mask :: "u8 list list" where
  "bitset_char_mask =
     [[1, 3, 7, 15, 31, 63, 127, 255], [0, 2, 6, 14, 30, 62, 126, 254],
      [0, 0, 4, 12, 28, 60, 124, 252], [0, 0, 0, 8, 24, 56, 120, 248],
      [0, 0, 0, 0, 16, 48, 112, 240], [0, 0, 0, 0, 0, 32, 96, 224],
      [0, 0, 0, 0, 0, 0, 64, 192], [0, 0, 0, 0, 0, 0, 0, 128]]"

record bitset_range =
  from_bucket :: u64
  to_bucket :: u64
  from_index :: u8
  to_index :: u8

definition mk_bitset_range :: "u64 \<Rightarrow> u64 \<Rightarrow> bitset_range" where
  "mk_bitset_range from_pos to_pos =
     \<lparr>from_bucket = from_pos div CHAR_BIT, to_bucket = to_pos div CHAR_BIT,
      from_index = ucast (from_pos mod CHAR_BIT), to_index = ucast (to_pos mod CHAR_BIT)\<rparr>"

definition char_mask :: "u8 \<Rightarrow> u8 \<Rightarrow> u8" where
  "char_mask i j = bitset_char_mask ! unat i ! unat j"

text \<open>The loops over the buckets strictly between the two ends.\<close>

lemma bucket_measure: "f + 1 \<noteq> (t :: u64) \<Longrightarrow> unat (t - (2 + f)) < unat (t - (f + 1))"
  using measure_unat [of "t - (f + 1)"] by (simp add: diff_diff_eq add_ac)

function fill_buckets :: "mem \<Rightarrow> u64 \<Rightarrow> u64 \<Rightarrow> u64 \<Rightarrow> u8 \<Rightarrow> mem" where
  "fill_buckets m bitset from to v =
     (let from = from + 1
      in if from \<noteq> to then fill_buckets (m(bitset + from := v)) bitset from to v else m)"
  by pat_completeness auto
termination
  by (relation "measure (\<lambda>(m, bitset, from, to, v). unat (to - (from + 1)))") (auto intro: bucket_measure)

function count_buckets :: "mem \<Rightarrow> u64 \<Rightarrow> u64 \<Rightarrow> u64 \<Rightarrow> u64 \<Rightarrow> u64" where
  "count_buckets m bitset from to result =
     (let from = from + 1
      in if from \<noteq> to then count_buckets m bitset from to (result + popcount_byte (m (bitset + from))) else result)"
  by pat_completeness auto
termination
  by (relation "measure (\<lambda>(m, bitset, from, to, result). unat (to - (from + 1)))") (auto intro: bucket_measure)

declare fill_buckets.simps [simp del] count_buckets.simps [simp del]

definition bitset_set_range :: "mem \<Rightarrow> u64 \<Rightarrow> bitset_range \<Rightarrow> mem" where
  "bitset_set_range m bitset rng =
     (if from_bucket rng = to_bucket rng
      then m(bitset + from_bucket rng := m (bitset + from_bucket rng) OR char_mask (from_index rng) (to_index rng))
      else let m = m(bitset + from_bucket rng := m (bitset + from_bucket rng) OR char_mask (from_index rng) 7);
               m = m(bitset + to_bucket rng := m (bitset + to_bucket rng) OR char_mask 0 (to_index rng))
           in fill_buckets m bitset (from_bucket rng) (to_bucket rng) 255)"

definition bitset_clear_range :: "mem \<Rightarrow> u64 \<Rightarrow> bitset_range \<Rightarrow> mem" where
  "bitset_clear_range m bitset rng =
     (if from_bucket rng = to_bucket rng
      then m(bitset + from_bucket rng := m (bitset + from_bucket rng) AND NOT (char_mask (from_index rng) (to_index rng)))
      else let m = m(bitset + from_bucket rng := m (bitset + from_bucket rng) AND NOT (char_mask (from_index rng) 7));
               m = m(bitset + to_bucket rng := m (bitset + to_bucket rng) AND NOT (char_mask 0 (to_index rng)))
           in fill_buckets m bitset (from_bucket rng) (to_bucket rng) 0)"

definition bitset_count_range :: "mem \<Rightarrow> u64 \<Rightarrow> bitset_range \<Rightarrow> u64" where
  "bitset_count_range m bitset rng =
     (if from_bucket rng = to_bucket rng
      then popcount_byte (m (bitset + from_bucket rng) AND char_mask (from_index rng) (to_index rng))
      else let result = popcount_byte (m (bitset + from_bucket rng) AND char_mask (from_index rng) 7) +
                        popcount_byte (m (bitset + to_bucket rng) AND char_mask 0 (to_index rng))
           in count_buckets m bitset (from_bucket rng) (to_bucket rng) result)"

text \<open>The two shifts, bit by bit; \<^verbatim>\<open>bitset_shift_right\<close> counts down in a signed \<^verbatim>\<open>ssize_t\<close>.\<close>

definition bitset_copy_bit :: "mem \<Rightarrow> u64 \<Rightarrow> u64 \<Rightarrow> u64 \<Rightarrow> mem" where
  "bitset_copy_bit m bitset at to = (if bitset_test m bitset at then bitset_set m bitset to else bitset_clear m bitset to)"

function shift_left_loop :: "mem \<Rightarrow> u64 \<Rightarrow> u64 \<Rightarrow> u64 \<Rightarrow> u64 \<Rightarrow> u64 \<Rightarrow> mem" where
  "shift_left_loop m bitset from_pos by i len =
     (if i < len
      then shift_left_loop (bitset_copy_bit m bitset (from_pos + i) (from_pos + i - by)) bitset from_pos by (i + 1) len
      else m)"
  by pat_completeness auto
termination
  by (relation "measure (\<lambda>(m, bitset, from_pos, by, i, len). unat (len - i))") (auto intro: measure_up)

definition bitset_shift_left :: "mem \<Rightarrow> u64 \<Rightarrow> u64 \<Rightarrow> u64 \<Rightarrow> u64 \<Rightarrow> mem" where
  "bitset_shift_left m bitset from_pos to_pos by =
     (let len = to_pos - from_pos;
          m = shift_left_loop m bitset from_pos by 0 len
      in bitset_clear_range m bitset (mk_bitset_range len (len + by - 1)))"

lemma sint_dec: "0 \<le> sint (l :: u64) \<Longrightarrow> sint (l - 1) = sint l - 1"
proof -
  assume "0 \<le> sint l"
  then show ?thesis using sint_less [of l] by (simp add: sint_word_ariths signed_take_bit_int_eq_self)
qed

function shift_right_loop :: "mem \<Rightarrow> u64 \<Rightarrow> u64 \<Rightarrow> u64 \<Rightarrow> u64 \<Rightarrow> mem" where
  "shift_right_loop m bitset from_pos by len =
     (if 0 \<le> sint len
      then shift_right_loop (bitset_copy_bit m bitset (from_pos + len) (from_pos + len + by)) bitset from_pos by (len - 1)
      else m)"
  by pat_completeness auto
termination
  by (relation "measure (\<lambda>(m, bitset, from_pos, by, len). nat (sint len + 1))") (simp_all add: sint_dec)

declare shift_left_loop.simps [simp del] shift_right_loop.simps [simp del]

definition bitset_shift_right :: "mem \<Rightarrow> u64 \<Rightarrow> u64 \<Rightarrow> u64 \<Rightarrow> u64 \<Rightarrow> mem" where
  "bitset_shift_right m bitset from_pos to_pos by =
     (let len = to_pos - from_pos;
          m = shift_right_loop m bitset from_pos by len
      in bitset_clear_range m bitset (mk_bitset_range from_pos (from_pos + by - 1)))"

subsection \<open>Masks\<close>

lemma char_mask_table: "bitset_char_mask = map (\<lambda>i. map (\<lambda>j. mask (Suc j) AND NOT (mask i)) [0..<8]) [0..<8]"
  by code_simp

lemma bit_char_mask:
  assumes "unat i < 8" "unat j < 8"
  shows "bit (char_mask i j) n \<longleftrightarrow> unat i \<le> n \<and> n \<le> unat j"
  using assms by (auto simp: char_mask_def char_mask_table bit_simps)

lemma index_mask_table: "bitset_index_mask = map (\<lambda>i. push_bit i 1) [0..<8]"
  by code_simp

lemma index_mask: "i < 8 \<Longrightarrow> bitset_index_mask ! i = push_bit i 1"
  by (simp add: index_mask_table)


subsection \<open>Single bits\<close>

lemma bitset_test_at: "bitset_test m b pos = bit_at m b (unat pos)"
  unfolding bitset_test_def bit_at_def CHAR_BIT_def Let_def unat_mod_8 bit_iff_and_push_bit_not_eq_0 div_8_of_nat
  by (simp add: index_mask)

lemma bitset_set_at: "bitset_set m b pos = write_bit b (unat pos) True m"
  unfolding bitset_set_def write_bit_def CHAR_BIT_def Let_def unat_mod_8 set_bit_eq_or div_8_of_nat
  by (simp add: index_mask)

lemma bitset_clear_at: "bitset_clear m b pos = write_bit b (unat pos) False m"
  unfolding bitset_clear_def write_bit_def CHAR_BIT_def Let_def unat_mod_8 unset_bit_eq_and_not div_8_of_nat
  by (simp add: index_mask)

lemma bitset_copy_bit_at: "bitset_copy_bit m b at to = write_bit b (unat to) (bit_at m b (unat at)) m"
  by (simp add: bitset_copy_bit_def bitset_test_at bitset_set_at bitset_clear_at)

subsection \<open>Ranges of bits\<close>

text \<open>The memory in which the bits from \<open>f\<close> to \<open>t\<close> have the value \<open>v\<close>.\<close>

definition fill_bits :: "u64 \<Rightarrow> nat \<Rightarrow> nat \<Rightarrow> bool \<Rightarrow> mem \<Rightarrow> mem" where
  "fill_bits b f t v m = (\<lambda>x. let q = unat (x - b) in
     if f div 8 \<le> q \<and> q \<le> t div 8
     then let k = mask (if q = t div 8 then Suc (t mod 8) else 8) AND NOT (mask (if q = f div 8 then f mod 8 else 0))
          in if v then m x OR k else m x AND NOT k
     else m x)"

lemma fill_buckets_apply:
  assumes "unat f < unat t"
  shows "fill_buckets m b f t v x = (if unat f < unat (x - b) \<and> unat (x - b) < unat t then v else m x)"
  using assms
proof (induction "unat t - unat f" arbitrary: f m)
  case (Suc d)
  have s: "unat (f + 1) = Suc (unat f)" using Suc(3) by (intro unat_Suc_le) (simp add: word_less_nat_alt)
  show ?case
  proof (cases "f + 1 = t")
    case True
    then show ?thesis using s by (subst fill_buckets.simps) (auto simp: Let_def)
  next
    case False
    then have lt: "unat (f + 1) < unat t" using Suc(3) s by (metis Suc_lessI word_unat_eq_iff)
    have eq: "fill_buckets m b f t v x = fill_buckets (m(b + (f + 1) := v)) b (f + 1) t v x"
      using False by (subst fill_buckets.simps) (simp add: Let_def)
    have "x = b + (f + 1) \<longleftrightarrow> unat (x - b) = Suc (unat f)" using s by (metis add_diff_cancel_left' diff_add_cancel add.commute word_unat_eq_iff)
    then show ?thesis unfolding eq using Suc(1) [of "f + 1"] lt Suc(2) s by auto
  qed
qed simp

lemma mk_range_fields:
  "from_bucket (mk_bitset_range f t) = of_nat (unat f div 8)" "to_bucket (mk_bitset_range f t) = of_nat (unat t div 8)"
  "unat (from_index (mk_bitset_range f t)) = unat f mod 8" "unat (to_index (mk_bitset_range f t)) = unat t mod 8"
proof -
  have "unat (ucast (x mod 8) :: u8) = unat x mod 8" for x :: u64
    by (simp add: unsigned_ucast_eq take_bit_nat_eq_self_iff) 
  then show "unat (from_index (mk_bitset_range f t)) = unat f mod 8" "unat (to_index (mk_bitset_range f t)) = unat t mod 8"
    by (simp_all add: mk_bitset_range_def CHAR_BIT_def)
qed (simp_all add: mk_bitset_range_def CHAR_BIT_def div_8_of_nat)

lemma char_mask_eq: "unat i < 8 \<Longrightarrow> unat j < 8 \<Longrightarrow> char_mask i j = mask (Suc (unat j)) AND NOT (mask (unat i))"
  by (rule bit_word_eqI) (auto simp: bit_char_mask bit_simps)

lemma range_buckets:
  "unat (of_nat (unat (f :: u64) div 8) :: u64) = unat f div 8"
  "(of_nat (unat (f :: u64) div 8) :: u64) = of_nat (unat (t :: u64) div 8) \<longleftrightarrow> unat f div 8 = unat t div 8"
  "q < 18446744073709551616 \<Longrightarrow> of_nat q = (of_nat (unat (f :: u64) div 8) :: u64) \<longleftrightarrow> q = unat f div 8"
proof -
  have lt: "unat y div 8 < 18446744073709551616" for y :: u64 using unat_lt64 [of y] by linarith
  show "unat (of_nat (unat (f :: u64) div 8) :: u64) = unat f div 8" using lt by (rule unat_of_nat64)
  show "(of_nat (unat f div 8) :: u64) = of_nat (unat t div 8) \<longleftrightarrow> unat f div 8 = unat t div 8" using lt by (metis unat_of_nat64)
  show "q < 18446744073709551616 \<Longrightarrow> of_nat q = (of_nat (unat (f :: u64) div 8) :: u64) \<longleftrightarrow> q = unat f div 8"
    using lt by (metis unat_of_nat64)
qed

lemma range_fill:
  assumes "unat f \<le> unat t"
  shows "bitset_set_range m b (mk_bitset_range f t) = fill_bits b (unat f) (unat t) True m"
    and "bitset_clear_range m b (mk_bitset_range f t) = fill_bits b (unat f) (unat t) False m"
proof -
  let ?f = "unat f div 8" and ?t = "unat t div 8"
  have le: "?f \<le> ?t" using assms by (rule div_le_mono)
  have 255: "(255 :: u8) = mask 8" "mask (Suc 7) = (255 :: u8)" by (simp_all add: mask_eq_exp_minus_1)
  have or_mask: "w OR mask 8 = mask 8" "w AND NOT (mask 8) = 0" for w :: u8
    by (auto simp: bit_eq_iff bit_simps dest: bit_imp_le_length)
  note d = bitset_set_range_def bitset_clear_range_def mk_range_fields range_buckets fill_bits_def Let_def
  have cm: "char_mask (from_index (mk_bitset_range f t)) (to_index (mk_bitset_range f t)) = mask (Suc (unat t mod 8)) AND NOT (mask (unat f mod 8))"
    "char_mask (from_index (mk_bitset_range f t)) 7 = mask 8 AND NOT (mask (unat f mod 8))"
    "char_mask 0 (to_index (mk_bitset_range f t)) = mask (Suc (unat t mod 8))"
    by (subst char_mask_eq; simp add: mk_range_fields)+
  show "bitset_set_range m b (mk_bitset_range f t) = fill_bits b (unat f) (unat t) True m"
  proof (rule ext)
    fix x
    obtain q where x: "x = b + of_nat q" "q < 18446744073709551616" "unat (of_nat q :: u64) = q"
      using unat_lt64 [of "x - b"] unat_of_nat64 by (metis add_unat_off)
    show "bitset_set_range m b (mk_bitset_range f t) x = fill_bits b (unat f) (unat t) True m x"
      unfolding x(1) using le x(2) by (cases "?f = ?t") (auto simp: d cm fill_buckets_apply or_mask 255 x(3))
  qed
  show "bitset_clear_range m b (mk_bitset_range f t) = fill_bits b (unat f) (unat t) False m"
  proof (rule ext)
    fix x
    obtain q where x: "x = b + of_nat q" "q < 18446744073709551616" "unat (of_nat q :: u64) = q"
      using unat_lt64 [of "x - b"] unat_of_nat64 by (metis add_unat_off)
    show "bitset_clear_range m b (mk_bitset_range f t) x = fill_bits b (unat f) (unat t) False m x"
      unfolding x(1) using le x(2) by (cases "?f = ?t") (auto simp: d cm fill_buckets_apply or_mask 255 x(3))
  qed
qed

lemma digit_le: "f \<le> i \<longleftrightarrow> f div 8 < i div 8 \<or> f div 8 = i div 8 \<and> f mod 8 \<le> i mod 8" for f i :: nat
proof -
  have "8 * p + a \<le> 8 * q + b \<longleftrightarrow> p < q \<or> p = q \<and> a \<le> b" if "a < 8" "b < 8" for a b p q :: nat
    using that by arith
  from this [of "f mod 8" "i mod 8" "f div 8" "i div 8"] show ?thesis by simp
qed

lemma bit_fill_bits:
  assumes "f \<le> t" "i < 18446744073709551616"
  shows "bit_at (fill_bits b f t v m) b i = (if f \<le> i \<and> i \<le> t then v else bit_at m b i)"
proof -
  have u: "unat (of_nat (i div 8) :: u64) = i div 8" using assms(2) by (intro unat_of_nat64) linarith
  note le = digit_le
  have "i mod 8 < 8" by simp
  then show ?thesis
    using div_le_mono [OF assms(1), of 8] unfolding bit_at_def fill_bits_def Let_def add_diff_cancel_left' u
    by (auto simp: bit_simps le [of f] le [of i])
qed

lemma fill_bits_frame:
  "unat (x - b) < f div 8 \<or> t div 8 < unat (x - b) \<Longrightarrow> fill_bits b f t v m x = m x"
  by (auto simp: fill_bits_def Let_def)

text \<open>The number of bits set in a range, its end excluded.\<close>

definition count_bits :: "mem \<Rightarrow> u64 \<Rightarrow> nat \<Rightarrow> nat \<Rightarrow> nat" where
  "count_bits m b f t = card {i. f \<le> i \<and> i < t \<and> bit_at m b i}"

lemma count_bits_empty [simp]: "count_bits m b k k = 0"
proof -
  have "{i. k \<le> i \<and> i < k \<and> bit_at m b i} = {}" by auto
  then show ?thesis by (simp add: count_bits_def)
qed

lemma count_bits_split: "f \<le> k \<Longrightarrow> k \<le> t \<Longrightarrow> count_bits m b f t = count_bits m b f k + count_bits m b k t"
proof -
  assume le: "f \<le> k" "k \<le> t"
  let ?A = "\<lambda>f t. {i. f \<le> i \<and> i < t \<and> bit_at m b i}"
  have "?A f t = ?A f k \<union> ?A k t" "?A f k \<inter> ?A k t = {}" using le by auto
  then show ?thesis by (simp add: count_bits_def card_Un_disjoint)
qed

lemma popcount_bits:
  assumes "unat i < 8" "unat j < 8"
  shows "popcount_byte (m (b + of_nat q) AND char_mask i j) = of_nat (count_bits m b (8 * q + unat i) (8 * q + Suc (unat j)))"
proof -
  let ?B = "{k. k < 8 \<and> bit (m (b + of_nat q) AND char_mask i j) k}"
  have "{k. 8 * q + unat i \<le> k \<and> k < 8 * q + Suc (unat j) \<and> bit_at m b k} = (\<lambda>k. 8 * q + k) ` ?B"
  proof (intro equalityI subsetI)
    fix k
    assume k: "k \<in> {k. 8 * q + unat i \<le> k \<and> k < 8 * q + Suc (unat j) \<and> bit_at m b k}"
    then have q: "k div 8 = q" "k = 8 * q + (k - 8 * q)" using assms by auto
    have "k mod 8 = k - 8 * q" unfolding q(1) [symmetric] by (rule minus_mult_div_eq_mod [symmetric])
    then show "k \<in> (\<lambda>k. 8 * q + k) ` ?B"
      using k assms q \<open>k mod 8 = k - 8 * q\<close> by (intro image_eqI [of _ _ "k - 8 * q"]) (auto simp: bit_at_def bit_and_iff bit_char_mask)
  next
    fix k
    assume "k \<in> (\<lambda>k. 8 * q + k) ` ?B"
    then show "k \<in> {k. 8 * q + unat i \<le> k \<and> k < 8 * q + Suc (unat j) \<and> bit_at m b k}"
      using assms by (auto simp: bit_at_def bit_and_iff bit_char_mask)
  qed
  then have "count_bits m b (8 * q + unat i) (8 * q + Suc (unat j)) = card ?B"
    by (simp add: count_bits_def card_image inj_on_def)
  then show ?thesis using popcount_byte_card by (metis u64_of_nat_unat)
qed

lemma popcount_whole: "popcount_byte (m (b + of_nat q)) = of_nat (count_bits m b (8 * q) (8 * Suc q))"
proof -
  have "char_mask 0 7 = mask 8" by (simp add: char_mask_eq)
  then have "w AND char_mask 0 7 = w" for w :: u8 by (auto simp: bit_eq_iff bit_simps dest: bit_imp_le_length)
  then show ?thesis using popcount_bits [of 0 7 m b q] by (simp add: add.commute [of _ 8])
qed

lemma count_buckets_bits:
  assumes "unat f < unat t"
  shows "count_buckets m b f t r = r + of_nat (count_bits m b (8 * Suc (unat f)) (8 * unat t))"
  using assms
proof (induction "unat t - unat f" arbitrary: f r)
  case (Suc d)
  have s: "unat (f + 1) = Suc (unat f)" using Suc(3) by (intro unat_Suc_le) (simp add: word_less_nat_alt)
  show ?case
  proof (cases "f + 1 = t")
    case True
    then show ?thesis using s by (subst count_buckets.simps) (auto simp: Let_def count_bits_empty)
  next
    case False
    then have lt: "unat (f + 1) < unat t" using Suc(3) s by (metis Suc_lessI word_unat_eq_iff)
    have "f + 1 = of_nat (Suc (unat f))" using s by (metis u64_of_nat_unat)
    then have "popcount_byte (m (b + (f + 1))) = of_nat (count_bits m b (8 * Suc (unat f)) (8 * Suc (Suc (unat f))))"
      using popcount_whole [of m b "Suc (unat f)"] by (simp only:)
    moreover have "count_buckets m b f t r = count_buckets m b (f + 1) t (r + popcount_byte (m (b + (f + 1))))"
      using False by (subst count_buckets.simps) (simp add: Let_def)
    moreover have "count_bits m b (8 * Suc (unat f)) (8 * unat t) =
      count_bits m b (8 * Suc (unat f)) (8 * Suc (Suc (unat f))) + count_bits m b (8 * Suc (Suc (unat f))) (8 * unat t)"
      using lt s by (intro count_bits_split) simp_all
    ultimately show ?thesis using Suc(1) [of "f + 1"] lt Suc(2) s by simp
  qed
qed simp

lemma bitset_count_range_bits:
  assumes "unat f \<le> unat t"
  shows "bitset_count_range m b (mk_bitset_range f t) = of_nat (count_bits m b (unat f) (Suc (unat t)))"
proof -
  let ?r = "mk_bitset_range f t" and ?f = "unat f div 8" and ?t = "unat t div 8"
  have le: "?f \<le> ?t" using assms by (rule div_le_mono)
  have e: "8 * ?f + unat f mod 8 = unat f" "8 * ?t + unat t mod 8 = unat t" by simp_all
  have pop: "popcount_byte (m (b + of_nat ?f) AND char_mask (from_index ?r) (to_index ?r)) =
      of_nat (count_bits m b (unat f) (8 * ?f + Suc (unat t mod 8)))"
    "popcount_byte (m (b + of_nat ?f) AND char_mask (from_index ?r) 7) = of_nat (count_bits m b (unat f) (8 * Suc ?f))"
    "popcount_byte (m (b + of_nat ?t) AND char_mask 0 (to_index ?r)) = of_nat (count_bits m b (8 * ?t) (Suc (unat t)))"
    using popcount_bits [of "from_index ?r" "to_index ?r" m b ?f] popcount_bits [of "from_index ?r" 7 m b ?f]
      popcount_bits [of 0 "to_index ?r" m b ?t] by (simp_all add: mk_range_fields add.commute [of _ 8])
  show ?thesis
  proof (cases "?f = ?t")
    case True
    then have "8 * ?f + Suc (unat t mod 8) = Suc (unat t)" using e(2) by simp
    then show ?thesis using True pop(1) by (simp add: bitset_count_range_def mk_range_fields)
  next
    case False
    have "count_bits m b (unat f) (Suc (unat t)) =
      count_bits m b (unat f) (8 * Suc ?f) + count_bits m b (8 * Suc ?f) (8 * ?t) + count_bits m b (8 * ?t) (Suc (unat t))"
    proof -
      have r: "unat f mod 8 < 8" "?f < ?t" using le False by simp_all
      have "unat f \<le> 8 * Suc ?f" using r(1) e(1) unfolding mult_Suc_right by linarith
      moreover have "8 * Suc ?f \<le> 8 * ?t" using r(2) by simp
      moreover have "8 * ?t \<le> Suc (unat t)" using e(2) by linarith
      ultimately show ?thesis using count_bits_split [of "unat f" "8 * Suc ?f" "Suc (unat t)"] count_bits_split [of "8 * Suc ?f" "8 * ?t" "Suc (unat t)"] by simp
    qed
    then show ?thesis
      using False le pop(2,3) count_buckets_bits [of "of_nat ?f" "of_nat ?t" m b]
      by (simp add: bitset_count_range_def mk_range_fields range_buckets Let_def)
  qed
qed

text \<open>
  The operations on a range of bits, which work on whole bytes with masks from a table, agree with
  the operations on single bits: after \<^verbatim>\<open>bitset_set_range\<close> exactly the bits of the range test as set in
  addition to the old ones, after \<^verbatim>\<open>bitset_clear_range\<close> exactly those outside of it are left, and
  \<^verbatim>\<open>bitset_count_range\<close> is the number of positions of the range that test as set.
\<close>

theorem bitset_range_ops:
  assumes "f \<le> t"
  shows "(\<forall>i. bitset_test (bitset_set_range m b (mk_bitset_range f t)) b i \<longleftrightarrow> f \<le> i \<and> i \<le> t \<or> bitset_test m b i) \<and>
    (\<forall>i. bitset_test (bitset_clear_range m b (mk_bitset_range f t)) b i \<longleftrightarrow> \<not> (f \<le> i \<and> i \<le> t) \<and> bitset_test m b i) \<and>
    bitset_count_range m b (mk_bitset_range f t) = of_nat (card {i. f \<le> i \<and> i \<le> t \<and> bitset_test m b i})"
proof (intro conjI allI)
  fix i
  have le: "unat f \<le> unat t" using assms by (simp add: word_le_nat_alt)
  show "bitset_test (bitset_set_range m b (mk_bitset_range f t)) b i \<longleftrightarrow> f \<le> i \<and> i \<le> t \<or> bitset_test m b i"
    "bitset_test (bitset_clear_range m b (mk_bitset_range f t)) b i \<longleftrightarrow> \<not> (f \<le> i \<and> i \<le> t) \<and> bitset_test m b i"
    using bit_fill_bits [OF le unat_lt64 [of i], of b] by (auto simp: bitset_test_at range_fill [OF le] word_le_nat_alt)
next
  have le: "unat f \<le> unat t" using assms by (simp add: word_le_nat_alt)
  have "{i. unat f \<le> i \<and> i < Suc (unat t) \<and> bit_at m b i} = unat ` {i. f \<le> i \<and> i \<le> t \<and> bitset_test m b i}"
  proof (intro set_eqI iffI)
    fix i assume i: "i \<in> {i. unat f \<le> i \<and> i < Suc (unat t) \<and> bit_at m b i}"
    then have "unat (of_nat i :: u64) = i" using unat_lt64 [of t] by (intro unat_of_nat64) simp
    then show "i \<in> unat ` {i. f \<le> i \<and> i \<le> t \<and> bitset_test m b i}"
      using i by (intro image_eqI [of _ _ "of_nat i"]) (simp_all add: word_le_nat_alt bitset_test_at)
  qed (auto simp: word_le_nat_alt bitset_test_at)
  moreover have "inj_on unat {i. f \<le> i \<and> i \<le> t \<and> bitset_test m b i}" by (auto simp: inj_on_def word_unat_eq_iff)
  ultimately show "bitset_count_range m b (mk_bitset_range f t) = of_nat (card {i. f \<le> i \<and> i \<le> t \<and> bitset_test m b i})"
    by (simp add: bitset_count_range_bits [OF le] count_bits_def card_image)
qed

theorem bitset_range_ops_witness:
  "bitset_test (bitset_set_range (\<lambda>_. 0) 0x1000 (mk_bitset_range 5 20)) 0x1000 13 \<and>
   \<not> bitset_test (bitset_clear_range (\<lambda>_. 255) 0x1000 (mk_bitset_range 5 20)) 0x1000 20"
  using bitset_range_ops [of 5 20 "\<lambda>_. 0" "0x1000"] bitset_range_ops [of 5 20 "\<lambda>_. 255" "0x1000"] by simp

end
