(* ===== verification/Buddy_Tree.thy ===== *)
theory Buddy_Tree
  imports Bitset Memset
begin

text \<open>
  The allocation tree of \<^verbatim>\<open>kernel/memory/buddy_alloc.h\<close>.  A \<^verbatim>\<open>struct buddy_tree\<close> lies at an address \<open>t\<close> of the flat
  memory, followed by its bitset and by the table of \<^verbatim>\<open>size_for_order\<close>; every operation reads and
  writes that memory.  Nodes are addressed by their index in level order and their depth; the
  status of a node is a unary number in as many bits as the node has levels below it.  A loop that
  need not end for arbitrary positions is an \<open>option\<close>, \<open>None\<close> when it does not.
\<close>

subsection \<open>Positions\<close>

record buddy_tree_pos =
  p_index :: u64
  p_depth :: u64

definition INVALID_POS :: buddy_tree_pos where
  "INVALID_POS = \<lparr>p_index = 0, p_depth = 0\<rparr>"

record buddy_tree_interval =
  i_from :: buddy_tree_pos
  i_to :: buddy_tree_pos

record internal_position =
  local_offset :: u64
  bitset_location :: u64

definition buddy_tree_root :: buddy_tree_pos where
  "buddy_tree_root = \<lparr>p_index = 1, p_depth = 1\<rparr>"

definition buddy_tree_depth :: "buddy_tree_pos \<Rightarrow> u64" where
  "buddy_tree_depth pos = p_depth pos"

definition buddy_tree_left_child :: "buddy_tree_pos \<Rightarrow> buddy_tree_pos" where
  "buddy_tree_left_child pos = \<lparr>p_index = p_index pos * 2, p_depth = p_depth pos + 1\<rparr>"

definition buddy_tree_right_child :: "buddy_tree_pos \<Rightarrow> buddy_tree_pos" where
  "buddy_tree_right_child pos = \<lparr>p_index = p_index pos * 2 + 1, p_depth = p_depth pos + 1\<rparr>"

definition buddy_tree_sibling :: "buddy_tree_pos \<Rightarrow> buddy_tree_pos" where
  "buddy_tree_sibling pos = pos\<lparr>p_index := p_index pos XOR 1\<rparr>"

definition buddy_tree_parent :: "buddy_tree_pos \<Rightarrow> buddy_tree_pos" where
  "buddy_tree_parent pos = \<lparr>p_index = p_index pos div 2, p_depth = p_depth pos - 1\<rparr>"

definition buddy_tree_right_adjacent :: "buddy_tree_pos \<Rightarrow> buddy_tree_pos" where
  "buddy_tree_right_adjacent pos =
     (if (p_index pos + 1) XOR p_index pos > p_index pos then INVALID_POS else pos\<lparr>p_index := p_index pos + 1\<rparr>)"

definition buddy_tree_index_internal :: "buddy_tree_pos \<Rightarrow> u64" where
  "buddy_tree_index_internal pos = p_index pos AND NOT (two_to_the_power_of (p_depth pos - 1))"

definition buddy_tree_index :: "buddy_tree_pos \<Rightarrow> u64" where
  "buddy_tree_index pos = buddy_tree_index_internal pos"

definition buddy_tree_leftmost_child_internal :: "u64 \<Rightarrow> buddy_tree_pos" where
  "buddy_tree_leftmost_child_internal tree_order =
     \<lparr>p_index = two_to_the_power_of (tree_order - 1), p_depth = tree_order\<rparr>"

subsection \<open>The structure in memory\<close>

definition sizeof_buddy_tree :: u64 where "sizeof_buddy_tree = 24"

definition upper_pos_bound :: "mem \<Rightarrow> u64 \<Rightarrow> u64" where
  "upper_pos_bound m t = load64 m t"

definition size_for_order_offset :: "mem \<Rightarrow> u64 \<Rightarrow> u64" where
  "size_for_order_offset m t = load64 m (t + 8)"

definition buddy_tree_order :: "mem \<Rightarrow> u64 \<Rightarrow> u8" where
  "buddy_tree_order m t = m (t + 16)"

definition buddy_tree_bits :: "u64 \<Rightarrow> u64" where
  "buddy_tree_bits t = t + sizeof_buddy_tree"

definition buddy_tree_valid :: "mem \<Rightarrow> u64 \<Rightarrow> buddy_tree_pos \<Rightarrow> bool" where
  "buddy_tree_valid m t pos \<longleftrightarrow> p_index pos \<noteq> 0 \<and> p_index pos < upper_pos_bound m t"

definition buddy_tree_leftmost_child :: "mem \<Rightarrow> u64 \<Rightarrow> buddy_tree_pos" where
  "buddy_tree_leftmost_child m t = buddy_tree_leftmost_child_internal (ucast (buddy_tree_order m t))"

function size_for_order_loop :: "u8 \<Rightarrow> u8 \<Rightarrow> u64 \<Rightarrow> u64 \<Rightarrow> u64" where
  "size_for_order_loop order to result multi =
     (if order \<noteq> to then size_for_order_loop (order - 1) to (result + ucast order * multi) (multi * 2) else result)"
  by pat_completeness auto
termination
  by (relation "measure (\<lambda>(order, to, result, multi). unat (order - to))")
    (auto simp: diff_right_commute [of _ 1] intro: measure_unat)

declare size_for_order_loop.simps [simp del]

definition size_for_order :: "u8 \<Rightarrow> u8 \<Rightarrow> u64" where
  "size_for_order order to = size_for_order_loop order to 0 1"

text \<open>The bitset is padded by the remainder of its size instead of up to a multiple of the word.\<close>

definition padded_bitset_size :: "u8 \<Rightarrow> u64" where
  "padded_bitset_size order =
     (let bitset_size = bitset_sizeof (size_for_order order 0)
      in if bitset_size mod 8 \<noteq> 0 then bitset_size + bitset_size mod 8 else bitset_size)"

definition buddy_tree_sizeof :: "u8 \<Rightarrow> u64" where
  "buddy_tree_sizeof order = sizeof_buddy_tree + padded_bitset_size order + (ucast order + 2) * 8"

definition buddy_tree_size_for_order :: "mem \<Rightarrow> u64 \<Rightarrow> u8 \<Rightarrow> u64" where
  "buddy_tree_size_for_order m t to = load64 m (t + sizeof_buddy_tree + 8 * (size_for_order_offset m t + ucast to))"

function populate_loop :: "mem \<Rightarrow> u64 \<Rightarrow> u64 \<Rightarrow> mem" where
  "populate_loop m t i =
     (if i \<le> ucast (buddy_tree_order m t)
      then populate_loop (store64 m (t + sizeof_buddy_tree + 8 * (size_for_order_offset m t + i))
             (size_for_order (buddy_tree_order m t) (ucast i))) t (i + 1)
      else m)"
  by pat_completeness auto
termination
proof (relation "measure (\<lambda>(m, t, i). 256 - unat i)")
  fix m :: mem and t i :: u64
  assume "i \<le> ucast (buddy_tree_order m t)"
  moreover have "unat (buddy_tree_order m t) < 256" using unsigned_less [of "buddy_tree_order m t", where 'a = nat] by simp
  ultimately have "unat i < 256" by (simp add: word_le_nat_alt unat_ucast_up)
  moreover from this have "unat (i + 1) = Suc (unat i)" by (simp add: unat_word_ariths)
  ultimately show "((store64 m (t + sizeof_buddy_tree + 8 * (size_for_order_offset m t + i))
      (size_for_order (buddy_tree_order m t) (ucast i)), t, i + 1), m, t, i) \<in> measure (\<lambda>(m, t, i). 256 - unat i)" by simp
qed simp

declare populate_loop.simps [simp del]

definition buddy_tree_populate_size_for_order :: "mem \<Rightarrow> u64 \<Rightarrow> mem" where
  "buddy_tree_populate_size_for_order m t =
     (let m = store64 m (t + 8) (padded_bitset_size (buddy_tree_order m t) div 8);
          m = store64 m (t + 8) (size_for_order_offset m t + 1)
      in populate_loop m t 0)"

definition buddy_tree_init :: "mem \<Rightarrow> u64 \<Rightarrow> u8 \<Rightarrow> mem" where
  "buddy_tree_init m at order =
     (let size = buddy_tree_sizeof order;
          m = fst (memset m at 0 size);
          m = m(at + 16 := order);
          m = store64 m at (two_to_the_power_of (ucast (buddy_tree_order m at)))
      in buddy_tree_populate_size_for_order m at)"

subsection \<open>Statuses\<close>

definition buddy_tree_internal_position_order :: "u64 \<Rightarrow> buddy_tree_pos \<Rightarrow> internal_position" where
  "buddy_tree_internal_position_order tree_order pos =
     (let lo = tree_order - buddy_tree_depth pos + 1;
          total_offset = size_for_order (ucast tree_order) (ucast lo);
          local_index = buddy_tree_index_internal pos
      in \<lparr>local_offset = lo, bitset_location = total_offset + lo * local_index\<rparr>)"

definition buddy_tree_internal_position_tree :: "mem \<Rightarrow> u64 \<Rightarrow> buddy_tree_pos \<Rightarrow> internal_position" where
  "buddy_tree_internal_position_tree m t pos =
     (let lo = ucast (buddy_tree_order m t) - buddy_tree_depth pos + 1;
          total_offset = buddy_tree_size_for_order m t (ucast lo);
          local_index = buddy_tree_index_internal pos
      in \<lparr>local_offset = lo, bitset_location = total_offset + lo * local_index\<rparr>)"

definition write_to_internal_position :: "mem \<Rightarrow> u64 \<Rightarrow> internal_position \<Rightarrow> u64 \<Rightarrow> mem" where
  "write_to_internal_position m t pos value =
     (let bitset = buddy_tree_bits t;
          m = bitset_clear_range m bitset
                (mk_bitset_range (bitset_location pos) (bitset_location pos + local_offset pos - 1))
      in if value \<noteq> 0
         then bitset_set_range m bitset (mk_bitset_range (bitset_location pos) (bitset_location pos + value - 1))
         else m)"

definition read_from_internal_position :: "mem \<Rightarrow> u64 \<Rightarrow> internal_position \<Rightarrow> u64" where
  "read_from_internal_position m bitset pos =
     (if \<not> bitset_test m bitset (bitset_location pos) then 0
      else bitset_count_range m bitset
             (mk_bitset_range (bitset_location pos) (bitset_location pos + local_offset pos - 1)))"

definition compare_with_internal_position :: "mem \<Rightarrow> u64 \<Rightarrow> internal_position \<Rightarrow> u64 \<Rightarrow> bool" where
  "compare_with_internal_position m bitset pos value = bitset_test m bitset (bitset_location pos + value - 1)"

definition buddy_tree_status :: "mem \<Rightarrow> u64 \<Rightarrow> buddy_tree_pos \<Rightarrow> u64" where
  "buddy_tree_status m t pos =
     read_from_internal_position m (buddy_tree_bits t) (buddy_tree_internal_position_tree m t pos)"

subsection \<open>Allocation and release\<close>

partial_function (option) update_parent_chain ::
    "u64 \<Rightarrow> mem \<Rightarrow> buddy_tree_pos \<Rightarrow> internal_position \<Rightarrow> u64 \<Rightarrow> mem option" where
  "update_parent_chain t m pos pos_internal size_current =
     (if p_index pos \<noteq> 1
      then let pos_internal = pos_internal\<lparr>bitset_location := bitset_location pos_internal +
                 (local_offset pos_internal - 2 * local_offset pos_internal * (p_index pos AND 1))\<rparr>;
               size_sibling = read_from_internal_position m (buddy_tree_bits t) pos_internal;
               pos = buddy_tree_parent pos;
               pos_internal = buddy_tree_internal_position_tree m t pos;
               size_parent = read_from_internal_position m (buddy_tree_bits t) pos_internal;
               target_parent = of_bool (size_current \<noteq> 0 \<or> size_sibling \<noteq> 0) *
                 ((if size_current \<le> size_sibling then size_current else size_sibling) + 1)
           in if target_parent = size_parent then Some m
              else update_parent_chain t (write_to_internal_position m t pos_internal target_parent) pos pos_internal target_parent
      else Some m)"

definition buddy_tree_mark :: "mem \<Rightarrow> u64 \<Rightarrow> buddy_tree_pos \<Rightarrow> mem option" where
  "buddy_tree_mark m t pos =
     (let internal = buddy_tree_internal_position_tree m t pos;
          m = write_to_internal_position m t internal (local_offset internal)
      in update_parent_chain t m pos internal (local_offset internal))"

datatype buddy_tree_release_status = BUDDY_TREE_RELEASE_SUCCESS | BUDDY_TREE_RELEASE_FAIL_PARTIALLY_USED

definition buddy_tree_release :: "mem \<Rightarrow> u64 \<Rightarrow> buddy_tree_pos \<Rightarrow> (buddy_tree_release_status \<times> mem) option" where
  "buddy_tree_release m t pos =
     (let internal = buddy_tree_internal_position_tree m t pos
      in if read_from_internal_position m (buddy_tree_bits t) internal \<noteq> local_offset internal
         then Some (BUDDY_TREE_RELEASE_FAIL_PARTIALLY_USED, m)
         else let m = write_to_internal_position m t internal 0
              in map_option (Pair BUDDY_TREE_RELEASE_SUCCESS) (update_parent_chain t m pos internal 0))"

text \<open>
  The search for a free position.  \<^verbatim>\<open>target_status\<close> is an 8-bit number, which is decremented before it is
  compared.
\<close>

function find_free_loop :: "mem \<Rightarrow> u64 \<Rightarrow> u8 \<Rightarrow> buddy_tree_pos \<Rightarrow> u8 \<Rightarrow> u64 \<Rightarrow> buddy_tree_pos" where
  "find_free_loop m t target_depth current_pos target_status current_depth =
     (if current_depth \<noteq> ucast target_depth
      then let target_status = target_status - 1;
               current_depth = current_depth + 1;
               left_pos = buddy_tree_left_child current_pos;
               right_pos = buddy_tree_sibling left_pos;
               left_internal = buddy_tree_internal_position_tree m t left_pos;
               right_internal = left_internal\<lparr>bitset_location := bitset_location left_internal + local_offset left_internal\<rparr>;
               tree_bits = buddy_tree_bits t;
               current_pos =
                 (if compare_with_internal_position m tree_bits left_internal (ucast target_status + 1) then right_pos
                  else if compare_with_internal_position m tree_bits right_internal (ucast target_status + 1) then left_pos
                  else let right_status = read_from_internal_position m tree_bits right_internal
                       in if right_status \<noteq> 0
                          then if compare_with_internal_position m tree_bits left_internal right_status then left_pos else right_pos
                          else left_pos)
           in find_free_loop m t target_depth current_pos target_status current_depth
      else current_pos)"
  by pat_completeness auto
termination
  by (relation "measure (\<lambda>(m, t, target_depth, current_pos, target_status, current_depth). unat (ucast target_depth - current_depth))")
    (auto simp: diff_diff_eq [symmetric] intro!: measure_unat)

declare find_free_loop.simps [simp del]

definition buddy_tree_find_free :: "mem \<Rightarrow> u64 \<Rightarrow> u8 \<Rightarrow> buddy_tree_pos" where
  "buddy_tree_find_free m t target_depth =
     (let current_pos = buddy_tree_root;
          target_status = target_depth - 1;
          current_depth = buddy_tree_depth current_pos
      in if buddy_tree_status m t current_pos > ucast target_status then INVALID_POS
         else find_free_loop m t target_depth current_pos target_status current_depth)"

lemma parent_index_less: "p_index pos \<noteq> 0 \<Longrightarrow> unat (p_index (buddy_tree_parent pos)) < unat (p_index pos)"
  by (simp add: buddy_tree_parent_def unat_div_distrib unat_gt_0)

function is_free_loop :: "mem \<Rightarrow> u64 \<Rightarrow> buddy_tree_pos \<Rightarrow> bool" where
  "is_free_loop m t pos =
     (if buddy_tree_valid m t pos
      then let internal = buddy_tree_internal_position_tree m t pos;
               value = read_from_internal_position m (buddy_tree_bits t) internal
           in if value \<noteq> 0 then value \<noteq> local_offset internal
              else is_free_loop m t (buddy_tree_parent pos)
      else True)"
  by pat_completeness auto
termination
  by (relation "measure (\<lambda>(m, t, pos). unat (p_index pos))") (auto simp: buddy_tree_valid_def intro: parent_index_less)

declare is_free_loop.simps [simp del]

definition buddy_tree_is_free :: "mem \<Rightarrow> u64 \<Rightarrow> buddy_tree_pos \<Rightarrow> bool" where
  "buddy_tree_is_free m t pos = (if buddy_tree_status m t pos \<noteq> 0 then False else is_free_loop m t (buddy_tree_parent pos))"

definition buddy_tree_can_shrink :: "mem \<Rightarrow> u64 \<Rightarrow> bool" where
  "buddy_tree_can_shrink m t =
     (if buddy_tree_status m t (buddy_tree_right_child buddy_tree_root) \<noteq> 0 then False
      else let root_internal = buddy_tree_internal_position_tree m t buddy_tree_root;
               root_value = read_from_internal_position m (buddy_tree_bits t) root_internal
           in root_value \<noteq> local_offset root_internal)"

end
