(* ===== verification/Buddy_Spec.thy ===== *)
theory Buddy_Spec
  imports Buddy_Bits
begin

text \<open>
  What the allocation tree of \<^verbatim>\<open>buddy_alloc.h\<close> promises, without code: a complete binary tree of a given
  order whose nodes are numbered in level order, a set \<open>A\<close> of allocated nodes no two of which lie on a
  path, and the status that every node must have.  The status of a node with \<open>h\<close> levels is \<open>h\<close> minus the
  number of levels of the largest free subtree at or below it.
\<close>

subsection \<open>Nodes\<close>

definition node :: "nat \<Rightarrow> nat \<Rightarrow> bool" where
  "node n i \<longleftrightarrow> 0 < i \<and> i < 2 ^ n"

definition cap :: "nat \<Rightarrow> nat \<Rightarrow> nat" where
  "cap n i = Suc n - blen i"

definition sib :: "nat \<Rightarrow> nat" where
  "sib i = (if even i then i + 1 else i - 1)"

text \<open>\<open>j\<close> lies in the subtree of \<open>i\<close>.\<close>

definition subnode :: "nat \<Rightarrow> nat \<Rightarrow> bool" where
  "subnode i j \<longleftrightarrow> blen i \<le> blen j \<and> j div 2 ^ (blen j - blen i) = i"

lemma node_blen: "node n i \<longleftrightarrow> 0 < blen i \<and> blen i \<le> n"
  by (auto simp: node_def blen_gt_0 blen_less)

lemma cap_pos: "node n i \<Longrightarrow> 0 < cap n i"
  by (simp add: node_blen cap_def)

lemma cap_parent: "node n i \<Longrightarrow> 1 < i \<Longrightarrow> cap n (i div 2) = Suc (cap n i)"
proof -
  assume "node n i" "1 < i"
  then have "blen i = Suc (blen (i div 2))" "blen i \<le> n" by (simp_all add: blen_pos node_blen)
  then show ?thesis by (simp add: cap_def)
qed

lemma node_parent: "node n i \<Longrightarrow> 1 < i \<Longrightarrow> node n (i div 2)"
  by (auto simp: node_def)

lemma node_children:
  assumes "node n i" "1 < cap n i"
  shows "node n (2 * i)" "node n (Suc (2 * i))" "cap n (2 * i) = cap n i - 1" "cap n (Suc (2 * i)) = cap n i - 1"
  using assms by (auto simp: node_blen cap_def blen_gt_0)

lemma sib_parent: "1 < i \<Longrightarrow> sib i div 2 = i div 2" "1 < i \<Longrightarrow> {i, sib i} = {2 * (i div 2), Suc (2 * (i div 2))}"
  by (auto simp: sib_def elim!: evenE oddE)

lemma sib_blen: "1 < i \<Longrightarrow> blen (sib i) = blen i"
  using sib_parent(1) [of i] by (simp add: blen_pos sib_def split: if_splits)

lemma sib_node: "node n i \<Longrightarrow> 1 < i \<Longrightarrow> node n (sib i)" "1 < i \<Longrightarrow> cap n (sib i) = cap n i"
  by (simp_all add: node_blen cap_def sib_blen)

lemma subnode_pos: "0 < i \<Longrightarrow> subnode i j \<Longrightarrow> 0 < j"
  by (auto simp: subnode_def intro: gr0I)

lemma subnode_eq: "subnode i j \<Longrightarrow> blen j - blen i = 0 \<Longrightarrow> i = j"
  by (simp add: subnode_def)

lemma subnode_less: "subnode i j \<Longrightarrow> i \<noteq> j \<Longrightarrow> blen i < blen j"
  using subnode_eq [of i j] unfolding subnode_def by linarith

lemma subnode_refl [simp]: "subnode i i"
  by (simp add: subnode_def)

lemma subnode_iff: "0 < i \<Longrightarrow> subnode i j \<longleftrightarrow> (\<exists>k. j div 2 ^ k = i)"
proof
  assume "0 < i" "\<exists>k. j div 2 ^ k = i"
  then obtain k where k: "j div 2 ^ k = i" by blast
  then have "blen i = blen j - k" using blen_div_pow2 by metis
  moreover have "0 < blen i" using \<open>0 < i\<close> by (simp add: blen_gt_0)
  ultimately show "subnode i j" using k by (simp add: subnode_def)
qed (auto simp: subnode_def)

lemma subnode_trans: "0 < i \<Longrightarrow> subnode i j \<Longrightarrow> subnode j k \<Longrightarrow> subnode i k"
proof -
  assume i: "0 < i" "subnode i j" "subnode j k"
  moreover from this have "0 < j" using subnode_pos by blast
  ultimately show "subnode i k" by (metis subnode_iff div_mult2_eq power_add)
qed

lemma subnode_antisym: "subnode i j \<Longrightarrow> subnode j i \<Longrightarrow> i = j"
  by (simp add: subnode_def)

lemma subnode_linear: "subnode i k \<Longrightarrow> subnode j k \<Longrightarrow> subnode i j \<or> subnode j i"
proof -
  have *: "subnode i j" if "subnode i k" "subnode j k" "blen i \<le> blen j" for i j
  proof -
    have "blen k - blen i = (blen k - blen j) + (blen j - blen i)" using that by (simp add: subnode_def)
    then have "k div 2 ^ (blen k - blen i) = k div 2 ^ (blen k - blen j) div 2 ^ (blen j - blen i)"
      by (simp add: power_add div_mult2_eq)
    then have "j div 2 ^ (blen j - blen i) = i" using that by (simp add: subnode_def)
    then show ?thesis using that by (simp add: subnode_def)
  qed
  assume "subnode i k" "subnode j k"
  then show ?thesis using * by (cases "blen i \<le> blen j") auto
qed

lemma subnode_parent: "1 < i \<Longrightarrow> subnode (i div 2) i"
  by (simp add: subnode_def blen_pos [of i])

lemma subnode_child:
  assumes "0 < i" "subnode i j" "i \<noteq> j"
  shows "subnode i (j div 2)"
proof -
  have "blen i < blen j" using assms(2,3) by (rule subnode_less)
  moreover have "0 < j" using assms subnode_pos by blast
  ultimately have b: "blen (j div 2) = blen j - 1" "blen i \<le> blen (j div 2)" "blen j - blen i = Suc (blen (j div 2) - blen i)"
    by (simp_all add: blen_pos)
  have "j div 2 ^ (blen j - blen i) = i" using assms(2) by (simp add: subnode_def)
  then have "j div 2 div 2 ^ (blen (j div 2) - blen i) = i" unfolding b(3) by (simp add: div_mult2_eq)
  then show ?thesis using b(2) by (simp add: subnode_def)
qed

lemma subnode_cases:
  assumes "0 < i" "subnode i j" "i \<noteq> j"
  shows "subnode (2 * i) j \<or> subnode (Suc (2 * i)) j"
proof -
  obtain k where k: "j div 2 ^ k = i" using assms(1,2) subnode_iff by blast
  then obtain l where l: "k = Suc l" using assms(3) by (cases k) auto
  have "j div 2 ^ l div 2 = i" using k unfolding l power_Suc2 div_mult2_eq .
  then have "j div 2 ^ l = 2 * i \<or> j div 2 ^ l = Suc (2 * i)" by linarith
  then show ?thesis using assms(1) subnode_iff [of "2 * i" j] subnode_iff [of "Suc (2 * i)" j] by auto
qed

lemma subnode_siblings: "subnode (2 * i) j \<Longrightarrow> subnode (Suc (2 * i)) j \<Longrightarrow> 0 < i \<Longrightarrow> False"
  by (simp add: subnode_def)

lemma subnode_child_up: "0 < i \<Longrightarrow> subnode (2 * i) j \<or> subnode (Suc (2 * i)) j \<Longrightarrow> subnode i j"
  using subnode_trans [of i "2 * i" j] subnode_trans [of i "Suc (2 * i)" j] subnode_parent [of "2 * i"] subnode_parent [of "Suc (2 * i)"] by auto

subsection \<open>Statuses\<close>

definition comb :: "nat \<Rightarrow> nat \<Rightarrow> nat" where
  "comb a b = (if a = 0 \<and> b = 0 then 0 else Suc (min a b))"

primrec hspec :: "nat \<Rightarrow> nat set \<Rightarrow> nat \<Rightarrow> nat" where
  "hspec 0 A i = 0"
| "hspec (Suc h) A i = (if i \<in> A then Suc h else comb (hspec h A (2 * i)) (hspec h A (Suc (2 * i))))"

definition spec :: "nat \<Rightarrow> nat set \<Rightarrow> nat \<Rightarrow> nat" where
  "spec n A i = hspec (cap n i) A i"

definition antichain :: "nat \<Rightarrow> nat set \<Rightarrow> bool" where
  "antichain n A \<longleftrightarrow> (\<forall>a \<in> A. node n a) \<and> (\<forall>a \<in> A. \<forall>b \<in> A. subnode a b \<longrightarrow> a = b)"

definition free_node :: "nat \<Rightarrow> nat set \<Rightarrow> nat \<Rightarrow> bool" where
  "free_node n A j \<longleftrightarrow> node n j \<and> (\<forall>a \<in> A. \<not> subnode a j \<and> \<not> subnode j a)"

lemma comb_commute: "comb a b = comb b a"
  by (simp add: comb_def min.commute)

lemma hspec_le: "hspec h A i \<le> h"
proof (induction h arbitrary: i)
  case (Suc h)
  have "min (hspec h A (2 * i)) (hspec h A (Suc (2 * i))) \<le> h" using Suc [of "2 * i"] by linarith
  then show ?case by (simp add: comb_def)
qed simp

lemma spec_le: "spec n A i \<le> cap n i"
  by (simp add: spec_def hspec_le)

lemma hspec_cong: "0 < i \<Longrightarrow> (\<And>a. subnode i a \<Longrightarrow> a \<in> A \<longleftrightarrow> a \<in> B) \<Longrightarrow> hspec h A i = hspec h B i"
proof (induction h arbitrary: i)
  case (Suc h)
  have "i \<in> A \<longleftrightarrow> i \<in> B" using Suc(3) by simp
  moreover have "hspec h A (2 * i) = hspec h B (2 * i)" "hspec h A (Suc (2 * i)) = hspec h B (Suc (2 * i))"
    using Suc(2,3) subnode_child_up [of i] by (auto intro!: Suc(1))
  ultimately show ?case by simp
qed simp

lemma spec_cong: "0 < i \<Longrightarrow> (\<And>a. subnode i a \<Longrightarrow> a \<in> A \<longleftrightarrow> a \<in> B) \<Longrightarrow> spec n A i = spec n B i"
  unfolding spec_def by (rule hspec_cong)

lemma spec_in: "node n i \<Longrightarrow> i \<in> A \<Longrightarrow> spec n A i = cap n i"
  using cap_pos [of n i] by (cases "cap n i") (simp_all add: spec_def)

lemma spec_local:
  assumes "node n i" "1 < cap n i" "i \<notin> A"
  shows "spec n A i = comb (spec n A (2 * i)) (spec n A (Suc (2 * i)))"
proof -
  obtain h where "cap n i = Suc h" using assms(2) by (cases "cap n i") simp
  then show ?thesis using assms node_children [OF assms(1,2)] by (simp add: spec_def)
qed

lemma spec_leaf: "cap n i = 1 \<Longrightarrow> i \<notin> A \<Longrightarrow> spec n A i = 0"
  by (simp add: spec_def comb_def)

lemma hspec_empty: "hspec h {} i = 0"
  by (induction h arbitrary: i) (simp_all add: comb_def)

lemma hspec_0: "0 < i \<Longrightarrow> (\<And>a. a \<in> A \<Longrightarrow> \<not> subnode i a) \<Longrightarrow> hspec h A i = 0"
  by (subst hspec_cong [of i A "{}" h]) (auto simp: hspec_empty)

lemma spec_0_iff:
  assumes "node n i" "antichain n A"
  shows "spec n A i = 0 \<longleftrightarrow> (\<forall>a \<in> A. \<not> subnode i a)"
proof
  show "\<forall>a \<in> A. \<not> subnode i a" if "spec n A i = 0"
  proof (intro ballI notI)
    fix a
    assume a: "a \<in> A" "subnode i a"
    have "node n i \<Longrightarrow> subnode i a \<Longrightarrow> spec n A i \<noteq> 0"
    proof (induction "blen a - blen i" arbitrary: i)
      case 0
      then have "i = a" using subnode_eq by simp
      then show ?case using a(1) 0 cap_pos spec_in by force
    next
      case (Suc d)
      then have ne: "i \<noteq> a" and i: "0 < i" by (auto simp: node_def)
      have an: "node n a" using assms(2) a(1) by (simp add: antichain_def)
      have "blen i < blen a" using Suc by linarith
      then have c: "1 < cap n i" using an by (simp add: cap_def node_blen)
      show ?case
      proof (cases "i \<in> A")
        case True
        then show ?thesis using spec_in [OF Suc(3)] cap_pos [OF Suc(3)] by simp
      next
        case False
        note ch = node_children [OF Suc(3) c]
        have "d = blen a - blen (2 * i)" "d = blen a - blen (Suc (2 * i))" using Suc(2) i by simp_all
        then have "spec n A (2 * i) \<noteq> 0 \<or> spec n A (Suc (2 * i)) \<noteq> 0"
          using subnode_cases [OF i Suc(4) ne] Suc(1) ch(1,2) by blast
        then show ?thesis using spec_local [OF Suc(3) c False] by (auto simp: comb_def)
      qed
    qed
    then show False using that assms(1) a(2) by blast
  qed
  show "spec n A i = 0" if "\<forall>a \<in> A. \<not> subnode i a"
    using that assms(1) by (simp add: spec_def node_def hspec_0)
qed

text \<open>A free node in a subtree bounds the status of the subtree.\<close>

lemma spec_free:
  assumes "antichain n A" "node n i" "subnode i j" "free_node n A j"
  shows "spec n A i \<le> blen j - blen i"
  using assms(2,3)
proof (induction "blen j - blen i" arbitrary: i)
  case 0
  then have "i = j" using subnode_eq by simp
  then have "spec n A i = 0" using assms(4) spec_0_iff [OF 0(2) assms(1)] by (auto simp: free_node_def)
  then show ?case by simp
next
  case (Suc d)
  then have ne: "i \<noteq> j" and i: "0 < i" by (auto simp: node_def)
  have jn: "node n j" using assms(4) by (simp add: free_node_def)
  have lt: "blen i < blen j" using Suc by linarith
  then have c: "1 < cap n i" using jn by (simp add: cap_def node_blen)
  have notin: "i \<notin> A" using assms(4) Suc(4) by (auto simp: free_node_def)
  note ch = node_children [OF Suc(3) c]
  have "d = blen j - blen (2 * i)" "d = blen j - blen (Suc (2 * i))" using Suc(2) i by simp_all
  then have "spec n A (2 * i) \<le> d \<or> spec n A (Suc (2 * i)) \<le> d"
    using subnode_cases [OF i Suc(4) ne] Suc(1) ch(1,2) by metis
  then show ?case using spec_local [OF Suc(3) c notin] Suc(2) by (auto simp: comb_def)
qed

subsection \<open>Descending to a free node\<close>

definition pick_child :: "(nat \<Rightarrow> nat) \<Rightarrow> nat \<Rightarrow> nat \<Rightarrow> nat" where
  "pick_child S i k =
     (if k \<le> S (2 * i) then Suc (2 * i)
      else if k \<le> S (Suc (2 * i)) then 2 * i
      else if S (Suc (2 * i)) \<noteq> 0 \<and> S (2 * i) < S (Suc (2 * i)) then Suc (2 * i) else 2 * i)"

primrec pick :: "(nat \<Rightarrow> nat) \<Rightarrow> nat \<Rightarrow> nat \<Rightarrow> nat" where
  "pick S 0 i = i"
| "pick S (Suc k) i = pick S k (pick_child S i (Suc k))"

lemma pick_child_cases: "pick_child S i k = 2 * i \<or> pick_child S i k = Suc (2 * i)"
  by (simp add: pick_child_def)

lemma pick_free:
  assumes "antichain n A"
  shows "node n i \<Longrightarrow> k < cap n i \<Longrightarrow> (\<And>x. node n x \<Longrightarrow> S x = spec n A x) \<Longrightarrow> spec n A i \<le> k \<Longrightarrow>
    (\<And>a. a \<in> A \<Longrightarrow> a \<noteq> i \<Longrightarrow> \<not> subnode a i) \<Longrightarrow> free_node n A (pick S k i) \<and> blen (pick S k i) = blen i + k"
proof (induction k arbitrary: i)
  case 0
  then have "\<forall>a \<in> A. \<not> subnode i a" using spec_0_iff [OF 0(1) assms] by simp
  then show ?case using 0 by (auto simp: free_node_def)
next
  case (Suc k)
  let ?c = "pick_child S i (Suc k)"
  have c: "1 < cap n i" using Suc(3) by simp
  note ch = node_children [OF Suc(2) c]
  have notin: "i \<notin> A" using spec_in [OF Suc(2)] Suc(3,5) by auto
  have i: "0 < i" using Suc(2) by (simp add: node_def)
  have S: "S (2 * i) = spec n A (2 * i)" "S (Suc (2 * i)) = spec n A (Suc (2 * i))" using Suc(4) ch by simp_all
  have nc: "node n ?c" "cap n ?c = cap n i - 1" "blen ?c = Suc (blen i)" "?c div 2 = i"
    using pick_child_cases [of S i "Suc k"] ch i by auto
  have "comb (spec n A (2 * i)) (spec n A (Suc (2 * i))) \<le> Suc k" using Suc(5) spec_local [OF Suc(2) c notin] by simp
  then have sc: "spec n A ?c \<le> k" by (auto simp: pick_child_def comb_def S split: if_splits)
  have "\<not> subnode a ?c" if a: "a \<in> A" "a \<noteq> ?c" for a
  proof
    assume "subnode a ?c"
    moreover have "0 < a" using assms a by (auto simp: antichain_def node_def)
    ultimately have "subnode a i" using subnode_child [of a ?c] a(2) nc(4) by simp
    then show False using Suc(6) [of a] a(1) notin by auto
  qed
  then show ?case using Suc(1) [OF nc(1) _ Suc(4) sc] nc Suc(3) by simp
qed

subsection \<open>Updating the ancestors\<close>

definition strictly_above :: "nat \<Rightarrow> nat \<Rightarrow> bool" where
  "strictly_above p i \<longleftrightarrow> 0 < p \<and> p \<noteq> i \<and> subnode p i"

definition balanced :: "(nat \<Rightarrow> nat) \<Rightarrow> nat \<Rightarrow> bool" where
  "balanced S p \<longleftrightarrow> S p = comb (S (2 * p)) (S (Suc (2 * p)))"

function up :: "(nat \<Rightarrow> nat) \<Rightarrow> nat \<Rightarrow> (nat \<Rightarrow> nat)" where
  "up S i =
     (if i \<le> 1 then S
      else let p = i div 2; v = comb (S i) (S (sib i))
           in if v = S p then S else up (S(p := v)) p)"
  by pat_completeness auto
termination
  by (relation "measure snd") auto

declare up.simps [simp del]

lemma strictly_above_parent: "1 < i \<Longrightarrow> strictly_above p i \<longleftrightarrow> p = i div 2 \<or> strictly_above p (i div 2)"
proof
  assume i: "1 < i" "strictly_above p i"
  then show "p = i div 2 \<or> strictly_above p (i div 2)"
    using subnode_child [of p i] by (auto simp: strictly_above_def)
next
  assume i: "1 < i" "p = i div 2 \<or> strictly_above p (i div 2)"
  then have "subnode p i" "0 < p" using subnode_parent [of i] subnode_trans [of p "i div 2" i] by (auto simp: strictly_above_def)
  moreover have "p \<noteq> i"
  proof
    assume "p = i"
    then have "subnode i (i div 2)" using i by (auto simp: strictly_above_def)
    then show False using subnode_parent [OF i(1)] subnode_antisym [of i "i div 2"] i(1) by simp
  qed
  ultimately show "strictly_above p i" by (simp add: strictly_above_def)
qed

lemma comb_sib: "1 < i \<Longrightarrow> comb (S i) (S (sib i)) = comb (S (2 * (i div 2))) (S (Suc (2 * (i div 2))))"
  by (cases "even i") (auto simp: sib_def comb_commute elim!: evenE oddE)

lemma up_balanced:
  "(\<And>p. strictly_above p i \<Longrightarrow> p \<noteq> i div 2 \<Longrightarrow> balanced S p) \<Longrightarrow>
   (\<forall>p. strictly_above p i \<longrightarrow> balanced (up S i) p) \<and> (\<forall>x. \<not> strictly_above x i \<longrightarrow> up S i x = S x)"
proof (induction S i rule: up.induct)
  case (1 S i)
  show ?case
  proof (cases "i \<le> 1")
    case True
    have "\<not> strictly_above p i" for p
    proof
      assume p: "strictly_above p i"
      then have "0 < p" "blen p < blen i" using subnode_less [of p i] by (auto simp: strictly_above_def)
      moreover have "blen i \<le> 1" using True by (cases i) auto
      ultimately show False using blen_gt_0 [of p] by linarith
    qed
    then show ?thesis using True by (simp add: up.simps)
  next
    case False
    let ?p = "i div 2" and ?v = "comb (S i) (S (sib i))"
    have i: "1 < i" using False by simp
    have far: "x \<noteq> ?p" if "x \<in> {2 * q, Suc (2 * q)}" "q \<noteq> ?p div 2" for x q using that by auto
    have ch: "2 * ?p \<noteq> ?p" "Suc (2 * ?p) \<noteq> ?p" using i by auto
    show ?thesis
    proof (cases "?v = S ?p")
      case True
      then have "balanced S ?p" using comb_sib [OF i, of S] by (simp add: balanced_def)
      then show ?thesis using 1(2) True False by (subst (1 2) up.simps) (auto simp: Let_def)
    next
      case ne: False
      let ?S = "S(?p := ?v)"
      have step: "up S i = up ?S ?p" using ne False by (subst up.simps) (simp add: Let_def)
      have "balanced ?S q" if q: "strictly_above q ?p" "q \<noteq> ?p div 2" for q
      proof -
        have "q \<noteq> ?p" using q(1) by (simp add: strictly_above_def)
        moreover have "balanced S q" using 1(2) [of q] q strictly_above_parent [OF i] \<open>q \<noteq> ?p\<close> by blast
        ultimately show ?thesis using far [of "2 * q" q] far [of "Suc (2 * q)" q] q(2) by (simp add: balanced_def)
      qed
      then have IH: "\<forall>q. strictly_above q ?p \<longrightarrow> balanced (up ?S ?p) q" "\<forall>x. \<not> strictly_above x ?p \<longrightarrow> up ?S ?p x = ?S x"
        using 1(1) [OF _ refl refl ne] False by blast+
      have np: "\<not> strictly_above ?p ?p" by (simp add: strictly_above_def)
      have nc: "\<not> strictly_above x ?p" if "x \<in> {2 * ?p, Suc (2 * ?p)}" for x
      proof
        assume "strictly_above x ?p"
        then have "blen x < blen ?p" using subnode_less by (auto simp: strictly_above_def)
        then show False using that i by auto
      qed
      have "balanced (up ?S ?p) ?p"
        using IH(2) np nc ch comb_sib [OF i, of S] by (simp add: balanced_def)
      then show ?thesis using IH strictly_above_parent [OF i] unfolding step by auto
    qed
  qed
qed

lemma strictly_above_node:
  assumes "strictly_above p i" "node n i"
  shows "node n p" "1 < cap n p" "blen p < blen i"
  using assms subnode_less [of p i] blen_gt_0 [of p] by (auto simp: strictly_above_def node_blen cap_def)

text \<open>Statuses that are right off a path and balanced on it are right.\<close>

lemma spec_unique:
  assumes "node n i" "\<And>x. node n x \<Longrightarrow> \<not> strictly_above x i \<Longrightarrow> S x = spec n A x"
    "\<And>p. strictly_above p i \<Longrightarrow> balanced S p \<and> p \<notin> A" "node n x"
  shows "S x = spec n A x"
  using assms(4)
proof (induction "blen i - blen x" arbitrary: x rule: less_induct)
  case less
  show ?case
  proof (cases "strictly_above x i")
    case True
    note x = strictly_above_node [OF True assms(1)]
    note ch = node_children [OF x(1,2)]
    have "blen i - blen (2 * x) < blen i - blen x" "blen i - blen (Suc (2 * x)) < blen i - blen x"
      using x(3) less(2) by (auto simp: node_def)
    then have "S (2 * x) = spec n A (2 * x)" "S (Suc (2 * x)) = spec n A (Suc (2 * x))" using less(1) ch(1,2) by blast+
    then show ?thesis using assms(3) [OF True] spec_local [OF x(1,2)] by (simp add: balanced_def)
  qed (use assms(2) less(2) in blast)
qed

lemma up_spec:
  assumes "antichain n A" "\<And>x. node n x \<Longrightarrow> S x = spec n A x" "node n j" "v = spec n B j"
    "\<And>a. a \<noteq> j \<Longrightarrow> a \<in> A \<longleftrightarrow> a \<in> B" "\<And>p. strictly_above p j \<Longrightarrow> p \<notin> A" "node n x"
  shows "up (S(j := v)) j x = spec n B x"
proof -
  let ?S = "S(j := v)"
  have "balanced ?S p" if p: "strictly_above p j" "p \<noteq> j div 2" for p
  proof -
    note pn = strictly_above_node [OF p(1) assms(3)]
    have "p \<noteq> j" "2 * p \<noteq> j" "Suc (2 * p) \<noteq> j" using p by (auto simp: strictly_above_def)
    then show ?thesis
      using spec_local [OF pn(1,2) assms(6) [OF p(1)]] node_children [OF pn(1,2)] assms(2) pn(1) by (simp add: balanced_def)
  qed
  note up = up_balanced [of j ?S, OF this]
  show ?thesis
  proof (rule spec_unique [OF assms(3) _ _ assms(7)])
    fix y
    assume y: "node n y" "\<not> strictly_above y j"
    have "?S y = spec n B y"
    proof (cases "y = j")
      case False
      have "\<not> subnode y j" "0 < y" using False y by (auto simp: strictly_above_def node_def)
      then have "spec n A y = spec n B y" using assms(5) by (intro spec_cong) metis+
      then show ?thesis using assms(2) y(1) False by simp
    qed (simp add: assms(4))
    then show "up ?S j y = spec n B y" using up y(2) by simp
  next
    fix p
    assume p: "strictly_above p j"
    then have "p \<noteq> j" by (simp add: strictly_above_def)
    then show "balanced (up ?S j) p \<and> p \<notin> B" using up p assms(5,6) by blast
  qed
qed

lemma mark_spec:
  assumes "antichain n A" "\<And>x. node n x \<Longrightarrow> S x = spec n A x" "free_node n A j"
  shows "antichain n (insert j A)" "node n x \<Longrightarrow> up (S(j := cap n j)) j x = spec n (insert j A) x"
proof -
  have j: "node n j" "\<And>a. a \<in> A \<Longrightarrow> \<not> subnode a j" "\<And>a. a \<in> A \<Longrightarrow> \<not> subnode j a"
    using assms(3) by (auto simp: free_node_def)
  show "antichain n (insert j A)" using assms(1) j by (auto simp: antichain_def)
  show "node n x \<Longrightarrow> up (S(j := cap n j)) j x = spec n (insert j A) x"
    using j spec_in [OF j(1), of "insert j A"] by (intro up_spec [OF assms(1,2)]) (auto simp: strictly_above_def)
qed

lemma release_spec:
  assumes "antichain n A" "\<And>x. node n x \<Longrightarrow> S x = spec n A x" "j \<in> A"
  shows "antichain n (A - {j})" "node n x \<Longrightarrow> up (S(j := 0)) j x = spec n (A - {j}) x" "free_node n (A - {j}) j"
proof -
  have j: "node n j" "\<And>a. a \<in> A \<Longrightarrow> a \<noteq> j \<Longrightarrow> \<not> subnode a j" "\<And>a. a \<in> A \<Longrightarrow> a \<noteq> j \<Longrightarrow> \<not> subnode j a"
    using assms(1,3) by (auto simp: antichain_def)
  show ac: "antichain n (A - {j})" using assms(1) by (auto simp: antichain_def)
  have "spec n (A - {j}) j = 0" using j(3) spec_0_iff [OF j(1) ac] by auto
  then show "node n x \<Longrightarrow> up (S(j := 0)) j x = spec n (A - {j}) x"
    using j assms(3) by (intro up_spec [OF assms(1,2)]) (auto simp: strictly_above_def)
  show "free_node n (A - {j}) j" using j by (auto simp: free_node_def)
qed

text \<open>A full node with an empty child is allocated itself.\<close>

lemma full_node:
  assumes "node n c" "1 < c" "spec n A (c div 2) = cap n (c div 2)" "spec n A c = 0"
  shows "c div 2 \<in> A"
proof (rule ccontr)
  assume notin: "c div 2 \<notin> A"
  have p: "node n (c div 2)" "cap n (c div 2) = Suc (cap n c)" "1 < cap n (c div 2)"
    using node_parent [OF assms(1,2)] cap_parent [OF assms(1,2)] cap_pos [OF assms(1)] by simp_all
  have "spec n A (c div 2) = comb (spec n A c) (spec n A (sib c))"
    using spec_local [OF p(1,3) notin] comb_sib [OF assms(2), of "spec n A"] by simp
  then show False using assms(3,4) p(2) cap_pos [OF assms(1)] by (simp add: comb_def split: if_splits)
qed

end
