(* ===== verification/Buddy_Status.thy ===== *)
theory Buddy_Status
  imports Buddy_Tree Buddy_Spec
begin

text \<open>
  The statuses of the nodes in memory: where the bits of a node lie, that the bits of different
  nodes are disjoint and clear of the table behind them, and what reading, comparing and writing a
  status means.
\<close>

subsection \<open>Rows of the bitset\<close>

text \<open>The nodes with \<open>l\<close> levels start at bit \<open>row n l\<close>.\<close>

definition row :: "nat \<Rightarrow> nat \<Rightarrow> nat" where
  "row n l = (\<Sum>k \<in> {l<..n}. k * 2 ^ (n - k))"

definition loc :: "nat \<Rightarrow> nat \<Rightarrow> nat" where
  "loc n i = row n (cap n i) + cap n i * (i - 2 ^ (blen i - 1))"

lemma row_top [simp]: "row n n = 0"
  by (simp add: row_def)

lemma row_step: "l < n \<Longrightarrow> row n l = row n (Suc l) + Suc l * 2 ^ (n - Suc l)"
proof -
  assume "l < n"
  then have "{l<..n} = insert (Suc l) {Suc l<..n}" by auto
  then show ?thesis unfolding row_def by (simp add: add.commute)
qed

lemma row_antimono: "k \<le> l \<Longrightarrow> row n l \<le> row n k"
  unfolding row_def by (rule sum_mono2) auto

lemma row_0: "row n 0 + n + 2 = 2 ^ Suc n"
proof (induction n)
  case (Suc n)
  have "{0<..Suc n} = insert (Suc n) {0<..n}" by auto
  then have "row (Suc n) 0 = Suc n + (\<Sum>k \<in> {0<..n}. k * 2 ^ (Suc n - k))" by (simp add: row_def)
  also have "(\<Sum>k \<in> {0<..n}. k * 2 ^ (Suc n - k)) = 2 * row n 0"
    by (simp add: row_def sum_distrib_left) (rule sum.cong, simp_all add: Suc_diff_le)
  finally show ?case using Suc by simp
qed simp

lemma row_le: "row n l \<le> row n 0"
  by (rule row_antimono) simp

lemma node_index:
  assumes "node n i"
  shows "i - 2 ^ (blen i - 1) < 2 ^ (blen i - 1)" "2 ^ (blen i - 1) \<le> i" "n - cap n i = blen i - 1" "cap n i \<le> n" "0 < blen i"
proof -
  have "0 < i" "0 < blen i" "blen i \<le> n" using assms by (simp_all add: node_def blen_gt_0 blen_less)
  then have "(2 :: nat) ^ blen i = 2 * 2 ^ (blen i - 1)" by (simp add: power_eq_if)
  then show "i - 2 ^ (blen i - 1) < 2 ^ (blen i - 1)" "2 ^ (blen i - 1) \<le> i"
    using blen_upper [of i] blen_lower [OF \<open>0 < i\<close>] by linarith+
  show "n - cap n i = blen i - 1" "cap n i \<le> n" "0 < blen i"
    using \<open>0 < blen i\<close> \<open>blen i \<le> n\<close> unfolding cap_def by linarith+
qed

lemma loc_row_end:
  assumes "node n i"
  shows "loc n i + cap n i \<le> row n (cap n i - 1)"
proof -
  note i = node_index [OF assms] and c = cap_pos [OF assms]
  have "cap n i * (i - 2 ^ (blen i - 1)) + cap n i = cap n i * Suc (i - 2 ^ (blen i - 1))" by simp
  also have "\<dots> \<le> cap n i * 2 ^ (blen i - 1)" using i(1) by (intro mult_le_mono2) simp
  finally show ?thesis using row_step [of "cap n i - 1" n] c i(3,4) by (simp add: loc_def)
qed

lemma loc_end: "node n i \<Longrightarrow> loc n i + cap n i \<le> row n 0"
  using loc_row_end [of n i] row_le [of n "cap n i - 1"] by linarith

lemma loc_less:
  assumes "node n i" "node n j" "i < j"
  shows "loc n i + cap n i \<le> loc n j"
proof (cases "blen i = blen j")
  case True
  have "Suc (i - 2 ^ (blen i - 1)) \<le> j - 2 ^ (blen j - 1)" using assms(3) node_index(2) [OF assms(1)] True by simp
  then have "cap n i * Suc (i - 2 ^ (blen i - 1)) \<le> cap n i * (j - 2 ^ (blen j - 1))" by (rule mult_le_mono2)
  then show ?thesis using True by (simp add: loc_def cap_def)
next
  case False
  then have "blen i < blen j" using blen_mono [of i j] assms(3) by simp
  then have "cap n j \<le> cap n i - 1" by (simp add: cap_def)
  then have "row n (cap n i - 1) \<le> row n (cap n j)" by (rule row_antimono)
  then show ?thesis using loc_row_end [OF assms(1)] by (simp add: loc_def)
qed

lemma loc_disjoint:
  assumes "node n i" "node n j" "a < cap n i" "b < cap n j"
  shows "loc n i + a = loc n j + b \<longleftrightarrow> i = j \<and> a = b"
  using loc_less [OF assms(1,2)] loc_less [OF assms(2,1)] assms(3,4) by (cases i j rule: linorder_cases) auto

lemma row_bound: "n \<le> 58 \<Longrightarrow> row n 0 < 576460752303423488"
proof -
  assume "n \<le> 58"
  then have "(2 :: nat) ^ Suc n \<le> 2 ^ 59" by (intro power_increasing) simp_all
  then show ?thesis using row_0 [of n] by simp
qed

subsection \<open>Sizes\<close>

lemma of_nat_u8: "k < 256 \<Longrightarrow> unat (of_nat k :: u8) = k" "k < 256 \<Longrightarrow> (ucast (of_nat k :: u8) :: u64) = of_nat k"
proof -
  assume k: "k < 256"
  then show u: "unat (of_nat k :: u8) = k" by (simp add: unat_of_nat take_bit_eq_mod)
  have "unat (ucast (of_nat k :: u8) :: u64) = unat (of_nat k :: u64)"
    using k u by (simp add: unat_ucast_up unat_of_nat64)
  then show "(ucast (of_nat k :: u8) :: u64) = of_nat k" by (rule word_unat_eq_iff [THEN iffD2])
qed

lemma ucast_of_nat_u8: "k < 256 \<Longrightarrow> (ucast (of_nat k :: u64) :: u8) = of_nat k"
  by (simp add: word_unat_eq_iff unsigned_ucast_eq unat_of_nat64 of_nat_u8 take_bit_eq_mod)

lemma size_for_order_loop_row:
  "l \<le> k \<Longrightarrow> k \<le> n \<Longrightarrow> n < 256 \<Longrightarrow>
   size_for_order_loop (of_nat k) (of_nat l) (of_nat (row n k)) (of_nat (2 ^ (n - k))) = of_nat (row n l)"
proof (induction "k - l" arbitrary: k)
  case 0
  then show ?case by (subst size_for_order_loop.simps) simp
next
  case (Suc d)
  let ?j = "k - 1"
  have k: "l < k" "k = Suc ?j" using Suc(2) by simp_all
  have ne: "(of_nat k :: u8) \<noteq> of_nat l" using k(1) Suc(4,5) of_nat_u8(1) [of k] of_nat_u8(1) [of l] by auto
  have "row n ?j = row n k + k * 2 ^ (n - k)" using row_step [of ?j n] k Suc(4) by simp
  moreover have "n - ?j = Suc (n - k)" using k(2) Suc(4) by linarith
  then have "(2 :: nat) ^ (n - ?j) = 2 ^ (n - k) * 2" by simp
  moreover have "(of_nat ?j :: u8) = of_nat k - 1" using k(2) by (metis add_diff_cancel_right' of_nat_1 of_nat_add Suc_eq_plus1)
  moreover have "(ucast (of_nat k :: u8) :: u64) = of_nat k" using Suc(4,5) of_nat_u8(2) [of k] by simp
  moreover have "size_for_order_loop (of_nat ?j) (of_nat l) (of_nat (row n ?j)) (of_nat (2 ^ (n - ?j))) = of_nat (row n l)"
    using Suc(1) [of ?j] Suc(2-5) k by simp
  ultimately show ?case using ne by (subst size_for_order_loop.simps) (simp add: mult.commute)
qed

lemma size_for_order_row: "l \<le> n \<Longrightarrow> n < 256 \<Longrightarrow> size_for_order (of_nat n) (of_nat l) = of_nat (row n l)"
  using size_for_order_loop_row [of l n n] by (simp add: size_for_order_def)

subsection \<open>The layout of a tree\<close>

definition bitset_bytes :: "nat \<Rightarrow> nat" where
  "bitset_bytes n = (row n 0 + 7) div 8"

definition padded :: "nat \<Rightarrow> nat" where
  "padded n = bitset_bytes n + bitset_bytes n mod 8"

definition table_word :: "nat \<Rightarrow> nat" where
  "table_word n = Suc (padded n div 8)"

definition tree_bytes :: "nat \<Rightarrow> nat" where
  "tree_bytes n = 24 + padded n + 8 * (n + 2)"

definition tree_at :: "mem \<Rightarrow> u64 \<Rightarrow> nat \<Rightarrow> bool" where
  "tree_at m t n \<longleftrightarrow> 0 < n \<and> n \<le> 58 \<and> buddy_tree_order m t = of_nat n \<and> upper_pos_bound m t = of_nat (2 ^ n) \<and>
     size_for_order_offset m t = of_nat (table_word n) \<and>
     (\<forall>k \<le> n. load64 m (t + 24 + of_nat (8 * (table_word n + k))) = of_nat (row n k))"

definition statuses :: "mem \<Rightarrow> u64 \<Rightarrow> nat \<Rightarrow> (nat \<Rightarrow> nat) \<Rightarrow> bool" where
  "statuses m t n S \<longleftrightarrow> (\<forall>i. node n i \<longrightarrow> S i \<le> cap n i \<and> (\<forall>a < cap n i. bit_at m (t + 24) (loc n i + a) \<longleftrightarrow> a < S i))"

text \<open>Two memories that only differ in the bitset.\<close>

definition bits_frame :: "nat \<Rightarrow> u64 \<Rightarrow> mem \<Rightarrow> mem \<Rightarrow> bool" where
  "bits_frame n t m m' \<longleftrightarrow> (\<forall>x. bitset_bytes n \<le> unat (x - (t + 24)) \<longrightarrow> m' x = m x)"

lemma bits_frame_refl [simp]: "bits_frame n t m m"
  by (simp add: bits_frame_def)

lemma bits_frame_trans: "bits_frame n t m m' \<Longrightarrow> bits_frame n t m' m'' \<Longrightarrow> bits_frame n t m m''"
  by (simp add: bits_frame_def)

lemma layout_bounds:
  assumes "n \<le> 58"
  shows "bitset_bytes n \<le> 8 * table_word n" "8 * (table_word n + n + 1) \<le> padded n + 8 * (n + 2)"
    "padded n < 288230376151711744" "bitset_bytes n \<le> padded n" "row n 0 \<le> 8 * bitset_bytes n"
    "8 * (table_word n + n + 1) < 288230376151711744"
proof -
  have r: "row n 0 < 576460752303423488" using assms by (rule row_bound)
  have m8: "bitset_bytes n mod 8 < 8" by simp
  have d: "8 * (bitset_bytes n div 8) + bitset_bytes n mod 8 = bitset_bytes n" by simp
  have p: "8 * (padded n div 8) + padded n mod 8 = padded n" "padded n mod 8 < 8" by simp_all
  have b2: "bitset_bytes n \<le> padded n" by (simp add: padded_def)
  then show "bitset_bytes n \<le> padded n" .
  show b1: "bitset_bytes n \<le> 8 * table_word n" using p b2 unfolding table_word_def mult_Suc_right by linarith
  show "row n 0 \<le> 8 * bitset_bytes n" unfolding bitset_bytes_def by linarith
  have "bitset_bytes n < 72057594037927937" using r unfolding bitset_bytes_def by linarith
  then have pb: "padded n < 72057594037927945" using m8 unfolding padded_def by linarith
  then show "padded n < 288230376151711744" by linarith
  show t: "8 * (table_word n + n + 1) \<le> padded n + 8 * (n + 2)" using times_div_less_eq_dividend [of 8 "padded n"] by (simp add: table_word_def)
  then show "8 * (table_word n + n + 1) < 288230376151711744" using pb assms by simp
qed

lemma far_offset:
  assumes "bits_frame n t m m'" "bitset_bytes n \<le> k" "k < 18446744073709551616"
  shows "m' (t + 24 + of_nat k) = m (t + 24 + of_nat k)"
  using assms by (simp add: bits_frame_def unat_of_nat64)

lemma tree_at_frame:
  assumes "tree_at m t n" "bits_frame n t m m'"
  shows "tree_at m' t n"
proof -
  have n: "n \<le> 58" using assms(1) by (simp add: tree_at_def)
  note b = layout_bounds [OF n]
  have head: "m' (t + of_nat k) = m (t + of_nat k)" if "k < 24" for k
  proof -
    have eq: "t + 24 + of_nat (18446744073709551592 + k) = t + of_nat k" by simp
    show ?thesis using far_offset [OF assms(2), of "18446744073709551592 + k", unfolded eq] that b(3,4) by linarith
  qed
  have load: "load64 m' (t + of_nat k) = load64 m (t + of_nat k)" if "k + 8 \<le> 24" for k
    using that head by (intro load64_cong) (simp add: add.assoc flip: of_nat_add)
  have "load64 m' (t + 24 + of_nat (8 * (table_word n + k))) = load64 m (t + 24 + of_nat (8 * (table_word n + k)))" if "k \<le> n" for k
  proof (rule load64_cong)
    fix j :: nat
    assume "j < 8"
    then show "m' (t + 24 + of_nat (8 * (table_word n + k)) + of_nat j) = m (t + 24 + of_nat (8 * (table_word n + k)) + of_nat j)"
      using far_offset [OF assms(2), of "8 * (table_word n + k) + j"] b(1,6) that by (simp add: add.assoc)
  qed
  then show ?thesis
    using assms(1) load [of 0] load [of 8] head [of 16]
    by (simp add: tree_at_def upper_pos_bound_def size_for_order_offset_def buddy_tree_order_def)
qed

subsection \<open>Positions\<close>

definition mkpos :: "nat \<Rightarrow> buddy_tree_pos" where
  "mkpos i = \<lparr>p_index = of_nat i, p_depth = of_nat (blen i)\<rparr>"

definition mkint :: "nat \<Rightarrow> nat \<Rightarrow> internal_position" where
  "mkint n i = \<lparr>local_offset = of_nat (cap n i), bitset_location = of_nat (loc n i)\<rparr>"

lemma node_bound: "node n i \<Longrightarrow> n \<le> 58 \<Longrightarrow> i < 288230376151711744"
proof -
  assume "node n i" "n \<le> 58"
  moreover from this have "(2 :: nat) ^ n \<le> 2 ^ 58" by (intro power_increasing) simp_all
  ultimately show ?thesis by (simp add: node_def)
qed

lemma unat_node: "node n i \<Longrightarrow> n \<le> 58 \<Longrightarrow> unat (of_nat i :: u64) = i"
  using node_bound [of n i] by (intro unat_of_nat64) linarith

lemma root_pos: "buddy_tree_root = mkpos 1"
  by (simp add: buddy_tree_root_def mkpos_def)

lemma child_pos:
  assumes "0 < i"
  shows "buddy_tree_left_child (mkpos i) = mkpos (2 * i)" "buddy_tree_right_child (mkpos i) = mkpos (Suc (2 * i))"
  using assms by (simp_all add: buddy_tree_left_child_def buddy_tree_right_child_def mkpos_def mult.commute [of _ 2] add.commute)

lemma parent_pos:
  assumes "node n i" "1 < i" "n \<le> 58"
  shows "buddy_tree_parent (mkpos i) = mkpos (i div 2)"
proof -
  have "(of_nat i :: u64) div 2 = of_nat (i div 2)"
    using unat_node [OF assms(1,3)] unat_node [OF node_parent [OF assms(1,2)] assms(3)]
    by (simp add: word_unat_eq_iff unat_div_distrib)
  moreover have "blen i = Suc (blen (i div 2))" using assms(2) by (simp add: blen_pos)
  ultimately show ?thesis by (simp add: buddy_tree_parent_def mkpos_def)
qed

lemma sibling_pos:
  assumes "node n (2 * i)" "n \<le> 58"
  shows "buddy_tree_sibling (mkpos (2 * i)) = mkpos (Suc (2 * i))"
proof -
  have i: "0 < i" using assms(1) by (simp add: node_def)
  have "(of_nat (2 * i) :: u64) XOR 1 = of_nat (2 * i) + 1" by (simp add: xor_one_eq)
  then show ?thesis using i by (simp add: buddy_tree_sibling_def mkpos_def add.commute)
qed

lemma index_internal_pos:
  assumes "node n i" "n \<le> 58"
  shows "buddy_tree_index_internal (mkpos i) = of_nat (i - 2 ^ (blen i - 1))"
proof -
  note ni = node_index [OF assms(1)]
  have "blen i \<le> 58" using assms by (simp add: node_blen)
  then have e: "unat (of_nat (blen i) - 1 :: u64) = blen i - 1" using ni(5) by (simp add: unat_sub64 unat_of_nat64)
  have "i div 2 ^ (blen i - 1) = 1" using ni(1,2) by (intro div_nat_eqI) simp_all
  then have "bit i (blen i - 1)" by (simp add: bit_iff_odd)
  then have "bit (of_nat i :: u64) (blen i - 1)" using \<open>blen i \<le> 58\<close> by (simp add: bit_of_nat_iff)
  then have "unset_bit (blen i - 1) (of_nat i :: u64) = of_nat i - 2 ^ (blen i - 1)" by (simp add: unset_bit_eq)
  also have "\<dots> = of_nat (i - 2 ^ (blen i - 1))" using ni(2) by (simp add: of_nat_diff)
  finally show ?thesis
    by (simp add: buddy_tree_index_internal_def mkpos_def two_to_the_power_of_def e unset_bit_eq_and_not)
qed

lemma valid_pos:
  assumes "tree_at m t n" "i < 18446744073709551616"
  shows "buddy_tree_valid m t (mkpos i) \<longleftrightarrow> node n i"
proof -
  have "n \<le> 58" using assms(1) by (simp add: tree_at_def)
  then have "unat (2 ^ n :: u64) = 2 ^ n" by (intro unat_pow2) simp
  then show ?thesis
    using assms by (simp add: buddy_tree_valid_def mkpos_def tree_at_def node_def word_less_nat_alt unat_of_nat64 word_unat_eq_iff)
qed

lemma internal_pos:
  assumes "tree_at m t n" "node n i"
  shows "buddy_tree_internal_position_tree m t (mkpos i) = mkint n i"
proof -
  have n: "n \<le> 58" using assms(1) by (simp add: tree_at_def)
  have d: "blen i \<le> n" "0 < blen i" using assms(2) by (simp_all add: node_blen)
  have o: "(ucast (buddy_tree_order m t) :: u64) = of_nat n" using assms(1) n by (simp add: tree_at_def of_nat_u8)
  have lo: "(of_nat n - of_nat (blen i) + 1 :: u64) = of_nat (cap n i)" using d by (simp add: cap_def Suc_diff_le of_nat_diff)
  have c: "cap n i \<le> n" using node_index(4) [OF assms(2)] .
  then have "(ucast (ucast (of_nat (cap n i) :: u64) :: u8) :: u64) = of_nat (cap n i)"
    using n by (simp add: ucast_of_nat_u8 of_nat_u8)
  moreover have "t + 24 + 8 * (of_nat (table_word n) + of_nat (cap n i)) = t + 24 + of_nat (8 * (table_word n + cap n i))" by simp
  moreover have "size_for_order_offset m t = of_nat (table_word n)" "load64 m (t + 24 + of_nat (8 * (table_word n + cap n i))) = of_nat (row n (cap n i))"
    using assms(1) c by (simp_all only: tree_at_def)
  ultimately have "buddy_tree_size_for_order m t (ucast (of_nat (cap n i) :: u64)) = of_nat (row n (cap n i))"
    unfolding buddy_tree_size_for_order_def sizeof_buddy_tree_def by (simp only:)
  then show ?thesis
    unfolding buddy_tree_internal_position_tree_def Let_def o index_internal_pos [OF assms(2) n]
    by (simp add: buddy_tree_depth_def mkpos_def lo mkint_def loc_def)
qed

subsection \<open>Reading, comparing and writing\<close>

lemma location_words:
  assumes "node n i" "n \<le> 58" "0 < v" "v \<le> cap n i"
  shows "unat (of_nat (loc n i) :: u64) = loc n i" "unat (of_nat (loc n i) + of_nat v - 1 :: u64) = loc n i + v - 1"
    "loc n i + cap n i < 18446744073709551616"
proof -
  have b: "loc n i + cap n i < 576460752303423488" using loc_end [OF assms(1)] row_bound [OF assms(2)] by linarith
  then show "loc n i + cap n i < 18446744073709551616" "unat (of_nat (loc n i) :: u64) = loc n i"
    by (simp_all add: unat_of_nat64)
  have "(of_nat (loc n i) + of_nat v - 1 :: u64) = of_nat (loc n i + v - 1)" using assms(3) by (simp add: of_nat_diff)
  then show "unat (of_nat (loc n i) + of_nat v - 1 :: u64) = loc n i + v - 1" using b assms(4) by (simp add: unat_of_nat64)
qed

lemma compare_status:
  assumes "statuses m t n S" "node n i" "n \<le> 58" "0 < v" "v \<le> cap n i"
  shows "compare_with_internal_position m (buddy_tree_bits t) (mkint n i) (of_nat v) \<longleftrightarrow> v \<le> S i"
proof -
  have "v - 1 < cap n i" "loc n i + v - 1 = loc n i + (v - 1)" using assms(4,5) by linarith+
  then have "bit_at m (t + 24) (loc n i + v - 1) \<longleftrightarrow> v - 1 < S i" using assms(1,2) by (simp add: statuses_def)
  then show ?thesis
    using assms(4) location_words [OF assms(2-5)]
    by (auto simp: compare_with_internal_position_def mkint_def bitset_test_at buddy_tree_bits_def sizeof_buddy_tree_def)
qed

lemma read_status:
  assumes "statuses m t n S" "node n i" "n \<le> 58"
  shows "read_from_internal_position m (buddy_tree_bits t) (mkint n i) = of_nat (S i)"
proof -
  let ?b = "t + 24"
  have c: "0 < cap n i" using cap_pos [OF assms(2)] .
  note w = location_words [OF assms(2,3) c order_refl]
  have bits: "bit_at m ?b (loc n i + a) \<longleftrightarrow> a < S i" if "a < cap n i" for a using assms(1,2) that by (simp add: statuses_def)
  have le: "S i \<le> cap n i" using assms(1,2) by (simp add: statuses_def)
  have "{k. loc n i \<le> k \<and> k < loc n i + cap n i \<and> bit_at m ?b k} = {loc n i ..< loc n i + S i}"
  proof (intro equalityI subsetI)
    fix k
    assume k: "k \<in> {k. loc n i \<le> k \<and> k < loc n i + cap n i \<and> bit_at m ?b k}"
    then obtain a where "k = loc n i + a" "a < cap n i" by (auto simp: le_iff_add)
    then show "k \<in> {loc n i ..< loc n i + S i}" using k bits by simp
  next
    fix k
    assume k: "k \<in> {loc n i ..< loc n i + S i}"
    then obtain a where "k = loc n i + a" "a < S i" by (auto simp: le_iff_add)
    then show "k \<in> {k. loc n i \<le> k \<and> k < loc n i + cap n i \<and> bit_at m ?b k}" using le bits [of a] by simp
  qed
  then have "count_bits m ?b (loc n i) (loc n i + cap n i) = S i" by (simp add: count_bits_def)
  moreover have "Suc (loc n i + cap n i - 1) = loc n i + cap n i" "loc n i \<le> loc n i + cap n i - 1" using c by linarith+
  ultimately have "bitset_count_range m ?b (mk_bitset_range (of_nat (loc n i)) (of_nat (loc n i) + of_nat (cap n i) - 1)) = of_nat (S i)"
    using bitset_count_range_bits [of "of_nat (loc n i)" "of_nat (loc n i) + of_nat (cap n i) - 1" m ?b] w by simp
  moreover have "bitset_test m ?b (of_nat (loc n i)) \<longleftrightarrow> 0 < S i" using bits [OF c] w(1) by (simp add: bitset_test_at)
  ultimately show ?thesis
    by (simp add: read_from_internal_position_def mkint_def buddy_tree_bits_def sizeof_buddy_tree_def)
qed

lemma write_status:
  assumes "statuses m t n S" "node n i" "n \<le> 58" "v \<le> cap n i"
  shows "statuses (write_to_internal_position m t (mkint n i) (of_nat v)) t n (S(i := v))"
    "bits_frame n t m (write_to_internal_position m t (mkint n i) (of_nat v))"
proof -
  let ?b = "t + 24" and ?l = "loc n i" and ?c = "cap n i"
  define m1 where "m1 = fill_bits ?b ?l (?l + ?c - 1) False m"
  define m2 where "m2 = (if v = 0 then m1 else fill_bits ?b ?l (?l + v - 1) True m1)"
  have c: "0 < ?c" using cap_pos [OF assms(2)] .
  note w = location_words [OF assms(2,3) c order_refl]
  have vz: "(of_nat v :: u64) = 0 \<longleftrightarrow> v = 0"
  proof -
    have "unat (of_nat v :: u64) = v" using w(3) assms(4) by (intro unat_of_nat64) linarith
    then show ?thesis by (simp only: word_unat_eq_iff unat_0)
  qed
  have clear: "bitset_clear_range m ?b (mk_bitset_range (of_nat ?l) (of_nat ?l + of_nat ?c - 1)) = m1"
    unfolding m1_def using w c by (subst range_fill(2)) simp_all
  have set: "bitset_set_range m1 ?b (mk_bitset_range (of_nat ?l) (of_nat ?l + of_nat v - 1)) = fill_bits ?b ?l (?l + v - 1) True m1" if "0 < v"
    using location_words [OF assms(2,3) that assms(4)] that by (subst range_fill(1)) simp_all
  have eq: "write_to_internal_position m t (mkint n i) (of_nat v) = m2"
    using clear set vz by (simp add: write_to_internal_position_def mkint_def buddy_tree_bits_def sizeof_buddy_tree_def Let_def m2_def)
  have b1: "bit_at m1 ?b x = (if ?l \<le> x \<and> x < ?l + ?c then False else bit_at m ?b x)" if "x < 18446744073709551616" for x
    using bit_fill_bits [of ?l "?l + ?c - 1" x ?b False m] that c by (auto simp: m1_def)
  have b2: "bit_at m2 ?b x = (if ?l \<le> x \<and> x < ?l + ?c then x < ?l + v else bit_at m ?b x)" if "x < 18446744073709551616" for x
    using bit_fill_bits [of ?l "?l + v - 1" x ?b True m1] b1 [OF that] that assms(4) by (auto simp: m2_def)
  show "statuses (write_to_internal_position m t (mkint n i) (of_nat v)) t n (S(i := v))"
    unfolding eq statuses_def
  proof (intro allI impI conjI)
    fix j a
    assume j: "node n j"
    show "(S(i := v)) j \<le> cap n j" using assms(1,4) j by (simp add: statuses_def)
    assume a: "a < cap n j"
    have lt: "loc n j + a < 18446744073709551616" using location_words(3) [OF j assms(3) cap_pos [OF j] order_refl] a by linarith
    show "bit_at m2 ?b (loc n j + a) \<longleftrightarrow> a < (S(i := v)) j"
    proof (cases "j = i")
      case True
      then show ?thesis using b2 [OF lt] a by simp
    next
      case False
      have "\<not> (?l \<le> loc n j + a \<and> loc n j + a < ?l + ?c)"
      proof
        assume h: "?l \<le> loc n j + a \<and> loc n j + a < ?l + ?c"
        then obtain b where "loc n j + a = ?l + b" "b < ?c" by (auto simp: le_iff_add)
        then show False using loc_disjoint [OF j assms(2) a] False by blast
      qed
      then show ?thesis using b2 [OF lt] assms(1) j a False by (auto simp: statuses_def)
    qed
  qed
  have e: "?l + ?c \<le> 8 * bitset_bytes n" using loc_end [OF assms(2)] layout_bounds(5) [OF assms(3)] by linarith
  show "bits_frame n t m (write_to_internal_position m t (mkint n i) (of_nat v))"
    unfolding eq bits_frame_def
  proof (intro allI impI)
    fix x
    assume x: "bitset_bytes n \<le> unat (x - ?b)"
    have "(?l + ?c - 1) div 8 < unat (x - ?b)" "0 < v \<Longrightarrow> (?l + v - 1) div 8 < unat (x - ?b)" using e x c assms(4) by linarith+
    then show "m2 x = m x" using fill_bits_frame [of x ?b] by (auto simp: m2_def m1_def)
  qed
qed

end
