(* ===== verification/Buddy_Ops.thy ===== *)
theory Buddy_Ops
  imports Buddy_Status
begin

text \<open>
  The operations on the allocation tree refine the specification: with \<open>A\<close> the set of allocated nodes,
  \<^verbatim>\<open>buddy_tree_mark\<close> adds a free node to \<open>A\<close>, \<^verbatim>\<open>buddy_tree_release\<close> removes an allocated one and refuses any other
  node, and \<^verbatim>\<open>buddy_tree_find_free\<close> finds a free node of the depth asked for whenever there is one.
\<close>

subsection \<open>The parent chain\<close>

lemma sib_loc:
  assumes "node n i" "1 < i"
  shows "loc n (sib i) = (if even i then loc n i + cap n i else loc n i - cap n i)" "odd i \<Longrightarrow> cap n i \<le> loc n i"
proof -
  note s = sib_blen [OF assms(2)] and ni = node_index(2) [OF assms(1)] node_index(2) [OF sib_node(1) [OF assms]]
  have b: "blen (sib i) = blen i" "cap n (sib i) = cap n i" using s assms(2) by (simp_all add: cap_def)
  let ?r = "2 ^ (blen i - 1) :: nat"
  have idx: "sib i - ?r = (if even i then Suc (i - ?r) else i - ?r - 1)" "odd i \<Longrightarrow> 0 < i - ?r"
    using ni b assms(2) by (auto simp: sib_def)
  show "loc n (sib i) = (if even i then loc n i + cap n i else loc n i - cap n i)"
  proof (cases "even i")
    case False
    then obtain k where "i - ?r = Suc k" using idx(2) by (cases "i - ?r") auto
    then show ?thesis using idx(1) False unfolding loc_def b by simp
  qed (use idx in \<open>simp add: loc_def b\<close>)
  assume "odd i"
  then have "cap n i * 1 \<le> cap n i * (i - ?r)" using idx(2) by (intro mult_le_mono2) linarith
  then show "cap n i \<le> loc n i" unfolding loc_def by linarith
qed

lemma and_one_parity: "(of_nat i :: u64) AND 1 = of_bool (odd i)"
  by (simp add: and_one_eq mod_2_eq_odd)

lemma sib_mkint:
  assumes "node n i" "1 < i"
  shows "(mkint n i)\<lparr>bitset_location := bitset_location (mkint n i) +
      (local_offset (mkint n i) - 2 * local_offset (mkint n i) * (p_index (mkpos i) AND 1))\<rparr> = mkint n (sib i)"
  using sib_loc [OF assms] sib_node(2) [OF assms(2), of n]
  by (cases "even i") (simp_all add: mkint_def mkpos_def and_one_parity of_nat_diff)

lemma small_words:
  "a \<le> 60 \<Longrightarrow> b \<le> 60 \<Longrightarrow> (of_nat a :: u64) = of_nat b \<longleftrightarrow> a = b"
  "a \<le> 60 \<Longrightarrow> b \<le> 60 \<Longrightarrow> (of_nat a :: u64) \<le> of_nat b \<longleftrightarrow> a \<le> b"
proof -
  have u: "unat (of_nat a :: u64) = a" if "a \<le> 60" for a using that by (intro unat_of_nat64) simp
  show "a \<le> 60 \<Longrightarrow> b \<le> 60 \<Longrightarrow> (of_nat a :: u64) = of_nat b \<longleftrightarrow> a = b" using u by metis
  show "a \<le> 60 \<Longrightarrow> b \<le> 60 \<Longrightarrow> (of_nat a :: u64) \<le> of_nat b \<longleftrightarrow> a \<le> b" using u by (simp add: word_le_nat_alt)
qed

lemma comb_word:
  assumes "a \<le> 59" "b \<le> 59"
  shows "of_bool ((of_nat a :: u64) \<noteq> 0 \<or> (of_nat b :: u64) \<noteq> 0) *
    ((if (of_nat a :: u64) \<le> of_nat b then of_nat a else of_nat b) + 1) = (of_nat (comb a b) :: u64)"
  using small_words(1) [of a 0] small_words(1) [of b 0] small_words(2) [of a b] assms by (auto simp: comb_def min_def)

lemma comb_le: "a \<le> k \<Longrightarrow> b \<le> k \<Longrightarrow> comb a b \<le> Suc k"
  by (simp add: comb_def min_def)

lemma update_parent_chain_up:
  assumes "n \<le> 58"
  shows "statuses m t n S \<Longrightarrow> tree_at m t n \<Longrightarrow> node n i \<Longrightarrow>
    \<exists>m'. update_parent_chain t m (mkpos i) (mkint n i) (of_nat (S i)) = Some m' \<and> statuses m' t n (up S i) \<and> bits_frame n t m m'"
proof (induction S i arbitrary: m rule: up.induct)
  case (1 S i)
  show ?case
  proof (cases "i = 1")
    case True
    then show ?thesis using 1(2) by (subst update_parent_chain.simps) (simp add: mkpos_def up.simps)
  next
    case False
    then have i: "1 < i" using 1(4) by (simp add: node_def)
    let ?p = "i div 2" and ?v = "comb (S i) (S (sib i))"
    have ne: "p_index (mkpos i) \<noteq> 1"
      using unat_node [OF 1(4) assms] i by (auto simp: mkpos_def)
    note pn = node_parent [OF 1(4) i] and sn = sib_node(1) [OF 1(4) i]
    have cp: "cap n ?p = Suc (cap n i)" "cap n (sib i) = cap n i" using cap_parent [OF 1(4) i] sib_node(2) [OF i] by simp_all
    have S: "S i \<le> cap n i" "S (sib i) \<le> cap n i" "S ?p \<le> Suc (cap n i)" "cap n i \<le> 58"
      using 1(2,4) pn sn cp node_index(4) [OF 1(4)] assms by (auto simp: statuses_def)
    have v: "?v \<le> cap n ?p" unfolding cp by (intro comb_le S)
    have tw: "of_bool ((of_nat (S i) :: u64) \<noteq> 0 \<or> (of_nat (S (sib i)) :: u64) \<noteq> 0) *
      ((if (of_nat (S i) :: u64) \<le> of_nat (S (sib i)) then of_nat (S i) else of_nat (S (sib i))) + 1) = (of_nat ?v :: u64)"
      using S by (intro comb_word) linarith+
    have eq: "(of_nat ?v :: u64) = of_nat (S ?p) \<longleftrightarrow> ?v = S ?p" using v S cp by (intro small_words(1)) linarith+
    have step: "update_parent_chain t m (mkpos i) (mkint n i) (of_nat (S i)) =
      (if ?v = S ?p then Some m
       else update_parent_chain t (write_to_internal_position m t (mkint n ?p) (of_nat ?v)) (mkpos ?p) (mkint n ?p) (of_nat ?v))"
      unfolding update_parent_chain.simps [of t m "mkpos i"] Let_def sib_mkint [OF 1(4) i] read_status [OF 1(2) sn assms]
        parent_pos [OF 1(4) i assms] internal_pos [OF 1(3) pn] read_status [OF 1(2) pn assms] tw eq using ne by simp
    show ?thesis
    proof (cases "?v = S ?p")
      case True
      then show ?thesis using step 1(2) i by (subst up.simps) simp
    next
      case ne: False
      let ?m = "write_to_internal_position m t (mkint n ?p) (of_nat ?v)"
      note w = write_status [OF 1(2) pn assms v]
      obtain m' where "update_parent_chain t ?m (mkpos ?p) (mkint n ?p) (of_nat ((S(?p := ?v)) ?p)) = Some m'"
        "statuses m' t n (up (S(?p := ?v)) ?p)" "bits_frame n t ?m m'"
        using 1(1) [OF _ refl refl ne w(1) tree_at_frame [OF 1(3) w(2)] pn] i by (metis not_le)
      moreover have "up S i = up (S(?p := ?v)) ?p" using ne i by (subst up.simps) (simp add: Let_def)
      ultimately show ?thesis using step ne bits_frame_trans [OF w(2)] by auto
    qed
  qed
qed

subsection \<open>Mark, release, search\<close>

text \<open>A tree at \<open>t\<close> of order \<open>n\<close> in which exactly the nodes of \<open>A\<close> are allocated.\<close>

definition tree_inv :: "mem \<Rightarrow> u64 \<Rightarrow> nat \<Rightarrow> nat set \<Rightarrow> bool" where
  "tree_inv m t n A \<longleftrightarrow> tree_at m t n \<and> antichain n A \<and> statuses m t n (spec n A)"

lemma tree_invD:
  assumes "tree_inv m t n A"
  shows "tree_at m t n" "antichain n A" "statuses m t n (spec n A)" "n \<le> 58" "0 < n" "node n 1"
proof -
  show n: "0 < n" "n \<le> 58" "tree_at m t n" "antichain n A" "statuses m t n (spec n A)" using assms by (auto simp: tree_inv_def tree_at_def)
  show "node n 1" using n(1) by (simp add: node_blen)
qed

lemma statuses_cong: "statuses m t n S \<Longrightarrow> (\<And>x. node n x \<Longrightarrow> S x = S' x) \<Longrightarrow> statuses m t n S'"
  by (simp add: statuses_def)

lemma tree_status:
  assumes "tree_inv m t n A" "node n i"
  shows "buddy_tree_status m t (mkpos i) = of_nat (spec n A i)"
  using tree_invD [OF assms(1)] assms(2) by (simp add: buddy_tree_status_def internal_pos read_status)

lemma tree_mark:
  assumes "tree_inv m t n A" "free_node n A j"
  shows "\<exists>m'. buddy_tree_mark m t (mkpos j) = Some m' \<and> tree_inv m' t n (insert j A) \<and> bits_frame n t m m'"
proof -
  note inv = tree_invD [OF assms(1)]
  have j: "node n j" using assms(2) by (simp add: free_node_def)
  let ?m = "write_to_internal_position m t (mkint n j) (of_nat (cap n j))" and ?S = "(spec n A)(j := cap n j)"
  note w = write_status [OF inv(3) j inv(4) order_refl]
  obtain m' where m': "update_parent_chain t ?m (mkpos j) (mkint n j) (of_nat (?S j)) = Some m'" "statuses m' t n (up ?S j)" "bits_frame n t ?m m'"
    using update_parent_chain_up [OF inv(4) w(1) tree_at_frame [OF inv(1) w(2)] j] by blast
  note sp = mark_spec [OF inv(2) refl assms(2)]
  have "buddy_tree_mark m t (mkpos j) = Some m'"
    using m'(1) by (simp add: buddy_tree_mark_def internal_pos [OF inv(1) j] mkint_def)
  moreover have f: "bits_frame n t m m'" using w(2) m'(3) by (rule bits_frame_trans)
  moreover have "statuses m' t n (spec n (insert j A))" using m'(2) by (rule statuses_cong) (rule sp(2))
  ultimately show ?thesis using sp(1) tree_at_frame [OF inv(1) f] by (simp add: tree_inv_def)
qed

lemma full_word:
  assumes "tree_inv m t n A" "node n i"
  shows "(of_nat (spec n A i) :: u64) = of_nat (cap n i) \<longleftrightarrow> spec n A i = cap n i"
    "(of_nat (spec n A i) :: u64) = 0 \<longleftrightarrow> spec n A i = 0"
proof -
  have b: "cap n i \<le> 58" "spec n A i \<le> 58" using node_index(4) [OF assms(2)] spec_le [of n A i] tree_invD(4) [OF assms(1)] by linarith+
  show "(of_nat (spec n A i) :: u64) = of_nat (cap n i) \<longleftrightarrow> spec n A i = cap n i" using b by (intro small_words(1)) linarith+
  show "(of_nat (spec n A i) :: u64) = 0 \<longleftrightarrow> spec n A i = 0" using small_words(1) [of "spec n A i" 0] b by simp
qed

lemma tree_release:
  assumes "tree_inv m t n A" "node n j"
  shows "spec n A j \<noteq> cap n j \<Longrightarrow> buddy_tree_release m t (mkpos j) = Some (BUDDY_TREE_RELEASE_FAIL_PARTIALLY_USED, m)"
    "j \<in> A \<Longrightarrow> \<exists>m'. buddy_tree_release m t (mkpos j) = Some (BUDDY_TREE_RELEASE_SUCCESS, m') \<and>
       tree_inv m' t n (A - {j}) \<and> bits_frame n t m m'"
proof -
  note inv = tree_invD [OF assms(1)]
  have r: "read_from_internal_position m (buddy_tree_bits t) (mkint n j) = of_nat (spec n A j)"
    by (rule read_status [OF inv(3) assms(2) inv(4)])
  show "buddy_tree_release m t (mkpos j) = Some (BUDDY_TREE_RELEASE_FAIL_PARTIALLY_USED, m)" if "spec n A j \<noteq> cap n j"
    using that full_word(1) [OF assms] r by (simp add: buddy_tree_release_def internal_pos [OF inv(1) assms(2)] mkint_def)
  assume j: "j \<in> A"
  let ?m = "write_to_internal_position m t (mkint n j) (of_nat 0)" and ?S = "(spec n A)(j := 0)"
  note w = write_status [OF inv(3) assms(2) inv(4), of 0, OF le0]
  obtain m' where m': "update_parent_chain t ?m (mkpos j) (mkint n j) (of_nat (?S j)) = Some m'" "statuses m' t n (up ?S j)" "bits_frame n t ?m m'"
    using update_parent_chain_up [OF inv(4) w(1) tree_at_frame [OF inv(1) w(2)] assms(2)] by blast
  note sp = release_spec [OF inv(2) refl j]
  have "buddy_tree_release m t (mkpos j) = Some (BUDDY_TREE_RELEASE_SUCCESS, m')"
    using m'(1) r spec_in [OF assms(2) j] by (simp add: buddy_tree_release_def internal_pos [OF inv(1) assms(2)] mkint_def)
  moreover have f: "bits_frame n t m m'" using w(2) m'(3) by (rule bits_frame_trans)
  moreover have "statuses m' t n (spec n (A - {j}))" using m'(2) by (rule statuses_cong) (rule sp(2))
  ultimately show "\<exists>m'. buddy_tree_release m t (mkpos j) = Some (BUDDY_TREE_RELEASE_SUCCESS, m') \<and> tree_inv m' t n (A - {j}) \<and> bits_frame n t m m'"
    using sp(1) tree_at_frame [OF inv(1) f] by (simp add: tree_inv_def)
qed

lemma right_mkint:
  assumes "node n (2 * i)"
  shows "(mkint n (2 * i))\<lparr>bitset_location := bitset_location (mkint n (2 * i)) + local_offset (mkint n (2 * i))\<rparr> = mkint n (Suc (2 * i))"
proof -
  have i: "1 < 2 * i" "sib (2 * i) = Suc (2 * i)" using assms by (auto simp: node_def sib_def)
  then show ?thesis using sib_loc(1) [OF assms i(1)] sib_node(2) [OF i(1), of n] by (simp add: mkint_def)
qed

lemma find_free_pick:
  assumes "tree_inv m t n A"
  shows "node n i \<Longrightarrow> k < cap n i \<Longrightarrow> d = of_nat (blen i + k) \<Longrightarrow>
    find_free_loop m t d (mkpos i) (of_nat k) (of_nat (blen i)) = mkpos (pick (spec n A) k i)"
proof (induction k arbitrary: i)
  case 0
  have "blen i \<le> 58" using 0(1) tree_invD(4) [OF assms] by (simp add: node_blen)
  then show ?case using 0 by (subst find_free_loop.simps) (simp add: of_nat_u8)
next
  case (Suc k)
  note inv = tree_invD [OF assms]
  let ?S = "spec n A"
  have b: "blen i + Suc k \<le> n" "0 < i" using Suc(2,3) by (auto simp: cap_def node_def)
  then have d: "(ucast d :: u64) = of_nat (blen i + Suc k)" using Suc(4) inv(4) by (simp add: of_nat_u8 del: of_nat_Suc of_nat_add)
  have ne: "(of_nat (blen i) :: u64) \<noteq> of_nat (blen i + Suc k)"
    using small_words(1) [of "blen i" "blen i + Suc k"] b inv(4) by simp
  have ts: "(of_nat (Suc k) - 1 :: u8) = of_nat k" "(ucast (of_nat k :: u8) + 1 :: u64) = of_nat (Suc k)"
    using b inv(4) by (simp_all add: of_nat_u8)
  have c: "1 < cap n i" using Suc(3) by simp
  note ch = node_children [OF Suc(2) c]
  have kc: "Suc k \<le> cap n (2 * i)" "Suc k \<le> cap n (Suc (2 * i))" using ch Suc(3) by simp_all
  note cmp = compare_status [OF inv(3) _ inv(4) zero_less_Suc]
  have rs: "?S (Suc (2 * i)) \<le> 58" using spec_le [of n A "Suc (2 * i)"] node_index(4) [OF ch(2)] inv(4) by linarith
  have cmp2: "compare_with_internal_position m (buddy_tree_bits t) (mkint n (2 * i)) (of_nat (?S (Suc (2 * i)))) \<longleftrightarrow> ?S (Suc (2 * i)) \<le> ?S (2 * i)"
    if "?S (Suc (2 * i)) \<noteq> 0"
    using that spec_le [of n A "Suc (2 * i)"] ch by (intro compare_status [OF inv(3) ch(1) inv(4)]) simp_all
  have "(if compare_with_internal_position m (buddy_tree_bits t) (mkint n (2 * i)) (of_nat (Suc k)) then mkpos (Suc (2 * i))
     else if compare_with_internal_position m (buddy_tree_bits t) (mkint n (Suc (2 * i))) (of_nat (Suc k)) then mkpos (2 * i)
     else let right_status = read_from_internal_position m (buddy_tree_bits t) (mkint n (Suc (2 * i)))
          in if right_status \<noteq> 0
             then if compare_with_internal_position m (buddy_tree_bits t) (mkint n (2 * i)) right_status then mkpos (2 * i) else mkpos (Suc (2 * i))
             else mkpos (2 * i)) = mkpos (pick_child ?S i (Suc k))"
    unfolding cmp [OF ch(1) kc(1)] cmp [OF ch(2) kc(2)] read_status [OF inv(3) ch(2) inv(4)] Let_def full_word(2) [OF assms ch(2)]
    using cmp2 by (auto simp: pick_child_def)
  then have step: "find_free_loop m t d (mkpos i) (of_nat (Suc k)) (of_nat (blen i)) =
    find_free_loop m t d (mkpos (pick_child ?S i (Suc k))) (of_nat k) (of_nat (blen i) + 1)"
    unfolding find_free_loop.simps [of m t d "mkpos i"] d using ne
    by (simp only: if_True not_False_eq_True Let_def ts child_pos [OF b(2)] sibling_pos [OF ch(1) inv(4)]
        internal_pos [OF inv(1) ch(1)] right_mkint [OF ch(1)])
  have "blen (pick_child ?S i (Suc k)) = Suc (blen i)" "node n (pick_child ?S i (Suc k))" "cap n (pick_child ?S i (Suc k)) = cap n i - 1"
    using pick_child_cases [of ?S i "Suc k"] ch b(2) by auto
  then show ?case using Suc(1) [of "pick_child ?S i (Suc k)"] step Suc(3,4) by (simp add: add.commute)
qed

text \<open>The search succeeds exactly if there is a free node of the depth asked for.\<close>

lemma tree_find_free:
  assumes "tree_inv m t n A" "0 < d" "d \<le> n"
  shows "if \<exists>j. free_node n A j \<and> blen j = d
    then \<exists>j. buddy_tree_find_free m t (of_nat d) = mkpos j \<and> free_node n A j \<and> blen j = d
    else buddy_tree_find_free m t (of_nat d) = INVALID_POS"
proof -
  note inv = tree_invD [OF assms(1)]
  have c: "cap n 1 = n" "blen 1 = 1" by (simp_all add: cap_def)
  have ts: "(of_nat d - 1 :: u8) = of_nat (d - 1)" using assms(2) by (simp add: of_nat_diff)
  moreover have "(ucast (of_nat (d - 1) :: u8) :: u64) = of_nat (d - 1)" using assms(3) inv(4) by (intro of_nat_u8) linarith
  note ts = ts this
  have rs: "buddy_tree_status m t (mkpos 1) = of_nat (spec n A 1)" by (rule tree_status [OF assms(1) inv(6)])
  have gt: "(of_nat (d - 1) :: u64) < of_nat (spec n A 1) \<longleftrightarrow> d - 1 < spec n A 1"
    using small_words(2) [of "spec n A 1" "d - 1"] assms(3) inv(4) spec_le [of n A 1] c by (auto simp: not_le [symmetric])
  have dep: "buddy_tree_depth (mkpos 1) = of_nat (blen 1)" by (simp add: buddy_tree_depth_def mkpos_def)
  have eq: "buddy_tree_find_free m t (of_nat d) =
    (if d - 1 < spec n A 1 then INVALID_POS else mkpos (pick (spec n A) (d - 1) 1))"
    unfolding buddy_tree_find_free_def Let_def root_pos rs ts gt dep
    using find_free_pick [OF assms(1) inv(6), of "d - 1"] assms(2,3) c by simp
  show ?thesis
  proof (cases "d - 1 < spec n A 1")
    case True
    have "\<not> (free_node n A j \<and> blen j = d)" for j
    proof
      assume j: "free_node n A j \<and> blen j = d"
      then have "0 < j" by (simp add: free_node_def node_def)
      then have "subnode 1 j" using blen_lower [of j] blen_upper [of j] by (auto simp: subnode_def blen_pos intro!: div_nat_eqI)
      then have "spec n A 1 \<le> blen j - blen 1" using spec_free [OF inv(2,6)] j by blast
      then show False using True j by simp
    qed
    then show ?thesis using eq True by auto
  next
    case False
    have "free_node n A (pick (spec n A) (d - 1) 1) \<and> blen (pick (spec n A) (d - 1) 1) = 1 + (d - 1)"
    proof -
      have "\<not> subnode a 1" if "a \<in> A" "a \<noteq> 1" for a
        using that inv(2) by (auto simp: subnode_def antichain_def node_def blen_gt_0 blen_pos)
      then show ?thesis using pick_free [OF inv(2,6), of "d - 1" "spec n A"] False assms(2,3) c by simp
    qed
    then show ?thesis using eq False assms(2) by auto
  qed
qed

subsection \<open>Initialization\<close>

lemma padded_bitset_size_nat:
  assumes "n \<le> 58"
  shows "padded_bitset_size (of_nat n) = of_nat (padded n)" "padded_bitset_size (of_nat n) div 8 + 1 = of_nat (table_word n)"
    "buddy_tree_sizeof (of_nat n) = of_nat (tree_bytes n)" "unat (of_nat (tree_bytes n) :: u64) = tree_bytes n"
proof -
  note b = layout_bounds [OF assms]
  have "size_for_order (of_nat n) (of_nat 0) = of_nat (row n 0)" using assms by (intro size_for_order_row) simp_all
  then have r: "size_for_order (of_nat n) 0 = of_nat (row n 0)" by simp
  have rb: "row n 0 < 576460752303423488" using assms by (rule row_bound)
  have "unat (of_nat (row n 0) + 8 - 1 :: u64) = row n 0 + 7"
  proof -
    have "(of_nat (row n 0) + 8 - 1 :: u64) = of_nat (row n 0 + 7)" by simp
    then show ?thesis using rb by (simp only:) (simp add: unat_of_nat64 del: of_nat_add)
  qed
  then have "unat (bitset_sizeof (of_nat (row n 0))) = bitset_bytes n" by (simp add: bitset_sizeof_def CHAR_BIT_def bitset_bytes_def)
  then have s: "bitset_sizeof (size_for_order (of_nat n) 0) = of_nat (bitset_bytes n)" unfolding r by (metis u64_of_nat_unat)
  have ub: "unat (of_nat (bitset_bytes n) :: u64) = bitset_bytes n" using b(3,4) by (intro unat_of_nat64) linarith
  have "(of_nat (bitset_bytes n) :: u64) mod 8 = of_nat (bitset_bytes n mod 8)"
    using ub by (simp add: word_unat_eq_iff unat_of_nat64)
  then show p: "padded_bitset_size (of_nat n) = of_nat (padded n)"
    unfolding padded_bitset_size_def Let_def s by (simp add: padded_def)
  have up: "unat (of_nat (padded n) :: u64) = padded n" using b(3) by (intro unat_of_nat64) linarith
  show "padded_bitset_size (of_nat n) div 8 + 1 = of_nat (table_word n)"
    unfolding p div_8_of_nat up by (simp add: table_word_def add.commute)
  show "buddy_tree_sizeof (of_nat n) = of_nat (tree_bytes n)"
    using assms by (simp add: buddy_tree_sizeof_def p sizeof_buddy_tree_def tree_bytes_def of_nat_u8 algebra_simps)
  show "unat (of_nat (tree_bytes n) :: u64) = tree_bytes n" using b(3) assms by (intro unat_of_nat64) (simp add: tree_bytes_def)
qed

definition table_at :: "u64 \<Rightarrow> nat \<Rightarrow> nat \<Rightarrow> u64" where
  "table_at t n k = t + 24 + of_nat (8 * (table_word n + k))"

lemma populate_loop_table:
  assumes "0 < n" "n \<le> 58"
  shows "i \<le> Suc n \<Longrightarrow> buddy_tree_order m t = of_nat n \<Longrightarrow> size_for_order_offset m t = of_nat (table_word n) \<Longrightarrow>
    (\<forall>k. i \<le> k \<and> k \<le> n \<longrightarrow> load64 (populate_loop m t (of_nat i)) (table_at t n k) = of_nat (row n k)) \<and>
    (\<forall>x. unat (x - (t + 24)) < 8 * (table_word n + i) \<or> 8 * (table_word n + n + 1) \<le> unat (x - (t + 24)) \<longrightarrow>
       populate_loop m t (of_nat i) x = m x)"
proof (induction "Suc n - i" arbitrary: i m)
  case 0
  then have "i = Suc n" by simp
  moreover have "\<not> (of_nat (Suc n) :: u64) \<le> of_nat n" using small_words(2) [of "Suc n" n] assms by simp
  ultimately show ?case using 0(3) assms by (subst (1 2) populate_loop.simps) (auto simp: of_nat_u8)
next
  case (Suc d)
  note b = layout_bounds [OF assms(2)]
  have i: "i \<le> n" using Suc(2,3) by simp
  let ?a = "table_at t n i"
  define m1 where "m1 = store64 m ?a (of_nat (row n i))"
  have off: "unat (table_at t n k + of_nat j - (t + 24)) = 8 * (table_word n + k) + j" if "k \<le> n" "j < 8" for k j
  proof -
    have "table_at t n k + of_nat j - (t + 24) = of_nat (8 * (table_word n + k) + j)" by (simp add: table_at_def)
    then show ?thesis using b(6) that by (simp only:) (rule unat_of_nat64, simp)
  qed
  have st: "m1 x = m x" if "unat (x - (t + 24)) < 8 * (table_word n + i) \<or> 8 * (table_word n + Suc i) \<le> unat (x - (t + 24))" for x
  proof -
    have "\<not> unat (x - ?a) < 8"
    proof
      assume lt: "unat (x - ?a) < 8"
      have "x = ?a + of_nat (unat (x - ?a))" by simp
      then have "unat (x - (t + 24)) = 8 * (table_word n + i) + unat (x - ?a)" using off [OF i lt] by metis
      then show False using that lt by simp
    qed
    then show ?thesis by (simp add: m1_def store64_apply)
  qed
  have le: "(of_nat i :: u64) \<le> of_nat n" using small_words(2) [of i n] i assms by simp
  have "size_for_order (of_nat n) (ucast (of_nat i :: u64)) = of_nat (row n i)"
    using size_for_order_row [of i n] i assms(2) by (simp add: ucast_of_nat_u8)
  moreover have "t + sizeof_buddy_tree + 8 * (of_nat (table_word n) + of_nat i) = ?a" by (simp add: sizeof_buddy_tree_def table_at_def)
  ultimately have step: "populate_loop m t (of_nat i) = populate_loop m1 t (of_nat (Suc i))"
    using le Suc(4,5) assms(2) by (subst populate_loop.simps) (simp add: of_nat_u8 m1_def add.commute)
  have head: "m1 (t + of_nat k) = m (t + of_nat k)" if "k < 24" for k
  proof -
    have eq: "t + of_nat k - (t + 24) = of_nat (18446744073709551592 + k)" by simp
    have "unat (t + of_nat k - (t + 24)) = 18446744073709551592 + k" unfolding eq using that by (intro unat_of_nat64) simp
    then show ?thesis using st [of "t + of_nat k"] b(6) i by simp
  qed
  have "buddy_tree_order m1 t = of_nat n" using Suc(4) head [of 16] by (simp add: buddy_tree_order_def)
  moreover have "size_for_order_offset m1 t = of_nat (table_word n)"
  proof -
    have "load64 m1 (t + 8) = load64 m (t + 8)"
    proof (rule load64_cong)
      show "m1 (t + 8 + of_nat k) = m (t + 8 + of_nat k)" if "k < 8" for k using head [of "8 + k"] that by (simp add: add.assoc)
    qed
    then show ?thesis using Suc(5) by (simp add: size_for_order_offset_def)
  qed
  ultimately have IH: "\<forall>k. Suc i \<le> k \<and> k \<le> n \<longrightarrow> load64 (populate_loop m1 t (of_nat (Suc i))) (table_at t n k) = of_nat (row n k)"
    "\<forall>x. unat (x - (t + 24)) < 8 * (table_word n + Suc i) \<or> 8 * (table_word n + n + 1) \<le> unat (x - (t + 24)) \<longrightarrow>
       populate_loop m1 t (of_nat (Suc i)) x = m1 x"
    using Suc(1) [of "Suc i" m1] Suc(2) i by simp_all
  have "load64 (populate_loop m1 t (of_nat (Suc i))) ?a = load64 m1 ?a"
    using IH(2) off [OF i] by (intro load64_cong) simp
  then have "load64 (populate_loop m1 t (of_nat (Suc i))) ?a = of_nat (row n i)" by (simp add: m1_def load64_store64)
  note here = this
  have le: "8 * (table_word n + Suc i) \<le> 8 * (table_word n + n + 1)" using i by simp
  show ?case unfolding step
  proof (intro conjI allI impI)
    fix k
    assume "i \<le> k \<and> k \<le> n"
    then show "load64 (populate_loop m1 t (of_nat (Suc i))) (table_at t n k) = of_nat (row n k)"
      using here IH(1) by (cases "k = i") (simp_all del: of_nat_Suc)
  next
    fix x
    assume x: "unat (x - (t + 24)) < 8 * (table_word n + i) \<or> 8 * (table_word n + n + 1) \<le> unat (x - (t + 24))"
    have "unat (x - (t + 24)) < 8 * (table_word n + Suc i) \<or> 8 * (table_word n + n + 1) \<le> unat (x - (t + 24))" using x by auto
    moreover have "unat (x - (t + 24)) < 8 * (table_word n + i) \<or> 8 * (table_word n + Suc i) \<le> unat (x - (t + 24))" using x le by auto
    ultimately show "populate_loop m1 t (of_nat (Suc i)) x = m x" using IH(2) st by metis
  qed
qed

lemma spec_empty [simp]: "spec n {} i = 0"
  by (simp add: spec_def hspec_empty)

lemma buddy_tree_init_inv:
  assumes "0 < n" "n \<le> 58" "unat t mod 8 = 0"
  shows "tree_inv (buddy_tree_init m t (of_nat n)) t n {}"
    "tree_bytes n \<le> unat (x - t) \<Longrightarrow> buddy_tree_init m t (of_nat n) x = m x"
proof -
  note b = layout_bounds [OF assms(2)] and ps = padded_bitset_size_nat [OF assms(2)]
  have tb: "tree_bytes n < 576460752303423488" using b(3) assms(2) by (simp add: tree_bytes_def)
  define m1 where "m1 = fill_bytes m t 0 (tree_bytes n)"
  define m2 where "m2 = store64 (m1(t + 16 := of_nat n)) t (of_nat (2 ^ n))"
  define m3 where "m3 = store64 (store64 m2 (t + 8) (padded_bitset_size (of_nat n) div 8)) (t + 8) (of_nat (table_word n))"
  have f: "fst (memset m t 0 (buddy_tree_sizeof (of_nat n))) = m1"
    using memset_fill [of "buddy_tree_sizeof (of_nat n)" m t 0] tb assms(3) ps(3,4) by (simp add: m1_def)
  have two: "two_to_the_power_of (ucast (buddy_tree_order (m1(t + 16 := of_nat n)) t)) = (of_nat (2 ^ n) :: u64)"
    using assms(2) by (simp add: buddy_tree_order_def two_to_the_power_of_def of_nat_u8 unat_of_nat64 push_bit_eq_mult)
  have i1: "buddy_tree_init m t (of_nat n) = buddy_tree_populate_size_for_order m2 t"
    unfolding buddy_tree_init_def Let_def f two m2_def ..
  have o2: "buddy_tree_order m2 t = of_nat n"
  proof -
    have "unat (t + 16 - t) = 16" by simp
    then show ?thesis by (simp add: m2_def buddy_tree_order_def store64_apply)
  qed
  have sfo: "size_for_order_offset (store64 m2 (t + 8) v) t = v" for v
    unfolding size_for_order_offset_def by (rule load64_store64)
  have i2: "buddy_tree_populate_size_for_order m2 t = populate_loop m3 t (of_nat 0)"
    unfolding buddy_tree_populate_size_for_order_def Let_def o2 sfo ps(2) m3_def by simp
  have at3: "m3 x = (if unat (x - (t + 8)) < 8 then byte_of (unat (x - (t + 8))) (of_nat (table_word n)) else m2 x)" for x
    by (simp add: m3_def store64_apply)
  have o3: "buddy_tree_order m3 t = of_nat n"
  proof -
    have "t + 16 - (t + 8) = (8 :: u64)" by simp
    then have "unat (t + 16 - (t + 8)) = 8" by (simp only:) simp
    then show ?thesis using o2 at3 [of "t + 16"] by (simp add: buddy_tree_order_def)
  qed
  have s3: "size_for_order_offset m3 t = of_nat (table_word n)" by (simp add: size_for_order_offset_def m3_def load64_store64)
  have u3: "upper_pos_bound m3 t = of_nat (2 ^ n)"
  proof -
    have "t - (t + 8) = (- 8 :: u64)" by simp
    then have u: "unat (t - (t + 8)) = 18446744073709551608" using unat_sub64 [of 0 8] by simp
    have "load64 (store64 (store64 m2 (t + 8) v) (t + 8) w) t = load64 m2 t" for v w
      using u by (subst load64_store64_far; simp)+
    then show ?thesis by (simp add: upper_pos_bound_def m3_def m2_def load64_store64)
  qed
  note p = populate_loop_table [OF assms(1,2), of 0 m3 t, OF le0 o3 s3]
  define m4 where "m4 = populate_loop m3 t (of_nat 0)"
  have tab: "load64 m4 (t + 24 + of_nat (8 * (table_word n + k))) = of_nat (row n k)" if "k \<le> n" for k
    using p that by (simp add: m4_def table_at_def)
  have fr: "m4 x = m3 x" if "unat (x - (t + 24)) < 8 * table_word n \<or> 8 * (table_word n + n + 1) \<le> unat (x - (t + 24))" for x
    using p that by (auto simp: m4_def)
  have off: "unat (x - (t + of_nat k)) = unat (x - t) - k" if "k \<le> unat (x - t)" "k < 18446744073709551616" for x k
    using that by (simp add: unat_off)
  have m3x: "m3 x = m1 x" if "24 \<le> unat (x - t)" for x
  proof -
    have "x \<noteq> t + 16" using that by auto
    moreover have "\<not> unat (x - (t + 8)) < 8" using that off [of 8 x] by simp
    ultimately show ?thesis using that by (simp add: at3 m2_def store64_apply)
  qed
  have head: "m4 (t + of_nat k) = m3 (t + of_nat k)" if "k < 24" for k
  proof -
    have eq: "t + of_nat k - (t + 24) = of_nat (18446744073709551592 + k)" by simp
    have "unat (t + of_nat k - (t + 24)) = 18446744073709551592 + k" unfolding eq using that by (intro unat_of_nat64) simp
    then show ?thesis using fr [of "t + of_nat k"] b(6) by simp
  qed
  have load: "load64 m4 (t + of_nat k) = load64 m3 (t + of_nat k)" if "k + 8 \<le> 24" for k
    using that head by (intro load64_cong) (simp add: add.assoc flip: of_nat_add)
  have "tree_at m4 t n"
    unfolding tree_at_def upper_pos_bound_def size_for_order_offset_def buddy_tree_order_def
    using assms(1,2) tab head [of 16] load [of 0] load [of 8] o3 s3 u3
    by (simp add: upper_pos_bound_def size_for_order_offset_def buddy_tree_order_def)
  moreover have "antichain n {}" by (simp add: antichain_def)
  moreover have "statuses m4 t n (spec n {})"
    unfolding statuses_def
  proof (intro allI impI conjI)
    fix i a
    assume i: "node n i"
    show "spec n {} i \<le> cap n i" by (rule spec_le)
    assume a: "a < cap n i"
    let ?q = "(loc n i + a) div 8"
    have "loc n i + a < row n 0" using loc_end [OF i] a by linarith
    then have q: "?q < bitset_bytes n" using b(5) by linarith
    have eq: "t + 24 + of_nat ?q = t + of_nat (24 + ?q)" by simp
    have ux: "unat (t + 24 + of_nat ?q - t) = 24 + ?q" unfolding eq add_diff_cancel_left' using q b(3,4) by (intro unat_of_nat64) linarith
    have uq: "unat (t + 24 + of_nat ?q - (t + 24)) = ?q" unfolding add_diff_cancel_left' using q b(3,4) by (intro unat_of_nat64) linarith
    have "m4 (t + 24 + of_nat ?q) = m3 (t + 24 + of_nat ?q)" using uq q b(1) by (intro fr) linarith
    also have "\<dots> = m1 (t + 24 + of_nat ?q)" using ux by (intro m3x) linarith
    also have "\<dots> = 0"
    proof -
      have "24 + ?q < tree_bytes n" using q b(4) unfolding tree_bytes_def by linarith
      then show ?thesis unfolding m1_def fill_bytes_def ux by simp
    qed
    finally show "bit_at m4 (t + 24) (loc n i + a) \<longleftrightarrow> a < spec n {} i" by (simp add: bit_at_def)
  qed
  ultimately show "tree_inv (buddy_tree_init m t (of_nat n)) t n {}" unfolding tree_inv_def i1 i2 m4_def by simp
  assume x: "tree_bytes n \<le> unat (x - t)"
  then have "unat (x - (t + of_nat 24)) = unat (x - t) - 24" by (intro off) (simp_all add: tree_bytes_def)
  then have "8 * (table_word n + n + 1) \<le> unat (x - (t + 24))" using x b(2) by (simp add: tree_bytes_def)
  then have "m4 x = m3 x" using fr by blast
  also have "\<dots> = m1 x" using x by (intro m3x) (simp add: tree_bytes_def)
  also have "\<dots> = m x" using x by (simp add: m1_def fill_bytes_def)
  finally show "buddy_tree_init m t (of_nat n) x = m x" unfolding i1 i2 m4_def .
qed

end
