(* ===== verification/Buddy.thy ===== *)
theory Buddy
  imports Buddy_Ops "HOL-Library.Monad_Syntax"
begin

text \<open>
  The allocator of \<^verbatim>\<open>kernel/memory/buddy_alloc.h\<close> on top of the allocation tree.  A \<^verbatim>\<open>struct buddy\<close> lies at an
  address of the flat memory with its tree behind it; the arena lies at \<^verbatim>\<open>buddy_main\<close>.  Pointers are
  addresses, null is 0; operations that change memory return it.  \<open>None\<close> is a loop that does not end,
  which does not happen under the invariant below.  The invariant also rules out an alignment of 0,
  by which the code would divide.
\<close>

subsection \<open>The structure in memory\<close>

definition BUDDY_ALLOC_ALIGN :: u64 where "BUDDY_ALLOC_ALIGN = 64"
definition sizeof_buddy :: u64 where "sizeof_buddy = 32"
definition BUDDY_RELATIVE_MODE :: u32 where "BUDDY_RELATIVE_MODE = 1"

definition buddy_memory_size :: "mem \<Rightarrow> u64 \<Rightarrow> u64" where "buddy_memory_size m buddy = load64 m buddy"
definition buddy_alignment :: "mem \<Rightarrow> u64 \<Rightarrow> u64" where "buddy_alignment m buddy = load64 m (buddy + 8)"
definition buddy_arena :: "mem \<Rightarrow> u64 \<Rightarrow> u64" where "buddy_arena m buddy = load64 m (buddy + 16)"
definition buddy_flags :: "mem \<Rightarrow> u64 \<Rightarrow> u64" where "buddy_flags m buddy = load64 m (buddy + 24)"

definition buddy_relative_mode :: "mem \<Rightarrow> u64 \<Rightarrow> bool" where
  "buddy_relative_mode m buddy \<longleftrightarrow> ucast (buddy_flags m buddy) AND BUDDY_RELATIVE_MODE \<noteq> 0"

definition buddy_main :: "mem \<Rightarrow> u64 \<Rightarrow> u64" where
  "buddy_main m buddy = (if buddy_relative_mode m buddy then buddy - buddy_arena m buddy else buddy_arena m buddy)"

definition buddy_tree :: "u64 \<Rightarrow> u64" where
  "buddy_tree buddy = buddy + sizeof_buddy"

definition buddy_tree_buddy :: "u64 \<Rightarrow> u64" where
  "buddy_tree_buddy t = t - sizeof_buddy"

definition buddy_tree_order_for_memory :: "u64 \<Rightarrow> u64 \<Rightarrow> u64" where
  "buddy_tree_order_for_memory memory_size alignment =
     (let blocks = memory_size div alignment in highest_bit_position (ceiling_power_of_two blocks))"

definition buddy_sizeof_alignment :: "u64 \<Rightarrow> u64 \<Rightarrow> u64" where
  "buddy_sizeof_alignment memory_size alignment =
     (if \<not> is_valid_alignment alignment then 0
      else if memory_size < alignment then 0
      else let order = buddy_tree_order_for_memory memory_size alignment
           in sizeof_buddy + buddy_tree_sizeof (ucast order))"

definition buddy_sizeof :: "u64 \<Rightarrow> u64" where
  "buddy_sizeof memory_size = buddy_sizeof_alignment memory_size BUDDY_ALLOC_ALIGN"

subsection \<open>Sizes and positions\<close>

definition buddy_effective_memory_size :: "mem \<Rightarrow> u64 \<Rightarrow> u64" where
  "buddy_effective_memory_size m buddy = ceiling_power_of_two (buddy_memory_size m buddy)"

definition buddy_virtual_slots :: "mem \<Rightarrow> u64 \<Rightarrow> u64" where
  "buddy_virtual_slots m buddy =
     (let memory_size = buddy_memory_size m buddy;
          effective_memory_size = buddy_effective_memory_size m buddy
      in if effective_memory_size = memory_size then 0
         else (effective_memory_size - memory_size) div buddy_alignment m buddy)"

definition size_for_depth :: "mem \<Rightarrow> u64 \<Rightarrow> u64 \<Rightarrow> u64" where
  "size_for_depth m buddy depth = drop_bit (unat (depth - 1)) (ceiling_power_of_two (buddy_memory_size m buddy))"

function depth_for_size_loop :: "u64 \<Rightarrow> u64 \<Rightarrow> u64 \<Rightarrow> u64" where
  "depth_for_size_loop requested_size depth effective_memory_size =
     (if drop_bit 1 (effective_memory_size div requested_size) \<noteq> 0
      then depth_for_size_loop requested_size (depth + 1) (drop_bit 1 effective_memory_size)
      else depth)"
  by pat_completeness auto
termination
proof (relation "measure (\<lambda>(requested_size, depth, effective_memory_size). unat effective_memory_size)")
  fix requested_size depth effective_memory_size :: u64
  assume "drop_bit 1 (effective_memory_size div requested_size) \<noteq> 0"
  then have "effective_memory_size \<noteq> 0" by auto
  then show "((requested_size, depth + 1, drop_bit 1 effective_memory_size), requested_size, depth, effective_memory_size)
      \<in> measure (\<lambda>(requested_size, depth, effective_memory_size). unat effective_memory_size)"
    by (simp add: unat_drop unat_gt_0 div_less_dividend)
qed simp

declare depth_for_size_loop.simps [simp del]

definition depth_for_size :: "mem \<Rightarrow> u64 \<Rightarrow> u64 \<Rightarrow> u64" where
  "depth_for_size m buddy requested_size =
     (let requested_size = (if requested_size < buddy_alignment m buddy then buddy_alignment m buddy else requested_size)
      in depth_for_size_loop requested_size 1 (buddy_effective_memory_size m buddy))"

definition address_for_position :: "mem \<Rightarrow> u64 \<Rightarrow> buddy_tree_pos \<Rightarrow> u64" where
  "address_for_position m buddy pos =
     (let block_size = size_for_depth m buddy (buddy_tree_depth pos);
          addr = block_size * buddy_tree_index pos
      in buddy_main m buddy + addr)"

definition deepest_position_for_offset :: "mem \<Rightarrow> u64 \<Rightarrow> u64 \<Rightarrow> buddy_tree_pos" where
  "deepest_position_for_offset m buddy offset =
     (let index = offset div buddy_alignment m buddy;
          pos = buddy_tree_leftmost_child m (buddy_tree buddy)
      in pos\<lparr>p_index := p_index pos + index\<rparr>)"

text \<open>The climb to the position that tracks an address; \<open>None\<close> is its early return.\<close>

function allocated_position :: "mem \<Rightarrow> u64 \<Rightarrow> buddy_tree_pos \<Rightarrow> buddy_tree_pos option" where
  "allocated_position m tree pos =
     (if buddy_tree_status m tree pos = 0
      then let pos = buddy_tree_parent pos
           in if \<not> buddy_tree_valid m tree pos then None else allocated_position m tree pos
      else Some pos)"
  by pat_completeness auto
termination
proof (relation "measure (\<lambda>(m, tree, pos). unat (p_index pos))")
  fix m :: mem and tree :: u64 and pos x :: buddy_tree_pos
  assume "x = buddy_tree_parent pos" "\<not> \<not> buddy_tree_valid m tree x"
  then have "p_index pos \<noteq> 0" by (auto simp: buddy_tree_valid_def buddy_tree_parent_def)
  then show "((m, tree, x), m, tree, pos) \<in> measure (\<lambda>(m, tree, pos). unat (p_index pos))"
    using \<open>x = buddy_tree_parent pos\<close> parent_index_less by simp
qed simp

declare allocated_position.simps [simp del]

definition position_for_address :: "mem \<Rightarrow> u64 \<Rightarrow> u64 \<Rightarrow> buddy_tree_pos" where
  "position_for_address m buddy addr =
     (let offset = addr - buddy_main m buddy
      in if offset mod buddy_alignment m buddy \<noteq> 0 then INVALID_POS
         else case allocated_position m (buddy_tree buddy) (deepest_position_for_offset m buddy offset) of
                None \<Rightarrow> INVALID_POS
              | Some pos \<Rightarrow> if address_for_position m buddy pos \<noteq> addr then INVALID_POS else pos)"

subsection \<open>Marking the memory that is not there\<close>

definition toggle :: "bool \<Rightarrow> mem \<Rightarrow> u64 \<Rightarrow> buddy_tree_pos \<Rightarrow> mem option" where
  "toggle state m tree pos =
     (if state then buddy_tree_mark m tree pos else map_option snd (buddy_tree_release m tree pos))"

partial_function (option) toggle_virtual_loop :: "u64 \<Rightarrow> bool \<Rightarrow> mem \<Rightarrow> buddy_tree_pos \<Rightarrow> u64 \<Rightarrow> mem option" where
  "toggle_virtual_loop buddy state m pos delta =
     (if delta \<noteq> 0
      then let current_pos_size = size_for_depth m buddy (buddy_tree_depth pos)
           in if delta = current_pos_size then toggle state m (buddy_tree buddy) pos
              else if delta \<le> current_pos_size div 2
              then toggle_virtual_loop buddy state m (buddy_tree_right_child pos) delta
              else do {
                m \<leftarrow> toggle state m (buddy_tree buddy) (buddy_tree_right_child pos);
                toggle_virtual_loop buddy state m (buddy_tree_left_child pos) (delta - current_pos_size div 2)
              }
      else Some m)"

definition buddy_toggle_virtual_slots :: "mem \<Rightarrow> u64 \<Rightarrow> bool \<Rightarrow> mem option" where
  "buddy_toggle_virtual_slots m buddy state =
     (let memory_size = buddy_memory_size m buddy;
          effective_memory_size = buddy_effective_memory_size m buddy
      in if effective_memory_size = memory_size then Some m
         else toggle_virtual_loop buddy state m (buddy_tree_right_child buddy_tree_root) (effective_memory_size - memory_size))"

partial_function (option) toggle_range_loop :: "u64 \<Rightarrow> bool \<Rightarrow> mem \<Rightarrow> buddy_tree_pos \<Rightarrow> u64 \<Rightarrow> mem option" where
  "toggle_range_loop buddy state m pos requested_size =
     (if requested_size \<noteq> 0
      then do {
        m \<leftarrow> toggle state m (buddy_tree buddy) pos;
        toggle_range_loop buddy state m (pos\<lparr>p_index := p_index pos + 1\<rparr>)
          (if requested_size < buddy_alignment m buddy then 0 else requested_size - buddy_alignment m buddy)
      }
      else Some m)"

definition buddy_toggle_range_reservation :: "mem \<Rightarrow> u64 \<Rightarrow> u64 \<Rightarrow> u64 \<Rightarrow> bool \<Rightarrow> mem option" where
  "buddy_toggle_range_reservation m buddy ptr requested_size state =
     (if buddy = 0 \<or> ptr = 0 \<or> requested_size = 0 then Some m
      else let main = buddy_main m buddy
           in if ptr < main \<or> ptr + requested_size > main + buddy_memory_size m buddy then Some m
              else toggle_range_loop buddy state m (deepest_position_for_offset m buddy (ptr - main)) requested_size)"

definition buddy_reserve_range :: "mem \<Rightarrow> u64 \<Rightarrow> u64 \<Rightarrow> u64 \<Rightarrow> mem option" where
  "buddy_reserve_range m buddy ptr requested_size = buddy_toggle_range_reservation m buddy ptr requested_size True"

definition buddy_unsafe_release_range :: "mem \<Rightarrow> u64 \<Rightarrow> u64 \<Rightarrow> u64 \<Rightarrow> mem option" where
  "buddy_unsafe_release_range m buddy ptr requested_size = buddy_toggle_range_reservation m buddy ptr requested_size False"

subsection \<open>Initialization\<close>

definition buddy_init_alignment :: "mem \<Rightarrow> u64 \<Rightarrow> u64 \<Rightarrow> u64 \<Rightarrow> u64 \<Rightarrow> (u64 \<times> mem) option" where
  "buddy_init_alignment m at main memory_size alignment =
     (if at = 0 \<or> main = 0 \<or> at = main then Some (0, m)
      else if \<not> is_valid_alignment alignment then Some (0, m)
      else if at mod 8 \<noteq> 0 \<or> main mod 8 \<noteq> 0 then Some (0, m)
      else let memory_size = (if memory_size mod alignment \<noteq> 0 then memory_size - memory_size mod alignment else memory_size);
               buddy_size = buddy_sizeof_alignment memory_size alignment
           in if buddy_size = 0 then Some (0, m)
              else let order = buddy_tree_order_for_memory memory_size alignment;
                       m = store64 m (at + 16) main;
                       m = store64 m at memory_size;
                       m = store64 m (at + 24) 0;
                       m = store64 m (at + 8) alignment;
                       m = buddy_tree_init m (at + sizeof_buddy) (ucast order)
                   in do { m \<leftarrow> buddy_toggle_virtual_slots m at True; Some (at, m) })"

definition buddy_init :: "mem \<Rightarrow> u64 \<Rightarrow> u64 \<Rightarrow> u64 \<Rightarrow> (u64 \<times> mem) option" where
  "buddy_init m at main memory_size = buddy_init_alignment m at main memory_size BUDDY_ALLOC_ALIGN"

record buddy_embed_check =
  can_fit :: bool
  embed_offset :: u64
  embed_buddy_size :: u64

definition buddy_embed_offset :: "u64 \<Rightarrow> u64 \<Rightarrow> buddy_embed_check" where
  "buddy_embed_offset memory_size alignment =
     (let buddy_size = buddy_sizeof_alignment memory_size alignment;
          fits = \<not> buddy_size \<ge> memory_size;
          offset = memory_size - buddy_size;
          (fits, buddy_size, offset) =
            (if offset mod 8 \<noteq> 0
             then let buddy_size = buddy_size + offset mod 8
                  in (fits \<and> \<not> buddy_size \<ge> memory_size, buddy_size, memory_size - buddy_size)
             else (fits, buddy_size, offset))
      in if fits then \<lparr>can_fit = True, embed_offset = offset, embed_buddy_size = buddy_size\<rparr>
         else \<lparr>can_fit = False, embed_offset = 0, embed_buddy_size = 0\<rparr>)"

definition buddy_embed_alignment :: "mem \<Rightarrow> u64 \<Rightarrow> u64 \<Rightarrow> u64 \<Rightarrow> (u64 \<times> mem) option" where
  "buddy_embed_alignment m main memory_size alignment =
     (if main = 0 then Some (0, m)
      else if \<not> is_valid_alignment alignment then Some (0, m)
      else let check_result = buddy_embed_offset memory_size alignment
           in if \<not> can_fit check_result then Some (0, m)
              else do {
                (buddy, m) \<leftarrow> buddy_init_alignment m (main + embed_offset check_result) main (embed_offset check_result) alignment;
                if buddy = 0 then Some (0, m)
                else let m = store64 m (buddy + 24) (buddy_flags m buddy OR ucast BUDDY_RELATIVE_MODE);
                         m = store64 m (buddy + 16) (buddy - main)
                     in Some (buddy, m)
              })"

definition buddy_embed :: "mem \<Rightarrow> u64 \<Rightarrow> u64 \<Rightarrow> (u64 \<times> mem) option" where
  "buddy_embed m main memory_size = buddy_embed_alignment m main memory_size BUDDY_ALLOC_ALIGN"

definition buddy_get_embed_at_alignment :: "u64 \<Rightarrow> u64 \<Rightarrow> u64 \<Rightarrow> u64" where
  "buddy_get_embed_at_alignment main memory_size alignment =
     (let check_result = buddy_embed_offset memory_size alignment
      in if \<not> can_fit check_result then 0 else main + embed_offset check_result)"

definition buddy_get_embed_at :: "u64 \<Rightarrow> u64 \<Rightarrow> u64" where
  "buddy_get_embed_at main memory_size = buddy_get_embed_at_alignment main memory_size BUDDY_ALLOC_ALIGN"

subsection \<open>Allocation\<close>

definition buddy_malloc :: "mem \<Rightarrow> u64 \<Rightarrow> u64 \<Rightarrow> (u64 \<times> mem) option" where
  "buddy_malloc m buddy requested_size =
     (if buddy = 0 then Some (0, m)
      else let requested_size = (if requested_size = 0 then 1 else requested_size)
           in if requested_size > buddy_memory_size m buddy then Some (0, m)
              else let target_depth = depth_for_size m buddy requested_size;
                       tree = buddy_tree buddy;
                       pos = buddy_tree_find_free m tree (ucast target_depth)
                   in if \<not> buddy_tree_valid m tree pos then Some (0, m)
                      else do { m \<leftarrow> buddy_tree_mark m tree pos; Some (address_for_position m buddy pos, m) })"

definition buddy_calloc :: "mem \<Rightarrow> u64 \<Rightarrow> u64 \<Rightarrow> u64 \<Rightarrow> (u64 \<times> mem) option" where
  "buddy_calloc m buddy members_count member_size =
     (let (members_count, member_size) = (if members_count = 0 \<or> member_size = 0 then (1, 1) else (members_count, member_size))
      in if members_count * member_size div members_count \<noteq> member_size then Some (0, m)
         else let total_size = members_count * member_size
              in do {
                (result, m) \<leftarrow> buddy_malloc m buddy total_size;
                Some (result, if result \<noteq> 0 then fst (memset m result 0 total_size) else m)
              })"

definition buddy_free :: "mem \<Rightarrow> u64 \<Rightarrow> u64 \<Rightarrow> mem option" where
  "buddy_free m buddy ptr =
     (if buddy = 0 \<or> ptr = 0 then Some m
      else let main = buddy_main m buddy
           in if ptr < main \<or> ptr \<ge> main + buddy_memory_size m buddy then Some m
              else let tree = buddy_tree buddy; pos = position_for_address m buddy ptr
                   in if \<not> buddy_tree_valid m tree pos then Some m
                      else map_option snd (buddy_tree_release m tree pos))"

datatype buddy_safe_free_status =
    BUDDY_SAFE_FREE_SUCCESS | BUDDY_SAFE_FREE_BUDDY_IS_NULL | BUDDY_SAFE_FREE_INVALID_ADDRESS
  | BUDDY_SAFE_FREE_SIZE_MISMATCH | BUDDY_SAFE_FREE_ALREADY_FREE

definition buddy_safe_free :: "mem \<Rightarrow> u64 \<Rightarrow> u64 \<Rightarrow> u64 \<Rightarrow> (buddy_safe_free_status \<times> mem) option" where
  "buddy_safe_free m buddy ptr requested_size =
     (if buddy = 0 then Some (BUDDY_SAFE_FREE_BUDDY_IS_NULL, m)
      else if ptr = 0 then Some (BUDDY_SAFE_FREE_INVALID_ADDRESS, m)
      else let main = buddy_main m buddy
           in if ptr < main \<or> ptr \<ge> main + buddy_memory_size m buddy then Some (BUDDY_SAFE_FREE_INVALID_ADDRESS, m)
              else let tree = buddy_tree buddy; pos = position_for_address m buddy ptr
                   in if \<not> buddy_tree_valid m tree pos then Some (BUDDY_SAFE_FREE_INVALID_ADDRESS, m)
                      else let allocated_size_for_depth = size_for_depth m buddy (p_depth pos);
                               requested_size = (if requested_size < buddy_alignment m buddy then buddy_alignment m buddy else requested_size)
                           in if requested_size > allocated_size_for_depth then Some (BUDDY_SAFE_FREE_SIZE_MISMATCH, m)
                              else if requested_size \<le> allocated_size_for_depth div 2 then Some (BUDDY_SAFE_FREE_SIZE_MISMATCH, m)
                              else do {
                                (status, m) \<leftarrow> buddy_tree_release m tree pos;
                                Some (case status of
                                        BUDDY_TREE_RELEASE_FAIL_PARTIALLY_USED \<Rightarrow> BUDDY_SAFE_FREE_INVALID_ADDRESS
                                      | BUDDY_TREE_RELEASE_SUCCESS \<Rightarrow> BUDDY_SAFE_FREE_SUCCESS, m)
                              })"

definition buddy_realloc :: "mem \<Rightarrow> u64 \<Rightarrow> u64 \<Rightarrow> u64 \<Rightarrow> bool \<Rightarrow> (u64 \<times> mem) option" where
  "buddy_realloc m buddy ptr requested_size ignore_data =
     (if ptr = 0 then buddy_malloc m buddy requested_size
      else if requested_size = 0 then do { m \<leftarrow> buddy_free m buddy ptr; Some (0, m) }
      else if requested_size > buddy_memory_size m buddy then Some (0, m)
      else let tree = buddy_tree buddy; origin = position_for_address m buddy ptr
           in if \<not> buddy_tree_valid m tree origin then Some (0, m)
              else let current_depth = buddy_tree_depth origin;
                       target_depth = depth_for_size m buddy requested_size
                   in do {
                     (_, m) \<leftarrow> buddy_tree_release m tree origin;
                     let new_pos = buddy_tree_find_free m tree (ucast target_depth);
                     if \<not> buddy_tree_valid m tree new_pos
                     then do { m \<leftarrow> buddy_tree_mark m tree origin; Some (0, m) }
                     else if p_index origin = p_index new_pos
                     then do { m \<leftarrow> buddy_tree_mark m tree origin; Some (ptr, m) }
                     else let destination = address_for_position m buddy new_pos
                          in do {
                            m \<leftarrow> (if \<not> ignore_data
                                  then map_option fst (memmove m destination (address_for_position m buddy origin)
                                         (size_for_depth m buddy (if current_depth > target_depth then current_depth else target_depth)))
                                  else Some m);
                            m \<leftarrow> buddy_tree_mark m tree new_pos;
                            Some (destination, m)
                          }
                   })"

definition buddy_reallocarray :: "mem \<Rightarrow> u64 \<Rightarrow> u64 \<Rightarrow> u64 \<Rightarrow> u64 \<Rightarrow> bool \<Rightarrow> (u64 \<times> mem) option" where
  "buddy_reallocarray m buddy ptr members_count member_size ignore_data =
     (if members_count = 0 \<or> member_size = 0 then buddy_realloc m buddy ptr 0 ignore_data
      else if members_count * member_size div members_count \<noteq> member_size then Some (0, m)
      else buddy_realloc m buddy ptr (members_count * member_size) ignore_data)"

end
