(* ===== verification/Buddy_Geometry.thy ===== *)
theory Buddy_Geometry
  imports Buddy_Spec
begin

text \<open>
  The blocks of an arena, without code: node \<open>i\<close> of a tree of order \<open>n\<close> stands for a block of \<open>block_size\<close> bytes at
  the offset \<open>boff\<close>.  Blocks are nested like the nodes: nodes that do not lie on a path have disjoint
  blocks.
\<close>

record geometry =
  g_order :: nat
  g_align :: nat
  g_size :: nat

definition geo_ok :: "geometry \<Rightarrow> bool" where
  "geo_ok g \<longleftrightarrow> (\<exists>k. g_align g = 2 ^ k) \<and> g_align g dvd g_size g \<and> 0 < g_size g \<and> g_size g \<le> 4611686018427387904 \<and>
     g_order g = Suc (clog (g_size g div g_align g)) \<and> g_order g \<le> 58"

definition block_size :: "geometry \<Rightarrow> nat \<Rightarrow> nat" where
  "block_size g i = g_align g * 2 ^ (cap (g_order g) i - 1)"

definition boff :: "geometry \<Rightarrow> nat \<Rightarrow> nat" where
  "boff g i = (i - 2 ^ (blen i - 1)) * block_size g i"

definition block :: "geometry \<Rightarrow> nat \<Rightarrow> nat set" where
  "block g i = {boff g i ..< boff g i + block_size g i}"

text \<open>The memory that the tree covers.\<close>

definition whole :: "geometry \<Rightarrow> nat" where
  "whole g = g_align g * 2 ^ (g_order g - 1)"

lemma clog_eq: "n \<le> 2 ^ k \<Longrightarrow> k = 0 \<or> 2 ^ (k - 1) < n \<Longrightarrow> clog n = k"
proof -
  assume k: "n \<le> 2 ^ k" "k = 0 \<or> 2 ^ (k - 1) < n"
  have "k \<le> clog n"
  proof (rule ccontr)
    assume "\<not> k \<le> clog n"
    then have "(2 :: nat) ^ clog n \<le> 2 ^ (k - 1)" "k \<noteq> 0" by (simp_all add: power_increasing)
    then show False using k(2) clog_upper [of n] by linarith
  qed
  then show ?thesis using clog_least [OF k(1)] by simp
qed

lemma clog_lower: "0 < clog n \<Longrightarrow> 2 ^ (clog n - 1) < n"
  using blen_lower [of "n - 1"] by (cases "n - 1 = 0") (simp_all add: clog_def blen_gt_0)

lemma clog_mult:
  assumes "0 < q"
  shows "clog (2 ^ a * q) = a + clog q"
proof (cases "clog q = 0")
  case True
  then have "q = 1" using clog_upper [of q] assms by simp
  then show ?thesis using True by simp
next
  case False
  show ?thesis
  proof (rule clog_eq)
    show "2 ^ a * q \<le> 2 ^ (a + clog q)" using clog_upper [of q] by (simp add: power_add)
    have "(2 :: nat) ^ a * 2 ^ (clog q - 1) < 2 ^ a * q" using clog_lower [of q] False by simp
    then show "a + clog q = 0 \<or> 2 ^ (a + clog q - 1) < 2 ^ a * q" using False by (simp add: power_add [symmetric])
  qed
qed

lemma geo_facts:
  assumes "geo_ok g"
  shows "0 < g_align g" "g_align g \<le> g_size g" "0 < g_order g" "whole g = 2 ^ clog (g_size g)" "g_size g \<le> whole g"
    "g_align g dvd g_size g" "whole g \<le> 4611686018427387904"
proof -
  obtain k where k: "g_align g = 2 ^ k" using assms by (auto simp: geo_ok_def)
  show "0 < g_align g" using k by simp
  show d: "g_align g dvd g_size g" using assms by (simp add: geo_ok_def)
  then show "g_align g \<le> g_size g" using assms by (auto simp: geo_ok_def dest: dvd_imp_le)
  then have q: "0 < g_size g div g_align g" using k by (simp add: div_greater_zero_iff)
  have "g_size g = 2 ^ k * (g_size g div g_align g)" using d k by simp
  then have "clog (g_size g) = k + clog (g_size g div g_align g)" using clog_mult [OF q] by metis
  then show w: "whole g = 2 ^ clog (g_size g)" using assms k by (simp add: whole_def geo_ok_def power_add)
  show "g_size g \<le> whole g" unfolding w by (rule clog_upper)
  have "clog (g_size g) \<le> 62" using assms by (intro clog_least) (simp add: geo_ok_def)
  then have "whole g \<le> 2 ^ 62" unfolding w by (rule power_increasing) simp
  then show "whole g \<le> 4611686018427387904" by simp
  show "0 < g_order g" using assms by (simp add: geo_ok_def)
qed

lemma block_size_pos: "0 < g_align g \<Longrightarrow> 0 < block_size g i"
  by (simp add: block_size_def)

lemma node_parts:
  assumes "node (g_order g) i"
  shows "2 ^ (blen i - 1) + (i - 2 ^ (blen i - 1)) = i" "i - 2 ^ (blen i - 1) < 2 ^ (blen i - 1)"
    "g_order g - 1 = (cap (g_order g) i - 1) + (blen i - 1)"
proof -
  have i: "0 < i" "0 < blen i" "blen i \<le> g_order g" using assms by (simp_all add: node_def blen_gt_0 blen_less)
  have p: "(2 :: nat) ^ blen i = 2 * 2 ^ (blen i - 1)" using i(2) by (simp add: power_eq_if)
  show "2 ^ (blen i - 1) + (i - 2 ^ (blen i - 1)) = i" "i - 2 ^ (blen i - 1) < 2 ^ (blen i - 1)"
    using blen_lower [OF i(1)] blen_upper [of i] p by linarith+
  show "g_order g - 1 = (cap (g_order g) i - 1) + (blen i - 1)" using i(2,3) by (simp add: cap_def)
qed

lemma node_block:
  assumes "node (g_order g) i"
  shows "boff g i + block_size g i \<le> whole g" "block_size g i dvd boff g i" "g_align g dvd block_size g i"
proof -
  note p = node_parts [OF assms]
  have "boff g i + block_size g i = Suc (i - 2 ^ (blen i - 1)) * block_size g i" by (simp add: boff_def)
  also have "\<dots> \<le> 2 ^ (blen i - 1) * block_size g i" using p(2) by (intro mult_le_mono1) simp
  also have "\<dots> = whole g" unfolding whole_def p(3) block_size_def by (simp add: power_add)
  finally show "boff g i + block_size g i \<le> whole g" .
  show "block_size g i dvd boff g i" "g_align g dvd block_size g i" by (simp_all add: boff_def block_size_def)
qed

text \<open>The leaf that tracks an offset.  A block consists of the offsets whose leaf lies in its subtree.\<close>

definition leaf :: "geometry \<Rightarrow> nat \<Rightarrow> nat" where
  "leaf g x = 2 ^ (g_order g - 1) + x div g_align g"

lemma leaf_node:
  assumes "geo_ok g" "x < whole g"
  shows "node (g_order g) (leaf g x)" "blen (leaf g x) = g_order g" "cap (g_order g) (leaf g x) = 1"
proof -
  note f = geo_facts [OF assms(1)]
  have "x div g_align g < 2 ^ (g_order g - 1)" using assms(2) by (simp add: whole_def less_mult_imp_div_less mult.commute)
  then have "blen (leaf g x) = Suc (g_order g - 1)" by (intro blen_unique) (simp_all add: leaf_def)
  then show b: "blen (leaf g x) = g_order g" using f(3) by simp
  then show "node (g_order g) (leaf g x)" "cap (g_order g) (leaf g x) = 1" using f(3) by (simp_all add: node_blen cap_def)
qed

lemma leaf_block:
  assumes "geo_ok g" "node (g_order g) i" "x < whole g"
  shows "x \<in> block g i \<longleftrightarrow> subnode i (leaf g x)"
proof -
  note p = node_parts [OF assms(2)] and f = geo_facts [OF assms(1)] and l = leaf_node [OF assms(1,3)]
  let ?k = "cap (g_order g) i - 1" and ?y = "i - 2 ^ (blen i - 1)"
  have d: "g_order g - blen i = ?k" "blen i \<le> g_order g" using assms(2) by (simp_all add: cap_def node_blen)
  have b: "0 < block_size g i" using block_size_pos [OF f(1)] .
  have "x \<in> block g i \<longleftrightarrow> ?y * block_size g i \<le> x \<and> x < Suc ?y * block_size g i" by (auto simp: block_def boff_def)
  also have "\<dots> \<longleftrightarrow> x div block_size g i = ?y"
    using b by (metis div_less_iff_less_mult less_eq_div_iff_mult_less_eq less_Suc_eq_le antisym order_refl)
  also have "x div block_size g i = x div g_align g div 2 ^ ?k" by (simp add: block_size_def div_mult2_eq)
  also have "x div g_align g div 2 ^ ?k = ?y \<longleftrightarrow> leaf g x div 2 ^ ?k = i"
  proof -
    have "leaf g x div 2 ^ ?k = 2 ^ (blen i - 1) + x div g_align g div 2 ^ ?k"
      unfolding leaf_def p(3) by (simp add: power_add)
    then show ?thesis using p(1) by linarith
  qed
  also have "\<dots> \<longleftrightarrow> subnode i (leaf g x)" using d l(2) by (simp add: subnode_def)
  finally show ?thesis .
qed

lemma block_whole: "node (g_order g) i \<Longrightarrow> x \<in> block g i \<Longrightarrow> x < whole g"
  using node_block(1) [of g i] by (auto simp: block_def)

lemma block_subnode:
  assumes "geo_ok g" "node (g_order g) i" "node (g_order g) j" "subnode i j"
  shows "block g j \<subseteq> block g i"
proof
  fix x
  assume x: "x \<in> block g j"
  then have w: "x < whole g" using block_whole assms(3) by blast
  then have "subnode j (leaf g x)" using x leaf_block [OF assms(1,3)] by blast
  then have "subnode i (leaf g x)" using subnode_trans [OF _ assms(4)] assms(2) by (simp add: node_def)
  then show "x \<in> block g i" using leaf_block [OF assms(1,2) w] by blast
qed

text \<open>Blocks of nodes that do not lie on a path are disjoint.\<close>

lemma block_disjoint:
  assumes "geo_ok g" "node (g_order g) i" "node (g_order g) j" "\<not> subnode i j" "\<not> subnode j i"
  shows "block g i \<inter> block g j = {}"
proof (rule ccontr)
  assume "block g i \<inter> block g j \<noteq> {}"
  then obtain x where x: "x \<in> block g i" "x \<in> block g j" by blast
  then have "x < whole g" using block_whole assms(2) by blast
  then have "subnode i (leaf g x)" "subnode j (leaf g x)" using x leaf_block [OF assms(1)] assms(2,3) by blast+
  then show False using subnode_linear assms(4,5) by blast
qed

lemma block_free:
  assumes "geo_ok g" "node (g_order g) j" "antichain (g_order g) A"
  shows "free_node (g_order g) A j \<longleftrightarrow> (\<forall>a \<in> A. block g a \<inter> block g j = {})"
proof
  assume "free_node (g_order g) A j"
  then show "\<forall>a \<in> A. block g a \<inter> block g j = {}"
    using block_disjoint [OF assms(1)] assms(2,3) by (auto simp: free_node_def antichain_def)
next
  assume d: "\<forall>a \<in> A. block g a \<inter> block g j = {}"
  have ne: "block g i \<noteq> {}" for i using block_size_pos [of g i] geo_facts(1) [OF assms(1)] by (simp add: block_def)
  show "free_node (g_order g) A j"
    unfolding free_node_def
  proof (intro conjI ballI notI assms(2))
    fix a
    assume a: "a \<in> A"
    then have n: "node (g_order g) a" using assms(3) by (simp add: antichain_def)
    show False if "subnode a j" using block_subnode [OF assms(1) n assms(2) that] d a ne [of j] by auto
    show False if "subnode j a" using block_subnode [OF assms(1,2) n that] d a ne [of a] by auto
  qed
qed

text \<open>The allocated blocks behind the end of the memory cover the rest of the tree.\<close>

definition covered :: "geometry \<Rightarrow> nat set \<Rightarrow> bool" where
  "covered g A \<longleftrightarrow> (\<forall>x. g_size g \<le> x \<and> x < whole g \<longrightarrow> (\<exists>a \<in> A. x \<in> block g a \<and> g_size g \<le> boff g a))"

lemma user_block:
  assumes "geo_ok g" "antichain (g_order g) A" "covered g A" "a \<in> A" "boff g a < g_size g"
  shows "boff g a + block_size g a \<le> g_size g"
proof (rule ccontr)
  assume "\<not> boff g a + block_size g a \<le> g_size g"
  then have x: "g_size g \<in> block g a" using assms(5) by (simp add: block_def)
  have n: "node (g_order g) a" using assms(2,4) by (simp add: antichain_def)
  have w: "g_size g < whole g" using block_whole [OF n x] .
  then obtain v where v: "v \<in> A" "g_size g \<in> block g v" "g_size g \<le> boff g v" using assms(3) by (auto simp: covered_def)
  have "node (g_order g) v" using assms(2) v(1) by (simp add: antichain_def)
  then have "subnode a v \<or> subnode v a"
    using subnode_linear leaf_block [OF assms(1) n w] leaf_block [OF assms(1) _ w] x v(2) by blast
  then have "a = v" using assms(2,4) v(1) by (auto simp: antichain_def)
  then show False using v(3) assms(5) by simp
qed

lemma same_offset:
  assumes "geo_ok g" "antichain (g_order g) A" "a \<in> A" "b \<in> A" "boff g a = boff g b"
  shows "a = b"
proof -
  have n: "node (g_order g) a" "node (g_order g) b" using assms(2-4) by (simp_all add: antichain_def)
  have "boff g a \<in> block g a" "boff g a \<in> block g b"
    using block_size_pos geo_facts(1) [OF assms(1)] assms(5) by (simp_all add: block_def)
  then have "subnode a b \<or> subnode b a" using block_disjoint [OF assms(1) n] by blast
  then show ?thesis using assms(2-4) by (auto simp: antichain_def)
qed

end
