(* ===== verification/Buddy_Correct.thy ===== *)
theory Buddy_Correct
  imports Buddy Buddy_Geometry
begin

text \<open>
  The allocator in terms of blocks: its invariant, and what allocation, release and
  reallocation do to the set of allocated blocks.
\<close>

subsection \<open>The invariant\<close>

definition meta_bytes :: "geometry \<Rightarrow> nat" where
  "meta_bytes g = 32 + tree_bytes (g_order g)"

text \<open>The arena and the data of the allocator do not overlap.\<close>

definition separate :: "geometry \<Rightarrow> u64 \<Rightarrow> u64 \<Rightarrow> bool" where
  "separate g main b \<longleftrightarrow> (\<forall>x. unat (x - main) < g_size g \<longrightarrow> meta_bytes g \<le> unat (x - b))"

definition buddy_inv :: "geometry \<Rightarrow> u64 \<Rightarrow> mem \<Rightarrow> u64 \<Rightarrow> nat set \<Rightarrow> bool" where
  "buddy_inv g main m b A \<longleftrightarrow> geo_ok g \<and> b \<noteq> 0 \<and> main \<noteq> 0 \<and> unat main mod 8 = 0 \<and> unat main + g_size g < 18446744073709551616 \<and>
     buddy_memory_size m b = of_nat (g_size g) \<and> buddy_alignment m b = of_nat (g_align g) \<and> buddy_main m b = main \<and>
     separate g main b \<and> tree_inv m (b + 32) (g_order g) A \<and> covered g A"

lemma buddy_invD:
  assumes "buddy_inv g main m b A"
  shows "geo_ok g" "b \<noteq> 0" "main \<noteq> 0" "unat main + g_size g < 18446744073709551616"
    "buddy_memory_size m b = of_nat (g_size g)" "buddy_alignment m b = of_nat (g_align g)" "buddy_main m b = main"
    "separate g main b" "tree_inv m (b + 32) (g_order g) A" "covered g A" "antichain (g_order g) A" "unat main mod 8 = 0"
  using assms by (auto simp: buddy_inv_def tree_inv_def)

lemma fields_frame:
  assumes "bits_frame n (b + 32) m m'" "n \<le> 58"
  shows "buddy_memory_size m' b = buddy_memory_size m b" "buddy_alignment m' b = buddy_alignment m b" "buddy_main m' b = buddy_main m b"
    "buddy_flags m' b = buddy_flags m b"
proof -
  have load: "load64 m' (b + of_nat k) = load64 m (b + of_nat k)" if "k + 8 \<le> 32" for k
  proof (rule load64_cong)
    fix j :: nat
    assume "j < 8"
    have eq: "b + 32 + 24 + of_nat (18446744073709551560 + (k + j)) = b + of_nat k + of_nat j" by simp
    show "m' (b + of_nat k + of_nat j) = m (b + of_nat k + of_nat j)"
      using far_offset [OF assms(1), of "18446744073709551560 + (k + j)", unfolded eq] layout_bounds(3,4) [OF assms(2)] that \<open>j < 8\<close> by linarith
  qed
  show "buddy_memory_size m' b = buddy_memory_size m b" "buddy_alignment m' b = buddy_alignment m b" "buddy_main m' b = buddy_main m b"
    "buddy_flags m' b = buddy_flags m b"
    using load [of 0] load [of 8] load [of 16] load [of 24]
    by (simp_all add: buddy_memory_size_def buddy_alignment_def buddy_main_def buddy_relative_mode_def buddy_flags_def buddy_arena_def)
qed

lemma buddy_inv_tree:
  assumes "buddy_inv g main m b A" "tree_inv m' (b + 32) (g_order g) A'" "bits_frame (g_order g) (b + 32) m m'" "covered g A'"
  shows "buddy_inv g main m' b A'"
  using assms fields_frame [OF assms(3)] by (simp add: buddy_inv_def geo_ok_def)

text \<open>Memory outside the data of the allocator.\<close>

definition meta_frame :: "geometry \<Rightarrow> u64 \<Rightarrow> mem \<Rightarrow> mem \<Rightarrow> bool" where
  "meta_frame g b m m' \<longleftrightarrow> (\<forall>x. meta_bytes g \<le> unat (x - b) \<longrightarrow> m' x = m x)"

lemma bits_meta_frame:
  assumes "bits_frame (g_order g) (b + 32) m m'" "g_order g \<le> 58"
  shows "meta_frame g b m m'"
  unfolding meta_frame_def
proof (intro allI impI)
  fix x
  assume x: "meta_bytes g \<le> unat (x - b)"
  then have "unat (x - (b + of_nat 56)) = unat (x - b) - 56" by (subst unat_off) (simp_all add: meta_bytes_def tree_bytes_def)
  then have "bitset_bytes (g_order g) \<le> unat (x - (b + 32 + 24))"
    using x layout_bounds(4) [OF assms(2)] by (simp add: meta_bytes_def tree_bytes_def add.assoc)
  then show "m' x = m x" using assms(1) by (simp add: bits_frame_def)
qed

subsection \<open>Sizes, depths and addresses\<close>

lemma effective_size:
  assumes "geo_ok g" "buddy_memory_size m b = of_nat (g_size g)"
  shows "unat (buddy_effective_memory_size m b) = whole g" "unat (of_nat (g_align g) :: u64) = g_align g"
    "unat (of_nat (g_size g) :: u64) = g_size g"
proof -
  note f = geo_facts [OF assms(1)]
  have s: "g_size g \<le> 4611686018427387904" using f(5,7) by linarith
  then show u: "unat (of_nat (g_size g) :: u64) = g_size g" by (intro unat_of_nat64) linarith
  show "unat (buddy_effective_memory_size m b) = whole g"
    using unat_ceiling_power_of_two [of "of_nat (g_size g)"] s u f(4) by (simp add: buddy_effective_memory_size_def assms(2))
  show "unat (of_nat (g_align g) :: u64) = g_align g" using s f(2) by (intro unat_of_nat64) linarith
qed

lemma depth_size:
  assumes "geo_ok g" "buddy_memory_size m b = of_nat (g_size g)" "node (g_order g) i"
  shows "size_for_depth m b (of_nat (blen i)) = of_nat (block_size g i)" "unat (of_nat (block_size g i) :: u64) = block_size g i"
proof -
  note f = geo_facts [OF assms(1)] and p = node_parts [OF assms(3)]
  have n: "g_order g \<le> 58" "0 < blen i" "blen i \<le> g_order g" using assms(1,3) by (simp_all add: geo_ok_def node_blen)
  have d: "unat (of_nat (blen i) - 1 :: u64) = blen i - 1" using n by (simp add: unat_sub64 unat_of_nat64)
  have w: "unat (ceiling_power_of_two (buddy_memory_size m b)) = whole g"
    using effective_size(1) [OF assms(1,2)] by (simp add: buddy_effective_memory_size_def)
  have "whole g div 2 ^ (blen i - 1) = block_size g i" unfolding whole_def p(3) block_size_def by (simp add: power_add)
  then have "unat (size_for_depth m b (of_nat (blen i))) = block_size g i" by (simp add: size_for_depth_def d unat_drop w)
  then show "size_for_depth m b (of_nat (blen i)) = of_nat (block_size g i)" by (metis u64_of_nat_unat)
  show "unat (of_nat (block_size g i) :: u64) = block_size g i"
    using node_block(1) [OF assms(3)] f(7) by (intro unat_of_nat64) linarith
qed

lemma unat_whole:
  assumes "buddy_inv g main m b A"
  shows "unat (buddy_effective_memory_size m b) = whole g" "unat (of_nat (g_align g) :: u64) = g_align g"
    "unat (of_nat (g_size g) :: u64) = g_size g"
  by (rule effective_size [OF buddy_invD(1,5) [OF assms]])+

lemma size_for_depth_block:
  assumes "buddy_inv g main m b A" "node (g_order g) i"
  shows "size_for_depth m b (of_nat (blen i)) = of_nat (block_size g i)" "unat (of_nat (block_size g i) :: u64) = block_size g i"
  by (rule depth_size [OF buddy_invD(1,5) [OF assms(1)] assms(2)])+

lemma address_block:
  assumes "buddy_inv g main m b A" "node (g_order g) i"
  shows "address_for_position m b (mkpos i) = main + of_nat (boff g i)"
proof -
  note inv = buddy_invD [OF assms(1)]
  have "g_order g \<le> 58" using inv(1) by (simp add: geo_ok_def)
  then show ?thesis
    using size_for_depth_block(1) [OF assms] index_internal_pos [OF assms(2)] inv(7)
    by (simp add: address_for_position_def buddy_tree_depth_def buddy_tree_index_def mkpos_def boff_def mult.commute)
qed

text \<open>The depth for a size is the deepest one whose blocks can hold it.\<close>

lemma depth_loop:
  assumes "0 < r" "unat rw = r"
  shows "r \<le> e \<Longrightarrow> unat ew = e \<Longrightarrow> e = 2 ^ k * c \<Longrightarrow> 0 < c \<Longrightarrow> c \<le> r \<Longrightarrow>
    \<exists>j \<le> k. depth_for_size_loop rw dw ew = dw + of_nat j \<and> r \<le> 2 ^ (k - j) * c \<and> 2 ^ (k - j) * c < 2 * r"
proof (induction k arbitrary: e ew dw)
  case 0
  then have "e = r" by simp
  then have "unat (ew div rw) = 1" using assms 0(2) by (simp add: unat_div_distrib)
  then have "unat (drop_bit 1 (ew div rw)) = 0" by (simp add: unat_drop)
  then have "depth_for_size_loop rw dw ew = dw" by (subst depth_for_size_loop.simps) (simp add: unat_eq_0)
  then show ?case using 0 assms by auto
next
  case (Suc k)
  have q: "unat (drop_bit 1 (ew div rw)) = e div r div 2" by (simp add: unat_drop unat_div_distrib assms(2) Suc(3))
  show ?case
  proof (cases "2 * r \<le> e")
    case True
    have "2 * r div r \<le> e div r" using True by (rule div_le_mono)
    then have "drop_bit 1 (ew div rw) \<noteq> 0" using q assms(1) by (auto simp: word_unat_eq_iff div_greater_zero_iff)
    then have step: "depth_for_size_loop rw dw ew = depth_for_size_loop rw (dw + 1) (drop_bit 1 ew)"
      by (subst depth_for_size_loop.simps) simp
    have e2: "unat (drop_bit 1 ew) = 2 ^ k * c" "r \<le> 2 ^ k * c" using Suc(3,4) True by (simp_all add: unat_drop)
    obtain j where "j \<le> k" "depth_for_size_loop rw (dw + 1) (drop_bit 1 ew) = dw + 1 + of_nat j" "r \<le> 2 ^ (k - j) * c" "2 ^ (k - j) * c < 2 * r"
      using Suc(1) [OF e2(2,1) refl Suc(5,6)] by blast
    then show ?thesis using step by (intro exI [of _ "Suc j"]) simp
  next
    case False
    have "e div r < 2" using False assms(1) by (simp add: div_less_iff_less_mult)
    then have "depth_for_size_loop rw dw ew = dw" using q by (subst depth_for_size_loop.simps) (simp add: word_unat_eq_iff)
    then show ?thesis using Suc(2,4) False by (intro exI [of _ 0]) simp
  qed
qed

lemma depth_for_size_depth:
  assumes "buddy_inv g main m b A" "0 < unat r" "unat r \<le> g_size g"
  shows "\<exists>d. 0 < d \<and> d \<le> g_order g \<and> depth_for_size m b r = of_nat d \<and>
    (\<forall>j. node (g_order g) j \<and> blen j = d \<longrightarrow> max (unat r) (g_align g) \<le> block_size g j \<and> block_size g j < 2 * max (unat r) (g_align g))"
proof -
  note inv = buddy_invD [OF assms(1)] and f = geo_facts [OF buddy_invD(1) [OF assms(1)]] and w = unat_whole [OF assms(1)]
  define rw where "rw = (if r < buddy_alignment m b then buddy_alignment m b else r)"
  have rw: "unat rw = max (unat r) (g_align g)" using w(2) by (auto simp: rw_def inv(6) word_less_nat_alt)
  have le: "max (unat r) (g_align g) \<le> whole g" using assms(3) f(2,5) by linarith
  have wh: "whole g = 2 ^ (g_order g - 1) * g_align g" by (simp add: whole_def)
  have pos: "0 < max (unat r) (g_align g)" using assms(2) by simp
  obtain j where j: "j \<le> g_order g - 1" "depth_for_size_loop rw 1 (buddy_effective_memory_size m b) = 1 + of_nat j"
    "max (unat r) (g_align g) \<le> 2 ^ (g_order g - 1 - j) * g_align g" "2 ^ (g_order g - 1 - j) * g_align g < 2 * max (unat r) (g_align g)"
    using depth_loop [OF pos rw le w(1) wh f(1) max.cobounded2, of 1] by blast
  have "block_size g i = 2 ^ (g_order g - 1 - j) * g_align g" if "node (g_order g) i" "blen i = Suc j" for i
    using that j(1) by (simp add: block_size_def cap_def)
  then show ?thesis
    using j f(3) by (intro exI [of _ "Suc j"]) (auto simp: depth_for_size_def rw_def [symmetric] Let_def)
qed

subsection \<open>Allocation\<close>

lemma pos_invalid [simp]: "\<not> buddy_tree_valid m t INVALID_POS"
  by (simp add: buddy_tree_valid_def INVALID_POS_def)

text \<open>A free node whose block fits a request of \<open>r\<close> bytes best.\<close>

definition fitting :: "geometry \<Rightarrow> nat set \<Rightarrow> nat \<Rightarrow> nat \<Rightarrow> bool" where
  "fitting g A r j \<longleftrightarrow> free_node (g_order g) A j \<and> r \<le> block_size g j \<and> block_size g j < 2 * max r (g_align g)"

lemma fitting_depth:
  assumes "geo_ok g" "node (g_order g) i" "max r (g_align g) \<le> block_size g i" "block_size g i < 2 * max r (g_align g)"
    "node (g_order g) j" "r \<le> block_size g j" "block_size g j < 2 * max r (g_align g)"
  shows "blen j = blen i"
proof -
  have al: "g_align g \<le> block_size g j" by (simp add: block_size_def)
  let ?a = "cap (g_order g) j - 1" and ?c = "cap (g_order g) i - 1"
  have "block_size g j < 2 * block_size g i" "block_size g i < 2 * block_size g j" using assms(3,4,6,7) al by linarith+
  then have "g_align g * 2 ^ ?a < g_align g * 2 ^ Suc ?c" "g_align g * 2 ^ ?c < g_align g * 2 ^ Suc ?a" by (simp_all add: block_size_def)
  then have "?a < Suc ?c" "?c < Suc ?a" using geo_facts(1) [OF assms(1)] by (simp_all del: power_Suc)
  then show ?thesis using cap_pos [OF assms(5)] cap_pos [OF assms(2)] assms(2,5) by (simp add: cap_def node_blen)
qed

lemma find_free_block:
  assumes "buddy_inv g main m b A" "0 < unat rw" "unat rw \<le> g_size g"
  shows "if \<exists>j. fitting g A (unat rw) j
    then \<exists>j. buddy_tree_find_free m (b + 32) (ucast (depth_for_size m b rw)) = mkpos j \<and> fitting g A (unat rw) j \<and> depth_for_size m b rw = of_nat (blen j)
    else buddy_tree_find_free m (b + 32) (ucast (depth_for_size m b rw)) = INVALID_POS"
proof -
  note inv = buddy_invD [OF assms(1)]
  have n: "g_order g \<le> 58" using inv(1) by (simp add: geo_ok_def)
  obtain d where d: "0 < d" "d \<le> g_order g" "depth_for_size m b rw = of_nat d"
    and size: "\<And>j. node (g_order g) j \<Longrightarrow> blen j = d \<Longrightarrow>
      max (unat rw) (g_align g) \<le> block_size g j \<and> block_size g j < 2 * max (unat rw) (g_align g)"
    using depth_for_size_depth [OF assms] by auto
  have "2 ^ (d - 1) < (2 :: nat) ^ d" using d(1) by simp
  then have i: "blen (2 ^ (d - 1)) = d" "node (g_order g) (2 ^ (d - 1))" using d by (simp_all add: node_blen)
  have fit: "fitting g A (unat rw) j \<longleftrightarrow> free_node (g_order g) A j \<and> blen j = d" for j
    using fitting_depth [OF inv(1) i(2), of "unat rw" j] size [OF i(2,1)] size [of j] i(1) by (auto simp: fitting_def free_node_def)
  have u8: "(ucast (of_nat d :: u64) :: u8) = of_nat d" using d(2) n by (intro ucast_of_nat_u8) linarith
  show ?thesis
    using tree_find_free [OF inv(9) d(1,2)] unfolding fit d(3) u8 by (cases "\<exists>j. free_node (g_order g) A j \<and> blen j = d") auto
qed

lemma valid_mkpos:
  assumes "buddy_inv g main m b A" "node (g_order g) i"
  shows "buddy_tree_valid m (b + 32) (mkpos i)"
  using valid_pos [OF tree_invD(1) [OF buddy_invD(9) [OF assms(1)]]]
    node_bound [OF assms(2) tree_invD(4) [OF buddy_invD(9) [OF assms(1)]]] assms(2) by simp

lemma mark_block:
  assumes "buddy_inv g main m b A" "free_node (g_order g) A j"
  shows "\<exists>m'. buddy_tree_mark m (b + 32) (mkpos j) = Some m' \<and> buddy_inv g main m' b (insert j A) \<and> meta_frame g b m m'"
proof -
  note inv = buddy_invD [OF assms(1)]
  obtain m' where m': "buddy_tree_mark m (b + 32) (mkpos j) = Some m'" "tree_inv m' (b + 32) (g_order g) (insert j A)" "bits_frame (g_order g) (b + 32) m m'"
    using tree_mark [OF inv(9) assms(2)] by blast
  have "covered g (insert j A)" using inv(10) by (auto simp: covered_def)
  then show ?thesis using buddy_inv_tree [OF assms(1) m'(2,3)] m' bits_meta_frame inv(1) by (auto simp: geo_ok_def)
qed

lemma tree_address: "buddy_tree b = b + 32"
  by (simp add: buddy_tree_def sizeof_buddy_def)

lemma malloc_block:
  assumes "buddy_inv g main m b A" "r = max 1 (unat requested_size)"
  shows "if \<exists>j. fitting g A r j \<and> r \<le> g_size g
    then \<exists>j m'. buddy_malloc m b requested_size = Some (main + of_nat (boff g j), m') \<and> fitting g A r j \<and>
      buddy_inv g main m' b (insert j A) \<and> meta_frame g b m m'
    else buddy_malloc m b requested_size = Some (0, m)"
proof -
  note inv = buddy_invD [OF assms(1)]
  define rw where "rw = (if requested_size = 0 then 1 else requested_size)"
  have rw: "unat rw = r" "0 < unat rw" using assms(2) by (auto simp: rw_def unat_eq_0 max_def Suc_le_eq unat_gt_0)
  have big: "rw > buddy_memory_size m b \<longleftrightarrow> g_size g < r" using unat_whole(3) [OF assms(1)] by (simp add: inv(5) word_less_nat_alt rw)
  show ?thesis
  proof (cases "g_size g < r")
    case True
    then have "buddy_malloc m b requested_size = Some (0, m)"
      using big inv(2) unfolding buddy_malloc_def Let_def rw_def [symmetric] by simp
    then show ?thesis using True by auto
  next
    case False
    let ?pos = "buddy_tree_find_free m (b + 32) (ucast (depth_for_size m b rw))"
    have malloc: "buddy_malloc m b requested_size =
      (if \<not> buddy_tree_valid m (b + 32) ?pos then Some (0, m)
       else do { m \<leftarrow> buddy_tree_mark m (b + 32) ?pos; Some (address_for_position m b ?pos, m) })"
      unfolding buddy_malloc_def Let_def rw_def [symmetric] tree_address using inv(2) big False by simp
    note ff = find_free_block [OF assms(1) rw(2)]
    show ?thesis
    proof (cases "\<exists>j. fitting g A r j")
      case True
      then obtain j where j: "?pos = mkpos j" "fitting g A r j" using ff rw(1) False by auto
      then have jn: "free_node (g_order g) A j" "node (g_order g) j" by (simp_all add: fitting_def free_node_def)
      obtain m' where m': "buddy_tree_mark m (b + 32) (mkpos j) = Some m'" "buddy_inv g main m' b (insert j A)" "meta_frame g b m m'"
        using mark_block [OF assms(1) jn(1)] by blast
      have "buddy_malloc m b requested_size = Some (main + of_nat (boff g j), m')"
        using malloc j(1) valid_mkpos [OF assms(1) jn(2)] m'(1) address_block [OF m'(2) jn(2)] by simp
      then show ?thesis using j(2) m' False by auto
    next
      case none: False
      then have "buddy_malloc m b requested_size = Some (0, m)" using ff malloc rw(1) False by simp
      then show ?thesis using none by auto
    qed
  qed
qed

subsection \<open>The position of an address\<close>

lemma climb:
  assumes "tree_inv m t n A"
  shows "node n i \<Longrightarrow> (case allocated_position m t (mkpos i) of
      None \<Rightarrow> \<forall>x. 0 < x \<and> subnode x i \<longrightarrow> spec n A x = 0
    | Some pos \<Rightarrow> \<exists>x. pos = mkpos x \<and> node n x \<and> subnode x i \<and> spec n A x \<noteq> 0 \<and>
        (\<forall>y. subnode x y \<and> subnode y i \<and> y \<noteq> x \<longrightarrow> spec n A y = 0))"
proof (induction i rule: less_induct)
  case (less i)
  note inv = tree_invD [OF assms]
  have st: "buddy_tree_status m t (mkpos i) = 0 \<longleftrightarrow> spec n A i = 0"
    using tree_status [OF assms less(2)] full_word(2) [OF assms less(2)] by simp
  show ?case
  proof (cases "spec n A i = 0")
    case False
    then have "allocated_position m t (mkpos i) = Some (mkpos i)" using st by (subst allocated_position.simps) simp
    then show ?thesis using False less(2) subnode_antisym by auto
  next
    case zero: True
    show ?thesis
    proof (cases "i = 1")
      case True
      have "buddy_tree_parent (mkpos 1) = \<lparr>p_index = 0, p_depth = 0\<rparr>" by (simp add: buddy_tree_parent_def mkpos_def)
      then have "allocated_position m t (mkpos i) = None"
        using st zero True by (subst allocated_position.simps) (simp add: buddy_tree_valid_def)
      moreover have "x = 1" if "0 < x" "subnode x 1" for x
        using that blen_lower [of x] by (simp add: subnode_def blen_pos)
      ultimately show ?thesis using zero True by auto
    next
      case False
      then have i: "1 < i" using less(2) by (simp add: node_def)
      note p = node_parent [OF less(2) i]
      have v: "buddy_tree_valid m t (mkpos (i div 2))" using valid_pos [OF inv(1)] node_bound [OF p inv(4)] p by simp
      have step: "allocated_position m t (mkpos i) = allocated_position m t (mkpos (i div 2))"
        using st zero v parent_pos [OF less(2) i inv(4)] by (subst allocated_position.simps) (simp add: Let_def)
      have IH: "case allocated_position m t (mkpos (i div 2)) of
          None \<Rightarrow> \<forall>x. 0 < x \<and> subnode x (i div 2) \<longrightarrow> spec n A x = 0
        | Some pos \<Rightarrow> \<exists>x. pos = mkpos x \<and> node n x \<and> subnode x (i div 2) \<and> spec n A x \<noteq> 0 \<and>
            (\<forall>y. subnode x y \<and> subnode y (i div 2) \<and> y \<noteq> x \<longrightarrow> spec n A y = 0)"
        using less(1) [OF _ p] i by simp
      have up: "subnode x i \<longleftrightarrow> x = i \<or> subnode x (i div 2)" if "0 < x" for x
        using subnode_child [OF that] subnode_trans [OF that _ subnode_parent [OF i]] by auto
      show ?thesis
      proof (cases "allocated_position m t (mkpos (i div 2))")
        case None
        then show ?thesis using IH step up zero by auto
      next
        case (Some pos)
        then obtain x where x: "pos = mkpos x" "node n x" "subnode x (i div 2)" "spec n A x \<noteq> 0"
          "\<forall>y. subnode x y \<and> subnode y (i div 2) \<and> y \<noteq> x \<longrightarrow> spec n A y = 0" using IH by auto
        have "0 < x" using x(2) by (simp add: node_def)
        then have "subnode x i" using up x(3) by blast
        moreover have "spec n A y = 0" if "subnode x y" "subnode y i" "y \<noteq> x" for y
          using that x(5) up [of y] subnode_pos [OF \<open>0 < x\<close> that(1)] zero by blast
        ultimately show ?thesis using x Some step by auto
      qed
    qed
  qed
qed

lemma deepest_position:
  assumes "buddy_inv g main m b A" "off < g_size g" "g_align g dvd off"
  shows "deepest_position_for_offset m b (of_nat off) = mkpos (leaf g off)"
proof -
  note inv = buddy_invD [OF assms(1)] and w = unat_whole [OF assms(1)] and f = geo_facts [OF buddy_invD(1) [OF assms(1)]]
  have n: "g_order g \<le> 58" "0 < g_order g" using inv(1) f(3) by (simp_all add: geo_ok_def)
  have o: "buddy_tree_order m (b + 32) = of_nat (g_order g)" using tree_invD(1) [OF inv(9)] by (simp add: tree_at_def)
  have uo: "unat (of_nat off :: u64) = off" using assms(2) f(5,7) by (intro unat_of_nat64) linarith
  have e: "unat (of_nat (g_order g) - 1 :: u64) = g_order g - 1" using n by (simp add: unat_sub64 unat_of_nat64)
  have "(of_nat off :: u64) div of_nat (g_align g) = of_nat (off div g_align g)"
    using uo w(2) by (metis u64_of_nat_unat unat_div_distrib)
  moreover have "off < whole g" using assms(2) f(5) by linarith
  ultimately show ?thesis
    using leaf_node(2) [OF inv(1)] n
    by (simp add: deepest_position_for_offset_def buddy_tree_leftmost_child_def buddy_tree_leftmost_child_internal_def
        buddy_tree_def sizeof_buddy_def o of_nat_u8 two_to_the_power_of_def e inv(6) mkpos_def leaf_def push_bit_eq_mult Let_def)
qed

text \<open>
  The position found for an address in the arena is the allocated block that starts there; without
  such a block it is invalid or not fully used.
\<close>

lemma position_block:
  assumes "buddy_inv g main m b A" "off < g_size g"
  shows "(\<exists>a \<in> A. boff g a = off \<and> position_for_address m b (main + of_nat off) = mkpos a) \<or>
    (\<forall>a \<in> A. boff g a \<noteq> off) \<and> (position_for_address m b (main + of_nat off) = INVALID_POS \<or>
      (\<exists>x. position_for_address m b (main + of_nat off) = mkpos x \<and> node (g_order g) x \<and> spec (g_order g) A x \<noteq> cap (g_order g) x))"
proof -
  note inv = buddy_invD [OF assms(1)] and w = unat_whole [OF assms(1)] and f = geo_facts [OF buddy_invD(1) [OF assms(1)]]
  let ?n = "g_order g" and ?p = "position_for_address m b (main + of_nat off)" and ?i = "leaf g off"
  have al: "g_align g dvd boff g a" for a by (simp add: boff_def block_size_def)
  have uo: "unat (of_nat off :: u64) = off" using assms(2) f(5,7) by (intro unat_of_nat64) linarith
  have md: "(of_nat off :: u64) mod of_nat (g_align g) \<noteq> 0 \<longleftrightarrow> \<not> g_align g dvd off"
    using uo w(2) by (simp add: word_unat_eq_iff unat_mod_distrib dvd_eq_mod_eq_0)
  show ?thesis
  proof (cases "g_align g dvd off")
    case False
    then have "?p = INVALID_POS" using md by (simp add: position_for_address_def inv(6,7))
    moreover have "\<forall>a \<in> A. boff g a \<noteq> off" using False al by auto
    ultimately show ?thesis by blast
  next
    case True
    have ow: "off < whole g" using assms(2) f(5) by linarith
    note leaf = leaf_node [OF inv(1) ow]
    have nodes: "\<And>a. a \<in> A \<Longrightarrow> node ?n a" using inv(11) by (simp add: antichain_def)
    have p: "?p = (case allocated_position m (b + 32) (mkpos ?i) of None \<Rightarrow> INVALID_POS
      | Some pos \<Rightarrow> if address_for_position m b pos \<noteq> main + of_nat off then INVALID_POS else pos)"
      using True md deepest_position [OF assms True] by (simp add: position_for_address_def inv(6,7) buddy_tree_def sizeof_buddy_def)
    note cl = climb [OF inv(9) leaf(1)]
    have start: "subnode a ?i \<and> spec ?n A a = cap ?n a \<and> cap ?n a \<noteq> 0" if a: "a \<in> A" "boff g a = off" for a
    proof -
      have "off \<in> block g a" using a(2) block_size_pos [OF f(1), of a] by (simp add: block_def)
      then show ?thesis using leaf_block [OF inv(1) nodes [OF a(1)] ow] spec_in [OF nodes [OF a(1)] a(1)] cap_pos [OF nodes [OF a(1)]] by simp
    qed
    show ?thesis
    proof (cases "allocated_position m (b + 32) (mkpos ?i)")
      case None
      have "boff g a \<noteq> off" if a: "a \<in> A" for a
      proof
        assume "boff g a = off"
        then have "subnode a ?i" "spec ?n A a \<noteq> 0" using start [OF a] by simp_all
        moreover have "0 < a" using nodes [OF a] by (simp add: node_def)
        ultimately show False using cl None by simp
      qed
      then show ?thesis using None p by simp
    next
      case (Some pos)
      then obtain x where x: "pos = mkpos x" "node ?n x" "subnode x ?i" "spec ?n A x \<noteq> 0"
        "\<forall>y. subnode x y \<and> subnode y ?i \<and> y \<noteq> x \<longrightarrow> spec ?n A y = 0" using cl by auto
      have ux: "unat (of_nat (boff g x) :: u64) = boff g x" using node_block(1) [OF x(2)] f(7) by (intro unat_of_nat64) linarith
      have "(of_nat (boff g x) :: u64) = of_nat off \<longleftrightarrow> boff g x = off" using ux uo by metis
      then have "address_for_position m b pos = main + of_nat off \<longleftrightarrow> boff g x = off"
        unfolding x(1) address_block [OF assms(1) x(2)] add_left_cancel .
      then have px: "?p = (if boff g x = off then mkpos x else INVALID_POS)" using p Some x(1) by simp
      have same: "a = x" if a: "a \<in> A" "boff g a = off" for a
      proof -
        have s: "subnode a ?i" "spec ?n A a \<noteq> 0" using start [OF a] by auto
        have "subnode x a \<or> subnode a x" using s(1) x(3) subnode_linear by blast
        then show ?thesis
        proof
          assume "subnode x a"
          then show "a = x" using x(5) [rule_format, of a] s by blast
        next
          assume ax: "subnode a x"
          show "a = x"
          proof (rule ccontr)
            assume ne: "a \<noteq> x"
            have "\<forall>c \<in> A. \<not> subnode x c"
            proof (intro ballI notI)
              fix c
              assume c: "c \<in> A" "subnode x c"
              then have "subnode a c" using ax subnode_trans [of a x c] nodes [OF a(1)] by (simp add: node_def)
              then have "a = c" using inv(11) a(1) c(1) by (auto simp: antichain_def)
              then show False using ax c(2) ne subnode_antisym by blast
            qed
            then show False using x(4) spec_0_iff [OF x(2) inv(11)] by simp
          qed
        qed
      qed
      show ?thesis
      proof (cases "boff g x = off \<and> spec ?n A x = cap ?n x")
        case True
        have "x \<in> A"
        proof (cases "x = ?i")
          case True
          then show ?thesis using spec_leaf [of ?n x A] leaf(3) x(4) by auto
        next
          case False
          obtain c where c: "c = 2 * x \<or> c = Suc (2 * x)" "subnode c ?i" using subnode_cases [OF _ x(3) False] x(2) by (auto simp: node_def)
          have x0: "0 < x" using x(2) by (simp add: node_def)
          have xl: "blen x < blen ?i" using x(3) False by (rule subnode_less)
          then have cn: "node ?n c" using c(1) leaf(2) x0 by (auto simp: node_blen)
          have "subnode x c" "c \<noteq> x" using c(1) x0 subnode_parent [of c] by auto
          then have "spec ?n A c = 0" using x(5) c(2) by blast
          then show ?thesis using full_node [OF cn, of A] True c(1) x0 by auto
        qed
        then show ?thesis using px True by auto
      next
        case False
        then show ?thesis using px same x(2) start by auto
      qed
    qed
  qed
qed

subsection \<open>Release\<close>

lemma covered_remove: "covered g A \<Longrightarrow> boff g a < g_size g \<Longrightarrow> covered g (A - {a})"
  unfolding covered_def by (metis Diff_iff not_le singletonD)

lemma arena_offset:
  assumes "buddy_inv g main m b A" "\<not> (ptr < main \<or> ptr \<ge> main + buddy_memory_size m b)"
  shows "ptr = main + of_nat (unat (ptr - main))" "unat (ptr - main) < g_size g"
proof -
  note inv = buddy_invD [OF assms(1)] and w = unat_whole(3) [OF assms(1)]
  have "unat (main + of_nat (g_size g)) = unat main + g_size g" using inv(4) w unat_add64 [of main "of_nat (g_size g)"] by simp
  then have "unat main \<le> unat ptr" "unat ptr < unat main + g_size g" using assms(2) by (auto simp: inv(5) word_less_nat_alt word_le_nat_alt)
  then show "unat (ptr - main) < g_size g" by (simp add: unat_sub64)
qed simp

lemma arena_offset_iff:
  assumes "buddy_inv g main m b A" "off < g_size g"
  shows "\<not> (main + of_nat off < main \<or> main + of_nat off \<ge> main + buddy_memory_size m b)" "main + of_nat off \<noteq> 0"
    "unat (main + of_nat off) = unat main + off"
proof -
  note inv = buddy_invD [OF assms(1)] and w = unat_whole(3) [OF assms(1)]
  have uo: "unat (of_nat off :: u64) = off" using assms(2) inv(4) by (intro unat_of_nat64) linarith
  have "unat (main + of_nat (g_size g)) = unat main + g_size g" using inv(4) w unat_add64 [of main "of_nat (g_size g)"] by simp
  moreover show u: "unat (main + of_nat off) = unat main + off" using assms(2) inv(4) uo unat_add64 [of main "of_nat off"] by simp
  ultimately show "\<not> (main + of_nat off < main \<or> main + of_nat off \<ge> main + buddy_memory_size m b)"
    using assms(2) by (simp add: inv(5) word_less_nat_alt word_le_nat_alt)
  have "0 < unat main" using inv(3) by (simp add: unat_gt_0)
  then show "main + of_nat off \<noteq> 0" using u by (metis add_gr_0 less_irrefl unat_0)
qed

lemma release_block:
  assumes "buddy_inv g main m b A" "a \<in> A" "boff g a < g_size g"
  shows "\<exists>m'. buddy_tree_release m (b + 32) (mkpos a) = Some (BUDDY_TREE_RELEASE_SUCCESS, m') \<and>
    buddy_inv g main m' b (A - {a}) \<and> bits_frame (g_order g) (b + 32) m m'"
proof -
  note inv = buddy_invD [OF assms(1)]
  have n: "node (g_order g) a" using inv(11) assms(2) by (simp add: antichain_def)
  obtain m' where "buddy_tree_release m (b + 32) (mkpos a) = Some (BUDDY_TREE_RELEASE_SUCCESS, m')"
    "tree_inv m' (b + 32) (g_order g) (A - {a})" "bits_frame (g_order g) (b + 32) m m'"
    using tree_release(2) [OF inv(9) n assms(2)] by blast
  then show ?thesis using buddy_inv_tree [OF assms(1) _ _ covered_remove [OF inv(10) assms(3)]] by blast
qed

lemma free_block:
  assumes "buddy_inv g main m b A"
  shows "a \<in> A \<Longrightarrow> boff g a < g_size g \<Longrightarrow> \<exists>m'. buddy_free m b (main + of_nat (boff g a)) = Some m' \<and>
      buddy_inv g main m' b (A - {a}) \<and> meta_frame g b m m'"
    "(\<And>a. a \<in> A \<Longrightarrow> boff g a < g_size g \<Longrightarrow> ptr \<noteq> main + of_nat (boff g a)) \<Longrightarrow> buddy_free m b ptr = Some m"
proof -
  note inv = buddy_invD [OF assms]
  have n: "g_order g \<le> 58" using inv(1) by (simp add: geo_ok_def)
  have tree: "buddy_tree b = b + 32" by (simp add: buddy_tree_def sizeof_buddy_def)
  show "\<exists>m'. buddy_free m b (main + of_nat (boff g a)) = Some m' \<and> buddy_inv g main m' b (A - {a}) \<and> meta_frame g b m m'"
    if a: "a \<in> A" "boff g a < g_size g"
  proof -
    note off = arena_offset_iff [OF assms a(2)]
    have "position_for_address m b (main + of_nat (boff g a)) = mkpos a"
      using position_block [OF assms a(2)] same_offset [OF inv(1,11) _ a(1)] a(1) by blast
    moreover have "buddy_tree_valid m (b + 32) (mkpos a)" using valid_mkpos [OF assms] inv(11) a(1) by (simp add: antichain_def)
    ultimately have "buddy_free m b (main + of_nat (boff g a)) = map_option snd (buddy_tree_release m (b + 32) (mkpos a))"
      using off inv(2,7) by (simp add: buddy_free_def tree Let_def)
    then show ?thesis using release_block [OF assms a] bits_meta_frame [OF _ n] by auto
  qed
  assume none: "\<And>a. a \<in> A \<Longrightarrow> boff g a < g_size g \<Longrightarrow> ptr \<noteq> main + of_nat (boff g a)"
  show "buddy_free m b ptr = Some m"
  proof (cases "ptr = 0 \<or> ptr < main \<or> ptr \<ge> main + buddy_memory_size m b")
    case True
    then show ?thesis using inv(7) by (auto simp: buddy_free_def Let_def)
  next
    case False
    then have off: "ptr = main + of_nat (unat (ptr - main))" "unat (ptr - main) < g_size g" using arena_offset [OF assms] by blast+
    consider "position_for_address m b ptr = INVALID_POS"
      | x where "position_for_address m b ptr = mkpos x" "node (g_order g) x" "spec (g_order g) A x \<noteq> cap (g_order g) x"
      using position_block [OF assms off(2)] none off by (metis)
    then show ?thesis
    proof cases
      case 1
      then show ?thesis using False inv(7) by (simp add: buddy_free_def tree Let_def)
    next
      case 2
      then show ?thesis using tree_release(1) [OF inv(9) 2(2,3)] False inv(7) by (simp add: buddy_free_def tree Let_def)
    qed
  qed
qed

end
