(* ===== verification/Buddy_Init.thy ===== *)
theory Buddy_Init
  imports Buddy_Correct
begin

text \<open>
  Initialization of the allocator: the memory between the end of the arena and the next power of two
  is marked as allocated, and the invariant holds with nothing else allocated.
\<close>

subsection \<open>Virtual slots\<close>

lemma child_block:
  assumes "node (g_order g) i" "1 < cap (g_order g) i"
  shows "block_size g i = 2 * block_size g (2 * i)" "block_size g (Suc (2 * i)) = block_size g (2 * i)"
    "boff g (2 * i) = boff g i" "boff g (Suc (2 * i)) = boff g i + block_size g (2 * i)"
proof -
  note ch = node_children [OF assms] and p = node_parts [OF assms(1)]
  have i: "0 < i" "0 < blen i" using assms(1) by (simp_all add: node_def blen_gt_0)
  have c: "cap (g_order g) i - 1 = Suc (cap (g_order g) (2 * i) - 1)" using ch(3) assms(2) by simp
  show s: "block_size g i = 2 * block_size g (2 * i)" unfolding block_size_def c by simp
  show s2: "block_size g (Suc (2 * i)) = block_size g (2 * i)" using ch(3,4) by (simp add: block_size_def)
  have "(2 :: nat) ^ blen i = 2 * 2 ^ (blen i - 1)" using i(2) by (simp add: power_eq_if)
  then have x: "2 * i - 2 ^ (blen (2 * i) - 1) = 2 * (i - 2 ^ (blen i - 1))"
    "Suc (2 * i) - 2 ^ (blen (Suc (2 * i)) - 1) = Suc (2 * (i - 2 ^ (blen i - 1)))"
    using i(1) p(1) by (simp_all add: Suc_diff_le diff_mult_distrib2)
  show "boff g (2 * i) = boff g i" unfolding boff_def x s by simp
  show "boff g (Suc (2 * i)) = boff g i + block_size g (2 * i)" unfolding boff_def x s2 s by (simp add: algebra_simps)
qed

lemma right_free:
  assumes "geo_ok g" "antichain (g_order g) A" "node (g_order g) i" "\<And>a. a \<in> A \<Longrightarrow> boff g i + block_size g i \<le> boff g a"
  shows "free_node (g_order g) A i"
  using assms(4) block_free [OF assms(1,3,2)] by (fastforce simp: block_def)

text \<open>The loop covers the last \<open>delta\<close> bytes of the block of \<open>i\<close>, right to left.\<close>

lemma toggle_virtual_cover:
  assumes "geo_ok g"
  shows "node (g_order g) i \<Longrightarrow> 0 < delta \<Longrightarrow> delta \<le> block_size g i \<Longrightarrow> g_align g dvd delta \<Longrightarrow>
    buddy_memory_size m b = of_nat (g_size g) \<Longrightarrow> tree_inv m (b + 32) (g_order g) A \<Longrightarrow>
    (\<And>a. a \<in> A \<Longrightarrow> boff g i + block_size g i \<le> boff g a) \<Longrightarrow>
    \<exists>m' A'. toggle_virtual_loop b True m (mkpos i) (of_nat delta) = Some m' \<and> tree_inv m' (b + 32) (g_order g) A' \<and>
      bits_frame (g_order g) (b + 32) m m' \<and> A \<subseteq> A' \<and>
      (\<forall>a \<in> A'. boff g i + block_size g i - delta \<le> boff g a) \<and>
      {boff g i + block_size g i - delta ..< boff g i + block_size g i} \<subseteq> (\<Union>a \<in> A'. block g a)"
proof (induction "cap (g_order g) i" arbitrary: i delta m A rule: less_induct)
  case less
  note f = geo_facts [OF assms] and sz = depth_size [OF assms less(6) less(2)] and inv = tree_invD [OF less(7)]
  have n: "g_order g \<le> 58" using assms by (simp add: geo_ok_def)
  have tree: "buddy_tree b = b + 32" by (simp add: buddy_tree_def sizeof_buddy_def)
  have bs: "block_size g i \<le> 4611686018427387904" using node_block(1) [OF less(2)] f(7) by linarith
  have ud: "unat (of_nat delta :: u64) = delta" using less(4) bs by (intro unat_of_nat64) linarith
  have dz: "(of_nat delta :: u64) \<noteq> 0" using ud less(3) by (metis unat_0 less_irrefl)
  have deq: "(of_nat delta :: u64) = of_nat (block_size g i) \<longleftrightarrow> delta = block_size g i" using ud sz(2) by metis
  have half: "(of_nat (block_size g i) :: u64) div 2 = of_nat (block_size g i div 2)"
    using sz(2) bs by (simp add: word_unat_eq_iff unat_div_distrib unat_of_nat64)
  have uh: "unat (of_nat (block_size g i div 2) :: u64) = block_size g i div 2" using bs by (intro unat_of_nat64) linarith
  have dle: "(of_nat delta :: u64) \<le> of_nat (block_size g i) div 2 \<longleftrightarrow> delta \<le> block_size g i div 2"
    unfolding half word_le_nat_alt ud uh ..
  have step: "toggle_virtual_loop b True m (mkpos i) (of_nat delta) =
    (if delta = block_size g i then buddy_tree_mark m (b + 32) (mkpos i)
     else if delta \<le> block_size g i div 2 then toggle_virtual_loop b True m (mkpos (Suc (2 * i))) (of_nat delta)
     else do {
       m \<leftarrow> buddy_tree_mark m (b + 32) (mkpos (Suc (2 * i)));
       toggle_virtual_loop b True m (mkpos (2 * i)) (of_nat delta - of_nat (block_size g i div 2))
     })"
  proof -
    have i0: "0 < i" using less(2) by (simp add: node_def)
    have d: "size_for_depth m b (buddy_tree_depth (mkpos i)) = of_nat (block_size g i)" using sz(1) by (simp add: buddy_tree_depth_def mkpos_def)
    show ?thesis
      unfolding toggle_virtual_loop.simps [of b True m "mkpos i"] Let_def d deq dle tree toggle_def child_pos [OF i0] using dz half by simp
  qed
  show ?case
  proof (cases "delta = block_size g i")
    case True
    obtain m' where "buddy_tree_mark m (b + 32) (mkpos i) = Some m'" "tree_inv m' (b + 32) (g_order g) (insert i A)" "bits_frame (g_order g) (b + 32) m m'"
      using tree_mark [OF less(7) right_free [OF assms inv(2) less(2,8)]] by blast
    moreover have "\<forall>a \<in> insert i A. boff g i \<le> boff g a" using less(8) by fastforce
    ultimately show ?thesis using step True by (intro exI [of _ m'] exI [of _ "insert i A"]) (auto simp: block_def)
  next
    case False
    have c: "1 < cap (g_order g) i"
    proof (rule ccontr)
      assume "\<not> 1 < cap (g_order g) i"
      then have "block_size g i = g_align g" by (simp add: block_size_def)
      then show False using less(3-5) False by (auto dest: dvd_imp_le)
    qed
    note ch = node_children [OF less(2) c] and cb = child_block [OF less(2) c]
    have lt: "cap (g_order g) (2 * i) < cap (g_order g) i" "cap (g_order g) (Suc (2 * i)) < cap (g_order g) i" using ch(3,4) c by simp_all
    have e: "boff g (Suc (2 * i)) + block_size g (Suc (2 * i)) = boff g i + block_size g i" using cb by simp
    show ?thesis
    proof (cases "delta \<le> block_size g i div 2")
      case True
      then have "delta \<le> block_size g (Suc (2 * i))" using cb by simp
      from less(1) [OF lt(2) ch(2) less(3) this less(5-7)] less(8) show ?thesis using step False True unfolding e by simp
    next
      case gt: False
      have s2: "block_size g i div 2 = block_size g (2 * i)" using cb(1) by simp
      have fr: "free_node (g_order g) A (Suc (2 * i))" using less(8) e by (intro right_free [OF assms inv(2) ch(2)]) simp
      obtain m1 where m1: "buddy_tree_mark m (b + 32) (mkpos (Suc (2 * i))) = Some m1"
        "tree_inv m1 (b + 32) (g_order g) (insert (Suc (2 * i)) A)" "bits_frame (g_order g) (b + 32) m m1"
        using tree_mark [OF less(7) fr] by blast
      have ms: "buddy_memory_size m1 b = of_nat (g_size g)" using fields_frame(1) [OF m1(3) n] less(6) by simp
      let ?d = "delta - block_size g (2 * i)"
      have d: "0 < ?d" "?d \<le> block_size g (2 * i)" using gt s2 less(4) cb(1) by linarith+
      have dv: "g_align g dvd ?d" using less(5) node_block(3) [OF ch(1)] by simp
      have lo: "boff g (2 * i) + block_size g (2 * i) \<le> boff g a" if "a \<in> insert (Suc (2 * i)) A" for a
        using that less(8) [of a] cb by auto
      have w: "(of_nat delta - of_nat (block_size g i div 2) :: u64) = of_nat ?d" unfolding s2 using gt s2 by (simp add: of_nat_diff)
      obtain m' A' where r: "toggle_virtual_loop b True m1 (mkpos (2 * i)) (of_nat ?d) = Some m'" "tree_inv m' (b + 32) (g_order g) A'"
        "bits_frame (g_order g) (b + 32) m1 m'" "insert (Suc (2 * i)) A \<subseteq> A'"
        "\<forall>a \<in> A'. boff g (2 * i) + block_size g (2 * i) - ?d \<le> boff g a"
        "{boff g (2 * i) + block_size g (2 * i) - ?d ..< boff g (2 * i) + block_size g (2 * i)} \<subseteq> (\<Union>a \<in> A'. block g a)"
        using less(1) [OF lt(1) ch(1) d dv ms m1(2) lo] by blast
      have eq: "boff g (2 * i) + block_size g (2 * i) - ?d = boff g i + block_size g i - delta" using cb(1,3) gt s2 less(4) by linarith
      have "block g (Suc (2 * i)) \<subseteq> (\<Union>a \<in> A'. block g a)" using r(4) by auto
      moreover have "{boff g i + block_size g i - delta ..< boff g i + block_size g i} \<subseteq>
        {boff g i + block_size g i - delta ..< boff g (2 * i) + block_size g (2 * i)} \<union> block g (Suc (2 * i))"
        using cb by (auto simp: block_def)
      ultimately have "{boff g i + block_size g i - delta ..< boff g i + block_size g i} \<subseteq> (\<Union>a \<in> A'. block g a)"
        using r(6) unfolding eq by blast
      moreover have "toggle_virtual_loop b True m (mkpos i) (of_nat delta) = Some m'" using step False gt m1(1) r(1) w by simp
      moreover have "bits_frame (g_order g) (b + 32) m m'" using m1(3) r(3) by (rule bits_frame_trans)
      ultimately show ?thesis using r(2,4,5) unfolding eq by blast
    qed
  qed
qed

lemma toggle_virtual_slots_cover:
  assumes "geo_ok g" "buddy_memory_size m b = of_nat (g_size g)" "tree_inv m (b + 32) (g_order g) {}"
  shows "\<exists>m' A. buddy_toggle_virtual_slots m b True = Some m' \<and> tree_inv m' (b + 32) (g_order g) A \<and>
    bits_frame (g_order g) (b + 32) m m' \<and> covered g A \<and> (\<forall>a \<in> A. g_size g \<le> boff g a)"
proof -
  note f = geo_facts [OF assms(1)] and es = effective_size [OF assms(1,2)]
  have eq: "buddy_effective_memory_size m b = buddy_memory_size m b \<longleftrightarrow> whole g = g_size g"
    unfolding word_unat_eq_iff es(1) assms(2) es(3) ..
  show ?thesis
  proof (cases "whole g = g_size g")
    case True
    then have "covered g {}" by (simp add: covered_def)
    then show ?thesis using True eq assms(3) by (intro exI [of _ m] exI [of _ "{}"]) (simp add: buddy_toggle_virtual_slots_def Let_def)
  next
    case False
    have lt: "g_size g < whole g" using False f(5) by simp
    have "1 < g_order g"
    proof (rule ccontr)
      assume "\<not> 1 < g_order g"
      then have "g_order g = 1" using f(3) by simp
      then show False using lt f(2) by (simp add: whole_def)
    qed
    then have r: "node (g_order g) 1" "1 < cap (g_order g) 1" by (simp_all add: node_blen cap_def)
    note cb = child_block [OF r]
    have three: "Suc (2 * 1) = 3" by simp
    have n3: "node (g_order g) 3" using node_children(2) [OF r] by (simp add: numeral_3_eq_3)
    have b1: "block_size g 1 = whole g" "boff g 1 = 0" by (simp_all add: block_size_def whole_def cap_def boff_def)
    have b3: "boff g 3 + block_size g 3 = whole g" "2 * block_size g 3 = whole g"
      using cb b1 unfolding three by simp_all
    have "0 < clog (g_size g)" using lt f(4) by (cases "clog (g_size g)") (simp_all, use geo_facts(2) [OF assms(1)] f(1) in linarith)
    then have "2 ^ (clog (g_size g) - 1) < g_size g" "2 * 2 ^ (clog (g_size g) - 1) = whole g"
      using clog_lower [of "g_size g"] f(4) by (simp_all add: power_eq_if)
    then have d: "0 < whole g - g_size g" "whole g - g_size g \<le> block_size g 3" using lt b3(2) by linarith+
    have "g_align g dvd whole g" by (simp add: whole_def)
    then have dv: "g_align g dvd whole g - g_size g" using f(6) by simp
    have pos: "buddy_tree_right_child buddy_tree_root = mkpos 3" unfolding root_pos using child_pos(2) [of 1] by (simp add: numeral_3_eq_3)
    have delta: "buddy_effective_memory_size m b - buddy_memory_size m b = of_nat (whole g - g_size g)"
    proof -
      have "buddy_effective_memory_size m b = of_nat (whole g)" using es(1) by (metis u64_of_nat_unat)
      then show ?thesis using lt assms(2) by (simp add: of_nat_diff)
    qed
    obtain m' A where A: "toggle_virtual_loop b True m (mkpos 3) (of_nat (whole g - g_size g)) = Some m'" "tree_inv m' (b + 32) (g_order g) A"
      "bits_frame (g_order g) (b + 32) m m'" "\<forall>a \<in> A. boff g 3 + block_size g 3 - (whole g - g_size g) \<le> boff g a"
      "{boff g 3 + block_size g 3 - (whole g - g_size g) ..< boff g 3 + block_size g 3} \<subseteq> (\<Union>a \<in> A. block g a)"
      using toggle_virtual_cover [OF assms(1) n3 d dv assms(2,3)] by auto
    have s: "whole g - (whole g - g_size g) = g_size g" using lt by simp
    have lo: "\<forall>a \<in> A. g_size g \<le> boff g a" using A(4) unfolding b3(1) s .
    have "{g_size g ..< whole g} \<subseteq> (\<Union>a \<in> A. block g a)" using A(5) unfolding b3(1) s .
    then have "covered g A" using lo by (fastforce simp: covered_def)
    moreover have "buddy_toggle_virtual_slots m b True = Some m'"
      using A(1) eq False unfolding buddy_toggle_virtual_slots_def Let_def pos delta by simp
    ultimately show ?thesis using A(2,3) lo by blast
  qed
qed

subsection \<open>Initialization of the structure\<close>

text \<open>The geometry for a request: the memory is trimmed to a multiple of the alignment.\<close>

definition geo_for :: "nat \<Rightarrow> nat \<Rightarrow> geometry" where
  "geo_for align sz = \<lparr>g_order = Suc (clog ((sz - sz mod align) div align)), g_align = align, g_size = sz - sz mod align\<rparr>"

lemma geo_for_ok:
  assumes "align = 2 ^ k" "align \<le> sz" "sz \<le> 4611686018427387904" "g_order (geo_for align sz) \<le> 58"
  shows "geo_ok (geo_for align sz)" "g_align (geo_for align sz) = align" "g_size (geo_for align sz) = sz - sz mod align"
    "align \<le> sz - sz mod align"
proof -
  have a: "0 < align" using assms(1) by simp
  have d: "align dvd sz - sz mod align" by (rule dvd_minus_mod)
  have "0 < sz div align" using assms(2) a by (simp add: div_greater_zero_iff)
  then have "align * 1 \<le> align * (sz div align)" by (intro mult_le_mono2) simp
  moreover have "sz - sz mod align = align * (sz div align)" by (simp add: minus_mod_eq_mult_div)
  ultimately show le: "align \<le> sz - sz mod align" by simp
  have "sz mod align < sz" using le a by linarith
  show "geo_ok (geo_for align sz)"
    using assms d le \<open>sz mod align < sz\<close> by (auto simp: geo_ok_def geo_for_def)
qed (simp_all add: geo_for_def)

lemma order_for_memory:
  assumes "geo_ok g"
  shows "ucast (buddy_tree_order_for_memory (of_nat (g_size g)) (of_nat (g_align g))) = (of_nat (g_order g) :: u8)"
proof -
  note f = geo_facts [OF assms]
  have s: "unat (of_nat (g_size g) :: u64) = g_size g" "unat (of_nat (g_align g) :: u64) = g_align g"
    using f(2,5,7) by (intro unat_of_nat64; linarith)+
  have q: "unat ((of_nat (g_size g) :: u64) div of_nat (g_align g)) = g_size g div g_align g" by (simp add: unat_div_distrib s)
  have "g_size g div g_align g \<le> 9223372036854775808" using f(5,7) div_le_dividend [of "g_size g" "g_align g"] by linarith
  then have "unat (highest_bit_position (ceiling_power_of_two ((of_nat (g_size g) :: u64) div of_nat (g_align g)))) = g_order g"
    using assms by (simp add: unat_highest_bit_position unat_ceiling_power_of_two q geo_ok_def)
  then have "buddy_tree_order_for_memory (of_nat (g_size g)) (of_nat (g_align g)) = of_nat (g_order g)"
    unfolding buddy_tree_order_for_memory_def Let_def by (metis u64_of_nat_unat)
  then show ?thesis using assms ucast_of_nat_u8 [of "g_order g"] by (simp add: geo_ok_def)
qed

lemma sizeof_geo:
  assumes "geo_ok g"
  shows "buddy_sizeof_alignment (of_nat (g_size g)) (of_nat (g_align g)) = of_nat (meta_bytes g)" "meta_bytes g < 576460752303423488"
    "unat (of_nat (meta_bytes g) :: u64) = meta_bytes g" "0 < meta_bytes g"
proof -
  note f = geo_facts [OF assms]
  have n: "g_order g \<le> 58" using assms by (simp add: geo_ok_def)
  have s: "unat (of_nat (g_size g) :: u64) = g_size g" "unat (of_nat (g_align g) :: u64) = g_align g"
    using f(2,5,7) by (intro unat_of_nat64; linarith)+
  have "is_valid_alignment (of_nat (g_align g))" using assms s(2) f(2,5,7) by (subst valid_alignment_iff) (auto simp: geo_ok_def)
  then show "buddy_sizeof_alignment (of_nat (g_size g)) (of_nat (g_align g)) = of_nat (meta_bytes g)"
    using f(2) s padded_bitset_size_nat(3) [OF n]
    by (simp add: buddy_sizeof_alignment_def order_for_memory [OF assms] word_less_nat_alt sizeof_buddy_def meta_bytes_def)
  show b: "meta_bytes g < 576460752303423488" using layout_bounds(3) [OF n] n by (simp add: meta_bytes_def tree_bytes_def)
  then show "unat (of_nat (meta_bytes g) :: u64) = meta_bytes g" by (intro unat_of_nat64) linarith
  show "0 < meta_bytes g" by (simp add: meta_bytes_def)
qed

text \<open>Words of the structure that were stored, read back after stores to the other ones.\<close>

lemma header_load:
  assumes "j < 4" "k < 4"
  shows "load64 (store64 m (b + of_nat (8 * j)) v) (b + of_nat (8 * k)) = (if j = k then v else load64 m (b + of_nat (8 * k)))"
proof (cases "j = k")
  case False
  have "unat (b + of_nat (8 * k) - (b + of_nat (8 * j)) :: u64) = (if j \<le> k then 8 * (k - j) else 18446744073709551616 - 8 * (j - k))"
  proof -
    have "b + of_nat (8 * k) - (b + of_nat (8 * j)) = (of_nat (8 * k) - of_nat (8 * j) :: u64)" by simp
    then have "unat (b + of_nat (8 * k) - (b + of_nat (8 * j))) = unat (of_nat (8 * k) - of_nat (8 * j) :: u64)" by (simp only:)
    also have "\<dots> = (if j \<le> k then 8 * (k - j) else 18446744073709551616 - 8 * (j - k))"
      using assms unat_of_nat64 [of "8 * j"] unat_of_nat64 [of "8 * k"] by (auto simp: unat_sub64)
    finally show ?thesis .
  qed
  then show ?thesis using False assms by (subst load64_store64_far) (auto split: if_splits)
qed (simp add: load64_store64)

lemma load64_meta:
  assumes "\<And>x. n \<le> unat (x - t) \<Longrightarrow> m' x = m x" "k + 8 \<le> 32" "n \<le> 18446744073709551584"
  shows "load64 m' (t - 32 + of_nat k) = load64 m (t - 32 + of_nat k)"
proof (rule load64_cong)
  fix j :: nat
  assume "j < 8"
  have eq: "t - 32 + of_nat k + of_nat j - t = of_nat (18446744073709551584 + (k + j))" by simp
  have "unat (t - 32 + of_nat k + of_nat j - t) = 18446744073709551584 + (k + j)"
    unfolding eq using assms(2) \<open>j < 8\<close> by (intro unat_of_nat64) simp
  then show "m' (t - 32 + of_nat k + of_nat j) = m (t - 32 + of_nat k + of_nat j)" using assms(1,3) by simp
qed

lemma init_inv:
  assumes "at \<noteq> 0" "main \<noteq> 0" "at \<noteq> main" "unat at mod 8 = 0" "unat main mod 8 = 0"
    "unat alignment = 2 ^ k" "unat alignment \<le> unat memory_size" "unat memory_size \<le> 4611686018427387904"
    "g = geo_for (unat alignment) (unat memory_size)" "g_order g \<le> 58"
    "unat main + g_size g < 18446744073709551616" "separate g main at"
  shows "\<exists>m' A. buddy_init_alignment m at main memory_size alignment = Some (at, m') \<and> buddy_inv g main m' at A \<and>
    (\<forall>a \<in> A. g_size g \<le> boff g a) \<and> meta_frame g at m m' \<and> buddy_flags m' at = 0"
proof -
  note go = geo_for_ok [OF assms(6-8), folded assms(9), OF assms(10)]
  note so = sizeof_geo [OF go(1)] and f = geo_facts [OF go(1)]
  have al: "alignment = of_nat (g_align g)" using go(2) by simp
  have trim: "(if memory_size mod alignment \<noteq> 0 then memory_size - memory_size mod alignment else memory_size) = of_nat (g_size g)"
  proof -
    have "unat (memory_size - memory_size mod alignment) = g_size g"
      by (simp add: unat_sub64 unat_mod_distrib go(3))
    moreover have "memory_size - memory_size mod alignment = (if memory_size mod alignment \<noteq> 0 then memory_size - memory_size mod alignment else memory_size)" by simp
    ultimately show ?thesis by (metis u64_of_nat_unat)
  qed
  have va: "is_valid_alignment alignment" using assms(6-8) by (subst valid_alignment_iff) auto
  have al8: "at mod 8 = 0" "main mod 8 = 0" using assms(4,5) by (simp_all add: word_unat_eq_iff)
  have nz: "buddy_sizeof_alignment (of_nat (g_size g)) alignment \<noteq> 0" unfolding al so(1) using so(3,4) by (metis less_irrefl unat_0)
  define m1 where "m1 = store64 (store64 (store64 (store64 m (at + 16) main) at (of_nat (g_size g))) (at + 24) 0) (at + 8) alignment"
  define m2 where "m2 = buddy_tree_init m1 (at + 32) (of_nat (g_order g))"
  have n: "0 < g_order g" "g_order g \<le> 58" using f(3) assms(10) by simp_all
  have t8: "unat (at + 32) mod 8 = 0" using assms(4) by (simp add: unat_word_ariths mod_mod_cancel) presburger
  note ti = buddy_tree_init_inv [where m = m1, OF n t8, folded m2_def]
  have hdr: "load64 m2 (at + of_nat k) = load64 m1 (at + of_nat k)" if "k + 8 \<le> 32" for k
    using load64_meta [of "tree_bytes (g_order g)" "at + 32" m2 m1 k, OF ti(2) that] so(2) by (simp add: meta_bytes_def)
  have l1: "load64 m1 at = of_nat (g_size g)" "load64 m1 (at + 8) = alignment" "load64 m1 (at + 16) = main" "load64 m1 (at + 24) = 0"
    using header_load [of _ _ _ at] header_load [of 1 0 _ at] header_load [of 3 0 _ at] header_load [of 0 0 _ at] header_load [of 1 1 _ at]
      header_load [of 1 2 _ at] header_load [of 3 2 _ at] header_load [of 0 2 _ at] header_load [of 2 2 _ at] header_load [of 1 3 _ at] header_load [of 3 3 _ at]
    by (simp_all add: m1_def)
  have l2: "load64 m2 at = of_nat (g_size g)" "load64 m2 (at + 8) = alignment" "load64 m2 (at + 16) = main" "load64 m2 (at + 24) = 0"
    using hdr [of 0] hdr [of 8] hdr [of 16] hdr [of 24] l1 by simp_all
  then have ms: "buddy_memory_size m2 at = of_nat (g_size g)" by (simp add: buddy_memory_size_def)
  obtain m3 A where A: "buddy_toggle_virtual_slots m2 at True = Some m3" "tree_inv m3 (at + 32) (g_order g) A"
    "bits_frame (g_order g) (at + 32) m2 m3" "covered g A" "\<forall>a \<in> A. g_size g \<le> boff g a"
    using toggle_virtual_slots_cover [OF go(1) ms ti(1)] by blast
  have "buddy_init_alignment m at main memory_size alignment = Some (at, m3)"
    unfolding buddy_init_alignment_def Let_def trim
    using assms(1-3) va al8 nz A(1) by (simp add: al order_for_memory [OF go(1)] sizeof_buddy_def m2_def m1_def)
  moreover have "buddy_inv g main m3 at A"
    unfolding buddy_inv_def
    using go(1) assms(1,2,5,11,12) fields_frame [OF A(3) n(2)] ms l2 al A(2,4)
    by (simp add: buddy_alignment_def buddy_main_def buddy_relative_mode_def buddy_flags_def buddy_arena_def BUDDY_RELATIVE_MODE_def)
  moreover have "meta_frame g at m m3"
    unfolding meta_frame_def
  proof (intro allI impI)
    fix x
    assume x: "meta_bytes g \<le> unat (x - at)"
    have off: "unat (x - (at + of_nat k)) = unat (x - at) - k" if "k \<le> 32" for k
      using x that by (subst unat_off) (simp_all add: meta_bytes_def)
    have "m3 x = m2 x" using bits_meta_frame [OF A(3) n(2)] x by (simp add: meta_frame_def)
    also have "\<dots> = m1 x" using ti(2) [of x] x off [of 32] by (simp add: meta_bytes_def)
    also have "\<dots> = m x"
    proof -
      have "\<not> unat (x - at) < 8" "\<not> unat (x - (at + 8)) < 8" "\<not> unat (x - (at + 16)) < 8" "\<not> unat (x - (at + 24)) < 8"
        using off [of 8] off [of 16] off [of 24] x by (simp_all add: meta_bytes_def)
      then show ?thesis by (simp add: m1_def store64_apply)
    qed
    finally show "m3 x = m x" .
  qed
  moreover have "buddy_flags m3 at = 0" using fields_frame(4) [OF A(3) n(2)] l2(4) by (simp add: buddy_flags_def)
  ultimately show ?thesis using A(5) by blast
qed

subsection \<open>The embedded allocator\<close>

lemma tree_inv_cong:
  assumes "tree_inv m t n A" "\<And>x. unat (x - t) < tree_bytes n \<Longrightarrow> m' x = m x"
  shows "tree_inv m' t n A"
proof -
  note inv = tree_invD [OF assms(1)] and b = layout_bounds [OF tree_invD(4) [OF assms(1)]]
  have eq: "m' (t + of_nat k) = m (t + of_nat k)" if "k < tree_bytes n" for k
    using that b(3) inv(4) by (intro assms(2)) (simp add: unat_of_nat64 tree_bytes_def)
  have load: "load64 m' (t + of_nat k) = load64 m (t + of_nat k)" if "k + 8 \<le> tree_bytes n" for k
    using that eq by (intro load64_cong) (simp add: add.assoc flip: of_nat_add)
  have tab: "load64 m' (t + 24 + of_nat (8 * (table_word n + k))) = load64 m (t + 24 + of_nat (8 * (table_word n + k)))" if "k \<le> n" for k
  proof -
    have "24 + 8 * (table_word n + k) + 8 \<le> tree_bytes n" using b(2) that by (simp add: tree_bytes_def)
    moreover have "t + 24 + of_nat (8 * (table_word n + k)) = t + of_nat (24 + 8 * (table_word n + k))" by simp
    ultimately show ?thesis using load [of "24 + 8 * (table_word n + k)"] by (simp only:)
  qed
  have "tree_at m' t n"
    using inv(1) tab load [of 0] load [of 8] eq [of 16]
    by (simp add: tree_at_def upper_pos_bound_def size_for_order_offset_def buddy_tree_order_def tree_bytes_def)
  moreover have "statuses m' t n (spec n A)"
    unfolding statuses_def
  proof (intro allI impI conjI)
    fix i a
    assume i: "node n i"
    show "spec n A i \<le> cap n i" by (rule spec_le)
    assume a: "a < cap n i"
    let ?q = "(loc n i + a) div 8"
    have "loc n i + a < row n 0" using loc_end [OF i] a by linarith
    then have "24 + ?q < tree_bytes n" using b(4,5) unfolding tree_bytes_def by linarith
    moreover have "t + 24 + of_nat ?q = t + of_nat (24 + ?q)" by simp
    ultimately have "m' (t + 24 + of_nat ?q) = m (t + 24 + of_nat ?q)" using eq [of "24 + ?q"] by (simp only:)
    then show "bit_at m' (t + 24) (loc n i + a) \<longleftrightarrow> a < spec n A i"
      using inv(3) i a by (simp add: statuses_def bit_at_def)
  qed
  ultimately show ?thesis using inv(2) by (simp add: tree_inv_def)
qed

lemma tree_bytes_mono: "n \<le> n' \<Longrightarrow> tree_bytes n \<le> tree_bytes n'"
proof (induction n' rule: dec_induct)
  case (step k)
  have "row k 0 \<le> row (Suc k) 0" using row_0 [of k] row_0 [of "Suc k"] by simp
  then have "bitset_bytes k \<le> bitset_bytes (Suc k)" unfolding bitset_bytes_def by (intro div_le_mono) simp
  moreover have "bitset_bytes k mod 8 < 8" by simp
  ultimately have "padded k \<le> padded (Suc k) + 8" unfolding padded_def by linarith
  then have "tree_bytes k \<le> tree_bytes (Suc k)" by (simp add: tree_bytes_def)
  then show ?case using step.IH by linarith
qed simp

lemma geo_for_mono:
  assumes "s \<le> s'" "align = 2 ^ k"
  shows "g_order (geo_for align s) \<le> g_order (geo_for align s')" "meta_bytes (geo_for align s) \<le> meta_bytes (geo_for align s')"
proof -
  have q: "(x - x mod align) div align = x div align" for x :: nat
    using assms(2) by (simp add: minus_mod_eq_mult_div)
  have "s div align \<le> 2 ^ clog (s' div align)" using div_le_mono [OF assms(1), of align] clog_upper [of "s' div align"] by linarith
  then show o: "g_order (geo_for align s) \<le> g_order (geo_for align s')" by (simp add: geo_for_def q clog_least)
  then show "meta_bytes (geo_for align s) \<le> meta_bytes (geo_for align s')" by (simp add: meta_bytes_def tree_bytes_mono)
qed

text \<open>The offset at which the allocator is embedded, in numbers.\<close>

definition embed_at :: "nat \<Rightarrow> nat \<Rightarrow> nat" where
  "embed_at align s = 8 * ((s - meta_bytes (geo_for align s)) div 8)"

lemma embed_offset_nat:
  assumes "unat alignment = 2 ^ k" "unat alignment \<le> unat memory_size" "unat memory_size \<le> 4611686018427387904"
    "g_order (geo_for (unat alignment) (unat memory_size)) \<le> 58"
    "meta_bytes (geo_for (unat alignment) (unat memory_size)) + 8 \<le> unat memory_size"
  shows "can_fit (buddy_embed_offset memory_size alignment)"
    "embed_offset (buddy_embed_offset memory_size alignment) = of_nat (embed_at (unat alignment) (unat memory_size))"
proof -
  let ?a = "unat alignment" and ?s = "unat memory_size"
  let ?g = "geo_for ?a ?s"
  let ?mb = "meta_bytes ?g"
  note go = geo_for_ok [OF assms(1-4)]
  note so = sizeof_geo [OF go(1)]
  have ug: "unat (of_nat (g_size ?g) :: u64) = g_size ?g" unfolding go(3) using assms(3) by (intro unat_of_nat64) linarith
  have "memory_size div alignment = of_nat (g_size ?g) div of_nat (g_align ?g)"
  proof -
    from ug have "unat (of_nat (g_size ?g) div of_nat (g_align ?g) :: u64) = g_size ?g div ?a" by (simp add: unat_div_distrib go(2))
    also have "\<dots> = ?s div ?a" unfolding go(3) using assms(1) by (simp add: minus_mod_eq_mult_div)
    finally show ?thesis by (simp add: word_unat_eq_iff unat_div_distrib)
  qed
  then have "buddy_tree_order_for_memory memory_size alignment = buddy_tree_order_for_memory (of_nat (g_size ?g)) (of_nat (g_align ?g))"
    by (simp add: buddy_tree_order_for_memory_def)
  moreover have "is_valid_alignment alignment" using assms(1-3) by (subst valid_alignment_iff) auto
  moreover have "\<not> memory_size < alignment" using assms(2) by (simp add: word_less_nat_alt)
  moreover have "\<not> (of_nat (g_size ?g) :: u64) < of_nat (g_align ?g)"
    unfolding word_less_nat_alt ug go(2) using go(3,4) by simp
  ultimately have bs: "buddy_sizeof_alignment memory_size alignment = of_nat ?mb"
    using so(1) by (simp add: buddy_sizeof_alignment_def go(2))
  have umb: "unat (of_nat ?mb :: u64) = ?mb" by (rule so(3))
  have off: "unat (memory_size - of_nat ?mb) = ?s - ?mb" using umb assms(5) by (simp add: unat_sub64)
  define r where "r = (memory_size - of_nat ?mb) mod 8"
  have ur: "unat r = (?s - ?mb) mod 8" by (simp add: r_def off)
  have ub: "unat (of_nat ?mb + r) = ?mb + (?s - ?mb) mod 8"
    using umb ur so(2) unat_add64 [of "of_nat ?mb" r] by simp
  have lt: "?mb + (?s - ?mb) mod 8 < ?s" using assms(5) mod_less_divisor [of 8 "?s - ?mb"] by linarith
  have "unat (memory_size - (of_nat ?mb + r)) = embed_at ?a ?s"
    using ub lt by (simp add: unat_sub64 embed_at_def minus_mod_eq_mult_div [symmetric])
  then have e: "memory_size - (of_nat ?mb + r) = of_nat (embed_at ?a ?s)" by (metis u64_of_nat_unat)
  have f1: "\<not> of_nat ?mb \<ge> memory_size" "\<not> of_nat ?mb + r \<ge> memory_size" using umb ub assms(5) lt by (simp_all add: word_le_nat_alt)
  have "buddy_embed_offset memory_size alignment =
    \<lparr>can_fit = True, embed_offset = memory_size - (of_nat ?mb + r), embed_buddy_size = of_nat ?mb + r\<rparr>"
    unfolding buddy_embed_offset_def Let_def bs r_def [symmetric] using f1 by (cases "r = 0") simp_all
  then show "can_fit (buddy_embed_offset memory_size alignment)"
    "embed_offset (buddy_embed_offset memory_size alignment) = of_nat (embed_at ?a ?s)" using e by simp_all
qed

lemma embed_inv:
  assumes "unat alignment = 2 ^ k" "unat memory_size \<le> 4611686018427387904" "main \<noteq> 0" "unat main mod 8 = 0"
    "unat main + unat memory_size < 18446744073709551616" "al = unat alignment" "s = unat memory_size"
    "g_order (geo_for al s) \<le> 58" "meta_bytes (geo_for al s) + al + 8 \<le> s" "g = geo_for al (embed_at al s)" "b = main + of_nat (embed_at al s)"
  shows "\<exists>m' A. buddy_embed_alignment m main memory_size alignment = Some (b, m') \<and> buddy_inv g main m' b A \<and>
    (\<forall>a \<in> A. g_size g \<le> boff g a) \<and> meta_frame g b m m' \<and> unat (b - main) = embed_at al s \<and> embed_at al s + meta_bytes g \<le> s"
proof -
  let ?o = "embed_at al s"
  have al: "al = 2 ^ k" "0 < al" using assms(1,6) by simp_all
  have d: "8 * ((s - meta_bytes (geo_for al s)) div 8) + (s - meta_bytes (geo_for al s)) mod 8 = s - meta_bytes (geo_for al s)" by simp
  have o: "?o + meta_bytes (geo_for al s) \<le> s" "al \<le> ?o" "?o mod 8 = 0" "?o \<le> s"
    using assms(9) d mod_less_divisor [of 8 "s - meta_bytes (geo_for al s)"] unfolding embed_at_def by (linarith+, simp, linarith)
  have sb: "s \<le> 4611686018427387904" "unat main + s < 18446744073709551616" using assms(2,5,7) by simp_all
  have uo: "unat (of_nat ?o :: u64) = ?o" using o(4) sb by (intro unat_of_nat64) linarith
  have ub: "unat b = unat main + ?o" unfolding assms(11) using uo o(4) sb unat_add64 [of main "of_nat ?o"] by simp
  have fit: "can_fit (buddy_embed_offset memory_size alignment)" "embed_offset (buddy_embed_offset memory_size alignment) = of_nat ?o"
    using embed_offset_nat [OF assms(1) _ assms(2)] assms(6-9) by simp_all
  have mono: "g_order g \<le> 58" "meta_bytes g \<le> meta_bytes (geo_for al s)"
    using geo_for_mono [OF o(4) al(1)] assms(8,10) by simp_all
  have g: "geo_ok g" "g_align g = al" "g_size g = ?o - ?o mod al" "al \<le> ?o - ?o mod al"
    using geo_for_ok [of al k ?o] al(1) o(2,4) sb(1) mono(1) assms(10) by simp_all
  note so = sizeof_geo [OF g(1)]
  have bne: "b \<noteq> 0" "b \<noteq> main"
  proof -
    have "0 < unat main" using assms(3) by (simp add: unat_gt_0)
    then show "b \<noteq> 0" using ub by auto
    show "b \<noteq> main" using ub o(2) al(2) by auto
  qed
  have sep: "separate g main b"
    unfolding separate_def
  proof (intro allI impI)
    fix x
    assume x: "unat (x - main) < g_size g"
    then have "unat (x - main) < ?o" using g(3) by linarith
    then have "unat (x - b) = unat (x - main) + 18446744073709551616 - ?o"
      unfolding assms(11) using o(4) sb by (subst unat_off) simp_all
    then show "meta_bytes g \<le> unat (x - b)" using so(2) o(4) sb(1) by linarith
  qed
  have b8: "unat b mod 8 = 0" using ub assms(4) o(3) by (simp add: mod_add_eq [symmetric])
  have gs: "unat main + g_size g < 18446744073709551616" using g(3) o(4) sb by linarith
  have "unat (of_nat ?o :: u64) \<le> 4611686018427387904" using uo o(4) sb by linarith
  then obtain m1 A where A: "buddy_init_alignment m b main (of_nat ?o) alignment = Some (b, m1)" "buddy_inv g main m1 b A"
    "\<forall>a \<in> A. g_size g \<le> boff g a" "meta_frame g b m m1" "buddy_flags m1 b = 0"
    using init_inv [OF bne(1) assms(3) bne(2) b8 assms(4,1) _ _ _ mono(1) gs sep, of "of_nat ?o" m] uo o(2) assms(6,10) by auto
  define m2 where "m2 = store64 (store64 m1 (b + 24) 1) (b + 16) (b - main)"
  have run: "buddy_embed_alignment m main memory_size alignment = Some (b, m2)"
  proof -
    have "is_valid_alignment alignment" using assms(1,2) o(2,4) assms(6,7) by (subst valid_alignment_iff) auto
    then show ?thesis
      unfolding buddy_embed_alignment_def Let_def fit(2) assms(11) [symmetric]
      using assms(3) fit(1) A(1,5) bne(1) by (simp add: m2_def BUDDY_RELATIVE_MODE_def)
  qed
  note inv = buddy_invD [OF A(2)]
  have far: "m2 x = m1 x" if "32 \<le> unat (x - b)" for x
  proof -
    have "unat (x - (b + of_nat j)) = unat (x - b) - j" if "j \<le> 32" for j using that \<open>32 \<le> unat (x - b)\<close> by (subst unat_off) simp_all
    from this [of 16] this [of 24] that have "\<not> unat (x - (b + 16)) < 8" "\<not> unat (x - (b + 24)) < 8" by simp_all
    then show ?thesis by (simp add: m2_def store64_apply)
  qed
  have l: "load64 m2 b = load64 m1 b" "load64 m2 (b + 8) = load64 m1 (b + 8)" "load64 m2 (b + 16) = b - main" "load64 m2 (b + 24) = 1"
    using header_load [of 2 0 _ b] header_load [of 3 0 _ b] header_load [of 2 1 _ b] header_load [of 3 1 _ b] header_load [of 2 2 _ b]
      header_load [of 2 3 _ b] header_load [of 3 3 _ b] by (simp_all add: m2_def)
  have "tree_inv m2 (b + 32) (g_order g) A"
  proof (rule tree_inv_cong [OF inv(9)])
    fix x
    assume x: "unat (x - (b + 32)) < tree_bytes (g_order g)"
    have "x - b = (x - (b + 32)) + 32" by simp
    moreover have "unat ((x - (b + 32)) + 32) = unat (x - (b + 32)) + 32"
      using x so(2) unat_add64 [of "x - (b + 32)" 32] by (simp add: meta_bytes_def)
    ultimately have "unat (x - b) = unat (x - (b + 32)) + 32" by (simp only:)
    then show "m2 x = m1 x" by (intro far) simp
  qed
  then have "buddy_inv g main m2 b A"
    using A(2) l by (simp add: buddy_inv_def buddy_memory_size_def buddy_alignment_def buddy_main_def buddy_relative_mode_def
        buddy_flags_def buddy_arena_def BUDDY_RELATIVE_MODE_def)
  moreover have "meta_frame g b m m2"
    using A(4) far by (simp add: meta_frame_def meta_bytes_def)
  moreover have "unat (b - main) = ?o" using uo by (simp add: assms(11))
  ultimately show ?thesis using run A(3) mono(2) o(1) by auto
qed

end
