(* ===== verification/Buddy_Alloc.thy ===== *)
theory Buddy_Alloc
  imports Buddy_Init
begin

text \<open>
  What a caller of the allocator of \<^verbatim>\<open>buddy_alloc.h\<close> may rely on, in terms of blocks of memory: the
  properties of initialization, allocation and release.
\<close>

subsection \<open>Allocation and release in terms of blocks\<close>

text \<open>
  What a caller may rely on for the block \<open>j\<close> that serves a request of \<open>r\<close> bytes: it lies in the arena, is
  aligned to its own size, is large enough but less than twice as large as necessary, and is disjoint
  from every allocated block.
\<close>

definition serves :: "geometry \<Rightarrow> nat set \<Rightarrow> nat \<Rightarrow> nat \<Rightarrow> bool" where
  "serves g A r j \<longleftrightarrow> node (g_order g) j \<and> boff g j + block_size g j \<le> g_size g \<and> block_size g j dvd boff g j \<and>
     r \<le> block_size g j \<and> block_size g j < 2 * max r (g_align g) \<and> (\<forall>a \<in> A. block g a \<inter> block g j = {})"

lemma serves_fitting:
  assumes "geo_ok g" "antichain (g_order g) A" "covered g A"
  shows "serves g A r j \<longleftrightarrow> fitting g A r j"
proof
  assume "fitting g A r j"
  then have j: "free_node (g_order g) A j" "r \<le> block_size g j" "block_size g j < 2 * max r (g_align g)" by (simp_all add: fitting_def)
  then have n: "node (g_order g) j" by (simp add: free_node_def)
  have d: "\<forall>a \<in> A. block g a \<inter> block g j = {}" using j block_free [OF assms(1) n assms(2)] by blast
  have "boff g j + block_size g j \<le> g_size g"
  proof (rule ccontr)
    assume gt: "\<not> boff g j + block_size g j \<le> g_size g"
    define x where "x = max (boff g j) (g_size g)"
    have x: "x \<in> block g j" "g_size g \<le> x"
      using gt block_size_pos [OF geo_facts(1) [OF assms(1)], of j] by (auto simp: x_def block_def max_def)
    then obtain a where "a \<in> A" "x \<in> block g a" using assms(3) block_whole [OF n x(1)] by (auto simp: covered_def)
    then show False using d x(1) by blast
  qed
  then show "serves g A r j" using j n d by (simp add: serves_def boff_def)
next
  assume "serves g A r j"
  then show "fitting g A r j" using block_free [OF assms(1) _ assms(2), of j] by (auto simp: serves_def fitting_def)
qed

lemma malloc_serves:
  assumes "buddy_inv g main m b A" "r = max 1 (unat requested_size)"
  shows "if \<exists>j. serves g A r j
    then \<exists>j m'. buddy_malloc m b requested_size = Some (main + of_nat (boff g j), m') \<and> serves g A r j \<and>
      buddy_inv g main m' b (insert j A) \<and> meta_frame g b m m'
    else buddy_malloc m b requested_size = Some (0, m)"
proof -
  note sf = serves_fitting [OF buddy_invD(1,11,10) [OF assms(1)]]
  have "(\<exists>j. serves g A r j) \<longleftrightarrow> (\<exists>j. serves g A r j \<and> r \<le> g_size g)" by (auto simp: serves_def)
  then show ?thesis using malloc_block [OF assms] unfolding sf by (simp only:)
qed

lemma serves_arena:
  assumes "geo_ok g" "serves g A r j"
  shows "boff g j < g_size g" "j \<notin> A"
  using assms(2) block_size_pos [OF geo_facts(1) [OF assms(1)], of j] by (auto simp: serves_def block_def)

text \<open>
  C21: \<^verbatim>\<open>buddy_malloc\<close> of an allocator with its invariant always returns.  It returns the address of a block
  that serves the request, adds exactly this block to the allocated ones and keeps the invariant; it
  returns null, and changes nothing, exactly if no block serves the request.  Memory outside the
  allocator's own data is not written.
\<close>

theorem buddy_malloc_correct:
  assumes "buddy_inv g main m b A" "r = max 1 (unat requested_size)"
  shows "if \<exists>j. serves g A r j
    then \<exists>j m'. buddy_malloc m b requested_size = Some (main + of_nat (boff g j), m') \<and> serves g A r j \<and>
      buddy_inv g main m' b (insert j A) \<and> meta_frame g b m m'
    else buddy_malloc m b requested_size = Some (0, m)"
  using assms by (rule malloc_serves)

text \<open>
  C22: \<^verbatim>\<open>buddy_free\<close> always returns.  Called with the address of an allocated block of the arena it removes
  exactly this block and keeps the invariant; called with any other address, in or out of the arena,
  inside of a block or of a free one, it changes nothing.
\<close>

theorem buddy_free_correct:
  assumes "buddy_inv g main m b A"
  shows "(\<forall>a \<in> A. boff g a < g_size g \<longrightarrow> (\<exists>m'. buddy_free m b (main + of_nat (boff g a)) = Some m' \<and>
      buddy_inv g main m' b (A - {a}) \<and> meta_frame g b m m')) \<and>
    (\<forall>ptr. (\<forall>a \<in> A. boff g a < g_size g \<longrightarrow> ptr \<noteq> main + of_nat (boff g a)) \<longrightarrow> buddy_free m b ptr = Some m)"
  using free_block [OF assms] by blast

text \<open>
  Freeing what was just allocated restores the set of allocated blocks, and so everything that
  later calls return.
\<close>

theorem buddy_malloc_free:
  assumes "buddy_inv g main m b A" "buddy_malloc m b requested_size = Some (p, m')" "p \<noteq> 0"
  shows "\<exists>m''. buddy_free m' b p = Some m'' \<and> buddy_inv g main m'' b A \<and> meta_frame g b m m''"
proof -
  note inv = buddy_invD [OF assms(1)]
  obtain j where j: "p = main + of_nat (boff g j)" "serves g A (max 1 (unat requested_size)) j" "buddy_inv g main m' b (insert j A)" "meta_frame g b m m'"
    using malloc_serves [OF assms(1) refl, of requested_size] assms(2,3) by (auto split: if_splits)
  note a = serves_arena [OF inv(1) j(2)]
  obtain m'' where m'': "buddy_free m' b p = Some m''" "buddy_inv g main m'' b (insert j A - {j})" "meta_frame g b m' m''"
    using free_block(1) [OF j(3) insertI1 a(1)] j(1) by blast
  then show ?thesis using a(2) j(4) by (auto simp: meta_frame_def)
qed

lemma embed_64:
  assumes "main \<noteq> 0" "unat main mod 8 = 0" "s = unat memory_size" "unat main + s < 18446744073709551616" "s \<le> 4611686018427387904"
    "meta_bytes (geo_for 64 s) + 72 \<le> s"
  shows "\<exists>m' A. buddy_embed m main memory_size = Some (main + of_nat (embed_at 64 s), m') \<and>
    buddy_inv (geo_for 64 (embed_at 64 s)) main m' (main + of_nat (embed_at 64 s)) A \<and>
    (\<forall>a \<in> A. g_size (geo_for 64 (embed_at 64 s)) \<le> boff (geo_for 64 (embed_at 64 s)) a) \<and>
    meta_frame (geo_for 64 (embed_at 64 s)) (main + of_nat (embed_at 64 s)) m m' \<and>
    unat (main + of_nat (embed_at 64 s) - main) = embed_at 64 s \<and> embed_at 64 s + meta_bytes (geo_for 64 (embed_at 64 s)) \<le> s"
proof -
  have "clog (s div 64) \<le> 56" using assms(5) by (intro clog_least) simp
  then have n: "g_order (geo_for 64 s) \<le> 58" by (simp add: geo_for_def minus_mod_eq_mult_div)
  have a: "unat (64 :: u64) = 2 ^ 6" "(64 :: nat) = unat (64 :: u64)" by simp_all
  have s: "unat memory_size \<le> 4611686018427387904" "unat main + unat memory_size < 18446744073709551616" "meta_bytes (geo_for 64 s) + 64 + 8 \<le> s"
    using assms(3-6) by simp_all
  show ?thesis unfolding buddy_embed_def BUDDY_ALLOC_ALIGN_def
    by (rule embed_inv [OF a(1) s(1) assms(1,2) s(2) a(2) assms(3) n s(3) refl refl])
qed

lemma embed_frame:
  assumes "meta_frame g (main + of_nat o') m m'" "o' + meta_bytes g \<le> s" "s \<le> 4611686018427387904" "s \<le> unat (x - main)"
  shows "m' x = m x"
proof -
  have "unat (x - (main + of_nat o')) = unat (x - main) - o'" using assms(2-4) by (subst unat_off) simp_all
  then have "meta_bytes g \<le> unat (x - (main + of_nat o'))" using assms(2,4) by linarith
  then show ?thesis using assms(1) by (simp add: meta_frame_def)
qed

text \<open>
  C23: \<^verbatim>\<open>buddy_embed\<close> places the allocator at the end of the memory it is given and establishes the
  invariant with no block of the arena allocated.  The arena and the allocator's data fit into the
  memory, and nothing else is written.
\<close>

theorem buddy_embed_establishes:
  assumes "main \<noteq> 0" "unat main mod 8 = 0" "s = unat memory_size" "unat main + s < 18446744073709551616" "s \<le> 4611686018427387904"
    "meta_bytes (geo_for 64 s) + 72 \<le> s" "g = geo_for 64 (embed_at 64 s)"
  shows "\<exists>m' A. buddy_embed m main memory_size = Some (main + of_nat (embed_at 64 s), m') \<and>
    buddy_inv g main m' (main + of_nat (embed_at 64 s)) A \<and> (\<forall>a \<in> A. g_size g \<le> boff g a) \<and>
    g_size g \<le> embed_at 64 s \<and> embed_at 64 s + meta_bytes g \<le> s \<and> (\<forall>x. s \<le> unat (x - main) \<longrightarrow> m' x = m x)"
proof -
  let ?o = "embed_at 64 s" and ?b = "main + of_nat (embed_at 64 s)"
  obtain m' A where A: "buddy_embed m main memory_size = Some (?b, m')" "buddy_inv g main m' ?b A" "\<forall>a \<in> A. g_size g \<le> boff g a"
    "meta_frame g ?b m m'" "?o + meta_bytes g \<le> s"
    using embed_64 [OF assms(1-6), of m, folded assms(7)] by blast
  have "m' x = m x" if "s \<le> unat (x - main)" for x
    using A(4,5) assms(5) that by (rule embed_frame)
  moreover have "g_size g \<le> ?o" by (simp add: assms(7) geo_for_def)
  ultimately show ?thesis using A by blast
qed

subsection \<open>An allocator in one page\<close>

lemma page_geometry:
  "embed_at 64 4096 = 3928" "meta_bytes (geo_for 64 4096) = 166"
  "geo_for 64 3928 = \<lparr>g_order = 7, g_align = 64, g_size = 3904\<rparr>" "row 7 0 = 247"
proof -
  have c: "clog 64 = 6" using clog_pow2 [of 6] by simp
  have c61: "clog 61 = 6" by (rule clog_eq) simp_all
  show r: "row 7 0 = 247" using row_0 [of 7] by simp
  show m: "meta_bytes (geo_for 64 4096) = 166"
    by (simp add: meta_bytes_def geo_for_def c tree_bytes_def padded_def bitset_bytes_def r)
  show "embed_at 64 4096 = 3928" by (simp add: embed_at_def m)
  show "geo_for 64 3928 = \<lparr>g_order = 7, g_align = 64, g_size = 3904\<rparr>" by (simp add: geo_for_def c61)
qed

definition geo_page :: geometry where
  "geo_page = \<lparr>g_order = 7, g_align = 64, g_size = 3904\<rparr>"

lemma page_embed:
  "unat (0x10000 :: u64) mod 8 = 0" "4096 = unat (0x1000 :: u64)" "unat (0x10000 :: u64) + 4096 < 18446744073709551616"
  "meta_bytes (geo_for 64 4096) + 72 \<le> 4096" "geo_page = geo_for 64 (embed_at 64 4096)"
  by (simp_all add: page_geometry geo_page_def)

theorem buddy_embed_establishes_witness:
  "\<exists>m' A. buddy_embed (\<lambda>_. 0) 0x10000 0x1000 = Some (0x10F58, m') \<and> buddy_inv geo_page 0x10000 m' 0x10F58 A \<and>
     (\<forall>a \<in> A. 3904 \<le> boff geo_page a)"
proof -
  note e = buddy_embed_establishes [OF _ page_embed(1,2,3) _ page_embed(4,5), of "\<lambda>_. 0"]
  have "(0x10000 :: u64) + of_nat (embed_at 64 4096) = 0x10F58" "g_size geo_page = 3904" by (simp_all add: page_geometry geo_page_def)
  then show ?thesis using e by (simp only:) force
qed

text \<open>The same machine as a lemma, for the other witnesses.\<close>

lemma page_machine:
  "\<exists>m A. buddy_inv geo_page 0x10000 m 0x10F58 A \<and> (\<forall>a \<in> A. 3904 \<le> boff geo_page a)"
proof -
  note e = embed_64 [OF _ page_embed(1,2,3) _ page_embed(4), of "\<lambda>_. 0", folded page_embed(5)]
  have "(0x10000 :: u64) + of_nat (embed_at 64 4096) = 0x10F58" "g_size geo_page = 3904" by (simp_all add: page_geometry geo_page_def)
  then show ?thesis using e by (simp only:) force
qed

lemma page_serves:
  assumes "\<forall>a \<in> A. 3904 \<le> boff geo_page a"
  shows "serves geo_page A 100 32" "boff geo_page 32 = 0" "block_size geo_page 32 = 128"
proof -
  have b: "blen 32 = 6" using blen_pow2 [of 5] by simp
  show o: "boff geo_page 32 = 0" "block_size geo_page 32 = 128" by (simp_all add: boff_def block_size_def cap_def b geo_page_def)
  have "block geo_page a \<inter> block geo_page 32 = {}" if "a \<in> A" for a using assms that o by (fastforce simp: block_def)
  then show "serves geo_page A 100 32" by (simp add: serves_def o node_def) (simp add: geo_page_def)
qed

theorem buddy_malloc_correct_witness:
  "\<exists>m A j m'. buddy_inv geo_page 0x10000 m 0x10F58 A \<and> serves geo_page A 100 j \<and>
     buddy_malloc m 0x10F58 100 = Some (0x10000 + of_nat (boff geo_page j), m') \<and> buddy_inv geo_page 0x10000 m' 0x10F58 (insert j A)"
proof -
  obtain m A where A: "buddy_inv geo_page 0x10000 m 0x10F58 A" "\<forall>a \<in> A. 3904 \<le> boff geo_page a" using page_machine by blast
  then have "\<exists>j. serves geo_page A 100 j" using page_serves by blast
  then show ?thesis using buddy_malloc_correct [OF A(1), of 100 100] A(1) by auto
qed

lemma page_malloc:
  "\<exists>m A j m'. buddy_inv geo_page 0x10000 m 0x10F58 A \<and> buddy_malloc m 0x10F58 100 = Some (0x10000 + of_nat (boff geo_page j), m') \<and>
     buddy_inv geo_page 0x10000 m' 0x10F58 (insert j A) \<and> boff geo_page j < 3904 \<and> j \<notin> A \<and> serves geo_page A 100 j"
proof -
  obtain m A where A: "buddy_inv geo_page 0x10000 m 0x10F58 A" "\<forall>a \<in> A. 3904 \<le> boff geo_page a" using page_machine by blast
  have "\<exists>j. serves geo_page A 100 j" using page_serves(1) [OF A(2)] by blast
  then obtain j m' where j: "buddy_malloc m 0x10F58 100 = Some (0x10000 + of_nat (boff geo_page j), m')" "serves geo_page A 100 j"
    "buddy_inv geo_page 0x10000 m' 0x10F58 (insert j A)"
    using malloc_serves [OF A(1), of 100 100] by auto
  moreover have "boff geo_page j < 3904" "j \<notin> A" using serves_arena [OF buddy_invD(1) [OF A(1)] j(2)] by (simp_all add: geo_page_def)
  ultimately show ?thesis using A(1) by blast
qed

theorem buddy_free_correct_witness:
  "\<exists>m A a m'. a \<in> A \<and> buddy_inv geo_page 0x10000 m 0x10F58 A \<and> buddy_free m 0x10F58 (0x10000 + of_nat (boff geo_page a)) = Some m' \<and>
     buddy_inv geo_page 0x10000 m' 0x10F58 (A - {a}) \<and> buddy_free m 0x10F58 0x2000 = Some m"
proof -
  obtain m A j where j: "buddy_inv geo_page 0x10000 m 0x10F58 (insert j A)" "boff geo_page j < 3904" using page_malloc by blast
  note bf = buddy_free_correct [OF j(1)]
  have "(0x2000 :: u64) \<noteq> 0x10000 + of_nat (boff geo_page a)" if "boff geo_page a < 3904" for a
  proof -
    have "unat (0x10000 + of_nat (boff geo_page a) :: u64) = 0x10000 + boff geo_page a"
      using arena_offset_iff(3) [OF j(1), of "boff geo_page a"] that by (simp add: geo_page_def)
    moreover have "8192 \<noteq> 0x10000 + boff geo_page a" by simp
    moreover have "unat (0x2000 :: u64) = 8192" by simp
    ultimately show ?thesis by (simp only: word_unat_eq_iff simp_thms)
  qed
  then have "buddy_free m 0x10F58 0x2000 = Some m" using bf by (simp add: geo_page_def)
  moreover obtain m' where "buddy_free m 0x10F58 (0x10000 + of_nat (boff geo_page j)) = Some m'" "buddy_inv geo_page 0x10000 m' 0x10F58 (insert j A - {j})"
    using bf j(2) by (auto simp: geo_page_def)
  ultimately show ?thesis using j(1) by blast
qed

theorem buddy_malloc_free_witness:
  "\<exists>m A p m' m''. buddy_inv geo_page 0x10000 m 0x10F58 A \<and> buddy_malloc m 0x10F58 100 = Some (p, m') \<and> p \<noteq> 0 \<and>
     buddy_free m' 0x10F58 p = Some m'' \<and> buddy_inv geo_page 0x10000 m'' 0x10F58 A"
proof -
  obtain m A j m' where j: "buddy_inv geo_page 0x10000 m 0x10F58 A" "buddy_malloc m 0x10F58 100 = Some (0x10000 + of_nat (boff geo_page j), m')"
    "boff geo_page j < 3904" using page_malloc by blast
  have "(0x10000 + of_nat (boff geo_page j) :: u64) \<noteq> 0" using arena_offset_iff(2) [OF j(1)] j(3) by (simp add: geo_page_def)
  then show ?thesis using buddy_malloc_free [OF j(1,2)] j(1,2) by blast
qed

end
