(* ===== verification/Buddy_Walk.thy ===== *)
theory Buddy_Walk
  imports Buddy_Alloc
begin

text \<open>
  The walk over the allocation tree of \<^verbatim>\<open>buddy_alloc.h\<close> and the operations that use it.  Every such
  operation is a loop \<^verbatim>\<open>do { ... } while(buddy_tree_walk(tree, &state))\<close>, which is the combinator \<open>tree_do\<close>; a body
  returns from the operation (\<open>Inl\<close>) or continues, telling whether it set \<^verbatim>\<open>going_up\<close>.  Under every
  body the loop ends and visits the nodes in preorder (\<open>tree_do_visit\<close>).
\<close>

subsection \<open>The walk\<close>

record buddy_tree_walk_state =
  starting_pos :: buddy_tree_pos
  current_pos :: buddy_tree_pos
  going_up :: bool
  walk_done :: bool

definition buddy_tree_walk_state_root :: buddy_tree_walk_state where
  "buddy_tree_walk_state_root =
     \<lparr>starting_pos = buddy_tree_root, current_pos = buddy_tree_root, going_up = False, walk_done = False\<rparr>"

definition walk_step :: "mem \<Rightarrow> u64 \<Rightarrow> buddy_tree_walk_state \<Rightarrow> buddy_tree_walk_state" where
  "walk_step m t state =
     (if going_up state
      then if p_index (current_pos state) = p_index (starting_pos state)
           then state\<lparr>walk_done := True, going_up := False\<rparr>
           else if p_index (current_pos state) AND 1 \<noteq> 0
           then state\<lparr>current_pos := buddy_tree_parent (current_pos state)\<rparr>
           else state\<lparr>current_pos := buddy_tree_right_adjacent (current_pos state), going_up := False\<rparr>
      else if buddy_tree_valid m t (buddy_tree_left_child (current_pos state))
      then state\<lparr>current_pos := buddy_tree_left_child (current_pos state)\<rparr>
      else state\<lparr>going_up := True\<rparr>)"

lemma walk_measure:
  assumes "going_up (walk_step m t state)" "going_up state"
  shows "unat (p_index (current_pos (walk_step m t state))) < unat (p_index (current_pos state))"
proof -
  have "p_index (current_pos state) AND 1 \<noteq> 0 \<Longrightarrow> p_index (current_pos state) \<noteq> 0" by auto
  then show ?thesis using assms by (auto simp: walk_step_def intro: parent_index_less split: if_splits)
qed

function buddy_tree_walk :: "mem \<Rightarrow> u64 \<Rightarrow> buddy_tree_walk_state \<Rightarrow> bool \<times> buddy_tree_walk_state" where
  "buddy_tree_walk m t state =
     (let state = walk_step m t state
      in if going_up state then buddy_tree_walk m t state else (\<not> walk_done state, state))"
  by pat_completeness auto
termination
  by (relation "measures [\<lambda>(m, t, s). if going_up s then 0 else 1, \<lambda>(m, t, s). unat (p_index (current_pos s))]")
    (auto intro: walk_measure)

declare buddy_tree_walk.simps [simp del]

partial_function (option) tree_do ::
  "mem \<Rightarrow> u64 \<Rightarrow> (buddy_tree_pos \<Rightarrow> 'r \<Rightarrow> 'x + bool \<times> 'r) \<Rightarrow> buddy_tree_walk_state \<Rightarrow> 'r \<Rightarrow> ('x + 'r) option" where
  "tree_do m t body state r =
     (case body (current_pos state) r of
        Inl x \<Rightarrow> Some (Inl x)
      | Inr (ascend, r) \<Rightarrow>
          let state = (if ascend then state\<lparr>going_up := True\<rparr> else state);
              (more, state) = buddy_tree_walk m t state
          in if more then tree_do m t body state r else Some (Inr r))"

subsection \<open>Intervals\<close>

function interval_loop :: "mem \<Rightarrow> u64 \<Rightarrow> buddy_tree_interval \<Rightarrow> u64 \<Rightarrow> buddy_tree_interval" where
  "interval_loop m t result depth =
     (if depth \<noteq> ucast (buddy_tree_order m t)
      then interval_loop m t \<lparr>i_from = buddy_tree_left_child (i_from result), i_to = buddy_tree_right_child (i_to result)\<rparr> (depth + 1)
      else result)"
  by pat_completeness auto
termination
proof (relation "measure (\<lambda>(m, t, result, depth). unat (ucast (buddy_tree_order m t) - depth))")
  fix m t and result :: buddy_tree_interval and depth :: u64
  assume "depth \<noteq> ucast (buddy_tree_order m t)"
  then have "ucast (buddy_tree_order m t) - depth \<noteq> 0" by simp
  then have "unat (ucast (buddy_tree_order m t) - depth - 1) < unat (ucast (buddy_tree_order m t) - depth)" by (rule measure_unat)
  then show "((m, t, \<lparr>i_from = buddy_tree_left_child (i_from result), i_to = buddy_tree_right_child (i_to result)\<rparr>, depth + 1), m, t, result, depth)
      \<in> measure (\<lambda>(m, t, result, depth). unat (ucast (buddy_tree_order m t) - depth))" by (simp add: diff_diff_eq add.commute)
qed simp

declare interval_loop.simps [simp del]

definition mk_buddy_tree_interval :: "mem \<Rightarrow> u64 \<Rightarrow> buddy_tree_pos \<Rightarrow> buddy_tree_interval" where
  "mk_buddy_tree_interval m t pos = interval_loop m t \<lparr>i_from = pos, i_to = pos\<rparr> (p_depth pos)"

definition buddy_tree_interval_contains :: "buddy_tree_interval \<Rightarrow> buddy_tree_interval \<Rightarrow> bool" where
  "buddy_tree_interval_contains outer inner \<longleftrightarrow>
     p_index (i_from inner) \<ge> p_index (i_from outer) \<and> p_index (i_from inner) \<le> p_index (i_to outer) \<and>
     p_index (i_to inner) \<ge> p_index (i_from outer) \<and> p_index (i_to inner) \<le> p_index (i_to outer)"

text \<open>
  \<^verbatim>\<open>buddy_is_free\<close>: the inner loop climbs to the largest subtree inside of the query range, the outer one
  advances behind it.
\<close>

partial_function (option) climb_range ::
  "mem \<Rightarrow> u64 \<Rightarrow> buddy_tree_interval \<Rightarrow> buddy_tree_pos \<Rightarrow> buddy_tree_interval \<Rightarrow> buddy_tree_interval \<Rightarrow> (buddy_tree_pos \<times> buddy_tree_interval) option" where
  "climb_range m t query_range pos current_test_range parent_test_range =
     (if buddy_tree_interval_contains query_range parent_test_range
      then let pos = buddy_tree_parent pos
           in climb_range m t query_range pos parent_test_range (mk_buddy_tree_interval m t (buddy_tree_parent pos))
      else Some (pos, current_test_range))"

partial_function (option) range_is_free :: "mem \<Rightarrow> u64 \<Rightarrow> buddy_tree_interval \<Rightarrow> buddy_tree_pos \<Rightarrow> bool option" where
  "range_is_free m t query_range pos =
     (if buddy_tree_valid m t pos \<and> p_index pos < p_index (i_to query_range)
      then do {
        (pos, current_test_range) \<leftarrow> climb_range m t query_range pos (mk_buddy_tree_interval m t pos)
                                      (mk_buddy_tree_interval m t (buddy_tree_parent pos));
        if \<not> buddy_tree_is_free m t pos then Some False
        else range_is_free m t query_range (buddy_tree_right_adjacent (i_to current_test_range))
      }
      else Some True)"

definition buddy_is_free :: "mem \<Rightarrow> u64 \<Rightarrow> u64 \<Rightarrow> bool option" where
  "buddy_is_free m buddy from =
     (let effective_memory_size = buddy_effective_memory_size m buddy;
          virtual_slots = buddy_virtual_slots m buddy;
          to = effective_memory_size - (if virtual_slots \<noteq> 0 then virtual_slots else 1) * buddy_alignment m buddy;
          query_range = \<lparr>i_from = deepest_position_for_offset m buddy from, i_to = deepest_position_for_offset m buddy to\<rparr>
      in range_is_free m (buddy_tree buddy) query_range (deepest_position_for_offset m buddy from))"

definition buddy_can_shrink :: "mem \<Rightarrow> u64 \<Rightarrow> bool option" where
  "buddy_can_shrink m buddy = (if buddy = 0 then Some False else buddy_is_free m buddy (buddy_memory_size m buddy div 2))"

definition buddy_is_empty :: "mem \<Rightarrow> u64 \<Rightarrow> bool option" where
  "buddy_is_empty m buddy = (if buddy = 0 then Some False else buddy_is_free m buddy 0)"

subsection \<open>Reports\<close>

definition buddy_is_full :: "mem \<Rightarrow> u64 \<Rightarrow> bool" where
  "buddy_is_full m buddy \<longleftrightarrow> buddy \<noteq> 0 \<and>
     buddy_tree_status m (buddy_tree buddy) buddy_tree_root = ucast (buddy_tree_order m (buddy_tree buddy))"

definition buddy_arena_size :: "mem \<Rightarrow> u64 \<Rightarrow> u64" where
  "buddy_arena_size m buddy = (if buddy = 0 then 0 else buddy_memory_size m buddy)"

definition free_size_body :: "mem \<Rightarrow> u64 \<Rightarrow> buddy_tree_pos \<Rightarrow> u64 \<Rightarrow> unit + bool \<times> u64" where
  "free_size_body m buddy pos result =
     (let tree = buddy_tree buddy; pos_status = buddy_tree_status m tree pos
      in if pos_status = ucast (buddy_tree_order m tree) - p_depth pos + 1 then Inr (True, result)
         else if pos_status = 0 then Inr (True, result + size_for_depth m buddy (p_depth pos))
         else Inr (False, result))"

definition buddy_arena_free_size :: "mem \<Rightarrow> u64 \<Rightarrow> u64 option" where
  "buddy_arena_free_size m buddy =
     map_option (case_sum (\<lambda>_. 0) id) (tree_do m (buddy_tree buddy) (free_size_body m buddy) buddy_tree_walk_state_root 0)"

text \<open>
  \<^verbatim>\<open>buddy_walk\<close>; the callback gets its context, an address, a size and whether the slot is allocated, and
  returns a pointer and its context.
\<close>

definition walk_body ::
  "mem \<Rightarrow> u64 \<Rightarrow> ('c \<Rightarrow> u64 \<Rightarrow> u64 \<Rightarrow> bool \<Rightarrow> u64 \<times> 'c) \<Rightarrow> buddy_tree_pos \<Rightarrow> 'c \<Rightarrow> (u64 \<times> 'c) + bool \<times> 'c" where
  "walk_body m buddy fp pos ctx =
     (let main = buddy_main m buddy; tree = buddy_tree buddy;
          pos_status = buddy_tree_status m tree pos
      in if pos_status \<noteq> ucast (buddy_tree_order m tree) - p_depth pos + 1 then Inr (False, ctx)
         else let test_pos = buddy_tree_left_child pos
              in if buddy_tree_valid m tree test_pos \<and> buddy_tree_status m tree test_pos \<noteq> 0 then Inr (False, ctx)
                 else let pos_size = drop_bit (unat (p_depth pos - 1)) (buddy_effective_memory_size m buddy);
                          addr = address_for_position m buddy pos
                      in if addr - main + pos_size > buddy_memory_size m buddy then Inl (0, ctx)
                         else let (callback_result, ctx) = fp ctx addr pos_size (pos_status > 0)
                              in if callback_result \<noteq> 0 then Inl (callback_result, ctx) else Inr (True, ctx))"

definition buddy_walk :: "mem \<Rightarrow> u64 \<Rightarrow> ('c \<Rightarrow> u64 \<Rightarrow> u64 \<Rightarrow> bool \<Rightarrow> u64 \<times> 'c) option \<Rightarrow> 'c \<Rightarrow> (u64 \<times> 'c) option" where
  "buddy_walk m buddy fp ctx =
     (if buddy = 0 then Some (0, ctx)
      else case fp of None \<Rightarrow> Some (0, ctx)
      | Some fp \<Rightarrow> map_option (case_sum id (Pair 0)) (tree_do m (buddy_tree buddy) (walk_body m buddy fp) buddy_tree_walk_state_root ctx))"

definition fragmentation_body :: "mem \<Rightarrow> u64 \<Rightarrow> buddy_tree_pos \<Rightarrow> u64 \<times> u64 \<Rightarrow> unit + bool \<times> (u64 \<times> u64)" where
  "fragmentation_body m t pos r =
     (let (quality, total_free_size) = r; pos_status = buddy_tree_status m t pos;
          tree_order = ucast (buddy_tree_order m t)
      in if pos_status = 0
         then let virtual_size = two_to_the_power_of ((tree_order - p_depth pos) mod 63)
              in Inr (True, (quality + virtual_size * virtual_size, total_free_size + virtual_size))
         else if pos_status = tree_order - p_depth pos + 1 then Inr (True, r)
         else Inr (False, r))"

definition fragmentation_value :: "u64 \<Rightarrow> u64 \<Rightarrow> u8" where
  "fragmentation_value quality total_free_size =
     (if total_free_size = 0 then 0
      else let quality_percent = push_bit 8 (integer_square_root quality) div total_free_size;
               quality_percent = quality_percent * quality_percent;
               quality_percent = drop_bit 8 quality_percent
           in 255 - ucast (quality_percent AND 255))"

definition buddy_tree_fragmentation :: "mem \<Rightarrow> u64 \<Rightarrow> u8 option" where
  "buddy_tree_fragmentation m t =
     (if buddy_tree_status m t buddy_tree_root = 0 then Some 0
      else map_option (\<lambda>r. case r of Inl _ \<Rightarrow> 0 | Inr (quality, total_free_size) \<Rightarrow> fragmentation_value quality total_free_size)
             (tree_do m t (fragmentation_body m t) buddy_tree_walk_state_root (0, 0)))"

definition buddy_fragmentation :: "mem \<Rightarrow> u64 \<Rightarrow> u8 option" where
  "buddy_fragmentation m buddy = (if buddy = 0 then Some 0 else buddy_tree_fragmentation m (buddy_tree buddy))"

text \<open>
  \<^verbatim>\<open>buddy_tree_check_invariant\<close> without its messages.  The loop walks the tree but always tests the position it
  was called with.
\<close>

definition check_body :: "mem \<Rightarrow> u64 \<Rightarrow> buddy_tree_pos \<Rightarrow> buddy_tree_pos \<Rightarrow> bool \<Rightarrow> unit + bool \<times> bool" where
  "check_body m t pos current fail =
     (let current_internal = buddy_tree_internal_position_tree m t pos;
          current_status = read_from_internal_position m (buddy_tree_bits t) current_internal;
          left_child_status = buddy_tree_status m t (buddy_tree_left_child pos);
          right_child_status = buddy_tree_status m t (buddy_tree_right_child pos);
          violated =
            (if left_child_status \<noteq> 0 \<or> right_child_status \<noteq> 0
             then current_status \<noteq> (if left_child_status \<le> right_child_status then left_child_status else right_child_status) + 1
             else current_status > 0 \<and> current_status < local_offset current_internal)
      in Inr (False, fail \<or> violated))"

definition buddy_tree_check_invariant :: "mem \<Rightarrow> u64 \<Rightarrow> buddy_tree_pos \<Rightarrow> bool option" where
  "buddy_tree_check_invariant m t pos =
     map_option (case_sum (\<lambda>_. True) id)
       (tree_do m t (check_body m t pos) (buddy_tree_walk_state_root\<lparr>current_pos := pos\<rparr>) False)"

subsection \<open>The order of the walk\<close>

primrec visit :: "(nat \<Rightarrow> 'r \<Rightarrow> 'x + bool \<times> 'r) \<Rightarrow> nat \<Rightarrow> nat \<Rightarrow> 'r \<Rightarrow> 'x + 'r" where
  "visit B 0 i r = Inr r"
| "visit B (Suc h) i r =
     (case B i r of
        Inl x \<Rightarrow> Inl x
      | Inr (ascend, r) \<Rightarrow>
          if ascend then Inr r
          else case visit B h (2 * i) r of Inl x \<Rightarrow> Inl x | Inr r \<Rightarrow> visit B h (Suc (2 * i)) r)"

text \<open>The node that follows a subtree.\<close>

fun after :: "nat \<Rightarrow> nat option" where
  "after i = (if i \<le> 1 then None else if even i then Some (Suc i) else after (i div 2))"

declare after.simps [simp del]

definition at :: "nat \<Rightarrow> buddy_tree_walk_state" where
  "at i = \<lparr>starting_pos = buddy_tree_root, current_pos = mkpos i, going_up = False, walk_done = False\<rparr>"

lemma after_child [simp]:
  "0 < i \<Longrightarrow> after (2 * i) = Some (Suc (2 * i))" "0 < i \<Longrightarrow> after (Suc (2 * i)) = after i"
  by (simp_all add: after.simps [of "2 * i"] after.simps [of "Suc (2 * i)"])

lemma right_adjacent_pos:
  assumes "node n i" "n \<le> 58" "even i"
  shows "buddy_tree_right_adjacent (mkpos i) = mkpos (Suc i)"
proof -
  have "0 < i" using assms(1) by (simp add: node_def)
  then have b: "blen (Suc i) = blen i" using assms(3) by (auto simp: blen_pos [of "Suc i"] blen_pos [of i])
  have u: "unat (of_nat i :: u64) = i" using unat_node [OF assms(1,2)] .
  obtain k where "i = 2 * k" using assms(3) by blast
  then have "(of_nat i :: u64) + 1 = of_nat i XOR 1" by (simp add: xor_one_eq)
  then have "(of_nat i :: u64) + 1 = 1 XOR of_nat i" by (simp only: xor.commute)
  then have "(of_nat i + 1) XOR (of_nat i :: u64) = 1" by (simp add: xor.assoc)
  moreover have "\<not> 1 > (of_nat i :: u64)" using u \<open>0 < i\<close> by (simp add: word_less_nat_alt)
  ultimately show ?thesis by (simp add: buddy_tree_right_adjacent_def mkpos_def b add.commute)
qed

lemma walk_up:
  assumes "tree_at m t n"
  shows "node n i \<Longrightarrow> (case after i of
      Some j \<Rightarrow> buddy_tree_walk m t ((at i)\<lparr>going_up := True\<rparr>) = (True, at j)
    | None \<Rightarrow> fst (buddy_tree_walk m t ((at i)\<lparr>going_up := True\<rparr>)) = False)"
proof (induction i rule: after.induct)
  case (1 i)
  have n: "n \<le> 58" using assms by (simp add: tree_at_def)
  have u: "unat (of_nat i :: u64) = i" using unat_node [OF 1(2) n] .
  have root: "p_index (mkpos i) = p_index buddy_tree_root \<longleftrightarrow> i = 1"
    using u by (auto simp: mkpos_def buddy_tree_root_def word_unat_eq_iff)
  have i: "0 < i" using 1(2) by (simp add: node_def)
  have odd: "p_index (mkpos i) AND 1 \<noteq> 0 \<longleftrightarrow> odd i" using u by (simp add: mkpos_def and_one_parity)
  have step: "buddy_tree_walk m t ((at i)\<lparr>going_up := True\<rparr>) =
    (let state = walk_step m t ((at i)\<lparr>going_up := True\<rparr>) in if going_up state then buddy_tree_walk m t state else (\<not> walk_done state, state))"
    by (rule buddy_tree_walk.simps)
  consider "i = 1" | "1 < i" "even i" | "1 < i" "odd i" using i by linarith
  then show ?case
  proof cases
    case 1
    have "after i = None" using 1 by (simp add: after.simps)
    then show ?thesis using 1 step root by (simp add: walk_step_def at_def)
  next
    case 2
    then show ?thesis
      using step root odd right_adjacent_pos [OF \<open>node n i\<close> n] by (simp add: after.simps [of i] walk_step_def at_def Let_def)
  next
    case 3
    then have "walk_step m t ((at i)\<lparr>going_up := True\<rparr>) = (at (i div 2))\<lparr>going_up := True\<rparr>"
      using root odd parent_pos [OF \<open>node n i\<close> _ n] by (simp add: walk_step_def at_def)
    then have "buddy_tree_walk m t ((at i)\<lparr>going_up := True\<rparr>) = buddy_tree_walk m t ((at (i div 2))\<lparr>going_up := True\<rparr>)"
      using step by simp
    moreover have "after i = after (i div 2)" using 3 by (simp add: after.simps [of i])
    ultimately show ?thesis using "1.IH" 3 node_parent [OF \<open>node n i\<close>] by (simp split: option.splits)
  qed
qed

lemma walk_down:
  assumes "tree_at m t n" "node n i"
  shows "1 < cap n i \<Longrightarrow> buddy_tree_walk m t (at i) = (True, at (2 * i))"
    "cap n i = 1 \<Longrightarrow> buddy_tree_walk m t (at i) = buddy_tree_walk m t ((at i)\<lparr>going_up := True\<rparr>)"
proof -
  have n: "n \<le> 58" using assms(1) by (simp add: tree_at_def)
  have i: "0 < i" "blen i \<le> n" using assms(2) by (simp_all add: node_def blen_less)
  have v: "buddy_tree_valid m t (buddy_tree_left_child (mkpos i)) \<longleftrightarrow> 1 < cap n i"
    using valid_pos [OF assms(1), of "2 * i"] node_bound [OF assms(2) n] i by (auto simp: child_pos node_blen cap_def)
  show "1 < cap n i \<Longrightarrow> buddy_tree_walk m t (at i) = (True, at (2 * i))"
    using v i by (subst buddy_tree_walk.simps) (simp add: walk_step_def at_def child_pos)
  show "cap n i = 1 \<Longrightarrow> buddy_tree_walk m t (at i) = buddy_tree_walk m t ((at i)\<lparr>going_up := True\<rparr>)"
    using v by (subst buddy_tree_walk.simps) (simp add: walk_step_def at_def)
qed

lemma tree_do_subtree:
  assumes "tree_at m t n"
  shows "node n i \<Longrightarrow> h = cap n i \<Longrightarrow> tree_do m t body (at i) r =
    (case visit (\<lambda>i. body (mkpos i)) h i r of
       Inl x \<Rightarrow> Some (Inl x)
     | Inr r \<Rightarrow> (case after i of None \<Rightarrow> Some (Inr r) | Some j \<Rightarrow> tree_do m t body (at j) r))"
proof (induction h arbitrary: i r)
  case 0
  then show ?case using cap_pos [of n i] by simp
next
  case (Suc h)
  have i: "0 < i" using Suc(2) by (simp add: node_def)
  have cur: "current_pos (at i) = mkpos i" by (simp add: at_def)
  note up = walk_up [OF assms Suc(2)] and down = walk_down [OF assms Suc(2)]
  show ?case
  proof (cases "body (mkpos i) r")
    case (Inl x)
    then show ?thesis by (subst tree_do.simps) (simp add: cur)
  next
    case (Inr p)
    obtain asc r1 where p: "p = (asc, r1)" by (cases p)
    show ?thesis
    proof (cases "asc \<or> h = 0")
      case True
      then have "tree_do m t body (at i) r = (case after i of None \<Rightarrow> Some (Inr r1) | Some j \<Rightarrow> tree_do m t body (at j) r1)"
        using up down(2) Suc(3) Inr p by (subst tree_do.simps) (auto simp: cur Let_def split: option.splits prod.splits)
      then show ?thesis using True Inr p by auto
    next
      case False
      note ch = node_children [OF Suc(2), unfolded Suc(3) [symmetric]]
      have "tree_do m t body (at i) r = tree_do m t body (at (2 * i)) r1"
        using down(1) Suc(3) Inr p False by (subst tree_do.simps) (simp add: cur)
      then show ?thesis
        using False Inr p i ch Suc.IH [of "2 * i" r1] Suc.IH [of "Suc (2 * i)"] by (auto split: sum.splits)
    qed
  qed
qed

lemma tree_do_visit:
  assumes "tree_at m t n"
  shows "tree_do m t body buddy_tree_walk_state_root r = Some (visit (\<lambda>i. body (mkpos i)) n 1 r)"
proof -
  have n: "node n 1" "cap n 1 = n" using assms by (simp_all add: tree_at_def node_blen cap_def)
  have "buddy_tree_walk_state_root = at 1" by (simp add: buddy_tree_walk_state_root_def at_def root_pos)
  then show ?thesis
    using tree_do_subtree [OF assms n(1) n(2) [symmetric], of body r] by (simp add: after.simps split: sum.splits)
qed

text \<open>
  C25: \<^verbatim>\<open>buddy_tree_walk\<close> walks the whole tree in preorder and stops: a loop over it ends for every body, and
  its result is the one of the recursive traversal that goes to the left and then to the right child
  unless the body asks to skip the subtree.
\<close>

theorem tree_walk_preorder:
  assumes "tree_at m t n"
  shows "tree_do m t body buddy_tree_walk_state_root r = Some (visit (\<lambda>i. body (mkpos i)) n 1 r)"
  using assms by (rule tree_do_visit)

subsection \<open>Free memory\<close>

text \<open>The offsets of a block that lie in no allocated block.\<close>

definition unused :: "geometry \<Rightarrow> nat set \<Rightarrow> nat \<Rightarrow> nat set" where
  "unused g A i = {x \<in> block g i. \<forall>a \<in> A. x \<notin> block g a}"

lemma block_children:
  assumes "node (g_order g) i" "1 < cap (g_order g) i"
  shows "block g i = block g (2 * i) \<union> block g (Suc (2 * i))" "block g (2 * i) \<inter> block g (Suc (2 * i)) = {}"
  using child_block [OF assms] by (auto simp: block_def)

lemma card_unused_children:
  assumes "node (g_order g) i" "1 < cap (g_order g) i"
  shows "card (unused g A i) = card (unused g A (2 * i)) + card (unused g A (Suc (2 * i)))"
proof -
  have "unused g A i = unused g A (2 * i) \<union> unused g A (Suc (2 * i))" using block_children [OF assms] by (auto simp: unused_def)
  moreover have "unused g A (2 * i) \<inter> unused g A (Suc (2 * i)) = {}" using block_children [OF assms] by (auto simp: unused_def)
  moreover have "finite (unused g A j)" for j by (simp add: unused_def block_def)
  ultimately show ?thesis by (simp add: card_Un_disjoint)
qed

lemma full_used:
  assumes "geo_ok g" "antichain (g_order g) A"
  shows "node (g_order g) i \<Longrightarrow> h = cap (g_order g) i \<Longrightarrow> spec (g_order g) A i = h \<Longrightarrow> unused g A i = {}"
proof (induction h arbitrary: i)
  case 0
  then show ?case using cap_pos [of "g_order g" i] by simp
next
  case (Suc h)
  show ?case
  proof (cases "i \<in> A")
    case True
    then show ?thesis by (auto simp: unused_def)
  next
    case False
    have "cap (g_order g) i \<noteq> 1" using spec_leaf [of "g_order g" i A] False Suc(3,4) by auto
    then have c: "1 < cap (g_order g) i" using Suc(3) by simp
    note ch = node_children [OF Suc(2) c]
    have "comb (spec (g_order g) A (2 * i)) (spec (g_order g) A (Suc (2 * i))) = Suc h" using spec_local [OF Suc(2) c False] Suc(4) by simp
    then have "spec (g_order g) A (2 * i) = h" "spec (g_order g) A (Suc (2 * i)) = h"
      using spec_le [of "g_order g" A "2 * i"] spec_le [of "g_order g" A "Suc (2 * i)"] ch Suc(3) by (auto simp: comb_def split: if_splits)
    then have "unused g A (2 * i) = {}" "unused g A (Suc (2 * i)) = {}" using Suc.IH ch Suc(3) by simp_all
    moreover have "unused g A i = unused g A (2 * i) \<union> unused g A (Suc (2 * i))" using block_children(1) [OF Suc(2) c] by (auto simp: unused_def)
    ultimately show ?thesis by simp
  qed
qed

lemma status_words:
  assumes "tree_inv m t n A" "node n i"
  shows "buddy_tree_status m t (mkpos i) = of_nat (spec n A i)"
    "buddy_tree_status m t (mkpos i) = ucast (buddy_tree_order m t) - p_depth (mkpos i) + 1 \<longleftrightarrow> spec n A i = cap n i"
    "buddy_tree_status m t (mkpos i) = 0 \<longleftrightarrow> spec n A i = 0"
proof -
  note inv = tree_invD [OF assms(1)]
  have b: "spec n A i \<le> cap n i" "cap n i \<le> n" "0 < blen i" "blen i \<le> n" using spec_le [of n A i] assms(2) by (auto simp: node_blen cap_def)
  show s: "buddy_tree_status m t (mkpos i) = of_nat (spec n A i)" by (rule tree_status [OF assms])
  have u: "unat (of_nat (spec n A i) :: u64) = spec n A i" "unat (of_nat (cap n i) :: u64) = cap n i" using b inv(4) by (simp_all add: unat_of_nat64)
  have o: "(ucast (buddy_tree_order m t) :: u64) = of_nat n"
    using inv(1,4) by (simp add: tree_at_def word_unat_eq_iff unat_ucast_up unat_of_nat)
  have "(of_nat n - of_nat (blen i) + 1 :: u64) = of_nat (cap n i)" using b(3,4) by (simp add: cap_def of_nat_diff Suc_diff_le)
  then show "buddy_tree_status m t (mkpos i) = ucast (buddy_tree_order m t) - p_depth (mkpos i) + 1 \<longleftrightarrow> spec n A i = cap n i"
    unfolding s o using u by (auto simp: mkpos_def word_unat_eq_iff)
  show "buddy_tree_status m t (mkpos i) = 0 \<longleftrightarrow> spec n A i = 0" unfolding s using u(1) by (auto simp: word_unat_eq_iff)
qed

lemma free_size_body_spec:
  assumes "buddy_inv g main m b A" "node (g_order g) i"
  shows "free_size_body m b (mkpos i) r =
    (if spec (g_order g) A i = cap (g_order g) i then Inr (True, r)
     else if spec (g_order g) A i = 0 then Inr (True, r + of_nat (block_size g i))
     else Inr (False, r))"
proof -
  have "size_for_depth m b (p_depth (mkpos i)) = of_nat (block_size g i)"
    using size_for_depth_block(1) [OF assms] by (simp add: mkpos_def)
  then show ?thesis using status_words(2,3) [OF buddy_invD(9) [OF assms(1)] assms(2)] by (simp only: free_size_body_def tree_address Let_def)
qed

lemma free_size_visit:
  assumes "buddy_inv g main m b A"
  shows "node (g_order g) i \<Longrightarrow> h = cap (g_order g) i \<Longrightarrow> \<forall>a \<in> A. subnode a i \<longrightarrow> a = i \<Longrightarrow>
    visit (\<lambda>i. free_size_body m b (mkpos i)) h i r = Inr (r + of_nat (card (unused g A i)))"
proof (induction h arbitrary: i r)
  case 0
  then show ?case using cap_pos [of "g_order g" i] by simp
next
  case (Suc h)
  note inv = buddy_invD [OF assms] and st = free_size_body_spec [OF assms Suc(2)]
  have i: "0 < i" using Suc(2) by (simp add: node_def)
  consider "spec (g_order g) A i = cap (g_order g) i" | "spec (g_order g) A i = 0" "spec (g_order g) A i \<noteq> cap (g_order g) i"
    | "spec (g_order g) A i \<noteq> cap (g_order g) i" "spec (g_order g) A i \<noteq> 0" by blast
  then show ?case
  proof cases
    case 1
    then show ?thesis
      using full_used [OF inv(1,11) Suc(2,3) _] Suc(3) [symmetric] st by simp
  next
    case 2
    then have "free_node (g_order g) A i" using spec_0_iff [OF Suc(2) inv(11)] Suc(2,4) by (auto simp: free_node_def)
    then have "unused g A i = block g i" using block_free [OF inv(1) Suc(2) inv(11)] by (auto simp: unused_def)
    moreover have "card (block g i) = block_size g i" by (simp add: block_def)
    ultimately show ?thesis using 2 st by simp
  next
    case 3
    then have notin: "i \<notin> A" using spec_in [OF Suc(2)] by blast
    then have "cap (g_order g) i \<noteq> 1" using spec_leaf [of "g_order g" i A] 3(2) by blast
    then have c: "1 < cap (g_order g) i" using Suc(3) by simp
    note ch = node_children [OF Suc(2) c]
    have above: "\<forall>a \<in> A. subnode a j \<longrightarrow> a = j" if "j div 2 = i" "1 < j" for j
    proof (intro ballI impI, rule ccontr)
      fix a assume a: "a \<in> A" "subnode a j" "a \<noteq> j"
      have "0 < a" using a(1) inv(11) by (auto simp: antichain_def node_def)
      then have "subnode a i" using subnode_child [OF _ a(2,3)] that(1) by simp
      then show False using Suc(4) a(1) notin by auto
    qed
    have h: "h = cap (g_order g) (2 * i)" "h = cap (g_order g) (Suc (2 * i))" using ch(3,4) Suc(3) by simp_all
    show ?thesis
      using 3 st Suc.IH [OF ch(1) h(1) above] Suc.IH [OF ch(2) h(2) above] i card_unused_children [OF Suc(2) c, of A]
      by (simp add: add.assoc)
  qed
qed

text \<open>
  C26: \<^verbatim>\<open>buddy_arena_free_size\<close> returns the number of bytes of the arena that lie in no allocated block.
\<close>

theorem arena_free_size_correct:
  assumes "buddy_inv g main m b A"
  shows "\<exists>r. buddy_arena_free_size m b = Some r \<and> unat r = card {x. x < g_size g \<and> (\<forall>a \<in> A. x \<notin> block g a)}"
proof -
  note inv = buddy_invD [OF assms] and f = geo_facts [OF buddy_invD(1) [OF assms]]
  have n: "node (g_order g) 1" "cap (g_order g) 1 = g_order g" using f(3) by (simp_all add: node_blen cap_def)
  have "\<forall>a \<in> A. subnode a 1 \<longrightarrow> a = 1"
  proof (intro ballI impI, rule ccontr)
    fix a assume a: "a \<in> A" "subnode a 1" "a \<noteq> 1"
    have "0 < a" using a(1) inv(11) by (auto simp: antichain_def node_def)
    then have "0 < blen a" by (simp add: blen_gt_0)
    then show False using subnode_less [OF a(2,3)] by simp
  qed
  then have "visit (\<lambda>i. free_size_body m b (mkpos i)) (g_order g) 1 0 = Inr (0 + of_nat (card (unused g A 1)))"
    by (rule free_size_visit [OF assms n(1) n(2) [symmetric]])
  then have r: "buddy_arena_free_size m b = Some (of_nat (card (unused g A 1)))"
    using tree_do_visit [OF tree_invD(1) [OF inv(9)], of "free_size_body m b" 0] by (simp add: buddy_arena_free_size_def tree_address)
  have "block g 1 = {0..<whole g}" using n(2) by (simp add: block_def boff_def block_size_def whole_def)
  then have e: "unused g A 1 = {x. x < g_size g \<and> (\<forall>a \<in> A. x \<notin> block g a)}"
    using inv(10) f(5) by (fastforce simp: unused_def covered_def not_le [symmetric])
  have "unused g A 1 \<subseteq> {0..<whole g}" using \<open>block g 1 = {0..<whole g}\<close> by (auto simp: unused_def)
  then have "card (unused g A 1) \<le> whole g" using card_mono [of "{0..<whole g}" "unused g A 1"] by simp
  then have "unat (of_nat (card (unused g A 1)) :: u64) = card (unused g A 1)" using f(7) by (intro unat_of_nat64) linarith
  then show ?thesis using r e by simp
qed

subsection \<open>Fragmentation\<close>

lemma root_of_square:
  assumes "unat v < 4294967296"
  shows "integer_square_root (v * v) = v"
proof -
  have "unat v * unat v < 4294967296 * 4294967296" using assms by (intro mult_strict_mono) auto
  then have sq: "unat (v * v) = unat v * unat v" by (simp add: unat_word_ariths)
  let ?r = "unat (integer_square_root (v * v))"
  have r: "?r * ?r \<le> unat v * unat v" "unat v * unat v < Suc ?r * Suc ?r"
    using integer_square_root_floor [of "v * v"] sq by (simp_all add: power2_eq_square)
  have "?r \<le> unat v" using r(1) by (metis not_le mult_strict_mono' le0)
  moreover have "unat v < Suc ?r" using r(2) by (metis not_less mult_le_mono)
  ultimately show ?thesis by (simp add: word_unat_eq_iff)
qed

lemma one_free_block:
  assumes "v \<noteq> 0" "unat v < 4294967296"
  shows "fragmentation_value (v * v) v = 255"
proof -
  have "unat (push_bit 8 v) = 256 * unat v" using assms(2) by (simp add: push_bit_eq_mult unat_word_ariths)
  then have "unat (push_bit 8 v div v) = 256" using assms(1) by (simp add: unat_div_distrib unat_eq_0)
  then have q: "push_bit 8 v div v = 256" by (simp add: word_unat_eq_iff)
  have "drop_bit 8 (256 * 256 :: u64) AND 255 = 0" by simp
  then show ?thesis using assms(1) q by (simp add: fragmentation_value_def root_of_square [OF assms(2)])
qed

lemma fragmentation_body_spec:
  assumes "tree_inv m t n A" "node n i"
  shows "fragmentation_body m t (mkpos i) (q, f) =
    (let v = of_nat (2 ^ (cap n i - 1))
     in if spec n A i = 0 then Inr (True, (q + v * v, f + v))
        else if spec n A i = cap n i then Inr (True, (q, f))
        else Inr (False, (q, f)))"
proof -
  note inv = tree_invD [OF assms(1)]
  have b: "0 < blen i" "blen i \<le> n" using assms(2) by (simp_all add: node_blen)
  have o: "(ucast (buddy_tree_order m t) :: u64) = of_nat n"
    using inv(1,4) by (simp add: tree_at_def word_unat_eq_iff unat_ucast_up unat_of_nat)
  have "unat (of_nat n - of_nat (blen i) :: u64) = cap n i - 1"
    using b inv(4) unat_of_nat64 [of "n - blen i"] by (simp add: cap_def flip: of_nat_diff)
  then have u: "unat ((of_nat n - of_nat (blen i)) mod 63 :: u64) = cap n i - 1" using b inv(4) by (simp add: unat_mod_distrib cap_def)
  have "unat (two_to_the_power_of ((of_nat n - of_nat (blen i)) mod 63)) = 2 ^ (cap n i - 1)"
    using unat_two_to_the_power_of [of "(of_nat n - of_nat (blen i)) mod 63"] u b inv(4) by (simp add: cap_def)
  then have "two_to_the_power_of ((ucast (buddy_tree_order m t) - p_depth (mkpos i)) mod 63) = of_nat (2 ^ (cap n i - 1))"
    unfolding o by (metis (no_types) mkpos_def buddy_tree_pos.select_convs(2) u64_of_nat_unat)
  then show ?thesis using status_words(2,3) [OF assms] by (simp only: fragmentation_body_def Let_def prod.case)
qed

lemma half_used_spec:
  assumes "2 \<le> n"
  shows "antichain n {2}" "spec n {2} 2 = n - 1" "spec n {2} 3 = 0" "spec n {2} 1 = 1"
proof -
  have b: "blen 2 = 2" "blen 3 = 2" "blen 1 = 1" using blen_pow2 [of 1] by (simp_all add: blen_pos [of 3] blen_pos [of 1])
  have n: "node n 1" "node n 2" "node n 3" using assms b by (simp_all add: node_blen)
  show a: "antichain n {2}" using n(2) by (simp add: antichain_def)
  show "spec n {2} 2 = n - 1" using spec_in [OF n(2), of "{2}"] b assms by (simp add: cap_def Suc_diff_le)
  show s3: "spec n {2} 3 = 0" using spec_0_iff [OF n(3) a] by (simp add: subnode_def b)
  have c: "1 < cap n 1" using assms b by (simp add: cap_def)
  have "spec n {2} 1 = comb (spec n {2} 2) (spec n {2} 3)" using spec_local [OF n(1) c] by simp
  then show "spec n {2} 1 = 1" using s3 spec_in [OF n(2), of "{2}"] b assms by (simp add: comb_def cap_def)
qed

text \<open>
  A tree whose left half is allocated as one block, so that its free memory is one block, reports
  a fragmentation of 255, the maximum of its range: the quality of 256 is masked to 0.
\<close>

theorem half_used_fragmentation:
  assumes "tree_inv m t n {2}" "2 \<le> n" "n \<le> 33"
  shows "buddy_tree_fragmentation m t = Some 255"
proof -
  note inv = tree_invD [OF assms(1)] and sp = half_used_spec [OF assms(2)]
  have b: "blen 2 = 2" "blen 3 = 2" "blen 1 = 1" using blen_pow2 [of 1] by (simp_all add: blen_pos [of 3] blen_pos [of 1])
  have nd: "node n 1" "node n 2" "node n 3" using assms(2) b by (simp_all add: node_blen)
  have c: "cap n 1 = n" "cap n 2 = n - 1" "cap n 3 = n - 1" using b assms(2) by (simp_all add: cap_def Suc_diff_le)
  let ?v = "of_nat (2 ^ (n - 2)) :: u64" and ?B = "\<lambda>i. fragmentation_body m t (mkpos i)"
  note fb = fragmentation_body_spec [OF assms(1), of _ 0 0]
  have n2: "n - 1 - 1 = n - 2" "n - 1 \<noteq> 0" "1 \<noteq> n" using assms(2) by simp_all
  have b1: "?B 1 (0, 0) = Inr (False, (0, 0))" unfolding fb [OF nd(1)] sp(4) c(1) Let_def using n2(3) by (simp only: if_False one_neq_zero)
  have b2: "?B 2 (0, 0) = Inr (True, (0, 0))" unfolding fb [OF nd(2)] sp(2) c(2) Let_def using n2(2) by (simp only: if_False if_True simp_thms)
  have b3: "?B 3 (0, 0) = Inr (True, (?v * ?v, ?v))" unfolding fb [OF nd(3)] sp(3) c(3) Let_def n2(1) by (simp only: if_True add_0_left simp_thms)
  note body = b1 b2 b3
  obtain h where "n = 2 + h" using le_Suc_ex [OF assms(2)] by blast
  then have h: "n = Suc (Suc h)" by simp
  have e: "2 * 1 = (2 :: nat)" "Suc 2 = (3 :: nat)" by simp_all
  have "visit ?B (Suc (Suc h)) 1 (0, 0) = Inr (?v * ?v, ?v)" by (simp only: visit.simps body e sum.case prod.case if_True if_False)
  then have "visit ?B n 1 (0, 0) = Inr (?v * ?v, ?v)" by (simp only: h [symmetric])
  moreover have "buddy_tree_status m t buddy_tree_root \<noteq> 0" using status_words(3) [OF assms(1) nd(1)] sp(4) by (simp add: root_pos)
  ultimately have r: "buddy_tree_fragmentation m t = Some (fragmentation_value (?v * ?v) ?v)"
    using tree_do_visit [OF inv(1), of "fragmentation_body m t" "(0, 0)"] by (simp add: buddy_tree_fragmentation_def)
  have le: "(2 :: nat) ^ (n - 2) \<le> 2 ^ 31" using assms(3) by (intro power_increasing) simp_all
  then have "unat ?v = 2 ^ (n - 2)" by (intro unat_of_nat64) simp
  then have "?v \<noteq> 0" "unat ?v < 4294967296" using le by (auto simp: word_unat_eq_iff)
  then show ?thesis using r one_free_block by simp
qed

text \<open>An empty arena of 3904 bytes.\<close>

theorem arena_free_size_correct_witness:
  "\<exists>m A r. buddy_inv geo_page 0x10000 m 0x10F58 A \<and> buddy_arena_free_size m 0x10F58 = Some r \<and> unat r = 3904"
proof -
  obtain m A where A: "buddy_inv geo_page 0x10000 m 0x10F58 A" "\<forall>a \<in> A. 3904 \<le> boff geo_page a" using page_machine by blast
  have "{x. x < g_size geo_page \<and> (\<forall>a \<in> A. x \<notin> block geo_page a)} = {0..<3904}" using A(2) by (fastforce simp: geo_page_def block_def)
  then show ?thesis using arena_free_size_correct [OF A(1)] A(1) by auto
qed

theorem tree_walk_preorder_witness:
  "\<exists>m. tree_at m 0x10F78 7 \<and>
     tree_do m 0x10F78 (\<lambda>pos visited. Inr (p_depth pos \<ge> 3, visited @ [p_index pos])) buddy_tree_walk_state_root [] =
       Some (Inr [1, 2, 4, 5, 3, 6, 7] :: unit + u64 list)"
proof -
  obtain m A where "buddy_inv geo_page 0x10000 m 0x10F58 A" using page_machine by blast
  then have t: "tree_at m 0x10F78 7" using buddy_invD(9) tree_invD(1) by (fastforce simp: geo_page_def)
  have "visit (\<lambda>i visited. Inr (p_depth (mkpos i) \<ge> 3, visited @ [p_index (mkpos i)])) 7 1 [] = (Inr [1, 2, 4, 5, 3, 6, 7] :: unit + u64 list)"
    by code_simp
  moreover have "tree_do m 0x10F78 (\<lambda>pos visited. Inr (p_depth pos \<ge> 3, visited @ [p_index pos])) buddy_tree_walk_state_root [] =
      Some (visit (\<lambda>i visited. Inr (p_depth (mkpos i) \<ge> 3, visited @ [p_index (mkpos i)])) 7 1 [] :: unit + u64 list)"
    by (rule tree_walk_preorder [OF t])
  ultimately show ?thesis using t by (intro exI [of _ m]) (simp only: simp_thms)
qed

theorem half_used_fragmentation_witness:
  "\<exists>m. tree_inv m 0x1000 4 {2} \<and> buddy_tree_fragmentation m 0x1000 = Some 255"
proof -
  have "tree_inv (buddy_tree_init (\<lambda>_. 0) 0x1000 4) 0x1000 4 {}"
    using buddy_tree_init_inv(1) [of 4 "0x1000" "\<lambda>_. 0"] by simp
  moreover have "free_node 4 {} 2" by (simp add: free_node_def node_def)
  ultimately obtain m where "tree_inv m 0x1000 4 (insert 2 {})" using tree_mark by blast
  then show ?thesis using half_used_fragmentation [of m "0x1000" 4] by auto
qed

end
