(* ===== verification/Buddy_Resize.thy ===== *)
theory Buddy_Resize
  imports Buddy_Walk
begin

text \<open>
  Resizing in \<^verbatim>\<open>buddy_alloc.h\<close>: the tree grows or shrinks one order at a time by moving the bits of its
  rows.  Shrinking is shown to lose allocations.
\<close>

subsection \<open>Growing\<close>

definition grow_row :: "mem \<Rightarrow> u64 \<Rightarrow> u64 \<Rightarrow> buddy_tree_pos \<Rightarrow> buddy_tree_pos \<Rightarrow> mem" where
  "grow_row m t current_order cur_pos next_pos =
     (let order = ucast (buddy_tree_order m t);
          current_internal = buddy_tree_internal_position_order order cur_pos;
          next_internal = buddy_tree_internal_position_order (order + 1) next_pos;
          node_count = two_to_the_power_of (current_order - 1);
          m = bitset_shift_right m (buddy_tree_bits t) (bitset_location current_internal)
                (bitset_location current_internal + local_offset current_internal * node_count)
                (bitset_location next_internal - bitset_location current_internal)
      in bitset_clear_range m (buddy_tree_bits t)
           (mk_bitset_range (bitset_location next_internal + local_offset next_internal * node_count)
              (bitset_location next_internal + local_offset next_internal * node_count * 2 - 1)))"

function grow_rows :: "mem \<Rightarrow> u64 \<Rightarrow> u64 \<Rightarrow> buddy_tree_pos \<Rightarrow> buddy_tree_pos \<Rightarrow> mem" where
  "grow_rows m t current_order cur_pos next_pos =
     (if current_order \<noteq> 0
      then grow_rows (grow_row m t current_order cur_pos next_pos) t (current_order - 1)
             (buddy_tree_parent cur_pos) (buddy_tree_parent next_pos)
      else m)"
  by pat_completeness auto
termination
  by (relation "measure (\<lambda>(m, t, current_order, cur_pos, next_pos). unat current_order)") (auto intro: measure_unat)

declare grow_rows.simps [simp del]

text \<open>The end of an iteration: the new order, its bound and the table of orders.\<close>

definition set_order :: "mem \<Rightarrow> u64 \<Rightarrow> u8 \<Rightarrow> mem" where
  "set_order m t order =
     (let m = m(t + 16 := order);
          m = store64 m t (two_to_the_power_of (ucast (buddy_tree_order m t)))
      in buddy_tree_populate_size_for_order m t)"

partial_function (option) buddy_tree_grow :: "u64 \<Rightarrow> u8 \<Rightarrow> mem \<Rightarrow> mem option" where
  "buddy_tree_grow t desired_order m =
     (if desired_order > buddy_tree_order m t
      then let current_order = ucast (buddy_tree_order m t);
               m = grow_rows m t current_order (buddy_tree_leftmost_child_internal current_order)
                     (buddy_tree_leftmost_child_internal (current_order + 1));
               m = set_order m t (buddy_tree_order m t + 1);
               pos = buddy_tree_right_child buddy_tree_root
           in do {
             m \<leftarrow> update_parent_chain t m pos (buddy_tree_internal_position_tree m t pos) 0;
             buddy_tree_grow t desired_order m
           }
      else Some m)"

subsection \<open>Shrinking\<close>

definition shrink_row :: "mem \<Rightarrow> u64 \<Rightarrow> u64 \<Rightarrow> u64 \<Rightarrow> buddy_tree_pos \<Rightarrow> mem" where
  "shrink_row m t current_order next_order left_start =
     (let current_internal = buddy_tree_internal_position_order current_order left_start;
          next_internal = buddy_tree_internal_position_order next_order (buddy_tree_parent left_start);
          node_count = two_to_the_power_of (p_depth left_start - 1)
      in bitset_shift_left m (buddy_tree_bits t) (bitset_location current_internal)
           (bitset_location current_internal + local_offset current_internal * node_count div 2)
           (bitset_location current_internal - bitset_location next_internal))"

partial_function (option) shrink_rows :: "u64 \<Rightarrow> u64 \<Rightarrow> u64 \<Rightarrow> mem \<Rightarrow> buddy_tree_pos \<Rightarrow> mem option" where
  "shrink_rows t current_order next_order m left_start =
     (if buddy_tree_valid m t left_start
      then shrink_rows t current_order next_order (shrink_row m t current_order next_order left_start) (buddy_tree_left_child left_start)
      else Some m)"

partial_function (option) buddy_tree_shrink :: "u64 \<Rightarrow> u8 \<Rightarrow> mem \<Rightarrow> mem option" where
  "buddy_tree_shrink t desired_order m =
     (if desired_order < buddy_tree_order m t
      then if \<not> buddy_tree_can_shrink m t then Some m
           else let current_order = ucast (buddy_tree_order m t); next_order = current_order - 1
                in do {
                  m \<leftarrow> shrink_rows t current_order next_order m (buddy_tree_left_child buddy_tree_root);
                  buddy_tree_shrink t desired_order (set_order m t (ucast next_order))
                }
      else Some m)"

definition buddy_tree_resize :: "mem \<Rightarrow> u64 \<Rightarrow> u8 \<Rightarrow> mem option" where
  "buddy_tree_resize m t desired_order =
     (if buddy_tree_order m t = desired_order then Some m
      else if buddy_tree_order m t < desired_order then buddy_tree_grow t desired_order m
      else buddy_tree_shrink t desired_order m)"

subsection \<open>The allocator\<close>

definition buddy_resize_standard :: "mem \<Rightarrow> u64 \<Rightarrow> u64 \<Rightarrow> (u64 \<times> mem) option" where
  "buddy_resize_standard m buddy new_memory_size =
     (let new_memory_size =
            (if new_memory_size mod buddy_alignment m buddy \<noteq> 0
             then new_memory_size - new_memory_size mod buddy_alignment m buddy else new_memory_size)
      in do {
        unused_above \<leftarrow> buddy_is_free m buddy new_memory_size;
        if \<not> unused_above then Some (0, m)
        else do {
          m \<leftarrow> buddy_toggle_virtual_slots m buddy False;
          m \<leftarrow> buddy_tree_resize m (buddy_tree buddy) (ucast (buddy_tree_order_for_memory new_memory_size (buddy_alignment m buddy)));
          m \<leftarrow> buddy_toggle_virtual_slots (store64 m buddy new_memory_size) buddy True;
          Some (buddy, m)
        }
      })"

definition buddy_resize_embedded :: "mem \<Rightarrow> u64 \<Rightarrow> u64 \<Rightarrow> (u64 \<times> mem) option" where
  "buddy_resize_embedded m buddy new_memory_size =
     (let check_result = buddy_embed_offset new_memory_size (buddy_alignment m buddy)
      in if \<not> can_fit check_result then Some (0, m)
         else do {
           (resized, m) \<leftarrow> buddy_resize_standard m buddy (embed_offset check_result);
           if resized = 0 then Some (0, m)
           else let main = buddy_main m buddy;
                    buddy_destination = buddy_main m buddy + embed_offset check_result
                in do {
                  (m, _) \<leftarrow> memmove m buddy_destination resized (embed_buddy_size check_result);
                  Some (buddy_destination, store64 m (buddy_destination + 16) (buddy_destination - main))
                }
         })"

definition buddy_resize :: "mem \<Rightarrow> u64 \<Rightarrow> u64 \<Rightarrow> (u64 \<times> mem) option" where
  "buddy_resize m buddy new_memory_size =
     (if new_memory_size = buddy_memory_size m buddy then Some (buddy, m)
      else if buddy_relative_mode m buddy then buddy_resize_embedded m buddy new_memory_size
      else buddy_resize_standard m buddy new_memory_size)"

subsection \<open>Lost allocations\<close>

text \<open>
  The last step of \<^verbatim>\<open>bitset_shift_left\<close> clears a range at the start of the bit set, whatever was moved there.
\<close>

lemma shift_left_clears:
  assumes "len = to_pos - from_pos" "len \<le> i" "i \<le> len + by - 1" "len \<le> len + by - 1"
  shows "\<not> bitset_test (bitset_shift_left m b from_pos to_pos by) b i"
  using assms bit_fill_bits [of "unat len" "unat (len + by - 1)" "unat i" b False] unat_lt64 [of i]
  by (simp add: bitset_shift_left_def Let_def range_fill bitset_test_at word_le_nat_alt)

text \<open>
  Shrinking from order 3 to order 2 moves the statuses of the two left leaves to the bits 2 and 3 and
  then clears the bits 2 to 6: no leaf of the new tree is allocated, whatever was allocated before.
\<close>

lemma shrink_erases_leaves:
  assumes "pos = mkpos 4" "i = 2 \<or> i = 3"
  shows "\<not> bitset_test (shrink_row m t 3 2 pos) (buddy_tree_bits t) i"
proof -
  have b: "blen 4 = 3" using blen_pow2 [of 2] by simp
  have "pos = \<lparr>p_index = 4, p_depth = 3\<rparr>" by (simp add: assms(1) mkpos_def b)
  moreover have "buddy_tree_internal_position_order 3 \<lparr>p_index = 4, p_depth = 3\<rparr> = \<lparr>local_offset = 1, bitset_location = 7\<rparr>" by code_simp
  moreover have "buddy_tree_internal_position_order 2 (buddy_tree_parent \<lparr>p_index = 4, p_depth = 3\<rparr>) = \<lparr>local_offset = 1, bitset_location = 2\<rparr>"
    by code_simp
  moreover have "two_to_the_power_of (3 - 1) = 4" by code_simp
  ultimately have "shrink_row m t 3 2 pos = bitset_shift_left m (buddy_tree_bits t) 7 9 5" by (simp add: shrink_row_def Let_def)
  then show ?thesis using shift_left_clears [of 2 9 7 i 5 m "buddy_tree_bits t"] assms(2) by auto
qed

end
