(* ===== verification/Buddy_Realloc.thy ===== *)
theory Buddy_Realloc
  imports Buddy_Alloc
begin

text \<open>
  The operations of \<^verbatim>\<open>buddy_alloc.h\<close> that also write to the blocks: \<^verbatim>\<open>buddy_calloc\<close> and \<^verbatim>\<open>buddy_realloc\<close>; and the
  checked release \<^verbatim>\<open>buddy_safe_free\<close>.
\<close>

subsection \<open>Writes to the arena\<close>

lemma arena_write:
  assumes "buddy_inv g main m b A" "\<And>x. g_size g \<le> unat (x - main) \<Longrightarrow> m' x = m x"
  shows "buddy_inv g main m' b A"
proof -
  note inv = buddy_invD [OF assms(1)]
  have meta: "m' x = m x" if "unat (x - b) < meta_bytes g" for x
    using inv(8) that by (intro assms(2)) (auto simp: separate_def not_less [symmetric])
  have nat: "m' (b + of_nat k) = m (b + of_nat k)" if "k < 32" for k
    using that by (intro meta) (simp add: unat_of_nat64 meta_bytes_def)
  have load: "load64 m' (b + of_nat k) = load64 m (b + of_nat k)" if "k + 8 \<le> 32" for k
    using that nat by (intro load64_cong) (simp add: add.assoc flip: of_nat_add)
  have "tree_inv m' (b + 32) (g_order g) A"
  proof (rule tree_inv_cong [OF inv(9)])
    fix x assume x: "unat (x - (b + 32)) < tree_bytes (g_order g)"
    have "x - b = (x - (b + 32)) + 32" by simp
    then have "unat (x - b) \<le> unat (x - (b + 32)) + 32" using unat_word_ariths(1) [of "x - (b + 32)" 32] by simp
    then show "m' x = m x" using x by (intro meta) (simp add: meta_bytes_def)
  qed
  moreover have "buddy_memory_size m' b = buddy_memory_size m b" "buddy_alignment m' b = buddy_alignment m b" "buddy_main m' b = buddy_main m b"
    using load [of 0] load [of 8] load [of 16] load [of 24]
    by (simp_all add: buddy_memory_size_def buddy_alignment_def buddy_main_def buddy_relative_mode_def buddy_flags_def buddy_arena_def)
  ultimately show ?thesis using assms(1) by (simp add: buddy_inv_def)
qed

text \<open>Addresses of a block of the arena.\<close>

definition in_block :: "geometry \<Rightarrow> u64 \<Rightarrow> nat \<Rightarrow> u64 \<Rightarrow> bool" where
  "in_block g main j x \<longleftrightarrow> unat (x - (main + of_nat (boff g j))) < block_size g j"

lemma in_block_arena:
  assumes "buddy_inv g main m b A" "boff g j + block_size g j \<le> g_size g" "in_block g main j x"
  shows "unat (x - main) < g_size g" "meta_bytes g \<le> unat (x - b)" "unat (x - main) \<in> block g j"
proof -
  note inv = buddy_invD [OF assms(1)]
  have o: "unat (of_nat (boff g j) :: u64) = boff g j" using assms(2) inv(4) by (intro unat_of_nat64) linarith
  let ?d = "x - (main + of_nat (boff g j))"
  have x: "x - main = ?d + of_nat (boff g j)" by simp
  have "unat ?d + boff g j < 18446744073709551616" using assms(2,3) inv(4) by (simp add: in_block_def)
  then have u: "unat (x - main) = unat ?d + boff g j" using unat_add64 [of ?d "of_nat (boff g j)"] o unfolding x by simp
  show "unat (x - main) < g_size g" "unat (x - main) \<in> block g j" using u assms(2,3) by (auto simp: in_block_def block_def)
  then show "meta_bytes g \<le> unat (x - b)" using inv(8) by (simp add: separate_def)
qed

lemma in_block_offset:
  assumes "buddy_inv g main m b A" "boff g j + block_size g j \<le> g_size g" "i < block_size g j"
  shows "in_block g main j (main + of_nat (boff g j) + of_nat i)" "unat (of_nat i :: u64) = i"
proof -
  show u: "unat (of_nat i :: u64) = i" using assms(2,3) buddy_invD(4) [OF assms(1)] by (intro unat_of_nat64) linarith
  show "in_block g main j (main + of_nat (boff g j) + of_nat i)" using assms(3) u by (simp add: in_block_def)
qed

text \<open>Blocks of at least eight bytes start at a multiple of eight.\<close>

lemma block_word_aligned:
  assumes "geo_ok g" "8 \<le> block_size g j"
  shows "8 dvd boff g j"
proof -
  obtain k where k: "g_align g = 2 ^ k" using assms(1) by (auto simp: geo_ok_def)
  define l where "l = k + (cap (g_order g) j - 1)"
  have b: "block_size g j = 2 ^ l" by (simp add: block_size_def k l_def power_add)
  have "3 \<le> l"
  proof (rule ccontr)
    assume "\<not> 3 \<le> l"
    then have "(2 :: nat) ^ l \<le> 2 ^ 2" by (intro power_increasing) simp_all
    then show False using assms(2) b by simp
  qed
  then have "(2 :: nat) ^ 3 dvd 2 ^ l" by (rule le_imp_power_dvd)
  then show ?thesis by (simp add: boff_def b)
qed

text \<open>What an operation may change besides the data of the allocator: the block it returns.\<close>

definition block_frame :: "geometry \<Rightarrow> u64 \<Rightarrow> u64 \<Rightarrow> nat \<Rightarrow> mem \<Rightarrow> mem \<Rightarrow> bool" where
  "block_frame g main b j m m' \<longleftrightarrow> (\<forall>x. meta_bytes g \<le> unat (x - b) \<and> \<not> in_block g main j x \<longrightarrow> m' x = m x)"

subsection \<open>Cleared blocks\<close>

lemma mul_overflow:
  assumes "n \<noteq> (0 :: u64)"
  shows "n * s div n \<noteq> s \<longleftrightarrow> 18446744073709551616 \<le> unat n * unat s"
proof -
  have n: "0 < unat n" using assms by (simp add: unat_gt_0)
  have q: "unat (n * s div n) = unat n * unat s mod 18446744073709551616 div unat n" by (simp add: unat_div_distrib unat_word_ariths)
  show ?thesis
  proof (cases "unat n * unat s < 18446744073709551616")
    case True
    then show ?thesis using q n by (simp add: word_unat_eq_iff)
  next
    case False
    have "unat n * unat s mod 18446744073709551616 < unat s * unat n" using False by (simp add: mult.commute less_le_trans [OF mod_less_divisor])
    then have "unat n * unat s mod 18446744073709551616 div unat n < unat s" by (rule less_mult_imp_div_less)
    then show ?thesis using q False by (auto simp: word_unat_eq_iff)
  qed
qed

lemma calloc_serves:
  assumes "buddy_inv g main m b A" "r = (if n = 0 \<or> s = 0 then 1 else unat n * unat s)"
  shows "if \<exists>j. serves g A r j
    then \<exists>j m'. buddy_calloc m b n s = Some (main + of_nat (boff g j), m') \<and> serves g A r j \<and> buddy_inv g main m' b (insert j A) \<and>
      (\<forall>i < r. m' (main + of_nat (boff g j) + of_nat i) = 0) \<and> block_frame g main b j m m'
    else buddy_calloc m b n s = Some (0, m)"
proof -
  note inv = buddy_invD [OF assms(1)]
  define n' s' where "n' = (if n = 0 \<or> s = 0 then 1 else n)" and "s' = (if n = 0 \<or> s = 0 then 1 else s)"
  have r: "r = unat n' * unat s'" "n' \<noteq> 0" "0 < r" using assms(2) by (auto simp: n'_def s'_def unat_gt_0)
  have calloc: "buddy_calloc m b n s = (if n' * s' div n' \<noteq> s' then Some (0, m)
     else do { (result, m) \<leftarrow> buddy_malloc m b (n' * s'); Some (result, if result \<noteq> 0 then fst (memset m result 0 (n' * s')) else m) })"
    unfolding buddy_calloc_def n'_def s'_def by (cases "n = 0 \<or> s = 0") (simp_all add: Let_def cong: if_cong)
  show ?thesis
  proof (cases "18446744073709551616 \<le> r")
    case True
    then have "\<not> serves g A r j" for j using inv(4) by (auto simp: serves_def)
    then show ?thesis using calloc mul_overflow [OF r(2), of s'] r(1) True by simp
  next
    case False
    then have u: "unat (n' * s') = r" using r(1) by (simp add: unat_word_ariths)
    then have m1: "r = max 1 (unat (n' * s'))" using r(3) by simp
    have c: "buddy_calloc m b n s = do { (result, m) \<leftarrow> buddy_malloc m b (n' * s'); Some (result, if result \<noteq> 0 then fst (memset m result 0 (n' * s')) else m) }"
      using calloc mul_overflow [OF r(2), of s'] r(1) False by simp
    show ?thesis
    proof (cases "\<exists>j. serves g A r j")
      case False
      then show ?thesis using malloc_serves [OF assms(1) m1] c by simp
    next
      case True
      then obtain j m1 where j: "buddy_malloc m b (n' * s') = Some (main + of_nat (boff g j), m1)" "serves g A r j"
        "buddy_inv g main m1 b (insert j A)" "meta_frame g b m m1"
        using malloc_serves [OF assms(1) m1] by auto
      let ?p = "main + of_nat (boff g j) :: u64"
      have js: "boff g j + block_size g j \<le> g_size g" "r \<le> block_size g j" using j(2) by (simp_all add: serves_def)
      have p: "?p \<noteq> 0" "unat ?p = unat main + boff g j" using arena_offset_iff(2,3) [OF assms(1) serves_arena(1) [OF inv(1) j(2)]] .
      have al: "unat ?p mod 8 = 0" if "8 \<le> r"
        using block_word_aligned [OF inv(1), of j] js(2) that p(2) inv(12) by (auto simp: dvd_eq_mod_eq_0 mod_add_eq [symmetric])
      have "unat (n' * s') < 18446744073709551609" using u js inv(4) geo_facts(5,7) [OF inv(1)] by linarith
      then have ms: "fst (memset m1 ?p 0 (n' * s')) = fill_bytes m1 ?p 0 r"
        using memset_fill [of "n' * s'" m1 ?p 0] al u by (auto simp: word_le_nat_alt)
      let ?m = "fill_bytes m1 ?p 0 r"
      have i': "buddy_inv g main ?m b (insert j A)"
      proof (rule arena_write [OF j(3)])
        fix x assume "g_size g \<le> unat (x - main)"
        then have "\<not> in_block g main j x" using in_block_arena(1) [OF assms(1) js(1)] not_le by blast
        then show "?m x = m1 x" using js(2) by (auto simp: fill_bytes_def in_block_def)
      qed
      have "?m (?p + of_nat i) = 0" if "i < r" for i
        using that in_block_offset(2) [OF assms(1) js(1), of i] js(2) by (simp add: fill_bytes_def)
      moreover have "block_frame g main b j m ?m"
        using j(4) js(2) by (auto simp: block_frame_def meta_frame_def fill_bytes_def in_block_def)
      ultimately show ?thesis using True c j(1,2) p(1) ms i' by auto
    qed
  qed
qed

text \<open>
  C19: \<^verbatim>\<open>buddy_calloc\<close> of \<open>n\<close> members of \<open>s\<close> bytes returns a block that serves the product, with the product
  taken without wrap-around, and clears it; it returns null, and changes nothing, exactly if no
  block serves it.  Nothing but the allocator's data and the block is written.
\<close>

theorem buddy_calloc_correct:
  assumes "buddy_inv g main m b A" "r = (if n = 0 \<or> s = 0 then 1 else unat n * unat s)"
  shows "if \<exists>j. serves g A r j
    then \<exists>j m'. buddy_calloc m b n s = Some (main + of_nat (boff g j), m') \<and> serves g A r j \<and> buddy_inv g main m' b (insert j A) \<and>
      (\<forall>i < r. m' (main + of_nat (boff g j) + of_nat i) = 0) \<and> block_frame g main b j m m'
    else buddy_calloc m b n s = Some (0, m)"
  using assms by (rule calloc_serves)

subsection \<open>Resized blocks\<close>

lemma position_of_block:
  assumes "buddy_inv g main m b A" "a \<in> A" "boff g a < g_size g"
  shows "position_for_address m b (main + of_nat (boff g a)) = mkpos a" "node (g_order g) a" "buddy_tree_valid m (b + 32) (mkpos a)"
proof -
  note inv = buddy_invD [OF assms(1)]
  show "position_for_address m b (main + of_nat (boff g a)) = mkpos a"
    using position_block [OF assms(1,3)] same_offset [OF inv(1,11) _ assms(2)] assms(2) by blast
  show "node (g_order g) a" using inv(11) assms(2) by (simp add: antichain_def)
  then show "buddy_tree_valid m (b + 32) (mkpos a)" by (rule valid_mkpos [OF assms(1)])
qed

lemma depth_for_size_inv:
  assumes "buddy_inv g main m b A" "buddy_inv g main m' b A'"
  shows "depth_for_size m' b r = depth_for_size m b r" "address_for_position m' b pos = address_for_position m b pos"
    "size_for_depth m' b d = size_for_depth m b d" "buddy_tree_valid m' (b + 32) pos = buddy_tree_valid m (b + 32) pos"
proof -
  note i = buddy_invD [OF assms(1)] and i' = buddy_invD [OF assms(2)]
  show "depth_for_size m' b r = depth_for_size m b r" "size_for_depth m' b d = size_for_depth m b d"
    "address_for_position m' b pos = address_for_position m b pos"
    by (simp_all add: depth_for_size_def size_for_depth_def address_for_position_def buddy_effective_memory_size_def i(5-7) i'(5-7))
  show "buddy_tree_valid m' (b + 32) pos = buddy_tree_valid m (b + 32) pos"
    using tree_invD(1) [OF i(9)] tree_invD(1) [OF i'(9)] by (simp add: buddy_tree_valid_def tree_at_def)
qed

lemma common_size:
  assumes "buddy_inv g main m b A" "node (g_order g) a" "node (g_order g) j"
  shows "unat (size_for_depth m b (if of_nat (blen a) > (of_nat (blen j) :: u64) then of_nat (blen a) else of_nat (blen j))) =
    min (block_size g a) (block_size g j)"
proof -
  have n: "g_order g \<le> 58" using buddy_invD(1) [OF assms(1)] by (simp add: geo_ok_def)
  have l: "blen a \<le> g_order g" "blen j \<le> g_order g" using assms(2,3) by (simp_all add: node_blen)
  have w: "of_nat (blen a) > (of_nat (blen j) :: u64) \<longleftrightarrow> blen j < blen a"
    using l n by (simp add: word_less_nat_alt unat_of_nat64)
  have mono: "block_size g x \<le> block_size g y" if "blen y \<le> blen x" for x y
    using that by (auto simp: block_size_def cap_def intro: diff_le_mono2)
  show ?thesis
    using size_for_depth_block [OF assms(1,2)] size_for_depth_block [OF assms(1,3)] mono [of a j] mono [of j a] unfolding w by (auto simp: min_def)
qed

lemma realloc_unfold:
  assumes "buddy_inv g main m b A" "a \<in> A" "boff g a < g_size g" "req \<noteq> 0" "unat req \<le> g_size g"
    "buddy_tree_release m (b + 32) (mkpos a) = Some (st, m1)" "buddy_inv g main m1 b A1"
  shows "buddy_realloc m b (main + of_nat (boff g a)) req ignore_data =
    (let pos = buddy_tree_find_free m1 (b + 32) (ucast (depth_for_size m1 b req)); d = depth_for_size m1 b req
     in if \<not> buddy_tree_valid m1 (b + 32) pos then do { m \<leftarrow> buddy_tree_mark m1 (b + 32) (mkpos a); Some (0, m) }
        else if p_index (mkpos a) = p_index pos then do { m \<leftarrow> buddy_tree_mark m1 (b + 32) (mkpos a); Some (main + of_nat (boff g a), m) }
        else do {
          m \<leftarrow> (if \<not> ignore_data
                then map_option fst (memmove m1 (address_for_position m1 b pos) (main + of_nat (boff g a))
                       (size_for_depth m1 b (if of_nat (blen a) > d then of_nat (blen a) else d)))
                else Some m1);
          m \<leftarrow> buddy_tree_mark m (b + 32) pos;
          Some (address_for_position m1 b pos, m)
        })"
proof -
  note inv = buddy_invD [OF assms(1)] and eq = depth_for_size_inv [OF assms(1,7)] and pos = position_of_block [OF assms(1-3)]
  have le: "\<not> req > buddy_memory_size m b" using assms(5) unat_whole(3) [OF assms(1)] by (simp add: inv(5) word_less_nat_alt)
  have p: "main + of_nat (boff g a) \<noteq> 0" by (rule arena_offset_iff(2) [OF assms(1,3)])
  have d: "buddy_tree_depth (mkpos a) = of_nat (blen a)" by (simp add: buddy_tree_depth_def mkpos_def)
  show ?thesis
    unfolding buddy_realloc_def tree_address pos(1) d using p assms(4,6) le pos(3)
    by (simp add: Let_def d eq address_block [OF assms(1) pos(2)] cong: if_cong)
qed

text \<open>Copying the common part of two blocks and allocating the second one.\<close>

lemma move_block:
  assumes "buddy_inv g main m b A" "boff g a + block_size g a \<le> g_size g" "boff g j + block_size g j \<le> g_size g"
    "free_node (g_order g) A j" "unat k = min (block_size g a) (block_size g j)"
  shows "\<exists>m' m''. memmove m (main + of_nat (boff g j)) (main + of_nat (boff g a)) k = Some (m', main + of_nat (boff g j)) \<and>
    buddy_tree_mark m' (b + 32) (mkpos j) = Some m'' \<and> buddy_inv g main m'' b (insert j A) \<and> block_frame g main b j m m'' \<and>
    (\<forall>i < min (block_size g a) (block_size g j). m'' (main + of_nat (boff g j) + of_nat i) = m (main + of_nat (boff g a) + of_nat i))"
proof -
  note inv = buddy_invD [OF assms(1)]
  let ?p = "main + of_nat (boff g a) :: u64" and ?q = "main + of_nat (boff g j) :: u64" and ?n = "min (block_size g a) (block_size g j)"
  let ?m = "copy_bytes m ?q ?p ?n"
  have bs: "0 < block_size g a" "0 < block_size g j" using block_size_pos geo_facts(1) [OF inv(1)] by blast+
  have off: "boff g a < g_size g" "boff g j < g_size g" using assms(2,3) bs by linarith+
  have u: "unat ?p = unat main + boff g a" "unat ?q = unat main + boff g j" using arena_offset_iff(3) [OF assms(1)] off by blast+
  have mv: "memmove m ?q ?p k = Some (?m, ?q)"
    using memmove_copy [of ?q k ?p m] u assms(2,3,5) inv(4) by simp
  have "buddy_inv g main ?m b A"
  proof (rule arena_write [OF assms(1)])
    fix x assume "g_size g \<le> unat (x - main)"
    then have "\<not> in_block g main j x" using in_block_arena(1) [OF assms(1,3)] not_le by blast
    then show "?m x = m x" by (simp add: copy_bytes_def in_block_def)
  qed
  then obtain m'' where m'': "buddy_tree_mark ?m (b + 32) (mkpos j) = Some m''" "buddy_inv g main m'' b (insert j A)" "meta_frame g b ?m m''"
    using mark_block assms(4) by blast
  have "block_frame g main b j m m''" using m''(3) by (auto simp: block_frame_def meta_frame_def copy_bytes_def in_block_def)
  moreover have "m'' (?q + of_nat i) = m (?p + of_nat i)" if "i < ?n" for i
  proof -
    note o = in_block_offset [OF assms(1,3), of i]
    have "m'' (?q + of_nat i) = ?m (?q + of_nat i)"
      using m''(3) in_block_arena(2) [OF assms(1,3) o(1)] that by (simp add: meta_frame_def)
    then show ?thesis using o(2) that by (simp add: copy_bytes_def)
  qed
  ultimately show ?thesis using mv m'' by blast
qed

text \<open>The two ways in which a block can be resized, once the new position is known.\<close>

lemma realloc_found:
  assumes "buddy_inv g main m b A" "a \<in> A" "boff g a < g_size g" "requested_size \<noteq> 0" "unat requested_size \<le> g_size g"
    "buddy_tree_release m (b + 32) (mkpos a) = Some (st, m1)" "buddy_inv g main m1 b (A - {a})" "meta_frame g b m m1"
    "buddy_tree_find_free m1 (b + 32) (ucast (depth_for_size m1 b requested_size)) = mkpos j" "depth_for_size m1 b requested_size = of_nat (blen j)"
    "free_node (g_order g) (A - {a}) j" "boff g j + block_size g j \<le> g_size g"
  shows "\<exists>m'. buddy_realloc m b (main + of_nat (boff g a)) requested_size ignore_data = Some (main + of_nat (boff g j), m') \<and>
    buddy_inv g main m' b (insert j (A - {a})) \<and> block_frame g main b j m m' \<and>
    (\<not> ignore_data \<longrightarrow> (\<forall>i < min (block_size g a) (block_size g j). m' (main + of_nat (boff g j) + of_nat i) = m (main + of_nat (boff g a) + of_nat i)))"
proof -
  note inv = buddy_invD [OF assms(1)]
  let ?p = "main + of_nat (boff g a) :: u64" and ?q = "main + of_nat (boff g j) :: u64"
  have n: "node (g_order g) a" "node (g_order g) j" "g_order g \<le> 58"
    using inv(1,11) assms(2,11) by (simp_all add: antichain_def free_node_def geo_ok_def)
  have idx: "p_index (mkpos a) = p_index (mkpos j) \<longleftrightarrow> a = j"
    using unat_node [OF n(1,3)] unat_node [OF n(2,3)] by (auto simp: mkpos_def word_unat_eq_iff)
  note ua = user_block [OF inv(1,11,10) assms(2,3)] and v = valid_mkpos [OF assms(7) n(2)]
  note un = realloc_unfold [OF assms(1-7),
      unfolded Let_def assms(10) assms(9) [unfolded assms(10)] idx address_block [OF assms(7) n(2)]]
  have same: "m1 (?p + of_nat i) = m (?p + of_nat i)" if "i < block_size g a" for i
    using in_block_arena(2) [OF assms(1) ua in_block_offset(1) [OF assms(1) ua that]] assms(8) by (simp add: meta_frame_def)
  show ?thesis
  proof (cases "a = j")
    case True
    obtain m2 where m2: "buddy_tree_mark m1 (b + 32) (mkpos a) = Some m2" "buddy_inv g main m2 b (insert j (A - {a}))" "meta_frame g b m1 m2"
      using mark_block [OF assms(7,11)] unfolding True by blast
    have f: "meta_frame g b m m2" using assms(8) m2(3) by (auto simp: meta_frame_def)
    have "m2 (?p + of_nat i) = m (?p + of_nat i)" if "i < block_size g a" for i
      using f in_block_arena(2) [OF assms(1) ua in_block_offset(1) [OF assms(1) ua that]] by (simp add: meta_frame_def)
    moreover have "buddy_realloc m b ?p requested_size ignore_data = Some (?q, m2)" using un v m2(1) True by simp
    ultimately show ?thesis using m2(2) f True by (auto simp: block_frame_def meta_frame_def)
  next
    case False
    obtain m2' where m2': "buddy_tree_mark m1 (b + 32) (mkpos j) = Some m2'" "buddy_inv g main m2' b (insert j (A - {a}))" "meta_frame g b m1 m2'"
      using mark_block [OF assms(7,11)] by blast
    obtain m2 m3 where m3: "buddy_inv g main m3 b (insert j (A - {a}))" "block_frame g main b j m1 m3"
      "\<forall>i < min (block_size g a) (block_size g j). m3 (?q + of_nat i) = m1 (?p + of_nat i)" "buddy_tree_mark m2 (b + 32) (mkpos j) = Some m3"
      "memmove m1 ?q ?p (size_for_depth m1 b (if of_nat (blen a) > (of_nat (blen j) :: u64) then of_nat (blen a) else of_nat (blen j))) = Some (m2, ?q)"
      using move_block [OF assms(7) ua assms(12,11) common_size [OF assms(7) n(1,2)]] by blast
    have "block_frame g main b j m m3" using m3(2) assms(8) by (auto simp: block_frame_def meta_frame_def)
    moreover have "block_frame g main b j m m2'" using m2'(3) assms(8) by (auto simp: block_frame_def meta_frame_def)
    moreover have "buddy_realloc m b ?p requested_size ignore_data = Some (?q, if ignore_data then m2' else m3)" using un v False m2'(1) m3(4,5) by simp
    ultimately show ?thesis using m2'(2) m3(1,3) same by auto
  qed
qed

lemma realloc_zero:
  assumes "buddy_inv g main m b A" "a \<in> A" "boff g a < g_size g"
  shows "\<exists>m'. buddy_realloc m b (main + of_nat (boff g a)) 0 ignore_data = Some (0, m') \<and> buddy_inv g main m' b (A - {a}) \<and> meta_frame g b m m'"
  using free_block(1) [OF assms] arena_offset_iff(2) [OF assms(1,3)] by (auto simp: buddy_realloc_def)

lemma realloc_serves:
  assumes "buddy_inv g main m b A" "a \<in> A" "boff g a < g_size g" "r = unat requested_size" "requested_size \<noteq> 0"
  shows "if \<exists>j. serves g (A - {a}) r j
    then \<exists>j m'. buddy_realloc m b (main + of_nat (boff g a)) requested_size ignore_data = Some (main + of_nat (boff g j), m') \<and>
      serves g (A - {a}) r j \<and> buddy_inv g main m' b (insert j (A - {a})) \<and> block_frame g main b j m m' \<and>
      (\<not> ignore_data \<longrightarrow> (\<forall>i < min (block_size g a) (block_size g j). m' (main + of_nat (boff g j) + of_nat i) = m (main + of_nat (boff g a) + of_nat i)))
    else \<exists>m'. buddy_realloc m b (main + of_nat (boff g a)) requested_size ignore_data = Some (0, m') \<and> buddy_inv g main m' b A \<and> meta_frame g b m m'"
proof -
  note inv = buddy_invD [OF assms(1)]
  let ?p = "main + of_nat (boff g a) :: u64"
  show ?thesis
  proof (cases "g_size g < r")
    case True
    then have "\<not> serves g (A - {a}) r j" for j by (auto simp: serves_def)
    moreover have "buddy_realloc m b ?p requested_size ignore_data = Some (0, m)"
      using True assms(4,5) arena_offset_iff(2) [OF assms(1,3)] unat_whole(3) [OF assms(1)]
      by (simp add: buddy_realloc_def inv(5) word_less_nat_alt)
    ultimately show ?thesis using assms(1) by (auto simp: meta_frame_def)
  next
    case False
    obtain m1 where m1: "buddy_tree_release m (b + 32) (mkpos a) = Some (BUDDY_TREE_RELEASE_SUCCESS, m1)" "buddy_inv g main m1 b (A - {a})"
      "meta_frame g b m m1" using release_block [OF assms(1-3)] bits_meta_frame inv(1) by (auto simp: geo_ok_def)
    note sf = serves_fitting [OF buddy_invD(1,11,10) [OF m1(2)]]
    have q: "0 < unat requested_size" "unat requested_size \<le> g_size g" using assms(4,5) False by (simp_all add: unat_gt_0)
    note ff = find_free_block [OF m1(2) q, folded assms(4)]
    show ?thesis
    proof (cases "\<exists>j. serves g (A - {a}) r j")
      case True
      then obtain j where j: "buddy_tree_find_free m1 (b + 32) (ucast (depth_for_size m1 b requested_size)) = mkpos j" "serves g (A - {a}) r j"
        "depth_for_size m1 b requested_size = of_nat (blen j)" using ff unfolding sf by auto
      have "free_node (g_order g) (A - {a}) j" "boff g j + block_size g j \<le> g_size g"
        using j(2) sf [of r j] by (simp_all add: fitting_def serves_def)
      from realloc_found [OF assms(1-3,5) q(2) m1 j(1,3) this, of ignore_data] show ?thesis using j(2) True by (simp only: if_True) blast
    next
      case none: False
      have "free_node (g_order g) (A - {a}) a" using inv(11) assms(2) by (auto simp: free_node_def antichain_def)
      then obtain m2 where "buddy_tree_mark m1 (b + 32) (mkpos a) = Some m2" "buddy_inv g main m2 b (insert a (A - {a}))" "meta_frame g b m1 m2"
        using mark_block [OF m1(2)] by blast
      moreover have "insert a (A - {a}) = A" using assms(2) by blast
      ultimately show ?thesis
        using none ff realloc_unfold [OF assms(1-3,5) q(2) m1(1,2)] m1(3) unfolding sf by (auto simp: meta_frame_def)
    qed
  qed
qed

text \<open>
  C20: \<^verbatim>\<open>buddy_realloc\<close> of an allocated block always returns.  With the size 0 it returns null and releases the
  block.  Otherwise it returns the address of a block that serves the size when the old block counts
  as free, which may be the old block itself; the old block is released, nothing but the new block and
  the allocator's data is written, and unless \<^verbatim>\<open>ignore_data\<close> is set the contents up to the smaller of the two
  block sizes are those of the old block.  If there is no such block it returns null and the old block
  stays allocated and unchanged.
\<close>

theorem buddy_realloc_correct:
  assumes "buddy_inv g main m b A" "a \<in> A" "boff g a < g_size g" "r = unat requested_size"
  shows "if requested_size = 0
    then \<exists>m'. buddy_realloc m b (main + of_nat (boff g a)) requested_size ignore_data = Some (0, m') \<and>
      buddy_inv g main m' b (A - {a}) \<and> meta_frame g b m m'
    else if \<exists>j. serves g (A - {a}) r j
    then \<exists>j m'. buddy_realloc m b (main + of_nat (boff g a)) requested_size ignore_data = Some (main + of_nat (boff g j), m') \<and>
      serves g (A - {a}) r j \<and> buddy_inv g main m' b (insert j (A - {a})) \<and> block_frame g main b j m m' \<and>
      (\<not> ignore_data \<longrightarrow> (\<forall>i < min (block_size g a) (block_size g j). m' (main + of_nat (boff g j) + of_nat i) = m (main + of_nat (boff g a) + of_nat i)))
    else \<exists>m'. buddy_realloc m b (main + of_nat (boff g a)) requested_size ignore_data = Some (0, m') \<and> buddy_inv g main m' b A \<and> meta_frame g b m m'"
proof (cases "requested_size = 0")
  case True
  then show ?thesis using realloc_zero [OF assms(1-3)] by simp
next
  case False
  then show ?thesis using realloc_serves [OF assms False, of ignore_data] by simp
qed

subsection \<open>Checked release\<close>

text \<open>
  C24: \<^verbatim>\<open>buddy_safe_free\<close> releases an allocated block exactly if the size it is given is one for which a block
  of this size is allocated; for another size it reports a mismatch, and for a pointer that is not
  the address of an allocated block an error, and changes nothing.
\<close>

theorem buddy_safe_free_correct:
  assumes "buddy_inv g main m b A"
  shows "(\<forall>a \<in> A. boff g a < g_size g \<longrightarrow>
      (let r = max (unat requested_size) (g_align g)
       in if r \<le> block_size g a \<and> block_size g a < 2 * r
          then \<exists>m'. buddy_safe_free m b (main + of_nat (boff g a)) requested_size = Some (BUDDY_SAFE_FREE_SUCCESS, m') \<and>
            buddy_inv g main m' b (A - {a}) \<and> meta_frame g b m m'
          else buddy_safe_free m b (main + of_nat (boff g a)) requested_size = Some (BUDDY_SAFE_FREE_SIZE_MISMATCH, m))) \<and>
    (\<forall>ptr. (\<forall>a \<in> A. boff g a < g_size g \<longrightarrow> ptr \<noteq> main + of_nat (boff g a)) \<longrightarrow>
      (\<exists>e. buddy_safe_free m b ptr requested_size = Some (e, m) \<and> e \<noteq> BUDDY_SAFE_FREE_SUCCESS))"
proof (intro conjI ballI allI impI)
  note inv = buddy_invD [OF assms]
  fix a assume a: "a \<in> A" "boff g a < g_size g"
  note off = arena_offset_iff [OF assms a(2)] and pos = position_of_block [OF assms a]
  let ?r = "if requested_size < buddy_alignment m b then buddy_alignment m b else requested_size"
  have r: "unat ?r = max (unat requested_size) (g_align g)" using unat_whole(2) [OF assms] by (auto simp: inv(6) word_less_nat_alt)
  note sz = size_for_depth_block [OF assms pos(2)]
  have big: "?r > size_for_depth m b (p_depth (mkpos a)) \<longleftrightarrow> block_size g a < max (unat requested_size) (g_align g)"
    "?r \<le> size_for_depth m b (p_depth (mkpos a)) div 2 \<longleftrightarrow> 2 * max (unat requested_size) (g_align g) \<le> block_size g a"
    using sz r by (auto simp: mkpos_def word_less_nat_alt word_le_nat_alt unat_div_distrib)
  obtain m' where "buddy_tree_release m (b + 32) (mkpos a) = Some (BUDDY_TREE_RELEASE_SUCCESS, m')" "buddy_inv g main m' b (A - {a})"
    "meta_frame g b m m'" using release_block [OF assms a] bits_meta_frame inv(1) by (auto simp: geo_ok_def)
  then show "let r = max (unat requested_size) (g_align g)
       in if r \<le> block_size g a \<and> block_size g a < 2 * r
          then \<exists>m'. buddy_safe_free m b (main + of_nat (boff g a)) requested_size = Some (BUDDY_SAFE_FREE_SUCCESS, m') \<and>
            buddy_inv g main m' b (A - {a}) \<and> meta_frame g b m m'
          else buddy_safe_free m b (main + of_nat (boff g a)) requested_size = Some (BUDDY_SAFE_FREE_SIZE_MISMATCH, m)"
    using off inv(2,7) pos big unfolding buddy_safe_free_def tree_address Let_def by (auto simp: not_less)
next
  note inv = buddy_invD [OF assms]
  fix ptr assume none: "\<forall>a \<in> A. boff g a < g_size g \<longrightarrow> ptr \<noteq> main + of_nat (boff g a)"
  show "\<exists>e. buddy_safe_free m b ptr requested_size = Some (e, m) \<and> e \<noteq> BUDDY_SAFE_FREE_SUCCESS"
  proof (cases "ptr = 0 \<or> ptr < main \<or> ptr \<ge> main + buddy_memory_size m b")
    case True
    then show ?thesis using inv(2,7) by (auto simp: buddy_safe_free_def Let_def)
  next
    case False
    then have "position_for_address m b ptr = INVALID_POS \<or>
      (\<exists>x. position_for_address m b ptr = mkpos x \<and> node (g_order g) x \<and> spec (g_order g) A x \<noteq> cap (g_order g) x)"
      using arena_offset [OF assms, of ptr] position_block [OF assms, of "unat (ptr - main)"] none by metis
    then show ?thesis
      using False inv(2,7) tree_release(1) [OF inv(9)] unfolding buddy_safe_free_def tree_address Let_def by auto
  qed
qed

subsection \<open>Witnesses\<close>

theorem buddy_calloc_correct_witness:
  "\<exists>m A j m'. buddy_inv geo_page 0x10000 m 0x10F58 A \<and> serves geo_page A 100 j \<and>
     buddy_calloc m 0x10F58 25 4 = Some (0x10000 + of_nat (boff geo_page j), m') \<and> buddy_inv geo_page 0x10000 m' 0x10F58 (insert j A)"
proof -
  obtain m A where A: "buddy_inv geo_page 0x10000 m 0x10F58 A" "\<forall>a \<in> A. 3904 \<le> boff geo_page a" using page_machine by blast
  then have "\<exists>j. serves geo_page A 100 j" using page_serves by blast
  then show ?thesis using buddy_calloc_correct [OF A(1), of 100 25 4] A(1) by auto
qed

theorem buddy_realloc_correct_witness:
  "\<exists>m A a j m'. a \<in> A \<and> buddy_inv geo_page 0x10000 m 0x10F58 A \<and> serves geo_page (A - {a}) 100 j \<and>
     buddy_realloc m 0x10F58 (0x10000 + of_nat (boff geo_page a)) 100 False = Some (0x10000 + of_nat (boff geo_page j), m') \<and>
     buddy_inv geo_page 0x10000 m' 0x10F58 (insert j (A - {a}))"
proof -
  obtain m A j where j: "buddy_inv geo_page 0x10000 m 0x10F58 (insert j A)" "boff geo_page j < 3904" "j \<notin> A" "serves geo_page A 100 j"
    using page_malloc by blast
  have A: "insert j A - {j} = A" using j(3) by blast
  have "boff geo_page j < g_size geo_page" "(100 :: nat) = unat (100 :: u64)" using j(2) by (simp_all add: geo_page_def)
  note re = buddy_realloc_correct [OF j(1) insertI1 this, of False, unfolded A]
  have "\<exists>j. serves geo_page A 100 j" using j(4) by blast
  then obtain k m' where "buddy_realloc m 0x10F58 (0x10000 + of_nat (boff geo_page j)) 100 False = Some (0x10000 + of_nat (boff geo_page k), m')"
    "serves geo_page (insert j A - {j}) 100 k" "buddy_inv geo_page 0x10000 m' 0x10F58 (insert k (insert j A - {j}))"
    using re unfolding A by auto
  then show ?thesis using j(1) by blast
qed

theorem buddy_safe_free_correct_witness:
  "\<exists>m A a m'. a \<in> A \<and> buddy_inv geo_page 0x10000 m 0x10F58 A \<and>
     buddy_safe_free m 0x10F58 (0x10000 + of_nat (boff geo_page a)) 100 = Some (BUDDY_SAFE_FREE_SUCCESS, m') \<and>
     buddy_inv geo_page 0x10000 m' 0x10F58 (A - {a}) \<and>
     buddy_safe_free m 0x10F58 (0x10000 + of_nat (boff geo_page a)) 1000 = Some (BUDDY_SAFE_FREE_SIZE_MISMATCH, m)"
proof -
  obtain m A j where j: "buddy_inv geo_page 0x10000 m 0x10F58 (insert j A)" "boff geo_page j < g_size geo_page" "serves geo_page A 100 j"
    using page_malloc by (auto simp: geo_page_def)
  have s: "100 \<le> block_size geo_page j" "block_size geo_page j < 200" "g_align geo_page = 64" using j(3) by (simp_all add: serves_def geo_page_def)
  have "\<exists>m'. buddy_safe_free m 0x10F58 (0x10000 + of_nat (boff geo_page j)) 100 = Some (BUDDY_SAFE_FREE_SUCCESS, m') \<and>
      buddy_inv geo_page 0x10000 m' 0x10F58 (insert j A - {j})"
    using conjunct1 [OF buddy_safe_free_correct [OF j(1), of 100]] j(2) s by (auto simp: Let_def)
  moreover have "buddy_safe_free m 0x10F58 (0x10000 + of_nat (boff geo_page j)) 1000 = Some (BUDDY_SAFE_FREE_SIZE_MISMATCH, m)"
    using conjunct1 [OF buddy_safe_free_correct [OF j(1), of 1000]] j(2) s by (auto simp: Let_def)
  ultimately show ?thesis using j(1) by blast
qed

end
