(* ===== verification/Virtual_Alloc.thy ===== *)
theory Virtual_Alloc
  imports Page_Ranges Virtual
begin

text \<open>
  What \<^verbatim>\<open>virtual_allocate\<close> of \<^verbatim>\<open>memory/virtual.cpp\<close> does for any number of pages: the search is first fit, and the pages
  found are mapped one by one.
\<close>

definition unmapped :: "boot \<Rightarrow> nat \<Rightarrow> vm \<Rightarrow> u64 \<Rightarrow> nat \<Rightarrow> bool" where
  "unmapped b r st a k \<longleftrightarrow> (\<forall>i < k. vleaf b r st (pages_at b a i) = None)"

subsection \<open>The search\<close>

lemma scan_step:
  assumes "vm_inv b r st"
  shows "vbind (virtual_to_entry b a False PAGE_SIZE True st) (\<lambda>e st.
      if e = 0 then Inl Null_entry else Inr (if is_valid (entry_at st e) then FOUND_VALID else SYSTEM_OK, st)) =
    Inr (if vleaf b r st (vpage b a) = None then SYSTEM_OK else FOUND_VALID, st)"
proof -
  have tree: "vm_tree b r st" using assms by (simp add: vm_inv_def)
  let ?e = "slot (hhdm b) (table b r st (path_of b a)) (unat (GET_PML_ENTRY a 12))"
  have e: "virtual_to_entry b a False PAGE_SIZE True st = Inr (?e, st)"
    unfolding virtual_to_entry_def by (rule virtual_to_entry_lookup [OF tree])
  have "?e \<noteq> 0" using slot_nonzero [OF tree table_lim [OF tree path_of_path(1)] GET_PML_ENTRY_lt] .
  moreover have "is_valid (entry_at st ?e) \<longleftrightarrow> vleaf b r st (vpage b a) \<noteq> None"
    using vleaf_table [OF tree, of a] by (simp add: Let_def split: if_splits)
  ultimately show ?thesis by (simp add: e)
qed

lemma scan_loop:
  assumes "vm_inv b r st" "unat a + 4096 * n < 18446744073709551616" "j \<le> n" "unmapped b r st a j"
  shows "\<exists>y k. for_loop (\<lambda>address st. vbind (virtual_to_entry b address False PAGE_SIZE True st) (\<lambda>e st.
        if e = 0 then Inl Null_entry else Inr (if is_valid (entry_at st e) then FOUND_VALID else SYSTEM_OK, st)))
      (a + of_nat j * PAGE_SIZE) (a + of_nat n * PAGE_SIZE) PAGE_SIZE st = Inr ((y, a + of_nat k * PAGE_SIZE), st) \<and>
    k \<le> n \<and> unmapped b r st a k \<and> (k < n \<longrightarrow> vleaf b r st (pages_at b a k) \<noteq> None)"
  using assms(3,4)
proof (induction j rule: inc_induct)
  case base
  then show ?case by (subst for_loop.simps) (auto intro!: exI [of _ n])
next
  case (step j)
  let ?p = "a + of_nat j * PAGE_SIZE" and ?e = "a + of_nat n * PAGE_SIZE"
  have m: "4096 * j \<le> 4096 * n" "4096 * Suc j \<le> 4096 * n" using step(2) by simp_all
  have u: "unat ?p = unat a + 4096 * j" "unat ?e = unat a + 4096 * n" "unat (a + of_nat (Suc j) * PAGE_SIZE) = unat a + 4096 * Suc j"
    using assms(2) m by (intro unat_step, linarith)+
  have lt: "?p < ?e" and nw: "\<not> ?p + PAGE_SIZE \<le> ?p" and nxt: "?p + PAGE_SIZE = a + of_nat (Suc j) * PAGE_SIZE"
    using u step(2) unfolding word_less_nat_alt by (simp_all add: word_le_nat_alt algebra_simps)
  show ?case
  proof (cases "vleaf b r st (vpage b ?p) = None")
    case True
    then have "unmapped b r st a (Suc j)" using step(4) by (auto simp: unmapped_def less_Suc_eq)
    from step(3) [OF this] show ?thesis using lt nw True
      by (subst for_loop.simps) (simp add: scan_step [OF assms(1)] nxt del: of_nat_Suc)
  next
    case False
    then show ?thesis using lt step(2,4)
      by (subst for_loop.simps) (auto simp: scan_step [OF assms(1)] FOUND_VALID_def SYSTEM_OK_def intro!: exI [of _ j])
  qed
qed

lemma scan_pages_outcome:
  assumes "vm_inv b r st" "unat a + 4096 * n < 18446744073709551616"
  shows "\<exists>k \<le> n. scan_pages b a (of_nat n * PAGE_SIZE) st = Inr (a + of_nat k * PAGE_SIZE, st) \<and> unmapped b r st a k \<and>
    (k < n \<longrightarrow> vleaf b r st (pages_at b a k) \<noteq> None)"
  using scan_loop [OF assms le0] by (auto simp: scan_pages_def unmapped_def)

subsection \<open>The pages of the range\<close>

lemma update_range_values:
  assumes "\<And>i. i < n \<Longrightarrow> v i = w i"
  shows "update_range f key v n = update_range f key w n"
  using assms by (induction n) auto

text \<open>
  The entries \<^verbatim>\<open>virtual_allocate\<close> writes: for the page with index \<open>i\<close> the frame \<open>q i\<close> is taken, and the frame at
  distance \<open>i\<close> behind it is entered.
\<close>

definition fresh_entry :: "(nat \<Rightarrow> nat) \<Rightarrow> u64 \<Rightarrow> nat \<Rightarrow> u64 option" where
  "fresh_entry q flags i = Some ((of_nat (q i) * PAGE_SIZE + of_nat i * PAGE_SIZE) OR PageMap_parse_flags flags)"

definition fresh_pages :: "boot \<Rightarrow> nat \<Rightarrow> u64 \<Rightarrow> u64 \<Rightarrow> nat \<Rightarrow> vm \<Rightarrow> vm \<Rightarrow> bool" where
  "fresh_pages b r start flags n st st' \<longleftrightarrow> vm_inv b r st' \<and> taken (vphys st) \<subseteq> taken (vphys st') \<and>
     (\<exists>q. inj_on q {..<n} \<and> q ` {..<n} \<subseteq> taken (vphys st') - taken (vphys st) \<and> (\<forall>i < n. owned b r st' (q i)) \<and>
       (\<forall>p \<in> taken (vphys st') - taken (vphys st). p \<in> q ` {..<n} \<or> is_table b r st' p) \<and>
       (\<forall>ks. is_page (depth b) ks \<longrightarrow> vleaf b r st' ks = update_range (vleaf b r st) (pages_at b start) (fresh_entry q flags) n ks))"

lemma fresh_pages_0: "vm_inv b r st \<Longrightarrow> fresh_pages b r start flags 0 st st"
  by (simp add: fresh_pages_def)

lemma fresh_pages_Suc:
  assumes "fresh_pages b r start flags k st s" "vm_inv b r s'" "taken (vphys s) \<subseteq> taken (vphys s')" "p \<notin> taken (vphys s)" "owned b r s' p"
    "\<forall>ks. is_page (depth b) ks \<longrightarrow> vleaf b r s' ks =
      ((vleaf b r s)(pages_at b start k \<mapsto> (of_nat p * PAGE_SIZE + of_nat k * PAGE_SIZE) OR PageMap_parse_flags flags)) ks"
    "\<forall>p. is_table b r s p \<longrightarrow> is_table b r s' p" "\<forall>p. owned b r s p \<longrightarrow> owned b r s' p"
    "\<forall>x \<in> taken (vphys s') - taken (vphys s). x = p \<or> is_table b r s' x"
  shows "fresh_pages b r start flags (Suc k) st s'"
proof -
  obtain q where q: "inj_on q {..<k}" "q ` {..<k} \<subseteq> taken (vphys s) - taken (vphys st)" "\<forall>i < k. owned b r s (q i)"
    "\<forall>x \<in> taken (vphys s) - taken (vphys st). x \<in> q ` {..<k} \<or> is_table b r s x"
    "\<And>ks. is_page (depth b) ks \<Longrightarrow> vleaf b r s ks = update_range (vleaf b r st) (pages_at b start) (fresh_entry q flags) k ks"
    and s: "taken (vphys st) \<subseteq> taken (vphys s)" using assms(1) by (auto simp: fresh_pages_def)
  let ?q = "q(k := p)"
  have new: "p \<notin> q ` {..<k}" using q(2) assms(4) by blast
  have i: "inj_on ?q {..<Suc k}" using q(1) new by (simp add: lessThan_Suc inj_on_fun_updI)
  have img: "?q ` {..<Suc k} = insert p (q ` {..<k})" by (auto simp: lessThan_Suc)
  then have t: "?q ` {..<Suc k} \<subseteq> taken (vphys s') - taken (vphys st)" using q(2) s assms(3-5) by (auto simp: owned_def)
  have o: "\<forall>i < Suc k. owned b r s' (?q i)" using q(3) assms(5,8) by (simp add: less_Suc_eq)
  have l: "\<forall>x \<in> taken (vphys s') - taken (vphys st). x \<in> ?q ` {..<Suc k} \<or> is_table b r s' x"
    unfolding img using q(4) assms(7,9) by blast
  have "update_range (vleaf b r st) (pages_at b start) (fresh_entry ?q flags) k = update_range (vleaf b r st) (pages_at b start) (fresh_entry q flags) k"
    by (rule update_range_values) (simp add: fresh_entry_def)
  then have "vleaf b r s' ks = update_range (vleaf b r st) (pages_at b start) (fresh_entry ?q flags) (Suc k) ks" if "is_page (depth b) ks" for ks
    using assms(6) q(5) that by (simp add: fresh_entry_def)
  then show ?thesis using assms(2,3) s i t o l unfolding fresh_pages_def by blast
qed

lemma fresh_loop:
  assumes "vm_inv b r st" "small_present flags" "pages_between 0 sz n"
  shows "case for_loop (map_fresh b start flags) 0 sz PAGE_SIZE st of
      Inl e \<Rightarrow> e = Phys_error Out_of_memory \<and> free_count (vphys st) < n * Suc (depth b)
    | Inr ((y, i), st') \<Rightarrow> y = SYSTEM_OK \<and> fresh_pages b r start flags n st st'"
proof -
  let ?P = "\<lambda>k s. fresh_pages b r start flags k st s \<and> free_count (vphys st) \<le> free_count (vphys s) + k * Suc (depth b)"
  let ?Q = "\<lambda>e. e = Phys_error Out_of_memory \<and> free_count (vphys st) < n * Suc (depth b)"
  have step: "case map_fresh b start flags (0 + of_nat k * PAGE_SIZE) s of Inl x \<Rightarrow> ?Q x | Inr (y, s') \<Rightarrow> y = SYSTEM_OK \<and> ?P (Suc k) s'"
    if k: "k < n" and s: "?P k s" for k s
  proof -
    have le: "Suc k * Suc (depth b) \<le> n * Suc (depth b)" using k by (intro mult_right_mono) auto
    have inv: "vm_inv b r s" using s by (simp add: fresh_pages_def)
    note m = map_fresh_outcome [OF inv assms(2), of start "of_nat k * PAGE_SIZE"]
    show ?thesis
    proof (cases "map_fresh b start flags (of_nat k * PAGE_SIZE) s")
      case (Inl e)
      then have "e = Phys_error Out_of_memory" "free_count (vphys s) \<le> depth b" using m by simp_all
      moreover have "free_count (vphys st) \<le> free_count (vphys s) + k * Suc (depth b)" using s by simp
      ultimately show ?thesis using Inl le by simp
    next
      case (Inr z)
      then obtain y s' where z: "map_fresh b start flags (of_nat k * PAGE_SIZE) s = Inr (y, s')" by (cases z) auto
      then obtain p where p: "vm_inv b r s'" "taken (vphys s) \<subseteq> taken (vphys s')" "p \<notin> taken (vphys s)" "owned b r s' p"
        "\<forall>ks. is_page (depth b) ks \<longrightarrow> vleaf b r s' ks =
          ((vleaf b r s)(pages_at b start k \<mapsto> (of_nat p * PAGE_SIZE + of_nat k * PAGE_SIZE) OR PageMap_parse_flags flags)) ks"
        "\<forall>p. is_table b r s p \<longrightarrow> is_table b r s' p" "\<forall>p. owned b r s p \<longrightarrow> owned b r s' p"
        "\<forall>x \<in> taken (vphys s') - taken (vphys s). x = p \<or> is_table b r s' x" using m by auto
      have "fresh_pages b r start flags (Suc k) st s'" by (rule fresh_pages_Suc [OF conjunct1 [OF s] p])
      then show ?thesis using z m s by simp
    qed
  qed
  have "?P 0 st" using fresh_pages_0 [OF assms(1)] by simp
  from page_loop [where P = ?P and Q = ?Q and body = "map_fresh b start flags", OF assms(3) this step]
  show ?thesis by (auto split: sum.splits)
qed

subsection \<open>First fit\<close>

text \<open>The starts \<^verbatim>\<open>virtual_allocate\<close> tries: the base, and then every page with more than the range below the limit.\<close>

definition candidate :: "u64 \<Rightarrow> u64 \<Rightarrow> nat \<Rightarrow> nat \<Rightarrow> bool" where
  "candidate base limit n k \<longleftrightarrow> k = 0 \<or> unat base + 4096 * k + 4096 * n < unat limit"

text \<open>The first start from which all pages are unmapped, and that there is none.\<close>

definition first_fit :: "boot \<Rightarrow> nat \<Rightarrow> vm \<Rightarrow> u64 \<Rightarrow> u64 \<Rightarrow> nat \<Rightarrow> u64 \<Rightarrow> bool" where
  "first_fit b r st base limit n a \<longleftrightarrow> (\<exists>k. candidate base limit n k \<and> a = base + of_nat k * PAGE_SIZE \<and> unmapped b r st a n \<and>
     (\<forall>j < k. \<not> unmapped b r st (base + of_nat j * PAGE_SIZE) n))"

definition no_fit :: "boot \<Rightarrow> nat \<Rightarrow> vm \<Rightarrow> u64 \<Rightarrow> u64 \<Rightarrow> nat \<Rightarrow> bool" where
  "no_fit b r st base limit n \<longleftrightarrow> (\<forall>k. candidate base limit n k \<longrightarrow> \<not> unmapped b r st (base + of_nat k * PAGE_SIZE) n)"

definition allocation :: "boot \<Rightarrow> nat \<Rightarrow> vm \<Rightarrow> u64 \<Rightarrow> u64 \<Rightarrow> nat \<Rightarrow> u64 \<Rightarrow> u64 vmres \<Rightarrow> bool" where
  "allocation b r st base limit n flags res \<longleftrightarrow>
     (case res of
        Inl e \<Rightarrow> e = Phys_error Out_of_memory \<and> free_count (vphys st) < n * Suc (depth b)
      | Inr (a, st') \<Rightarrow> cr3 st' = from_higher_half (hhdm b) (top_lvl (this st')) \<and>
          (if a = 0 then no_fit b r st base limit n \<and> st' = pagemap_load b st
           else first_fit b r st base limit n a \<and> fresh_pages b r a flags n st st'))"

lemma top_lvl_load [simp]: "top_lvl (this (pagemap_load b st)) = top_lvl (this st)"
  by (simp add: pagemap_load_def)

lemma fresh_pages_load [simp]: "fresh_pages b r a flags n st (pagemap_load b' st') = fresh_pages b r a flags n st st'"
  by (simp add: fresh_pages_def)

lemma scan_pages_fit:
  assumes "vm_inv b r st" "unat a + 4096 * n < 18446744073709551616"
  shows "\<exists>x. scan_pages b a (of_nat n * PAGE_SIZE) st = Inr (x, st) \<and> (a + of_nat n * PAGE_SIZE \<le> x \<longleftrightarrow> unmapped b r st a n)"
proof -
  obtain k where k: "k \<le> n" "scan_pages b a (of_nat n * PAGE_SIZE) st = Inr (a + of_nat k * PAGE_SIZE, st)" "unmapped b r st a k"
    "k < n \<longrightarrow> vleaf b r st (pages_at b a k) \<noteq> None" using scan_pages_outcome [OF assms] by blast
  have m: "4096 * k \<le> 4096 * n" using k(1) by simp
  have u: "unat (a + of_nat k * PAGE_SIZE) = unat a + 4096 * k" "unat (a + of_nat n * PAGE_SIZE) = unat a + 4096 * n"
    using assms(2) m by (intro unat_step, linarith)+
  have "a + of_nat n * PAGE_SIZE \<le> a + of_nat k * PAGE_SIZE \<longleftrightarrow> n \<le> k" unfolding word_le_nat_alt u by simp
  moreover have "n \<le> k \<longleftrightarrow> unmapped b r st a n"
  proof (cases "k < n")
    case True
    then have "vleaf b r st (pages_at b a k) \<noteq> None" using k(4) by blast
    then show ?thesis using True unfolding unmapped_def by (meson not_less)
  next
    case False
    then show ?thesis using k(1,3) by simp
  qed
  ultimately show ?thesis using k(2) by blast
qed

lemma allocate_from:
  assumes "vm_inv b r st" "small_present flags" "0 < n" "base \<noteq> 0" "unat base + 4096 * n \<le> unat limit"
    "candidate base limit n j" "\<forall>i < j. \<not> unmapped b r st (base + of_nat i * PAGE_SIZE) n"
  shows "allocation b r st base limit n flags
    (virtual_allocate_from b (base + of_nat j * PAGE_SIZE) (limit - of_nat n * PAGE_SIZE) (of_nat n * PAGE_SIZE) flags st)"
  using assms(6,7)
proof (induction "unat limit - 4096 * j" arbitrary: j rule: less_induct)
  case less
  let ?a = "base + of_nat j * PAGE_SIZE" and ?s = "of_nat n * PAGE_SIZE :: u64"
  have lim: "unat base + 4096 * j + 4096 * n \<le> unat limit" using less(2) assms(5) by (auto simp: candidate_def)
  have b64: "unat limit < 18446744073709551616" by (rule unat_lt64)
  have m: "4096 \<le> 4096 * n" using assms(3) by simp
  have u: "unat ?a = unat base + 4096 * j" using lim b64 by (intro unat_step) linarith
  have us: "unat ?s = 4096 * n" using unat_step [of 0 n] lim b64 by simp
  have u1: "unat (base + of_nat (Suc j) * PAGE_SIZE) = unat base + 4096 * j + 4096" 
    using unat_step [of base "Suc j"] lim b64 m by simp
  have a0: "?a \<noteq> 0" using u assms(4) by (metis add_is_0 unat_eq_0)
  have nxt: "?a + PAGE_SIZE = base + of_nat (Suc j) * PAGE_SIZE" by (simp add: algebra_simps)
  have e: "unat (limit - ?s) = unat limit - 4096 * n" using lim us by (simp add: unat_sub word_le_nat_alt)
  have nw: "\<not> ?a + PAGE_SIZE \<le> ?a" unfolding nxt word_le_nat_alt u u1 by simp
  have lt: "?a + PAGE_SIZE < limit - ?s \<longleftrightarrow> candidate base limit n (Suc j)"
    unfolding nxt word_less_nat_alt u1 e candidate_def using lim by auto
  have r64: "unat ?a + 4096 * n < 18446744073709551616" using u lim b64 by linarith
  obtain x where x: "scan_pages b ?a ?s st = Inr (x, st)" "?a + ?s \<le> x \<longleftrightarrow> unmapped b r st ?a n"
    using scan_pages_fit [OF assms(1) r64] by blast
  show ?case
  proof (cases "unmapped b r st ?a n")
    case True
    have p: "pages_between 0 ?s n" using us assms(3) r64 by (simp add: pages_between_def)
    have "virtual_allocate_from b ?a (limit - ?s) ?s flags st = vbind (for_loop (map_fresh b ?a flags) 0 ?s PAGE_SIZE st)
        (\<lambda>(y, _) st. Inr (if y = SYSTEM_OK then ?a else 0, pagemap_load b st))"
      using x True by (subst virtual_allocate_from.simps) simp
    moreover have "first_fit b r st base limit n ?a" using True less(2,3) by (auto simp: first_fit_def)
    ultimately show ?thesis using fresh_loop [OF assms(1,2) p, of ?a] a0
      by (cases "for_loop (map_fresh b ?a flags) 0 ?s PAGE_SIZE st") (auto simp: allocation_def)
  next
    case False
    then have none: "\<forall>i < Suc j. \<not> unmapped b r st (base + of_nat i * PAGE_SIZE) n" using less(3) by (auto simp: less_Suc_eq)
    show ?thesis
    proof (cases "candidate base limit n (Suc j)")
      case True
      have "unat limit - 4096 * Suc j < unat limit - 4096 * j" using lim m by simp
      from less(1) [OF this True none] show ?thesis using x nw lt True False
        by (subst virtual_allocate_from.simps) (simp add: nxt del: of_nat_Suc)
    next
      case over: False
      have "no_fit b r st base limit n" unfolding no_fit_def
      proof (intro allI impI)
        fix k assume "candidate base limit n k"
        then have "k < Suc j" using over by (auto simp: candidate_def)
        then show "\<not> unmapped b r st (base + of_nat k * PAGE_SIZE) n" using none by blast
      qed
      then show ?thesis using x nw lt over False
        by (subst virtual_allocate_from.simps) (simp add: allocation_def)
    qed
  qed
qed

lemma allocate_range:
  assumes "vm_inv b r st" "small_present flags" "count \<noteq> 0" "base \<noteq> 0" "unat base + 4096 * unat count \<le> unat limit"
  shows "allocation b r st base limit (unat count) flags (virtual_allocate_range b base limit count flags st)"
proof -
  have "0 < unat count" using assms(3) by (simp add: unat_gt_0)
  from allocate_from [OF assms(1,2) this assms(4,5), of 0] show ?thesis
    by (simp add: virtual_allocate_range_def candidate_def)
qed

lemma first_fit_address:
  assumes "first_fit b r st base limit n a" "unat base + 4096 * n \<le> unat limit"
  shows "\<exists>k. unat a = unat base + 4096 * k" "unat a + 4096 * n \<le> unat limit"
proof -
  obtain k where k: "candidate base limit n k" "a = base + of_nat k * PAGE_SIZE" using assms(1) by (auto simp: first_fit_def)
  then have l: "unat base + 4096 * k + 4096 * n \<le> unat limit" using assms(2) by (auto simp: candidate_def)
  then have "unat a = unat base + 4096 * k" unfolding k(2) using unat_lt64 [of limit] by (intro unat_step) linarith
  then show "\<exists>k. unat a = unat base + 4096 * k" "unat a + 4096 * n \<le> unat limit" using l by auto
qed

lemma fresh_pages_mapped:
  assumes "fresh_pages b r a flags n st st'" "i < n"
  shows "vleaf b r st' (pages_at b a i) \<noteq> None"
proof -
  obtain q where q: "\<forall>ks. is_page (depth b) ks \<longrightarrow> vleaf b r st' ks = update_range (vleaf b r st) (pages_at b a) (fresh_entry q flags) n ks"
    using assms(1) by (auto simp: fresh_pages_def)
  have "update_range f (pages_at b a) (fresh_entry q flags) m (pages_at b a i) \<noteq> None" if "i < m" for m f
    using that by (induction m) (auto simp: fresh_entry_def less_Suc_eq)
  then show ?thesis using q assms(2) vpage_page by simp
qed


lemma machine_fit: "\<not> no_fit boot_machine 1 vm_machine 0xFFFF900000000000 0xFFFFFFFF80000000 1"
proof -
  have "vleaf boot_machine 1 vm_machine (vpage boot_machine 0xFFFF900000000000) = None"
    by (rule machine_no_leaf) (use vpage_page [of boot_machine] in \<open>simp add: depth_def boot_machine_def\<close>)
  then show ?thesis by (auto simp: no_fit_def candidate_def unmapped_def intro!: exI [of _ 0])
qed


subsection \<open>Allocation and release\<close>

lemma free_fresh_page:
  assumes "vm_inv b r st" "small_present flags" "fresh_pages b r a flags 1 st st1" "unmapped b r st a 1" "a mod PAGE_SIZE = 0"
  shows "\<exists>st2. virtual_free b a 1 st1 = Inr ((), st2) \<and> vm_inv b r st2 \<and> taken (vphys st) \<subseteq> taken (vphys st2) \<and>
    (\<forall>p \<in> taken (vphys st2) - taken (vphys st). is_table b r st2 p) \<and> (\<forall>ks. is_page (depth b) ks \<longrightarrow> vleaf b r st2 ks = vleaf b r st ks)"
proof -
  obtain q where inv: "vm_inv b r st1" and sub: "taken (vphys st) \<subseteq> taken (vphys st1)" and q: "owned b r st1 (q 0)" "q 0 \<notin> taken (vphys st)"
    and new: "\<forall>p \<in> taken (vphys st1) - taken (vphys st). p = q 0 \<or> is_table b r st1 p"
    and leaf: "\<forall>ks. is_page (depth b) ks \<longrightarrow> vleaf b r st1 ks = ((vleaf b r st)(vpage b a \<mapsto> of_nat (q 0) * PAGE_SIZE OR PageMap_parse_flags flags)) ks"
    using assms(3) by (auto simp: fresh_pages_def fresh_entry_def lessThan_Suc)
  let ?v = "of_nat (q 0) * PAGE_SIZE OR PageMap_parse_flags flags"
  have v: "vleaf b r st1 (vpage b a) = Some ?v" using leaf by simp
  have fr: "unat (pte_get_address ?v) div 4096 = q 0" using owned_address [OF inv q(1) small_presentD [OF assms(2)]] by simp
  obtain st2 where st2: "virtual_free_loop b a (Suc 0) st1 = Inr ((), st2)" "vm_inv b r st2" "taken (vphys st2) = taken (vphys st1) - {q 0}"
    "is_table b r st2 = is_table b r st1" "\<forall>ks. is_page (depth b) ks \<longrightarrow> vleaf b r st2 ks = ((vleaf b r st1)(vpage b a := None)) ks"
    using virtual_free_mapped [OF inv assms(5) v fr q(1)] by blast
  have "align_down a PAGE_SIZE = a" using align_down_pow2(1) [of 12 a] assms(5) by (simp add: PAGE_SIZE_def)
  then have "virtual_free b a 1 st1 = Inr ((), st2)" using st2(1) by (simp add: virtual_free_def del: virtual_free_loop.simps)
  moreover have "vleaf b r st2 ks = vleaf b r st ks" if "is_page (depth b) ks" for ks
    using st2(5) leaf that assms(4) by (auto simp: unmapped_def)
  ultimately show ?thesis using st2(2-4) sub q(2) new by auto
qed



end
