(* ===== verification/Heap.thy ===== *)
theory Heap
  imports Buddy_Realloc Virtual_Alloc
begin

text \<open>
  The kernel heap: \<^verbatim>\<open>kernel/memory/heap.cpp\<close>, its C interface \<^verbatim>\<open>libs/malloc.cpp\<close> and the operators of \<^verbatim>\<open>libs/new.cpp\<close>.
  The globals are a record; \<open>hmem\<close> is the memory at the virtual addresses of the heap, a memory of its own:
  writes through the arena do not reach the physical memory \<open>pmem\<close> in which the bitmap and the page tables
  lie.  This is what the code is meant to have, not what it has: \<^verbatim>\<open>virtual_allocate\<close> maps page \<open>i\<close> of the arena
  to the frame \<open>i\<close> behind the one it took for it (\<open>Virtual_Alloc\<close>), so that from the second page on the arena
  lies in frames that the heap does not own, and the results on the heap hold as long as nobody else
  uses those.  What a client of an allocator of blocks may rely on is the
  locale \<open>block_store\<close>, interpreted on the heap.
\<close>

subsection \<open>The globals and the operations\<close>

record heap =
  heap_arena :: u64
  heap_buddy :: u64
  heap_lock :: TicketLock
  hmem :: mem

datatype heap_error = Heap_lock lock_error | Heap_loops | Heap_assert | Heap_vm page_error

text \<open>\<^verbatim>\<open>std::bit_ceil\<close>: the least power of two that is not smaller.\<close>

definition bit_ceil :: "u64 \<Rightarrow> u64" where
  "bit_ceil x = of_nat (2 ^ clog (unat x))"

text \<open>
  \<^verbatim>\<open>heap_init\<close>.  The local structure that \<^verbatim>\<open>physical_get_status\<close> fills is a copy of the allocator's statistics;
  \<^verbatim>\<open>virtual_allocate\<close> is called with its default flags.
\<close>

definition heap_init :: "boot \<Rightarrow> u64 \<Rightarrow> vm \<Rightarrow> heap \<Rightarrow> heap_error + vm \<times> heap" where
  "heap_init bt kernel_virtual_base st h =
     (let stats = phys_stats (vphys st);
          arena_size = bit_ceil (total_pages stats div 16)
      in case virtual_allocate bt kernel_virtual_base arena_size (MAP_WRITE OR MAP_READ) st of
           Inl e \<Rightarrow> Inl (Heap_vm e)
         | Inr (arena, st) \<Rightarrow>
             let h = h\<lparr>heap_arena := arena\<rparr>
             in case buddy_embed (hmem h) arena (arena_size * PAGE_SIZE) of
                  None \<Rightarrow> Inl Heap_loops
                | Some (buddy, m) \<Rightarrow>
                    let h = h\<lparr>heap_buddy := buddy, hmem := m\<rparr>
                    in if buddy = 0 then Inl Heap_assert else Inr (st, h))"

text \<open>A call of the allocator in the scope of \<^verbatim>\<open>ScopedLock guard(heap_lock)\<close>.\<close>

definition heap_section :: "(mem \<Rightarrow> u64 \<Rightarrow> ('a \<times> mem) option) \<Rightarrow> heap \<Rightarrow> heap_error + 'a \<times> heap" where
  "heap_section call h =
     (case lock_seq (heap_lock h) of
        Inl e \<Rightarrow> Inl (Heap_lock e)
      | Inr l \<Rightarrow>
          (case call (hmem h) (heap_buddy h) of
             None \<Rightarrow> Inl Heap_loops
           | Some (r, m) \<Rightarrow> Inr (r, h\<lparr>heap_lock := unlock_seq l, hmem := m\<rparr>)))"

definition heap_malloc :: "u64 \<Rightarrow> heap \<Rightarrow> heap_error + u64 \<times> heap" where
  "heap_malloc sz h = (if sz = 0 then Inr (0, h) else heap_section (\<lambda>m b. buddy_malloc m b sz) h)"

definition heap_calloc :: "u64 \<Rightarrow> u64 \<Rightarrow> heap \<Rightarrow> heap_error + u64 \<times> heap" where
  "heap_calloc nmemb sz h = (if sz = 0 \<or> nmemb = 0 then Inr (0, h) else heap_section (\<lambda>m b. buddy_calloc m b nmemb sz) h)"

definition heap_realloc :: "u64 \<Rightarrow> u64 \<Rightarrow> heap \<Rightarrow> heap_error + u64 \<times> heap" where
  "heap_realloc ptr sz h = (if ptr = 0 \<or> sz = 0 then Inr (0, h) else heap_section (\<lambda>m b. buddy_realloc m b ptr sz False) h)"

definition heap_free :: "u64 \<Rightarrow> heap \<Rightarrow> heap_error + heap" where
  "heap_free ptr h =
     (if ptr = 0 then Inr h else map_sum id snd (heap_section (\<lambda>m b. map_option (Pair ()) (buddy_free m b ptr)) h))"

subsection \<open>The interfaces of C and C++\<close>

definition libc_malloc :: "u64 \<Rightarrow> heap \<Rightarrow> heap_error + u64 \<times> heap" where
  "libc_malloc sz = heap_malloc sz"

definition libc_calloc :: "u64 \<Rightarrow> u64 \<Rightarrow> heap \<Rightarrow> heap_error + u64 \<times> heap" where
  "libc_calloc nmemb sz = heap_calloc nmemb sz"

definition libc_realloc :: "u64 \<Rightarrow> u64 \<Rightarrow> heap \<Rightarrow> heap_error + u64 \<times> heap" where
  "libc_realloc ptr new_size = heap_realloc ptr new_size"

definition libc_free :: "u64 \<Rightarrow> heap \<Rightarrow> heap_error + heap" where
  "libc_free ptr = heap_free ptr"

text \<open>
  The operators differ in their tags only: the array forms, \<^verbatim>\<open>std::nothrow\<close> and an alignment, all of which
  they ignore.
\<close>

datatype new_tag = New_plain | New_nothrow | New_align u64 | New_align_nothrow u64

definition operator_new :: "new_tag \<Rightarrow> u64 \<Rightarrow> heap \<Rightarrow> heap_error + u64 \<times> heap" where
  "operator_new tag sz = libc_malloc sz"

definition operator_new_array :: "new_tag \<Rightarrow> u64 \<Rightarrow> heap \<Rightarrow> heap_error + u64 \<times> heap" where
  "operator_new_array tag sz = libc_malloc sz"

definition operator_delete :: "new_tag \<Rightarrow> u64 \<Rightarrow> heap \<Rightarrow> heap_error + heap" where
  "operator_delete tag ptr = libc_free ptr"

definition operator_delete_array :: "new_tag \<Rightarrow> u64 \<Rightarrow> heap \<Rightarrow> heap_error + heap" where
  "operator_delete_array tag ptr = libc_free ptr"

subsection \<open>The invariant\<close>

definition heap_inv :: "geometry \<Rightarrow> u64 \<Rightarrow> heap \<Rightarrow> nat set \<Rightarrow> bool" where
  "heap_inv g main h A \<longleftrightarrow> heap_arena h = main \<and> buddy_inv g main (hmem h) (heap_buddy h) A \<and> \<not> is_locked (heap_lock h)"

text \<open>A call of the allocator that returns is a call of the heap that returns and releases the lock.\<close>

lemma heap_section_ok:
  assumes "heap_inv g main h A" "call (hmem h) (heap_buddy h) = Some (r, m)"
  shows "\<exists>h'. heap_section call h = Inr (r, h') \<and> hmem h' = m \<and> heap_arena h' = main \<and> heap_buddy h' = heap_buddy h \<and>
    \<not> is_locked (heap_lock h')"
proof -
  obtain l where l: "lock_seq (heap_lock h) = Inr l" "\<not> is_locked (unlock_seq l)"
    using ticket_mutex.acquire_free assms(1) by (auto simp: heap_inv_def)
  then show ?thesis using assms by (simp add: heap_section_def heap_inv_def)
qed

text \<open>The blocks of the arena, their addresses and their contents.\<close>

definition in_arena :: "geometry \<Rightarrow> nat \<Rightarrow> bool" where
  "in_arena g a \<longleftrightarrow> boff g a < g_size g"

definition baddr :: "geometry \<Rightarrow> u64 \<Rightarrow> nat \<Rightarrow> u64" where
  "baddr g main a = main + of_nat (boff g a)"

definition keeps_block :: "geometry \<Rightarrow> u64 \<Rightarrow> nat \<Rightarrow> heap \<Rightarrow> heap \<Rightarrow> bool" where
  "keeps_block g main a h h' \<longleftrightarrow> (\<forall>x. in_block g main a x \<longrightarrow> hmem h' x = hmem h x)"

lemma arena_block:
  assumes "buddy_inv g main m b A" "a \<in> A" "in_arena g a"
  shows "boff g a + block_size g a \<le> g_size g"
  using assms(2,3) user_block [OF buddy_invD(1,11,10) [OF assms(1)]] by (simp add: in_arena_def)

lemma keeps_meta:
  assumes "heap_inv g main h A" "a \<in> A" "in_arena g a" "meta_frame g (heap_buddy h) (hmem h) (hmem h')"
  shows "keeps_block g main a h h'"
  using assms(4) in_block_arena(2) [OF _ arena_block [OF _ assms(2,3)]] assms(1) by (auto simp: keeps_block_def meta_frame_def heap_inv_def)

lemma keeps_other:
  assumes "heap_inv g main h A" "a \<in> A" "in_arena g a" "block_frame g main (heap_buddy h) j (hmem h) (hmem h')"
    "boff g j + block_size g j \<le> g_size g" "block g a \<inter> block g j = {}"
  shows "keeps_block g main a h h'"
  unfolding keeps_block_def
proof (intro allI impI)
  fix x assume x: "in_block g main a x"
  have inv: "buddy_inv g main (hmem h) (heap_buddy h) A" using assms(1) by (simp add: heap_inv_def)
  note b = in_block_arena [OF inv arena_block [OF inv assms(2,3)] x]
  have "\<not> in_block g main j x" using b(3) in_block_arena(3) [OF inv assms(5)] assms(6) by blast
  then show "hmem h' x = hmem h x" using b(2) assms(4) by (simp add: block_frame_def)
qed

subsection \<open>Stores of blocks\<close>

text \<open>
  Requests of a client of a store of blocks, and their execution in order; \<open>alloc\<close> serves requests of a
  type of its own.
\<close>

datatype 'q call = Alloc 'q | Release u64

primrec run_calls :: "('q \<Rightarrow> 's \<Rightarrow> 'e + u64 \<times> 's) \<Rightarrow> (u64 \<Rightarrow> 's \<Rightarrow> 'e + 's) \<Rightarrow> 'q call list \<Rightarrow> 's \<Rightarrow> 'e + 's" where
  "run_calls alloc release [] s = Inr s"
| "run_calls alloc release (c # cs) s =
     (case (case c of Alloc q \<Rightarrow> map_sum id snd (alloc q s) | Release p \<Rightarrow> release p s) of
        Inl e \<Rightarrow> Inl e
      | Inr s \<Rightarrow> run_calls alloc release cs s)"

locale block_store =
  fixes inv :: "'s \<Rightarrow> 'b set \<Rightarrow> bool"
    and alloc :: "'q \<Rightarrow> 's \<Rightarrow> 'e + u64 \<times> 's"
    and release :: "u64 \<Rightarrow> 's \<Rightarrow> 'e + 's"
    and live :: "'b \<Rightarrow> bool"
    and addr :: "'b \<Rightarrow> u64"
    and keeps :: "'b \<Rightarrow> 's \<Rightarrow> 's \<Rightarrow> bool"
  assumes alloc_law: "inv s A \<Longrightarrow> \<exists>p s' B. alloc q s = Inr (p, s') \<and> inv s' B \<and> (p = 0 \<and> B = A \<or> (\<exists>j. p = addr j \<and> live j \<and> j \<notin> A \<and> B = insert j A)) \<and>
      (\<forall>a \<in> A. live a \<longrightarrow> keeps a s s')"
    and release_law: "inv s A \<Longrightarrow> \<exists>s' B. release p s = Inr s' \<and> inv s' B \<and> (B = A \<or> (\<exists>a \<in> A. live a \<and> p = addr a \<and> B = A - {a})) \<and>
      (\<forall>a \<in> A. live a \<longrightarrow> keeps a s s')"
    and keeps_refl: "keeps a s s"
    and keeps_trans: "keeps a s s' \<Longrightarrow> keeps a s' s'' \<Longrightarrow> keeps a s s''"
begin

text \<open>One call returns, and a block whose address is not released stays allocated with its contents.\<close>

lemma call_keeps:
  assumes "inv s A" "a \<in> A" "live a" "c \<noteq> Release (addr a)"
  shows "\<exists>s' B. (case c of Alloc q \<Rightarrow> map_sum id snd (alloc q s) | Release p \<Rightarrow> release p s) = Inr s' \<and> inv s' B \<and> a \<in> B \<and> keeps a s s'"
proof (cases c)
  case (Alloc q)
  then show ?thesis using alloc_law [OF assms(1), of q] assms(2,3) by force
next
  case (Release p)
  obtain s' B where s': "release p s = Inr s'" "inv s' B" "B = A \<or> (\<exists>x \<in> A. live x \<and> p = addr x \<and> B = A - {x})" "keeps a s s'"
    using release_law [OF assms(1), of p] assms(2,3) by blast
  then have "a \<in> B" using assms(2,4) Release by auto
  then show ?thesis using Release s' by auto
qed

lemma calls_keep:
  assumes "inv s A" "a \<in> A" "live a" "Release (addr a) \<notin> set cs"
  shows "\<exists>s' B. run_calls alloc release cs s = Inr s' \<and> inv s' B \<and> a \<in> B \<and> keeps a s s'"
  using assms
proof (induction cs arbitrary: s A)
  case Nil
  then show ?case using keeps_refl by auto
next
  case (Cons c cs)
  then obtain s1 B1 where s1: "(case c of Alloc q \<Rightarrow> map_sum id snd (alloc q s) | Release p \<Rightarrow> release p s) = Inr s1"
    "inv s1 B1" "a \<in> B1" "keeps a s s1" using call_keeps [of s A a c] by auto
  obtain s' B where "run_calls alloc release cs s1 = Inr s'" "inv s' B" "a \<in> B" "keeps a s1 s'"
    using Cons.IH [OF s1(2,3)] Cons.prems by auto
  then show ?case using s1 keeps_trans by auto
qed

lemma calls_return:
  assumes "inv s A"
  shows "\<exists>s' B. run_calls alloc release cs s = Inr s' \<and> inv s' B"
  using assms
proof (induction cs arbitrary: s A)
  case (Cons c cs)
  have "\<exists>s1 B1. (case c of Alloc q \<Rightarrow> map_sum id snd (alloc q s) | Release p \<Rightarrow> release p s) = Inr s1 \<and> inv s1 B1"
  proof (cases c)
    case (Alloc q)
    then show ?thesis using alloc_law [OF Cons.prems, of q] by auto
  next
    case (Release p)
    then show ?thesis using release_law [OF Cons.prems, of p] by auto
  qed
  then show ?case using Cons.IH by auto
qed auto

end

subsection \<open>The heap as a store of blocks\<close>

datatype heap_request = Malloc u64 | Calloc u64 u64

definition heap_alloc :: "heap_request \<Rightarrow> heap \<Rightarrow> heap_error + u64 \<times> heap" where
  "heap_alloc q = (case q of Malloc sz \<Rightarrow> libc_malloc sz | Calloc nmemb sz \<Rightarrow> libc_calloc nmemb sz)"

text \<open>The number of bytes of a request, without wrap-around.\<close>

definition request_bytes :: "heap_request \<Rightarrow> nat" where
  "request_bytes q = (case q of Malloc sz \<Rightarrow> unat sz | Calloc nmemb sz \<Rightarrow> unat nmemb * unat sz)"

lemma heap_call_block:
  assumes "heap_inv g main h A" "call (hmem h) (heap_buddy h) = Some (main + of_nat (boff g j), m)" "serves g A r j"
    "buddy_inv g main m (heap_buddy h) (insert j A)" "block_frame g main (heap_buddy h) j (hmem h) m"
  shows "\<exists>h'. heap_section call h = Inr (baddr g main j, h') \<and> heap_inv g main h' (insert j A) \<and> hmem h' = m \<and>
    (\<forall>a \<in> A. in_arena g a \<longrightarrow> keeps_block g main a h h')"
proof -
  obtain h' where h': "heap_section call h = Inr (baddr g main j, h')" "hmem h' = m" "heap_arena h' = main" "heap_buddy h' = heap_buddy h"
    "\<not> is_locked (heap_lock h')" using heap_section_ok [OF assms(1), of call, OF assms(2)] by (auto simp: baddr_def)
  have "heap_inv g main h' (insert j A)" using h' assms(4) by (simp add: heap_inv_def)
  moreover have "keeps_block g main a h h'" if "a \<in> A" "in_arena g a" for a
    using keeps_other [OF assms(1) that, of j h'] assms(3,5) h'(2) that by (simp add: serves_def)
  ultimately show ?thesis using h' by blast
qed

lemma heap_call_null:
  assumes "heap_inv g main h A" "call (hmem h) (heap_buddy h) = Some (0, hmem h)"
  shows "\<exists>h'. heap_section call h = Inr (0, h') \<and> heap_inv g main h' A \<and> hmem h' = hmem h"
  using heap_section_ok [OF assms(1), of call, OF assms(2)] assms(1) by (auto simp: heap_inv_def)

text \<open>
  Requests are served from the blocks that fit; requests of no bytes get none.
\<close>

lemma heap_alloc_serves:
  assumes "heap_inv g main h A" "r = request_bytes q"
  shows "if r \<noteq> 0 \<and> (\<exists>j. serves g A r j)
    then \<exists>j h'. heap_alloc q h = Inr (baddr g main j, h') \<and> serves g A r j \<and> heap_inv g main h' (insert j A) \<and>
      (\<forall>a \<in> A. in_arena g a \<longrightarrow> keeps_block g main a h h')
    else \<exists>h'. heap_alloc q h = Inr (0, h') \<and> heap_inv g main h' A \<and> hmem h' = hmem h"
proof -
  let ?m = "hmem h" and ?b = "heap_buddy h"
  have inv: "buddy_inv g main ?m ?b A" using assms(1) by (simp add: heap_inv_def)
  have frame: "block_frame g main ?b j ?m m" if "meta_frame g ?b ?m m" for j m using that by (simp add: meta_frame_def block_frame_def)
  show ?thesis
  proof (cases q)
    case (Malloc sz)
    then have r: "r = unat sz" and q: "heap_alloc q h = (if sz = 0 then Inr (0, h) else heap_section (\<lambda>m b. buddy_malloc m b sz) h)"
      using assms(2) by (simp_all add: request_bytes_def heap_alloc_def libc_malloc_def heap_malloc_def)
    show ?thesis
    proof (cases "sz = 0")
      case False
      then have "0 < r" using r by (simp add: unat_gt_0)
      then have "r = max 1 (unat sz)" "r \<noteq> 0" using r by simp_all
      note ms = malloc_serves [OF inv this(1)]
      show ?thesis
        using ms \<open>r \<noteq> 0\<close> q False heap_call_block [OF assms(1), of "\<lambda>m b. buddy_malloc m b sz", OF _ _ _ frame]
          heap_call_null [OF assms(1), of "\<lambda>m b. buddy_malloc m b sz"] by (cases "\<exists>j. serves g A r j") (auto, blast)
    qed (use r q assms(1) in simp)
  next
    case (Calloc n sz)
    let ?call = "\<lambda>m b. buddy_calloc m b n sz"
    have r: "r = unat n * unat sz" and q: "heap_alloc q h = (if sz = 0 \<or> n = 0 then Inr (0, h) else heap_section ?call h)"
      using assms(2) Calloc by (simp_all add: request_bytes_def heap_alloc_def libc_calloc_def heap_calloc_def)
    show ?thesis
    proof (cases "sz = 0 \<or> n = 0")
      case False
      then have "r = (if n = 0 \<or> sz = 0 then 1 else unat n * unat sz)" "r \<noteq> 0" using r by (auto simp: unat_eq_0)
      note cs = calloc_serves [OF inv this(1)]
      show ?thesis
        using cs \<open>r \<noteq> 0\<close> q False heap_call_block [OF assms(1), of ?call] heap_call_null [OF assms(1), of ?call]
        by (cases "\<exists>j. serves g A r j") (auto, blast)
    qed (use r q assms(1) in auto)
  qed
qed

lemma heap_free_block:
  assumes "heap_inv g main h A"
  shows "a \<in> A \<Longrightarrow> in_arena g a \<Longrightarrow> \<exists>h'. libc_free (baddr g main a) h = Inr h' \<and> heap_inv g main h' (A - {a}) \<and>
      (\<forall>c \<in> A. in_arena g c \<longrightarrow> keeps_block g main c h h')"
    "(\<And>a. a \<in> A \<Longrightarrow> in_arena g a \<Longrightarrow> ptr \<noteq> baddr g main a) \<Longrightarrow>
      \<exists>h'. libc_free ptr h = Inr h' \<and> heap_inv g main h' A \<and> hmem h' = hmem h"
proof -
  let ?call = "\<lambda>m b. map_option (Pair ()) (buddy_free m b ptr)" and ?m = "hmem h" and ?b = "heap_buddy h"
  have inv: "buddy_inv g main ?m ?b A" using assms(1) by (simp add: heap_inv_def)
  { assume a: "a \<in> A" "in_arena g a"
    let ?p = "baddr g main a"
    obtain m where m: "buddy_free ?m ?b ?p = Some m" "buddy_inv g main m ?b (A - {a})" "meta_frame g ?b ?m m"
      using free_block(1) [OF inv a(1)] a(2) by (auto simp: in_arena_def baddr_def)
    obtain h' where h': "heap_section (\<lambda>m b. map_option (Pair ()) (buddy_free m b ?p)) h = Inr ((), h')" "hmem h' = m"
      "heap_arena h' = main" "heap_buddy h' = ?b" "\<not> is_locked (heap_lock h')"
      using heap_section_ok [OF assms(1), of "\<lambda>m b. map_option (Pair ()) (buddy_free m b ?p)" "()" m] m(1) by auto
    have "?p \<noteq> 0" using arena_offset_iff(2) [OF inv] a(2) by (simp add: baddr_def in_arena_def)
    then have "libc_free ?p h = Inr h'" using h'(1) by (simp add: libc_free_def heap_free_def)
    moreover have "heap_inv g main h' (A - {a})" using h' m(2) by (simp add: heap_inv_def)
    ultimately show "\<exists>h'. libc_free ?p h = Inr h' \<and> heap_inv g main h' (A - {a}) \<and>
      (\<forall>c \<in> A. in_arena g c \<longrightarrow> keeps_block g main c h h')"
      using keeps_meta [OF assms(1)] m(3) h'(2) by blast }
  { assume "\<And>a. a \<in> A \<Longrightarrow> in_arena g a \<Longrightarrow> ptr \<noteq> baddr g main a"
    then have "buddy_free ?m ?b ptr = Some ?m" using free_block(2) [OF inv, of ptr] by (auto simp: in_arena_def baddr_def)
    then show "\<exists>h'. libc_free ptr h = Inr h' \<and> heap_inv g main h' A \<and> hmem h' = hmem h"
      using heap_section_ok [OF assms(1), of ?call "()" ?m] assms(1) by (cases "ptr = 0") (auto simp: libc_free_def heap_free_def heap_inv_def) }
qed

interpretation heap_store: block_store "heap_inv g main" heap_alloc libc_free "in_arena g" "baddr g main" "keeps_block g main"
  for g main
proof
  fix h A q
  assume inv: "heap_inv g main h A"
  have same: "keeps_block g main a h h'" if "hmem h' = hmem h" for a h' using that by (simp add: keeps_block_def)
  show "\<exists>p h' B. heap_alloc q h = Inr (p, h') \<and> heap_inv g main h' B \<and>
      (p = 0 \<and> B = A \<or> (\<exists>j. p = baddr g main j \<and> in_arena g j \<and> j \<notin> A \<and> B = insert j A)) \<and>
      (\<forall>a \<in> A. in_arena g a \<longrightarrow> keeps_block g main a h h')"
  proof (cases "request_bytes q \<noteq> 0 \<and> (\<exists>j. serves g A (request_bytes q) j)")
    case True
    then obtain j h' where j: "heap_alloc q h = Inr (baddr g main j, h')" "serves g A (request_bytes q) j" "heap_inv g main h' (insert j A)"
      "\<forall>a \<in> A. in_arena g a \<longrightarrow> keeps_block g main a h h'" using heap_alloc_serves [OF inv refl, of q] by auto
    have "geo_ok g" using inv by (simp add: heap_inv_def buddy_inv_def)
    then have "in_arena g j" "j \<notin> A" using serves_arena [OF _ j(2)] by (simp_all add: in_arena_def)
    then show ?thesis using j by blast
  next
    case False
    then have "\<exists>h'. heap_alloc q h = Inr (0, h') \<and> heap_inv g main h' A \<and> hmem h' = hmem h" using heap_alloc_serves [OF inv refl, of q] by (simp only: if_False)
    then show ?thesis using same by blast
  qed
  fix p
  show "\<exists>h' B. libc_free p h = Inr h' \<and> heap_inv g main h' B \<and> (B = A \<or> (\<exists>a \<in> A. in_arena g a \<and> p = baddr g main a \<and> B = A - {a})) \<and>
      (\<forall>a \<in> A. in_arena g a \<longrightarrow> keeps_block g main a h h')"
    using heap_free_block [OF inv] same by (cases "\<exists>a \<in> A. in_arena g a \<and> p = baddr g main a") blast+
qed (simp_all add: keeps_block_def)

text \<open>
  C18: a block of the heap belongs to its owner.  Whatever calls of \<^verbatim>\<open>malloc\<close>, \<^verbatim>\<open>calloc\<close> and \<^verbatim>\<open>free\<close> follow,
  with any sizes and any pointers but its own address, all of them return, the block stays
  allocated, its contents stay as they are, and it overlaps no other allocated block.
\<close>

theorem heap_calls_safe:
  assumes "heap_inv g main h A" "a \<in> A" "in_arena g a" "Release (baddr g main a) \<notin> set cs"
  shows "\<exists>h' B. run_calls heap_alloc libc_free cs h = Inr h' \<and> heap_inv g main h' B \<and> a \<in> B \<and>
    (\<forall>x. in_block g main a x \<longrightarrow> hmem h' x = hmem h x) \<and> (\<forall>c \<in> B. c \<noteq> a \<longrightarrow> block g c \<inter> block g a = {})"
proof -
  obtain h' B where B: "run_calls heap_alloc libc_free cs h = Inr h'" "heap_inv g main h' B" "a \<in> B" "keeps_block g main a h h'"
    using heap_store.calls_keep [OF assms] by blast
  have inv: "geo_ok g" "antichain (g_order g) B" using B(2) by (auto simp: heap_inv_def dest: buddy_invD(1,11))
  have "block g c \<inter> block g a = {}" if "c \<in> B" "c \<noteq> a" for c
    using block_disjoint [OF inv(1), of c a] inv(2) B(3) that by (auto simp: antichain_def)
  then show ?thesis using B by (auto simp: keeps_block_def)
qed

subsection \<open>Initialization\<close>

text \<open>The data of the allocator fit into an arena of whole pages.\<close>

lemma pages_fit:
  assumes "s = 2 ^ k * 4096"
  shows "meta_bytes (geo_for 64 s) + 72 \<le> s"
proof -
  have "s = 64 * (2 ^ (k + 6))" using assms by (simp add: power_add)
  then have o: "g_order (geo_for 64 s) = k + 7" by (simp add: geo_for_def clog_pow2)
  have r: "row (k + 7) 0 + k + 9 = 256 * 2 ^ k" using row_0 [of "k + 7"] by (simp add: power_add)
  have "bitset_bytes (k + 7) \<le> 32 * 2 ^ k" using r unfolding bitset_bytes_def by linarith
  moreover have "bitset_bytes (k + 7) mod 8 \<le> 7" by simp
  ultimately have "padded (k + 7) \<le> 32 * 2 ^ k + 7" unfolding padded_def by linarith
  moreover have "k < 2 ^ k" by (rule less_exp)
  ultimately have "200 + (padded (k + 7) + 8 * k) \<le> s" using assms by linarith
  then show ?thesis by (simp add: meta_bytes_def tree_bytes_def o)
qed

lemma bit_ceil_pages:
  assumes "unat x \<le> 1125899906842624"
  shows "\<exists>k. unat (bit_ceil x) = 2 ^ k \<and> unat (bit_ceil x * PAGE_SIZE) = 2 ^ k * 4096 \<and> 2 ^ k * 4096 \<le> (4611686018427387904 :: nat)"
proof -
  let ?k = "clog (unat x)"
  have "?k \<le> 50" using assms by (intro clog_least) simp
  then have k: "(2 :: nat) ^ ?k \<le> 2 ^ 50" by (rule power_increasing) simp
  then have u: "unat (bit_ceil x) = 2 ^ ?k" unfolding bit_ceil_def by (intro unat_of_nat64) simp
  then have "unat (bit_ceil x * PAGE_SIZE) = 2 ^ ?k * 4096" using k by (simp add: unat_word_ariths PAGE_SIZE_def)
  then show ?thesis using u k by (intro exI [of _ ?k]) simp
qed

text \<open>
  \<^verbatim>\<open>heap_init\<close>, once \<^verbatim>\<open>virtual_allocate\<close> has returned an arena, establishes the invariant of the heap with
  no block allocated and writes nothing outside of the arena; without an arena its assertion fails.
  The arena has the number of pages that is the least power of two not below a sixteenth of all
  pages.
\<close>

lemma heap_init_arena:
  assumes "n = bit_ceil (total_pages (phys_stats (vphys st)) div 16)" "s = unat n * 4096" "g = geo_for 64 (embed_at 64 s)"
    "virtual_allocate bt kernel_virtual_base n (MAP_WRITE OR MAP_READ) st = Inr (arena, st')"
    "unat (total_pages (phys_stats (vphys st))) \<le> 1125899906842624" "\<not> is_locked (heap_lock h)"
    "arena = 0 \<or> unat arena mod 8 = 0 \<and> unat arena + s < 18446744073709551616"
  shows "if arena = 0 then heap_init bt kernel_virtual_base st h = Inl Heap_assert
    else \<exists>h' A. heap_init bt kernel_virtual_base st h = Inr (st', h') \<and> heap_inv g arena h' A \<and> (\<forall>a \<in> A. \<not> in_arena g a) \<and>
      (\<forall>x. s \<le> unat (x - arena) \<longrightarrow> hmem h' x = hmem h x)"
proof (cases "arena = 0")
  case True
  then show ?thesis using assms(1,4) by (simp add: heap_init_def buddy_embed_def buddy_embed_alignment_def)
next
  case False
  have "unat (total_pages (phys_stats (vphys st)) div 16) \<le> 1125899906842624" using assms(5) by (simp add: unat_div_distrib)
  then obtain k where k: "unat n = 2 ^ k" "unat (n * PAGE_SIZE) = 2 ^ k * 4096" "2 ^ k * 4096 \<le> (4611686018427387904 :: nat)"
    using bit_ceil_pages assms(1) by blast
  have s: "s = 2 ^ k * 4096" "s = unat (n * PAGE_SIZE)" "s \<le> 4611686018427387904" using k assms(2) by simp_all
  let ?o = "embed_at 64 s" and ?b = "arena + of_nat (embed_at 64 s)"
  have arena: "unat arena mod 8 = 0" "unat arena + s < 18446744073709551616" using assms(7) False by simp_all
  obtain m A where A: "buddy_embed (hmem h) arena (n * PAGE_SIZE) = Some (?b, m)" "buddy_inv g arena m ?b A" "\<forall>a \<in> A. g_size g \<le> boff g a"
    "meta_frame g ?b (hmem h) m" "?o + meta_bytes g \<le> s"
    using embed_64 [OF False arena(1) s(2) arena(2) s(3) pages_fit [OF s(1)], of "hmem h", folded assms(3)] by blast
  let ?h = "h\<lparr>heap_arena := arena, heap_buddy := ?b, hmem := m\<rparr>"
  have "heap_init bt kernel_virtual_base st h = Inr (st', ?h)"
    using assms(1,4) A(1) buddy_invD(2) [OF A(2)] by (simp add: heap_init_def Let_def)
  moreover have "heap_inv g arena ?h A" using A(2) assms(6) by (simp add: heap_inv_def)
  moreover have "\<forall>a \<in> A. \<not> in_arena g a" using A(3) by (simp add: in_arena_def not_less)
  moreover have "m x = hmem h x" if "s \<le> unat (x - arena)" for x
    using embed_frame [OF A(4,5) s(3) that] .
  ultimately show ?thesis using False by (simp only: if_False) fastforce
qed

lemma default_small: "small_present (MAP_WRITE OR MAP_READ)"
  by (simp add: small_present_def small_page_def flag_to_page_size_def map_flag_defs)

text \<open>
  \<^verbatim>\<open>heap_init\<close> with the virtual memory manager below it.  It fails for lack of physical pages, or by its
  assertion if no range of unmapped pages is left between the end of the mapped memory and the
  kernel; otherwise the arena is the first such range and has an entry for each of its pages.  That
  the invariant of the heap holds in the memory of the arena rests on this memory being one of its
  own, see above: only the first page of the arena is backed by a frame that was taken for it.
\<close>

theorem heap_init_outcome:
  assumes "n = bit_ceil (total_pages (phys_stats (vphys st)) div 16)" "s = unat n * 4096" "g = geo_for 64 (embed_at 64 s)"
    "vm_inv bt r st" "unat (total_pages (phys_stats (vphys st))) \<le> 1125899906842624" "\<not> is_locked (heap_lock h)"
    "base = to_higher_half (hhdm bt) (highest_physical_addr (phys_stats (vphys st)))" "base \<noteq> 0" "unat base mod 8 = 0"
    "unat base + s \<le> unat kernel_virtual_base"
  shows "case heap_init bt kernel_virtual_base st h of
      Inl e \<Rightarrow> e = Heap_vm (Phys_error Out_of_memory) \<and> free_count (vphys st) < unat n * Suc (depth bt) \<or>
        e = Heap_assert \<and> no_fit bt r st base kernel_virtual_base (unat n)
    | Inr (st', h') \<Rightarrow> \<exists>arena A. first_fit bt r st base kernel_virtual_base (unat n) arena \<and>
        fresh_pages bt r arena (MAP_WRITE OR MAP_READ) (unat n) st st' \<and> heap_inv g arena h' A \<and> (\<forall>a \<in> A. \<not> in_arena g a) \<and>
        (\<forall>x. s \<le> unat (x - arena) \<longrightarrow> hmem h' x = hmem h x)"
proof -
  have "unat (total_pages (phys_stats (vphys st)) div 16) \<le> 1125899906842624" using assms(5) by (simp add: unat_div_distrib)
  then have n0: "n \<noteq> 0" using bit_ceil_pages assms(1) by fastforce
  have le: "unat base + 4096 * unat n \<le> unat kernel_virtual_base" using assms(2,10) by (simp add: mult.commute)
  have al: "allocation bt r st base kernel_virtual_base (unat n) (MAP_WRITE OR MAP_READ)
      (virtual_allocate bt kernel_virtual_base n (MAP_WRITE OR MAP_READ) st)"
    using allocate_range [OF assms(4) default_small n0 assms(8) le] assms(7) by (simp add: virtual_allocate_def Let_def)
  show ?thesis
  proof (cases "virtual_allocate bt kernel_virtual_base n (MAP_WRITE OR MAP_READ) st")
    case (Inl e)
    then show ?thesis using al assms(1) by (simp add: heap_init_def Let_def allocation_def)
  next
    case (Inr z)
    then obtain arena st' where v: "virtual_allocate bt kernel_virtual_base n (MAP_WRITE OR MAP_READ) st = Inr (arena, st')" by (cases z) auto
    have "unat arena mod 8 = 0 \<and> unat arena + s < 18446744073709551616" if "arena \<noteq> 0"
    proof -
      have ff: "first_fit bt r st base kernel_virtual_base (unat n) arena" using al v that by (simp add: allocation_def)
      obtain k where k: "unat arena = unat base + 4096 * k" using first_fit_address(1) [OF ff le] by blast
      have "unat arena + s \<le> unat kernel_virtual_base" using first_fit_address(2) [OF ff le] assms(2) by simp
      moreover have "unat arena mod 8 = 0" unfolding k using assms(9) by presburger
      ultimately show ?thesis using unat_lt64 [of kernel_virtual_base] by linarith
    qed
    then have a: "arena = 0 \<or> unat arena mod 8 = 0 \<and> unat arena + s < 18446744073709551616" by blast
    note i = heap_init_arena [OF assms(1-3) v assms(5,6) a]
    show ?thesis
    proof (cases "arena = 0")
      case True
      then show ?thesis using i al v by (simp add: allocation_def)
    next
      case False
      have f: "first_fit bt r st base kernel_virtual_base (unat n) arena" "fresh_pages bt r arena (MAP_WRITE OR MAP_READ) (unat n) st st'"
        using al v False by (simp_all add: allocation_def)
      obtain h' A where h: "heap_init bt kernel_virtual_base st h = Inr (st', h')" "heap_inv g arena h' A" "\<forall>a \<in> A. \<not> in_arena g a"
        "\<forall>x. s \<le> unat (x - arena) \<longrightarrow> hmem h' x = hmem h x" using i False by auto
      show ?thesis unfolding h(1) sum.case prod.case using f h(2-4) by blast
    qed
  qed
qed

text \<open>The heap of a machine with seven pages of memory has one page.\<close>

definition heap_boot :: heap where
  "heap_boot = \<lparr>heap_arena = 0, heap_buddy = 0, heap_lock = TicketLock_init, hmem = (\<lambda>_. 0)\<rparr>"

definition geo_heap :: geometry where
  "geo_heap = geo_for 64 (embed_at 64 4096)"

lemma machine_heap: "\<exists>h A. heap_inv geo_heap 0xFFFF800000008000 h A \<and> (\<forall>a \<in> A. \<not> in_arena geo_heap a)"
proof -
  have p: "unat (0xFFFF800000008000 :: u64) mod 8 = 0" "4096 = unat (0x1000 :: u64)" "unat (0xFFFF800000008000 :: u64) + 4096 < 18446744073709551616"
    "4096 \<le> (4611686018427387904 :: nat)" "meta_bytes (geo_for 64 4096) + 72 \<le> 4096" "(0xFFFF800000008000 :: u64) \<noteq> 0"
    by (simp_all add: page_geometry)
  obtain m A where A: "buddy_inv geo_heap 0xFFFF800000008000 m (0xFFFF800000008000 + of_nat (embed_at 64 4096)) A" "\<forall>a \<in> A. g_size geo_heap \<le> boff geo_heap a"
    using embed_64 [OF p(6,1-5), of "\<lambda>_. 0", folded geo_heap_def] by blast
  have "heap_inv geo_heap 0xFFFF800000008000 \<lparr>heap_arena = 0xFFFF800000008000, heap_buddy = 0xFFFF800000008000 + of_nat (embed_at 64 4096),
      heap_lock = TicketLock_init, hmem = m\<rparr> A"
    using A(1) by (simp add: heap_inv_def is_locked_def TicketLock_init_def)
  then show ?thesis using A(2) by (auto simp: in_arena_def not_less)
qed

theorem heap_init_outcome_witness:
  "\<exists>st' h' arena A. heap_init boot_machine 0xFFFFFFFF80000000 vm_machine heap_boot = Inr (st', h') \<and>
     heap_inv geo_heap arena h' A \<and> (\<forall>a \<in> A. \<not> in_arena geo_heap a) \<and> fresh_pages boot_machine 1 arena (MAP_WRITE OR MAP_READ) 1 vm_machine st'"
proof -
  have c: "clog 0 = 0" by (rule clog_eq) simp_all
  have n: "1 = bit_ceil (total_pages (phys_stats (vphys vm_machine)) div 16)"
    by (simp add: vm_machine_def phys_machine_def bit_ceil_def unat_div_distrib c)
  have t: "4096 = unat (1 :: u64) * 4096" "unat (total_pages (phys_stats (vphys vm_machine))) \<le> 1125899906842624" "\<not> is_locked (heap_lock heap_boot)"
    "(0xFFFF800000008000 :: u64) \<noteq> 0" "unat (0xFFFF800000008000 :: u64) mod 8 = 0" "unat (0xFFFF800000008000 :: u64) + 4096 \<le> unat (0xFFFFFFFF80000000 :: u64)"
    by (simp_all add: vm_machine_def phys_machine_def heap_boot_def is_locked_def TicketLock_init_def)
  have bs: "0xFFFF800000008000 = to_higher_half (hhdm boot_machine) (highest_physical_addr (phys_stats (vphys vm_machine)))"
    by (simp add: boot_machine_def hhdm_example_def vm_machine_def phys_machine_def to_higher_half_def is_higher_half_def)
  have "vleaf boot_machine 1 vm_machine (vpage boot_machine 0xFFFF800000008000) = None"
    by (rule machine_no_leaf) (use vpage_page [of boot_machine] in \<open>simp add: depth_def boot_machine_def\<close>)
  then have f: "\<not> no_fit boot_machine 1 vm_machine 0xFFFF800000008000 0xFFFFFFFF80000000 (unat (1 :: u64))"
    "\<not> free_count (vphys vm_machine) < unat (1 :: u64) * Suc (depth boot_machine)"
    using machine_room(2) by (auto simp: no_fit_def candidate_def unmapped_def intro!: exI [of _ 0])
  note o = heap_init_outcome [OF n t(1) geo_heap_def machine_inv t(2,3) bs t(4-6)]
  then obtain st' h' where h: "heap_init boot_machine 0xFFFFFFFF80000000 vm_machine heap_boot = Inr (st', h')"
    using f by (cases "heap_init boot_machine 0xFFFFFFFF80000000 vm_machine heap_boot") auto
  show ?thesis using o unfolding h by auto
qed

theorem heap_calls_safe_witness:
  "\<exists>h a h' B. run_calls heap_alloc libc_free [Alloc (Calloc 3 8), Release 0x2000, Alloc (Malloc 0)] h = Inr h' \<and>
     heap_inv geo_heap 0xFFFF800000008000 h' B \<and> a \<in> B"
proof -
  obtain h A where h: "heap_inv geo_heap 0xFFFF800000008000 h A" "\<forall>a \<in> A. \<not> in_arena geo_heap a" using machine_heap by blast
  have g: "geo_heap = geo_page" by (simp add: geo_heap_def geo_page_def page_geometry)
  have "\<exists>j. serves geo_heap A 100 j" using page_serves(1) [of A] h(2) unfolding g by (auto simp: in_arena_def geo_page_def not_less)
  then obtain j h1 where j: "heap_inv geo_heap 0xFFFF800000008000 h1 (insert j A)" "serves geo_heap A 100 j"
    using heap_alloc_serves [OF h(1), of 100 "Malloc 100"] by (auto simp: request_bytes_def)
  have a: "in_arena geo_heap j" using serves_arena(1) [OF _ j(2)] h(1) by (simp add: heap_inv_def in_arena_def buddy_inv_def)
  have "unat (baddr geo_heap 0xFFFF800000008000 j) = unat (0xFFFF800000008000 :: u64) + boff geo_heap j"
    using arena_offset_iff(3) [of geo_heap "0xFFFF800000008000"] j(1) a by (auto simp: heap_inv_def in_arena_def baddr_def)
  moreover have "8192 \<noteq> unat (0xFFFF800000008000 :: u64) + boff geo_heap j" "unat (0x2000 :: u64) = 8192" by simp_all
  ultimately have "baddr geo_heap 0xFFFF800000008000 j \<noteq> 0x2000" by (metis (no_types))
  then show ?thesis
    using heap_calls_safe [OF j(1) insertI1 a, of "[Alloc (Calloc 3 8), Release 0x2000, Alloc (Malloc 0)]"] by auto
qed

end
