(* ===== verification/Segments.thy ===== *)
theory Segments
  imports Scoped_Lock
begin

text \<open>
  The segment descriptors of the kernel, \<^verbatim>\<open>cpu/gdt.hpp\<close>, \<^verbatim>\<open>cpu/gdt.cpp\<close> and the routines of \<^verbatim>\<open>cpu/gdt.S\<close>.  The table
  lies in the byte memory, packed as the structures are declared; what the processor makes of it, the
  checks of a segment load included, is a group of definitions of its own.  The addresses of the
  global tables are parameters: the linker chooses them.
\<close>

subsection \<open>Structures\<close>

record GdtSegment =
  gs_limit :: u16
  gs_base_low :: u16
  gs_base_mid :: u8
  gs_access :: u8
  gs_limit_high :: "4 word"
  gs_granularity :: "4 word"
  gs_base_high :: u8

record TssSegment =
  ts_limit :: u16
  ts_base_low :: u16
  ts_base_mid :: u8
  ts_flags_low :: u8
  ts_flags_high :: u8
  ts_base_high :: u8
  ts_base_upper :: u32
  ts_reserved :: u32

record GdtRegister =
  gr_limit :: u16
  gr_base :: u64

text \<open>The register of \<^verbatim>\<open>cpu/idt.hpp\<close>, which belongs to the processor state as well.\<close>

record IdtRegister =
  ir_limit :: u16
  ir_base :: u64

text \<open>The members of a packed structure, in the order of their declaration.\<close>

definition bytes16 :: "u16 \<Rightarrow> u8 list" where
  "bytes16 w = [ucast w, ucast (drop_bit 8 w)]"

definition bytes32 :: "u32 \<Rightarrow> u8 list" where
  "bytes32 w = [ucast w, ucast (drop_bit 8 w), ucast (drop_bit 16 w), ucast (drop_bit 24 w)]"

definition gdt_segment_bytes :: "GdtSegment \<Rightarrow> u8 list" where
  "gdt_segment_bytes s = bytes16 (gs_limit s) @ bytes16 (gs_base_low s) @
     [gs_base_mid s, gs_access s, ucast (gs_limit_high s) OR push_bit 4 (ucast (gs_granularity s)), gs_base_high s]"

definition tss_segment_bytes :: "TssSegment \<Rightarrow> u8 list" where
  "tss_segment_bytes s = bytes16 (ts_limit s) @ bytes16 (ts_base_low s) @
     [ts_base_mid s, ts_flags_low s, ts_flags_high s, ts_base_high s] @ bytes32 (ts_base_upper s) @ bytes32 (ts_reserved s)"

text \<open>\<^verbatim>\<open>sizeof\<close> of \<^verbatim>\<open>Tss\<close>, member by member, and of \<^verbatim>\<open>GdtTable\<close>: five segments and the task segment.\<close>

definition sizeof_Tss :: nat where
  "sizeof_Tss = 4 + 3 * 8 + 8 + 7 * 8 + 8 + 2 + 2"

definition sizeof_GdtTable :: nat where
  "sizeof_GdtTable = 5 * 8 + 16"

definition store_bytes :: "mem \<Rightarrow> u64 \<Rightarrow> u8 list \<Rightarrow> mem" where
  "store_bytes m a bs = (\<lambda>x. if unat (x - a) < length bs then bs ! unat (x - a) else m x)"

subsection \<open>Constants\<close>

definition GDT_READWRITE :: u8 where "GDT_READWRITE = push_bit 1 1"
definition GDT_EXECUTABLE :: u8 where "GDT_EXECUTABLE = push_bit 3 1"
definition GDT_SEGMENT :: u8 where "GDT_SEGMENT = push_bit 4 1"
definition GDT_USER :: u8 where "GDT_USER = push_bit 5 3"
definition GDT_PRESENT :: u8 where "GDT_PRESENT = push_bit 7 1"
definition GDT_LONG_MODE_GRANULARITY :: u8 where "GDT_LONG_MODE_GRANULARITY = push_bit 1 1"
definition GDT_DB :: u8 where "GDT_DB = push_bit 2 1"
definition GDT_GRANULARITY :: u8 where "GDT_GRANULARITY = push_bit 3 1"
definition GDT_KERNEL_CODE :: u64 where "GDT_KERNEL_CODE = 1"
definition GDT_KERNEL_DATA :: u64 where "GDT_KERNEL_DATA = 2"
definition GDT_USER_DATA :: u64 where "GDT_USER_DATA = 3"
definition GDT_USER_CODE :: u64 where "GDT_USER_CODE = 4"
definition GDT_DATA_SEGMENT :: u8 where "GDT_DATA_SEGMENT = GDT_PRESENT OR GDT_SEGMENT OR GDT_READWRITE"
definition GDT_CODE_SEGMENT :: u8 where "GDT_CODE_SEGMENT = GDT_DATA_SEGMENT OR GDT_EXECUTABLE"

definition NULL_SELECTOR :: u16 where "NULL_SELECTOR = 0x00"
definition KERNEL_CODE_SELECTOR :: u16 where "KERNEL_CODE_SELECTOR = 0x08"
definition KERNEL_DATA_SELECTOR :: u16 where "KERNEL_DATA_SELECTOR = 0x10"
definition USER_DATA_SELECTOR :: u16 where "USER_DATA_SELECTOR = 0x18"
definition USER_CODE_SELECTOR :: u16 where "USER_CODE_SELECTOR = 0x20"
definition TSS_SELECTOR :: u16 where "TSS_SELECTOR = 0x28"

lemmas gdt_constants = GDT_READWRITE_def GDT_EXECUTABLE_def GDT_SEGMENT_def GDT_USER_def GDT_PRESENT_def
  GDT_LONG_MODE_GRANULARITY_def GDT_DB_def GDT_GRANULARITY_def GDT_KERNEL_CODE_def GDT_KERNEL_DATA_def
  GDT_USER_DATA_def GDT_USER_CODE_def GDT_DATA_SEGMENT_def GDT_CODE_SEGMENT_def

lemmas selectors = NULL_SELECTOR_def KERNEL_CODE_SELECTOR_def KERNEL_DATA_SELECTOR_def USER_DATA_SELECTOR_def
  USER_CODE_SELECTOR_def TSS_SELECTOR_def

subsection \<open>Entries\<close>

definition gdt_create_entry :: "u32 \<Rightarrow> u32 \<Rightarrow> u8 \<Rightarrow> u8 \<Rightarrow> GdtSegment" where
  "gdt_create_entry base lim granularity access =
     \<lparr>gs_limit = ucast (lim AND 0xffff),
      gs_base_low = ucast (base AND 0xffff),
      gs_base_mid = ucast (ucast (drop_bit 16 base AND 0xff) :: u16),
      gs_access = access,
      gs_limit_high = ucast (drop_bit 16 lim AND 0x0f),
      gs_granularity = ucast granularity,
      gs_base_high = ucast (drop_bit 24 base AND 0xff)\<rparr>"

definition gdt_create_flat_entry :: "u8 \<Rightarrow> u8 \<Rightarrow> GdtSegment" where
  "gdt_create_flat_entry granularity access = gdt_create_entry 0 0xffffffff granularity access"

definition tss_create_entry :: "u64 \<Rightarrow> TssSegment" where
  "tss_create_entry base =
     \<lparr>ts_limit = of_nat (sizeof_Tss - 1),
      ts_base_low = ucast (base AND 0xffff),
      ts_base_mid = ucast (drop_bit 16 base AND 0xff),
      ts_flags_low = 0x89,
      ts_flags_high = 0x00,
      ts_base_high = ucast (drop_bit 24 base AND 0xff),
      ts_base_upper = ucast (drop_bit 32 base AND 0xffffffff),
      ts_reserved = 0\<rparr>"

subsection \<open>What the processor reads\<close>

definition seg_base :: "mem \<Rightarrow> u64 \<Rightarrow> u32" where
  "seg_base m a = ucast (m (a + 2)) OR push_bit 8 (ucast (m (a + 3))) OR push_bit 16 (ucast (m (a + 4))) OR
     push_bit 24 (ucast (m (a + 7)))"

definition seg_limit :: "mem \<Rightarrow> u64 \<Rightarrow> u32" where
  "seg_limit m a = ucast (m a) OR push_bit 8 (ucast (m (a + 1))) OR push_bit 16 (ucast (m (a + 6) AND 0x0f))"

definition seg_access :: "mem \<Rightarrow> u64 \<Rightarrow> u8" where
  "seg_access m a = m (a + 5)"

definition seg_flags :: "mem \<Rightarrow> u64 \<Rightarrow> u8" where
  "seg_flags m a = drop_bit 4 (m (a + 6))"

text \<open>The base of a system segment has 64 bits; its limit counts pages when the granularity bit is set.\<close>

definition system_base :: "mem \<Rightarrow> u64 \<Rightarrow> u64" where
  "system_base m a = ucast (seg_base m a) OR push_bit 32 (ucast (m (a + 8)) OR push_bit 8 (ucast (m (a + 9))) OR
     push_bit 16 (ucast (m (a + 10))) OR push_bit 24 (ucast (m (a + 11))))"

definition byte_limit :: "mem \<Rightarrow> u64 \<Rightarrow> u64" where
  "byte_limit m a =
     (if bit (seg_flags m a) 3 then ucast (seg_limit m a) * 4096 + 4095 else ucast (seg_limit m a))"

datatype segment_type = Absent | Code64 | Code32 | Data_read | Data_write | Tss_available | Tss_busy | Other_system

definition segment_type :: "mem \<Rightarrow> u64 \<Rightarrow> segment_type" where
  "segment_type m a =
     (let access = seg_access m a in
      if \<not> bit access 7 then Absent
      else if bit access 4
      then if bit access 3 then (if bit (seg_flags m a) 1 then Code64 else Code32)
           else (if bit access 1 then Data_write else Data_read)
      else if access AND 0x0f = 0x9 then Tss_available
      else if access AND 0x0f = 0xb then Tss_busy
      else Other_system)"

definition seg_dpl :: "mem \<Rightarrow> u64 \<Rightarrow> u8" where
  "seg_dpl m a = drop_bit 5 (seg_access m a) AND 3"

subsection \<open>Processor state and segment loads\<close>

record cpu =
  cpu_mem :: mem
  gdt_lock :: TicketLock
  gdtr :: GdtRegister
  idtr :: IdtRegister
  interrupt_flag :: bool
  seg_cs :: u16
  seg_ds :: u16
  seg_es :: u16
  seg_fs :: u16
  seg_gs :: u16
  seg_ss :: u16
  seg_tr :: u16

text \<open>Where the linker puts the tables, and the routines that the interrupt stubs consist of.\<close>

record tables =
  at_gdt :: u64
  at_tss :: u64
  at_idt :: u64
  isr_table :: "nat \<Rightarrow> u64"

datatype cpu_error = Cpu_lock lock_error | General_protection u16

text \<open>
  The descriptor a selector names: its index times 8 from the base of the table, when the whole
  descriptor lies within the limit and the selector is not null.
\<close>

definition descriptor_at :: "GdtRegister \<Rightarrow> nat \<Rightarrow> u16 \<Rightarrow> u64 option" where
  "descriptor_at r sz selector =
     (let off = unat (selector AND NOT 7) in
      if off = 0 \<or> off + sz - 1 > unat (gr_limit r) then None else Some (gr_base r + of_nat off))"

definition load_ok :: "cpu \<Rightarrow> segment_type list \<Rightarrow> nat \<Rightarrow> u16 \<Rightarrow> bool" where
  "load_ok c allowed sz selector =
     (case descriptor_at (gdtr c) sz selector of None \<Rightarrow> False
      | Some a \<Rightarrow> segment_type (cpu_mem c) a \<in> set allowed \<and> seg_dpl (cpu_mem c) a = ucast (selector AND 3))"

text \<open>
  \<^verbatim>\<open>load_gdt\<close>: \<^verbatim>\<open>lgdt\<close>, the five data segment registers, and the far return that loads the code segment.
  \<^verbatim>\<open>load_tss\<close>: \<^verbatim>\<open>ltr\<close>, which marks the task segment busy.  The accessed bit that a segment load sets in its
  descriptor and the two words that the far return takes from the stack are left out: no type,
  privilege or address depends on them.
\<close>

definition load_gdt :: "cpu \<Rightarrow> GdtRegister \<Rightarrow> cpu_error + cpu" where
  "load_gdt c r =
     (let c = c\<lparr>gdtr := r\<rparr> in
      if \<not> load_ok c [Data_write] 8 KERNEL_DATA_SELECTOR then Inl (General_protection KERNEL_DATA_SELECTOR)
      else let c = c\<lparr>seg_ds := KERNEL_DATA_SELECTOR, seg_es := KERNEL_DATA_SELECTOR, seg_fs := KERNEL_DATA_SELECTOR,
                     seg_gs := KERNEL_DATA_SELECTOR, seg_ss := KERNEL_DATA_SELECTOR\<rparr>
           in if \<not> load_ok c [Code64] 8 KERNEL_CODE_SELECTOR then Inl (General_protection KERNEL_CODE_SELECTOR)
              else Inr (c\<lparr>seg_cs := KERNEL_CODE_SELECTOR\<rparr>))"

definition load_tss :: "cpu \<Rightarrow> cpu_error + cpu" where
  "load_tss c =
     (case descriptor_at (gdtr c) 16 TSS_SELECTOR of None \<Rightarrow> Inl (General_protection TSS_SELECTOR)
      | Some a \<Rightarrow>
          if segment_type (cpu_mem c) a \<noteq> Tss_available then Inl (General_protection TSS_SELECTOR)
          else Inr (c\<lparr>seg_tr := TSS_SELECTOR, cpu_mem := (cpu_mem c)(a + 5 := cpu_mem c (a + 5) OR 2)\<rparr>))"

subsection \<open>Initialization\<close>

definition gdt_entry_at :: "tables \<Rightarrow> u64 \<Rightarrow> u64" where
  "gdt_entry_at l index = at_gdt l + 8 * index"

definition write_gdt :: "tables \<Rightarrow> mem \<Rightarrow> mem" where
  "write_gdt l m =
     (let m = store_bytes m (gdt_entry_at l 0) (gdt_segment_bytes (gdt_create_entry 0 0 0 0));
          m = store_bytes m (gdt_entry_at l GDT_KERNEL_CODE)
                (gdt_segment_bytes (gdt_create_flat_entry (GDT_LONG_MODE_GRANULARITY OR GDT_GRANULARITY) GDT_CODE_SEGMENT));
          m = store_bytes m (gdt_entry_at l GDT_KERNEL_DATA)
                (gdt_segment_bytes (gdt_create_flat_entry (GDT_DB OR GDT_GRANULARITY) GDT_DATA_SEGMENT));
          m = store_bytes m (gdt_entry_at l GDT_USER_DATA)
                (gdt_segment_bytes (gdt_create_flat_entry (GDT_DB OR GDT_GRANULARITY) (GDT_DATA_SEGMENT OR GDT_USER)));
          m = store_bytes m (gdt_entry_at l GDT_USER_CODE)
                (gdt_segment_bytes (gdt_create_flat_entry (GDT_LONG_MODE_GRANULARITY OR GDT_GRANULARITY) (GDT_CODE_SEGMENT OR GDT_USER)))
      in store_bytes m (gdt_entry_at l 5) (tss_segment_bytes (tss_create_entry (at_tss l))))"

definition gdt_initialize :: "tables \<Rightarrow> cpu \<Rightarrow> cpu_error + int \<times> cpu" where
  "gdt_initialize l c =
     (case lock_seq (gdt_lock c) of Inl e \<Rightarrow> Inl (Cpu_lock e)
      | Inr k \<Rightarrow>
          let c = c\<lparr>gdt_lock := k\<rparr>;
              c = c\<lparr>cpu_mem := write_gdt l (cpu_mem c)\<rparr>;
              gdtr = \<lparr>gr_limit = of_nat (sizeof_GdtTable - 1), gr_base = at_gdt l\<rparr>
          in case load_gdt c gdtr of Inl e \<Rightarrow> Inl e
             | Inr c \<Rightarrow>
                 (case load_tss c of Inl e \<Rightarrow> Inl e
                  | Inr c \<Rightarrow> Inr (SYSTEM_OK, c\<lparr>gdt_lock := unlock_seq (gdt_lock c)\<rparr>)))"

subsection \<open>Descriptors and their members\<close>

lemma store_bytes_at [mem_simps]:
  "store_bytes m (a + i) bs (a + k) = (if unat (k - i) < length bs then bs ! unat (k - i) else m (a + k))"
  "store_bytes m a bs (a + k) = (if unat k < length bs then bs ! unat k else m (a + k))"
  "store_bytes m a bs a = (if bs \<noteq> [] then bs ! 0 else m a)"
  by (simp_all add: store_bytes_def)

lemma store_bytes_other: "length bs \<le> unat (x - a) \<Longrightarrow> store_bytes m a bs x = m x"
  by (simp add: store_bytes_def)

lemma gdt_segment_bytes_at:
  fixes s :: GdtSegment and m :: mem and a :: u64
  defines "m' \<equiv> store_bytes m a (gdt_segment_bytes s)"
  shows "m' a = ucast (gs_limit s)" "m' (a + 1) = ucast (drop_bit 8 (gs_limit s))"
    "m' (a + 2) = ucast (gs_base_low s)" "m' (a + 3) = ucast (drop_bit 8 (gs_base_low s))"
    "m' (a + 4) = gs_base_mid s" "m' (a + 5) = gs_access s"
    "m' (a + 6) = ucast (gs_limit_high s) OR push_bit 4 (ucast (gs_granularity s))" "m' (a + 7) = gs_base_high s"
  by (simp_all add: m'_def mem_simps gdt_segment_bytes_def bytes16_def)

lemma tss_segment_bytes_at:
  fixes s :: TssSegment and m :: mem and a :: u64
  defines "m' \<equiv> store_bytes m a (tss_segment_bytes s)"
  shows "m' a = ucast (ts_limit s)" "m' (a + 1) = ucast (drop_bit 8 (ts_limit s))"
    "m' (a + 2) = ucast (ts_base_low s)" "m' (a + 3) = ucast (drop_bit 8 (ts_base_low s))"
    "m' (a + 4) = ts_base_mid s" "m' (a + 5) = ts_flags_low s" "m' (a + 6) = ts_flags_high s" "m' (a + 7) = ts_base_high s"
    "m' (a + 8) = ucast (ts_base_upper s)" "m' (a + 9) = ucast (drop_bit 8 (ts_base_upper s))"
    "m' (a + 10) = ucast (drop_bit 16 (ts_base_upper s))" "m' (a + 11) = ucast (drop_bit 24 (ts_base_upper s))"
  by (simp_all add: m'_def mem_simps tss_segment_bytes_def bytes16_def bytes32_def)

lemma take_bit_masks:
  "w AND 0xffff = take_bit 16 w" "w AND 0xff = take_bit 8 w" "w AND 0x0f = take_bit 4 w"
  "w AND 0xffffffff = take_bit 32 w" "w AND 0xfffff = take_bit 20 w" for w :: "'a::len word"
  by (simp_all add: take_bit_eq_mask mask_eq_exp_minus_1)

text \<open>The bytes of a 32-bit value and of its parts.\<close>

lemma slices:
  fixes w :: "'a::len word"
  assumes "32 \<le> LENGTH('a)"
  shows "ucast (ucast (take_bit 16 w) :: u16) = (ucast w :: u8)"
    "ucast (drop_bit 8 (ucast (take_bit 16 w) :: u16)) = (ucast (drop_bit 8 w) :: u8)"
  using assms by (auto intro!: bit_word_eqI simp: bit_simps)

lemma low_byte:
  fixes v :: "'a::len word"
  shows "ucast (take_bit 8 v) = (ucast v :: u8)" "ucast (ucast (take_bit 8 v) :: u16) = (ucast v :: u8)"
  by (auto intro!: bit_word_eqI simp: bit_simps)

lemma low_half_byte: "k \<le> 24 \<Longrightarrow> ucast (drop_bit k (ucast v :: u32)) = (ucast (drop_bit k v) :: u8)" for v :: u64
  by (auto intro!: bit_word_eqI simp: bit_simps)

lemma join32: "ucast (ucast w :: u8) OR push_bit 8 (ucast (ucast (drop_bit 8 w) :: u8)) OR
    push_bit 16 (ucast (ucast (drop_bit 16 w) :: u8)) OR push_bit 24 (ucast (ucast (drop_bit 24 w) :: u8)) = w" (is "?l = w") for w :: u32
proof (rule bit_word_eqI)
  fix n
  assume "n < LENGTH(32)"
  then consider "n < 8" | "8 \<le> n" "n < 16" | "16 \<le> n" "n < 24" | "24 \<le> n" "n < 32" by force
  then show "bit ?l n = bit w n" by cases (auto simp: bit_simps)
qed

lemma join20: "ucast (ucast w :: u8) OR push_bit 8 (ucast (ucast (drop_bit 8 w) :: u8)) OR
    push_bit 16 (ucast (take_bit 4 (ucast (drop_bit 16 w) :: u8))) = take_bit 20 w" (is "?l = _") for w :: u32
proof (rule bit_word_eqI)
  fix n
  assume "n < LENGTH(32)"
  then show "bit ?l n = bit (take_bit 20 w) n" by (cases "16 \<le> n") (auto simp: bit_simps)
qed

lemma join64: "ucast (ucast w :: u32) OR push_bit 32 (ucast (ucast (drop_bit 32 w) :: u32)) = w" (is "?l = w") for w :: u64
proof (rule bit_word_eqI)
  fix n
  assume "n < LENGTH(64)"
  then show "bit ?l n = bit w n" by (cases "32 \<le> n") (auto simp: bit_simps)
qed

text \<open>The two halves of the byte that the limit and the flags share.\<close>

lemma nibble: "ucast (ucast v :: 4 word) = take_bit 4 v"
  "ucast (ucast (take_bit 4 w) :: 4 word) = take_bit 4 (ucast w :: u8)" for v :: u8 and w :: u32
  by (auto intro!: bit_word_eqI simp: bit_simps)

lemma shared_byte: "take_bit 4 (push_bit 4 v) = 0" "drop_bit 4 (take_bit 4 v) = 0"
  "drop_bit 4 (push_bit 4 (take_bit 4 v)) = take_bit 4 v" for v :: u8
  by (auto intro!: bit_word_eqI simp: bit_simps)

text \<open>
  Whatever base, limit, flags and access byte \<^verbatim>\<open>create_entry\<close> is given, the processor reads from the
  eight bytes of the entry exactly that base, the low 20 bits of the limit, the access byte and the
  low four flags.
\<close>

theorem gdt_entry_roundtrip:
  "let m' = store_bytes m a (gdt_segment_bytes (gdt_create_entry base lim granularity access)) in
   seg_base m' a = base \<and> seg_limit m' a = lim AND 0xfffff \<and> seg_access m' a = access \<and>
   seg_flags m' a = granularity AND 0x0f"
  by (simp add: Let_def seg_base_def seg_limit_def seg_access_def seg_flags_def gdt_segment_bytes_at gdt_create_entry_def
      take_bit_masks slices low_byte nibble shared_byte join32 join20)

lemma seg_dpl_cong: "m (a + 5) = m' (a + 5) \<Longrightarrow> seg_dpl m a = seg_dpl m' a"
  by (simp add: seg_dpl_def seg_access_def)

lemma ucast_or_shifts: "ucast x OR push_bit 8 (ucast y) OR push_bit 16 (ucast z) OR push_bit 24 (ucast u) =
    (ucast (ucast x OR push_bit 8 (ucast y) OR push_bit 16 (ucast z) OR push_bit 24 (ucast u) :: u32) :: u64)" (is "?l = ?r")
  for x y z u :: u8
proof (rule bit_word_eqI)
  fix n :: nat
  have long: "\<not> bit v k" if "8 \<le> k" for v :: u8 and k using that bit_imp_le_length [of v k] by auto
  consider "n < 8" | "8 \<le> n" "n < 16" | "16 \<le> n" "n < 24" | "24 \<le> n" "n < 32" | "32 \<le> n" by force
  then show "bit ?l n = bit ?r n" by cases (auto simp: bit_simps long)
qed

lemma tss_entry_fields:
  fixes base :: u64
  defines "t \<equiv> tss_create_entry base"
  shows "seg_base (store_bytes m a (tss_segment_bytes t)) a = ucast base"
    "system_base (store_bytes m a (tss_segment_bytes t)) a = base"
    "seg_limit (store_bytes m a (tss_segment_bytes t)) a = 103"
    "seg_access (store_bytes m a (tss_segment_bytes t)) a = 0x89"
    "seg_flags (store_bytes m a (tss_segment_bytes t)) a = 0"
proof -
  have u: "ucast (take_bit 32 (drop_bit 32 base)) = (ucast (drop_bit 32 base) :: u32)"
    by (auto intro!: bit_word_eqI simp: bit_simps)
  show b: "seg_base (store_bytes m a (tss_segment_bytes t)) a = ucast base"
    using join32 [of "ucast base"]
    by (simp add: t_def seg_base_def tss_segment_bytes_at tss_create_entry_def take_bit_masks slices low_byte low_half_byte
        low_half_byte [of 0, simplified])
  show "system_base (store_bytes m a (tss_segment_bytes t)) a = base"
    unfolding system_base_def b ucast_or_shifts
    by (simp only: tss_segment_bytes_at t_def tss_create_entry_def TssSegment.select_convs take_bit_masks u join32 join64)
  show "seg_limit (store_bytes m a (tss_segment_bytes t)) a = 103"
    by (simp add: t_def seg_limit_def tss_segment_bytes_at tss_create_entry_def sizeof_Tss_def)
  show "seg_access (store_bytes m a (tss_segment_bytes t)) a = 0x89" "seg_flags (store_bytes m a (tss_segment_bytes t)) a = 0"
    by (simp_all add: t_def seg_access_def seg_flags_def tss_segment_bytes_at tss_create_entry_def)
qed

subsection \<open>The selectors after initialization\<close>

text \<open>What the processor finds behind a selector: type, privilege, base and last byte.\<close>

definition segment :: "cpu \<Rightarrow> u16 \<Rightarrow> (segment_type \<times> u8 \<times> u64 \<times> u64) option" where
  "segment c selector =
     (case descriptor_at (gdtr c) 8 selector of None \<Rightarrow> None
      | Some a \<Rightarrow> Some (segment_type (cpu_mem c) a, seg_dpl (cpu_mem c) a,
          (if bit (seg_access (cpu_mem c) a) 4 then ucast (seg_base (cpu_mem c) a) else system_base (cpu_mem c) a),
          byte_limit (cpu_mem c) a))"

lemma flat_entry_bytes:
  "gdt_segment_bytes (gdt_create_flat_entry g acc) = [0xff, 0xff, 0, 0, 0, acc, 0x0f OR push_bit 4 (take_bit 4 g), 0]"
proof -
  have "(ucast (ucast g :: 4 word) :: u8) = take_bit 4 g" by (rule nibble)
  then show ?thesis by (simp add: gdt_create_flat_entry_def gdt_create_entry_def gdt_segment_bytes_def bytes16_def)
qed

lemma store_bytes_app:
  assumes "length xs + length ys < 18446744073709551616"
  shows "store_bytes (store_bytes m a xs) (a + of_nat (length xs)) ys = store_bytes m a (xs @ ys)"
proof (rule ext)
  fix x
  show "store_bytes (store_bytes m a xs) (a + of_nat (length xs)) ys x = store_bytes m a (xs @ ys) x"
  proof (cases "unat (x - a) < length xs")
    case True
    have "unat (x - (a + of_nat (length xs))) \<ge> length ys"
      using assms True unat_off [of "length xs" x a] by (simp add: unat_off)
    then show ?thesis using True by (simp add: store_bytes_def nth_append)
  next
    case False
    then have "unat (x - (a + of_nat (length xs))) = unat (x - a) - length xs" using assms by (simp add: unat_off)
    then show ?thesis using False by (auto simp: store_bytes_def nth_append)
  qed
qed

text \<open>The table as one image of 56 bytes.\<close>

definition flat_bytes :: "u8 \<Rightarrow> u8 \<Rightarrow> u8 list" where
  "flat_bytes high access = [0xff, 0xff, 0, 0, 0, access, high, 0]"

definition gdt_flat :: "u8 list" where
  "gdt_flat = [0, 0, 0, 0, 0, 0, 0, 0] @ flat_bytes 0xaf 0x9a @ flat_bytes 0xcf 0x92 @ flat_bytes 0xcf 0xf2 @ flat_bytes 0xaf 0xfa"

lemma entry_bytes:
  "gdt_segment_bytes (gdt_create_entry 0 0 0 0) = [0, 0, 0, 0, 0, 0, 0, 0]"
  "gdt_segment_bytes (gdt_create_flat_entry (GDT_LONG_MODE_GRANULARITY OR GDT_GRANULARITY) GDT_CODE_SEGMENT) = flat_bytes 0xaf 0x9a"
  "gdt_segment_bytes (gdt_create_flat_entry (GDT_DB OR GDT_GRANULARITY) GDT_DATA_SEGMENT) = flat_bytes 0xcf 0x92"
  "gdt_segment_bytes (gdt_create_flat_entry (GDT_DB OR GDT_GRANULARITY) (GDT_DATA_SEGMENT OR GDT_USER)) = flat_bytes 0xcf 0xf2"
  "gdt_segment_bytes (gdt_create_flat_entry (GDT_LONG_MODE_GRANULARITY OR GDT_GRANULARITY) (GDT_CODE_SEGMENT OR GDT_USER)) = flat_bytes 0xaf 0xfa"
  by code_simp+

lemma write_gdt_image:
  "write_gdt l m = store_bytes (store_bytes m (at_gdt l) gdt_flat) (at_gdt l + 40) (tss_segment_bytes (tss_create_entry (at_tss l)))"
proof -
  have app: "store_bytes (store_bytes m a xs) (a + k) (flat_bytes h acc) = store_bytes m a (xs @ flat_bytes h acc)"
    if "k = of_nat (length xs)" "length xs < 1000" for m a xs h acc k
    using store_bytes_app [of xs "flat_bytes h acc" m a] that by (simp add: flat_bytes_def)
  have len: "length (flat_bytes h acc) = 8" for h acc by (simp add: flat_bytes_def)
  show ?thesis
    by (simp add: write_gdt_def Let_def gdt_entry_at_def entry_bytes GDT_KERNEL_CODE_def GDT_KERNEL_DATA_def
        GDT_USER_DATA_def GDT_USER_CODE_def app len gdt_flat_def)
qed

lemma length_gdt_flat: "length gdt_flat = 40"
  by (simp add: gdt_flat_def flat_bytes_def)

lemma length_tss_bytes: "length (tss_segment_bytes t) = 16"
  by (simp add: tss_segment_bytes_def bytes16_def bytes32_def)

lemma write_gdt_low:
  assumes "k < 40"
  shows "write_gdt l m (at_gdt l + k) = gdt_flat ! unat k"
proof -
  have k: "unat k < 40" using assms by (simp add: word_less_nat_alt)
  have "\<not> unat (k - 40) < 16" using unat_sub64 [of k 40] k by simp
  then show ?thesis using k by (simp add: write_gdt_image mem_simps length_gdt_flat length_tss_bytes)
qed

lemma write_gdt_outside:
  assumes "\<not> unat (x - at_gdt l) < 56"
  shows "write_gdt l m x = m x"
proof -
  have "\<not> unat (x - (at_gdt l + 40)) < 16"
    using unat_off [of 40 x "at_gdt l"] assms unat_lt64 [of "x - at_gdt l"] by simp
  then show ?thesis using assms by (simp add: write_gdt_image store_bytes_def length_gdt_flat length_tss_bytes)
qed

text \<open>The table in memory, before and after \<^verbatim>\<open>ltr\<close> has marked the task segment busy.\<close>

definition busy_gdt :: "tables \<Rightarrow> mem \<Rightarrow> mem" where
  "busy_gdt l m = (write_gdt l m)(at_gdt l + 45 := 0x8b)"

lemma busy_gdt_low: "k < 40 \<Longrightarrow> busy_gdt l m (at_gdt l + k) = gdt_flat ! unat k"
  by (auto simp: busy_gdt_def write_gdt_low)

lemmas segment_defs = Let_def segment_type_def seg_dpl_def byte_limit_def seg_limit_def seg_base_def seg_access_def
  seg_flags_def add.assoc
lemmas flat_simps = segment_defs write_gdt_low busy_gdt_low gdt_flat_def flat_bytes_def

lemma tss_fields:
  "segment_type (write_gdt l m) (at_gdt l + 40) = Tss_available" "segment_type (busy_gdt l m) (at_gdt l + 40) = Tss_busy"
  "seg_dpl (busy_gdt l m) (at_gdt l + 40) = 0" "system_base (busy_gdt l m) (at_gdt l + 40) = at_tss l"
  "byte_limit (busy_gdt l m) (at_gdt l + 40) = 103" "write_gdt l m (at_gdt l + 45) = 0x89"
  "\<not> bit (seg_access (busy_gdt l m) (at_gdt l + 40)) 4"
proof -
  let ?m = "store_bytes m (at_gdt l) gdt_flat" and ?a = "at_gdt l + 40"
  have w: "write_gdt l m = store_bytes ?m ?a (tss_segment_bytes (tss_create_entry (at_tss l)))" by (rule write_gdt_image)
  have b: "busy_gdt l m = (write_gdt l m)(?a + 5 := 0x8b)" by (simp add: busy_gdt_def add.assoc)
  have same: "seg_base (f(?a + 5 := v)) ?a = seg_base f ?a" "seg_limit (f(?a + 5 := v)) ?a = seg_limit f ?a"
    "system_base (f(?a + 5 := v)) ?a = system_base f ?a" "seg_flags (f(?a + 5 := v)) ?a = seg_flags f ?a"
    "seg_access (f(?a + 5 := v)) ?a = v" for f v
    by (simp_all add: seg_base_def seg_limit_def system_base_def seg_flags_def seg_access_def add.assoc)
  note t = tss_entry_fields [of ?m ?a "at_tss l", folded w]
  show "segment_type (write_gdt l m) ?a = Tss_available" by (simp add: segment_type_def t)
  show "segment_type (busy_gdt l m) ?a = Tss_busy" "seg_dpl (busy_gdt l m) ?a = 0" "system_base (busy_gdt l m) ?a = at_tss l"
    "byte_limit (busy_gdt l m) ?a = 103" "\<not> bit (seg_access (busy_gdt l m) ?a) 4"
    by (simp_all add: same [of "write_gdt l m" "0x8b", folded b] segment_type_def seg_dpl_def byte_limit_def t Let_def)
  show "write_gdt l m (at_gdt l + 45) = 0x89" using t(4) by (simp add: seg_access_def add.assoc)
qed

lemma gdt_initialize_returns:
  assumes "\<not> is_locked (gdt_lock c)"
  shows "gdt_initialize l c = Inr (SYSTEM_OK,
    c\<lparr>gdt_lock := \<lparr>next_ticket = next_ticket (gdt_lock c) + 1, serving_ticket = serving_ticket (gdt_lock c) + 1\<rparr>,
      gdtr := \<lparr>gr_limit = 55, gr_base = at_gdt l\<rparr>, cpu_mem := busy_gdt l (cpu_mem c),
      seg_ds := KERNEL_DATA_SELECTOR, seg_es := KERNEL_DATA_SELECTOR, seg_fs := KERNEL_DATA_SELECTOR,
      seg_gs := KERNEL_DATA_SELECTOR, seg_ss := KERNEL_DATA_SELECTOR, seg_cs := KERNEL_CODE_SELECTOR, seg_tr := TSS_SELECTOR\<rparr>)"
proof -
  define k where "k = \<lparr>next_ticket = next_ticket (gdt_lock c) + 1, serving_ticket = serving_ticket (gdt_lock c)\<rparr>"
  define r where "r = \<lparr>gr_limit = 55, gr_base = at_gdt l\<rparr>"
  have lock: "lock_seq (gdt_lock c) = Inr k" using assms by (simp add: lock_seq_def is_locked_def k_def Let_def)
  have "unlock_seq k = \<lparr>next_ticket = next_ticket (gdt_lock c) + 1, serving_ticket = serving_ticket (gdt_lock c) + 1\<rparr>"
    using assms by (simp add: unlock_seq_def is_locked_def k_def Let_def)
  moreover have "descriptor_at r 8 KERNEL_DATA_SELECTOR = Some (at_gdt l + 16)" "descriptor_at r 8 KERNEL_CODE_SELECTOR = Some (at_gdt l + 8)"
    "descriptor_at r 16 TSS_SELECTOR = Some (at_gdt l + 40)"
    by (simp_all add: descriptor_at_def selectors r_def)
  moreover have "segment_type (write_gdt l m) (at_gdt l + 16) = Data_write" "segment_type (write_gdt l m) (at_gdt l + 8) = Code64"
    "seg_dpl (write_gdt l m) (at_gdt l + 16) = 0" "seg_dpl (write_gdt l m) (at_gdt l + 8) = 0" for m
    by (simp_all add: flat_simps)
  moreover have "KERNEL_DATA_SELECTOR AND 3 = 0" "KERNEL_CODE_SELECTOR AND 3 = 0" by (simp_all add: selectors)
  ultimately show ?thesis
    by (simp add: gdt_initialize_def lock Let_def load_gdt_def load_tss_def load_ok_def tss_fields sizeof_GdtTable_def
        busy_gdt_def add.assoc flip: r_def)
qed

lemma gdt_segments:
  assumes "gdtr c' = \<lparr>gr_limit = 55, gr_base = at_gdt l\<rparr>" "cpu_mem c' = busy_gdt l m"
  shows "segment c' NULL_SELECTOR = None" "segment c' KERNEL_CODE_SELECTOR = Some (Code64, 0, 0, 0xffffffff)"
    "segment c' KERNEL_DATA_SELECTOR = Some (Data_write, 0, 0, 0xffffffff)"
    "segment c' USER_DATA_SELECTOR = Some (Data_write, 3, 0, 0xffffffff)"
    "segment c' USER_CODE_SELECTOR = Some (Code64, 3, 0, 0xffffffff)"
    "segment c' TSS_SELECTOR = Some (Tss_busy, 0, at_tss l, 103)" "segment c' 0x38 = None"
proof -
  define r where "r = \<lparr>gr_limit = 55, gr_base = at_gdt l\<rparr>"
  have d: "descriptor_at r 8 NULL_SELECTOR = None" "descriptor_at r 8 KERNEL_CODE_SELECTOR = Some (at_gdt l + 8)"
    "descriptor_at r 8 KERNEL_DATA_SELECTOR = Some (at_gdt l + 16)" "descriptor_at r 8 USER_DATA_SELECTOR = Some (at_gdt l + 24)"
    "descriptor_at r 8 USER_CODE_SELECTOR = Some (at_gdt l + 32)" "descriptor_at r 8 TSS_SELECTOR = Some (at_gdt l + 40)"
    "descriptor_at r 8 0x38 = None"
    by (simp_all add: descriptor_at_def selectors r_def)
  show "segment c' NULL_SELECTOR = None" "segment c' TSS_SELECTOR = Some (Tss_busy, 0, at_tss l, 103)" "segment c' 0x38 = None"
    by (simp_all add: segment_def assms d tss_fields flip: r_def)
  show "segment c' KERNEL_CODE_SELECTOR = Some (Code64, 0, 0, 0xffffffff)"
    "segment c' KERNEL_DATA_SELECTOR = Some (Data_write, 0, 0, 0xffffffff)"
    "segment c' USER_DATA_SELECTOR = Some (Data_write, 3, 0, 0xffffffff)"
    "segment c' USER_CODE_SELECTOR = Some (Code64, 3, 0, 0xffffffff)"
    by (simp_all add: segment_def assms d flip: r_def) (simp_all add: flat_simps)
qed

text \<open>
  C28: the types of the segments.  When the lock is free, \<^verbatim>\<open>gdt::initialize\<close> returns without a fault; then
  the selectors of \<^verbatim>\<open>registers.h\<close> name what they say: kernel and user code are present 64-bit code
  segments of privilege 0 and 3, kernel and user data are writable data segments of privilege 0 and
  3, each from 0 to 4 GiB, and the task selector names the busy task segment at \<^verbatim>\<open>tss\<close> with its 104
  bytes; the null selector and the first one beyond the table name nothing.  The segment registers
  hold the kernel's selectors, and nothing but the 56 bytes of the table is written.
\<close>

theorem gdt_selectors_typed:
  assumes "\<not> is_locked (gdt_lock c)"
  shows "\<exists>c'. gdt_initialize l c = Inr (SYSTEM_OK, c') \<and>
    segment c' NULL_SELECTOR = None \<and>
    segment c' KERNEL_CODE_SELECTOR = Some (Code64, 0, 0, 0xffffffff) \<and>
    segment c' KERNEL_DATA_SELECTOR = Some (Data_write, 0, 0, 0xffffffff) \<and>
    segment c' USER_DATA_SELECTOR = Some (Data_write, 3, 0, 0xffffffff) \<and>
    segment c' USER_CODE_SELECTOR = Some (Code64, 3, 0, 0xffffffff) \<and>
    segment c' TSS_SELECTOR = Some (Tss_busy, 0, at_tss l, 103) \<and>
    segment c' 0x38 = None \<and>
    seg_cs c' = KERNEL_CODE_SELECTOR \<and> seg_tr c' = TSS_SELECTOR \<and>
    (\<forall>seg \<in> {seg_ds, seg_es, seg_fs, seg_gs, seg_ss}. seg c' = KERNEL_DATA_SELECTOR) \<and>
    \<not> is_locked (gdt_lock c') \<and>
    (\<forall>x. unat (x - at_gdt l) \<ge> 56 \<longrightarrow> cpu_mem c' x = cpu_mem c x)"
proof -
  have out: "busy_gdt l m x = m x" if "56 \<le> unat (x - at_gdt l)" for m x
    using that write_gdt_outside [of x l m] by (auto simp: busy_gdt_def)
  show ?thesis
    using assms by (simp add: gdt_initialize_returns gdt_segments out is_locked_def)
qed

theorem gdt_selectors_typed_witness:
  "let l = \<lparr>at_gdt = 0x1000, at_tss = 0x2000, at_idt = 0x3000, isr_table = (\<lambda>v. 0x4000 + of_nat v)\<rparr>;
       z = \<lparr>gr_limit = 0, gr_base = 0\<rparr>;
       c = \<lparr>cpu_mem = (\<lambda>_. 0), gdt_lock = \<lparr>next_ticket = 3, serving_ticket = 3\<rparr>, gdtr = z, idtr = \<lparr>ir_limit = 0, ir_base = 0\<rparr>, interrupt_flag = False, seg_cs = 0x28, seg_ds = 0x30,
            seg_es = 0x30, seg_fs = 0x30, seg_gs = 0x30, seg_ss = 0x30, seg_tr = 0\<rparr>
   in \<exists>c'. gdt_initialize l c = Inr (SYSTEM_OK, c') \<and> segment c' TSS_SELECTOR = Some (Tss_busy, 0, 0x2000, 103)"
proof -
  let ?l = "\<lparr>at_gdt = 0x1000, at_tss = 0x2000, at_idt = 0x3000, isr_table = (\<lambda>v. 0x4000 + of_nat v)\<rparr>"
  let ?c = "\<lparr>cpu_mem = (\<lambda>_. 0), gdt_lock = \<lparr>next_ticket = 3, serving_ticket = 3\<rparr>, gdtr = \<lparr>gr_limit = 0, gr_base = 0\<rparr>,
     idtr = \<lparr>ir_limit = 0, ir_base = 0\<rparr>, interrupt_flag = False, seg_cs = 0x28,
     seg_ds = 0x30, seg_es = 0x30, seg_fs = 0x30, seg_gs = 0x30, seg_ss = 0x30, seg_tr = 0\<rparr>"
  have "\<not> is_locked (gdt_lock ?c)" by (simp add: is_locked_def)
  from gdt_selectors_typed [OF this, of ?l] show ?thesis by (auto simp: Let_def)
qed

end
