(* ===== verification/Interrupts.thy ===== *)
theory Interrupts
  imports Segments
begin

text \<open>
  Interrupts: the gates of \<^verbatim>\<open>cpu/idt.hpp\<close> and \<^verbatim>\<open>cpu/idt.cpp\<close>, the frame that the stubs of \<^verbatim>\<open>cpu/idt.S\<close> build on the stack
  and \<^verbatim>\<open>registers.h\<close> describes, the handlers with their reports, and the stack trace of \<^verbatim>\<open>libs/trace.c\<close>.  A log
  message is its level, its format and its arguments.
\<close>

subsection \<open>Gates\<close>

record IdtSegment =
  ids_base_low :: u16
  ids_selector :: u16
  ids_ist :: u8
  ids_type_attributes :: u8
  ids_base_mid :: u16
  ids_base_high :: u32
  ids_reserved :: u32

definition idt_segment_bytes :: "IdtSegment \<Rightarrow> u8 list" where
  "idt_segment_bytes s = bytes16 (ids_base_low s) @ bytes16 (ids_selector s) @ [ids_ist s, ids_type_attributes s] @
     bytes16 (ids_base_mid s) @ bytes32 (ids_base_high s) @ bytes32 (ids_reserved s)"

definition TYPE_ATTRIBUTE_PRESENT :: u8 where "TYPE_ATTRIBUTE_PRESENT = push_bit 7 1"
definition TYPE_ATTRIBUTE_DPL :: "u8 \<Rightarrow> u8" where "TYPE_ATTRIBUTE_DPL x = push_bit 5 x"
definition IDT_INTERRUPT_GATE :: u8 where "IDT_INTERRUPT_GATE = 0xe"
definition IDT_DPL0 :: u8 where "IDT_DPL0 = 0"
definition IDT_DPL3 :: u8 where "IDT_DPL3 = 3"
definition MAX_IDT_ENTRIES :: nat where "MAX_IDT_ENTRIES = 256"
definition EXCEPTION_BREAKPOINT :: nat where "EXCEPTION_BREAKPOINT = 3"
definition EXCEPTION_PAGE_FAULT :: u64 where "EXCEPTION_PAGE_FAULT = 14"

definition idt_attribute :: "u8 \<Rightarrow> u8 \<Rightarrow> u8" where
  "idt_attribute ty dpl =
     (let ret = TYPE_ATTRIBUTE_PRESENT; ret = ret OR TYPE_ATTRIBUTE_DPL dpl; ret = ret OR ty in ret)"

definition idt_create_entry :: "u64 \<Rightarrow> u8 \<Rightarrow> u8 \<Rightarrow> u8 \<Rightarrow> u16 \<Rightarrow> IdtSegment" where
  "idt_create_entry base ist ty dpl selector =
     \<lparr>ids_base_low = ucast (base AND 0xffff),
      ids_selector = selector,
      ids_ist = ist,
      ids_type_attributes = idt_attribute ty dpl,
      ids_base_mid = ucast (drop_bit 16 base AND 0xffff),
      ids_base_high = ucast (drop_bit 32 base AND 0xffffffff),
      ids_reserved = 0\<rparr>"

text \<open>The loop over the vectors; the first case of the \<^verbatim>\<open>switch\<close> runs into the second.\<close>

definition vector_dpl :: "nat \<Rightarrow> u8 \<Rightarrow> u8" where
  "vector_dpl vector dpl =
     (let dpl = (if vector = EXCEPTION_BREAKPOINT then IDT_DPL3 else dpl); dpl = IDT_DPL0 in dpl)"

function idt_loop :: "tables \<Rightarrow> nat \<Rightarrow> u8 \<Rightarrow> mem \<Rightarrow> mem" where
  "idt_loop l vector dpl m =
     (if vector < MAX_IDT_ENTRIES
      then let dpl = vector_dpl vector dpl;
               m = store_bytes m (at_idt l + 16 * of_nat vector)
                     (idt_segment_bytes (idt_create_entry (isr_table l vector) 0 IDT_INTERRUPT_GATE dpl KERNEL_CODE_SELECTOR))
           in idt_loop l (Suc vector) dpl m
      else m)"
  by pat_completeness auto
termination
  by (relation "measure (\<lambda>(l, vector, dpl, m). MAX_IDT_ENTRIES - vector)") auto

declare idt_loop.simps [simp del]

definition sizeof_IdtTable :: nat where
  "sizeof_IdtTable = MAX_IDT_ENTRIES * 16"

definition load_idt :: "cpu \<Rightarrow> IdtRegister \<Rightarrow> cpu" where
  "load_idt c r = c\<lparr>idtr := r\<rparr>"

definition idt_initialize :: "tables \<Rightarrow> cpu \<Rightarrow> int \<times> cpu" where
  "idt_initialize l c =
     (let dpl = IDT_DPL0;
          c = c\<lparr>cpu_mem := idt_loop l 0 dpl (cpu_mem c)\<rparr>;
          idtr = \<lparr>ir_limit = of_nat (sizeof_IdtTable - 1), ir_base = at_idt l\<rparr>
      in (SYSTEM_OK, load_idt c idtr))"

definition cpu_initialize :: "tables \<Rightarrow> cpu \<Rightarrow> cpu_error + cpu" where
  "cpu_initialize l c =
     (let c = c\<lparr>interrupt_flag := False\<rparr> in
      case gdt_initialize l c of Inl e \<Rightarrow> Inl e
      | Inr (_, c) \<Rightarrow> (let (_, c) = idt_initialize l c in Inr (c\<lparr>interrupt_flag := True\<rparr>)))"

subsection \<open>What the processor finds in a gate\<close>

record gate =
  g_handler :: u64
  g_selector :: u16
  g_ist :: u8
  g_type :: u8
  g_dpl :: u8

definition gate_at :: "cpu \<Rightarrow> nat \<Rightarrow> gate option" where
  "gate_at c vector =
     (let a = ir_base (idtr c) + 16 * of_nat vector; m = cpu_mem c in
      if 16 * vector + 15 > unat (ir_limit (idtr c)) \<or> \<not> bit (m (a + 5)) 7 then None
      else Some \<lparr>g_handler = ucast (m a) OR push_bit 8 (ucast (m (a + 1))) OR push_bit 16 (ucast (m (a + 6))) OR
                   push_bit 24 (ucast (m (a + 7))) OR push_bit 32 (ucast (m (a + 8)) OR push_bit 8 (ucast (m (a + 9))) OR
                   push_bit 16 (ucast (m (a + 10))) OR push_bit 24 (ucast (m (a + 11)))),
                 g_selector = ucast (m (a + 2)) OR push_bit 8 (ucast (m (a + 3))),
                 g_ist = m (a + 4) AND 7, g_type = m (a + 5) AND 0x0f, g_dpl = drop_bit 5 (m (a + 5)) AND 3\<rparr>)"

lemma idt_segment_bytes_at:
  fixes s :: IdtSegment and m :: mem and a :: u64
  defines "m' \<equiv> store_bytes m a (idt_segment_bytes s)"
  shows "m' a = ucast (ids_base_low s)" "m' (a + 1) = ucast (drop_bit 8 (ids_base_low s))"
    "m' (a + 2) = ucast (ids_selector s)" "m' (a + 3) = ucast (drop_bit 8 (ids_selector s))"
    "m' (a + 4) = ids_ist s" "m' (a + 5) = ids_type_attributes s"
    "m' (a + 6) = ucast (ids_base_mid s)" "m' (a + 7) = ucast (drop_bit 8 (ids_base_mid s))"
    "m' (a + 8) = ucast (ids_base_high s)" "m' (a + 9) = ucast (drop_bit 8 (ids_base_high s))"
    "m' (a + 10) = ucast (drop_bit 16 (ids_base_high s))" "m' (a + 11) = ucast (drop_bit 24 (ids_base_high s))"
  by (simp_all add: m'_def mem_simps idt_segment_bytes_def bytes16_def bytes32_def)

lemma length_idt_bytes: "length (idt_segment_bytes s) = 16"
  by (simp add: idt_segment_bytes_def bytes16_def bytes32_def)

definition idt_entry :: "tables \<Rightarrow> nat \<Rightarrow> IdtSegment" where
  "idt_entry l v = idt_create_entry (isr_table l v) 0 IDT_INTERRUPT_GATE IDT_DPL0 KERNEL_CODE_SELECTOR"

definition idt_image :: "tables \<Rightarrow> nat \<Rightarrow> u8 list" where
  "idt_image l v = concat (map (idt_segment_bytes \<circ> idt_entry l) [v..<256])"

lemma concat_uniform:
  assumes "\<And>x. length (f x) = n"
  shows "length (concat (map f xs)) = n * length xs"
    "i < length xs \<Longrightarrow> k < n \<Longrightarrow> concat (map f xs) ! (n * i + k) = f (xs ! i) ! k"
proof -
  show "length (concat (map f xs)) = n * length xs" by (induction xs) (simp_all add: assms)
  show "i < length xs \<Longrightarrow> k < n \<Longrightarrow> concat (map f xs) ! (n * i + k) = f (xs ! i) ! k"
    by (induction xs arbitrary: i) (auto simp: assms nth_append nth_Cons' less_Suc_eq_0_disj)
qed

lemma length_idt_image: "length (idt_image l v) = 16 * (256 - v)"
  using concat_uniform(1) [of "idt_segment_bytes \<circ> idt_entry l" 16] by (simp add: idt_image_def length_idt_bytes)

lemma idt_loop_image:
  assumes "v \<le> 256"
  shows "idt_loop l v dpl m = store_bytes m (at_idt l + 16 * of_nat v) (idt_image l v)"
  using assms
proof (induction v arbitrary: dpl m rule: inc_induct)
  case base
  then show ?case by (simp add: idt_loop.simps MAX_IDT_ENTRIES_def idt_image_def store_bytes_def)
next
  case (step v)
  let ?a = "at_idt l + 16 * of_nat v" and ?e = "idt_segment_bytes (idt_entry l v)"
  have "idt_loop l v dpl m = idt_loop l (Suc v) 0 (store_bytes m ?a ?e)"
    using step(2) by (subst idt_loop.simps) (simp add: MAX_IDT_ENTRIES_def Let_def vector_dpl_def idt_entry_def IDT_DPL0_def)
  also have "\<dots> = store_bytes (store_bytes m ?a ?e) (?a + of_nat (length ?e)) (idt_image l (Suc v))"
    by (simp add: step(3) length_idt_bytes algebra_simps)
  also have "\<dots> = store_bytes m ?a (?e @ idt_image l (Suc v))"
    by (rule store_bytes_app) (simp add: length_idt_bytes length_idt_image)
  also have "?e @ idt_image l (Suc v) = idt_image l v" using step(2) by (simp add: idt_image_def upt_conv_Cons)
  finally show ?case .
qed

lemma idt_loop_at:
  assumes "v < 256" "k < 16"
  shows "idt_loop l 0 dpl m (at_idt l + 16 * of_nat v + of_nat k) = idt_segment_bytes (idt_entry l v) ! k"
proof -
  have u: "unat (of_nat (16 * v + k) :: u64) = 16 * v + k" using assms by (intro unat_of_nat64) simp
  have "idt_loop l 0 dpl m (at_idt l + of_nat (16 * v + k)) = idt_image l 0 ! (16 * v + k)"
    using assms by (simp add: idt_loop_image mem_simps length_idt_image u del: of_nat_add of_nat_mult)
  also have "\<dots> = (idt_segment_bytes \<circ> idt_entry l) v ! k"
    using concat_uniform(2) [of "idt_segment_bytes \<circ> idt_entry l" 16 v "[0..<256]" k] assms
    by (simp add: idt_image_def length_idt_bytes)
  finally show ?thesis by (simp add: add.assoc)
qed

lemma gate_bytes:
  assumes "v < 256"
  shows "idt_loop l 0 dpl m (at_idt l + 16 * of_nat v) = idt_segment_bytes (idt_entry l v) ! 0"
    "0 < k \<Longrightarrow> k < 16 \<Longrightarrow> idt_loop l 0 dpl m (at_idt l + 16 * of_nat v + k) = idt_segment_bytes (idt_entry l v) ! unat k"
  using idt_loop_at [OF assms, of 0] idt_loop_at [OF assms, of "unat k"]
  by (simp_all add: word_less_nat_alt)

lemma join_bytes64:
  "ucast (ucast w :: u8) OR push_bit 8 (ucast (ucast (drop_bit 8 w) :: u8)) OR push_bit 16 (ucast (ucast (drop_bit 16 w) :: u8)) OR
   push_bit 24 (ucast (ucast (drop_bit 24 w) :: u8)) OR push_bit 32 (ucast (ucast (drop_bit 32 w) :: u8)) OR
   push_bit 40 (ucast (ucast (drop_bit 40 w) :: u8)) OR push_bit 48 (ucast (ucast (drop_bit 48 w) :: u8)) OR
   push_bit 56 (ucast (ucast (drop_bit 56 w) :: u8)) = w" (is "?l = w") for w :: u64
proof (rule u64_eq_bytes)
  fix k :: nat
  assume "k < 8"
  then show "byte_of k ?l = byte_of k w"
    by (auto intro!: bit_word_eqI simp: bit_byte_of bit_simps dest!: nat_lt_8_cases)
qed

lemma high_half_byte: "k \<le> 24 \<Longrightarrow> ucast (drop_bit k (ucast (take_bit 32 (drop_bit 32 v)) :: u32)) = (ucast (drop_bit (k + 32) v) :: u8)" for v :: u64
  by (auto intro!: bit_word_eqI simp: bit_simps ac_simps)

lemma idt_entry_bases:
  fixes l v
  defines "e \<equiv> idt_entry l v"
  shows "ucast (ids_base_low e) = (ucast (isr_table l v) :: u8)" "ucast (drop_bit 8 (ids_base_low e)) = (ucast (drop_bit 8 (isr_table l v)) :: u8)"
    "ucast (ids_base_mid e) = (ucast (drop_bit 16 (isr_table l v)) :: u8)"
    "ucast (drop_bit 8 (ids_base_mid e)) = (ucast (drop_bit 24 (isr_table l v)) :: u8)"
    "k \<le> 24 \<Longrightarrow> ucast (drop_bit k (ids_base_high e)) = (ucast (drop_bit (k + 32) (isr_table l v)) :: u8)"
  by (simp_all add: e_def idt_entry_def idt_create_entry_def take_bit_masks slices high_half_byte)

lemma gate_of_entry:
  assumes "v < 256"
  shows "gate_at (snd (idt_initialize l c)) v =
    Some \<lparr>g_handler = isr_table l v, g_selector = KERNEL_CODE_SELECTOR, g_ist = 0, g_type = IDT_INTERRUPT_GATE, g_dpl = 0\<rparr>"
proof -
  let ?e = "idt_entry l v"
  have b: "idt_segment_bytes ?e = [ucast (ids_base_low ?e), ucast (drop_bit 8 (ids_base_low ?e)), 8, 0, 0, 0x8e,
      ucast (ids_base_mid ?e), ucast (drop_bit 8 (ids_base_mid ?e)), ucast (ids_base_high ?e), ucast (drop_bit 8 (ids_base_high ?e)),
      ucast (drop_bit 16 (ids_base_high ?e)), ucast (drop_bit 24 (ids_base_high ?e)), 0, 0, 0, 0]"
    by (simp add: idt_segment_bytes_def bytes16_def bytes32_def idt_entry_def idt_create_entry_def idt_attribute_def
        TYPE_ATTRIBUTE_PRESENT_def TYPE_ATTRIBUTE_DPL_def IDT_DPL0_def IDT_INTERRUPT_GATE_def KERNEL_CODE_SELECTOR_def)
  have lim: "16 * v + 15 \<le> 4095" using assms by simp
  have "gate_at (snd (idt_initialize l c)) v = Some \<lparr>g_handler = isr_table l v, g_selector = 8, g_ist = 0, g_type = 0xe, g_dpl = 0\<rparr>"
    using lim idt_entry_bases(5) [of 0 l v] join_bytes64 [of "isr_table l v"]
    by (simp add: gate_at_def idt_initialize_def load_idt_def sizeof_IdtTable_def MAX_IDT_ENTRIES_def Let_def gate_bytes [OF assms] b
        idt_entry_bases)
  then show ?thesis by (simp add: KERNEL_CODE_SELECTOR_def IDT_INTERRUPT_GATE_def)
qed

lemma segment_cong:
  assumes "gdtr c' = gdtr c" "descriptor_at (gdtr c) 8 sel = Some a" "\<And>k. k < 12 \<Longrightarrow> cpu_mem c' (a + k) = cpu_mem c (a + k)"
  shows "segment c' sel = segment c sel"
  using assms(1,2) assms(3) [of 0]
  by (simp add: segment_def segment_defs system_base_def assms(3))

text \<open>
  C29: the gates after \<^verbatim>\<open>cpu::initialize\<close>.  When the lock is free and the two tables do not overlap, the
  processor ends with interrupts enabled, and every one of the 256 vectors has a present interrupt
  gate to its own stub, with privilege 0 and no stack switch, through a selector that names the 64-bit
  kernel code segment; the task segment is still the one at \<^verbatim>\<open>tss\<close>.  The gate of the breakpoint exception
  is no exception: its privilege is 0 as well.
\<close>

theorem interrupt_gates_ready:
  assumes "\<not> is_locked (gdt_lock c)" "\<And>x. unat (x - at_gdt l) < 56 \<Longrightarrow> 4096 \<le> unat (x - at_idt l)"
  shows "\<exists>c'. cpu_initialize l c = Inr c' \<and> interrupt_flag c' \<and>
    (\<forall>v < 256. gate_at c' v = Some \<lparr>g_handler = isr_table l v, g_selector = KERNEL_CODE_SELECTOR, g_ist = 0,
                  g_type = IDT_INTERRUPT_GATE, g_dpl = IDT_DPL0\<rparr>) \<and>
    segment c' KERNEL_CODE_SELECTOR = Some (Code64, 0, 0, 0xffffffff) \<and>
    segment c' TSS_SELECTOR = Some (Tss_busy, 0, at_tss l, 103)"
proof -
  let ?c = "c\<lparr>interrupt_flag := False\<rparr>"
  obtain d where d: "gdt_initialize l ?c = Inr (SYSTEM_OK, d)" "gdtr d = \<lparr>gr_limit = 55, gr_base = at_gdt l\<rparr>"
    "segment d KERNEL_CODE_SELECTOR = Some (Code64, 0, 0, 0xffffffff)" "segment d TSS_SELECTOR = Some (Tss_busy, 0, at_tss l, 103)"
    by (rule that [OF gdt_initialize_returns]) (use assms(1) in \<open>simp_all add: gdt_segments\<close>)
  define c' where "c' = (snd (idt_initialize l d))\<lparr>interrupt_flag := True\<rparr>"
  have same: "cpu_mem c' x = cpu_mem d x" if "unat (x - at_gdt l) < 56" for x
    using assms(2) [OF that]
    by (simp add: c'_def idt_initialize_def load_idt_def idt_loop_image store_bytes_other length_idt_image)
  have off: "unat (at_gdt l + a + k - at_gdt l) < 56" if "k < 12" "a \<le> 40" for a k :: u64
  proof -
    have "unat k < 12" "unat a \<le> 40" using that by (simp_all add: word_less_nat_alt word_le_nat_alt)
    moreover have "at_gdt l + a + k - at_gdt l = a + k" by simp
    ultimately show ?thesis using unat_add64 [of a k] by simp
  qed
  have seg: "segment c' sel = segment d sel" if "sel = KERNEL_CODE_SELECTOR \<or> sel = TSS_SELECTOR" for sel
  proof (rule segment_cong)
    show "gdtr c' = gdtr d" by (simp add: c'_def idt_initialize_def load_idt_def)
    show "descriptor_at (gdtr d) 8 sel = Some (at_gdt l + ucast sel)" using that by (auto simp: d(2) descriptor_at_def selectors)
    show "cpu_mem c' (at_gdt l + ucast sel + k) = cpu_mem d (at_gdt l + ucast sel + k)" if "k < 12" for k
      by (rule same, rule off) (use that \<open>sel = _ \<or> sel = _\<close> in \<open>auto simp: selectors\<close>)
  qed
  have "gate_at c' v = gate_at (snd (idt_initialize l d)) v" for v by (simp add: c'_def gate_at_def)
  then show ?thesis
    using gate_of_entry [of _ l d] d seg by (simp add: cpu_initialize_def c'_def IDT_DPL0_def split_def)
qed

theorem interrupt_gates_ready_witness:
  "let l = \<lparr>at_gdt = 0x1000, at_tss = 0x2000, at_idt = 0x3000, isr_table = (\<lambda>v. 0x4000 + of_nat v)\<rparr>;
       c = \<lparr>cpu_mem = (\<lambda>_. 0), gdt_lock = \<lparr>next_ticket = 0, serving_ticket = 0\<rparr>, gdtr = \<lparr>gr_limit = 0, gr_base = 0\<rparr>,
            idtr = \<lparr>ir_limit = 0, ir_base = 0\<rparr>, interrupt_flag = False, seg_cs = 0x28, seg_ds = 0x30,
            seg_es = 0x30, seg_fs = 0x30, seg_gs = 0x30, seg_ss = 0x30, seg_tr = 0\<rparr>
   in \<exists>c'. cpu_initialize l c = Inr c' \<and> interrupt_flag c' \<and>
        gate_at c' 3 = Some \<lparr>g_handler = 0x4003, g_selector = KERNEL_CODE_SELECTOR, g_ist = 0, g_type = IDT_INTERRUPT_GATE, g_dpl = IDT_DPL0\<rparr>"
proof -
  let ?l = "\<lparr>at_gdt = 0x1000, at_tss = 0x2000, at_idt = 0x3000, isr_table = (\<lambda>v. 0x4000 + of_nat v)\<rparr>"
  let ?c = "\<lparr>cpu_mem = (\<lambda>_. 0), gdt_lock = \<lparr>next_ticket = 0, serving_ticket = 0\<rparr>, gdtr = \<lparr>gr_limit = 0, gr_base = 0\<rparr>,
            idtr = \<lparr>ir_limit = 0, ir_base = 0\<rparr>, interrupt_flag = False, seg_cs = 0x28, seg_ds = 0x30,
            seg_es = 0x30, seg_fs = 0x30, seg_gs = 0x30, seg_ss = 0x30, seg_tr = 0\<rparr>"
  have free: "\<not> is_locked (gdt_lock ?c)" by (simp add: is_locked_def)
  have apart: "4096 \<le> unat (x - at_idt ?l)" if "unat (x - at_gdt ?l) < 56" for x
    using that unat_off [of 8192 x 4096] by simp
  show ?thesis using interrupt_gates_ready [OF free apart] by (auto simp: Let_def)
qed

end
