(* ===== verification/Logger.thy ===== *)
theory Logger
  imports Print "HOL-Library.Monad_Syntax"
begin

text \<open>
  The logger, \<^verbatim>\<open>kernel/logger.cpp\<close> and \<^verbatim>\<open>include/logger.h\<close>, on top of the formatter and the stream of the console.  The
  messages go to \<^verbatim>\<open>stderr\<close>; string literals lie in memory, and \<open>lit\<close> gives the address that the compiler
  chose for a literal.
\<close>

subsection \<open>Definitions\<close>

record LogStyle =
  style_colors :: "u64 list"
  style_tags :: "u64 list"

definition LOG_LEVEL_TRACE :: nat where "LOG_LEVEL_TRACE = 0"
definition LOG_LEVEL_INFO :: nat where "LOG_LEVEL_INFO = 1"
definition LOG_LEVEL_PANIC :: nat where "LOG_LEVEL_PANIC = 5"

definition RESET_TEXT :: string where
  "RESET_TEXT = CHR 0x1b # ''[0m''"

definition newline :: string where
  "newline = [CHR 0x0a]"

text \<open>An index outside the six members of the arrays has no value.\<close>

definition get_log_color :: "LogStyle \<Rightarrow> nat \<Rightarrow> u64 option" where
  "get_log_color style log_level = (if log_level < length (style_colors style) then Some (style_colors style ! log_level) else None)"

definition get_level_tag :: "LogStyle \<Rightarrow> nat \<Rightarrow> u64 option" where
  "get_level_tag style log_level = (if log_level < length (style_tags style) then Some (style_tags style ! log_level) else None)"

definition vlog_msg :: "(string \<Rightarrow> u64) \<Rightarrow> u64 \<Rightarrow> u64 \<Rightarrow> u64 \<Rightarrow> u64 list \<Rightarrow> io \<Rightarrow> io option" where
  "vlog_msg lit color tag format args st = do {
     (_, st) \<leftarrow> fprintf (lit ''%s%s -> '') [color, tag] st;
     (_, st) \<leftarrow> vfprintf format args st;
     (_, st) \<leftarrow> fputs (lit (RESET_TEXT @ newline)) st;
     Some st
   }"

definition log_set_style :: "LogStyle \<Rightarrow> LogStyle \<Rightarrow> LogStyle" where
  "log_set_style style new = new"

definition log_msg :: "(string \<Rightarrow> u64) \<Rightarrow> LogStyle \<Rightarrow> nat \<Rightarrow> u64 \<Rightarrow> u64 list \<Rightarrow> io \<Rightarrow> io option" where
  "log_msg lit style log_level format args st = do {
     color \<leftarrow> get_log_color style log_level;
     tag \<leftarrow> get_level_tag style log_level;
     vlog_msg lit color tag format args st
   }"

text \<open>\<^verbatim>\<open>log_panik\<close> ends in \<^verbatim>\<open>arch::halt(false)\<close>; its value is the stream at that moment.\<close>

definition FATAL_LINE :: string where
  "FATAL_LINE = ''%s---------------- FATAL ERROR ----------------'' @ RESET_TEXT @ newline"

definition STOPPING_LINE :: string where
  "STOPPING_LINE = ''%s-------------- STOPPING SYSTEM --------------'' @ RESET_TEXT @ newline"

definition log_panik :: "(string \<Rightarrow> u64) \<Rightarrow> LogStyle \<Rightarrow> u64 \<Rightarrow> u64 list \<Rightarrow> io \<Rightarrow> io option" where
  "log_panik lit style format args st = do {
     color \<leftarrow> get_log_color style LOG_LEVEL_PANIC;
     tag \<leftarrow> get_level_tag style LOG_LEVEL_PANIC;
     (_, st) \<leftarrow> fprintf (lit FATAL_LINE) [color] st;
     st \<leftarrow> vlog_msg lit color tag format args st;
     (_, st) \<leftarrow> fprintf (lit STOPPING_LINE) [color] st;
     Some st
   }"

definition log_begin_intialization :: "(string \<Rightarrow> u64) \<Rightarrow> LogStyle \<Rightarrow> u64 \<Rightarrow> io \<Rightarrow> io option" where
  "log_begin_intialization lit style component st = do {
     color \<leftarrow> get_log_color style LOG_LEVEL_INFO;
     tag \<leftarrow> get_level_tag style LOG_LEVEL_INFO;
     (_, st) \<leftarrow> fprintf (lit ''%s%s -> Initializing %s'') [color, tag, component] st;
     Some st
   }"

definition log_end_intialization :: "(string \<Rightarrow> u64) \<Rightarrow> io \<Rightarrow> io option" where
  "log_end_intialization lit st = do {
     (_, st) \<leftarrow> fprintf (lit ('' ... OK!'' @ RESET_TEXT @ newline)) [] st;
     Some st
   }"

subsection \<open>Output on a device\<close>

lemma put_device: "write_func (io_file st) = Some w \<Longrightarrow>
    put c st = st\<lparr>io_file := (io_file st)\<lparr>position := position (io_file st) + 1\<rparr>, io_sent := io_sent st @ [c]\<rparr>"
  by (simp add: put_def putc_def Let_def)

lemma fold_put_device:
  "write_func (io_file st) = Some w \<Longrightarrow>
   fold put cs st = st\<lparr>io_file := (io_file st)\<lparr>position := position (io_file st) + of_nat (length cs)\<rparr>, io_sent := io_sent st @ cs\<rparr>"
  by (induction cs arbitrary: st) (simp_all add: put_device add_ac)

text \<open>The bytes of a literal, and the state after a text has been sent.\<close>

definition bytes :: "string \<Rightarrow> u8 list" where
  "bytes s = map (\<lambda>c. of_nat (of_char c)) s"

definition send :: "u8 list \<Rightarrow> io \<Rightarrow> io" where
  "send bs st = fold put (map sint bs) st"

definition console :: "io \<Rightarrow> bool" where
  "console st \<longleftrightarrow> write_func (io_file st) = Some (\<lambda>_. SYSTEM_OK)"

lemma send_simps [simp]:
  "send [] st = st" "send (b # bs) st = send bs (put (sint b) st)" "send bs (send as st) = send (as @ bs) st"
  by (simp_all add: send_def)

lemma send_console:
  assumes "console st"
  shows "console (send bs st)" "io_mem (send bs st) = io_mem st" "io_sent (send bs st) = io_sent st @ map sint bs"
  using assms by (simp_all add: send_def console_def fold_put_device)

lemma literal_at_app: "literal_at m f (as @ bs) \<Longrightarrow> literal_at m (f + of_nat (length as)) bs"
proof (induction as arbitrary: f)
  case (Cons a as)
  then show ?case using Cons.IH [of "f + 1"] by (simp add: add.assoc)
qed simp

text \<open>Text up to the next directive.\<close>

lemma format_text:
  assumes "console st" "literal_at (io_mem st) f (as @ bs)" "37 \<notin> set as"
  shows "format_string f args st = format_string (f + of_nat (length as)) args (send as st)"
  using assms
proof (induction as arbitrary: f st)
  case (Cons a as)
  have b: "io_mem st f = a" "a \<noteq> 0" "a \<noteq> 37" using Cons.prems by auto
  have "format_string f args st = format_string (f + 1) args (put (sint a) st)"
    using b char_at_eq_iff [of "io_mem st" f] by (subst format_string.simps) (auto simp: char_at_def simp del: char_at_eq_iff)
  also have "\<dots> = format_string (f + 1 + of_nat (length as)) args (send as (put (sint a) st))"
    using Cons.prems send_console [of st "[a]"] by (intro Cons.IH) auto
  finally show ?case by (simp add: add_ac)
qed simp

lemma cstring_literal: "literal_at m s bs \<Longrightarrow> length bs < 2 ^ 64 \<Longrightarrow> cstring m s (length bs) \<and> bytes_at m s (length bs) = bs"
proof (induction bs arbitrary: s)
  case (Cons b bs)
  then show ?case using Cons.IH [of "s + 1"] by (simp add: cstring_Suc bytes_at_Suc)
qed simp

lemma print_string_loop_console:
  assumes "console st" "literal_at (io_mem st) str bs"
  shows "print_string_loop str p 0 st = Some (send bs st)"
  using assms
proof (induction bs arbitrary: str p st)
  case Nil
  then show ?case by (subst print_string_loop.simps) simp
next
  case (Cons b bs)
  have "print_string_loop (str + 1) (p - 1) 0 (put (sint b) st) = Some (send bs (put (sint b) st))"
    using Cons.prems send_console [of st "[b]"] by (intro Cons.IH) auto
  then show ?case using Cons.prems by (subst print_string_loop.simps) (auto simp: char_at_def has_def)
qed

lemma directive_s:
  assumes "console st" "literal_at (io_mem st) f (37 # 115 # bs)" "literal_at (io_mem st) str txt" "str \<noteq> 0" "length txt < 2 ^ 31"
  shows "directive f (str # args) st = Ok (f + 2, args, send txt st)"
proof -
  let ?m = "io_mem st"
  have b: "?m (f + 1) = 115" using assms(2) by simp
  have c: "char_at ?m (f + 1) = 115" by (simp add: char_at_def b)
  have adv: "ADVANCE ?m f = Ok (f + 1)" unfolding ADVANCE_def b by simp
  have fl: "parse_flags ?m (f + 1) 0 = Some (0, f + 1)" by (subst parse_flags.simps) (simp add: c)
  have w: "parse_width ?m (f + 1) 0 (str # args) = Ok (0, 0, f + 1, str # args)" by (simp add: parse_width_def c ctype_defs)
  have p: "parse_precision ?m (f + 1) 0 (str # args) = Ok (0, 0, f + 1, str # args)" by (simp add: parse_precision_def c)
  have l: "parse_length ?m (f + 1) 0 = Ok (0, f + 1)" by (simp add: parse_length_def c)
  obtain n where n: "strnlen ?m str MAX_POSSIBLE_BUFFER_SIZE = Some n"
    using strnlen_loop_correct [of MAX_POSSIBLE_BUFFER_SIZE 0 ?m str] by (simp add: strnlen_def MAX_POSSIBLE_BUFFER_SIZE_def)
  have pad: "pad_post n 0 st = (n + 1, st)" by (subst pad_post.simps) simp
  have "print_string 0 0 0 (str # args) st = Ok (args, send txt st)"
    using assms(4) print_string_loop_console [OF assms(1,3), of 0]
    by (simp add: print_string_def va_arg_def n lift_scan_def has_def pad)
  then show ?thesis
    unfolding directive_def Let_def adv fbind.simps fl lift_scan_def option.case prod.case w p l c by simp
qed

text \<open>A string argument, and the end of the format.\<close>

lemma format_s:
  assumes "console st" "literal_at (io_mem st) f (37 # 115 # bs)" "literal_at (io_mem st) str txt" "str \<noteq> 0" "length txt < 2 ^ 31"
  shows "format_string f (str # args) st = format_string (f + 2) args (send txt st)"
  using assms(2) directive_s [OF assms, of args] by (subst format_string.simps) simp

lemma format_end: "literal_at (io_mem st) f [] \<Longrightarrow> format_string f args st = Some (SYSTEM_OK, st)"
  by (subst format_string.simps) simp

lemma fputs_console:
  assumes "console st" "literal_at (io_mem st) s bs" "length bs < 2 ^ 64"
  shows "fputs s st = Some (SYSTEM_OK, send bs st)"
proof -
  note c = cstring_literal [OF assms(2,3)]
  have w: "write_func (io_file st) = Some (\<lambda>_. SYSTEM_OK)" using assms(1) by (simp add: console_def)
  have "length bs < 18446744073709551616" using assms(3) by simp
  then have "unat (0 :: u64) + length (map sint bs) = unat (of_nat (length bs) :: u64)" by (simp add: unat_of_nat64)
  from fputs_loop_device [OF w this, of s] show ?thesis
    by (simp add: fputs_def strlen_cstring [OF conjunct1 [OF c]] accepted_def send_def fold_put_device [OF w] c)
qed

lemma vfprintf_console:
  "console st \<Longrightarrow> format_string format args st = Some (r, st') \<Longrightarrow> console st' \<Longrightarrow> vfprintf format args st = Some (r, st')"
  by (simp add: vfprintf_def vsnprintf_internal_def append_termination_def console_def Let_def)

text \<open>A string in memory that \<^verbatim>\<open>%s\<close> prints, and the literals of the logger in memory.\<close>

definition text_at :: "mem \<Rightarrow> u64 \<Rightarrow> u8 list \<Rightarrow> bool" where
  "text_at m a txt \<longleftrightarrow> literal_at m a txt \<and> a \<noteq> 0 \<and> length txt < 2 ^ 31"

definition logger_literals :: "mem \<Rightarrow> (string \<Rightarrow> u64) \<Rightarrow> bool" where
  "logger_literals m lit \<longleftrightarrow> list_all (\<lambda>s. literal_at m (lit s) (bytes s))
     [''%s%s -> '', RESET_TEXT @ newline, FATAL_LINE, STOPPING_LINE]"

lemma format_ss:
  assumes "console st" "literal_at (io_mem st) f (37 # 115 # 37 # 115 # bs)" "text_at (io_mem st) c ctxt" "text_at (io_mem st) t ttxt" "37 \<notin> set bs"
  shows "format_string f (c # t # args) st = Some (SYSTEM_OK, send (ctxt @ ttxt @ bs) st)"
proof -
  have "format_string f (c # t # args) st = format_string (f + 2) (t # args) (send ctxt st)"
    using assms by (intro format_s [where bs = "37 # 115 # bs"]) (auto simp: text_at_def)
  also have "\<dots> = format_string (f + 2 + 2) args (send ttxt (send ctxt st))"
    using assms send_console [OF assms(1)] by (intro format_s [where bs = bs]) (auto simp: text_at_def add.assoc)
  also have "\<dots> = format_string (f + 2 + 2 + of_nat (length bs)) args (send bs (send ttxt (send ctxt st)))"
    using assms send_console [OF assms(1)] by (intro format_text [where bs = "[]"]) (auto simp: add.assoc)
  also have "\<dots> = Some (SYSTEM_OK, send (ctxt @ ttxt @ bs) st)"
    using assms(2) send_console [OF assms(1)] literal_at_app [of "io_mem st" "f + 2 + 2" bs "[]"]
    by (subst format_end) (auto simp: add.assoc)
  finally show ?thesis .
qed

lemma format_s_text:
  assumes "console st" "literal_at (io_mem st) f (37 # 115 # bs)" "text_at (io_mem st) c ctxt" "37 \<notin> set bs"
  shows "format_string f (c # args) st = Some (SYSTEM_OK, send (ctxt @ bs) st)"
proof -
  have "format_string f (c # args) st = format_string (f + 2) args (send ctxt st)"
    using assms by (intro format_s [where bs = bs]) (auto simp: text_at_def)
  also have "\<dots> = format_string (f + 2 + of_nat (length bs)) args (send bs (send ctxt st))"
    using assms send_console [OF assms(1)] by (intro format_text [where bs = "[]"]) (auto simp: add.assoc)
  also have "\<dots> = Some (SYSTEM_OK, send (ctxt @ bs) st)"
    using assms(2) send_console [OF assms(1)] literal_at_app [of "io_mem st" "f + 2" bs "[]"]
    by (subst format_end) (auto simp: add.assoc)
  finally show ?thesis .
qed

definition message :: "u8 list \<Rightarrow> u8 list \<Rightarrow> u8 list \<Rightarrow> u8 list" where
  "message ctxt ttxt txt = ctxt @ ttxt @ bytes '' -> '' @ txt @ bytes (RESET_TEXT @ newline)"

lemma arrow: "bytes ''%s%s -> '' = 37 # 115 # 37 # 115 # bytes '' -> ''" "37 \<notin> set (bytes '' -> '')"
  by code_simp+

lemma vlog_msg_text:
  assumes "console st" "logger_literals (io_mem st) lit" "text_at (io_mem st) color ctxt" "text_at (io_mem st) tag ttxt"
    "literal_at (io_mem st) format txt" "37 \<notin> set txt"
  shows "vlog_msg lit color tag format args st = Some (send (message ctxt ttxt txt) st)"
proof -
  note con = send_console [OF assms(1)]
  let ?s1 = "send (ctxt @ ttxt @ bytes '' -> '') st"
  have lits: "literal_at (io_mem st) (lit ''%s%s -> '') (bytes ''%s%s -> '')"
     "literal_at (io_mem st) (lit (RESET_TEXT @ newline)) (bytes (RESET_TEXT @ newline))"
    using assms(2) by (simp_all add: logger_literals_def)
  have f1: "fprintf (lit ''%s%s -> '') [color, tag] st = Some (SYSTEM_OK, ?s1)"
    unfolding fprintf_def using lits(1) assms arrow con by (intro vfprintf_console format_ss) auto
  have "format_string format args ?s1 = format_string (format + of_nat (length txt)) args (send txt ?s1)"
    using assms con by (intro format_text [where bs = "[]"]) auto
  also have "\<dots> = Some (SYSTEM_OK, send txt ?s1)"
    using literal_at_app [of "io_mem st" format "txt" "[]"] assms(5) con by (intro format_end) simp
  finally have f2: "vfprintf format args ?s1 = Some (SYSTEM_OK, send txt ?s1)"
    using assms(1) con by (intro vfprintf_console) (simp_all add: send_console)
  have len: "length (bytes (RESET_TEXT @ newline)) < 2 ^ 64" by (simp add: bytes_def RESET_TEXT_def newline_def)
  have f3: "fputs (lit (RESET_TEXT @ newline)) (send txt ?s1) = Some (SYSTEM_OK, send (bytes (RESET_TEXT @ newline)) (send txt ?s1))"
    using lits(2) con by (intro fputs_console [OF _ _ len]) (simp_all add: send_console)
  show ?thesis unfolding vlog_msg_def by (simp add: f1 f2 [simplified] f3 [simplified] message_def)
qed

text \<open>
  What a message of the logger puts on the console.  For every level of the style and a message
  without directives, \<^verbatim>\<open>log_msg\<close> sends the color, the tag, an arrow, the message, the reset sequence and a
  line feed, and \<^verbatim>\<open>log_panik\<close> frames this for the panic level by a headline and a closing line in its
  color; nothing else is sent and the memory is not touched.
\<close>

definition headline :: "u8 list \<Rightarrow> string \<Rightarrow> u8 list" where
  "headline ctxt line = ctxt @ bytes (line @ RESET_TEXT @ newline)"

lemma lines:
  "bytes FATAL_LINE = 37 # 115 # bytes (''---------------- FATAL ERROR ----------------'' @ RESET_TEXT @ newline)"
  "37 \<notin> set (bytes (''---------------- FATAL ERROR ----------------'' @ RESET_TEXT @ newline))"
  "bytes STOPPING_LINE = 37 # 115 # bytes (''-------------- STOPPING SYSTEM --------------'' @ RESET_TEXT @ newline)"
  "37 \<notin> set (bytes (''-------------- STOPPING SYSTEM --------------'' @ RESET_TEXT @ newline))"
  by code_simp+

theorem logger_output:
  assumes "console st" "logger_literals (io_mem st) lit" "length (style_colors style) = 6" "length (style_tags style) = 6"
    "\<And>i. i < 6 \<Longrightarrow> text_at (io_mem st) (style_colors style ! i) (color i) \<and> text_at (io_mem st) (style_tags style ! i) (tag i)"
    "literal_at (io_mem st) format msg" "37 \<notin> set msg"
  shows "(level < 6 \<longrightarrow> log_msg lit style level format args st = Some (send (message (color level) (tag level) msg) st)) \<and>
    log_panik lit style format args st =
      Some (send (headline (color 5) ''---------------- FATAL ERROR ----------------'' @ message (color 5) (tag 5) msg @
        headline (color 5) ''-------------- STOPPING SYSTEM --------------'') st) \<and>
    io_mem (send bs st) = io_mem st \<and> io_sent (send bs st) = io_sent st @ map sint bs"
proof -
  note con = send_console [OF assms(1)]
  have lits: "literal_at (io_mem st) (lit FATAL_LINE) (bytes FATAL_LINE)" "literal_at (io_mem st) (lit STOPPING_LINE) (bytes STOPPING_LINE)"
    using assms(2) by (simp_all add: logger_literals_def)
  have print: "fprintf (lit line) [style_colors style ! 5] (send as st) = Some (SYSTEM_OK, send (as @ color 5 @ bs) st)"
    if "literal_at (io_mem st) (lit line) (37 # 115 # bs)" "37 \<notin> set bs" for line as bs
    unfolding fprintf_def using format_s_text [of "send as st" "lit line" bs "style_colors style ! 5" "color 5" "[]"] that assms(5) [of 5] con
    by (intro vfprintf_console) (simp_all add: send_console)
  have msg: "vlog_msg lit (style_colors style ! i) (style_tags style ! i) format args (send as st) =
      Some (send (as @ message (color i) (tag i) msg) st)" if "i < 6" for i as
    using vlog_msg_text [of "send as st" lit "style_colors style ! i" "color i" "style_tags style ! i" "tag i" format msg args]
      that assms con by simp
  have p: "fprintf (lit FATAL_LINE) [style_colors style ! 5] st = Some (SYSTEM_OK, send (headline (color 5) ''---------------- FATAL ERROR ----------------'') st)"
    "fprintf (lit STOPPING_LINE) [style_colors style ! 5] (send as st) =
       Some (SYSTEM_OK, send (as @ headline (color 5) ''-------------- STOPPING SYSTEM --------------'') st)" for as
    using print [of FATAL_LINE _ "[]", OF lits(1) [unfolded lines(1)] lines(2)] print [OF lits(2) [unfolded lines(3)] lines(4)]
    by (simp_all add: headline_def)
  have level: "log_msg lit style level format args st = Some (send (message (color level) (tag level) msg) st)" if "level < 6"
    using msg [OF that, of "[]"] that assms(3,4) by (simp add: log_msg_def get_log_color_def get_level_tag_def)
  have "log_panik lit style format args st =
      Some (send (headline (color 5) ''---------------- FATAL ERROR ----------------'' @ message (color 5) (tag 5) msg @
        headline (color 5) ''-------------- STOPPING SYSTEM --------------'') st)"
    using assms(3,4) by (simp add: log_panik_def get_log_color_def get_level_tag_def LOG_LEVEL_PANIC_def p msg)
  then show ?thesis using level con by blast
qed

text \<open>The literals one after the other from address 4096, each with its terminator.\<close>

definition demo_image :: "u8 list" where
  "demo_image = bytes ''%s%s -> '' @ [0] @ bytes (RESET_TEXT @ newline) @ [0] @ bytes FATAL_LINE @ [0] @ bytes STOPPING_LINE @ [0] @
     bytes ''[P]'' @ [0] @ bytes ''Hi'' @ [0]"

definition demo_mem :: mem where
  "demo_mem x = (if unat (x - 4096) < length demo_image then demo_image ! unat (x - 4096) else 0)"

lemma literal_in_image:
  assumes "drop k demo_image = bs @ 0 # rest" "list_all (\<lambda>b. b \<noteq> 0) bs"
  shows "literal_at demo_mem (4096 + of_nat k) bs"
proof -
  have len: "length demo_image < 1000" by code_simp
  have "literal_at demo_mem (4096 + of_nat k) bs" if "drop k demo_image = bs @ 0 # rest" "list_all (\<lambda>b. b \<noteq> 0) bs" for k
    using that
  proof (induction bs arbitrary: k)
    case Nil
    then have k: "k < length demo_image" by (metis append_Nil drop_all list.discI not_le)
    then show ?case using Nil len by (simp add: demo_mem_def unat_of_nat64 flip: hd_drop_conv_nth)
  next
    case (Cons b bs)
    then have k: "k < length demo_image" by (metis append_Cons drop_all list.discI not_le)
    have "demo_mem (4096 + of_nat k) = b" using Cons.prems len k by (simp add: demo_mem_def unat_of_nat64 flip: hd_drop_conv_nth)
    moreover have "drop (Suc k) demo_image = bs @ 0 # rest" using Cons.prems by (metis append_Cons drop_Suc list.sel(3) tl_drop)
    ultimately show ?case using Cons.IH [of "Suc k"] Cons.prems by (simp add: add_ac)
  qed
  then show ?thesis using assms by blast
qed

lemma demo_drops:
  "drop 0 demo_image = bytes ''%s%s -> '' @ 0 # bytes (RESET_TEXT @ newline) @ [0] @ bytes FATAL_LINE @ [0] @ bytes STOPPING_LINE @ [0] @ bytes ''[P]'' @ [0] @ bytes ''Hi'' @ [0]"
  "drop 9 demo_image = bytes (RESET_TEXT @ newline) @ 0 # bytes FATAL_LINE @ [0] @ bytes STOPPING_LINE @ [0] @ bytes ''[P]'' @ [0] @ bytes ''Hi'' @ [0]"
  "drop 15 demo_image = bytes FATAL_LINE @ 0 # bytes STOPPING_LINE @ [0] @ bytes ''[P]'' @ [0] @ bytes ''Hi'' @ [0]"
  "drop 68 demo_image = bytes STOPPING_LINE @ 0 # bytes ''[P]'' @ [0] @ bytes ''Hi'' @ [0]"
  "drop 121 demo_image = bytes ''[P]'' @ 0 # bytes ''Hi'' @ [0]"
  "drop 125 demo_image = bytes ''Hi'' @ 0 # []"
  by code_simp+

lemma demo_nonzero:
  "list_all (\<lambda>b. b \<noteq> 0) (bytes ''%s%s -> '')"
  "list_all (\<lambda>b. b \<noteq> 0) (bytes (RESET_TEXT @ newline))"
  "list_all (\<lambda>b. b \<noteq> 0) (bytes FATAL_LINE)"
  "list_all (\<lambda>b. b \<noteq> 0) (bytes STOPPING_LINE)"
  "list_all (\<lambda>b. b \<noteq> 0) (bytes ''[P]'')"
  "list_all (\<lambda>b. b \<noteq> 0) (bytes ''Hi'')"
  by code_simp+

definition demo_lit :: "string \<Rightarrow> u64" where
  "demo_lit s = (if s = ''%s%s -> '' then 4096 else if s = RESET_TEXT @ newline then 4105 else if s = FATAL_LINE then 4111
        else if s = STOPPING_LINE then 4164 else 0)"

lemma demo_memory:
  "logger_literals demo_mem demo_lit" "text_at demo_mem 4104 []" "text_at demo_mem 4217 (bytes ''[P]'')"
  "literal_at demo_mem 4221 (bytes ''Hi'')" "37 \<notin> set (bytes ''Hi'')"
proof -
  have l0: "literal_at demo_mem 4096 (bytes ''%s%s -> '')"
    using literal_in_image [of 0 "bytes ''%s%s -> ''" "bytes (RESET_TEXT @ newline) @ [0] @ bytes FATAL_LINE @ [0] @ bytes STOPPING_LINE @ [0] @ bytes ''[P]'' @ [0] @ bytes ''Hi'' @ [0]"] demo_drops demo_nonzero by simp
  have l1: "literal_at demo_mem 4105 (bytes (RESET_TEXT @ newline))"
    using literal_in_image [of 9 "bytes (RESET_TEXT @ newline)" "bytes FATAL_LINE @ [0] @ bytes STOPPING_LINE @ [0] @ bytes ''[P]'' @ [0] @ bytes ''Hi'' @ [0]"] demo_drops demo_nonzero by simp
  have l2: "literal_at demo_mem 4111 (bytes FATAL_LINE)"
    using literal_in_image [of 15 "bytes FATAL_LINE" "bytes STOPPING_LINE @ [0] @ bytes ''[P]'' @ [0] @ bytes ''Hi'' @ [0]"] demo_drops demo_nonzero by simp
  have l3: "literal_at demo_mem 4164 (bytes STOPPING_LINE)"
    using literal_in_image [of 68 "bytes STOPPING_LINE" "bytes ''[P]'' @ [0] @ bytes ''Hi'' @ [0]"] demo_drops demo_nonzero by simp
  have l4: "literal_at demo_mem 4217 (bytes ''[P]'')"
    using literal_in_image [of 121 "bytes ''[P]''" "bytes ''Hi'' @ [0]"] demo_drops demo_nonzero by simp
  have l5: "literal_at demo_mem 4221 (bytes ''Hi'')"
    using literal_in_image [of 125 "bytes ''Hi''" "[]"] demo_drops demo_nonzero by simp
  have l6: "literal_at demo_mem 4104 []" using literal_at_app [of demo_mem 4096 "bytes ''%s%s -> ''" "[]"] l0 by (simp add: bytes_def)
  show "logger_literals demo_mem demo_lit"
    using l0 l1 l2 l3 by (simp add: logger_literals_def demo_lit_def FATAL_LINE_def STOPPING_LINE_def RESET_TEXT_def newline_def)
  show "text_at demo_mem 4104 []" "text_at demo_mem 4217 (bytes ''[P]'')" using l4 l6 by (simp_all add: text_at_def bytes_def)
  show "literal_at demo_mem 4221 (bytes ''Hi'')" by (rule l5)
  show "37 \<notin> set (bytes ''Hi'')" by code_simp
qed

theorem logger_output_witness:
  "let st = \<lparr>io_mem = demo_mem, io_file = \<lparr>fl_flags = 0, buffer_size = 0x7fffffff, position = 0, buffer_ptr = 0, write_func = Some (\<lambda>_. SYSTEM_OK)\<rparr>,
            io_sent = []\<rparr>;
      style = \<lparr>style_colors = replicate 6 4104, style_tags = replicate 6 4217\<rparr>
   in \<exists>st'. log_msg demo_lit style 5 4221 [] st = Some st' \<and> io_sent st' = map sint (message [] (bytes ''[P]'') (bytes ''Hi''))"
proof -
  let ?st = "\<lparr>io_mem = demo_mem, io_file = \<lparr>fl_flags = 0, buffer_size = 0x7fffffff, position = 0, buffer_ptr = 0, write_func = Some (\<lambda>_. SYSTEM_OK)\<rparr>,
            io_sent = []\<rparr>"
  let ?style = "\<lparr>style_colors = replicate 6 4104, style_tags = replicate 6 4217\<rparr> :: LogStyle"
  have st: "console ?st" "logger_literals (io_mem ?st) demo_lit" "literal_at (io_mem ?st) 4221 (bytes ''Hi'')"
    using demo_memory by (simp_all add: console_def)
  from logger_output [OF st(1,2), of ?style "\<lambda>_. []" "\<lambda>_. bytes ''[P]''", OF _ _ _ st(3) demo_memory(5), of 5 "[]" "message [] (bytes ''[P]'') (bytes ''Hi'')"]
  show ?thesis using demo_memory(2,3) by (simp add: Let_def)
qed

end
