(* ===== verification/Exceptions.thy ===== *)
theory Exceptions
  imports Interrupts Logger
begin

text \<open>
  From an interrupt to the halt: the frame that the stubs of \<^verbatim>\<open>cpu/idt.S\<close> build on the stack and \<^verbatim>\<open>registers.h\<close>
  describes, the registers the handler is called with, the handlers of \<^verbatim>\<open>cpu/idt.cpp\<close> with their
  reports, and the stack trace of \<^verbatim>\<open>libs/trace.c\<close>.  Reads of memory in the handlers and the output of the logger are
  taken to return, so that a nested fault or a serial port that never drains is not covered; where
  the compiled handlers keep their own frames is a parameter.  The stack pointer is that after the
  alignment that the processor does before its first push.  A log
  message is its level, its format and its arguments; \<^verbatim>\<open>log_panik\<close> does not return, so that a run that has
  halted is on the left of a sum, with what was logged.
\<close>

subsection \<open>Messages\<close>

datatype log_arg = Num u64 | Text string

datatype log_entry = Log nat string "log_arg list" | Fatal string "log_arg list"

definition log_panic :: "string \<Rightarrow> log_arg list \<Rightarrow> log_entry" where
  "log_panic format args = Log LOG_LEVEL_PANIC format args"

definition panik :: "log_entry list \<Rightarrow> string \<Rightarrow> log_arg list \<Rightarrow> log_entry list + 'a" where
  "panik log format args = Inl (log @ [Fatal format args])"

text \<open>A failed assertion: two messages, and the halt.\<close>

definition assert_fail :: "string \<Rightarrow> string \<Rightarrow> u64 \<Rightarrow> string \<Rightarrow> log_entry list \<Rightarrow> log_entry list + 'a" where
  "assert_fail assertion file line function log =
     (let log = log @ [log_panic (''\"%s\": Failed assertion: line %d: function %s'') [Text file, Num line, Text function]]
      in panik log ''assertion: %s'' [Text assertion])"

subsection \<open>Stack traces\<close>

record Stackframe =
  sf_next :: u64
  sf_return_address :: u64

definition stackframe_at :: "mem \<Rightarrow> u64 \<Rightarrow> Stackframe" where
  "stackframe_at m a = \<lparr>sf_next = load64 m a, sf_return_address = load64 m (a + 8)\<rparr>"

definition STACKTRACE_MAX :: nat where "STACKTRACE_MAX = 64"

function stacktrace_loop :: "mem \<Rightarrow> u64 \<Rightarrow> nat \<Rightarrow> log_entry list \<Rightarrow> log_entry list" where
  "stacktrace_loop m frame i log =
     (if frame \<noteq> 0 \<and> i < STACKTRACE_MAX
      then let i = Suc i;
               address = sf_return_address (stackframe_at m frame);
               frame = sf_next (stackframe_at m frame)
           in if address = 0 then log
              else stacktrace_loop m frame i (log @ [Log LOG_LEVEL_TRACE ''Frame #%d -> %p'' [Num (of_nat i), Num address]])
      else log)"
  by pat_completeness auto
termination
  by (relation "measure (\<lambda>(m, frame, i, log). STACKTRACE_MAX - i)") auto

declare stacktrace_loop.simps [simp del]

definition dump_stacktrace :: "mem \<Rightarrow> u64 \<Rightarrow> log_entry list \<Rightarrow> log_entry list" where
  "dump_stacktrace m frame log = stacktrace_loop m frame 0 log"

subsection \<open>The interrupt frame\<close>

record Iframe =
  f_rdi :: u64
  f_rsi :: u64
  f_rbp :: u64
  f_rbx :: u64
  f_rdx :: u64
  f_rcx :: u64
  f_rax :: u64
  f_r8 :: u64
  f_r9 :: u64
  f_r10 :: u64
  f_r11 :: u64
  f_r12 :: u64
  f_r13 :: u64
  f_r14 :: u64
  f_r15 :: u64
  f_vector :: u64
  f_err_code :: u64
  f_ip :: u64
  f_cs :: u64
  f_flags :: u64
  f_user_sp :: u64
  f_user_ss :: u64

definition IFRAME_OFFSET_VECTOR :: u64 where "IFRAME_OFFSET_VECTOR = 15 * 8"
definition IFRAME_OFFSET_CS :: u64 where "IFRAME_OFFSET_CS = 18 * 8"
definition IFRAME_SIZE :: u64 where "IFRAME_SIZE = 22 * 8"

text \<open>The structure at an address: member \<open>i\<close> lies at offset \<open>8 * i\<close>.\<close>

definition iframe_at :: "mem \<Rightarrow> u64 \<Rightarrow> Iframe" where
  "iframe_at m a =
     (let w = \<lambda>i. load64 m (a + 8 * i) in
      \<lparr>f_rdi = w 0, f_rsi = w 1, f_rbp = w 2, f_rbx = w 3, f_rdx = w 4, f_rcx = w 5, f_rax = w 6, f_r8 = w 7, f_r9 = w 8,
       f_r10 = w 9, f_r11 = w 10, f_r12 = w 11, f_r13 = w 12, f_r14 = w 13, f_r15 = w 14, f_vector = w 15, f_err_code = w 16,
       f_ip = w 17, f_cs = w 18, f_flags = w 19, f_user_sp = w 20, f_user_ss = w 21\<rparr>)"

definition push_reg :: "u64 \<Rightarrow> mem \<times> u64 \<Rightarrow> mem \<times> u64" where
  "push_reg v s = (let (m, sp) = s in (store64 m (sp - 8) v, sp - 8))"

text \<open>
  What reaches the stack, in the order of the pushes.  The processor pushes its part, and an error code
  for the exceptions for which the architecture has one: #DF, #TS, #NP, #SS, #GP, #PF, #AC, and
  #CP, #VC and #SX, the vectors 21, 29 and 30 of \<^verbatim>\<open>idt.hpp\<close>.  The stub pushes a zero for the vectors that its own
  table says to have no error code, and the vector; the common code pushes the registers.
\<close>

definition error_code_vector :: "u64 \<Rightarrow> bool" where
  "error_code_vector v \<longleftrightarrow> v \<in> {8, 10, 11, 12, 13, 14, 17, 21, 29, 30}"

definition has_error :: "u64 \<Rightarrow> bool" where
  "has_error current \<longleftrightarrow> current = 8 \<or> (current \<ge> 10 \<and> current \<le> 14) \<or> current = 17"

definition processor_frame :: "Iframe \<Rightarrow> mem \<times> u64 \<Rightarrow> mem \<times> u64" where
  "processor_frame f s =
     (let s = fold push_reg [f_user_ss f, f_user_sp f, f_flags f, f_cs f, f_ip f] s
      in if error_code_vector (f_vector f) then push_reg (f_err_code f) s else s)"

definition isr_dispatch :: "u64 \<Rightarrow> mem \<times> u64 \<Rightarrow> mem \<times> u64" where
  "isr_dispatch current s = (let s = (if \<not> has_error current then push_reg 0 s else s) in push_reg current s)"

definition save_registers :: "Iframe \<Rightarrow> mem \<times> u64 \<Rightarrow> mem \<times> u64" where
  "save_registers f s = fold push_reg [f_r15 f, f_r14 f, f_r13 f, f_r12 f, f_r11 f, f_r10 f, f_r9 f, f_r8 f, f_rax f, f_rcx f,
     f_rdx f, f_rbx f, f_rbp f, f_rsi f, f_rdi f] s"

definition interrupt_entry :: "Iframe \<Rightarrow> mem \<times> u64 \<Rightarrow> mem \<times> u64" where
  "interrupt_entry f s = save_registers f (isr_dispatch (f_vector f) (processor_frame f s))"

subsection \<open>Reports\<close>

definition dump_interrupt_frame :: "Iframe \<Rightarrow> log_entry list \<Rightarrow> log_entry list" where
  "dump_interrupt_frame f log = log @
     [log_panic ''CS : 0x%.16lx RIP: 0x%.16lx EFL: 0x%.16lx'' [Num (f_cs f), Num (f_ip f), Num (f_flags f)],
      log_panic ''RAX: 0x%.16lx RBX: 0x%.16lx RCX: 0x%.16lx'' [Num (f_rax f), Num (f_rbx f), Num (f_rcx f)],
      log_panic ''RDX: 0x%.16lx RSI: 0x%.16lx RBP: 0x%.16lx'' [Num (f_rdx f), Num (f_rsi f), Num (f_rbp f)],
      log_panic ''RSP: 0x%.16lx R8 : 0x%.16lx R9 : 0x%.16lx'' [Num (f_rsi f), Num (f_r8 f), Num (f_r9 f)],
      log_panic ''R10: 0x%.16lx R11: 0x%.16lx R12: 0x%.16lx'' [Num (f_r10 f), Num (f_r11 f), Num (f_r12 f)],
      log_panic ''R13: 0x%.16lx R14: 0x%.16lx R15: 0x%.16lx'' [Num (f_r13 f), Num (f_r14 f), Num (f_r15 f)],
      log_panic ''EC : 0x%.16lx USP: 0x%.16lx USS: 0x%.16lx'' [Num (f_err_code f), Num (f_user_sp f), Num (f_user_ss f)]]"

definition PAGE_FAULT_PRESENT :: u64 where "PAGE_FAULT_PRESENT = push_bit 0 1"
definition PAGE_FAULT_WRITE :: u64 where "PAGE_FAULT_WRITE = push_bit 1 1"
definition PAGE_FAULT_USER :: u64 where "PAGE_FAULT_USER = push_bit 2 1"
definition PAGE_FAULT_RESERVE_WRITE :: u64 where "PAGE_FAULT_RESERVE_WRITE = push_bit 3 1"
definition PAGE_FAULT_INSTRUCTION_FETCH :: u64 where "PAGE_FAULT_INSTRUCTION_FETCH = push_bit 4 1"
definition PAGE_FAULT_SHADOW_STACK :: u64 where "PAGE_FAULT_SHADOW_STACK = push_bit 6 1"

definition fault_text :: "u64 \<Rightarrow> u64 \<Rightarrow> string \<Rightarrow> string \<Rightarrow> log_arg" where
  "fault_text error_code flag yes no = Text (if error_code AND flag \<noteq> 0 then yes else no)"

definition dump_page_fault_error :: "Iframe \<Rightarrow> u64 \<Rightarrow> log_entry list \<Rightarrow> log_entry list" where
  "dump_page_fault_error f cr2 log =
     (let error_code = f_err_code f;
          virt_addr = cr2;
          ssp = f_user_ss f AND 0xffffffff;
          sp = f_user_sp f;
          cs = f_cs f AND 0xffffffff;
          ip = f_ip f
      in log @
        [log_panic ''<PAGE FAULT> Instruction Pointer  = 0x%lx:0x%lx'' [Num cs, Num ip],
         log_panic ''<PAGE FAULT> Stack Pointer        = 0x%lx:0x%lx'' [Num ssp, Num sp],
         log_panic ''<PAGE FAULT> Fault Linear Address = 0x%lx'' [Num virt_addr],
         log_panic ''<PAGE FAULT> Error Code Value     = 0x%lx'' [Num error_code],
         log_panic ''<PAGE FAULT> Error Code Type      = %s %s %s%s %s, %s''
           [fault_text error_code PAGE_FAULT_USER ''user'' ''supervisor'',
            fault_text error_code PAGE_FAULT_WRITE ''write'' ''read'',
            fault_text error_code PAGE_FAULT_INSTRUCTION_FETCH ''instruction'' ''data'',
            fault_text error_code PAGE_FAULT_RESERVE_WRITE ''reserved write'' [],
            fault_text error_code PAGE_FAULT_SHADOW_STACK ''shadow stack'' [],
            fault_text error_code PAGE_FAULT_PRESENT ''protection violation'' ''page not present'']])"

subsection \<open>Handlers\<close>

text \<open>\<open>frame\<close> is the frame pointer that \<^verbatim>\<open>dump_stacktrace\<close> starts from, \<open>cr2\<close> the register.\<close>

definition interrupts_exception_handler :: "mem \<Rightarrow> u64 \<Rightarrow> u64 \<Rightarrow> Iframe \<Rightarrow> log_entry list \<Rightarrow> log_entry list + log_entry list" where
  "interrupts_exception_handler m frame cr2 f log =
     (let log = dump_stacktrace m frame log;
          log = (if f_err_code f = EXCEPTION_PAGE_FAULT then dump_page_fault_error f cr2 log else log);
          log = dump_interrupt_frame f log
      in panik log ''Unhandled Exception 0x%lx!'' [Num (f_vector f)])"

definition exception_handler :: "mem \<Rightarrow> u64 \<Rightarrow> u64 \<Rightarrow> Iframe \<Rightarrow> log_entry list \<Rightarrow> log_entry list + log_entry list" where
  "exception_handler m frame cr2 f log =
     (case (if f_vector f < 0x20 then interrupts_exception_handler m frame cr2 f log else Inr log) of
        Inl log \<Rightarrow> Inl log
      | Inr log \<Rightarrow> panik log ''Interrupt 0x%.16lx triggered!'' [Num (f_vector f)])"

definition nmi_handler :: "log_entry list \<Rightarrow> log_entry list + log_entry list" where
  "nmi_handler log = panik log ''nmi_handler()  called!'' []"

text \<open>
  The common part of the stubs: the registers with which the handler is called.  The general registers
  are cleared, \<^verbatim>\<open>rdi\<close> points to the frame.  After an interrupt of user mode, which the byte of the code
  segment in the frame tells, \<^verbatim>\<open>rbp\<close> is cleared and \<^verbatim>\<open>swapgs\<close> executed.  The path of non-maskable interrupts
  saves the base of \<^verbatim>\<open>gs\<close> in \<^verbatim>\<open>rbx\<close>, computes the address of the structure of the processor in \<^verbatim>\<open>rax\<close>, and
  reads the base of \<^verbatim>\<open>gs\<close> into \<^verbatim>\<open>rax\<close> again.
\<close>

record entry_regs =
  e_rax :: u64
  e_rbx :: u64
  e_rcx :: u64
  e_rdx :: u64
  e_rdi :: u64
  e_rbp :: u64
  e_gs_base :: u64
  e_kernel_gs_base :: u64

definition MSR_GS_BASE :: u64 where "MSR_GS_BASE = 0xc0000101"
definition INTERRUPT_STACK_SIZE :: u64 where "INTERRUPT_STACK_SIZE = 4096"
definition PERCPU_INTERRUPT_STACKS_NMI_OFFSET :: u64 where "PERCPU_INTERRUPT_STACKS_NMI_OFFSET = 0x20e0"

definition rdmsr64_gs_base :: "entry_regs \<Rightarrow> entry_regs" where
  "rdmsr64_gs_base r =
     (let r = r\<lparr>e_rcx := MSR_GS_BASE, e_rax := e_gs_base r AND 0xffffffff, e_rdx := drop_bit 32 (e_gs_base r)\<rparr>;
          r = r\<lparr>e_rdx := push_bit 32 (e_rdx r)\<rparr>
      in r\<lparr>e_rax := e_rax r OR e_rdx r\<rparr>)"

definition swapgs :: "entry_regs \<Rightarrow> entry_regs" where
  "swapgs r = r\<lparr>e_gs_base := e_kernel_gs_base r, e_kernel_gs_base := e_gs_base r\<rparr>"

definition handler_regs :: "mem \<Rightarrow> u64 \<Rightarrow> u64 \<Rightarrow> u64 \<Rightarrow> u64 \<Rightarrow> entry_regs" where
  "handler_regs m rsp rbp gs kernel_gs =
     (let r = \<lparr>e_rax = 0, e_rbx = 0, e_rcx = 0, e_rdx = 0, e_rdi = rsp, e_rbp = rbp, e_gs_base = gs, e_kernel_gs_base = kernel_gs\<rparr>
      in if load64 m (rsp + IFRAME_OFFSET_VECTOR) = 2
         then let r = rdmsr64_gs_base r;
                  r = r\<lparr>e_rbx := e_rax r\<rparr>;
                  r = r\<lparr>e_rax := rsp - (INTERRUPT_STACK_SIZE - IFRAME_SIZE + PERCPU_INTERRUPT_STACKS_NMI_OFFSET)\<rparr>
              in rdmsr64_gs_base r
         else if m (rsp + IFRAME_OFFSET_CS) AND 3 \<noteq> 0 then swapgs (r\<lparr>e_rbp := 0\<rparr>)
         else r)"

text \<open>
  The whole path, with the registers at the call.  \<open>mh\<close> is the memory when the stack trace is taken, in
  which the compiled handlers have pushed frames of their own, and \<open>frame\<close> the frame pointer then.
\<close>

definition interrupt_common ::
  "Iframe \<Rightarrow> mem \<times> u64 \<Rightarrow> u64 \<Rightarrow> u64 \<Rightarrow> mem \<Rightarrow> u64 \<Rightarrow> u64 \<Rightarrow> log_entry list \<Rightarrow> entry_regs \<times> (log_entry list + log_entry list)" where
  "interrupt_common f s gs kernel_gs mh frame cr2 log =
     (let (m, rsp) = interrupt_entry f s;
          r = handler_regs m rsp (f_rbp f) gs kernel_gs
      in (r, if load64 m (rsp + IFRAME_OFFSET_VECTOR) = 2 then nmi_handler log
             else exception_handler mh frame cr2 (iframe_at m (e_rdi r)) log))"

subsection \<open>The frame on the stack\<close>

lemma push_frame:
  assumes "length vs \<le> 1000" "fold push_reg vs (m, sp) = (m', sp')"
  shows "sp' = sp - 8 * of_nat (length vs) \<and> (\<forall>i < length vs. load64 m' (sp' + 8 * of_nat i) = rev vs ! i)"
  using assms
proof (induction vs arbitrary: m' sp' rule: rev_induct)
  case Nil
  then show ?case by simp
next
  case (snoc v vs)
  obtain m1 sp1 where s: "fold push_reg vs (m, sp) = (m1, sp1)" by (cases "fold push_reg vs (m, sp)")
  have ih: "sp1 = sp - 8 * of_nat (length vs)" "\<And>i. i < length vs \<Longrightarrow> load64 m1 (sp1 + 8 * of_nat i) = rev vs ! i"
    using snoc.IH [OF _ s] snoc.prems(1) by auto
  have new: "m' = store64 m1 (sp1 - 8) v" "sp' = sp1 - 8" using snoc.prems(2) s push_reg_def [of v "(m1, sp1)"] by auto
  have "load64 m' (sp' + 8 * of_nat i) = rev (vs @ [v]) ! i" if "i < length (vs @ [v])" for i
  proof (cases i)
    case 0
    then show ?thesis by (simp add: new load64_store64)
  next
    case (Suc j)
    have d: "sp' + 8 * of_nat i - (sp1 - 8) = of_nat (8 * i)" by (simp add: new)
    have u: "unat (of_nat (8 * i) :: u64) = 8 * i" using that snoc.prems(1) by (intro unat_of_nat64) simp
    have "load64 m' (sp' + 8 * of_nat i) = load64 m1 (sp' + 8 * of_nat i)"
      unfolding new(1) by (rule load64_store64_far; unfold d u) (use that snoc.prems(1) Suc in simp_all)
    also have "\<dots> = rev vs ! j"
      using ih(2) [of j] that Suc by (simp add: new)
    also have "\<dots> = rev (vs @ [v]) ! i" by (simp add: Suc)
    finally show ?thesis .
  qed
  then show ?case by (simp add: new ih(1))
qed

definition pushed :: "Iframe \<Rightarrow> u64 list" where
  "pushed f = [f_user_ss f, f_user_sp f, f_flags f, f_cs f, f_ip f] @ (if error_code_vector (f_vector f) then [f_err_code f] else []) @
     (if has_error (f_vector f) then [] else [0]) @ [f_vector f,
     f_r15 f, f_r14 f, f_r13 f, f_r12 f, f_r11 f, f_r10 f, f_r9 f, f_r8 f, f_rax f, f_rcx f, f_rdx f, f_rbx f, f_rbp f, f_rsi f, f_rdi f]"

lemma interrupt_entry_pushed: "interrupt_entry f s = fold push_reg (pushed f) s"
  by (simp add: interrupt_entry_def save_registers_def isr_dispatch_def processor_frame_def pushed_def)

text \<open>The vectors whose error code the stubs do not expect, and the frame that the handler finds.\<close>

definition unexpected_code :: "u64 \<Rightarrow> bool" where
  "unexpected_code v \<longleftrightarrow> v = 21 \<or> v = 29 \<or> v = 30"

definition handled :: "Iframe \<Rightarrow> Iframe" where
  "handled f =
     (if unexpected_code (f_vector f)
      then f\<lparr>f_err_code := 0, f_ip := f_err_code f, f_cs := f_ip f, f_flags := f_cs f, f_user_sp := f_flags f, f_user_ss := f_user_sp f\<rparr>
      else f\<lparr>f_err_code := if error_code_vector (f_vector f) then f_err_code f else 0\<rparr>)"

lemma error_tables: "has_error v \<longleftrightarrow> error_code_vector v \<and> \<not> unexpected_code v" "unexpected_code v \<Longrightarrow> error_code_vector v"
proof -
  have "10 \<le> v \<and> v \<le> 14 \<longleftrightarrow> v = 10 \<or> v = 11 \<or> v = 12 \<or> v = 13 \<or> v = 14" by (auto simp: word_le_nat_alt word_unat_eq_iff)
  then show "has_error v \<longleftrightarrow> error_code_vector v \<and> \<not> unexpected_code v"
    by (auto simp: has_error_def error_code_vector_def unexpected_code_def)
qed (auto simp: error_code_vector_def unexpected_code_def)

lemma interrupt_entry_frame:
  assumes "interrupt_entry f (m, sp) = (m', sp')"
  shows "sp' = sp - IFRAME_SIZE - (if unexpected_code (f_vector f) then 8 else 0)" "iframe_at m' sp' = handled f"
proof -
  let ?n = "if unexpected_code (f_vector f) then 23 else 22 :: nat"
  have len: "length (pushed f) = ?n" using error_tables [of "f_vector f"] by (auto simp: pushed_def)
  have p: "sp' = sp - 8 * of_nat ?n" "\<And>i. i < ?n \<Longrightarrow> load64 m' (sp' + 8 * of_nat i) = rev (pushed f) ! i"
    using push_frame [of "pushed f" m sp m' sp', unfolded len, OF _ assms [unfolded interrupt_entry_pushed]] by auto
  show "sp' = sp - IFRAME_SIZE - (if unexpected_code (f_vector f) then 8 else 0)" using p(1) by (simp add: IFRAME_SIZE_def)
  have w: "load64 m' (sp' + k) = rev (pushed f) ! (unat k div 8)" if "k < 176" "8 dvd unat k" for k :: u64
  proof -
    have "unat k < 176" using that(1) by (simp add: word_less_nat_alt)
    then have "unat k div 8 < ?n" by (simp add: div_less_iff_less_mult)
    moreover have "8 * of_nat (unat k div 8) = k" using that(2) by (metis dvd_mult_div_cancel of_nat_mult of_nat_numeral u64_of_nat_unat)
    ultimately show ?thesis using p(2) [of "unat k div 8"] by simp
  qed
  show "iframe_at m' sp' = handled f"
    using w [of 0] error_tables [of "f_vector f"] by (simp add: iframe_at_def Let_def w) (auto simp: pushed_def handled_def)
qed

lemma privilege_bits: "w AND mask 2 \<noteq> 0 \<longleftrightarrow> bit w 0 \<or> bit w 1" for w :: "'a :: len word"
proof -
  have "w AND mask 2 = 0 \<longleftrightarrow> (\<forall>n. \<not> (bit w n \<and> n < 2))"
    unfolding bit_eq_iff [of "w AND mask 2" 0] by (auto simp: bit_and_iff bit_mask_iff dest: bit_imp_le_length)
  then show ?thesis by (auto simp: less_2_cases_iff)
qed

lemma interrupt_entry_member:
  assumes "interrupt_entry f (m, sp) = (m', sp')"
  shows "load64 m' (sp' + IFRAME_OFFSET_VECTOR) = f_vector f" "m' (sp' + IFRAME_OFFSET_CS) AND 3 \<noteq> 0 \<longleftrightarrow> f_cs (handled f) AND 3 \<noteq> 0"
proof -
  have "load64 m' (sp' + IFRAME_OFFSET_VECTOR) = f_vector (iframe_at m' sp')" by (simp add: iframe_at_def Let_def IFRAME_OFFSET_VECTOR_def)
  then show "load64 m' (sp' + IFRAME_OFFSET_VECTOR) = f_vector f" using interrupt_entry_frame(2) [OF assms] by (simp add: handled_def)
  have c: "load64 m' (sp' + IFRAME_OFFSET_CS) = f_cs (handled f)"
    using interrupt_entry_frame(2) [OF assms] by (simp add: iframe_at_def Let_def IFRAME_OFFSET_CS_def flip: interrupt_entry_frame(2) [OF assms])
  have t: "x AND 3 \<noteq> 0 \<longleftrightarrow> bit x 0 \<or> bit x 1" "y AND 3 \<noteq> 0 \<longleftrightarrow> bit y 0 \<or> bit y 1" for x :: u64 and y :: u8
    using privilege_bits [of x] privilege_bits [of y] by (simp_all add: mask_eq_exp_minus_1)
  show "m' (sp' + IFRAME_OFFSET_CS) AND 3 \<noteq> 0 \<longleftrightarrow> f_cs (handled f) AND 3 \<noteq> 0"
    unfolding c [symmetric] t using bit_load64_lt [of 0 0 m' "sp' + IFRAME_OFFSET_CS"] bit_load64_lt [of 0 1 m' "sp' + IFRAME_OFFSET_CS"] by simp
qed

lemma rdmsr64_gs_base_simp: "rdmsr64_gs_base r = r\<lparr>e_rcx := MSR_GS_BASE, e_rax := e_gs_base r, e_rdx := push_bit 32 (drop_bit 32 (e_gs_base r))\<rparr>"
proof -
  have "x AND 0xffffffff OR push_bit 32 (drop_bit 32 x) = x" for x :: u64
  proof (rule bit_word_eqI)
    fix n assume "n < LENGTH(64)"
    have m: "(0xffffffff :: u64) = mask 32" by (simp add: mask_eq_exp_minus_1)
    show "bit (x AND 0xffffffff OR push_bit 32 (drop_bit 32 x)) n = bit x n"
      using \<open>n < LENGTH(64)\<close> unfolding m by (cases "n < 32") (auto simp: bit_simps)
  qed
  then show ?thesis by (simp add: rdmsr64_gs_base_def Let_def)
qed

lemma interrupt_common_handled:
  "interrupt_common f (m, sp) gs kernel_gs mh frame cr2 log =
     (let (m', sp') = interrupt_entry f (m, sp)
      in (handler_regs m' sp' (f_rbp f) gs kernel_gs, if f_vector f = 2 then nmi_handler log else exception_handler mh frame cr2 (handled f) log))"
proof -
  obtain m' sp' where e: "interrupt_entry f (m, sp) = (m', sp')" by (cases "interrupt_entry f (m, sp)")
  have "e_rdi (handler_regs m' sp' rbp gs kernel_gs) = sp'" for rbp
    by (simp add: handler_regs_def Let_def rdmsr64_gs_base_simp swapgs_def)
  then show ?thesis
    by (simp add: interrupt_common_def e Let_def interrupt_entry_member(1) [OF e] interrupt_entry_frame(2) [OF e])
qed

text \<open>
  C30: what an interrupt leads to.  The handler finds on the stack the registers of the interrupted
  program, the vector and the error code, 0 for the vectors that have none, for all vectors but 21, 29
  and 30: the processor pushes an error code for these that the stubs do not expect, and the handler
  takes the code for the instruction pointer, that for the code segment, and so on.  It is called with
  the frame in \<^verbatim>\<open>rdi\<close>, with \<^verbatim>\<open>rbp\<close> cleared and \<^verbatim>\<open>gs\<close> swapped exactly if the member taken for the code segment has
  user privilege; a non-maskable interrupt leaves \<^verbatim>\<open>gs\<close> as it is.  Then the kernel halts: on a non-maskable
  interrupt with its own message, on another vector below 32 with the stack trace, the report of the
  page fault exactly when the \<^emph>\<open>error code\<close> is 14, the registers and the vector; above that with the vector.
\<close>

theorem interrupt_reports:
  "let v = f_vector f; (m', sp') = interrupt_entry f (m, sp); user = f_cs (handled f) AND 3 \<noteq> 0 \<and> v \<noteq> 2;
       (r, out) = interrupt_common f (m, sp) gs kernel_gs mh frame cr2 log
   in sp' = sp - IFRAME_SIZE - (if v = 21 \<or> v = 29 \<or> v = 30 then 8 else 0) \<and> iframe_at m' sp' = handled f \<and>
      e_rdi r = sp' \<and> e_rbp r = (if user then 0 else f_rbp f) \<and>
      (e_gs_base r, e_kernel_gs_base r) = (if user then (kernel_gs, gs) else (gs, kernel_gs)) \<and>
      out = (if v = 2 then panik log ''nmi_handler()  called!'' []
             else if v < 32
             then panik (dump_interrupt_frame (handled f)
                          ((if f_err_code (handled f) = 14 then dump_page_fault_error (handled f) cr2 else id) (dump_stacktrace mh frame log)))
                    ''Unhandled Exception 0x%lx!'' [Num v]
             else panik log ''Interrupt 0x%.16lx triggered!'' [Num v])"
proof -
  obtain m' sp' where e: "interrupt_entry f (m, sp) = (m', sp')" by (cases "interrupt_entry f (m, sp)")
  note fr = interrupt_entry_frame [OF e] and me = interrupt_entry_member [OF e]
  have v: "f_vector (handled f) = f_vector f" by (simp add: handled_def)
  let ?r = "handler_regs m' sp' (f_rbp f) gs kernel_gs" and ?user = "f_cs (handled f) AND 3 \<noteq> 0 \<and> f_vector f \<noteq> 2"
  have r: "e_rdi ?r = sp'" "e_rbp ?r = (if ?user then 0 else f_rbp f)" "e_gs_base ?r = (if ?user then kernel_gs else gs)"
    "e_kernel_gs_base ?r = (if ?user then gs else kernel_gs)"
    using me by (simp_all add: handler_regs_def Let_def rdmsr64_gs_base_simp swapgs_def)
  show ?thesis
    unfolding interrupt_common_handled e Let_def prod.case fr(2) r
    by (simp add: fr(1) unexpected_code_def v
        nmi_handler_def exception_handler_def interrupts_exception_handler_def panik_def EXCEPTION_PAGE_FAULT_def)
qed

subsection \<open>Page faults\<close>

definition is_fault_report :: "log_entry \<Rightarrow> bool" where
  "is_fault_report e = (case e of Log lev format args \<Rightarrow> take 12 format = ''<PAGE FAULT>'' | Fatal format args \<Rightarrow> False)"

lemma stacktrace_no_fault: "\<forall>e \<in> set log. \<not> is_fault_report e \<Longrightarrow> \<forall>e \<in> set (stacktrace_loop m frame i log). \<not> is_fault_report e"
proof (induction m frame i log rule: stacktrace_loop.induct)
  case (1 m frame i log)
  then show ?case by (subst stacktrace_loop.simps) (auto simp: Let_def is_fault_report_def)
qed

lemma frame_no_fault: "(\<exists>e \<in> set (dump_interrupt_frame f log). is_fault_report e) \<longleftrightarrow> (\<exists>e \<in> set log. is_fault_report e)"
  by (simp add: dump_interrupt_frame_def log_panic_def is_fault_report_def)

lemma fault_reported: "\<exists>e \<in> set (dump_page_fault_error f cr2 log). is_fault_report e"
  by (simp add: dump_page_fault_error_def Let_def log_panic_def is_fault_report_def)

text \<open>
  The report of page faults is tied to the wrong member of the frame.  For every vector below 32
  but 2 that has an error code, the page fault report is part of the log exactly when that code is 14:
  a page fault on a page that is not present, whose code is 0, 2, 4 or 6, is never reported as
  one, and a general protection fault with the code 14 is.
\<close>

theorem page_fault_report_iff_code:
  assumes "has_error (f_vector f)" "\<forall>e \<in> set log. \<not> is_fault_report e"
  shows "\<exists>out. snd (interrupt_common f (m, sp) gs kernel_gs mh frame cr2 log) = Inl out \<and>
    ((\<exists>e \<in> set out. is_fault_report e) \<longleftrightarrow> f_err_code f = 14)"
proof -
  have v: "f_vector f \<noteq> 2" "f_vector f < 32"
    using assms(1) le_less_trans [of "f_vector f" 14 32] by (auto simp: has_error_def)
  have f: "handled f = f" using assms(1) error_tables [of "f_vector f"] by (simp add: handled_def)
  let ?trace = "stacktrace_loop mh frame 0 log"
  let ?out = "dump_interrupt_frame f (if f_err_code f = 14 then dump_page_fault_error f cr2 ?trace else ?trace) @
    [Fatal ''Unhandled Exception 0x%lx!'' [Num (f_vector f)]]"
  have "snd (interrupt_common f (m, sp) gs kernel_gs mh frame cr2 log) = Inl ?out"
    using v by (simp add: interrupt_common_handled f split_def exception_handler_def interrupts_exception_handler_def
        panik_def EXCEPTION_PAGE_FAULT_def dump_stacktrace_def Let_def)
  moreover have "(\<exists>x \<in> set ?out. is_fault_report x) \<longleftrightarrow>
      (\<exists>x \<in> set (if f_err_code f = 14 then dump_page_fault_error f cr2 ?trace else ?trace). is_fault_report x)"
    by (simp add: frame_no_fault bex_Un is_fault_report_def [of "Fatal _ _"])
  moreover have "(\<exists>x \<in> set (if f_err_code f = 14 then dump_page_fault_error f cr2 ?trace else ?trace). is_fault_report x) \<longleftrightarrow>
      f_err_code f = 14"
    using stacktrace_no_fault [OF assms(2)] fault_reported by simp
  ultimately show ?thesis by blast
qed

theorem page_fault_report_iff_code_witness:
  "\<exists>out. snd (interrupt_common
      \<lparr>f_rdi = 0, f_rsi = 0, f_rbp = 0, f_rbx = 0, f_rdx = 0, f_rcx = 0, f_rax = 0, f_r8 = 0, f_r9 = 0, f_r10 = 0, f_r11 = 0,
       f_r12 = 0, f_r13 = 0, f_r14 = 0, f_r15 = 0, f_vector = 14, f_err_code = 2, f_ip = 0x1000, f_cs = 8, f_flags = 2,
       f_user_sp = 0x8000, f_user_ss = 16\<rparr> (\<lambda>_. 0, 0x8000) 0 0 (\<lambda>_. 0) 0 0xdeadbeef []) = Inl out \<and>
     (\<forall>e \<in> set out. \<not> is_fault_report e)"
proof -
  let ?f = "\<lparr>f_rdi = 0, f_rsi = 0, f_rbp = 0, f_rbx = 0, f_rdx = 0, f_rcx = 0, f_rax = 0, f_r8 = 0, f_r9 = 0, f_r10 = 0, f_r11 = 0,
       f_r12 = 0, f_r13 = 0, f_r14 = 0, f_r15 = 0, f_vector = 14, f_err_code = 2, f_ip = 0x1000, f_cs = 8, f_flags = 2,
       f_user_sp = 0x8000, f_user_ss = 16 :: u64\<rparr>"
  have "has_error (f_vector ?f)" by (simp add: has_error_def)
  from page_fault_report_iff_code [OF this, of "[]" "\<lambda>_. 0" "0x8000" 0 0 "\<lambda>_. 0" 0 "0xdeadbeef"] show ?thesis by auto
qed

subsection \<open>Traces\<close>

text \<open>A chain of stack frames in memory with its return addresses, up to a null frame pointer.\<close>

fun frames_at :: "mem \<Rightarrow> u64 \<Rightarrow> u64 list \<Rightarrow> bool" where
  "frames_at m a [] \<longleftrightarrow> a = 0"
| "frames_at m a (r # rs) \<longleftrightarrow> a \<noteq> 0 \<and> load64 m (a + 8) = r \<and> frames_at m (load64 m a) rs"

definition trace_lines :: "nat \<Rightarrow> u64 list \<Rightarrow> log_entry list" where
  "trace_lines i rs = map (\<lambda>(j, r). Log LOG_LEVEL_TRACE ''Frame #%d -> %p'' [Num (of_nat (Suc j)), Num r]) (zip [i..<i + length rs] rs)"

lemma trace_lines_Cons:
  "trace_lines i (r # rs) = Log LOG_LEVEL_TRACE ''Frame #%d -> %p'' [Num (of_nat (Suc i)), Num r] # trace_lines (Suc i) rs"
  by (simp add: trace_lines_def upt_conv_Cons del: upt_Suc)

lemma stacktrace_loop_lines:
  assumes "frames_at m a rs" "i \<le> 64"
  shows "stacktrace_loop m a i log = log @ trace_lines i (takeWhile (\<lambda>r. r \<noteq> 0) (take (64 - i) rs))"
  using assms
proof (induction rs arbitrary: a i log)
  case Nil
  then show ?case by (simp add: stacktrace_loop.simps trace_lines_def)
next
  case (Cons r rs)
  show ?case
  proof (cases "i < 64")
    case True
    then have "take (64 - i) (r # rs) = r # take (64 - Suc i) rs" by (simp add: Suc_diff_Suc [symmetric])
    then show ?thesis using Cons True
      by (subst stacktrace_loop.simps) (simp add: STACKTRACE_MAX_def stackframe_at_def Let_def trace_lines_Cons trace_lines_def [of _ "[]"])
  next
    case False
    then show ?thesis using Cons.prems by (simp add: stacktrace_loop.simps STACKTRACE_MAX_def trace_lines_def)
  qed
qed

text \<open>
  The stack trace of a chain of frames, of any length: the return addresses up to the first null
  one, the innermost first, numbered from 1, and at most 64 of them.
\<close>

theorem dump_stacktrace_lines:
  assumes "frames_at m a rs"
  shows "dump_stacktrace m a log = log @ trace_lines 0 (takeWhile (\<lambda>r. r \<noteq> 0) (take 64 rs))"
  using stacktrace_loop_lines [OF assms, of 0] by (simp add: dump_stacktrace_def)

theorem dump_stacktrace_lines_witness:
  "let m = (\<lambda>_. 0)(16 := 32, 24 := 0x99, 40 := 0x77) in
   dump_stacktrace m 16 [] = [Log LOG_LEVEL_TRACE ''Frame #%d -> %p'' [Num 1, Num 0x99], Log LOG_LEVEL_TRACE ''Frame #%d -> %p'' [Num 2, Num 0x77]]"
proof -
  let ?m = "(\<lambda>_. 0)(16 := 32, 24 := 0x99, 40 := 0x77) :: mem"
  have "frames_at ?m 16 [0x99, 0x77]" by code_simp
  from dump_stacktrace_lines [OF this, of "[]"] show ?thesis by (simp add: trace_lines_Cons trace_lines_def [of _ "[]"])
qed

end
