(* ===== verification/Uart.thy ===== *)
theory Uart
  imports Logger
begin

text \<open>
  The serial driver, \<^verbatim>\<open>drivers/uart/uart.cpp\<close> with \<^verbatim>\<open>uart_defs.h\<close>, the port access of \<^verbatim>\<open>arch.hpp\<close> and the streams of
  \<^verbatim>\<open>arch/amd64/drivers/drivers.cpp\<close>.  The device behind the ports is a parameter: its answer to a read and
  what a read or a write makes of its state.  The registers that \<^verbatim>\<open>docs/amd64/serials.md\<close> describes are the
  record \<open>chip\<close>; what that document says of a read or a write is a relation, which leaves open what it does
  not say, and a device that behaves as documented is one whose accesses satisfy the relation.
\<close>

subsection \<open>Registers\<close>

definition UART_DATA :: u16 where "UART_DATA = 0"
definition UART_INTERRUPT :: u16 where "UART_INTERRUPT = 1"
definition UART_INTERRUPT_IDENTIFACTOR :: u16 where "UART_INTERRUPT_IDENTIFACTOR = 2"
definition UART_LINE_CONTROL :: u16 where "UART_LINE_CONTROL = 3"
definition UART_MODEM_CONTROL :: u16 where "UART_MODEM_CONTROL = 4"
definition UART_LINE_STATUS :: u16 where "UART_LINE_STATUS = 5"
definition UART_BAUD_RATE_LOW :: u16 where "UART_BAUD_RATE_LOW = UART_DATA"
definition UART_BAUD_RATE_HIGH :: u16 where "UART_BAUD_RATE_HIGH = UART_INTERRUPT"
definition UART_FIFO_CONTROLLER :: u16 where "UART_FIFO_CONTROLLER = UART_INTERRUPT_IDENTIFACTOR"
definition UART_LINE_DS_8 :: u8 where "UART_LINE_DS_8 = 3"
definition UART_LINE_DLAB_STATUS :: u8 where "UART_LINE_DLAB_STATUS = push_bit 7 1"
definition UART_MODEM_DTR :: u8 where "UART_MODEM_DTR = push_bit 0 1"
definition UART_MODEM_RTS :: u8 where "UART_MODEM_RTS = push_bit 1 1"
definition UART_MODEM_OUT1 :: u8 where "UART_MODEM_OUT1 = push_bit 2 1"
definition UART_MODEM_OUT2 :: u8 where "UART_MODEM_OUT2 = push_bit 3 1"
definition UART_MODEM_LOOPBACK :: u8 where "UART_MODEM_LOOPBACK = push_bit 4 1"
definition UART_LINE_TRANSMITTER_BUF_EMPTY :: u8 where "UART_LINE_TRANSMITTER_BUF_EMPTY = push_bit 5 1"
definition UART_ENABLE_FIFO :: u8 where "UART_ENABLE_FIFO = push_bit 0 1"
definition UART_FIFO_CLEAR_RECEIVE :: u8 where "UART_FIFO_CLEAR_RECEIVE = push_bit 1 1"
definition UART_FIFO_CLEAR_TRANSMIT :: u8 where "UART_FIFO_CLEAR_TRANSMIT = push_bit 2 1"
definition UART_FIFO_TRIGGER_LEVEL4 :: u8 where "UART_FIFO_TRIGGER_LEVEL4 = push_bit 6 3"
definition UART_COM_PORT_1 :: u16 where "UART_COM_PORT_1 = 0x3f8"
definition SYSTEM_ERR_IO_INVALID :: int where "SYSTEM_ERR_IO_INVALID = - 47"

lemmas uart_registers = UART_DATA_def UART_INTERRUPT_def UART_INTERRUPT_IDENTIFACTOR_def UART_LINE_CONTROL_def
  UART_MODEM_CONTROL_def UART_LINE_STATUS_def UART_BAUD_RATE_LOW_def UART_BAUD_RATE_HIGH_def UART_FIFO_CONTROLLER_def
  UART_COM_PORT_1_def

lemmas uart_bits = UART_LINE_DS_8_def UART_LINE_DLAB_STATUS_def UART_MODEM_DTR_def UART_MODEM_RTS_def UART_MODEM_OUT1_def
  UART_MODEM_OUT2_def UART_MODEM_LOOPBACK_def UART_LINE_TRANSMITTER_BUF_EMPTY_def UART_ENABLE_FIFO_def
  UART_FIFO_CLEAR_RECEIVE_def UART_FIFO_CLEAR_TRANSMIT_def UART_FIFO_TRIGGER_LEVEL4_def

subsection \<open>The driver\<close>

record 's ports =
  port_in :: "'s \<Rightarrow> u16 \<Rightarrow> u8 \<times> 's"
  port_out :: "'s \<Rightarrow> u16 \<Rightarrow> u8 \<Rightarrow> 's"

record 's uart =
  uart_port :: u16
  uart_dev :: 's

definition write_register :: "'s ports \<Rightarrow> u16 \<Rightarrow> u8 \<Rightarrow> 's uart \<Rightarrow> 's uart" where
  "write_register d reg val u = u\<lparr>uart_dev := port_out d (uart_dev u) (uart_port u + reg) val\<rparr>"

definition read_register :: "'s ports \<Rightarrow> u16 \<Rightarrow> 's uart \<Rightarrow> u8 \<times> 's uart" where
  "read_register d reg u = (let (val, s) = port_in d (uart_dev u) (uart_port u + reg) in (val, u\<lparr>uart_dev := s\<rparr>))"

partial_function (option) uart_putc :: "'s ports \<Rightarrow> int \<Rightarrow> 's uart \<Rightarrow> (int \<times> 's uart) option" where
  "uart_putc d c u =
     (let (status, u) = read_register d UART_LINE_STATUS u in
      if status AND UART_LINE_TRANSMITTER_BUF_EMPTY = 0 then uart_putc d c u
      else Some (SYSTEM_OK, write_register d UART_DATA (word_of_int c) u))"

definition set_port :: "u16 \<Rightarrow> 's uart \<Rightarrow> 's uart" where
  "set_port port u = u\<lparr>uart_port := port\<rparr>"

definition uart_initialize :: "'s ports \<Rightarrow> 's uart \<Rightarrow> int \<times> 's uart" where
  "uart_initialize d u =
     (let u = write_register d UART_INTERRUPT_IDENTIFACTOR 0 u;
          u = write_register d UART_LINE_CONTROL UART_LINE_DLAB_STATUS u;
          u = write_register d UART_BAUD_RATE_LOW 3 u;
          u = write_register d UART_BAUD_RATE_HIGH 0 u;
          u = write_register d UART_LINE_CONTROL UART_LINE_DS_8 u;
          u = write_register d UART_FIFO_CONTROLLER
                (UART_ENABLE_FIFO OR UART_FIFO_CLEAR_RECEIVE OR UART_FIFO_CLEAR_TRANSMIT OR UART_FIFO_TRIGGER_LEVEL4) u;
          u = write_register d UART_MODEM_CONTROL (UART_MODEM_RTS OR UART_MODEM_DTR OR UART_MODEM_OUT2 OR UART_MODEM_LOOPBACK) u;
          u = write_register d UART_DATA 0xae u;
          (answer, u) = read_register d UART_DATA u
      in if answer \<noteq> 0xae then (SYSTEM_ERR_IO_INVALID, u)
         else (SYSTEM_OK, write_register d UART_MODEM_CONTROL (UART_MODEM_RTS OR UART_MODEM_DTR OR UART_MODEM_OUT1 OR UART_MODEM_OUT2) u))"

text \<open>
  The streams.  The write function of the one file calls \<^verbatim>\<open>uart::putc\<close>, which answers \<^verbatim>\<open>SYSTEM_OK\<close> whenever
  it returns (\<open>uart_putc_answer\<close>); the calls are those that the stream records.
\<close>

definition simple_file :: FILE where
  "simple_file = \<lparr>fl_flags = 0, buffer_size = 0x7fffffff, position = 0, buffer_ptr = 0, write_func = Some (\<lambda>_. SYSTEM_OK)\<rparr>"

definition initialize_streams :: "io \<Rightarrow> io" where
  "initialize_streams st = st\<lparr>io_file := simple_file\<rparr>"

definition drivers_initialize :: "'s ports \<Rightarrow> 's uart \<Rightarrow> io \<Rightarrow> 's uart \<times> io" where
  "drivers_initialize d u st =
     (let u = set_port UART_COM_PORT_1 u; (_, u) = uart_initialize d u in (u, initialize_streams st))"

text \<open>The characters a stream has recorded, sent one after the other.\<close>

fun transmit :: "'s ports \<Rightarrow> int list \<Rightarrow> 's uart \<Rightarrow> 's uart option" where
  "transmit d [] u = Some u"
| "transmit d (c # cs) u = do { (_, u) \<leftarrow> uart_putc d c u; transmit d cs u }"

subsection \<open>The documented chip\<close>

record chip =
  c_interrupt_enable :: u8
  c_divisor_low :: u8
  c_divisor_high :: u8
  c_fifo_control :: u8
  c_line_control :: u8
  c_modem_control :: u8
  c_scratch :: u8
  c_buffer :: "u8 list"
  c_wire :: "u8 list"

definition dlab :: "chip \<Rightarrow> bool" where "dlab s = bit (c_line_control s) 7"
definition loopback :: "chip \<Rightarrow> bool" where "loopback s = bit (c_modem_control s) 4"

text \<open>
  Between two accesses the transmitter sends some bytes of its buffer, none or all of them included:
  to the wire, or to its own receiver in loopback mode.
\<close>

definition progress :: "nat \<Rightarrow> chip \<Rightarrow> chip" where
  "progress n s = s\<lparr>c_buffer := drop n (c_buffer s), c_wire := c_wire s @ (if loopback s then [] else take n (c_buffer s))\<rparr>"

text \<open>
  The table of ports: offsets 0 and 1 are the divisor while the divisor latch is open; offset 5 is read
  only, and so is offset 6.  A write to the FIFO control register may clear the transmit buffer.  A
  byte written to the data register enters an empty buffer; what becomes of it, and of the bytes in
  the buffer, if the buffer is not empty is not documented.
\<close>

definition chip_set :: "u16 \<Rightarrow> u8 \<Rightarrow> chip \<Rightarrow> chip" where
  "chip_set off v s =
     (if off = 0 then if dlab s then s\<lparr>c_divisor_low := v\<rparr> else s\<lparr>c_buffer := [v]\<rparr>
      else if off = 1 then if dlab s then s\<lparr>c_divisor_high := v\<rparr> else s\<lparr>c_interrupt_enable := v\<rparr>
      else if off = 2 then s\<lparr>c_fifo_control := v, c_buffer := if bit v 2 then [] else c_buffer s\<rparr>
      else if off = 3 then s\<lparr>c_line_control := v\<rparr>
      else if off = 4 then s\<lparr>c_modem_control := v\<rparr>
      else if off = 7 then s\<lparr>c_scratch := v\<rparr>
      else s)"

definition chip_write :: "u16 \<Rightarrow> u8 \<Rightarrow> chip \<Rightarrow> chip \<Rightarrow> bool" where
  "chip_write off v s s' \<longleftrightarrow>
     (\<exists>n. let t = progress n s
          in if off = 0 \<and> \<not> dlab t \<and> c_buffer t \<noteq> [] then s' = t\<lparr>c_buffer := c_buffer s', c_wire := c_wire s'\<rparr>
             else s' = chip_set off v t)"

text \<open>
  A read: the registers that can be written read as they were written, in the bits that are in use;
  the line status shows an empty transmit buffer.  The other registers and bits, the receive buffer
  among them, may read as anything.
\<close>

definition chip_value :: "u16 \<Rightarrow> u8 \<Rightarrow> chip \<Rightarrow> bool" where
  "chip_value off v s \<longleftrightarrow>
     (if off = 0 then dlab s \<longrightarrow> v = c_divisor_low s
      else if off = 1 then if dlab s then v = c_divisor_high s else v AND 0x0f = c_interrupt_enable s AND 0x0f
      else if off = 3 then v = c_line_control s
      else if off = 4 then v AND 0x1f = c_modem_control s AND 0x1f
      else if off = 5 then bit v 5 \<longleftrightarrow> c_buffer s = []
      else if off = 7 then v = c_scratch s
      else True)"

definition chip_read :: "u16 \<Rightarrow> u8 \<Rightarrow> chip \<Rightarrow> chip \<Rightarrow> bool" where
  "chip_read off v s s' \<longleftrightarrow> (\<exists>n. s' = progress n s) \<and> chip_value off v s'"

definition documented :: "u16 \<Rightarrow> 's ports \<Rightarrow> ('s \<Rightarrow> chip) \<Rightarrow> bool" where
  "documented base d view \<longleftrightarrow>
     (\<forall>s p v. chip_write (p - base) v (view s) (view (port_out d s p v))) \<and>
     (\<forall>s p. chip_read (p - base) (fst (port_in d s p)) (view s) (view (snd (port_in d s p))))"

text \<open>
  The self test of the driver relies on more than that: in loopback mode a byte that was written is
  there at once.
\<close>

definition prompt :: "u16 \<Rightarrow> 's ports \<Rightarrow> ('s \<Rightarrow> chip) \<Rightarrow> bool" where
  "prompt base d view \<longleftrightarrow>
     (\<forall>s v. loopback (view s) \<and> \<not> dlab (view s) \<and> c_buffer (view s) = [] \<longrightarrow> fst (port_in d (port_out d s base v) base) = v)"

lemma documented_write:
  "documented (uart_port u) d view \<Longrightarrow> chip_write reg v (view (uart_dev u)) (view (uart_dev (write_register d reg v u)))"
  "uart_port (write_register d reg v u) = uart_port u"
  unfolding documented_def write_register_def by (metis add_diff_cancel_left' uart.select_convs(2) uart.surjective uart.update_convs(2), simp)

lemma documented_read:
  "documented (uart_port u) d view \<Longrightarrow>
     chip_read reg (fst (read_register d reg u)) (view (uart_dev u)) (view (uart_dev (snd (read_register d reg u))))"
  "uart_port (snd (read_register d reg u)) = uart_port u"
proof -
  assume "documented (uart_port u) d view"
  then have "chip_read (uart_port u + reg - uart_port u) (fst (port_in d (uart_dev u) (uart_port u + reg))) (view (uart_dev u))
      (view (snd (port_in d (uart_dev u) (uart_port u + reg))))" unfolding documented_def by blast
  then show "chip_read reg (fst (read_register d reg u)) (view (uart_dev u)) (view (uart_dev (snd (read_register d reg u))))"
    by (simp add: read_register_def split_def Let_def)
qed (simp add: read_register_def split_def Let_def)

subsection \<open>Registers and bytes\<close>

text \<open>The registers without the bytes, and all bytes that were accepted and are not lost.\<close>

definition settings :: "chip \<Rightarrow> chip" where
  "settings s = s\<lparr>c_buffer := [], c_wire := []\<rparr>"

definition stream :: "chip \<Rightarrow> u8 list" where
  "stream s = c_wire s @ c_buffer s"

lemma progress_simps [simp]:
  "settings (progress n s) = settings s" "c_buffer (progress n s) = drop n (c_buffer s)" "dlab (progress n s) = dlab s"
  "loopback (progress n s) = loopback s" "c_wire (progress n s) = c_wire s @ (if loopback s then [] else take n (c_buffer s))"
  by (simp_all add: progress_def settings_def dlab_def loopback_def)

lemma progress_stream: "\<not> loopback s \<Longrightarrow> stream (progress n s) = stream s"
  by (simp add: stream_def)

lemma settings_flags: "settings s = settings s' \<Longrightarrow> dlab s = dlab s' \<and> loopback s = loopback s'"
  by (cases s, cases s') (simp add: settings_def dlab_def loopback_def)

lemma settings_updates [simp]:
  "settings (s\<lparr>c_buffer := x\<rparr>) = settings s" "settings (s\<lparr>c_wire := y\<rparr>) = settings s"
  "settings (s\<lparr>c_interrupt_enable := v\<rparr>) = (settings s)\<lparr>c_interrupt_enable := v\<rparr>" "settings (s\<lparr>c_divisor_low := v\<rparr>) = (settings s)\<lparr>c_divisor_low := v\<rparr>"
  "settings (s\<lparr>c_divisor_high := v\<rparr>) = (settings s)\<lparr>c_divisor_high := v\<rparr>" "settings (s\<lparr>c_fifo_control := v\<rparr>) = (settings s)\<lparr>c_fifo_control := v\<rparr>"
  "settings (s\<lparr>c_line_control := v\<rparr>) = (settings s)\<lparr>c_line_control := v\<rparr>" "settings (s\<lparr>c_modem_control := v\<rparr>) = (settings s)\<lparr>c_modem_control := v\<rparr>"
  "settings (s\<lparr>c_scratch := v\<rparr>) = (settings s)\<lparr>c_scratch := v\<rparr>"
  by (simp_all add: settings_def)

lemma flags_settings: "dlab s = bit (c_line_control (settings s)) 7" "loopback s = bit (c_modem_control (settings s)) 4"
  by (simp_all add: settings_def dlab_def loopback_def)

text \<open>What was sent between two states was at the front of the buffer.\<close>

definition flows :: "chip \<Rightarrow> chip \<Rightarrow> bool" where
  "flows s s' \<longleftrightarrow> (\<exists>n. c_buffer s' = drop n (c_buffer s) \<and> c_wire s' = c_wire s @ (if loopback s then [] else take n (c_buffer s)))"

lemma flows_trans:
  assumes "flows s s'" "flows s' s''" "loopback s' = loopback s"
  shows "flows s s''"
proof -
  obtain n m where nm: "c_buffer s' = drop n (c_buffer s)" "c_wire s' = c_wire s @ (if loopback s then [] else take n (c_buffer s))"
      "c_buffer s'' = drop m (c_buffer s')" "c_wire s'' = c_wire s' @ (if loopback s' then [] else take m (c_buffer s'))"
    using assms(1,2) unfolding flows_def by blast
  have "take (n + m) (c_buffer s) = take n (c_buffer s) @ take m (drop n (c_buffer s))" by (rule take_add)
  then show ?thesis unfolding flows_def using nm by (intro exI [of _ "n + m"]) (auto simp: assms(3) add.commute)
qed

lemma flows_progress [simp]: "flows s (progress n s)"
  by (auto simp: flows_def)

lemma register_write:
  assumes "chip_write off v s s'" "off \<noteq> 0 \<or> dlab s"
  shows "\<exists>n. s' = chip_set off v (progress n s)"
  using assms by (auto simp: chip_write_def Let_def split: if_splits)

text \<open>A write to a register other than the data register that clears no buffer.\<close>

lemma setting_write:
  assumes "chip_write off v s s'" "off \<noteq> 0 \<or> dlab s" "off = 2 \<longrightarrow> \<not> bit v 2"
  shows "settings s' = chip_set off v (settings s)" "flows s s'"
proof -
  obtain n where n: "s' = chip_set off v (progress n s)" using register_write [OF assms(1,2)] by blast
  have "dlab (settings s) = dlab s" by (simp add: flags_settings(1) settings_def dlab_def)
  then show "settings s' = chip_set off v (settings s)"
    using assms(2,3) by (auto simp: n chip_set_def)
  show "flows s s'"
    unfolding flows_def using assms(2,3) by (intro exI [of _ n]) (auto simp: n chip_set_def)
qed

lemma fifo_clear:
  assumes "chip_write 2 v s s'" "bit v 2"
  shows "settings s' = (settings s)\<lparr>c_fifo_control := v\<rparr>" "c_buffer s' = []"
    "\<exists>n. c_wire s' = c_wire s @ (if loopback s then [] else take n (c_buffer s))"
proof -
  obtain n where n: "s' = chip_set 2 v (progress n s)" using register_write [OF assms(1)] by auto
  show "settings s' = (settings s)\<lparr>c_fifo_control := v\<rparr>" "c_buffer s' = []" using assms(2) by (simp_all add: n chip_set_def)
  show "\<exists>n. c_wire s' = c_wire s @ (if loopback s then [] else take n (c_buffer s))"
    using assms(2) by (intro exI [of _ n]) (simp add: n chip_set_def)
qed

text \<open>A byte written while the transmit buffer is empty.\<close>

lemma data_write:
  assumes "chip_write 0 v s s'" "\<not> dlab s" "c_buffer s = []"
  shows "settings s' = settings s" "c_buffer s' = [v]" "c_wire s' = c_wire s"
  using assms by (auto simp: chip_write_def chip_set_def Let_def)

lemma chip_read_flows:
  assumes "chip_read off v s s'"
  shows "settings s' = settings s" "flows s s'"
  using assms by (auto simp: chip_read_def)

subsection \<open>Initialization\<close>

text \<open>The registers that \<^verbatim>\<open>uart::initialize\<close> writes.\<close>

definition configured :: "u8 \<Rightarrow> chip \<Rightarrow> chip" where
  "configured modem s = s\<lparr>c_line_control := 3, c_divisor_low := 3, c_divisor_high := 0, c_fifo_control := 0xc7, c_modem_control := modem\<rparr>"

lemma initialize_until_clear:
  assumes "documented (uart_port u) d view"
  shows "\<exists>u'. uart_port u' = uart_port u \<and> settings (view (uart_dev u')) = (settings (view (uart_dev u)))
      \<lparr>c_line_control := 3, c_divisor_low := 3, c_divisor_high := 0, c_fifo_control := 0\<rparr> \<and>
    flows (view (uart_dev u)) (view (uart_dev u')) \<and>
    u' = write_register d 3 3 (write_register d 1 0 (write_register d 0 3 (write_register d 3 0x80 (write_register d 2 0 u))))"
proof -
  define u1 where "u1 = write_register d 2 0 u"
  define u2 where "u2 = write_register d 3 0x80 u1"
  define u3 where "u3 = write_register d 0 3 u2"
  define u4 where "u4 = write_register d 1 0 u3"
  define u5 where "u5 = write_register d 3 3 u4"
  note us = u1_def u2_def u3_def u4_def u5_def
  have port: "uart_port u1 = uart_port u" "uart_port u2 = uart_port u" "uart_port u3 = uart_port u" "uart_port u4 = uart_port u"
    "uart_port u5 = uart_port u" by (simp_all add: us documented_write(2))
  let ?s = "\<lambda>u. view (uart_dev u)"
  have w: "chip_write 2 0 (?s u) (?s u1)" "chip_write 3 0x80 (?s u1) (?s u2)" "chip_write 0 3 (?s u2) (?s u3)"
    "chip_write 1 0 (?s u3) (?s u4)" "chip_write 3 3 (?s u4) (?s u5)"
    using port assms unfolding us by (auto intro!: documented_write(1))
  note 1 = setting_write [OF w(1), simplified]
  note 2 = setting_write [OF w(2), simplified]
  have s2: "settings (?s u2) = (settings (?s u))\<lparr>c_fifo_control := 0, c_line_control := 0x80\<rparr>"
    using 1(1) 2(1) by (simp add: chip_set_def settings_def)
  then have d2: "dlab (?s u2)" by (simp add: flags_settings(1))
  note 3 = setting_write [OF w(3), simplified, OF d2]
  have s3: "settings (?s u3) = (settings (?s u))\<lparr>c_fifo_control := 0, c_line_control := 0x80, c_divisor_low := 3\<rparr>"
    using 3(1) s2 by (simp add: chip_set_def dlab_def)
  then have d3: "dlab (?s u3)" by (simp add: flags_settings(1))
  note 4 = setting_write [OF w(4), simplified]
  note 5 = setting_write [OF w(5), simplified]
  have s5: "settings (?s u5) = (settings (?s u))\<lparr>c_line_control := 3, c_divisor_low := 3, c_divisor_high := 0, c_fifo_control := 0\<rparr>"
    using 4(1) 5(1) s3 by (simp add: chip_set_def dlab_def)
  have l: "loopback (?s u1) = loopback (?s u)" "loopback (?s u2) = loopback (?s u)" "loopback (?s u3) = loopback (?s u)"
    "loopback (?s u4) = loopback (?s u)"
    using 1(1) s2 s3 4(1) by (simp_all add: flags_settings(2) chip_set_def)
  have "flows (?s u) (?s u5)" by (rule flows_trans [OF flows_trans [OF flows_trans [OF flows_trans [OF 1(2) 2(2) l(1)] 3(2) l(2)] 4(2) l(3)] 5(2) l(4)])
  then show ?thesis using port(5) s5 unfolding us by blast
qed

text \<open>The self test: the byte is in the buffer of a chip in loopback mode, and nothing goes to the wire.\<close>

lemma initialize_self_test:
  assumes "documented (uart_port u) d view" "\<not> dlab (view (uart_dev u))"
  shows "\<exists>u'. uart_port u' = uart_port u \<and> settings (view (uart_dev u')) = (settings (view (uart_dev u)))\<lparr>c_fifo_control := 0xc7, c_modem_control := 0x1b\<rparr> \<and>
    c_buffer (view (uart_dev u')) = [] \<and>
    (\<exists>n. c_wire (view (uart_dev u')) = c_wire (view (uart_dev u)) @ (if loopback (view (uart_dev u)) then [] else take n (c_buffer (view (uart_dev u))))) \<and>
    u' = write_register d 4 0x1b (write_register d 2 0xc7 u)"
proof -
  define u1 where "u1 = write_register d 2 0xc7 u"
  define u2 where "u2 = write_register d 4 0x1b u1"
  have port: "uart_port u1 = uart_port u" "uart_port u2 = uart_port u" by (simp_all add: u1_def u2_def documented_write(2))
  let ?s = "\<lambda>u. view (uart_dev u)"
  have w: "chip_write 2 0xc7 (?s u) (?s u1)" "chip_write 4 0x1b (?s u1) (?s u2)"
    using port assms(1) unfolding u1_def u2_def by (auto intro!: documented_write(1))
  have b: "bit (0xc7 :: u8) 2" by simp
  note 1 = fifo_clear [OF w(1) b]
  note 2 = setting_write [OF w(2), simplified]
  have "c_buffer (?s u2) = []" "c_wire (?s u2) = c_wire (?s u1)" using 2(2) 1(2) by (auto simp: flows_def)
  moreover have "settings (?s u2) = (settings (?s u))\<lparr>c_fifo_control := 0xc7, c_modem_control := 0x1b\<rparr>"
    using 1(1) 2(1) by (simp add: chip_set_def)
  moreover have "u2 = write_register d 4 0x1b (write_register d 2 0xc7 u)" by (simp only: u1_def u2_def)
  ultimately show ?thesis using 1(3) port(2) by metis
qed

lemma loopback_test:
  assumes "documented (uart_port u) d view" "\<not> dlab (view (uart_dev u))" "loopback (view (uart_dev u))" "c_buffer (view (uart_dev u)) = []"
    "u' = snd (read_register d 0 (write_register d 0 v u))"
  shows "settings (view (uart_dev u')) = settings (view (uart_dev u))" "c_wire (view (uart_dev u')) = c_wire (view (uart_dev u))"
    "c_buffer (view (uart_dev u')) \<in> {[], [v]}" "uart_port u' = uart_port u"
    "prompt (uart_port u) d view \<Longrightarrow> fst (read_register d 0 (write_register d 0 v u)) = v"
proof -
  let ?s = "\<lambda>u. view (uart_dev u)" and ?u = "write_register d 0 v u"
  note 1 = data_write [OF documented_write(1) [OF assms(1)] assms(2,4), of v]
  have doc: "documented (uart_port ?u) d view" using assms(1) by (simp add: documented_write(2))
  note 2 = chip_read_flows [OF documented_read(1) [OF doc, of 0], folded assms(5)]
  have l: "loopback (?s ?u)" using assms(3) 1(1) settings_flags by blast
  show "settings (?s u') = settings (?s u)" using 1(1) 2(1) by simp
  show "c_wire (?s u') = c_wire (?s u)" using 2(2) 1(3) l by (auto simp: flows_def)
  have "drop n [v] \<in> {[], [v]}" for n by (cases n) simp_all
  then show "c_buffer (?s u') \<in> {[], [v]}" using 2(2) 1(2) unfolding flows_def by metis
  show "uart_port u' = uart_port u" by (simp add: assms(5) documented_read(2) documented_write(2))
  assume "prompt (uart_port u) d view"
  then show "fst (read_register d 0 ?u) = v"
    using assms(2-4) by (auto simp: prompt_def read_register_def write_register_def split_def Let_def)
qed

lemma uart_initialize_chip:
  assumes "documented (uart_port u) d view"
  shows "\<exists>r u'. uart_initialize d u = (r, u') \<and> uart_port u' = uart_port u \<and> r \<in> {SYSTEM_OK, SYSTEM_ERR_IO_INVALID} \<and>
    settings (view (uart_dev u')) = configured (if r = SYSTEM_OK then 0x0f else 0x1b) (settings (view (uart_dev u))) \<and>
    c_buffer (view (uart_dev u')) \<in> {[], [0xae]} \<and>
    (\<exists>n. c_wire (view (uart_dev u')) = c_wire (view (uart_dev u)) @ (if loopback (view (uart_dev u)) then [] else take n (c_buffer (view (uart_dev u))))) \<and>
    (prompt (uart_port u) d view \<longrightarrow> r = SYSTEM_OK)"
proof -
  let ?s = "\<lambda>u. view (uart_dev u)"
  have bits: "UART_LINE_DLAB_STATUS = 0x80" "UART_LINE_DS_8 = 3"
    "UART_ENABLE_FIFO OR UART_FIFO_CLEAR_RECEIVE OR UART_FIFO_CLEAR_TRANSMIT OR UART_FIFO_TRIGGER_LEVEL4 = 0xc7"
    "UART_MODEM_RTS OR UART_MODEM_DTR OR UART_MODEM_OUT2 OR UART_MODEM_LOOPBACK = 0x1b"
    "UART_MODEM_RTS OR UART_MODEM_DTR OR UART_MODEM_OUT1 OR UART_MODEM_OUT2 = 0x0f"
    by (simp_all add: uart_bits)
  obtain u5 where 5: "uart_port u5 = uart_port u" "settings (?s u5) = (settings (?s u))
        \<lparr>c_line_control := 3, c_divisor_low := 3, c_divisor_high := 0, c_fifo_control := 0\<rparr>" "flows (?s u) (?s u5)"
      "u5 = write_register d 3 3 (write_register d 1 0 (write_register d 0 3 (write_register d 3 0x80 (write_register d 2 0 u))))"
    using initialize_until_clear [OF assms] by blast
  have doc5: "documented (uart_port u5) d view" using assms 5(1) by simp
  have f5: "\<not> dlab (?s u5)" "loopback (?s u5) = loopback (?s u)" using 5(2) by (simp_all add: flags_settings)
  obtain u7 n where 7: "uart_port u7 = uart_port u" "settings (?s u7) = (settings (?s u5))\<lparr>c_fifo_control := 0xc7, c_modem_control := 0x1b\<rparr>"
      "c_buffer (?s u7) = []" "c_wire (?s u7) = c_wire (?s u5) @ (if loopback (?s u5) then [] else take n (c_buffer (?s u5)))"
      "u7 = write_register d 4 0x1b (write_register d 2 0xc7 u5)"
    using initialize_self_test [OF doc5 f5(1)] 5(1) by metis
  have f7: "\<not> dlab (?s u7)" "loopback (?s u7)" using 7(2) 5(2) by (simp_all add: flags_settings)
  have doc7: "documented (uart_port u7) d view" using assms 7(1) by simp
  define u9 where "u9 = snd (read_register d 0 (write_register d 0 0xae u7))"
  define answer where "answer = fst (read_register d 0 (write_register d 0 0xae u7))"
  note 9 = loopback_test [OF doc7 f7 7(3) u9_def]
  define u10 where "u10 = write_register d 4 0x0f u9"
  have init: "uart_initialize d u = (if answer \<noteq> 0xae then (SYSTEM_ERR_IO_INVALID, u9) else (SYSTEM_OK, u10))"
    by (simp add: uart_initialize_def Let_def split_def bits uart_registers 5(4) 7(5) u9_def answer_def u10_def)
  have wire: "\<exists>n. c_wire (?s u9) = c_wire (?s u) @ (if loopback (?s u) then [] else take n (c_buffer (?s u)))"
    using flows_trans [OF 5(3) flows_progress f5(2), of n] 7(4) 9(2) unfolding flows_def by auto
  have s9: "settings (?s u9) = configured 0x1b (settings (?s u))" using 9(1) 7(2) 5(2) by (simp add: configured_def)
  have "chip_write 4 0x0f (?s u9) (?s u10)" unfolding u10_def using assms 9(4) 7(1) by (auto intro!: documented_write(1))
  note 10 = setting_write [OF this, simplified]
  have s10: "settings (?s u10) = configured 0x0f (settings (?s u))" using 10(1) s9 by (simp add: chip_set_def configured_def)
  have l9: "loopback (?s u9)" using s9 by (simp add: flags_settings configured_def)
  have w10: "c_wire (?s u10) = c_wire (?s u9)" using 10(2) l9 by (auto simp: flows_def)
  have "drop k b \<in> {[], [v]}" if "b \<in> {[], [v]}" for k b and v :: u8 using that by (cases k) auto
  then have b10: "c_buffer (?s u10) \<in> {[], [0xae]}" using 10(2) 9(3) unfolding flows_def by metis
  have p10: "uart_port u10 = uart_port u" "uart_port u9 = uart_port u" using 9(4) 7(1) by (simp_all add: u10_def documented_write(2))
  have pr: "prompt (uart_port u) d view \<longrightarrow> answer = 0xae" using 9(5) 7(1) unfolding answer_def by simp
  show ?thesis
  proof (cases "answer = 0xae")
    case True
    then show ?thesis using init s10 b10 wire p10 by (simp add: w10)
  next
    case False
    then show ?thesis using init s9 9(3) wire p10 pr by (simp add: SYSTEM_OK_def SYSTEM_ERR_IO_INVALID_def)
  qed
qed

text \<open>
  C31: \<^verbatim>\<open>uart::initialize\<close> on a device whose registers behave as \<^verbatim>\<open>docs/amd64/serials.md\<close> says.  The call returns
  success or the input and output error.  In both cases the chip has 8 data bits, no parity and one
  stop bit, divisor 3 and the FIFO enabled with a threshold of 14 bytes; the interrupt enable and the
  scratch register are as before, for no write reaches them.  The loopback is off after success
  only: after a failed self test the chip is left in loopback mode.  Neither the test byte nor
  anything else goes to the wire meanwhile, except bytes that were in the buffer before; the test
  byte is the only one that may still be there.  The test succeeds if, moreover, a byte written in
  loopback mode can be read back at once.
\<close>

theorem uart_initialize_configures:
  assumes "documented (uart_port u) d view"
  shows "\<exists>r u'. uart_initialize d u = (r, u') \<and> uart_port u' = uart_port u \<and> r \<in> {SYSTEM_OK, SYSTEM_ERR_IO_INVALID} \<and>
    settings (view (uart_dev u')) = (settings (view (uart_dev u)))\<lparr>c_line_control := 3, c_divisor_low := 3, c_divisor_high := 0,
      c_fifo_control := 0xc7, c_modem_control := if r = SYSTEM_OK then 0x0f else 0x1b\<rparr> \<and>
    c_buffer (view (uart_dev u')) \<in> {[], [0xae]} \<and>
    (\<exists>n. c_wire (view (uart_dev u')) = c_wire (view (uart_dev u)) @ (if loopback (view (uart_dev u)) then [] else take n (c_buffer (view (uart_dev u))))) \<and>
    (prompt (uart_port u) d view \<longrightarrow> r = SYSTEM_OK)"
  using uart_initialize_chip [OF assms] unfolding configured_def .

text \<open>
  A device as documented for the examples.  At each access it sends all that is in its buffer; its
  receive register holds the last byte sent in loopback mode; a byte written to the data register
  takes the place of what is in the buffer.
\<close>

definition flush :: "chip \<times> u8 \<Rightarrow> chip \<times> u8" where
  "flush s = (progress (length (c_buffer (fst s))) (fst s), if loopback (fst s) \<and> c_buffer (fst s) \<noteq> [] then last (c_buffer (fst s)) else snd s)"

definition chip_in :: "u16 \<Rightarrow> chip \<Rightarrow> u8 \<Rightarrow> u8" where
  "chip_in off s received =
     (if off = 0 then if dlab s then c_divisor_low s else received
      else if off = 1 then if dlab s then c_divisor_high s else c_interrupt_enable s
      else if off = 3 then c_line_control s
      else if off = 4 then c_modem_control s
      else if off = 5 then 0x60
      else if off = 7 then c_scratch s
      else 0)"

definition chip_ports :: "u16 \<Rightarrow> (chip \<times> u8) ports" where
  "chip_ports base =
     \<lparr>port_in = (\<lambda>s p. (chip_in (p - base) (fst (flush s)) (snd (flush s)), flush s)),
      port_out = (\<lambda>s p v. (chip_set (p - base) v (fst (flush s)), snd (flush s)))\<rparr>"

lemma flush_empty [simp]: "c_buffer (fst (flush s)) = []"
  by (simp add: flush_def)

lemma chip_documented: "documented base (chip_ports base) fst"
proof -
  have w: "chip_write off v (fst s) (chip_set off v (fst (flush s)))" for off v s
    unfolding chip_write_def by (rule exI [of _ "length (c_buffer (fst s))"]) (simp add: flush_def Let_def)
  have "bit (0x60 :: u8) 5" by simp
  then have "chip_value off (chip_in off (fst (flush s)) v) (fst (flush s))" for off v s
    by (simp add: chip_value_def chip_in_def)
  then have "chip_read off (chip_in off (fst (flush s)) v) (fst s) (fst (flush s))" for off v s
    by (auto simp: chip_read_def flush_def)
  with w show ?thesis by (simp add: documented_def chip_ports_def)
qed

lemma chip_prompt: "prompt base (chip_ports base) fst"
  by (auto simp: prompt_def chip_ports_def chip_in_def chip_set_def flush_def dlab_def loopback_def progress_def)

definition demo_chip :: chip where
  "demo_chip = \<lparr>c_interrupt_enable = 5, c_divisor_low = 0, c_divisor_high = 0, c_fifo_control = 0, c_line_control = 0x80,
     c_modem_control = 0, c_scratch = 9, c_buffer = [7], c_wire = []\<rparr>"

theorem uart_initialize_configures_witness:
  "\<exists>u'. uart_initialize (chip_ports 0x3f8) \<lparr>uart_port = 0x3f8, uart_dev = (demo_chip, 0)\<rparr> = (SYSTEM_OK, u') \<and>
     c_line_control (fst (uart_dev u')) = 3 \<and> c_modem_control (fst (uart_dev u')) = 0x0f \<and>
     c_interrupt_enable (fst (uart_dev u')) = 5 \<and> c_scratch (fst (uart_dev u')) = 9 \<and> c_wire (fst (uart_dev u')) \<in> {[], [7]}"
proof -
  let ?u = "\<lparr>uart_port = 0x3f8, uart_dev = (demo_chip, 0)\<rparr>"
  have doc: "documented (uart_port ?u) (chip_ports 0x3f8) fst" by (simp add: chip_documented)
  have "prompt (uart_port ?u) (chip_ports 0x3f8) fst" by (simp add: chip_prompt)
  with uart_initialize_configures [OF doc] obtain u' n where
    u': "uart_initialize (chip_ports 0x3f8) ?u = (SYSTEM_OK, u')"
      "settings (fst (uart_dev u')) = (settings demo_chip)\<lparr>c_line_control := 3, c_divisor_low := 3, c_divisor_high := 0,
         c_fifo_control := 0xc7, c_modem_control := 0x0f\<rparr>"
      "c_wire (fst (uart_dev u')) = take n [7]"
    by (auto simp: demo_chip_def loopback_def)
  have "take n [7] \<in> {[], [7 :: u8]}" by (cases n) simp_all
  then show ?thesis using u' by (cases "fst (uart_dev u')") (simp add: settings_def demo_chip_def)
qed

subsection \<open>Sending\<close>

definition poll :: "'s ports \<Rightarrow> 's uart \<Rightarrow> 's uart" where
  "poll d u = snd (read_register d UART_LINE_STATUS u)"

definition ready :: "'s ports \<Rightarrow> 's uart \<Rightarrow> bool" where
  "ready d u \<longleftrightarrow> fst (read_register d UART_LINE_STATUS u) AND UART_LINE_TRANSMITTER_BUF_EMPTY \<noteq> 0"

lemma uart_putc_unfold:
  "uart_putc d c u = (if ready d u then Some (SYSTEM_OK, write_register d UART_DATA (word_of_int c) (poll d u)) else uart_putc d c (poll d u))"
  by (subst uart_putc.simps) (simp add: ready_def poll_def split_def Let_def)

lemma uart_putc_waits:
  "(\<And>k. k < n \<Longrightarrow> \<not> ready d ((poll d ^^ k) u)) \<Longrightarrow> uart_putc d c u = uart_putc d c ((poll d ^^ n) u)"
proof (induction n)
  case (Suc n)
  then have "uart_putc d c u = uart_putc d c ((poll d ^^ n) u)" by simp
  also have "\<dots> = uart_putc d c ((poll d ^^ Suc n) u)" using Suc.prems [of n] by (subst uart_putc_unfold) simp
  finally show ?case .
qed simp

lemma uart_putc_returns:
  assumes "ready d ((poll d ^^ n) u)"
  shows "\<exists>k \<le> n. ready d ((poll d ^^ k) u) \<and>
    uart_putc d c u = Some (SYSTEM_OK, write_register d UART_DATA (word_of_int c) ((poll d ^^ Suc k) u))"
proof -
  define k where "k = (LEAST k. ready d ((poll d ^^ k) u))"
  have k: "ready d ((poll d ^^ k) u)" "k \<le> n" using assms unfolding k_def by (rule LeastI, rule Least_le)
  have "\<not> ready d ((poll d ^^ j) u)" if "j < k" for j using that not_less_Least unfolding k_def by blast
  then have "uart_putc d c u = uart_putc d c ((poll d ^^ k) u)" by (rule uart_putc_waits)
  then show ?thesis using k by (subst (asm) (2) uart_putc_unfold) (auto intro!: exI [of _ k])
qed

lemma uart_putc_answer:
  assumes "uart_putc d c u = Some y"
  shows "fst y = SYSTEM_OK \<and> (\<exists>n. ready d ((poll d ^^ n) u))"
proof (rule uart_putc.raw_induct [where P = "\<lambda>d c u y. fst y = SYSTEM_OK \<and> (\<exists>n. ready d ((poll d ^^ n) u))", OF _ assms])
  fix f d c u and y :: "int \<times> 'a uart"
  assume 1: "\<And>d c u y. f d c u = Some y \<Longrightarrow> fst y = SYSTEM_OK \<and> (\<exists>n. ready d ((poll d ^^ n) u))"
    "(let (status, u) = read_register d UART_LINE_STATUS u in
      if status AND UART_LINE_TRANSMITTER_BUF_EMPTY = 0 then f d c u
      else Some (SYSTEM_OK, write_register d UART_DATA (word_of_int c) u)) = Some y"
  show "fst y = SYSTEM_OK \<and> (\<exists>n. ready d ((poll d ^^ n) u))"
  proof (cases "ready d u")
    case True
    then show ?thesis using 1(2) by (auto simp: ready_def split_def Let_def intro!: exI [of _ 0])
  next
    case False
    then have "f d c (poll d u) = Some y" using 1(2) by (simp add: ready_def poll_def split_def Let_def)
    from 1(1) [OF this] obtain n where "fst y = SYSTEM_OK" "ready d ((poll d ^^ n) (poll d u))" by blast
    then show ?thesis by (auto intro!: exI [of _ "Suc n"] simp: funpow_swap1)
  qed
qed

lemma poll_chip:
  assumes "documented (uart_port u) d view"
  shows "uart_port ((poll d ^^ n) u) = uart_port u \<and> settings (view (uart_dev ((poll d ^^ n) u))) = settings (view (uart_dev u)) \<and>
    flows (view (uart_dev u)) (view (uart_dev ((poll d ^^ n) u)))"
proof (induction n)
  case 0
  then show ?case by (auto simp: flows_def intro!: exI [of _ 0])
next
  case (Suc n)
  let ?u = "(poll d ^^ n) u"
  have "documented (uart_port ?u) d view" using Suc assms by simp
  note 1 = chip_read_flows [OF documented_read(1) [OF this, of UART_LINE_STATUS], folded poll_def]
  have "loopback (view (uart_dev ?u)) = loopback (view (uart_dev u))" using Suc settings_flags by blast
  then have "flows (view (uart_dev u)) (view (uart_dev (poll d ?u)))" using Suc 1(2) flows_trans by blast
  moreover have "uart_port (poll d ?u) = uart_port ?u" unfolding poll_def by (rule documented_read(2))
  ultimately show ?case using Suc 1(1) by simp
qed

lemma ready_empty:
  assumes "documented (uart_port u) d view"
  shows "ready d u \<longleftrightarrow> c_buffer (view (uart_dev (poll d u))) = []"
proof -
  have "w AND 0x20 \<noteq> 0 \<longleftrightarrow> bit w 5" for w :: u8 using bit_iff_and_push_bit_not_eq_0 [of w 5] by simp
  then show ?thesis
    using documented_read(1) [OF assms, of UART_LINE_STATUS]
    by (simp add: ready_def poll_def chip_read_def chip_value_def uart_registers uart_bits)
qed

text \<open>The transmitter drains: from every state of the device, polling sees an empty buffer in the end.\<close>

definition drains :: "u16 \<Rightarrow> 's ports \<Rightarrow> bool" where
  "drains base d \<longleftrightarrow> (\<forall>s. \<exists>n. ready d ((poll d ^^ n) \<lparr>uart_port = base, uart_dev = s\<rparr>))"

lemma drains_ready:
  assumes "drains (uart_port u) d"
  shows "\<exists>n. ready d ((poll d ^^ n) u)"
  using assms unfolding drains_def by (metis uart.surjective unit.exhaust)

lemma flows_empty:
  assumes "flows s s'" "c_buffer s' = []"
  shows "c_wire s' = (if loopback s then c_wire s else stream s)"
  using assms by (auto simp: flows_def stream_def)

lemma uart_putc_sends:
  assumes "documented (uart_port u) d view" "drains (uart_port u) d" "\<not> dlab (view (uart_dev u))"
  shows "\<exists>u'. uart_putc d c u = Some (SYSTEM_OK, u') \<and> uart_port u' = uart_port u \<and> settings (view (uart_dev u')) = settings (view (uart_dev u)) \<and>
    c_buffer (view (uart_dev u')) = [word_of_int c] \<and>
    c_wire (view (uart_dev u')) = (if loopback (view (uart_dev u)) then c_wire (view (uart_dev u)) else stream (view (uart_dev u)))"
proof -
  obtain n where "ready d ((poll d ^^ n) u)" using drains_ready [OF assms(2)] by blast
  from uart_putc_returns [OF this, of c] obtain k where k: "ready d ((poll d ^^ k) u)"
    "uart_putc d c u = Some (SYSTEM_OK, write_register d UART_DATA (word_of_int c) ((poll d ^^ Suc k) u))" by blast
  let ?p = "(poll d ^^ Suc k) u"
  have "documented (uart_port ((poll d ^^ k) u)) d view" using poll_chip [OF assms(1), of k] assms(1) by simp
  from ready_empty [OF this] k(1) have empty: "c_buffer (view (uart_dev ?p)) = []" by simp
  have p: "uart_port ?p = uart_port u" "settings (view (uart_dev ?p)) = settings (view (uart_dev u))"
    "flows (view (uart_dev u)) (view (uart_dev ?p))" using poll_chip [OF assms(1), of "Suc k"] by blast+
  have "\<not> dlab (view (uart_dev ?p))" using p(2) assms(3) settings_flags by blast
  note w = data_write [OF documented_write(1) [of ?p d view 0 "word_of_int c"] this empty]
  have doc: "documented (uart_port ?p) d view" using assms(1) p(1) by simp
  show ?thesis
    using k(2) w [OF doc] p flows_empty [OF p(3) empty] by (auto simp: UART_DATA_def documented_write(2))
qed

lemma transmit_chip:
  assumes "documented (uart_port u) d view" "drains (uart_port u) d" "\<not> dlab (view (uart_dev u))"
  shows "\<exists>u'. transmit d cs u = Some u' \<and> uart_port u' = uart_port u \<and> settings (view (uart_dev u')) = settings (view (uart_dev u)) \<and>
    (if loopback (view (uart_dev u)) then c_wire (view (uart_dev u')) = c_wire (view (uart_dev u))
     else stream (view (uart_dev u')) = stream (view (uart_dev u)) @ map word_of_int cs)"
  using assms
proof (induction cs arbitrary: u)
  case Nil
  then show ?case by simp
next
  case (Cons c cs)
  obtain u' where u': "uart_putc d c u = Some (SYSTEM_OK, u')" "uart_port u' = uart_port u"
      "settings (view (uart_dev u')) = settings (view (uart_dev u))" "c_buffer (view (uart_dev u')) = [word_of_int c]"
      "c_wire (view (uart_dev u')) = (if loopback (view (uart_dev u)) then c_wire (view (uart_dev u)) else stream (view (uart_dev u)))"
    using uart_putc_sends [OF Cons.prems, of c] by blast
  have l: "dlab (view (uart_dev u')) = dlab (view (uart_dev u))" "loopback (view (uart_dev u')) = loopback (view (uart_dev u))"
    using settings_flags [OF u'(3)] by simp_all
  have st: "\<not> loopback (view (uart_dev u)) \<Longrightarrow> stream (view (uart_dev u')) = stream (view (uart_dev u)) @ [word_of_int c]"
    using u'(4,5) by (simp add: stream_def)
  have "documented (uart_port u') d view" "drains (uart_port u') d" "\<not> dlab (view (uart_dev u'))" using Cons.prems u'(2) l by simp_all
  from Cons.IH [OF this] obtain u'' where "transmit d cs u' = Some u''" "uart_port u'' = uart_port u'"
      "settings (view (uart_dev u'')) = settings (view (uart_dev u'))"
      "if loopback (view (uart_dev u')) then c_wire (view (uart_dev u'')) = c_wire (view (uart_dev u'))
       else stream (view (uart_dev u'')) = stream (view (uart_dev u')) @ map word_of_int cs" by blast
  then show ?case using u' l st by (auto split: if_splits)
qed

text \<open>What a documented chip has sent once it is polled until its buffer is empty, and what it sends in loopback mode.\<close>

lemma polled_wire:
  assumes "documented (uart_port u) d view" "drains (uart_port u) d"
  shows "if loopback (view (uart_dev u)) then \<forall>n. c_wire (view (uart_dev ((poll d ^^ n) u))) = c_wire (view (uart_dev u))
    else \<exists>n. c_wire (view (uart_dev ((poll d ^^ n) u))) = stream (view (uart_dev u))"
proof (cases "loopback (view (uart_dev u))")
  case True
  then show ?thesis using poll_chip [OF assms(1)] by (auto simp: flows_def)
next
  case False
  obtain n where n: "ready d ((poll d ^^ n) u)" using drains_ready [OF assms(2)] by blast
  have "documented (uart_port ((poll d ^^ n) u)) d view" using poll_chip [OF assms(1), of n] assms(1) by simp
  from ready_empty [OF this] n have "c_buffer (view (uart_dev ((poll d ^^ Suc n) u))) = []" by simp
  then have "c_wire (view (uart_dev ((poll d ^^ Suc n) u))) = stream (view (uart_dev u))"
    using flows_empty poll_chip [OF assms(1), of "Suc n"] False by (metis (no_types, lifting))
  then show ?thesis using False by (simp only: if_False) blast
qed

text \<open>
  C27: from a message to the wire.  A device at the first serial port behaves as \<^verbatim>\<open>docs/amd64/serials.md\<close> says and
  its transmitter drains, so that polling the line status sees an empty buffer in the end.  The
  drivers are initialized and then a message without a \<^verbatim>\<open>%\<close> directive is logged.  Every call returns.  If
  the self test succeeded, the bytes of the message, the color, the tag, the arrow, the text, the
  reset sequence and the line feed, arrive on the wire in this order after those that were left in
  the buffer, and nothing else does; no byte is written while the buffer is not empty, since what
  becomes of such a byte is left open by the document.  If the self test failed, the drivers go on
  all the same and nothing ever arrives.
\<close>

theorem log_reaches_wire:
  assumes "documented UART_COM_PORT_1 d view" "drains UART_COM_PORT_1 d" "logger_literals (io_mem st) lit" "io_sent st = []"
    "get_log_color style level = Some color" "get_level_tag style level = Some tag"
    "text_at (io_mem st) color ctxt" "text_at (io_mem st) tag ttxt" "literal_at (io_mem st) format msg" "37 \<notin> set msg"
  shows "\<exists>r u st0 st1 u'. uart_initialize d \<lparr>uart_port = UART_COM_PORT_1, uart_dev = s\<rparr> = (r, u) \<and>
    drivers_initialize d \<lparr>uart_port = p, uart_dev = s\<rparr> st = (u, st0) \<and>
    log_msg lit style level format args st0 = Some st1 \<and> transmit d (io_sent st1) u = Some u' \<and>
    (if r = SYSTEM_OK
     then \<exists>n. c_wire (view (uart_dev ((poll d ^^ n) u'))) = stream (view (uart_dev u)) @ message ctxt ttxt msg
     else \<forall>n. c_wire (view (uart_dev ((poll d ^^ n) u'))) = c_wire (view (uart_dev u)))"
proof -
  let ?u0 = "\<lparr>uart_port = UART_COM_PORT_1, uart_dev = s\<rparr>" and ?st0 = "initialize_streams st"
  let ?st1 = "send (message ctxt ttxt msg) ?st0"
  have "documented (uart_port ?u0) d view" using assms(1) by simp
  from uart_initialize_chip [OF this] obtain r u where
    u: "uart_initialize d ?u0 = (r, u)" "uart_port u = UART_COM_PORT_1"
      "settings (view (uart_dev u)) = configured (if r = SYSTEM_OK then 0x0f else 0x1b) (settings (view s))" by auto
  have con: "console ?st0" "io_mem ?st0 = io_mem st" "io_sent ?st0 = []"
    using assms(4) by (simp_all add: console_def initialize_streams_def simple_file_def)
  have log: "log_msg lit style level format args ?st0 = Some ?st1"
    using assms vlog_msg_text [OF con(1)] by (simp add: log_msg_def con(2))
  have sent: "map word_of_int (io_sent ?st1) = message ctxt ttxt msg"
    using send_console [OF con(1)] con(3) by (simp add: comp_def)
  have doc: "documented (uart_port u) d view" "drains (uart_port u) d" using assms(1,2) u(2) by simp_all
  have f: "\<not> dlab (view (uart_dev u))" "loopback (view (uart_dev u)) \<longleftrightarrow> r \<noteq> SYSTEM_OK"
    using u(3) by (simp_all add: flags_settings configured_def)
  obtain u' where u': "transmit d (io_sent ?st1) u = Some u'" "uart_port u' = uart_port u"
      "settings (view (uart_dev u')) = settings (view (uart_dev u))"
      "if loopback (view (uart_dev u)) then c_wire (view (uart_dev u')) = c_wire (view (uart_dev u))
       else stream (view (uart_dev u')) = stream (view (uart_dev u)) @ message ctxt ttxt msg"
    using transmit_chip [OF doc f(1), of "io_sent ?st1"] unfolding sent by blast
  have "loopback (view (uart_dev u')) = loopback (view (uart_dev u))" using settings_flags [OF u'(3)] by simp
  then have "if r = SYSTEM_OK
     then \<exists>n. c_wire (view (uart_dev ((poll d ^^ n) u'))) = stream (view (uart_dev u)) @ message ctxt ttxt msg
     else \<forall>n. c_wire (view (uart_dev ((poll d ^^ n) u'))) = c_wire (view (uart_dev u))"
    using polled_wire [of u' d view] u'(2,4) doc f(2) by (simp split: if_splits)
  then show ?thesis
    using log u(1) u'(1) by (intro exI [of _ r] exI [of _ u] exI [of _ ?st0] exI [of _ ?st1] exI [of _ u'])
      (simp add: drivers_initialize_def set_port_def)
qed

lemma chip_drains: "drains base (chip_ports base)"
proof -
  have "ready (chip_ports base) ((poll (chip_ports base) ^^ 0) \<lparr>uart_port = base, uart_dev = s\<rparr>)" for s
    by (simp add: ready_def read_register_def chip_ports_def chip_in_def uart_registers uart_bits)
  then show ?thesis unfolding drains_def by blast
qed

theorem log_reaches_wire_witness:
  "let st = \<lparr>io_mem = demo_mem, io_file = simple_file, io_sent = []\<rparr>;
      style = \<lparr>style_colors = replicate 6 4104, style_tags = replicate 6 4217\<rparr>; d = chip_ports 0x3f8
   in \<exists>u st0 st1 u' n. drivers_initialize d \<lparr>uart_port = 0, uart_dev = (demo_chip, 0)\<rparr> st = (u, st0) \<and>
        log_msg demo_lit style 1 4221 [] st0 = Some st1 \<and> transmit d (io_sent st1) u = Some u' \<and>
        c_wire (fst (uart_dev ((poll d ^^ n) u'))) = stream (fst (uart_dev u)) @ message [] (bytes ''[P]'') (bytes ''Hi'')"
proof -
  let ?style = "\<lparr>style_colors = replicate 6 4104, style_tags = replicate 6 4217\<rparr> :: LogStyle"
  have doc: "documented UART_COM_PORT_1 (chip_ports 0x3f8) fst" "drains UART_COM_PORT_1 (chip_ports 0x3f8)"
    by (simp_all add: UART_COM_PORT_1_def chip_documented chip_drains)
  let ?u = "\<lparr>uart_port = UART_COM_PORT_1, uart_dev = (demo_chip, 0 :: u8)\<rparr>"
  have "documented (uart_port ?u) (chip_ports 0x3f8) fst" "prompt (uart_port ?u) (chip_ports 0x3f8) fst"
    using doc(1) by (simp_all add: UART_COM_PORT_1_def chip_prompt)
  then have ok: "\<exists>u. uart_initialize (chip_ports 0x3f8) ?u = (SYSTEM_OK, u)"
    using uart_initialize_chip [of ?u "chip_ports 0x3f8" fst] by auto
  have style: "get_log_color ?style 1 = Some 4104" "get_level_tag ?style 1 = Some 4217"
    by (simp_all add: get_log_color_def get_level_tag_def)
  let ?st = "\<lparr>io_mem = demo_mem, io_file = simple_file, io_sent = []\<rparr>"
  have st: "logger_literals (io_mem ?st) demo_lit" "io_sent ?st = []" "text_at (io_mem ?st) 4104 []"
    "text_at (io_mem ?st) 4217 (bytes ''[P]'')" "literal_at (io_mem ?st) 4221 (bytes ''Hi'')"
    using demo_memory by simp_all
  from log_reaches_wire [OF doc st(1,2) style st(3-5) demo_memory(5), of "(demo_chip, 0)" 0 "[]"]
  show ?thesis using ok by (auto simp: Let_def)
qed

end
