(* ===== verification/Features.thy ===== *)
theory Features
  imports Prelude
begin

text \<open>
  Processor features, \<^verbatim>\<open>cpu/features.h\<close> and \<^verbatim>\<open>cpu/features.cpp\<close>, and the accessors of \<^verbatim>\<open>cpu/cpu.hpp\<close>.  The instruction \<^verbatim>\<open>cpuid\<close>
  is a parameter: a function of leaf and subleaf.  The static variable of \<^verbatim>\<open>read_cpuid\<close> is passed
  explicitly.  Control registers and model specific registers are a record.
\<close>

subsection \<open>Leaves and features\<close>

definition CPUID_MODEL_FEATURES :: u32 where "CPUID_MODEL_FEATURES = 0x1"
definition CPUID_THERMAL_AND_POWER :: u32 where "CPUID_THERMAL_AND_POWER = 0x6"
definition CPUID_EXTENDED_FEATURE_FLAGS :: u32 where "CPUID_EXTENDED_FEATURE_FLAGS = 0x7"
definition CPUID_FEATS :: u32 where "CPUID_FEATS = 0x80000001"
definition CPUID_ADDR_WIDTH :: u32 where "CPUID_ADDR_WIDTH = 0x80000008"
definition SYSTEM_ERR_INVALID_ARGS :: int where "SYSTEM_ERR_INVALID_ARGS = - 10"

record CpuidLeaf =
  leaf_values :: "u32 list"

record CpuidBit =
  cb_leaf :: u32
  cb_word :: u8
  cb_bit :: u8

definition CPUID_BIT :: "u32 \<Rightarrow> u8 \<Rightarrow> u8 \<Rightarrow> CpuidBit" where
  "CPUID_BIT leaf wd bt = \<lparr>cb_leaf = leaf, cb_word = wd, cb_bit = bt\<rparr>"

text \<open>The feature macros, each under its name.\<close>

definition features :: "(string \<times> CpuidBit) list" where
  "features =
    [(''FEATURE_SSE3'', CPUID_BIT CPUID_MODEL_FEATURES 2 0),
     (''FEATURE_MON'', CPUID_BIT CPUID_MODEL_FEATURES 2 3),
     (''FEATURE_VMX'', CPUID_BIT CPUID_MODEL_FEATURES 2 5),
     (''FEATURE_TM2'', CPUID_BIT CPUID_MODEL_FEATURES 2 8),
     (''FEATURE_SSSE3'', CPUID_BIT CPUID_MODEL_FEATURES 2 9),
     (''FEATURE_PDCM'', CPUID_BIT CPUID_MODEL_FEATURES 2 15),
     (''FEATURE_PCID'', CPUID_BIT CPUID_MODEL_FEATURES 2 17),
     (''FEATURE_SSE4_1'', CPUID_BIT CPUID_MODEL_FEATURES 2 19),
     (''FEATURE_SSE4_2'', CPUID_BIT CPUID_MODEL_FEATURES 2 20),
     (''FEATURE_X2APIC'', CPUID_BIT CPUID_MODEL_FEATURES 2 21),
     (''FEATURE_TSC_DEADLINE'', CPUID_BIT CPUID_MODEL_FEATURES 2 24),
     (''FEATURE_AESNI'', CPUID_BIT CPUID_MODEL_FEATURES 2 25),
     (''FEATURE_XSAVE'', CPUID_BIT CPUID_MODEL_FEATURES 2 26),
     (''FEATURE_AVX'', CPUID_BIT CPUID_MODEL_FEATURES 2 28),
     (''FEATURE_RDRAND'', CPUID_BIT CPUID_MODEL_FEATURES 2 30),
     (''FEATURE_HYPERVISOR'', CPUID_BIT CPUID_MODEL_FEATURES 2 31),
     (''FEATURE_FPU'', CPUID_BIT CPUID_MODEL_FEATURES 3 0),
     (''FEATURE_SEP'', CPUID_BIT CPUID_MODEL_FEATURES 3 11),
     (''FEATURE_CLFLUSH'', CPUID_BIT CPUID_MODEL_FEATURES 3 19),
     (''FEATURE_ACPI'', CPUID_BIT CPUID_MODEL_FEATURES 3 22),
     (''FEATURE_MMX'', CPUID_BIT CPUID_MODEL_FEATURES 3 23),
     (''FEATURE_FXSR'', CPUID_BIT CPUID_MODEL_FEATURES 3 24),
     (''FEATURE_SSE'', CPUID_BIT CPUID_MODEL_FEATURES 3 25),
     (''FEATURE_SSE2'', CPUID_BIT CPUID_MODEL_FEATURES 3 26),
     (''FEATURE_TM'', CPUID_BIT CPUID_MODEL_FEATURES 3 29),
     (''FEATURE_DTS'', CPUID_BIT CPUID_THERMAL_AND_POWER 0 0),
     (''FEATURE_TURBO'', CPUID_BIT CPUID_THERMAL_AND_POWER 0 1),
     (''FEATURE_PLN'', CPUID_BIT CPUID_THERMAL_AND_POWER 0 4),
     (''FEATURE_PTM'', CPUID_BIT CPUID_THERMAL_AND_POWER 0 6),
     (''FEATURE_HWP'', CPUID_BIT CPUID_THERMAL_AND_POWER 0 7),
     (''FEATURE_HWP_NOT'', CPUID_BIT CPUID_THERMAL_AND_POWER 0 8),
     (''FEATURE_HWP_ACT'', CPUID_BIT CPUID_THERMAL_AND_POWER 0 9),
     (''FEATURE_HWP_PREF'', CPUID_BIT CPUID_THERMAL_AND_POWER 0 10),
     (''FEATURE_TURBO_MAX'', CPUID_BIT CPUID_THERMAL_AND_POWER 0 14),
     (''FEATURE_HW_FEEDBACK'', CPUID_BIT CPUID_THERMAL_AND_POWER 2 0),
     (''FEATURE_PERF_BIAS'', CPUID_BIT CPUID_THERMAL_AND_POWER 2 3),
     (''FEATURE_FSGSBASE'', CPUID_BIT CPUID_EXTENDED_FEATURE_FLAGS 1 0),
     (''FEATURE_TSC_ADJUST'', CPUID_BIT CPUID_EXTENDED_FEATURE_FLAGS 1 1),
     (''FEATURE_AVX2'', CPUID_BIT CPUID_EXTENDED_FEATURE_FLAGS 1 5),
     (''FEATURE_SMEP'', CPUID_BIT CPUID_EXTENDED_FEATURE_FLAGS 1 7),
     (''FEATURE_ERMS'', CPUID_BIT CPUID_EXTENDED_FEATURE_FLAGS 1 9),
     (''FEATURE_INVPCID'', CPUID_BIT CPUID_EXTENDED_FEATURE_FLAGS 1 10),
     (''FEATURE_AVX512F'', CPUID_BIT CPUID_EXTENDED_FEATURE_FLAGS 1 16),
     (''FEATURE_AVX512DQ'', CPUID_BIT CPUID_EXTENDED_FEATURE_FLAGS 1 17),
     (''FEATURE_RDSEED'', CPUID_BIT CPUID_EXTENDED_FEATURE_FLAGS 1 18),
     (''FEATURE_SMAP'', CPUID_BIT CPUID_EXTENDED_FEATURE_FLAGS 1 20),
     (''FEATURE_AVX512IFMA'', CPUID_BIT CPUID_EXTENDED_FEATURE_FLAGS 1 21),
     (''FEATURE_CLFLUSHOPT'', CPUID_BIT CPUID_EXTENDED_FEATURE_FLAGS 1 23),
     (''FEATURE_CLWB'', CPUID_BIT CPUID_EXTENDED_FEATURE_FLAGS 1 24),
     (''FEATURE_PT'', CPUID_BIT CPUID_EXTENDED_FEATURE_FLAGS 1 25),
     (''FEATURE_AVX512PF'', CPUID_BIT CPUID_EXTENDED_FEATURE_FLAGS 1 26),
     (''FEATURE_AVX512ER'', CPUID_BIT CPUID_EXTENDED_FEATURE_FLAGS 1 27),
     (''FEATURE_AVX512CD'', CPUID_BIT CPUID_EXTENDED_FEATURE_FLAGS 1 28),
     (''FEATURE_AVX512BW'', CPUID_BIT CPUID_EXTENDED_FEATURE_FLAGS 1 30),
     (''FEATURE_AVX512VL'', CPUID_BIT CPUID_EXTENDED_FEATURE_FLAGS 1 31),
     (''FEATURE_AVX512VBMI'', CPUID_BIT CPUID_EXTENDED_FEATURE_FLAGS 2 1),
     (''FEATURE_UMIP'', CPUID_BIT CPUID_EXTENDED_FEATURE_FLAGS 2 2),
     (''FEATURE_PKU'', CPUID_BIT CPUID_EXTENDED_FEATURE_FLAGS 2 3),
     (''FEATURE_AVX512VBMI2'', CPUID_BIT CPUID_EXTENDED_FEATURE_FLAGS 2 6),
     (''FEATURE_AVX512VNNI'', CPUID_BIT CPUID_EXTENDED_FEATURE_FLAGS 2 11),
     (''FEATURE_AVX512BITALG'', CPUID_BIT CPUID_EXTENDED_FEATURE_FLAGS 2 12),
     (''FEATURE_AVX512VPDQ'', CPUID_BIT CPUID_EXTENDED_FEATURE_FLAGS 2 14),
     (''FEATURE_AVX512QVNNIW'', CPUID_BIT CPUID_EXTENDED_FEATURE_FLAGS 3 2),
     (''FEATURE_AVX512QFMA'', CPUID_BIT CPUID_EXTENDED_FEATURE_FLAGS 3 3),
     (''FEATURE_MD_CLEAR'', CPUID_BIT CPUID_EXTENDED_FEATURE_FLAGS 3 10),
     (''FEATURE_IBRS_IBPB'', CPUID_BIT CPUID_EXTENDED_FEATURE_FLAGS 3 26),
     (''FEATURE_STIBP'', CPUID_BIT CPUID_EXTENDED_FEATURE_FLAGS 3 27),
     (''FEATURE_L1D_FLUSH'', CPUID_BIT CPUID_EXTENDED_FEATURE_FLAGS 3 28),
     (''FEATURE_ARCH_CAPABILITIES'', CPUID_BIT CPUID_EXTENDED_FEATURE_FLAGS 3 29),
     (''FEATURE_SSBD'', CPUID_BIT CPUID_EXTENDED_FEATURE_FLAGS 3 31),
     (''FEATURE_AMD_TOPO'', CPUID_BIT CPUID_FEATS 2 22),
     (''FEATURE_SYSCALL'', CPUID_BIT CPUID_FEATS 3 11),
     (''FEATURE_NX'', CPUID_BIT CPUID_FEATS 3 20),
     (''FEATURE_HUGE_PAGE'', CPUID_BIT CPUID_FEATS 3 26),
     (''FEATURE_RDTSCP'', CPUID_BIT CPUID_FEATS 3 27),
     (''FEATURE_INVLPGB'', CPUID_BIT CPUID_ADDR_WIDTH 1 3)]"

subsection \<open>Queries\<close>

type_synonym cpuid = "u32 \<Rightarrow> u32 \<Rightarrow> u32 \<times> u32 \<times> u32 \<times> u32"

text \<open>
  The first query asks for the highest leaf, of the basic or of the extended range by the top bit of
  the leaf asked for; the answer is kept.  This query is made with subleaf 0 here; the code leaves the
  register of the subleaf as it happens to be, and the two leaves it asks for have no subleaves.
\<close>

definition read_cpuid :: "cpuid \<Rightarrow> u32 \<Rightarrow> u32 \<Rightarrow> u32 \<Rightarrow> (int \<times> CpuidLeaf) \<times> u32" where
  "read_cpuid cpuid cpuid_max leaf_num subleaf_num =
     (let cpuid_max = (if cpuid_max = 0 then fst (cpuid (leaf_num AND 0x80000000) 0) else cpuid_max) in
      if leaf_num > cpuid_max then ((SYSTEM_ERR_INVALID_ARGS, \<lparr>leaf_values = [0, 0, 0, 0]\<rparr>), cpuid_max)
      else let (a, b, c, d) = cpuid leaf_num subleaf_num in ((SYSTEM_OK, \<lparr>leaf_values = [a, b, c, d]\<rparr>), cpuid_max))"

definition test_feature :: "cpuid \<Rightarrow> u32 \<Rightarrow> CpuidBit \<Rightarrow> bool \<times> u32" where
  "test_feature cpuid cpuid_max b =
     (if cb_word b > 3 \<or> cb_bit b > 31 then (False, cpuid_max)
      else let ((ret, leaf), cpuid_max) = read_cpuid cpuid cpuid_max (cb_leaf b) 0
           in if ret \<noteq> SYSTEM_OK then (False, cpuid_max)
              else (push_bit (unat (cb_bit b)) 1 AND leaf_values leaf ! unat (cb_word b) \<noteq> 0, cpuid_max))"

subsection \<open>Registers\<close>

record control =
  cr0 :: u64
  cr2 :: u64
  cr3_reg :: u64
  cr4 :: u64
  msrs :: "u32 \<Rightarrow> u64"

definition read_cr0 :: "control \<Rightarrow> u64" where "read_cr0 c = cr0 c"
definition read_cr2 :: "control \<Rightarrow> u64" where "read_cr2 c = cr2 c"
definition read_cr3 :: "control \<Rightarrow> u64" where "read_cr3 c = cr3_reg c"
definition read_cr4 :: "control \<Rightarrow> u64" where "read_cr4 c = cr4 c"
definition write_cr0 :: "u64 \<Rightarrow> control \<Rightarrow> control" where "write_cr0 value c = c\<lparr>cr0 := value\<rparr>"
definition write_cr2 :: "u64 \<Rightarrow> control \<Rightarrow> control" where "write_cr2 value c = c\<lparr>cr2 := value\<rparr>"
definition write_cr3 :: "u64 \<Rightarrow> control \<Rightarrow> control" where "write_cr3 value c = c\<lparr>cr3_reg := value\<rparr>"
definition write_cr4 :: "u64 \<Rightarrow> control \<Rightarrow> control" where "write_cr4 value c = c\<lparr>cr4 := value\<rparr>"

text \<open>The instructions \<^verbatim>\<open>rdmsr\<close> and \<^verbatim>\<open>wrmsr\<close> move a value in two halves, \<^verbatim>\<open>EDX\<close> and \<^verbatim>\<open>EAX\<close>.\<close>

definition rdmsr :: "u32 \<Rightarrow> control \<Rightarrow> u32 \<times> u32" where
  "rdmsr msr c = (ucast (drop_bit 32 (msrs c msr)), ucast (msrs c msr))"

definition wrmsr :: "u32 \<Rightarrow> u32 \<Rightarrow> u32 \<Rightarrow> control \<Rightarrow> control" where
  "wrmsr msr edx eax c = c\<lparr>msrs := (msrs c)(msr := push_bit 32 (ucast edx) OR ucast eax)\<rparr>"

definition read_msr :: "u32 \<Rightarrow> control \<Rightarrow> u64" where
  "read_msr msr c = (let (edx, eax) = rdmsr msr c in push_bit 32 (ucast edx) OR ucast eax)"

definition write_msr :: "u32 \<Rightarrow> u64 \<Rightarrow> control \<Rightarrow> control" where
  "write_msr msr value c =
     (let edx = ucast (drop_bit 32 value); eax = ucast value in wrmsr msr edx eax c)"

lemma halves: "push_bit 32 (ucast (ucast (drop_bit 32 w) :: u32)) OR ucast (ucast w :: u32) = w" (is "?l = w") for w :: u64
proof (rule bit_word_eqI)
  fix n
  assume "n < LENGTH(64)"
  then show "bit ?l n = bit w n" by (cases "32 \<le> n") (auto simp: bit_simps)
qed

lemma msr_read_write: "read_msr msr (write_msr r v c) = (if msr = r then v else read_msr msr c)"
  by (simp add: read_msr_def rdmsr_def write_msr_def wrmsr_def halves)

subsection \<open>The table\<close>

lemma features_wf: "\<forall>(name, b) \<in> set features. cb_word b \<le> 3 \<and> cb_bit b \<le> 31"
  by code_simp

lemma features_distinct: "distinct (map fst features) \<and> distinct (map snd features)"
  by code_simp

definition register :: "u32 \<times> u32 \<times> u32 \<times> u32 \<Rightarrow> u8 \<Rightarrow> u32" where
  "register r w = (case r of (a, b, c, d) \<Rightarrow> if w = 0 then a else if w = 1 then b else if w = 2 then c else d)"

lemma register_nth: "w \<le> 3 \<Longrightarrow> [a, b, c, d] ! unat w = register (a, b, c, d) w"
proof -
  assume "w \<le> 3"
  then have "w = 0 \<or> w = 1 \<or> w = 2 \<or> w = 3" by (auto simp: word_le_nat_alt word_unat_eq_iff)
  then show ?thesis by (auto simp: register_def)
qed

lemma test_feature_value:
  assumes "cb_word b \<le> 3" "cb_bit b \<le> 31" "highest = (if mx = 0 then fst (cpuid (cb_leaf b AND 0x80000000) 0) else mx)"
  shows "test_feature cpuid mx b =
    (cb_leaf b \<le> highest \<and> bit (register (cpuid (cb_leaf b) 0) (cb_word b)) (unat (cb_bit b)), highest)"
proof -
  have w: "\<not> 3 < cb_word b" "\<not> 31 < cb_bit b" using assms(1,2) by simp_all
  have m: "push_bit (unat (cb_bit b)) 1 AND r \<noteq> 0 \<longleftrightarrow> bit r (unat (cb_bit b))" for r :: u32
    using bit_iff_and_push_bit_not_eq_0 [of r "unat (cb_bit b)"] by (simp add: and.commute)
  obtain p q r t where c: "cpuid (cb_leaf b) 0 = (p, q, r, t)" by (cases "cpuid (cb_leaf b) 0")
  have "read_cpuid cpuid mx (cb_leaf b) 0 = (if highest < cb_leaf b then ((SYSTEM_ERR_INVALID_ARGS, \<lparr>leaf_values = [0, 0, 0, 0]\<rparr>), highest)
      else ((SYSTEM_OK, \<lparr>leaf_values = [p, q, r, t]\<rparr>), highest))"
    unfolding read_cpuid_def Let_def assms(3) [symmetric] c by simp
  then show ?thesis
    by (cases "highest < cb_leaf b")
      (simp_all add: test_feature_def w m [simplified] c not_less [symmetric] register_nth [OF assms(1)] SYSTEM_OK_def SYSTEM_ERR_INVALID_ARGS_def)
qed

text \<open>
  C32: every feature of the table can be asked for: none is refused as malformed, and no two names
  share a bit.  The first query of all is answered by the bit of the register that the entry names, if
  the processor has the leaf.  Once a basic leaf has been asked for and the highest basic leaf is
  kept, every feature of an extended leaf is reported as missing, whatever the processor has: huge
  pages, \<^verbatim>\<open>syscall\<close> and the no-execute bit among them.
\<close>

theorem feature_queries:
  assumes "(name, b) \<in> set features"
  shows "fst (test_feature cpuid 0 b) =
      (cb_leaf b \<le> fst (cpuid (cb_leaf b AND 0x80000000) 0) \<and> bit (register (cpuid (cb_leaf b) 0) (cb_word b)) (unat (cb_bit b))) \<and>
    (0 < mx \<and> mx < 0x80000000 \<and> bit (cb_leaf b) 31 \<longrightarrow> test_feature cpuid mx b = (False, mx)) \<and>
    (\<forall>other. (other, b) \<in> set features \<longrightarrow> other = name)"
proof -
  have wf: "cb_word b \<le> 3" "cb_bit b \<le> 31" using assms features_wf by auto
  have "test_feature cpuid mx b = (False, mx)" if "0 < mx" "mx < 0x80000000" "bit (cb_leaf b) 31"
  proof -
    have "0x80000000 \<le> cb_leaf b"
    proof (rule ccontr)
      assume "\<not> 0x80000000 \<le> cb_leaf b"
      then have "unat (cb_leaf b) < 2 ^ 31" by (simp add: word_le_nat_alt)
      moreover have "bit (unat (cb_leaf b)) 31" using that(3) by (simp add: bit_unsigned_iff)
      ultimately show False by (simp add: bit_iff_odd)
    qed
    then have "\<not> cb_leaf b \<le> mx" using that(2) by (meson leD order.trans not_le)
    moreover have "mx \<noteq> 0" using that(1) by auto
    ultimately show ?thesis by (subst test_feature_value [OF wf refl]) simp
  qed
  moreover have "other = name" if "(other, b) \<in> set features" for other
    using that assms features_distinct unfolding distinct_map inj_on_def by (metis prod.inject snd_conv)
  ultimately show ?thesis by (subst test_feature_value [OF wf refl]) auto
qed

theorem feature_queries_witness:
  "let cpuid = (\<lambda>leaf sub. if leaf = 0 then (0x16, 0, 0, 0) else if leaf = 0x80000000 then (0x80000008, 0, 0, 0) else (0, 0, 0, - 1)) in
   fst (test_feature cpuid 0 (CPUID_BIT CPUID_FEATS 3 26)) \<and> test_feature cpuid 0x16 (CPUID_BIT CPUID_FEATS 3 26) = (False, 0x16)"
proof -
  let ?cpuid = "\<lambda>leaf sub. if leaf = 0 then (0x16, 0, 0, 0) else if leaf = 0x80000000 then (0x80000008, 0, 0, 0) else (0, 0, 0, - 1)"
  have "(''FEATURE_HUGE_PAGE'', CPUID_BIT CPUID_FEATS 3 26) \<in> set features" by code_simp
  from feature_queries [OF this, of ?cpuid "0x16"] show ?thesis
    by (simp add: Let_def CPUID_BIT_def CPUID_FEATS_def register_def)
qed

end
