(* ===== verification/Runtime.thy ===== *)
theory Runtime
  imports Prelude
begin

text \<open>
  The registry of destructors that the compiler's code calls, \<^verbatim>\<open>libs/__cxa_atexit.c\<close>.  Functions and objects
  are addresses; the array has a fixed number of slots and a counter.
\<close>

record AtExitFuncs =
  destructor_func :: u64
  obj_ptr :: u64
  dso_handle :: u64

definition ATEXIT_MAX_FUNCS :: nat where "ATEXIT_MAX_FUNCS = 128"

record atexit =
  atexit_funcs :: "AtExitFuncs list"
  atexit_func_count :: nat

definition cxa_atexit :: "u64 \<Rightarrow> u64 \<Rightarrow> u64 \<Rightarrow> atexit \<Rightarrow> int \<times> atexit" where
  "cxa_atexit func objptr dso s =
     (if atexit_func_count s \<ge> ATEXIT_MAX_FUNCS then (- 1, s)
      else let i = atexit_func_count s;
               s = s\<lparr>atexit_funcs := (atexit_funcs s)[i := (atexit_funcs s ! i)\<lparr>destructor_func := func\<rparr>]\<rparr>;
               s = s\<lparr>atexit_funcs := (atexit_funcs s)[i := (atexit_funcs s ! i)\<lparr>obj_ptr := objptr\<rparr>]\<rparr>;
               s = s\<lparr>atexit_funcs := (atexit_funcs s)[i := (atexit_funcs s ! i)\<lparr>dso_handle := dso\<rparr>]\<rparr>
           in (0, s\<lparr>atexit_func_count := atexit_func_count s + 1\<rparr>))"

text \<open>The registered entries, in the order of registration.\<close>

definition atexit_wf :: "atexit \<Rightarrow> bool" where
  "atexit_wf s \<longleftrightarrow> length (atexit_funcs s) = ATEXIT_MAX_FUNCS \<and> atexit_func_count s \<le> ATEXIT_MAX_FUNCS"

definition registered :: "atexit \<Rightarrow> AtExitFuncs list" where
  "registered s = take (atexit_func_count s) (atexit_funcs s)"

lemma cxa_atexit_registers:
  assumes "atexit_wf s" "e = \<lparr>destructor_func = func, obj_ptr = objptr, dso_handle = dso\<rparr>"
  shows "if length (registered s) < 128
    then \<exists>s'. cxa_atexit func objptr dso s = (0, s') \<and> atexit_wf s' \<and> registered s' = registered s @ [e]
    else cxa_atexit func objptr dso s = (- 1, s)"
proof -
  have len: "length (registered s) = atexit_func_count s" using assms(1) by (simp add: atexit_wf_def registered_def)
  show ?thesis
  proof (cases "atexit_func_count s < 128")
    case True
    let ?i = "atexit_func_count s"
    let ?s = "s\<lparr>atexit_funcs := (atexit_funcs s)[?i := e], atexit_func_count := ?i + 1\<rparr>"
    have "r\<lparr>destructor_func := func, obj_ptr := objptr, dso_handle := dso\<rparr> = e" for r :: AtExitFuncs by (cases r) (simp add: assms(2))
    then have "cxa_atexit func objptr dso s = (0, ?s)"
      using True assms(1) by (simp add: cxa_atexit_def ATEXIT_MAX_FUNCS_def atexit_wf_def Let_def)
    moreover have "atexit_wf ?s" using True assms(1) by (simp add: atexit_wf_def ATEXIT_MAX_FUNCS_def)
    moreover have "registered ?s = registered s @ [e]"
      using True assms(1) by (simp add: registered_def atexit_wf_def ATEXIT_MAX_FUNCS_def take_Suc_conv_app_nth)
    ultimately show ?thesis using True len by auto
  next
    case False
    then show ?thesis using len by (simp add: cxa_atexit_def ATEXIT_MAX_FUNCS_def)
  qed
qed

end
