(* ===== verification/Spec2Isabelle.thy ===== *)
theory Spec2Isabelle
  imports Memcmp Strings Stdlib Print Kernel_Map Buddy_Resize Heap Exceptions Uart Features Runtime
begin

text \<open>
  \<^bold>\<open>Phoebe: a verification library for the kernel and its C library.\<close>

  Phoebe is a 64-bit hobby kernel for AMD64 with a freestanding C library.  The library under
  \<^verbatim>\<open>src/libc\<close> serves the kernel under \<^verbatim>\<open>src/kernel\<close>: the allocators clear and copy memory with \<^verbatim>\<open>memset\<close> and
  \<^verbatim>\<open>memcpy\<close>, the logger formats with \<^verbatim>\<open>vsnprintf\<close>, and every shared structure is protected by the ticket
  lock.  The physical allocator hands out pages; the page tables are built in such pages; the
  virtual memory manager allocates pages and maps them.

  \<^bold>\<open>The model.\<close>  Machine integers are words of their width, with wrap-around.  Memory is a function from
  64-bit addresses to bytes (\<open>mem\<close> in \<open>Prelude\<close>); pointers are addresses, null is 0.  Stateful code passes a
  record of its globals.  A C loop is a \<open>function\<close> with a measure, or a \<open>partial_function\<close> whose value is
  \<open>None\<close> when the scan does not end.  Panics, failed assertions and locks that are never released are
  values of error types, on the left of a sum.  What the boot loader reports (the offset of the
  higher half, the paging mode, the memory map) and the write function of a device are parameters.

  \<^bold>\<open>Theories and sources.\<close>
  \<^item> \<open>Prelude\<close>: words, byte memory, reference copies and fills, forward simulation, error codes of
    \<^verbatim>\<open>libc/include/errno.h\<close>.
  \<^item> \<open>Memcopy\<close>, \<open>Memset\<close>, \<open>Memcmp\<close>: \<^verbatim>\<open>libc/string/memcopy.h\<close>, \<^verbatim>\<open>memcopy.c\<close>, \<^verbatim>\<open>memcpy.c\<close>, \<^verbatim>\<open>memmove.c\<close>, \<^verbatim>\<open>memset.c\<close>, \<^verbatim>\<open>memcmp.c\<close>,
    one definition per macro, helper and loop.  The word-at-a-time loops equal byte loops; \<open>memset\<close> fills
    the range it is shown to fill, which can be longer than asked for.
  \<^item> \<open>Strings\<close>: \<^verbatim>\<open>strlen.c\<close>, \<^verbatim>\<open>strcmp.c\<close>, \<^verbatim>\<open>strcpy.c\<close>, \<^verbatim>\<open>strcat.c\<close> over C strings in memory.
  \<^item> \<open>Ctype\<close>, \<open>Stdlib\<close>: \<^verbatim>\<open>ctype.c\<close> and \<^verbatim>\<open>libc/stdlib\<close>: character classes, number parsers, division.
  \<^item> \<open>Stdio\<close>, \<open>Print\<close>: \<^verbatim>\<open>libc/stdio\<close>: streams and the whole formatter.  Variadic arguments are a list of
    64-bit slots.
  \<^item> \<open>Lock\<close>, \<open>Scoped_Lock\<close>: \<^verbatim>\<open>kernel/include/lock.hpp\<close>.  The lock is a step relation with one step per atomic
    access and any number of processors; mutual exclusion, refinement of a queue and progress are
    proved there.  Its sequential operations serve the other components through the locale \<open>mutex\<close>.
  \<^item> \<open>Bitmap\<close>, \<open>Address\<close>, \<open>Physical\<close>, \<open>Physical_Init\<close>: \<^verbatim>\<open>libs/bitmap.hpp\<close>, \<^verbatim>\<open>memory/memory.hpp\<close>, \<^verbatim>\<open>memory/physical.cpp\<close>.  The locale
    \<open>bit_array\<close> is the interface of the bitmap, \<open>page_allocator\<close> that of the allocator.  The bitmap and the
    pages handed out share one memory, so that the invariant says that they do not overlap;
    \<open>Physical_Init\<close> shows that the initialization establishes it from the memory map.  A client that
    allocates and releases ranges in any order gets pages of its own and leaks none.
  \<^item> \<open>Page_Entry\<close>: \<^verbatim>\<open>mmu.hpp\<close>, the entry class of \<^verbatim>\<open>paging.hpp\<close>, flags and their conversion.
  \<^item> \<open>Page_Walk\<close>: trees of page tables in memory, without code.  \<open>Paging\<close>: the operations of \<^verbatim>\<open>PageMap\<close> in
    \<^verbatim>\<open>arch/amd64/memory/paging.cpp\<close>.  \<open>Address_Space\<close>: what these do to the tree, and the locale \<open>address_space\<close>
    that the clients use.  \<open>Page_Maps\<close>: mapping, translation, moving, unmapping of
    single pages and the splitting of large ones; \<open>Page_Ranges\<close>: a rule for loops over pages and ranges.
  \<^item> \<open>Virtual\<close>: \<^verbatim>\<open>memory/virtual.cpp\<close> on top of the page map and the physical allocator; what release does
    with a count is proved as the code has it.
  \<^item> \<open>Virtual_Alloc\<close>: \<^verbatim>\<open>virtual_allocate\<close> for any number of pages: the search is first fit, every page of the
    range found is mapped, to which frames is proved as the code has it, and it fails only for lack of
    physical pages.  A page that is allocated and freed leaves the address space as it was, and only
    frames of tables stay in use.
  \<^item> \<open>Kernel_Map\<close>: the initialization of the page map and of the virtual memory manager: from a fresh
    physical allocator to an address space in which the higher half is the physical memory.

  \<^item> \<open>Buddy_Bits\<close>, \<open>Bitset\<close>, \<open>Buddy_Tree\<close>, \<open>Buddy\<close>: the code of the heap's allocator \<^verbatim>\<open>memory/buddy_alloc.h\<close>, in the
    order arithmetic, bit sets, allocation tree, allocator.  Its structures lie in the flat memory.
  \<^item> \<open>Buddy_Spec\<close>, \<open>Buddy_Geometry\<close>: the abstract tree and the blocks of memory, without code: a set of
    allocated nodes none of which lies above another determines the status of every node.
    \<open>Buddy_Status\<close>, \<open>Buddy_Ops\<close>: the bits of the tree represent these statuses, and the operations of the tree
    refine the insertion and deletion of nodes.  \<open>Buddy_Correct\<close>, \<open>Buddy_Init\<close>, \<open>Buddy_Alloc\<close>: the invariant of
    the allocator, its initialization, and what its clients may rely on.  \<open>Buddy_Realloc\<close>: cleared and resized
    blocks and the checked release.  \<open>Buddy_Walk\<close>: the walk over the tree, which ends and visits the nodes in
    preorder, and the reports that use it.  \<open>Buddy_Resize\<close>: growing and shrinking.
  \<^item> \<open>Heap\<close>: \<^verbatim>\<open>memory/heap.cpp\<close>, \<^verbatim>\<open>libs/malloc.cpp\<close> and \<^verbatim>\<open>libs/new.cpp\<close>.  The locale \<open>block_store\<close> is what a client may
    rely on, for any sequence of calls.  The memory at the virtual addresses of the arena is a component
    of the state of its own, not tied to the frames behind it: since \<^verbatim>\<open>virtual_allocate\<close> maps frames it
    does not own from the second page on, the results on the heap hold as long as nobody else uses
    these frames.

  \<^item> \<open>Segments\<close>, \<open>Interrupts\<close>, \<open>Exceptions\<close>: \<^verbatim>\<open>cpu/gdt.cpp\<close>, \<^verbatim>\<open>gdt.S\<close>, \<^verbatim>\<open>idt.cpp\<close>, \<^verbatim>\<open>idt.S\<close>, \<^verbatim>\<open>cpu.cpp\<close>, \<^verbatim>\<open>libs/trace.c\<close>.  The tables lie
    in memory as packed bytes, and separate definitions say what the processor reads from them and
    when a segment load faults: after the initialization the selectors name segments of their types
    and every vector has a gate to its stub.  An interrupt is followed from the pushes of the processor,
    which are those of the architecture, and of the stub, with its own table of error codes, through
    the registers at the call of the handler to its report and the halt; reads of memory and the
    output of the logger are taken to return there.
  \<^item> \<open>Logger\<close>, \<open>Uart\<close>: \<^verbatim>\<open>logger.cpp\<close>, \<^verbatim>\<open>drivers/uart/uart.cpp\<close>, \<^verbatim>\<open>drivers/drivers.cpp\<close>.  The device behind the ports is a parameter;
    what \<^verbatim>\<open>docs/amd64/serials.md\<close> says of a read or a write is a relation on the registers, which leaves open
    when the transmitter sends and what becomes of a byte written to a full buffer.  Every device
    that satisfies it is configured as meant, and if its self test succeeds and its transmitter drains,
    a message of the logger reaches its wire.
  \<^item> \<open>Features\<close>, \<open>Runtime\<close>: \<^verbatim>\<open>cpu/features.cpp\<close> with its table of features, the register accessors of \<^verbatim>\<open>cpu.hpp\<close>, and the
    destructor registry \<^verbatim>\<open>libs/__cxa_atexit.c\<close>.

  \<^bold>\<open>Bounds.\<close>  \<open>map_page\<close> and the walk call each other; the nesting is cut at two calls, and
  \<open>map_page_n_stable\<close> shows that every larger bound gives the same function, because a nested call
  finds the lock taken.  A counter of a loop over pages that wraps around is the error
  \<open>Counter_wraps\<close>.

  \<^bold>\<open>Assumptions on the machine.\<close>  The lock runs on sequentially consistent memory, although the code uses
  weaker orders, and only a holder unlocks.  Physical page 0 is all zero in the results on page
  tables, because the code reads it as a table where one is absent.  The memory map and the globals
  lie outside of the memory that the allocators write.  A segment load does not set the accessed bit.

  \<^bold>\<open>Not modelled.\<close>  The macros of \<^verbatim>\<open>asm.h\<close> and \<^verbatim>\<open>arch_asm.h\<close> other than \<^verbatim>\<open>rdmsr64\<close>, which only the assembler uses, the return from an interrupt
  (no handler returns), the order of the calls in \<^verbatim>\<open>main.cpp\<close> and \<^verbatim>\<open>memory.cpp\<close>, and the requests to the boot loader in
  \<^verbatim>\<open>limine.c\<close>, whose answers are parameters.  The log messages of the memory components and of the
  initializations are left out of their models.
\<close>

section \<open>Printing and parsing numbers\<close>

lemma digits_at_text:
  assumes "\<And>i. i < length ds \<Longrightarrow> char_at m (p + of_nat i) = 48 + ds ! i" "\<forall>d \<in> set ds. 0 \<le> d \<and> d < 10"
    "char_at m (p + of_nat (length ds)) = 0"
  shows "digits_at m 10 p ds"
  using assms
proof (induction ds arbitrary: p)
  case Nil
  then show ?case by (simp add: digit_of_def ctype_defs)
next
  case (Cons d ds)
  have "digits_at m 10 (p + 1) ds"
    using Cons.prems(1) [of "Suc i" for i] Cons.prems(2,3) by (intro Cons.IH) (simp_all add: add.assoc)
  moreover have "char_at m p = 48 + d" using Cons.prems(1) [of 0] by simp
  ultimately show ?case using Cons.prems(2) by (auto simp: digit_of_def ctype_defs)
qed

lemma sint_char: "0 \<le> c \<Longrightarrow> c < 128 \<Longrightarrow> sint (word_of_int c :: u8) = c"
  by (simp add: sint_sbintrunc' take_bit_int_eq_self signed_take_bit_int_eq_self)

text \<open>The text that \<^verbatim>\<open>%ld\<close> produces is a numeral for \<^verbatim>\<open>strtol\<close>.\<close>

lemma decimal_text_numeral:
  assumes "m' = (write_bytes m buf (decimal_text a))(buf + of_nat (length (decimal_text a)) := 0)"
  shows "\<exists>p ds. numeral_text m' buf 10 (sint a < 0) 10 p ds \<and> horner 10 0 ds = \<bar>sint a\<bar>"
proof -
  let ?t = "decimal_text a" and ?k = "if sint a < 0 then 1 else 0 :: nat"
  obtain ds where t: "?t = (if sint a < 0 then [45] else []) @ map (\<lambda>d. 48 + d) ds" and ds: "ds \<noteq> []"
      "\<forall>d \<in> set ds. 0 \<le> d \<and> d < 10" "horner 10 0 ds = \<bar>sint a\<bar>" and len: "length ?t \<le> 20"
    using decimal_text_digits [of a] by blast
  have rng: "0 \<le> c \<and> c < 128" if "c \<in> set ?t" for c using that ds(2) by (auto simp: t split: if_splits)
  have ch: "char_at m' (buf + of_nat i) = ?t ! i" if "i < length ?t" for i
  proof -
    have "i < 18446744073709551616" "length ?t < 18446744073709551616" using len that by linarith+
    then have "(of_nat i :: u64) \<noteq> of_nat (length ?t)" using that by (metis less_irrefl unat_of_nat64)
    then show ?thesis
      using rng [of "?t ! i"] that len by (simp add: assms char_at_def write_bytes_nth sint_char)
  qed
  have lt: "length ?t = ?k + length ds" by (simp add: t)
  have "digits_at m' 10 (buf + of_nat ?k) ds"
  proof (rule digits_at_text)
    show "char_at m' (buf + of_nat ?k + of_nat i) = 48 + ds ! i" if "i < length ds" for i
      using ch [of "?k + i"] that by (simp add: lt t nth_append add.assoc)
    show "char_at m' (buf + of_nat ?k + of_nat (length ds)) = 0"
      unfolding add.assoc of_nat_add [symmetric] lt [symmetric] by (simp add: assms char_at_def)
  qed (rule ds(2))
  moreover have c0: "char_at m' buf = (if sint a < 0 then 45 else 48 + hd ds)"
    using ch [of 0] ds(1) by (auto simp: lt t hd_conv_nth)
  moreover have "0 \<le> hd ds" "hd ds < 10" using ds(1,2) by auto
  ultimately have "numeral_text m' buf 10 (sint a < 0) 10 (buf + of_nat ?k) ds"
    unfolding numeral_text_def by (intro conjI exI [of _ 0] exI [of _ "buf + of_nat ?k"]) (auto simp: ctype_defs)
  then show ?thesis using ds(3) by blast
qed

text \<open>
  C36: printing and parsing are inverse to each other.  \<^verbatim>\<open>snprintf\<close> with the format \<^verbatim>\<open>%ld\<close> into a buffer of more
  than 20 bytes succeeds, and \<^verbatim>\<open>strtol\<close> on that buffer in base 10 returns the number that was printed,
  for every 64-bit number, \<^verbatim>\<open>LONG_MIN\<close> included.
\<close>

theorem snprintf_strtol_roundtrip:
  assumes "literal_at m f [37, 108, 100]" "20 \<le> unat (f + 3 - buf)" "buf \<noteq> 0" "20 < unat maxlen"
  shows "\<exists>m'. snprintf m buf maxlen f [a] = Some (SYSTEM_OK, m') \<and> strtol m' buf 0 10 = Some (a, m')"
proof -
  define m' where m': "m' = (write_bytes m buf (decimal_text a))(buf + of_nat (length (decimal_text a)) := 0)"
  have "snprintf m buf maxlen f [a] = Some (SYSTEM_OK, m')"
    using vsnprintf_ld [OF assms] by (simp add: snprintf_def m')
  moreover obtain p ds where "numeral_text m' buf 10 (sint a < 0) 10 p ds" and h: "horner 10 0 ds = \<bar>sint a\<bar>"
    using decimal_text_numeral [OF m'] by blast
  moreover from this have st: "strtol m' buf 0 10 =
      Some (word_of_int (max (- (2 ^ 63)) (min (2 ^ 63 - 1) (if sint a < 0 then - \<bar>sint a\<bar> else \<bar>sint a\<bar>))), m')"
    using strtol_value [of m' buf 10 "sint a < 0" 10 p ds 0] by (simp add: h)
  have "- (2 ^ 63) \<le> sint a" "sint a < 2 ^ 63" using sint_greater_eq [of a] sint_less [of a] by simp_all
  then have e: "max (- (2 ^ 63)) (min (2 ^ 63 - 1) (if sint a < 0 then - \<bar>sint a\<bar> else \<bar>sint a\<bar>)) = sint a"
    by (auto simp: max_def min_def abs_if)
  have "strtol m' buf 0 10 = Some (a, m')" using st unfolding e by simp
  ultimately show ?thesis by blast
qed

theorem snprintf_strtol_roundtrip_witness:
  "let m = (\<lambda>_. 0)(16 := 37, 17 := 108, 18 := 100) in
   \<exists>m'. snprintf m 64 32 16 [- 42] = Some (SYSTEM_OK, m') \<and> strtol m' 64 0 10 = Some (- 42, m')"
  using snprintf_strtol_roundtrip [of "(\<lambda>_. 0)(16 := 37, 17 := 108, 18 := 100)" 16 64 32 "- 42"]
  by (simp add: Let_def)

text \<open>
  C8: the two stages of the boot compose, on these conditions.  The memory map is well-formed
  (\<open>memmap_ok\<close>): its entries are page-aligned and disjoint, the higher half has room for them, one usable
  entry can hold the bitmap, and the bitmap has a bit for every page, which the division in
  \<^verbatim>\<open>physical.cpp:58\<close> does not ensure for all maps.  The usable memory ends below 64 terabytes, and so do the
  regions of the map (\<open>region_ok\<close>); the higher half is page-aligned and has room for 64 terabytes
  (\<open>window\<close>).  Physical page 0 is all zero: the code takes it for a table where one is
  absent (\<^verbatim>\<open>paging.cpp:187\<close>), and nothing in the code clears it.  Then \<^verbatim>\<open>physical_initialize\<close> returns;
  \<^verbatim>\<open>virtual_initialize\<close> on the memory map and the allocator it leaves can only fail for lack of memory, and
  otherwise every address of the first four gigabytes that the kernel's own mapping has not
  replaced is reachable through the higher half.
\<close>

theorem boot_memory:
  assumes "memmap_ok (hhdm b) memmaps" "highest_usable memmaps \<le> 70368744177664" "window b"
    "\<And>x. unat (x - hhdm b) < 4096 \<Longrightarrow> m x = 0"
    "memmaps' = take_bitmap (bitmap_bytes (highest_usable memmaps)) memmaps"
    "\<forall>e \<in> set memmaps'. region_ok e" "pages_between 0 kernel_size n"
  shows "\<exists>ph. physical_initialize (hhdm b) memmaps (phys_boot m) = Inr (memmaps', ph) \<and>
    (case virtual_initialize b huge memmaps' kernel_size virtual_base physical_base (vm_boot ph) of
      Inl e \<Rightarrow> e = Phys_error Out_of_memory
    | Inr (_, st') \<Rightarrow> \<forall>a. unat a < 4294967296 \<and> vpage b (hhdm b + a) \<notin> fst ` kernel_entries b virtual_base physical_base n \<longrightarrow>
        (\<exists>st''. virtual_to_physical b (to_higher_half (hhdm b) a) 0 st' = Inr (a, st'')))"
proof -
  obtain ph where ph: "physical_initialize (hhdm b) memmaps (phys_boot m) = Inr (memmaps', ph)"
    using initialize_phys_inv [OF assms(1), of m] assms(5) by blast
  note ready = ready_after_physical [OF assms(1,2,4) ph]
  show ?thesis
  proof (intro exI [of _ ph] conjI ph, cases "virtual_initialize b huge memmaps' kernel_size virtual_base physical_base (vm_boot ph)")
    case (Inl e)
    then show "case virtual_initialize b huge memmaps' kernel_size virtual_base physical_base (vm_boot ph) of
      Inl e \<Rightarrow> e = Phys_error Out_of_memory
    | Inr (_, st') \<Rightarrow> \<forall>a. unat a < 4294967296 \<and> vpage b (hhdm b + a) \<notin> fst ` kernel_entries b virtual_base physical_base n \<longrightarrow>
        (\<exists>st''. virtual_to_physical b (to_higher_half (hhdm b) a) 0 st' = Inr (a, st''))"
      using initialize_maps [where huge = huge and virtual_base = virtual_base and physical_base = physical_base, OF ready assms(6,7)] by simp
  next
    case (Inr y)
    then show "case virtual_initialize b huge memmaps' kernel_size virtual_base physical_base (vm_boot ph) of
      Inl e \<Rightarrow> e = Phys_error Out_of_memory
    | Inr (_, st') \<Rightarrow> \<forall>a. unat a < 4294967296 \<and> vpage b (hhdm b + a) \<notin> fst ` kernel_entries b virtual_base physical_base n \<longrightarrow>
        (\<exists>st''. virtual_to_physical b (to_higher_half (hhdm b) a) 0 st' = Inr (a, st''))"
      using initialize_linear [OF ready assms(3,6,7)] by (cases y) auto
  qed
qed

theorem boot_memory_witness:
  "\<exists>ph. physical_initialize hhdm_example memmap_small (phys_boot (\<lambda>_. 0)) = Inr (take_bitmap 4096 memmap_small, ph) \<and>
    (case virtual_initialize boot_machine True (take_bitmap 4096 memmap_small) 0x10000 0xFFFFFFFF80000000 0x200000 (vm_boot ph) of
      Inl e \<Rightarrow> e = Phys_error Out_of_memory
    | Inr (_, st') \<Rightarrow> \<exists>st''. virtual_to_physical boot_machine (to_higher_half hhdm_example 0x1234567) 0 st' = Inr (0x1234567, st''))"
proof -
  have h: "hhdm boot_machine = hhdm_example" by (simp add: boot_machine_def)
  have es: "take_bitmap 4096 memmap_small = take_bitmap (bitmap_bytes (highest_usable memmap_small)) memmap_small"
    by (simp add: memmap_small_facts)
  have ok: "\<forall>e \<in> set (take_bitmap 4096 memmap_small). region_ok e" by (simp add: memmap_small_def region_ok_def)
  have w: "window boot_machine" by (simp add: window_def h hhdm_example_def)
  have "memmap_ok (hhdm boot_machine) memmap_small" "highest_usable memmap_small \<le> 70368744177664"
    using memmap_small_facts by (simp_all add: h)
  from boot_memory [where m = "\<lambda>_. 0" and huge = True and virtual_base = "0xFFFFFFFF80000000" and physical_base = "0x200000",
      OF this w refl es ok large_kernel]
  show ?thesis
  proof (elim exE conjE, intro exI conjI)
    fix ph
    let ?v = "virtual_initialize boot_machine True (take_bitmap 4096 memmap_small) 0x10000 0xFFFFFFFF80000000 0x200000 (vm_boot ph)"
    assume "physical_initialize (hhdm boot_machine) memmap_small (phys_boot (\<lambda>_. 0)) = Inr (take_bitmap 4096 memmap_small, ph)"
    then show "physical_initialize hhdm_example memmap_small (phys_boot (\<lambda>_. 0)) = Inr (take_bitmap 4096 memmap_small, ph)" by (simp add: h)
    assume "case ?v of Inl e \<Rightarrow> e = Phys_error Out_of_memory
      | Inr (_, st') \<Rightarrow> \<forall>a. unat a < 4294967296 \<and> vpage boot_machine (hhdm boot_machine + a) \<notin>
            fst ` kernel_entries boot_machine 0xFFFFFFFF80000000 0x200000 16 \<longrightarrow>
          (\<exists>st''. virtual_to_physical boot_machine (to_higher_half (hhdm boot_machine) a) 0 st' = Inr (a, st''))"
    then show "case ?v of Inl e \<Rightarrow> e = Phys_error Out_of_memory
      | Inr (_, st') \<Rightarrow> \<exists>st''. virtual_to_physical boot_machine (to_higher_half hhdm_example 0x1234567) 0 st' = Inr (0x1234567, st'')"
      using kernel_entries_far by (cases ?v) (auto simp: h)
  qed
qed

end
